(* ===== verification/Honyar_Prelude.thy ===== *)
theory Honyar_Prelude
  imports Main "HOL-Library.Word" "HOL-Library.Monad_Syntax"
begin

text \<open>
  Shared vocabulary of the development: status codes of the C sources, the C library functions
  on strings that the gateway code calls, and the lemmas on lists and words that several
  components use.

  Conventions. A C function that can run into undefined behaviour (an access outside an array, a
  dereference of an invalid pointer, a division by zero) or that may not return is a function
  into \<open>option\<close>: \<open>None\<close> means that no defined result exists. A pointer is a natural
  number, \<open>0\<close> is \<open>NULL\<close>. A C string is the list of its characters before the terminating
  zero byte. Log output (\<open>HY_DEBUG\<close>, \<open>HY_INFO\<close>, \<open>HY_ERROR\<close>, \<open>HY_TRACE\<close>) has no effect on
  the state and is not modelled.
\<close>

unbundle bit_operations_syntax

named_theorems c_lib \<open>unfolding rules of the C library functions\<close>
named_theorems word_bits \<open>bit-level facts on condition words\<close>

section \<open>Status codes\<close>

type_synonym ptr = nat
type_synonym status = int
type_synonym u32 = "32 word"
type_synonym u8 = "8 word"

abbreviation (input) NULL :: ptr where "NULL \<equiv> 0"

definition NoErr :: status where "NoErr = 0"
definition ParaErr :: status where "ParaErr = -251"
definition HeapReqErr :: status where "HeapReqErr = -252"
definition MutexLockErr :: status where "MutexLockErr = -255"
definition NotFoundErr :: status where "NotFoundErr = -257"
definition SceneAddErr :: status where "SceneAddErr = -287"
definition SceneDelErr :: status where "SceneDelErr = -288"
definition SceneSetErr :: status where "SceneSetErr = -289"
definition SceneGetErr :: status where "SceneGetErr = -290"

lemmas status_defs = NoErr_def ParaErr_def HeapReqErr_def MutexLockErr_def NotFoundErr_def
  SceneAddErr_def SceneDelErr_def SceneSetErr_def SceneGetErr_def

section \<open>Data base statements\<close>

text \<open>Statements sent to the data base: table, columns and values, and the columns of the \<open>WHERE\<close> clause; creating
  a table, adding a column and giving it a value where it has none. The
  status of the asynchronous data base call for a statement is a parameter. In the initialisation phase of
  an object nothing is sent; a failure becomes the error of the caller.\<close>

datatype db_stmt =
    Db_Insert string "(string \<times> string) list"
  | Db_Update string "(string \<times> string) list" "(string \<times> string) list"
  | Db_Delete string "(string \<times> string) list"
  | Db_Drop string
  | Db_Create string "string list"
  | Db_Alter string string
  | Db_Default string string string

type_synonym db_calls = "db_stmt list"

definition db_write :: "(db_stmt \<Rightarrow> status) \<Rightarrow> u8 \<Rightarrow> db_stmt \<Rightarrow> status \<Rightarrow> status \<times> db_calls" where
  "db_write db ucInitFlag st err = (if ucInitFlag = 1 then (NoErr, [])
     else if db st \<noteq> NoErr then (err, [st]) else (NoErr, [st]))"

section \<open>C strings\<close>

text \<open>
  \<open>strcmp\<close> and \<open>strncmp\<close> are specified by the sign of their result only, so the model returns
  \<open>-1\<close>, \<open>0\<close> or \<open>1\<close>.
\<close>

fun strcmp :: "string \<Rightarrow> string \<Rightarrow> int" where
  "strcmp [] [] = 0"
| "strcmp [] (b # bs) = -1"
| "strcmp (a # as) [] = 1"
| "strcmp (a # as) (b # bs) =
     (if (of_char a :: nat) < of_char b then -1
      else if (of_char b :: nat) < of_char a then 1
      else strcmp as bs)"

definition strncmp :: "string \<Rightarrow> string \<Rightarrow> nat \<Rightarrow> int" where
  "strncmp a b n = strcmp (take n a) (take n b)"

text \<open>The characters a buffer of \<open>n\<close> bytes holds after \<open>strncpy(dst, src, n)\<close>: the function fills the rest
  of the \<open>n\<close> bytes with zeros, and leaves no terminator when the source has \<open>n\<close> or more characters. The definitions
  keep these at most \<open>n\<close> characters, which is all that \<open>strncmp\<close> and \<open>strncpy\<close> with the same bound see of the field. A
  function that reads a field of \<open>n\<close> characters as a terminated string runs on behind it; the theorems about texts that
  come back therefore ask for fewer than \<open>n\<close> characters.\<close>

definition strncpy :: "string \<Rightarrow> nat \<Rightarrow> string" where
  "strncpy src n = take n src"

text \<open>The string in a buffer of \<open>n\<close> bytes after \<open>snprintf(dst, n, ...)\<close> of the text \<open>s\<close>.\<close>

definition snprintf :: "nat \<Rightarrow> string \<Rightarrow> string" where
  "snprintf n s = take (n - 1) s"

definition strstr :: "string \<Rightarrow> string \<Rightarrow> bool" where
  "strstr hay needle = (\<exists>k \<in> set [0..<Suc (length hay)]. take (length needle) (drop k hay) = needle)"

definition isspace :: "char \<Rightarrow> bool" where
  "isspace c = (let n = (of_char c :: nat) in n = 32 \<or> 9 \<le> n \<and> n \<le> 13)"

definition is_digit :: "char \<Rightarrow> bool" where
  "is_digit c = (let n = (of_char c :: nat) in 48 \<le> n \<and> n \<le> 57)"

fun digits_val :: "int \<Rightarrow> string \<Rightarrow> int" where
  "digits_val acc [] = acc"
| "digits_val acc (c # cs) =
     (if is_digit c then digits_val (acc * 10 + (int (of_char c) - 48)) cs else acc)"

text \<open>
  \<open>atoi\<close>: leading white space, an optional sign, the longest run of digits. Outside the range of
  \<open>int\<close> the C function is undefined; the model returns the mathematical value.
\<close>

definition atoi :: "string \<Rightarrow> int" where
  "atoi s = (case dropWhile isspace s of
       [] \<Rightarrow> 0
     | c # cs \<Rightarrow> if c = CHR ''-'' then - digits_val 0 cs
                 else if c = CHR ''+'' then digits_val 0 cs
                 else digits_val 0 (c # cs))"

text \<open>The tokens that repeated calls of \<open>strtok_r(s, d, ..)\<close> return for a one-character delimiter.\<close>

fun split_on :: "char \<Rightarrow> string \<Rightarrow> string list" where
  "split_on d [] = [[]]"
| "split_on d (c # cs) =
     (if c = d then [] # split_on d cs
      else (case split_on d cs of [] \<Rightarrow> [[c]] | t # ts \<Rightarrow> (c # t) # ts))"

definition strtok :: "char \<Rightarrow> string \<Rightarrow> string list" where
  "strtok d s = filter (\<lambda>t. t \<noteq> []) (split_on d s)"

lemma of_char_nat_inj [simp]: "((of_char a :: nat) = of_char b) = (a = b)"
  by (rule of_char_eq_iff)

lemma strcmp_eq_0 [simp]: "strcmp a b = 0 \<longleftrightarrow> a = b"
proof (induction a b rule: strcmp.induct)
  case (4 a as b bs)
  have "\<not> (of_char a :: nat) < of_char b \<Longrightarrow> \<not> (of_char b :: nat) < of_char a \<Longrightarrow> a = b"
    using of_char_nat_inj [of a b] by linarith
  with 4 show ?case by auto
qed auto

lemma strcmp_refl [simp]: "strcmp a a = 0"
  by simp

lemma strcmp_range: "strcmp a b \<in> {-1, 0, 1}"
  by (induction a b rule: strcmp.induct) auto

lemma strcmp_antisym: "strcmp a b = - strcmp b a"
  by (induction a b rule: strcmp.induct) auto

lemma strncmp_eq_0: "strncmp a b n = 0 \<longleftrightarrow> take n a = take n b"
  by (simp add: strncmp_def)

lemma strncmp_eq_0_short [simp]:
  "length a < n \<Longrightarrow> length b < n \<Longrightarrow> strncmp a b n = 0 \<longleftrightarrow> a = b"
  by (simp add: strncmp_def)

lemma strncmp_eq_0_lit:
  "length b < n \<Longrightarrow> strncmp a b n = 0 \<longleftrightarrow> a = b"
proof -
  assume l: "length b < n"
  have "take n a = b \<longleftrightarrow> a = b"
  proof
    assume t: "take n a = b"
    have "length a < n"
    proof (rule ccontr)
      assume "\<not> length a < n"
      then have "length (take n a) = n" by simp
      with t l show False by simp
    qed
    with t show "a = b" by simp
  next
    assume "a = b"
    with l show "take n a = b" by simp
  qed
  with l show ?thesis by (simp add: strncmp_def)
qed

lemma strncpy_short [simp]: "length s \<le> n \<Longrightarrow> strncpy s n = s"
  by (simp add: strncpy_def)

lemma length_snprintf: "0 < n \<Longrightarrow> length (snprintf n s) < n"
  by (simp add: snprintf_def)

lemma snprintf_short [simp]: "length s < n \<Longrightarrow> snprintf n s = s"
  by (simp add: snprintf_def)

lemma digits_val_nonneg: "0 \<le> acc \<Longrightarrow> 0 \<le> digits_val acc s"
  by (induction s arbitrary: acc) (auto simp: is_digit_def Let_def)

lemma strtok_nonempty: "t \<in> set (strtok d s) \<Longrightarrow> t \<noteq> []"
  by (simp add: strtok_def)

lemma strtok_single: "s \<noteq> [] \<Longrightarrow> d \<notin> set s \<Longrightarrow> strtok d s = [s]"
proof -
  have "d \<notin> set s \<Longrightarrow> split_on d s = [s]"
    by (induction s) auto
  then show "s \<noteq> [] \<Longrightarrow> d \<notin> set s \<Longrightarrow> strtok d s = [s]"
    by (simp add: strtok_def)
qed

section \<open>Lists\<close>

lemma find_append: "List.find P (xs @ ys) =
    (case List.find P xs of None \<Rightarrow> List.find P ys | Some x \<Rightarrow> Some x)"
  by (induction xs) auto

lemma take_last_snoc: "drop (length (xs @ [x]) - n) (xs @ [x]) =
    (if n = 0 then [] else drop (length xs - (n - 1)) xs @ [x])"
  by (auto simp: Suc_diff_le)

section \<open>Lists with keys\<close>

text \<open>Several components keep a sequence of entries that are found by comparing keys: the search returns the
  first match, and changing or deleting an entry means the first match.\<close>

fun upd_first :: "('a \<Rightarrow> bool) \<Rightarrow> ('a \<Rightarrow> 'a) \<Rightarrow> 'a list \<Rightarrow> 'a list" where
  "upd_first P f [] = []"
| "upd_first P f (x # xs) = (if P x then f x # xs else x # upd_first P f xs)"

fun del_first :: "('a \<Rightarrow> bool) \<Rightarrow> 'a list \<Rightarrow> 'a list" where
  "del_first P [] = []"
| "del_first P (x # xs) = (if P x then xs else x # del_first P xs)"

fun distinct_by :: "('a \<Rightarrow> 'a \<Rightarrow> bool) \<Rightarrow> 'a list \<Rightarrow> bool" where
  "distinct_by R [] = True"
| "distinct_by R (x # xs) \<longleftrightarrow> (\<forall>y \<in> set xs. \<not> R x y) \<and> distinct_by R xs"

lemma set_del_first: "set (del_first P xs) \<subseteq> set xs"
  by (induction xs) auto

lemma set_upd_first: "set (upd_first P f xs) \<subseteq> set xs \<union> f ` set xs"
  by (induction xs) auto

lemma length_upd_first [simp]: "length (upd_first P f xs) = length xs"
  by (induction xs) auto

lemma length_del_first: "length (del_first P xs) = (if \<exists>x \<in> set xs. P x then length xs - 1 else length xs)"
  by (induction xs) (auto simp: Suc_diff_le dest: length_pos_if_in_set)

lemma del_first_snoc: "\<not> (\<exists>x \<in> set xs. P x) \<Longrightarrow> P y \<Longrightarrow> del_first P (xs @ [y]) = xs"
  by (induction xs) auto

lemma upd_first_id: "\<not> (\<exists>x \<in> set xs. P x) \<Longrightarrow> upd_first P f xs = xs"
  by (induction xs) auto

lemma del_first_id: "\<not> (\<exists>x \<in> set xs. P x) \<Longrightarrow> del_first P xs = xs"
  by (induction xs) auto

lemma find_upd_first: "(\<And>x. P x \<Longrightarrow> P (f x)) \<Longrightarrow> List.find P (upd_first P f xs) = map_option f (List.find P xs)"
  by (induction xs) auto

lemma find_ex: "List.find P xs \<noteq> None \<longleftrightarrow> (\<exists>x \<in> set xs. P x)"
  by (induction xs) auto

text \<open>The laws of the comparison that the keyed lists rely on.\<close>

locale keyed_list =
  fixes same :: "'a \<Rightarrow> 'a \<Rightarrow> bool"
  assumes refl: "same x x"
    and sym: "same x y \<Longrightarrow> same y x"
    and trans: "same x y \<Longrightarrow> same y z \<Longrightarrow> same x z"
begin

lemma distinct_del: "distinct_by same xs \<Longrightarrow> distinct_by same (del_first (same x) xs)"
  using set_del_first by (induction xs) fastforce+

lemma distinct_snoc: "distinct_by same xs \<Longrightarrow> \<not> (\<exists>y \<in> set xs. same x y) \<Longrightarrow> distinct_by same (xs @ [x])"
  using sym by (induction xs) auto

lemma distinct_cons: "distinct_by same xs \<Longrightarrow> \<not> (\<exists>y \<in> set xs. same x y) \<Longrightarrow> distinct_by same (x # xs)"
  by simp

lemma distinct_upd:
  assumes "distinct_by same xs" "\<And>y. same x y \<Longrightarrow> same y (f y)"
  shows "distinct_by same (upd_first (same x) f xs)"
  using assms(1)
proof (induction xs)
  case (Cons y ys)
  have new: "\<forall>z \<in> set ys. \<not> same (f y) z" if "same x y"
    using Cons.prems trans [OF assms(2) [OF that]] by auto
  have old: "\<forall>z \<in> set (upd_first (same x) f ys). \<not> same y z" if "\<not> same x y"
  proof
    fix z assume z: "z \<in> set (upd_first (same x) f ys)"
    have "z \<in> set ys \<or> (\<exists>w \<in> set ys. same x w \<and> z = f w)" using z by (induction ys) (auto split: if_splits)
    then show "\<not> same y z"
    proof
      assume "z \<in> set ys"
      then show ?thesis using Cons.prems by simp
    next
      assume "\<exists>w \<in> set ys. same x w \<and> z = f w"
      then obtain w where w: "w \<in> set ys" "same x w" "z = f w" by blast
      have "\<not> same y w" using Cons.prems w(1) by simp
      then show ?thesis using trans [OF _ sym [OF assms(2) [OF w(2)]], of y] w(3) by blast
    qed
  qed
  show ?case using Cons new old by auto
qed simp

lemma find_del: "distinct_by same xs \<Longrightarrow> List.find (same x) (del_first (same x) xs) = None"
proof (induction xs)
  case (Cons y ys)
  show ?case
  proof (cases "same x y")
    case True
    then have "\<not> (\<exists>z \<in> set ys. same x z)" using Cons.prems trans sym by (metis distinct_by.simps(2))
    then show ?thesis using True find_ex [of "same x" ys] by auto
  next
    case False
    then show ?thesis using Cons by simp
  qed
qed simp

lemma find_other:
  assumes "\<not> same x z"
  shows "List.find (same z) (del_first (same x) xs) = List.find (same z) xs"
    "List.find (same z) (xs @ [x]) = List.find (same z) xs"
    "(\<And>y. same x y \<Longrightarrow> same y (f y)) \<Longrightarrow> List.find (same z) (upd_first (same x) f xs) = List.find (same z) xs"
proof -
  have nz: "\<not> same z y" if "same x y" for y using assms that trans sym by blast
  show "List.find (same z) (del_first (same x) xs) = List.find (same z) xs" using nz by (induction xs) auto
  show "List.find (same z) (xs @ [x]) = List.find (same z) xs" using nz [OF refl] by (induction xs) auto
  show "(\<And>y. same x y \<Longrightarrow> same y (f y)) \<Longrightarrow> List.find (same z) (upd_first (same x) f xs) = List.find (same z) xs"
  proof -
    assume f: "\<And>y. same x y \<Longrightarrow> same y (f y)"
    have "\<not> same z (f y)" if "same x y" for y using nz [OF trans [OF that f [OF that]]] .
    with nz show ?thesis by (induction xs) auto
  qed
qed

end

end
