(* ===== verification/Circle_Queue.thy ===== *)
theory Circle_Queue
  imports Honyar_Prelude "HOL-Library.Multiset"
begin

text \<open>
  The ring buffer of \<open>hylink/src/local_scene/circle_queue.c\<close>: a fixed array of pointers with a
  front index, a rear index and an element count. \<open>push\<close> on a full queue drops the oldest
  element. The model keeps the C structure and its index arithmetic; \<open>free\<close> calls on stored
  values are recorded in the result. The abstraction \<open>cq_list\<close> is the list of stored values from
  the oldest to the newest, and the interface \<open>bounded_queue\<close> states what clients may rely on.
\<close>

section \<open>State and operations\<close>

record circle_queue =
  iSize :: int
  ucFreeValueEnable :: u8
  iCount :: int
  iFront :: int
  iRear :: int
  Elem :: "ptr list"

definition elem_at :: "circle_queue \<Rightarrow> int \<Rightarrow> ptr option" where
  "elem_at q i = (if 0 \<le> i \<and> i < int (length (Elem q)) then Some (Elem q ! nat i) else None)"

definition elem_put :: "circle_queue \<Rightarrow> int \<Rightarrow> ptr \<Rightarrow> circle_queue option" where
  "elem_put q i v = (if 0 \<le> i \<and> i < int (length (Elem q))
     then Some (q\<lparr>Elem := (Elem q)[nat i := v]\<rparr>) else None)"

text \<open>The remainder \<open>a % b\<close> of the index updates, undefined for a zero divisor; the operands
  are never negative where the code uses it.\<close>

definition c_mod :: "int \<Rightarrow> int \<Rightarrow> int option" where
  "c_mod a b = (if b = 0 then None else Some (a mod b))"

fun circle_queue_size :: "circle_queue option \<Rightarrow> int" where
  "circle_queue_size None = ParaErr"
| "circle_queue_size (Some q) = iSize q"

fun circle_queue_len :: "circle_queue option \<Rightarrow> int" where
  "circle_queue_len None = ParaErr"
| "circle_queue_len (Some q) = iCount q"

fun circle_queue_is_empty :: "circle_queue option \<Rightarrow> int" where
  "circle_queue_is_empty None = ParaErr"
| "circle_queue_is_empty (Some q) = (if iCount q \<noteq> 0 then 0 else 1)"

fun circle_queue_is_full :: "circle_queue option \<Rightarrow> int" where
  "circle_queue_is_full None = ParaErr"
| "circle_queue_is_full (Some q) = (if iSize q = iCount q then 1 else 0)"

fun circle_queue_pop :: "circle_queue option \<Rightarrow> (ptr \<times> circle_queue option) option" where
  "circle_queue_pop None = Some (NULL, None)"
| "circle_queue_pop (Some q) =
     (if circle_queue_is_empty (Some q) = 1 then Some (NULL, Some q)
      else do {
        pTmp \<leftarrow> elem_at q (iFront q);
        f \<leftarrow> c_mod (iFront q + 1) (iSize q);
        Some (pTmp, Some (q\<lparr>iFront := f, iCount := iCount q - 1\<rparr>))
      })"

text \<open>\<open>push\<close> returns the status, the new queue and the list of values passed to \<open>free\<close>.\<close>

fun circle_queue_push :: "circle_queue option \<Rightarrow> ptr \<Rightarrow> (status \<times> circle_queue option \<times> ptr list) option" where
  "circle_queue_push None v = Some (ParaErr, None, [])"
| "circle_queue_push (Some q) v =
     (if v = NULL then Some (ParaErr, Some q, [])
      else do {
        (q1, freed) \<leftarrow>
          (if circle_queue_is_full (Some q) = 1
           then do {
             (pTmp, t) \<leftarrow> circle_queue_pop (Some q);
             q' \<leftarrow> t;
             Some (q', if pTmp \<noteq> NULL \<and> ucFreeValueEnable q' \<noteq> 0 then [pTmp] else [])
           }
           else Some (q, []));
        q2 \<leftarrow> elem_put q1 (iRear q1) v;
        r \<leftarrow> c_mod (iRear q2 + 1) (iSize q2);
        Some (NoErr, Some (q2\<lparr>iRear := r, iCount := iCount q2 + 1\<rparr>), freed)
      })"

definition free_enabled :: "circle_queue option \<Rightarrow> bool" where
  "free_enabled t = (case t of None \<Rightarrow> False | Some q \<Rightarrow> ucFreeValueEnable q \<noteq> 0)"

partial_function (option) circle_queue_clear_loop ::
    "circle_queue option \<Rightarrow> ptr list \<Rightarrow> (circle_queue option \<times> ptr list) option" where
  "circle_queue_clear_loop t freed = do {
     (pTmp, t') \<leftarrow> circle_queue_pop t;
     if pTmp = NULL then Some (t', freed)
     else circle_queue_clear_loop t' (if free_enabled t' then freed @ [pTmp] else freed)
   }"

fun circle_queue_clear :: "circle_queue option \<Rightarrow> (status \<times> circle_queue option \<times> ptr list) option" where
  "circle_queue_clear None = Some (ParaErr, None, [])"
| "circle_queue_clear (Some q) = do {
     (t, freed) \<leftarrow> circle_queue_clear_loop (Some q) [];
     Some (NoErr, t, freed)
   }"

fun circle_queue_get_top :: "circle_queue option \<Rightarrow> ptr option" where
  "circle_queue_get_top None = Some NULL"
| "circle_queue_get_top (Some q) =
     (if circle_queue_is_empty (Some q) = 1 then Some NULL else elem_at q (iFront q))"

fun circle_queue_get_foot :: "circle_queue option \<Rightarrow> ptr option" where
  "circle_queue_get_foot None = Some NULL"
| "circle_queue_get_foot (Some q) =
     (if circle_queue_is_empty (Some q) = 1 then Some NULL
      else if iFront q < iRear q then elem_at q (iRear q - 1)
      else elem_at q (iRear q + 1))"

text \<open>
  The search loops run an array index \<open>i\<close> from \<open>a\<close> to \<open>e\<close> and a counter \<open>iCount\<close> along; a hit
  leaves the loop by \<open>break\<close>, so the counter keeps its value. The result is \<open>pTmp\<close> and \<open>iCount\<close>
  after the loop.
\<close>

function scan_by_id :: "circle_queue \<Rightarrow> int \<Rightarrow> int \<Rightarrow> int \<Rightarrow> int \<Rightarrow> ptr \<Rightarrow> (ptr \<times> int) option" where
  "scan_by_id q iIndex i e c pTmp =
     (if i < e then
        (if iIndex = c then map_option (\<lambda>v. (v, c)) (elem_at q i)
         else scan_by_id q iIndex (i + 1) e (c + 1) pTmp)
      else Some (pTmp, c))"
  by pat_completeness auto
termination
  by (relation "measure (\<lambda>(q, iIndex, i, e, c, p). nat (e - i))") auto

declare scan_by_id.simps [simp del]

definition circle_queue_get_by_id :: "circle_queue option \<Rightarrow> int \<Rightarrow> ptr option" where
  "circle_queue_get_by_id t iIndex = (case t of
     None \<Rightarrow> Some NULL
   | Some q \<Rightarrow>
      (if iIndex < 0 then Some NULL
       else if circle_queue_is_empty t = 1 then Some NULL
       else if circle_queue_len t \<le> iIndex then Some NULL
       else if iFront q < iRear q
       then map_option fst (scan_by_id q iIndex (iFront q) (iRear q) 0 NULL)
       else do {
         (pTmp, c) \<leftarrow> scan_by_id q iIndex (iFront q) (iSize q) 0 NULL;
         (pTmp', c') \<leftarrow> scan_by_id q iIndex 0 (iRear q) c pTmp;
         Some pTmp'
       }))"

function scan_cmp :: "circle_queue \<Rightarrow> (ptr \<Rightarrow> int) \<Rightarrow> int \<Rightarrow> int \<Rightarrow> ptr \<Rightarrow> ptr option" where
  "scan_cmp q cmp i e pTmp =
     (if i < e then do {
        v \<leftarrow> elem_at q i;
        if cmp v = 0 then Some v else scan_cmp q cmp (i + 1) e pTmp
      } else Some pTmp)"
  by pat_completeness auto
termination
  by (relation "measure (\<lambda>(q, cmp, i, e, p). nat (e - i))") auto

declare scan_cmp.simps [simp del]

definition circle_queue_get :: "circle_queue option \<Rightarrow> (ptr \<Rightarrow> ptr \<Rightarrow> int) option \<Rightarrow> ptr \<Rightarrow> ptr option" where
  "circle_queue_get t handle pCmpValue = (case (t, handle) of
     (Some q, Some h) \<Rightarrow>
       (if pCmpValue = NULL then Some NULL
        else if circle_queue_is_empty t = 1 then Some NULL
        else if iFront q < iRear q
        then scan_cmp q (\<lambda>v. h v pCmpValue) (iFront q) (iRear q) NULL
        else do {
          pTmp \<leftarrow> scan_cmp q (\<lambda>v. h v pCmpValue) (iFront q) (iSize q) NULL;
          scan_cmp q (\<lambda>v. h v pCmpValue) 0 (iRear q) pTmp
        })
   | _ \<Rightarrow> Some NULL)"

text \<open>The constructor; \<open>ok1\<close> and \<open>ok2\<close> say whether the two \<open>calloc\<close> calls succeed. \<open>None\<close> is
  the \<open>NULL\<close> result.\<close>

definition new_circle_queue :: "bool \<Rightarrow> bool \<Rightarrow> int \<Rightarrow> int \<Rightarrow> circle_queue option" where
  "new_circle_queue ok1 ok2 n iFreeValueEnable =
     (if n < 0 \<or> n = 0 then None
      else if \<not> ok1 then None
      else if \<not> ok2 then None
      else Some \<lparr>iSize = n, ucFreeValueEnable = word_of_int iFreeValueEnable,
                 iCount = 0, iFront = 0, iRear = 0, Elem = replicate (nat n) NULL\<rparr>)"

fun destroy_circle_queue :: "circle_queue option \<Rightarrow> (status \<times> ptr list) option" where
  "destroy_circle_queue None = Some (ParaErr, [])"
| "destroy_circle_queue (Some q) =
     (if 0 < circle_queue_len (Some q)
      then do { (r, t, freed) \<leftarrow> circle_queue_clear (Some q); Some (NoErr, freed) }
      else Some (NoErr, []))"

section \<open>Invariant and abstraction\<close>

definition slot :: "circle_queue \<Rightarrow> nat \<Rightarrow> nat" where
  "slot q k = nat ((iFront q + int k) mod iSize q)"

definition cq_list :: "circle_queue \<Rightarrow> ptr list" where
  "cq_list q = map (\<lambda>k. Elem q ! slot q k) [0..<nat (iCount q)]"

definition cq_inv :: "circle_queue \<Rightarrow> bool" where
  "cq_inv q \<longleftrightarrow> 0 < iSize q \<and> int (length (Elem q)) = iSize q \<and>
     0 \<le> iCount q \<and> iCount q \<le> iSize q \<and> 0 \<le> iFront q \<and> iFront q < iSize q \<and>
     iRear q = (iFront q + iCount q) mod iSize q \<and> NULL \<notin> set (cq_list q)"

lemma mod_add_inj:
  fixes n :: int
  assumes "(a + j) mod n = (a + k) mod n" "0 \<le> j" "j < n" "0 \<le> k" "k < n"
  shows "j = k"
proof -
  from assms(1) have "n dvd (a + j) - (a + k)"
    by (simp add: mod_eq_dvd_iff)
  then have "n dvd j - k" by simp
  moreover have "\<bar>j - k\<bar> < n" using assms(2-5) by linarith
  ultimately show ?thesis using dvd_imp_le_int [of "j - k" n] by auto
qed

lemma mod_wrap:
  fixes n :: int
  assumes "0 \<le> a" "a < n" "0 \<le> c" "c \<le> n"
  shows "(a + c) mod n = (if a + c < n then a + c else a + c - n)"
proof (cases "a + c < n")
  case True
  with assms show ?thesis by simp
next
  case False
  have "(a + c) mod n = (a + c - n) mod n" by simp
  also have "\<dots> = a + c - n" using assms False by (intro mod_pos_pos_trivial) linarith+
  finally show ?thesis using False by simp
qed

lemma slot_less: "cq_inv q \<Longrightarrow> slot q k < length (Elem q)"
proof -
  assume q: "cq_inv q"
  then have "0 < iSize q" "int (length (Elem q)) = iSize q" by (auto simp: cq_inv_def)
  moreover from this have "(iFront q + int k) mod iSize q < iSize q" by simp
  ultimately show ?thesis by (simp add: slot_def nat_less_iff)
qed

lemma slot_inj:
  "cq_inv q \<Longrightarrow> int j < iSize q \<Longrightarrow> int k < iSize q \<Longrightarrow> slot q j = slot q k \<Longrightarrow> j = k"
proof -
  assume q: "cq_inv q" and j: "int j < iSize q" and k: "int k < iSize q" and s: "slot q j = slot q k"
  from q have n: "0 < iSize q" by (simp add: cq_inv_def)
  then have "0 \<le> (iFront q + int j) mod iSize q" "0 \<le> (iFront q + int k) mod iSize q" by simp_all
  with s have "(iFront q + int j) mod iSize q = (iFront q + int k) mod iSize q"
    by (simp add: slot_def eq_nat_nat_iff)
  from mod_add_inj [OF this] j k show "j = k" by simp
qed

lemma length_cq_list [simp]: "length (cq_list q) = nat (iCount q)"
  by (simp add: cq_list_def)

lemma nth_cq_list: "int k < iCount q \<Longrightarrow> cq_list q ! k = Elem q ! slot q k"
proof -
  assume "int k < iCount q"
  then have "k < nat (iCount q)" by simp
  then show ?thesis unfolding cq_list_def by (subst nth_map) auto
qed

lemma slot_upd [simp]:
  "slot (q\<lparr>Elem := e, iRear := r, iCount := c\<rparr>) k = slot q k"
  by (simp add: slot_def)

lemma slot_0: "cq_inv q \<Longrightarrow> slot q 0 = nat (iFront q)"
  by (simp add: slot_def cq_inv_def)

lemma cq_list_not_NULL: "cq_inv q \<Longrightarrow> v \<in> set (cq_list q) \<Longrightarrow> v \<noteq> NULL"
  by (metis cq_inv_def)

lemma cq_list_bound: "cq_inv q \<Longrightarrow> length (cq_list q) \<le> nat (iSize q) \<and> 0 < nat (iSize q)"
  unfolding cq_inv_def by (simp add: nat_mono)

lemma cq_list_Nil: "cq_inv q \<Longrightarrow> cq_list q = [] \<longleftrightarrow> iCount q = 0"
  by (auto simp: cq_inv_def cq_list_def)

section \<open>Refinement of the queue operations\<close>

lemma elem_at_front: "cq_inv q \<Longrightarrow> elem_at q (iFront q) = Some (Elem q ! nat (iFront q))"
  by (simp add: elem_at_def cq_inv_def)

lemma pop_empty: "cq_inv q \<Longrightarrow> cq_list q = [] \<Longrightarrow> circle_queue_pop (Some q) = Some (NULL, Some q)"
  by (simp add: cq_list_Nil)

lemma slot_pop:
  "slot (q\<lparr>iFront := (iFront q + 1) mod iSize q, iCount := c\<rparr>) k = slot q (Suc k)"
proof -
  have "((iFront q + 1) mod iSize q + int k) mod iSize q = (iFront q + int (Suc k)) mod iSize q"
    by (simp add: mod_add_left_eq add.assoc)
  then show ?thesis by (simp add: slot_def)
qed

lemma cq_list_pop:
  assumes "cq_inv q" "cq_list q \<noteq> []"
  shows "cq_list (q\<lparr>iFront := (iFront q + 1) mod iSize q, iCount := iCount q - 1\<rparr>) = tl (cq_list q)"
proof (rule nth_equalityI)
  show "length (cq_list (q\<lparr>iFront := (iFront q + 1) mod iSize q, iCount := iCount q - 1\<rparr>)) =
      length (tl (cq_list q))"
    using assms by (simp add: nat_diff_distrib')
next
  fix k
  assume "k < length (cq_list (q\<lparr>iFront := (iFront q + 1) mod iSize q, iCount := iCount q - 1\<rparr>))"
  then have k: "int k < iCount q - 1" by simp
  with assms show "cq_list (q\<lparr>iFront := (iFront q + 1) mod iSize q, iCount := iCount q - 1\<rparr>) ! k =
      tl (cq_list q) ! k"
    by (simp add: nth_cq_list nth_tl slot_pop)
qed

lemma cq_inv_pop:
  assumes "cq_inv q" "cq_list q \<noteq> []"
  shows "cq_inv (q\<lparr>iFront := (iFront q + 1) mod iSize q, iCount := iCount q - 1\<rparr>)"
proof -
  have "((iFront q + 1) mod iSize q + (iCount q - 1)) mod iSize q = (iFront q + iCount q) mod iSize q"
    by (simp add: mod_add_left_eq)
  moreover have "NULL \<notin> set (tl (cq_list q))"
    using assms by (auto simp: cq_inv_def dest: list.set_sel(2) [rotated])
  ultimately show ?thesis
    using assms cq_list_pop [OF assms] cq_list_Nil [OF assms(1)] by (simp add: cq_inv_def)
qed

lemma pop_refines:
  assumes "cq_inv q" "cq_list q = v # vs"
  shows "\<exists>q'. circle_queue_pop (Some q) = Some (v, Some q') \<and> cq_inv q' \<and> cq_list q' = vs \<and>
     iSize q' = iSize q \<and> ucFreeValueEnable q' = ucFreeValueEnable q"
proof -
  have ne: "cq_list q \<noteq> []" using assms(2) by simp
  then have c: "iCount q \<noteq> 0" using assms(1) by (simp add: cq_list_Nil)
  then have "cq_list q ! 0 = Elem q ! nat (iFront q)"
    using assms(1) by (simp add: nth_cq_list slot_0 cq_inv_def)
  with assms have "circle_queue_pop (Some q) =
      Some (v, Some (q\<lparr>iFront := (iFront q + 1) mod iSize q, iCount := iCount q - 1\<rparr>))"
    using c by (simp add: elem_at_front c_mod_def cq_inv_def)
  with cq_inv_pop [OF assms(1) ne] cq_list_pop [OF assms(1) ne] assms(2) show ?thesis by simp
qed

definition enqueued :: "circle_queue \<Rightarrow> ptr \<Rightarrow> circle_queue" where
  "enqueued q v = q\<lparr>Elem := (Elem q)[nat (iRear q) := v],
     iRear := (iRear q + 1) mod iSize q, iCount := iCount q + 1\<rparr>"

lemma slot_enqueued [simp]: "slot (enqueued q v) k = slot q k"
  by (simp add: slot_def enqueued_def)

lemma rear_slot: "cq_inv q \<Longrightarrow> nat (iRear q) = slot q (nat (iCount q))"
  by (simp add: slot_def cq_inv_def)

lemma cq_list_enqueued:
  assumes "cq_inv q" "iCount q < iSize q"
  shows "cq_list (enqueued q v) = cq_list q @ [v]"
proof (rule nth_equalityI)
  show "length (cq_list (enqueued q v)) = length (cq_list q @ [v])"
    using assms by (simp add: enqueued_def cq_inv_def nat_add_distrib)
next
  fix k
  assume "k < length (cq_list (enqueued q v))"
  then have k: "int k \<le> iCount q" by (simp add: enqueued_def)
  have r: "nat (iRear q) = slot q (nat (iCount q))" using assms(1) by (rule rear_slot)
  have c: "0 \<le> iCount q" using assms(1) by (simp add: cq_inv_def)
  show "cq_list (enqueued q v) ! k = (cq_list q @ [v]) ! k"
  proof (cases "int k = iCount q")
    case True
    then have kn: "k = nat (iCount q)" by simp
    show ?thesis
      using slot_less [OF assms(1), of k] r c
      by (simp add: nth_cq_list nth_append kn) (simp add: enqueued_def nth_cq_list)
  next
    case False
    with k have k': "int k < iCount q" by simp
    have "slot q k \<noteq> nat (iRear q)"
    proof
      assume "slot q k = nat (iRear q)"
      with r have "slot q k = slot q (nat (iCount q))" by simp
      then have "k = nat (iCount q)"
        using slot_inj [OF assms(1), of k "nat (iCount q)"] k' assms(2) c by simp
      with k' c show False by linarith
    qed
    with k' show ?thesis
      by (simp add: nth_cq_list nth_append enqueued_def zless_nat_eq_int_zless)
  qed
qed

lemma cq_inv_enqueued:
  assumes "cq_inv q" "iCount q < iSize q" "v \<noteq> NULL"
  shows "cq_inv (enqueued q v)"
proof -
  have "((iFront q + iCount q) mod iSize q + 1) mod iSize q = (iFront q + (iCount q + 1)) mod iSize q"
    by (simp add: mod_add_left_eq add.assoc)
  then have "iRear (enqueued q v) = (iFront q + (iCount q + 1)) mod iSize q"
    using assms(1) by (simp add: enqueued_def cq_inv_def)
  with assms cq_list_enqueued [OF assms(1,2), of v] show ?thesis
    by (auto simp: cq_inv_def) (auto simp: enqueued_def)
qed

lemma push_when_space:
  assumes "cq_inv q" "iCount q < iSize q"
  shows "(elem_put q (iRear q) v \<bind> (\<lambda>q2. c_mod (iRear q2 + 1) (iSize q2) \<bind>
     (\<lambda>r. Some (q2\<lparr>iRear := r, iCount := iCount q2 + 1\<rparr>)))) = Some (enqueued q v)"
  using assms by (auto simp: elem_put_def c_mod_def cq_inv_def enqueued_def)

lemma push_refines:
  assumes "cq_inv q" "v \<noteq> NULL"
  shows "\<exists>q' freed. circle_queue_push (Some q) v = Some (NoErr, Some q', freed) \<and> cq_inv q' \<and>
     cq_list q' = (if iCount q = iSize q then tl (cq_list q) else cq_list q) @ [v] \<and>
     freed = (if iCount q = iSize q \<and> ucFreeValueEnable q \<noteq> 0 then [hd (cq_list q)] else []) \<and>
     iSize q' = iSize q \<and> ucFreeValueEnable q' = ucFreeValueEnable q"
proof (cases "iCount q = iSize q")
  case False
  with assms(1) have sp: "iCount q < iSize q" by (simp add: cq_inv_def)
  have "elem_put q (iRear q) v = Some (q\<lparr>Elem := (Elem q)[nat (iRear q) := v]\<rparr>)"
    using assms(1) by (simp add: elem_put_def cq_inv_def)
  moreover have "iSize q \<noteq> 0" using assms(1) by (simp add: cq_inv_def)
  ultimately have "circle_queue_push (Some q) v = Some (NoErr, Some (enqueued q v), [])"
    using False assms(2) by (simp add: c_mod_def enqueued_def)
  with False cq_inv_enqueued [OF assms(1) sp assms(2)] cq_list_enqueued [OF assms(1) sp]
  show ?thesis by (simp add: enqueued_def)
next
  case True
  then have ne: "cq_list q \<noteq> []" using assms(1) by (auto simp: cq_list_Nil cq_inv_def)
  then obtain u us where u: "cq_list q = u # us" by (cases "cq_list q") auto
  then have un: "u \<noteq> NULL" using assms(1) by (auto simp: cq_inv_def)
  from pop_refines [OF assms(1) u] obtain q1 where
    p: "circle_queue_pop (Some q) = Some (u, Some q1)" and i1: "cq_inv q1"
    and l1: "cq_list q1 = us" and s1: "iSize q1 = iSize q"
      "ucFreeValueEnable q1 = ucFreeValueEnable q" by blast
  have "nat (iCount q1) + 1 = nat (iCount q)"
    using l1 u length_cq_list [of q1] length_cq_list [of q] by simp
  then have sp: "iCount q1 < iSize q1" using True s1 assms(1) by (simp add: cq_inv_def)
  have "elem_put q1 (iRear q1) v = Some (q1\<lparr>Elem := (Elem q1)[nat (iRear q1) := v]\<rparr>)"
    using i1 by (simp add: elem_put_def cq_inv_def)
  moreover have "iSize q1 \<noteq> 0" using i1 by (simp add: cq_inv_def)
  ultimately have "circle_queue_push (Some q) v = Some (NoErr, Some (enqueued q1 v),
      if ucFreeValueEnable q \<noteq> 0 then [u] else [])"
    using True assms(2) p un s1
    by (simp del: circle_queue_pop.simps add: c_mod_def enqueued_def)
  with True cq_inv_enqueued [OF i1 sp assms(2)] cq_list_enqueued [OF i1 sp] u l1 s1
  show ?thesis by (simp add: enqueued_def)
qed

lemma clear_loop_refines:
  "cq_inv q \<Longrightarrow> \<exists>q'. circle_queue_clear_loop (Some q) freed =
     Some (Some q', freed @ (if ucFreeValueEnable q \<noteq> 0 then cq_list q else [])) \<and>
     cq_inv q' \<and> cq_list q' = [] \<and> iSize q' = iSize q \<and> ucFreeValueEnable q' = ucFreeValueEnable q"
proof (induction "cq_list q" arbitrary: q freed)
  case Nil
  then have "circle_queue_clear_loop (Some q) freed = Some (Some q, freed)"
    by (subst circle_queue_clear_loop.simps) (simp add: pop_empty del: circle_queue_pop.simps)
  with Nil show ?case by simp
next
  case (Cons v vs)
  have vn: "v \<noteq> NULL"
    using cq_list_not_NULL [OF Cons.prems, of v] Cons.hyps(2) by (metis list.set_intros(1))
  from pop_refines [OF Cons.prems Cons.hyps(2) [symmetric]] obtain q1 where
    p: "circle_queue_pop (Some q) = Some (v, Some q1)" and i: "cq_inv q1" "cq_list q1 = vs"
    and s: "iSize q1 = iSize q" "ucFreeValueEnable q1 = ucFreeValueEnable q" by blast
  have "circle_queue_clear_loop (Some q) freed = circle_queue_clear_loop (Some q1)
      (if ucFreeValueEnable q \<noteq> 0 then freed @ [v] else freed)"
    using p vn s
    by (subst circle_queue_clear_loop.simps) (simp add: free_enabled_def del: circle_queue_pop.simps)
  moreover from Cons.hyps(1) [OF i(2) [symmetric] i(1),
      of "if ucFreeValueEnable q \<noteq> 0 then freed @ [v] else freed"] obtain q2 where
    "circle_queue_clear_loop (Some q1) (if ucFreeValueEnable q \<noteq> 0 then freed @ [v] else freed) =
      Some (Some q2, (if ucFreeValueEnable q \<noteq> 0 then freed @ [v] else freed) @
        (if ucFreeValueEnable q1 \<noteq> 0 then cq_list q1 else []))"
    "cq_inv q2" "cq_list q2 = []" "iSize q2 = iSize q1" "ucFreeValueEnable q2 = ucFreeValueEnable q1"
    by blast
  ultimately show ?case
    using s i by (intro exI [of _ q2]) (simp add: Cons.hyps(2) [symmetric])
qed

section \<open>Searching by index and by content\<close>

lemma scan_by_id_result:
  assumes "0 \<le> i" "i \<le> e" "e \<le> int (length (Elem q))" "c \<le> iIndex"
  shows "scan_by_id q iIndex i e c p =
    (if iIndex < c + (e - i) then Some (Elem q ! nat (i + (iIndex - c)), iIndex)
     else Some (p, c + (e - i)))"
  using assms
proof (induction q iIndex i e c p rule: scan_by_id.induct)
  case (1 q iIndex i e c p)
  show ?case
  proof (cases "i < e \<and> iIndex \<noteq> c")
    case True
    with 1 show ?thesis
      by (subst scan_by_id.simps) (auto simp: algebra_simps)
  next
    case False
    with 1 show ?thesis
      by (subst scan_by_id.simps) (auto simp: elem_at_def)
  qed
qed

lemma scan_cmp_result:
  assumes "0 \<le> i" "i \<le> e" "e \<le> int (length (Elem q))"
  shows "scan_cmp q cmp i e p =
    Some (case List.find (\<lambda>v. cmp v = 0) (take (nat (e - i)) (drop (nat i) (Elem q))) of
            None \<Rightarrow> p | Some v \<Rightarrow> v)"
  using assms
proof (induction q cmp i e p rule: scan_cmp.induct)
  case (1 q cmp i e p)
  show ?case
  proof (cases "i < e")
    case True
    with 1 have l: "nat i < length (Elem q)" by linarith
    have n: "nat (e - i) = Suc (nat (e - (i + 1)))" using True by linarith
    have "take (nat (e - i)) (drop (nat i) (Elem q)) =
        Elem q ! nat i # take (nat (e - (i + 1))) (drop (nat (i + 1)) (Elem q))"
      using l 1 by (simp add: n Cons_nth_drop_Suc [symmetric] nat_add_distrib)
    with 1 True l show ?thesis
      by (subst scan_cmp.simps) (auto simp: elem_at_def)
  next
    case False
    with 1 show ?thesis by (subst scan_cmp.simps) simp
  qed
qed

section \<open>The bounded queue interface\<close>

text \<open>What clients rely on: a first-in first-out list of bounded length that makes room for a new
  element by dropping the oldest one.\<close>

primrec push_many :: "('q \<Rightarrow> 'v \<Rightarrow> 'q option) \<Rightarrow> 'q \<Rightarrow> 'v list \<Rightarrow> 'q option" where
  "push_many f q [] = Some q"
| "push_many f q (v # vs) = do { q' \<leftarrow> f q v; push_many f q' vs }"

locale bounded_queue =
  fixes push :: "'q \<Rightarrow> 'v \<Rightarrow> 'q option"
    and pop :: "'q \<Rightarrow> ('v \<times> 'q) option"
    and elems :: "'q \<Rightarrow> 'v list"
    and cap :: "'q \<Rightarrow> nat"
    and inv :: "'q \<Rightarrow> bool"
    and valid :: "'v \<Rightarrow> bool"
  assumes push_law: "inv q \<Longrightarrow> valid v \<Longrightarrow> \<exists>q'. push q v = Some q' \<and> inv q' \<and> cap q' = cap q \<and>
      elems q' = (if length (elems q) = cap q then tl (elems q) else elems q) @ [v]"
    and pop_law: "inv q \<Longrightarrow> elems q = v # vs \<Longrightarrow>
      \<exists>q'. pop q = Some (v, q') \<and> inv q' \<and> cap q' = cap q \<and> elems q' = vs"
    and bound_law: "inv q \<Longrightarrow> length (elems q) \<le> cap q \<and> 0 < cap q"
begin

lemma push_many_keeps_newest:
  "inv q \<Longrightarrow> list_all valid vs \<Longrightarrow> \<exists>q'. push_many push q vs = Some q' \<and> inv q' \<and> cap q' = cap q \<and>
     elems q' = drop (length (elems q @ vs) - cap q) (elems q @ vs)"
proof (induction vs arbitrary: q)
  case Nil
  with bound_law [of q] show ?case by simp
next
  case (Cons v vs)
  from push_law [of q v] Cons.prems obtain q1 where
    q1: "push q v = Some q1" "inv q1" "cap q1 = cap q"
    and e1: "elems q1 = (if length (elems q) = cap q then tl (elems q) else elems q) @ [v]" by auto
  from Cons.IH [OF q1(2)] Cons.prems obtain q2 where
    q2: "push_many push q1 vs = Some q2" "inv q2" "cap q2 = cap q"
    and e2: "elems q2 = drop (length (elems q1 @ vs) - cap q) (elems q1 @ vs)" using q1(3) by auto
  have b: "length (elems q) \<le> cap q" "0 < cap q" using bound_law [of q] Cons.prems by auto
  have "elems q2 = drop (length (elems q @ v # vs) - cap q) (elems q @ v # vs)"
  proof (cases "length (elems q) = cap q")
    case True
    then obtain u us where u: "elems q = u # us" using b by (cases "elems q") auto
    with True e2 e1 show ?thesis by (simp add: Suc_diff_le)
  next
    case False
    with e2 e1 show ?thesis by simp
  qed
  with q1 q2 show ?case by simp
qed

end

definition cq_push :: "circle_queue \<Rightarrow> ptr \<Rightarrow> circle_queue option" where
  "cq_push q v = do { (r, t, freed) \<leftarrow> circle_queue_push (Some q) v; t }"

definition cq_pop :: "circle_queue \<Rightarrow> (ptr \<times> circle_queue) option" where
  "cq_pop q = do { (p, t) \<leftarrow> circle_queue_pop (Some q); q' \<leftarrow> t; Some (p, q') }"

interpretation cq: bounded_queue cq_push cq_pop cq_list "\<lambda>q. nat (iSize q)" cq_inv "\<lambda>v. v \<noteq> NULL"
proof
  fix q v assume q: "cq_inv q" "v \<noteq> NULL"
  then have "length (cq_list q) = nat (iSize q) \<longleftrightarrow> iCount q = iSize q"
    by (auto simp: cq_inv_def)
  with push_refines [OF q] show "\<exists>q'. cq_push q v = Some q' \<and> cq_inv q' \<and> nat (iSize q') = nat (iSize q) \<and>
      cq_list q' = (if length (cq_list q) = nat (iSize q) then tl (cq_list q) else cq_list q) @ [v]"
    by (auto simp: cq_push_def simp del: circle_queue_push.simps)
next
  fix q v vs assume "cq_inv q" "cq_list q = v # vs"
  from pop_refines [OF this] show "\<exists>q'. cq_pop q = Some (v, q') \<and> cq_inv q' \<and>
      nat (iSize q') = nat (iSize q) \<and> cq_list q' = vs"
    by (auto simp: cq_pop_def simp del: circle_queue_pop.simps)
next
  fix q assume "cq_inv q"
  then show "length (cq_list q) \<le> nat (iSize q) \<and> 0 < nat (iSize q)"
    by (rule cq_list_bound)
qed


section \<open>Runs of the queue\<close>

datatype cq_op = Push ptr | Pop

text \<open>A run returns the final queue, the values \<open>pop\<close> handed out and the values passed to
  \<open>free\<close>.\<close>

fun cq_run :: "circle_queue \<Rightarrow> cq_op list \<Rightarrow> (circle_queue \<times> ptr list \<times> ptr list) option" where
  "cq_run q [] = Some (q, [], [])"
| "cq_run q (Push v # ops) = do {
     (r, t, freed) \<leftarrow> circle_queue_push (Some q) v;
     q1 \<leftarrow> t;
     (q2, out, fr) \<leftarrow> cq_run q1 ops;
     Some (q2, out, freed @ fr)
   }"
| "cq_run q (Pop # ops) = do {
     (p, t) \<leftarrow> circle_queue_pop (Some q);
     q1 \<leftarrow> t;
     (q2, out, fr) \<leftarrow> cq_run q1 ops;
     Some (q2, (if p = NULL then out else p # out), fr)
   }"

fun pushed :: "cq_op list \<Rightarrow> ptr list" where
  "pushed [] = []"
| "pushed (Push v # ops) = v # pushed ops"
| "pushed (Pop # ops) = pushed ops"

lemma new_circle_queue_inv:
  assumes "0 < n"
  shows "\<exists>q. new_circle_queue True True n e = Some q \<and> cq_inv q \<and> cq_list q = [] \<and> iSize q = n \<and>
     ucFreeValueEnable q = word_of_int e"
  using assms by (auto simp: new_circle_queue_def cq_inv_def cq_list_def)

lemma cq_run_balance:
  assumes "cq_inv q" "ucFreeValueEnable q \<noteq> 0" "NULL \<notin> set (pushed ops)"
  shows "\<exists>q' out fr. cq_run q ops = Some (q', out, fr) \<and> cq_inv q' \<and>
     mset (cq_list q) + mset (pushed ops) = mset (cq_list q') + mset out + mset fr"
  using assms
proof (induction ops arbitrary: q)
  case Nil
  then show ?case by simp
next
  case (Cons op ops)
  show ?case
  proof (cases op)
    case (Push v)
    with Cons.prems have v: "v \<noteq> NULL" and ops: "NULL \<notin> set (pushed ops)" by auto
    from push_refines [OF Cons.prems(1) v] obtain q1 freed where
      p: "circle_queue_push (Some q) v = Some (NoErr, Some q1, freed)" and i: "cq_inv q1"
      and l: "cq_list q1 = (if iCount q = iSize q then tl (cq_list q) else cq_list q) @ [v]"
      and f: "freed = (if iCount q = iSize q \<and> ucFreeValueEnable q \<noteq> 0 then [hd (cq_list q)] else [])"
      and u: "ucFreeValueEnable q1 = ucFreeValueEnable q" by blast
    have "cq_list q = [] \<Longrightarrow> iCount q \<noteq> iSize q"
      using cq_list_Nil [OF Cons.prems(1)] Cons.prems(1) by (simp add: cq_inv_def)
    then have b: "mset (cq_list q) + {#v#} = mset (cq_list q1) + mset freed"
      using l f Cons.prems(2) by (cases "cq_list q") auto
    from Cons.IH [OF i _ ops] u Cons.prems(2) obtain q2 out fr where
      r: "cq_run q1 ops = Some (q2, out, fr)" "cq_inv q2"
      and m: "mset (cq_list q1) + mset (pushed ops) = mset (cq_list q2) + mset out + mset fr" by auto
    have "mset (cq_list q) + mset (pushed (Push v # ops)) =
        mset (cq_list q1) + mset freed + mset (pushed ops)"
      using b by simp
    also have "\<dots> = mset (cq_list q2) + mset out + mset (freed @ fr)" using m by simp
    finally show ?thesis using r p Push by (simp del: circle_queue_push.simps)
  next
    case Pop
    show ?thesis
    proof (cases "cq_list q")
      case Nil
      with Cons.prems(1) have p: "circle_queue_pop (Some q) = Some (NULL, Some q)" by (rule pop_empty)
      from Cons.IH [OF Cons.prems(1,2)] Cons.prems(3) p Pop show ?thesis
        by (auto simp del: circle_queue_pop.simps)
    next
      case l: (Cons v vs)
      from pop_refines [OF Cons.prems(1) l] obtain q1 where
        p: "circle_queue_pop (Some q) = Some (v, Some q1)" and i: "cq_inv q1" "cq_list q1 = vs"
        and u: "ucFreeValueEnable q1 = ucFreeValueEnable q" by blast
      have vn: "v \<noteq> NULL" using cq_list_not_NULL [OF Cons.prems(1), of v] l by simp
      from Cons.IH [OF i(1)] u Cons.prems(2,3) Pop obtain q2 out fr where
        "cq_run q1 ops = Some (q2, out, fr)" "cq_inv q2"
        "mset (cq_list q1) + mset (pushed ops) = mset (cq_list q2) + mset out + mset fr" by auto
      with p vn i l Pop show ?thesis by (auto simp del: circle_queue_pop.simps)
    qed
  qed
qed

section \<open>Properties\<close>

text \<open>C23. A queue of capacity \<open>n\<close> that receives the values \<open>vs\<close> holds the \<open>n\<close> newest of them in
  arrival order: a full queue drops its oldest element and never fails.\<close>

theorem circle_queue_keeps_newest:
  assumes "0 < n" "NULL \<notin> set vs"
  shows "\<exists>q0 q. new_circle_queue True True n e = Some q0 \<and> push_many cq_push q0 vs = Some q \<and>
    cq_list q = drop (length vs - nat n) vs \<and> circle_queue_len (Some q) = min n (int (length vs))"
proof -
  from new_circle_queue_inv [OF assms(1)] obtain q0 where
    q0: "new_circle_queue True True n e = Some q0" "cq_inv q0" "cq_list q0 = []" "iSize q0 = n" by blast
  have "list_all (\<lambda>v. v \<noteq> NULL) vs" unfolding list_all_iff using assms(2) by metis
  from cq.push_many_keeps_newest [OF q0(2) this] q0 obtain q where
    q: "push_many cq_push q0 vs = Some q" "cq_inv q" "cq_list q = drop (length vs - nat n) vs" by auto
  have "nat (iCount q) = length vs - (length vs - nat n)" using q(3) length_cq_list [of q] by simp
  then have "iCount q = min n (int (length vs))" using q(2) assms(1) by (auto simp: cq_inv_def)
  with q0 q show ?thesis by auto
qed

theorem circle_queue_keeps_newest_witness:
  "\<exists>q0 q. new_circle_queue True True 2 1 = Some q0 \<and> push_many cq_push q0 [11, 12, 13] = Some q \<and>
    cq_list q = [12, 13] \<and> circle_queue_len (Some q) = 2"
  using circle_queue_keeps_newest [of 2 "[11, 12, 13]" 1] by simp

text \<open>Ownership: on a queue that frees what it drops, every run of pushes and pops is defined,
  and every value ever handed to the queue is, exactly once, still stored, handed out by \<open>pop\<close>, or
  passed to \<open>free\<close>.\<close>

theorem circle_queue_ownership:
  assumes "0 < n" "(word_of_int e :: u8) \<noteq> 0" "NULL \<notin> set (pushed ops)"
  shows "\<exists>q0 q out fr. new_circle_queue True True n e = Some q0 \<and> cq_run q0 ops = Some (q, out, fr) \<and>
    mset (pushed ops) = mset (cq_list q) + mset out + mset fr"
proof -
  from new_circle_queue_inv [OF assms(1)] obtain q0 where
    q0: "new_circle_queue True True n e = Some q0" "cq_inv q0" "cq_list q0 = []"
      "ucFreeValueEnable q0 = word_of_int e" by blast
  with cq_run_balance [OF q0(2) _ assms(3)] assms(2) show ?thesis by auto
qed

theorem circle_queue_ownership_witness:
  "\<exists>q0 q out fr. new_circle_queue True True 1 1 = Some q0 \<and>
    cq_run q0 [Push 5, Push 6, Pop, Pop, Push 7] = Some (q, out, fr) \<and>
    mset [5, 6, 7] = mset (cq_list q) + mset out + mset fr"
  using circle_queue_ownership [of 1 1 "[Push 5, Push 6, Pop, Pop, Push 7]"] by simp

text \<open>\<open>clear\<close> and \<open>destroy\<close> return, and they free exactly the stored values, oldest first, when
  freeing is enabled and none otherwise.\<close>

theorem circle_queue_destroy_frees:
  assumes "cq_inv q"
  shows "destroy_circle_queue (Some q) =
      Some (NoErr, if ucFreeValueEnable q \<noteq> 0 then cq_list q else []) \<and>
    (\<exists>q'. circle_queue_clear (Some q) =
        Some (NoErr, Some q', if ucFreeValueEnable q \<noteq> 0 then cq_list q else []) \<and>
      cq_inv q' \<and> cq_list q' = [])"
proof -
  from clear_loop_refines [OF assms, of "[]"] obtain q' where
    q': "circle_queue_clear_loop (Some q) [] =
      Some (Some q', if ucFreeValueEnable q \<noteq> 0 then cq_list q else [])"
      "cq_inv q'" "cq_list q' = []" by auto
  have "\<not> 0 < iCount q \<Longrightarrow> cq_list q = []" using assms by (simp add: cq_list_def)
  with q' show ?thesis by auto
qed

theorem circle_queue_destroy_frees_witness:
  "destroy_circle_queue (Some \<lparr>iSize = 2, ucFreeValueEnable = 1, iCount = 2, iFront = 1, iRear = 1,
     Elem = [9, 8]\<rparr>) = Some (NoErr, [8, 9])"
proof -
  let ?q = "\<lparr>iSize = 2, ucFreeValueEnable = 1, iCount = 2, iFront = 1, iRear = 1, Elem = [9, 8]\<rparr>"
  have l: "cq_list ?q = [8, 9]" by (simp add: cq_list_def slot_def upt_rec numeral_2_eq_2)
  then have "cq_inv ?q" by (simp add: cq_inv_def)
  from circle_queue_destroy_frees [OF this] l show ?thesis by simp
qed

text \<open>Reading by position: \<open>get_by_id\<close> returns the element at that position, except when the
  contents wrap around the end of the array: then a position in the part before the wrap yields
  the element in slot 0, because the second loop repeats the comparison the first loop left by
  \<open>break\<close>.\<close>

theorem circle_queue_get_by_id_result:
  assumes "cq_inv q" "0 \<le> i" "i < iCount q"
  shows "circle_queue_get_by_id (Some q) i =
    Some (if iRear q \<le> iFront q \<and> 0 < iRear q \<and> i < iSize q - iFront q then Elem q ! 0
          else cq_list q ! nat i)"
proof -
  note inv = assms(1) [unfolded cq_inv_def]
  have l: "cq_list q ! nat i = Elem q ! nat ((iFront q + i) mod iSize q)"
    using assms by (simp add: nth_cq_list slot_def)
  have r: "iRear q = (if iFront q + iCount q < iSize q then iFront q + iCount q
      else iFront q + iCount q - iSize q)"
    using inv mod_wrap [of "iFront q" "iSize q" "iCount q"] by simp
  show ?thesis
  proof (cases "iFront q < iRear q")
    case True
    then have f: "iRear q = iFront q + iCount q" "iFront q + iCount q < iSize q"
      using r inv by (auto split: if_splits)
    then have "(iFront q + i) mod iSize q = iFront q + i" using assms inv by simp
    moreover have "scan_by_id q i (iFront q) (iRear q) 0 NULL = Some (Elem q ! nat (iFront q + i), i)"
      using f inv assms by (simp add: scan_by_id_result)
    ultimately show ?thesis using True assms inv l by (simp add: circle_queue_get_by_id_def)
  next
    case False
    then have w: "iRear q = iFront q + iCount q - iSize q" using r inv assms by (auto split: if_splits)
    have s1: "scan_by_id q i (iFront q) (iSize q) 0 NULL =
        (if i < iSize q - iFront q then Some (Elem q ! nat (iFront q + i), i)
         else Some (NULL, iSize q - iFront q))"
      using inv assms by (simp add: scan_by_id_result)
    show ?thesis
    proof (cases "i < iSize q - iFront q")
      case True
      with False assms inv l s1 show ?thesis
        by (auto simp: circle_queue_get_by_id_def scan_by_id_result w)
    next
      case i: False
      then have "(iFront q + i) mod iSize q = iFront q + i - iSize q"
        using assms inv mod_wrap [of "iFront q" "iSize q" i] by simp
      also have "\<dots> = i - (iSize q - iFront q)" by simp
      finally have m: "(iFront q + i) mod iSize q = i - (iSize q - iFront q)" .
      have "scan_by_id q i 0 (iRear q) (iSize q - iFront q) NULL =
          Some (Elem q ! nat (i - (iSize q - iFront q)), i)"
        using inv assms i w scan_by_id_result [of 0 "iRear q" q "iSize q - iFront q" i NULL] by simp
      with i False assms inv s1 show ?thesis by (simp add: circle_queue_get_by_id_def l m)
    qed
  qed
qed


theorem circle_queue_get_by_id_result_witness:
  "let q = \<lparr>iSize = 3, ucFreeValueEnable = 0, iCount = 3, iFront = 1, iRear = 1, Elem = [30, 10, 20]\<rparr>
   in cq_list q = [10, 20, 30] \<and> circle_queue_get_by_id (Some q) 0 = Some 30 \<and>
      circle_queue_get_by_id (Some q) 2 = Some 30"
proof -
  let ?q = "\<lparr>iSize = 3, ucFreeValueEnable = 0, iCount = 3, iFront = 1, iRear = 1, Elem = [30, 10, 20]\<rparr>"
  have l: "cq_list ?q = [10, 20, 30]" by (simp add: cq_list_def slot_def upt_rec numeral_3_eq_3)
  then have i: "cq_inv ?q" by (simp add: cq_inv_def)
  from circle_queue_get_by_id_result [OF i, of 0] circle_queue_get_by_id_result [OF i, of 2] l
  show ?thesis by simp
qed

text \<open>The newest element: \<open>get_foot\<close> is right while the contents do not wrap. On a full queue
  it reads one slot past the rear index: the second oldest element, or, when the rear index is the
  last slot, memory outside the array.\<close>

theorem circle_queue_get_foot_result:
  assumes "cq_inv q"
  shows "(iFront q < iRear q \<longrightarrow> circle_queue_get_foot (Some q) = Some (last (cq_list q))) \<and>
    (iCount q = iSize q \<longrightarrow> circle_queue_get_foot (Some q) =
       (if iRear q = iSize q - 1 then None else Some (cq_list q ! 1)))"
proof (intro conjI impI)
  note inv = assms [unfolded cq_inv_def]
  have r: "iRear q = (if iFront q + iCount q < iSize q then iFront q + iCount q
      else iFront q + iCount q - iSize q)"
    using inv mod_wrap [of "iFront q" "iSize q" "iCount q"] by simp
  { assume f: "iFront q < iRear q"
    then have e: "iRear q = iFront q + iCount q" "iFront q + iCount q < iSize q" "0 < iCount q"
      using r inv by (auto split: if_splits)
    then have "last (cq_list q) = cq_list q ! nat (iCount q - 1)"
      using cq_list_Nil [OF assms] by (subst last_conv_nth) (auto simp: nat_diff_distrib')
    also have "\<dots> = Elem q ! nat (iRear q - 1)"
      using e inv by (simp add: nth_cq_list slot_def add_diff_eq)
    finally show "circle_queue_get_foot (Some q) = Some (last (cq_list q))"
      using f e inv by (simp add: elem_at_def) }
  { assume c: "iCount q = iSize q"
    then have e: "iRear q = iFront q" using r inv by (auto split: if_splits)
    have "iRear q \<noteq> iSize q - 1 \<Longrightarrow> cq_list q ! 1 = Elem q ! nat (iRear q + 1)"
      using c e inv by (simp add: nth_cq_list slot_def)
    then show "circle_queue_get_foot (Some q) =
       (if iRear q = iSize q - 1 then None else Some (cq_list q ! 1))"
      using c e inv by (auto simp: elem_at_def) }
qed

theorem circle_queue_get_foot_result_witness:
  "circle_queue_get_foot (Some \<lparr>iSize = 3, ucFreeValueEnable = 0, iCount = 3, iFront = 0, iRear = 0,
      Elem = [10, 20, 30]\<rparr>) = Some 20 \<and>
   circle_queue_get_foot (Some \<lparr>iSize = 3, ucFreeValueEnable = 0, iCount = 3, iFront = 2, iRear = 2,
      Elem = [20, 30, 10]\<rparr>) = None"
proof -
  let ?q = "\<lparr>iSize = 3, ucFreeValueEnable = 0, iCount = 3, iFront = 0, iRear = 0, Elem = [10, 20, 30]\<rparr>"
  let ?r = "\<lparr>iSize = 3, ucFreeValueEnable = 0, iCount = 3, iFront = 2, iRear = 2, Elem = [20, 30, 10]\<rparr>"
  have l: "cq_list ?q = [10, 20, 30]" "cq_list ?r = [10, 20, 30]"
    by (simp_all add: cq_list_def slot_def upt_rec numeral_3_eq_3)
  then have "cq_inv ?q" "cq_inv ?r" by (simp_all add: cq_inv_def)
  with circle_queue_get_foot_result [of ?q] circle_queue_get_foot_result [of ?r] l show ?thesis by simp
qed

end
