(* ===== verification/Link_List.thy ===== *)
theory Link_List
  imports Honyar_Prelude
begin

text \<open>
  The doubly linked circular list with a head node of \<open>hylink/src/local_scene/scene_link_list.c\<close>,
  the base class of the scene, condition and action lists and of the scene execution queue. The
  model is a heap of nodes with their \<open>pPrev\<close> and \<open>pNext\<close> pointers, and every operation reads and
  writes these pointers as the C macros do; a dereference of an address that is not allocated has
  no defined result. Methods are called through the function pointers of the object
  (\<open>_this->inst(_this, ..)\<close>), so inside them \<open>_this\<close> is never \<open>NULL\<close>.

  The relation \<open>ll_rep s xs\<close> says that the object represents the list \<open>xs\<close> of node addresses.
\<close>

section \<open>State and operations\<close>

record 'd node =
  pPrev :: ptr
  pNext :: ptr
  nodeData :: 'd

record 'd link_list_class =
  heap :: "ptr \<rightharpoonup> 'd node"
  pHead :: ptr
  pTail :: ptr
  iNodeNum :: int
  iNodeDataSize :: int

definition next_of :: "'d link_list_class \<Rightarrow> ptr \<Rightarrow> ptr option" where
  "next_of s p = map_option pNext (heap s p)"

definition prev_of :: "'d link_list_class \<Rightarrow> ptr \<Rightarrow> ptr option" where
  "prev_of s p = map_option pPrev (heap s p)"

definition data_of :: "'d link_list_class \<Rightarrow> ptr \<Rightarrow> 'd option" where
  "data_of s p = map_option nodeData (heap s p)"

definition set_next :: "'d link_list_class \<Rightarrow> ptr \<Rightarrow> ptr \<Rightarrow> 'd link_list_class option" where
  "set_next s p v = map_option (\<lambda>n. s\<lparr>heap := (heap s)(p \<mapsto> n\<lparr>pNext := v\<rparr>)\<rparr>) (heap s p)"

definition set_prev :: "'d link_list_class \<Rightarrow> ptr \<Rightarrow> ptr \<Rightarrow> 'd link_list_class option" where
  "set_prev s p v = map_option (\<lambda>n. s\<lparr>heap := (heap s)(p \<mapsto> n\<lparr>pPrev := v\<rparr>)\<rparr>) (heap s p)"

text \<open>The macros \<open>INSERT_NODE\<close> and \<open>REMOVE_NODE\<close>, assignment by assignment.\<close>

definition INSERT_NODE :: "'d link_list_class \<Rightarrow> ptr \<Rightarrow> ptr \<Rightarrow> 'd link_list_class option" where
  "INSERT_NODE s curNode insNode = do {
     n \<leftarrow> next_of s curNode;
     s1 \<leftarrow> set_next s insNode n;
     s2 \<leftarrow> set_prev s1 insNode curNode;
     n2 \<leftarrow> next_of s2 curNode;
     s3 \<leftarrow> set_prev s2 n2 insNode;
     set_next s3 curNode insNode
   }"

definition REMOVE_NODE :: "'d link_list_class \<Rightarrow> ptr \<Rightarrow> 'd link_list_class option" where
  "REMOVE_NODE s rmNode = do {
     p \<leftarrow> prev_of s rmNode;
     n \<leftarrow> next_of s rmNode;
     s1 \<leftarrow> set_next s p n;
     n1 \<leftarrow> next_of s1 rmNode;
     p1 \<leftarrow> prev_of s1 rmNode;
     set_prev s1 n1 p1
   }"

text \<open>The lock methods return before they touch the lock counters.\<close>

definition link_list_read_lock :: "'d link_list_class \<Rightarrow> status \<times> 'd link_list_class" where
  "link_list_read_lock s = (NoErr, s)"

definition link_list_read_lock_non_blocking :: "'d link_list_class \<Rightarrow> status \<times> 'd link_list_class" where
  "link_list_read_lock_non_blocking s = (NoErr, s)"

definition link_list_read_unlock :: "'d link_list_class \<Rightarrow> status \<times> 'd link_list_class" where
  "link_list_read_unlock s = (NoErr, s)"

definition link_list_write_lock :: "'d link_list_class \<Rightarrow> status \<times> 'd link_list_class" where
  "link_list_write_lock s = (NoErr, s)"

definition link_list_write_lock_non_blocking :: "'d link_list_class \<Rightarrow> status \<times> 'd link_list_class" where
  "link_list_write_lock_non_blocking s = (NoErr, s)"

definition link_list_write_unlock :: "'d link_list_class \<Rightarrow> status \<times> 'd link_list_class" where
  "link_list_write_unlock s = (NoErr, s)"

lemmas lock_defs = link_list_read_lock_def link_list_read_lock_non_blocking_def
  link_list_read_unlock_def link_list_write_lock_def link_list_write_lock_non_blocking_def
  link_list_write_unlock_def

definition link_list_size :: "'d link_list_class \<Rightarrow> int" where
  "link_list_size s = (let s1 = snd (link_list_read_lock s); n = iNodeNum s1;
     s2 = snd (link_list_read_unlock s1) in n)"

definition link_list_get_head :: "'d link_list_class \<Rightarrow> ptr" where
  "link_list_get_head s = pHead s"

definition link_list_get_first :: "'d link_list_class \<Rightarrow> ptr option" where
  "link_list_get_first s = (if link_list_size s \<noteq> 0 then next_of s (pHead s) else Some NULL)"

definition link_list_get_tail :: "'d link_list_class \<Rightarrow> ptr" where
  "link_list_get_tail s = pTail s"

definition link_list_get_next :: "'d link_list_class \<Rightarrow> ptr \<Rightarrow> ptr option" where
  "link_list_get_next s cur = (if cur = NULL then link_list_get_first s else next_of s cur)"

definition link_list_get_prev :: "'d link_list_class \<Rightarrow> ptr \<Rightarrow> ptr option" where
  "link_list_get_prev s cur = (if cur = NULL then Some (link_list_get_tail s) else prev_of s cur)"

text \<open>\<open>p\<close> is the address \<open>calloc\<close> returns, \<open>NULL\<close> when it fails; the fresh node is zeroed, with
  payload \<open>z\<close>.\<close>

definition link_list_new_node :: "'d \<Rightarrow> ptr \<Rightarrow> 'd link_list_class \<Rightarrow> ptr \<times> 'd link_list_class" where
  "link_list_new_node z p s = (if p = NULL then (NULL, s)
     else (p, s\<lparr>heap := (heap s)(p \<mapsto> \<lparr>pPrev = NULL, pNext = NULL, nodeData = z\<rparr>)\<rparr>))"

definition link_list_destroy_node :: "'d link_list_class \<Rightarrow> ptr \<Rightarrow> (status \<times> 'd link_list_class) option" where
  "link_list_destroy_node s cur =
     (if cur = NULL then Some (ParaErr, s)
      else if heap s cur = None then None
      else Some (NoErr, s\<lparr>heap := (heap s)(cur := None)\<rparr>))"

definition link_list_inst :: "'d link_list_class \<Rightarrow> ptr \<Rightarrow> ptr \<Rightarrow> (status \<times> 'd link_list_class) option" where
  "link_list_inst s cur ins =
     (if cur = NULL \<or> ins = NULL then Some (ParaErr, s)
      else do {
        let s0 = snd (link_list_write_lock s);
        s1 \<leftarrow> INSERT_NODE s0 cur ins;
        let s2 = (if pTail s1 = cur then s1\<lparr>pTail := ins\<rparr> else s1);
        let s3 = s2\<lparr>iNodeNum := iNodeNum s2 + 1\<rparr>;
        Some (NoErr, snd (link_list_write_unlock s3))
      })"

definition link_list_inst_head :: "'d link_list_class \<Rightarrow> ptr \<Rightarrow> (status \<times> 'd link_list_class) option" where
  "link_list_inst_head s ins = (if ins = NULL then Some (ParaErr, s)
     else link_list_inst s (link_list_get_head s) ins)"

definition link_list_inst_tail :: "'d link_list_class \<Rightarrow> ptr \<Rightarrow> (status \<times> 'd link_list_class) option" where
  "link_list_inst_tail s ins = (if ins = NULL then Some (ParaErr, s)
     else link_list_inst s (link_list_get_tail s) ins)"

definition link_list_del_result :: "'d link_list_class \<Rightarrow> ptr \<Rightarrow> (ptr \<times> 'd link_list_class) option" where
  "link_list_del_result s cur =
     (if cur = NULL then Some (NULL, s)
      else if cur = link_list_get_head s then Some (NULL, s)
      else do {
        let s0 = snd (link_list_write_lock s);
        s1 \<leftarrow> REMOVE_NODE s0 cur;
        s2 \<leftarrow> (if cur = pTail s1
               then do { p \<leftarrow> prev_of s1 cur; Some (s1\<lparr>pTail := p\<rparr>) }
               else Some s1);
        let s3 = s2\<lparr>iNodeNum := iNodeNum s2 - 1\<rparr>;
        Some (cur, snd (link_list_write_unlock s3))
      })"

definition link_list_del :: "'d link_list_class \<Rightarrow> ptr \<Rightarrow> (status \<times> 'd link_list_class) option" where
  "link_list_del s cur = (if cur = NULL then Some (ParaErr, s)
     else do { (p, s1) \<leftarrow> link_list_del_result s cur; link_list_destroy_node s1 p })"

definition link_list_del_head_result :: "'d link_list_class \<Rightarrow> (ptr \<times> 'd link_list_class) option" where
  "link_list_del_head_result s = do { p \<leftarrow> link_list_get_first s; link_list_del_result s p }"

definition link_list_del_head :: "'d link_list_class \<Rightarrow> (status \<times> 'd link_list_class) option" where
  "link_list_del_head s = do { (p, s1) \<leftarrow> link_list_del_head_result s; link_list_destroy_node s1 p }"

definition link_list_del_tail_result :: "'d link_list_class \<Rightarrow> (ptr \<times> 'd link_list_class) option" where
  "link_list_del_tail_result s = link_list_del_result s (link_list_get_tail s)"

definition link_list_del_tail :: "'d link_list_class \<Rightarrow> (status \<times> 'd link_list_class) option" where
  "link_list_del_tail s = do { (p, s1) \<leftarrow> link_list_del_tail_result s; link_list_destroy_node s1 p }"

partial_function (option) link_list_clear_loop :: "'d link_list_class \<Rightarrow> 'd link_list_class option" where
  "link_list_clear_loop s = do {
     (r, s1) \<leftarrow> link_list_del_head s;
     if r = NoErr then link_list_clear_loop s1 else Some s1
   }"

definition link_list_clear :: "'d link_list_class \<Rightarrow> (status \<times> 'd link_list_class) option" where
  "link_list_clear s = do { s1 \<leftarrow> link_list_clear_loop s; Some (NoErr, s1) }"

text \<open>The search loops compare the payload of each visited node.\<close>

partial_function (option) get_loop ::
    "'d link_list_class \<Rightarrow> ('d \<Rightarrow> int) \<Rightarrow> ptr \<Rightarrow> ptr option" where
  "get_loop s cmp p =
     (if p \<noteq> NULL \<and> link_list_get_head s \<noteq> p then do {
        d \<leftarrow> data_of s p;
        if cmp d = 0 then Some p
        else do { n \<leftarrow> link_list_get_next s p; get_loop s cmp n }
      } else Some NULL)"

definition link_list_get :: "'d link_list_class \<Rightarrow> ('d \<Rightarrow> 'd \<Rightarrow> int) option \<Rightarrow> ptr \<Rightarrow> ptr option" where
  "link_list_get s handle param = (case handle of
     None \<Rightarrow> Some NULL
   | Some cmp \<Rightarrow>
      (if param = NULL then Some NULL
       else do {
         p \<leftarrow> link_list_get_next s NULL;
         if p = NULL then Some NULL
         else if link_list_get_head s = NULL then Some NULL
         else do { d \<leftarrow> data_of s param; get_loop s (\<lambda>e. cmp e d) p }
       }))"

partial_function (option) get_by_id_loop :: "'d link_list_class \<Rightarrow> int \<Rightarrow> int \<Rightarrow> ptr \<Rightarrow> ptr option" where
  "get_by_id_loop s iId c p =
     (if link_list_get_head s \<noteq> p then
        (if iId = c then Some p
         else do { n \<leftarrow> link_list_get_next s p; get_by_id_loop s iId (c + 1) n })
      else Some NULL)"

definition link_list_get_by_id :: "'d link_list_class \<Rightarrow> int \<Rightarrow> ptr option" where
  "link_list_get_by_id s iId =
     (if iId < 0 then Some NULL
      else if link_list_size s < iId then Some NULL
      else do {
        p \<leftarrow> link_list_get_next s NULL;
        if p = NULL then Some NULL
        else if link_list_get_head s = NULL then Some NULL
        else get_by_id_loop s iId 0 p
      })"

partial_function (option) get_index_loop :: "'d link_list_class \<Rightarrow> ptr \<Rightarrow> int \<Rightarrow> ptr \<Rightarrow> int option" where
  "get_index_loop s cur c p =
     (if link_list_get_head s \<noteq> p then
        (if cur = p then Some c
         else do { n \<leftarrow> link_list_get_next s p; get_index_loop s cur (c + 1) n })
      else Some NotFoundErr)"

definition link_list_get_index :: "'d link_list_class \<Rightarrow> ptr \<Rightarrow> int option" where
  "link_list_get_index s cur =
     (if cur = NULL then Some ParaErr
      else do {
        p \<leftarrow> link_list_get_next s NULL;
        if p = NULL then Some SceneGetErr
        else if link_list_get_head s = NULL then Some SceneGetErr
        else get_index_loop s cur 0 p
      })"

definition link_list_inst_by_id :: "'d link_list_class \<Rightarrow> int \<Rightarrow> ptr \<Rightarrow> (status \<times> 'd link_list_class) option" where
  "link_list_inst_by_id s iId ins =
     (if ins = NULL then Some (ParaErr, s)
      else if iId < 0 then Some (ParaErr, s)
      else do { p \<leftarrow> link_list_get_by_id s iId; link_list_inst s p ins })"

definition link_list_set :: "'d link_list_class \<Rightarrow> ptr \<Rightarrow> ptr \<Rightarrow> (status \<times> 'd link_list_class) option" where
  "link_list_set s cur v =
     (if cur = NULL \<or> v = NULL then Some (ParaErr, s)
      else do {
        p \<leftarrow> link_list_get_prev s cur;
        (r1, s1) \<leftarrow> link_list_del s cur;
        (r2, s2) \<leftarrow> link_list_inst s1 p v;
        Some (NoErr, s2)
      })"

definition link_list_set_by_id :: "'d link_list_class \<Rightarrow> int \<Rightarrow> ptr \<Rightarrow> (status \<times> 'd link_list_class) option" where
  "link_list_set_by_id s iId v =
     (if v = NULL then Some (ParaErr, s)
      else if iId < 0 then Some (ParaErr, s)
      else do { p \<leftarrow> link_list_get_by_id s iId; link_list_set s p v })"

text \<open>A traversal handler returns a status and may change the payload of the node it visits.\<close>

partial_function (option) traverse_loop ::
    "('d \<Rightarrow> status \<times> 'd) \<Rightarrow> status \<Rightarrow> 'd link_list_class \<Rightarrow> ptr \<Rightarrow> (status \<times> 'd link_list_class) option" where
  "traverse_loop f r s p =
     (if link_list_get_head s \<noteq> p then do {
        n \<leftarrow> heap s p;
        let (r1, d) = f (nodeData n);
        let s1 = s\<lparr>heap := (heap s)(p \<mapsto> n\<lparr>nodeData := d\<rparr>)\<rparr>;
        q \<leftarrow> link_list_get_next s1 p;
        traverse_loop f r1 s1 q
      } else Some (r, s))"

definition link_list_traverse :: "'d link_list_class \<Rightarrow> ('d \<Rightarrow> status \<times> 'd) option \<Rightarrow> (status \<times> 'd link_list_class) option" where
  "link_list_traverse s handle = (case handle of
     None \<Rightarrow> Some (ParaErr, s)
   | Some f \<Rightarrow> do {
       p \<leftarrow> link_list_get_next s NULL;
       if p = NULL then Some (SceneGetErr, s)
       else if link_list_get_head s = NULL then Some (SceneGetErr, s)
       else traverse_loop f 0 s p
     })"

text \<open>Constructor and destructor; \<open>ok\<close> says whether the first \<open>calloc\<close> succeeds, \<open>p\<close> is the
  address of the head node.\<close>

definition new_link_list :: "bool \<Rightarrow> ptr \<Rightarrow> 'd \<Rightarrow> (ptr \<rightharpoonup> 'd node) \<Rightarrow> int \<Rightarrow> 'd link_list_class option" where
  "new_link_list ok p z h dataSize =
     (if dataSize < 0 then None
      else if \<not> ok then None
      else if p = NULL then None
      else Some \<lparr>heap = h(p \<mapsto> \<lparr>pPrev = p, pNext = p, nodeData = z\<rparr>),
                 pHead = p, pTail = p, iNodeNum = 0, iNodeDataSize = dataSize\<rparr>)"

definition destroy_link_list :: "'d link_list_class option \<Rightarrow> (status \<times> (ptr \<rightharpoonup> 'd node)) option" where
  "destroy_link_list t = (case t of
     None \<Rightarrow> Some (ParaErr, Map.empty)
   | Some s \<Rightarrow> do {
       s1 \<leftarrow> (if link_list_size s \<noteq> 0 then do { (r, s1) \<leftarrow> link_list_clear s; Some s1 } else Some s);
       if heap s1 (pHead s1) = None then None
       else Some (0, (heap s1)(pHead s1 := None))
     })"

section \<open>Representation of a list by linked nodes\<close>

fun linked :: "(ptr \<Rightarrow> ptr option) \<Rightarrow> (ptr \<Rightarrow> ptr option) \<Rightarrow> ptr list \<Rightarrow> bool" where
  "linked nx pv (a # b # r) \<longleftrightarrow> nx a = Some b \<and> pv b = Some a \<and> linked nx pv (b # r)"
| "linked nx pv r \<longleftrightarrow> True"

definition ll_rep :: "'d link_list_class \<Rightarrow> ptr list \<Rightarrow> bool" where
  "ll_rep s xs \<longleftrightarrow> pHead s \<noteq> NULL \<and> NULL \<notin> set xs \<and> distinct (pHead s # xs) \<and>
     linked (next_of s) (prev_of s) (pHead s # xs @ [pHead s]) \<and>
     pTail s = last (pHead s # xs) \<and> iNodeNum s = int (length xs)"

lemma linked_append:
  "linked nx pv (us @ a # vs) \<longleftrightarrow> linked nx pv (us @ [a]) \<and> linked nx pv (a # vs)"
  by (induction us rule: induct_list012) (auto elim: linked.elims)

lemma linked_upd_next:
  "a \<notin> set (butlast xs) \<Longrightarrow> linked (nx(a := v)) pv xs = linked nx pv xs"
  by (induction nx pv xs rule: linked.induct) auto

lemma linked_upd_prev:
  "b \<notin> set (tl xs) \<Longrightarrow> linked nx (pv(b := v)) xs = linked nx pv xs"
  by (induction nx pv xs rule: linked.induct) auto

lemma linked_insert:
  assumes "linked nx pv (us @ a # b # vs)" "distinct (butlast (us @ a # b # vs))"
    "distinct (tl (us @ a # b # vs))" "n \<notin> set (us @ a # b # vs)"
  shows "linked (nx(n := Some b, a := Some n)) (pv(n := Some a, b := Some n)) (us @ a # n # b # vs)"
proof -
  have l: "linked nx pv (us @ [a])" "linked nx pv (b # vs)" "nx a = Some b" "pv b = Some a"
    using assms(1) linked_append [of nx pv us a "b # vs"] by auto
  have d: "a \<notin> set us" "a \<notin> set (butlast (b # vs))"
    using assms(2) by (auto simp: butlast_append split: if_splits)
  have e: "b \<notin> set vs" "b \<notin> set (tl (us @ [a]))"
    using assms(3) by (cases us; auto)+
  have t: "set (tl (us @ [a])) \<subseteq> set (us @ [a])" by (cases us) auto
  have "linked (nx(n := Some b, a := Some n)) (pv(n := Some a, b := Some n)) (us @ [a])"
    using l(1) assms(4) d(1) e(2) t by (subst linked_upd_prev | subst linked_upd_next | auto)+
  moreover have "linked (nx(n := Some b, a := Some n)) (pv(n := Some a, b := Some n)) (b # vs)"
    using l(2) assms(4) d(2) e(1) in_set_butlastD [of n "b # vs"]
    by (subst linked_upd_prev | subst linked_upd_next | auto)+
  moreover have "n \<noteq> a" "n \<noteq> b" using assms(4) by auto
  ultimately show ?thesis
    by (subst linked_append) simp
qed

lemma linked_remove:
  assumes "linked nx pv (us @ a # x # b # vs)" "distinct (butlast (us @ a # x # b # vs))"
    "distinct (tl (us @ a # x # b # vs))" "x \<noteq> a" "x \<noteq> b"
  shows "linked (nx(a := Some b)) (pv(b := Some a)) (us @ a # b # vs)"
proof -
  have l: "linked nx pv (us @ [a])" "linked nx pv (b # vs)"
    using assms(1) linked_append [of nx pv us a "x # b # vs"] by auto
  have d: "a \<notin> set us" "a \<notin> set (butlast (b # vs))"
    using assms(2) by (auto simp: butlast_append split: if_splits)
  have e: "b \<notin> set vs" "b \<notin> set (tl (us @ [a]))"
    using assms(3) by (cases us; auto)+
  have "linked (nx(a := Some b)) (pv(b := Some a)) (us @ [a])"
    using l(1) d(1) e(2) by (simp add: linked_upd_prev linked_upd_next)
  moreover have "linked (nx(a := Some b)) (pv(b := Some a)) (b # vs)"
    using l(2) d(2) e(1) by (simp add: linked_upd_prev linked_upd_next)
  ultimately show ?thesis by (subst linked_append) simp
qed


lemma linked_next_defined: "linked nx pv xs \<Longrightarrow> a \<in> set (butlast xs) \<Longrightarrow> nx a \<noteq> None"
  by (induction nx pv xs rule: linked.induct) auto

text \<open>The fields of the object other than the node memory.\<close>

definition cls :: "'d link_list_class \<Rightarrow> ptr \<times> ptr \<times> int \<times> int" where
  "cls s = (pHead s, pTail s, iNodeNum s, iNodeDataSize s)"

definition allocated :: "'d link_list_class \<Rightarrow> ptr \<Rightarrow> bool" where
  "allocated s p \<longleftrightarrow> heap s p \<noteq> None"

lemma allocated_iff: "allocated s p \<longleftrightarrow> (\<exists>n. heap s p = Some n)"
  by (auto simp: allocated_def)

lemma next_of_defined: "next_of s p \<noteq> None \<longleftrightarrow> allocated s p"
  by (simp add: next_of_def allocated_def)

lemma ll_rep_allocated: "ll_rep s xs \<Longrightarrow> p \<in> set (pHead s # xs) \<Longrightarrow> allocated s p"
proof -
  assume r: "ll_rep s xs" and p: "p \<in> set (pHead s # xs)"
  have "butlast (pHead s # xs @ [pHead s]) = pHead s # xs"
    using butlast_snoc [of "pHead s # xs"] by simp
  with p r have "next_of s p \<noteq> None"
    using linked_next_defined [of "next_of s" "prev_of s" "pHead s # xs @ [pHead s]" p]
    by (simp add: ll_rep_def)
  then show ?thesis by (metis next_of_defined)
qed

lemma set_next_effect:
  assumes "allocated s p"
  obtains s' where "set_next s p v = Some s'" "next_of s' = (next_of s)(p := Some v)"
    "prev_of s' = prev_of s" "data_of s' = data_of s" "cls s' = cls s" "allocated s' = allocated s"
proof -
  from assms obtain n where n: "heap s p = Some n" by (auto simp: allocated_iff)
  let ?s = "s\<lparr>heap := (heap s)(p \<mapsto> n\<lparr>pNext := v\<rparr>)\<rparr>"
  have "set_next s p v = Some ?s" using n by (simp add: set_next_def)
  moreover have "next_of ?s = (next_of s)(p := Some v)" by (auto simp: next_of_def)
  moreover have "prev_of ?s = prev_of s" using n by (auto simp: prev_of_def)
  moreover have "data_of ?s = data_of s" using n by (auto simp: data_of_def)
  moreover have "cls ?s = cls s" by (simp add: cls_def)
  moreover have "allocated ?s = allocated s" using n by (intro ext) (auto simp: allocated_def)
  ultimately show thesis by (rule that)
qed

lemma set_prev_effect:
  assumes "allocated s p"
  obtains s' where "set_prev s p v = Some s'" "next_of s' = next_of s"
    "prev_of s' = (prev_of s)(p := Some v)" "data_of s' = data_of s" "cls s' = cls s"
    "allocated s' = allocated s"
proof -
  from assms obtain n where n: "heap s p = Some n" by (auto simp: allocated_iff)
  let ?s = "s\<lparr>heap := (heap s)(p \<mapsto> n\<lparr>pPrev := v\<rparr>)\<rparr>"
  have "set_prev s p v = Some ?s" using n by (simp add: set_prev_def)
  moreover have "prev_of ?s = (prev_of s)(p := Some v)" by (auto simp: prev_of_def)
  moreover have "next_of ?s = next_of s" using n by (auto simp: next_of_def)
  moreover have "data_of ?s = data_of s" using n by (auto simp: data_of_def)
  moreover have "cls ?s = cls s" by (simp add: cls_def)
  moreover have "allocated ?s = allocated s" using n by (intro ext) (auto simp: allocated_def)
  ultimately show thesis by (intro that)
qed

lemma INSERT_NODE_effect:
  assumes "next_of s a = Some b" "allocated s n" "allocated s b" "n \<noteq> a"
  obtains s' where "INSERT_NODE s a n = Some s'"
    "next_of s' = (next_of s)(n := Some b, a := Some n)"
    "prev_of s' = (prev_of s)(n := Some a, b := Some n)"
    "data_of s' = data_of s" "cls s' = cls s" "allocated s' = allocated s"
proof -
  have al: "allocated s a" using assms(1) next_of_defined [of s a] by simp
  obtain s1 where s1: "set_next s n b = Some s1" "next_of s1 = (next_of s)(n := Some b)"
    "prev_of s1 = prev_of s" "data_of s1 = data_of s" "cls s1 = cls s" "allocated s1 = allocated s"
    by (rule set_next_effect [OF assms(2)])
  obtain s2 where s2: "set_prev s1 n a = Some s2" "next_of s2 = next_of s1"
    "prev_of s2 = (prev_of s1)(n := Some a)" "data_of s2 = data_of s1" "cls s2 = cls s1"
    "allocated s2 = allocated s1"
    by (rule set_prev_effect [of s1 n]) (simp add: s1 assms)
  obtain s3 where s3: "set_prev s2 b n = Some s3" "next_of s3 = next_of s2"
    "prev_of s3 = (prev_of s2)(b := Some n)" "data_of s3 = data_of s2" "cls s3 = cls s2"
    "allocated s3 = allocated s2"
    by (rule set_prev_effect [of s2 b]) (simp add: s1 s2 assms)
  obtain s4 where s4: "set_next s3 a n = Some s4" "next_of s4 = (next_of s3)(a := Some n)"
    "prev_of s4 = prev_of s3" "data_of s4 = data_of s3" "cls s4 = cls s3" "allocated s4 = allocated s3"
    by (rule set_next_effect [of s3 a]) (simp add: s1 s2 s3 al)
  have "INSERT_NODE s a n = Some s4"
    using assms s1 s2 s3 s4 by (simp add: INSERT_NODE_def)
  with s1 s2 s3 s4 show thesis by (intro that [of s4]) simp_all
qed

lemma REMOVE_NODE_effect:
  assumes "prev_of s x = Some a" "next_of s x = Some b" "allocated s a" "allocated s b" "a \<noteq> x"
  obtains s' where "REMOVE_NODE s x = Some s'"
    "next_of s' = (next_of s)(a := Some b)" "prev_of s' = (prev_of s)(b := Some a)"
    "data_of s' = data_of s" "cls s' = cls s" "allocated s' = allocated s"
proof -
  obtain s1 where s1: "set_next s a b = Some s1" "next_of s1 = (next_of s)(a := Some b)"
    "prev_of s1 = prev_of s" "data_of s1 = data_of s" "cls s1 = cls s" "allocated s1 = allocated s"
    by (rule set_next_effect [OF assms(3)])
  obtain s2 where s2: "set_prev s1 b a = Some s2" "next_of s2 = next_of s1"
    "prev_of s2 = (prev_of s1)(b := Some a)" "data_of s2 = data_of s1" "cls s2 = cls s1"
    "allocated s2 = allocated s1"
    by (rule set_prev_effect [of s1 b]) (simp add: s1 assms)
  have "REMOVE_NODE s x = Some s2" using assms s1 s2 by (simp add: REMOVE_NODE_def)
  with s1 s2 show thesis by (intro that [of s2]) simp_all
qed

lemma upd_fields [simp]:
  "next_of (s\<lparr>pTail := t\<rparr>) = next_of s" "prev_of (s\<lparr>pTail := t\<rparr>) = prev_of s"
  "data_of (s\<lparr>pTail := t\<rparr>) = data_of s" "allocated (s\<lparr>pTail := t\<rparr>) = allocated s"
  "next_of (s\<lparr>iNodeNum := k\<rparr>) = next_of s" "prev_of (s\<lparr>iNodeNum := k\<rparr>) = prev_of s"
  "data_of (s\<lparr>iNodeNum := k\<rparr>) = data_of s" "allocated (s\<lparr>iNodeNum := k\<rparr>) = allocated s"
  by (auto simp: next_of_def prev_of_def data_of_def allocated_def)

lemma ring_shape:
  "butlast (h # xs @ [h]) = h # xs" "tl (h # xs @ [h]) = xs @ [h]"
  using butlast_snoc [of "h # xs" h] by simp_all

lemma inst_rep:
  assumes "ll_rep s xs" "pHead s # xs = us @ a # ws" "n \<noteq> NULL" "n \<notin> set (pHead s # xs)" "allocated s n"
  obtains s' where "link_list_inst s a n = Some (NoErr, s')" "ll_rep s' (tl (us @ a # n # ws))"
    "data_of s' = data_of s" "pHead s' = pHead s" "allocated s' = allocated s"
proof -
  let ?h = "pHead s"
  note r = assms(1) [unfolded ll_rep_def]
  obtain b vs where b: "ws @ [?h] = b # vs" by (cases "ws @ [?h]") auto
  then have c: "?h # xs @ [?h] = us @ a # b # vs"
    using assms(2) by (metis append.assoc append_Cons)
  have d: "distinct (butlast (us @ a # b # vs))" "distinct (tl (us @ a # b # vs))"
    using r ring_shape [of ?h xs] by (auto simp flip: c)
  have l: "linked (next_of s) (prev_of s) (us @ a # b # vs)" using r c by simp
  then have ab: "next_of s a = Some b" using linked_append [of _ _ us a "b # vs"] by simp
  have "set (us @ a # b # vs) = set (?h # xs)" by (simp flip: c add: insert_commute)
  then have nn: "n \<notin> set (us @ a # b # vs)" "allocated s b" "n \<noteq> a"
    using assms(4) ll_rep_allocated [OF assms(1)] by auto
  from INSERT_NODE_effect [OF ab assms(5) nn(2,3)] obtain s1 where
    s1: "INSERT_NODE s a n = Some s1" "next_of s1 = (next_of s)(n := Some b, a := Some n)"
    "prev_of s1 = (prev_of s)(n := Some a, b := Some n)" "data_of s1 = data_of s" "cls s1 = cls s"
    "allocated s1 = allocated s" .
  from s1(5) have f: "pHead s1 = ?h" "pTail s1 = pTail s" "iNodeNum s1 = iNodeNum s"
    by (auto simp: cls_def)
  define s2 where "s2 = (if pTail s1 = a then s1\<lparr>pTail := n\<rparr> else s1)"
  define s3 where "s3 = s2\<lparr>iNodeNum := iNodeNum s2 + 1\<rparr>"
  have an: "a \<noteq> NULL" using r assms(2) by (metis in_set_conv_decomp set_ConsD)
  have i: "link_list_inst s a n = Some (NoErr, s3)"
    using an assms(3) s1 by (simp add: link_list_inst_def lock_defs s2_def s3_def)
  have t: "pTail s = last (us @ a # ws)" using r assms(2) by simp
  have "distinct (us @ a # ws)" using r assms(2) by metis
  then have tl: "pTail s = a \<longleftrightarrow> ws = []" using t by (cases ws rule: rev_cases) auto
  have f3: "next_of s3 = next_of s1" "prev_of s3 = prev_of s1" "data_of s3 = data_of s"
    "allocated s3 = allocated s" "pHead s3 = ?h" "iNodeNum s3 = int (length xs) + 1"
    "pTail s3 = (if ws = [] then n else pTail s)"
    using s1 f r tl by (auto simp: s3_def s2_def)
  have lk: "linked (next_of s3) (prev_of s3) (us @ a # n # ws @ [?h])"
    using linked_insert [OF l d nn(1)] f3 s1 b by simp
  have hd: "?h # tl (us @ a # n # ws) = us @ a # n # ws" using assms(2) by (cases us) auto
  have st: "set (us @ a # n # ws) = insert n (set (?h # xs))" unfolding assms(2) by auto
  have "distinct (us @ a # n # ws)"
    using \<open>distinct (us @ a # ws)\<close> assms(4) unfolding assms(2) by auto
  moreover have "length (tl (us @ a # n # ws)) = length xs + 1"
    using arg_cong [OF assms(2), of length] by simp
  moreover have "NULL \<notin> set (us @ a # n # ws)" using st r assms(3) by auto
  then have "NULL \<notin> set (tl (us @ a # n # ws))" using hd by (metis list.set_intros(2))
  moreover have "pTail s3 = last (us @ a # n # ws)" using f3(7) t by simp
  moreover have "?h # tl (us @ a # n # ws) @ [?h] = us @ a # n # ws @ [?h]"
    using arg_cong [OF hd, of "\<lambda>l. l @ [?h]"] by simp
  then have "linked (next_of s3) (prev_of s3) (?h # tl (us @ a # n # ws) @ [?h])"
    using lk by (simp only:)
  ultimately have "ll_rep s3 (tl (us @ a # n # ws))"
    unfolding ll_rep_def f3(5) hd using f3(6) r by (intro conjI) (assumption | simp)+
  with i f3 show thesis by (intro that [of s3])
qed

lemma del_result_rep:
  assumes "ll_rep s xs" "xs = us @ x # ws"
  obtains s' where "link_list_del_result s x = Some (x, s')" "ll_rep s' (us @ ws)"
    "data_of s' = data_of s" "pHead s' = pHead s" "allocated s' = allocated s" "x \<noteq> NULL"
proof -
  let ?h = "pHead s"
  note r = assms(1) [unfolded ll_rep_def]
  obtain b vs where b: "ws @ [?h] = b # vs" by (cases "ws @ [?h]") auto
  obtain us' a where a: "?h # us = us' @ [a]" by (cases "?h # us" rule: rev_cases) auto
  have c: "?h # xs @ [?h] = us' @ a # x # b # vs"
    using arg_cong [OF a, of "\<lambda>l. l @ x # ws @ [?h]"] b assms(2) by simp
  have d: "distinct (butlast (us' @ a # x # b # vs))" "distinct (tl (us' @ a # x # b # vs))"
    using r ring_shape [of ?h xs] by (auto simp flip: c)
  have l: "linked (next_of s) (prev_of s) (us' @ a # x # b # vs)" using r c by simp
  then have lx: "prev_of s x = Some a" "next_of s x = Some b"
    using linked_append [of _ _ us' a "x # b # vs"] by simp_all
  have "a \<in> set (?h # us)" unfolding a by simp
  moreover have "b \<in> set (ws @ [?h])" unfolding b by simp
  ultimately have ne: "a \<noteq> x" "b \<noteq> x" "allocated s a" "allocated s b"
    using r ll_rep_allocated [OF assms(1)] assms(2) by auto
  from REMOVE_NODE_effect [OF lx ne(3,4,1)] obtain s1 where
    s1: "REMOVE_NODE s x = Some s1" "next_of s1 = (next_of s)(a := Some b)"
    "prev_of s1 = (prev_of s)(b := Some a)" "data_of s1 = data_of s" "cls s1 = cls s"
    "allocated s1 = allocated s" .
  from s1(5) have f: "pHead s1 = ?h" "pTail s1 = pTail s" "iNodeNum s1 = iNodeNum s"
    by (auto simp: cls_def)
  have xn: "x \<noteq> NULL" "x \<noteq> ?h" using r assms(2) by auto
  have px: "prev_of s1 x = Some a" using s1(3) lx ne by simp
  define s2 where "s2 = (if x = pTail s1 then s1\<lparr>pTail := a\<rparr> else s1)"
  define s3 where "s3 = s2\<lparr>iNodeNum := iNodeNum s2 - 1\<rparr>"
  have i: "link_list_del_result s x = Some (x, s3)"
    using xn s1(1) px
    by (cases "x = pTail s1") (simp_all add: link_list_del_result_def link_list_get_head_def lock_defs s2_def s3_def)
  have tl: "x = pTail s \<longleftrightarrow> ws = []"
    using r assms(2) by (cases ws rule: rev_cases) auto
  have la: "last (?h # us) = a" using a by simp
  have f3: "next_of s3 = next_of s1" "prev_of s3 = prev_of s1" "data_of s3 = data_of s"
    "allocated s3 = allocated s" "pHead s3 = ?h" "iNodeNum s3 = int (length xs) - 1"
    "pTail s3 = (if ws = [] then a else pTail s)"
    using s1(4,6) f r tl unfolding s3_def s2_def by simp_all
  have "linked (next_of s3) (prev_of s3) (us' @ a # b # vs)"
    using linked_remove [OF l d] ne f3 s1 by simp
  moreover have "us' @ a # b # vs = ?h # (us @ ws) @ [?h]"
    using arg_cong [OF a, of "\<lambda>l. l @ ws @ [?h]"] b by simp
  moreover have "pTail s3 = last (?h # us @ ws)" using f3(7) la r assms(2) by auto
  ultimately have "ll_rep s3 (us @ ws)"
    unfolding ll_rep_def f3(5) using r assms(2) f3(6) by auto
  with i f3 xn show thesis by (intro that [of s3])
qed


section \<open>Navigation and search\<close>

lemma rep_next:
  assumes "ll_rep s xs" "pHead s # xs = us @ p # ws"
  shows "next_of s p = Some (hd (ws @ [pHead s]))"
proof -
  have "pHead s # xs @ [pHead s] = us @ p # ws @ [pHead s]"
    using arg_cong [OF assms(2), of "\<lambda>l. l @ [pHead s]"] by simp
  then have "linked (next_of s) (prev_of s) (us @ p # ws @ [pHead s])"
    using assms(1) unfolding ll_rep_def by metis
  then have "linked (next_of s) (prev_of s) (p # ws @ [pHead s])"
    using linked_append by metis
  then show ?thesis by (cases ws) auto
qed

lemma rep_size [simp]: "ll_rep s xs \<Longrightarrow> link_list_size s = int (length xs)"
  by (simp add: link_list_size_def ll_rep_def lock_defs)

lemma rep_get_first:
  assumes "ll_rep s xs"
  shows "link_list_get_first s = Some (if xs = [] then NULL else hd xs)"
  using rep_next [OF assms, of "[]" "pHead s" xs] rep_size [OF assms]
  by (cases xs) (auto simp: link_list_get_first_def)

lemma rep_get_next_NULL: "ll_rep s xs \<Longrightarrow> link_list_get_next s NULL = Some (if xs = [] then NULL else hd xs)"
  by (simp add: link_list_get_next_def rep_get_first)

lemma rep_get_next:
  assumes "ll_rep s xs" "xs = us @ p # ws"
  shows "link_list_get_next s p = Some (hd (ws @ [pHead s]))"
proof -
  have "p \<noteq> NULL" using assms by (auto simp: ll_rep_def)
  with rep_next [OF assms(1), of "pHead s # us" p ws] assms(2) show ?thesis
    by (simp add: link_list_get_next_def)
qed

text \<open>The position of a walk: the next node of the remaining list, or the head node at its end.\<close>

definition front :: "'d link_list_class \<Rightarrow> ptr list \<Rightarrow> ptr" where
  "front s ws = hd (ws @ [pHead s])"

lemma front_simps [simp]: "front s [] = pHead s" "front s (p # ws) = p"
  by (simp_all add: front_def)

lemma rep_data: "ll_rep s xs \<Longrightarrow> p \<in> set xs \<Longrightarrow> \<exists>d. data_of s p = Some d"
  using ll_rep_allocated [of s xs p] by (auto simp: data_of_def allocated_def)

lemma rep_node: "ll_rep s xs \<Longrightarrow> p \<in> set xs \<Longrightarrow> p \<noteq> NULL \<and> pHead s \<noteq> p"
  unfolding ll_rep_def by (metis distinct.simps(2))

definition holds_at :: "'d link_list_class \<Rightarrow> ('d \<Rightarrow> bool) \<Rightarrow> ptr \<Rightarrow> bool" where
  "holds_at s P p = (case data_of s p of None \<Rightarrow> False | Some d \<Rightarrow> P d)"

lemma get_loop_result:
  assumes "ll_rep s xs" "xs = us @ ws"
  shows "get_loop s cmp (front s ws) =
    Some (case List.find (holds_at s (\<lambda>d. cmp d = 0)) ws of None \<Rightarrow> NULL | Some p \<Rightarrow> p)"
  using assms(2)
proof (induction ws arbitrary: us)
  case Nil
  then show ?case by (simp add: get_loop.simps link_list_get_head_def)
next
  case (Cons p ws)
  obtain d where d: "data_of s p = Some d" using rep_data [OF assms(1)] Cons.prems by auto
  have "link_list_get_next s p = Some (front s ws)"
    using rep_get_next [OF assms(1) Cons.prems] by (simp add: front_def)
  moreover have "p \<noteq> NULL \<and> pHead s \<noteq> p" using rep_node [OF assms(1)] Cons.prems by simp
  moreover have "get_loop s cmp (front s ws) =
      Some (case List.find (holds_at s (\<lambda>d. cmp d = 0)) ws of None \<Rightarrow> NULL | Some p \<Rightarrow> p)"
    using Cons.IH [of "us @ [p]"] Cons.prems by simp
  ultimately show ?case using d
    by (subst get_loop.simps) (simp add: link_list_get_head_def holds_at_def)
qed

lemma get_result:
  assumes "ll_rep s xs" "param \<noteq> NULL" "data_of s param = Some d"
  shows "link_list_get s (Some cmp) param =
    Some (case List.find (holds_at s (\<lambda>e. cmp e d = 0)) xs of None \<Rightarrow> NULL | Some p \<Rightarrow> p)"
proof (cases xs)
  case Nil
  then show ?thesis using assms by (simp add: link_list_get_def rep_get_next_NULL)
next
  case (Cons p ws)
  have "p \<noteq> NULL" "pHead s \<noteq> NULL" using assms(1) Cons by (auto simp: ll_rep_def)
  moreover have "front s xs = p" using Cons by simp
  ultimately show ?thesis
    using assms get_loop_result [OF assms(1), of "[]" xs "\<lambda>e. cmp e d"] Cons
    by (simp add: link_list_get_def rep_get_next_NULL link_list_get_head_def)
qed

lemma get_by_id_loop_result:
  assumes "ll_rep s xs" "xs = us @ ws" "c \<le> iId"
  shows "get_by_id_loop s iId c (front s ws) =
    Some (if iId - c < int (length ws) then ws ! nat (iId - c) else NULL)"
  using assms(2,3)
proof (induction ws arbitrary: us c)
  case Nil
  then show ?case by (simp add: get_by_id_loop.simps link_list_get_head_def)
next
  case (Cons p ws)
  have nx: "link_list_get_next s p = Some (front s ws)"
    using rep_get_next [OF assms(1) Cons.prems(1)] by (simp add: front_def)
  have p: "pHead s \<noteq> p" using rep_node [OF assms(1)] Cons.prems by simp
  show ?case
  proof (cases "iId = c")
    case True
    then show ?thesis using p by (subst get_by_id_loop.simps) (simp add: link_list_get_head_def)
  next
    case False
    then have "nat (iId - c) = Suc (nat (iId - (c + 1)))" using Cons.prems by linarith
    with False Cons.IH [of "us @ [p]" "c + 1"] Cons.prems nx p show ?thesis
      by (subst get_by_id_loop.simps) (auto simp: link_list_get_head_def)
  qed
qed

lemma get_by_id_result:
  assumes "ll_rep s xs"
  shows "link_list_get_by_id s i = Some (if 0 \<le> i \<and> i < int (length xs) then xs ! nat i else NULL)"
proof (cases xs)
  case Nil
  then show ?thesis using assms by (simp add: link_list_get_by_id_def rep_get_next_NULL)
next
  case (Cons p ws)
  have "p \<noteq> NULL" "pHead s \<noteq> NULL" "front s xs = p" using assms Cons by (auto simp: ll_rep_def)
  then show ?thesis
    using assms get_by_id_loop_result [OF assms, of "[]" xs 0 i] Cons
    by (auto simp: link_list_get_by_id_def rep_get_next_NULL link_list_get_head_def)
qed

lemma get_index_loop_result:
  assumes "ll_rep s xs" "xs = us @ ws"
  shows "get_index_loop s cur c (front s ws) =
    Some (if cur \<in> set ws then c + int (length (takeWhile (\<lambda>p. p \<noteq> cur) ws)) else NotFoundErr)"
  using assms(2)
proof (induction ws arbitrary: us c)
  case Nil
  then show ?case by (simp add: get_index_loop.simps link_list_get_head_def)
next
  case (Cons p ws)
  have nx: "link_list_get_next s p = Some (front s ws)"
    using rep_get_next [OF assms(1) Cons.prems(1)] by (simp add: front_def)
  have p: "pHead s \<noteq> p" using rep_node [OF assms(1)] Cons.prems by simp
  show ?case using Cons.IH [of "us @ [p]" "c + 1"] Cons.prems nx p
    by (subst get_index_loop.simps) (auto simp: link_list_get_head_def)
qed

lemma get_index_result:
  assumes "ll_rep s xs" "i < length xs"
  shows "link_list_get_index s (xs ! i) = Some (int i)"
proof -
  let ?w = "takeWhile (\<lambda>p. p \<noteq> xs ! i) xs"
  have d: "distinct xs" using assms by (simp add: ll_rep_def)
  have m: "xs ! i \<in> set xs" using assms(2) by simp
  then have l: "length ?w < length xs"
    using length_takeWhile_le [of "\<lambda>p. p \<noteq> xs ! i" xs] takeWhile_eq_all_conv [of "\<lambda>p. p \<noteq> xs ! i" xs]
    by (metis (mono_tags, lifting) le_neq_implies_less takeWhile_eq_take take_all_iff le_refl)
  then have "xs ! length ?w = xs ! i" using nth_length_takeWhile by fastforce
  with l d assms(2) have e: "length ?w = i" by (simp add: nth_eq_iff_index_eq)
  obtain p ws where x: "xs = p # ws" using assms(2) by (cases xs) auto
  then have "p \<noteq> NULL" "pHead s \<noteq> NULL" "front s xs = p" using assms by (auto simp: ll_rep_def)
  moreover have "xs ! i \<noteq> NULL" using rep_node [OF assms(1) m] by simp
  ultimately show ?thesis using get_index_loop_result [OF assms(1), of "[]" xs "xs ! i" 0] m e x assms(1)
    by (simp add: link_list_get_index_def rep_get_next_NULL link_list_get_head_def)
qed

section \<open>Contents and ownership\<close>

text \<open>\<open>ll_own s xs\<close>: the object holds the payloads \<open>xs\<close> (node address and payload, in list order),
  and the allocated nodes are the head node and the nodes of the list, so nothing has leaked.\<close>

definition ll_own :: "'d link_list_class \<Rightarrow> (ptr \<times> 'd) list \<Rightarrow> bool" where
  "ll_own s xs \<longleftrightarrow> ll_rep s (map fst xs) \<and> (\<forall>p. allocated s p \<longleftrightarrow> p \<in> set (pHead s # map fst xs)) \<and>
     (\<forall>(p, d) \<in> set xs. data_of s p = Some d)"

definition ll_fresh :: "'d link_list_class \<Rightarrow> ptr \<Rightarrow> bool" where
  "ll_fresh s p \<longleftrightarrow> p \<noteq> NULL \<and> \<not> allocated s p"

text \<open>How clients insert and delete: allocate a node, fill its payload, insert it.\<close>

definition add_tail :: "'d \<Rightarrow> ptr \<Rightarrow> 'd link_list_class \<Rightarrow> 'd link_list_class option" where
  "add_tail d p s = do {
     let (n, s1) = link_list_new_node d p s;
     (r, s2) \<leftarrow> link_list_inst_tail s1 n;
     Some s2 }"

definition add_head :: "'d \<Rightarrow> ptr \<Rightarrow> 'd link_list_class \<Rightarrow> 'd link_list_class option" where
  "add_head d p s = do {
     let (n, s1) = link_list_new_node d p s;
     (r, s2) \<leftarrow> link_list_inst_head s1 n;
     Some s2 }"

definition remove :: "ptr \<Rightarrow> 'd link_list_class \<Rightarrow> 'd link_list_class option" where
  "remove p s = do { (r, s1) \<leftarrow> link_list_del s p; Some s1 }"

lemma new_node_effect:
  assumes "ll_rep s xs" "ll_fresh s p"
  obtains s1 where "link_list_new_node d p s = (p, s1)" "ll_rep s1 xs" "pHead s1 = pHead s"
    "pTail s1 = pTail s" "allocated s1 = (allocated s)(p := True)" "data_of s1 = (data_of s)(p := Some d)"
    "p \<notin> set (pHead s1 # xs)"
proof -
  let ?s = "s\<lparr>heap := (heap s)(p \<mapsto> \<lparr>pPrev = NULL, pNext = NULL, nodeData = d\<rparr>)\<rparr>"
  have n: "p \<notin> set (pHead s # xs)" using assms ll_rep_allocated [OF assms(1), of p]
    by (auto simp: ll_fresh_def)
  have x: "next_of ?s = (next_of s)(p := Some NULL)" "prev_of ?s = (prev_of s)(p := Some NULL)"
    by (auto simp: next_of_def prev_of_def)
  have b: "set (butlast (pHead s # xs @ [pHead s])) = set (pHead s # xs)"
    "set (tl (pHead s # xs @ [pHead s])) = set (pHead s # xs)"
    using ring_shape [of "pHead s" xs] by (simp_all add: insert_commute)
  have "ll_rep ?s xs" using assms(1) n b unfolding ll_rep_def x
    by (simp add: linked_upd_next linked_upd_prev)
  moreover have "allocated ?s = (allocated s)(p := True)" "data_of ?s = (data_of s)(p := Some d)"
    by (auto simp: allocated_def data_of_def fun_eq_iff)
  moreover have "link_list_new_node d p s = (p, ?s)"
    using assms(2) by (simp add: link_list_new_node_def ll_fresh_def)
  ultimately show thesis using n by (intro that [of ?s]) simp_all
qed

lemma insert_own:
  assumes "ll_own s xs" "ll_fresh s p" "link_list_new_node d p s = (p, s1)"
    "ll_rep s1 (map fst xs)" "pHead s1 = pHead s" "allocated s1 = (allocated s)(p := True)"
    "data_of s1 = (data_of s)(p := Some d)"
    "ll_rep s2 (map fst ys)" "data_of s2 = data_of s1" "pHead s2 = pHead s1"
    "allocated s2 = allocated s1" "set ys = insert (p, d) (set xs)"
  shows "ll_own s2 ys \<and> (\<forall>q. ll_fresh s2 q \<longleftrightarrow> ll_fresh s q \<and> q \<noteq> p)"
proof -
  have "p \<notin> fst ` set xs" using assms(1,2) by (auto simp: ll_own_def ll_fresh_def)
  then have "\<forall>(q, e) \<in> set xs. q \<noteq> p" by force
  then have "\<forall>(q, e) \<in> set ys. data_of s2 q = Some e"
    using assms(1,7,9,12) by (auto simp: ll_own_def split: if_splits)
  moreover have "fst ` set ys = insert p (fst ` set xs)" using assms(12) by simp
  then have "\<forall>q. allocated s2 q \<longleftrightarrow> q \<in> set (pHead s2 # map fst ys)"
    using assms(1,5,6,10,11) by (auto simp: ll_own_def)
  moreover have "\<forall>q. ll_fresh s2 q \<longleftrightarrow> ll_fresh s q \<and> q \<noteq> p"
    using assms(6,11) by (simp add: ll_fresh_def)
  ultimately show ?thesis using assms(8) by (simp add: ll_own_def)
qed

lemma add_tail_own:
  assumes "ll_own s xs" "ll_fresh s p"
  shows "\<exists>s'. add_tail d p s = Some s' \<and> ll_own s' (xs @ [(p, d)]) \<and>
    (\<forall>q. ll_fresh s' q \<longleftrightarrow> ll_fresh s q \<and> q \<noteq> p)"
proof -
  from assms(1) have r: "ll_rep s (map fst xs)" by (simp add: ll_own_def)
  from new_node_effect [OF r assms(2), of d] obtain s1 where
    s1: "link_list_new_node d p s = (p, s1)" "ll_rep s1 (map fst xs)" "pHead s1 = pHead s"
    "pTail s1 = pTail s" "allocated s1 = (allocated s)(p := True)"
    "data_of s1 = (data_of s)(p := Some d)" "p \<notin> set (pHead s1 # map fst xs)" by blast
  let ?l = "pHead s1 # map fst xs"
  have sp: "?l = butlast ?l @ pTail s1 # []" using s1(2) by (simp add: ll_rep_def)
  from inst_rep [OF s1(2) sp _ s1(7)] assms(2) s1(5) obtain s2 where
    s2: "link_list_inst s1 (pTail s1) p = Some (NoErr, s2)"
      "ll_rep s2 (tl (butlast ?l @ pTail s1 # p # []))"
      "data_of s2 = data_of s1" "pHead s2 = pHead s1" "allocated s2 = allocated s1"
    by (auto simp: ll_fresh_def)
  have "butlast ?l @ pTail s1 # p # [] = ?l @ [p]" using sp by (metis append.assoc append_Cons append_Nil)
  then have "tl (butlast ?l @ pTail s1 # p # []) = map fst (xs @ [(p, d)])"
    by (metis append_Cons list.sel(3) map_append list.simps(8,9) fst_conv)
  with s2(2) have "ll_rep s2 (map fst (xs @ [(p, d)]))" by (simp only:)
  from insert_own [OF assms s1(1,2,3,5,6) this s2(3-5)] s1(1) s2(1) assms(2)
  show ?thesis by (simp add: add_tail_def link_list_inst_tail_def link_list_get_tail_def ll_fresh_def)
qed

lemma add_head_own:
  assumes "ll_own s xs" "ll_fresh s p"
  shows "\<exists>s'. add_head d p s = Some s' \<and> ll_own s' ((p, d) # xs) \<and>
    (\<forall>q. ll_fresh s' q \<longleftrightarrow> ll_fresh s q \<and> q \<noteq> p)"
proof -
  from assms(1) have r: "ll_rep s (map fst xs)" by (simp add: ll_own_def)
  from new_node_effect [OF r assms(2), of d] obtain s1 where
    s1: "link_list_new_node d p s = (p, s1)" "ll_rep s1 (map fst xs)" "pHead s1 = pHead s"
    "pTail s1 = pTail s" "allocated s1 = (allocated s)(p := True)"
    "data_of s1 = (data_of s)(p := Some d)" "p \<notin> set (pHead s1 # map fst xs)" by blast
  from inst_rep [OF s1(2), of "[]" "pHead s1" "map fst xs" p] assms(2) s1(5,7) obtain s2 where
    s2: "link_list_inst s1 (pHead s1) p = Some (NoErr, s2)" "ll_rep s2 (map fst ((p, d) # xs))"
      "data_of s2 = data_of s1" "pHead s2 = pHead s1" "allocated s2 = allocated s1"
    by (auto simp: ll_fresh_def)
  from insert_own [OF assms s1(1,2,3,5,6) s2(2-5)] s1(1) s2(1) assms(2)
  show ?thesis by (simp add: add_head_def link_list_inst_head_def link_list_get_head_def ll_fresh_def)
qed

lemma free_node_effect:
  assumes "ll_rep s xs" "p \<notin> set (pHead s # xs)" "allocated s p" "p \<noteq> NULL"
  obtains s' where "link_list_destroy_node s p = Some (NoErr, s')" "ll_rep s' xs" "pHead s' = pHead s"
    "allocated s' = (allocated s)(p := False)" "data_of s' = (data_of s)(p := None)"
proof -
  let ?s = "s\<lparr>heap := (heap s)(p := None)\<rparr>"
  have x: "next_of ?s = (next_of s)(p := None)" "prev_of ?s = (prev_of s)(p := None)"
    by (auto simp: next_of_def prev_of_def)
  have b: "set (butlast (pHead s # xs @ [pHead s])) = set (pHead s # xs)"
    "set (tl (pHead s # xs @ [pHead s])) = set (pHead s # xs)"
    using ring_shape [of "pHead s" xs] by (simp_all add: insert_commute)
  have "ll_rep ?s xs" using assms(1,2) b unfolding ll_rep_def x
    by (simp add: linked_upd_next linked_upd_prev)
  moreover have "allocated ?s = (allocated s)(p := False)" "data_of ?s = (data_of s)(p := None)"
    by (auto simp: allocated_def data_of_def fun_eq_iff)
  moreover have "link_list_destroy_node s p = Some (NoErr, ?s)"
    using assms by (simp add: link_list_destroy_node_def allocated_def)
  ultimately show thesis by (intro that [of ?s]) simp_all
qed

lemma del_own:
  assumes "ll_own s (us @ (p, d) # ws)"
  shows "\<exists>s'. link_list_del s p = Some (NoErr, s') \<and> ll_own s' (us @ ws) \<and> pHead s' = pHead s \<and>
    (\<forall>q. ll_fresh s' q \<longleftrightarrow> ll_fresh s q \<or> q = p)"
proof -
  let ?xs = "us @ (p, d) # ws"
  from assms have r: "ll_rep s (map fst ?xs)"
    and al: "\<forall>q. allocated s q \<longleftrightarrow> q \<in> set (pHead s # map fst ?xs)"
    and dt: "\<forall>(q, e) \<in> set ?xs. data_of s q = Some e" by (simp_all add: ll_own_def)
  from del_result_rep [OF r, of "map fst us" p "map fst ws"] obtain s1 where
    s1: "link_list_del_result s p = Some (p, s1)" "ll_rep s1 (map fst (us @ ws))"
      "data_of s1 = data_of s" "pHead s1 = pHead s" "allocated s1 = allocated s" "p \<noteq> NULL" by auto
  have "distinct (pHead s # map fst ?xs)" using r unfolding ll_rep_def by metis
  then have np: "p \<notin> set (pHead s1 # map fst (us @ ws))" using s1(4) by auto
  have "allocated s1 p" using al s1(5) by simp
  from free_node_effect [OF s1(2) np this s1(6)] obtain s2 where
    s2: "link_list_destroy_node s1 p = Some (NoErr, s2)" "ll_rep s2 (map fst (us @ ws))"
      "pHead s2 = pHead s1" "allocated s2 = (allocated s1)(p := False)"
      "data_of s2 = (data_of s1)(p := None)" by blast
  have "ll_own s2 (us @ ws)" unfolding ll_own_def using s1 s2 al dt np by (auto; force)
  moreover have "\<forall>q. ll_fresh s2 q \<longleftrightarrow> ll_fresh s q \<or> q = p"
    using s2(4) s1(5,6) by (auto simp: ll_fresh_def)
  ultimately show ?thesis using s1(1,4,6) s2(1,3) by (simp add: link_list_del_def)
qed

lemma own_rep: "ll_own s xs \<Longrightarrow> ll_rep s (map fst xs)"
  by (simp add: ll_own_def)

lemma own_distinct: "ll_own s xs \<Longrightarrow> distinct (map fst xs)"
  by (simp add: ll_own_def ll_rep_def)

lemma remove_own:
  assumes "ll_own s xs" "p \<in> fst ` set xs"
  shows "\<exists>s'. remove p s = Some s' \<and> ll_own s' (filter (\<lambda>e. fst e \<noteq> p) xs) \<and>
    (\<forall>q. ll_fresh s' q \<longleftrightarrow> ll_fresh s q \<or> q = p)"
proof -
  from assms(2) obtain us d ws where x: "xs = us @ (p, d) # ws" by (metis imageE prod.collapse split_list)
  with own_distinct [OF assms(1)] have "p \<notin> fst ` set (us @ ws)" by auto
  then have "filter (\<lambda>e. fst e \<noteq> p) (us @ ws) = us @ ws" by (metis (mono_tags, lifting) filter_True image_eqI)
  then have "filter (\<lambda>e. fst e \<noteq> p) xs = us @ ws" using x by simp
  with del_own [of s us p d ws] assms(1) x show ?thesis by (auto simp: remove_def)
qed

lemma clear_loop_result:
  assumes "ll_own s xs"
  shows "\<exists>s'. link_list_clear_loop s = Some s' \<and> ll_own s' [] \<and> pHead s' = pHead s"
  using assms
proof (induction xs arbitrary: s)
  case Nil
  then have "link_list_del_head s = Some (ParaErr, s)"
    using rep_get_first [OF own_rep [OF Nil.prems]]
    by (simp add: link_list_del_head_def link_list_del_head_result_def link_list_del_result_def
        link_list_destroy_node_def)
  with Nil show ?case by (subst link_list_clear_loop.simps) (simp add: status_defs)
next
  case (Cons e xs)
  obtain p d where e: "e = (p, d)" by (cases e)
  have r: "ll_rep s (p # map fst xs)" using own_rep [OF Cons.prems] e by simp
  obtain s1 where s1: "link_list_del s p = Some (NoErr, s1)" "ll_own s1 xs" "pHead s1 = pHead s"
    using del_own [of s "[]" p d xs] Cons.prems e by auto
  have p: "p \<noteq> NULL" "pHead s \<noteq> p" using rep_node [OF r, of p] by simp_all
  have "link_list_del_head s = link_list_del s p"
    using rep_get_first [OF r] p
    by (simp add: link_list_del_head_def link_list_del_head_result_def link_list_del_def)
  then show ?case using s1 Cons.IH [OF s1(2)] by (subst link_list_clear_loop.simps) simp
qed

lemma own_Nil: "ll_own s [] \<Longrightarrow> heap s (pHead s) \<noteq> None \<and> (heap s)(pHead s := None) = Map.empty"
  unfolding ll_own_def allocated_def by (intro conjI ext) auto

lemma lookup_own:
  assumes "ll_own s xs" "param \<noteq> NULL" "data_of s param = Some d"
  shows "link_list_get s (Some cmp) param =
    Some (case List.find (\<lambda>(p, e). cmp e d = 0) xs of None \<Rightarrow> NULL | Some (p, e) \<Rightarrow> p)"
proof -
  have "(\<forall>(p, e) \<in> set xs. data_of s p = Some e) \<Longrightarrow>
      List.find (holds_at s (\<lambda>e. cmp e d = 0)) (map fst xs) =
      map_option fst (List.find (\<lambda>(p, e). cmp e d = 0) xs)"
    by (induction xs) (auto simp: holds_at_def)
  moreover have "\<forall>(p, e) \<in> set xs. data_of s p = Some e" using assms(1) by (simp add: ll_own_def)
  ultimately show ?thesis using get_result [OF own_rep [OF assms(1)] assms(2,3), of cmp]
    by (auto split: option.splits)
qed

section \<open>Interface\<close>

text \<open>What the scene, condition and action lists rely on: a collection of entries with unique
  handles, inserted at either end and removed by handle.\<close>

datatype ('p, 'd) seq_op = Add_Head 'p 'd | Add_Tail 'p 'd | Remove 'p

fun spec_step :: "('p \<times> 'd) list \<Rightarrow> ('p, 'd) seq_op \<Rightarrow> ('p \<times> 'd) list" where
  "spec_step xs (Add_Head p d) = (p, d) # xs"
| "spec_step xs (Add_Tail p d) = xs @ [(p, d)]"
| "spec_step xs (Remove p) = filter (\<lambda>e. fst e \<noteq> p) xs"

fun op_ok :: "'p set \<Rightarrow> ('p \<times> 'd) list \<Rightarrow> ('p, 'd) seq_op \<Rightarrow> bool" where
  "op_ok bad xs (Add_Head p d) = (p \<notin> bad \<and> p \<notin> fst ` set xs)"
| "op_ok bad xs (Add_Tail p d) = (p \<notin> bad \<and> p \<notin> fst ` set xs)"
| "op_ok bad xs (Remove p) = (p \<in> fst ` set xs)"

fun ops_ok :: "'p set \<Rightarrow> ('p \<times> 'd) list \<Rightarrow> ('p, 'd) seq_op list \<Rightarrow> bool" where
  "ops_ok bad xs [] = True"
| "ops_ok bad xs (a # as) = (op_ok bad xs a \<and> ops_ok bad (spec_step xs a) as)"

fun run_step :: "('d \<Rightarrow> 'p \<Rightarrow> 's \<Rightarrow> 's option) \<Rightarrow> ('d \<Rightarrow> 'p \<Rightarrow> 's \<Rightarrow> 's option) \<Rightarrow> ('p \<Rightarrow> 's \<Rightarrow> 's option) \<Rightarrow>
    's \<Rightarrow> ('p, 'd) seq_op \<Rightarrow> 's option" where
  "run_step ah at rm s (Add_Head p d) = ah d p s"
| "run_step ah at rm s (Add_Tail p d) = at d p s"
| "run_step ah at rm s (Remove p) = rm p s"

fun run_ops :: "('d \<Rightarrow> 'p \<Rightarrow> 's \<Rightarrow> 's option) \<Rightarrow> ('d \<Rightarrow> 'p \<Rightarrow> 's \<Rightarrow> 's option) \<Rightarrow> ('p \<Rightarrow> 's \<Rightarrow> 's option) \<Rightarrow>
    's \<Rightarrow> ('p, 'd) seq_op list \<Rightarrow> 's option" where
  "run_ops ah at rm s [] = Some s"
| "run_ops ah at rm s (a # as) = do { s1 \<leftarrow> run_step ah at rm s a; run_ops ah at rm s1 as }"

locale node_sequence =
  fixes rep :: "'s \<Rightarrow> ('p \<times> 'd) list \<Rightarrow> bool"
    and fresh :: "'s \<Rightarrow> 'p \<Rightarrow> bool"
    and ah at :: "'d \<Rightarrow> 'p \<Rightarrow> 's \<Rightarrow> 's option"
    and rm :: "'p \<Rightarrow> 's \<Rightarrow> 's option"
  assumes head_law: "rep s xs \<Longrightarrow> fresh s p \<Longrightarrow>
      \<exists>s'. ah d p s = Some s' \<and> rep s' ((p, d) # xs) \<and> (\<forall>q. fresh s' q \<longleftrightarrow> fresh s q \<and> q \<noteq> p)"
    and tail_law: "rep s xs \<Longrightarrow> fresh s p \<Longrightarrow>
      \<exists>s'. at d p s = Some s' \<and> rep s' (xs @ [(p, d)]) \<and> (\<forall>q. fresh s' q \<longleftrightarrow> fresh s q \<and> q \<noteq> p)"
    and remove_law: "rep s xs \<Longrightarrow> p \<in> fst ` set xs \<Longrightarrow>
      \<exists>s'. rm p s = Some s' \<and> rep s' (filter (\<lambda>e. fst e \<noteq> p) xs) \<and> (\<forall>q. fresh s' q \<longleftrightarrow> fresh s q \<or> q = p)"
begin

lemma step_refines:
  assumes "rep s xs" "\<forall>q. fresh s q \<longleftrightarrow> q \<notin> bad \<union> fst ` set xs" "op_ok bad xs a"
    "bad \<inter> fst ` set xs = {}"
  shows "\<exists>s'. run_step ah at rm s a = Some s' \<and> rep s' (spec_step xs a) \<and>
    (\<forall>q. fresh s' q \<longleftrightarrow> q \<notin> bad \<union> fst ` set (spec_step xs a)) \<and> bad \<inter> fst ` set (spec_step xs a) = {}"
proof (cases a)
  case (Add_Head p d)
  then show ?thesis using assms head_law [OF assms(1), of p d] by auto
next
  case (Add_Tail p d)
  then show ?thesis using assms tail_law [OF assms(1), of p d] by auto
next
  case (Remove p)
  moreover have "fst ` {e \<in> set xs. fst e \<noteq> p} = fst ` set xs - {p}" by auto
  moreover have "p \<notin> bad" "bad \<inter> (fst ` set xs - {p}) = {}" using assms(3,4) Remove by auto
  ultimately show ?thesis using assms remove_law [OF assms(1), of p] by auto
qed

lemma run_refines:
  assumes "rep s xs" "\<forall>q. fresh s q \<longleftrightarrow> q \<notin> bad \<union> fst ` set xs" "ops_ok bad xs as"
    "bad \<inter> fst ` set xs = {}"
  shows "\<exists>s'. run_ops ah at rm s as = Some s' \<and> rep s' (foldl spec_step xs as)"
  using assms
proof (induction as arbitrary: s xs)
  case (Cons a as)
  from step_refines [OF Cons.prems(1,2) _ Cons.prems(4), of a] Cons.prems(3) obtain s' where
    s': "run_step ah at rm s a = Some s'" "rep s' (spec_step xs a)"
      "\<forall>q. fresh s' q \<longleftrightarrow> q \<notin> bad \<union> fst ` set (spec_step xs a)"
      "bad \<inter> fst ` set (spec_step xs a) = {}" by auto
  from Cons.IH [OF s'(2,3) _ s'(4)] Cons.prems(3) s'(1) show ?case by simp
qed auto

end

interpretation ll: node_sequence ll_own ll_fresh add_head add_tail remove
  by unfold_locales (rule add_head_own add_tail_own remove_own; assumption)+

lemma new_link_list_own:
  assumes "0 \<le> n" "p \<noteq> NULL"
  obtains s where "new_link_list True p z Map.empty n = Some s" "ll_own s []" "pHead s = p"
    "\<forall>q. ll_fresh s q \<longleftrightarrow> q \<notin> {NULL, p}"
proof -
  let ?s = "\<lparr>heap = [p \<mapsto> \<lparr>pPrev = p, pNext = p, nodeData = z\<rparr>], pHead = p, pTail = p,
      iNodeNum = 0, iNodeDataSize = n\<rparr>"
  have "ll_own ?s []" using assms(2)
    by (auto simp: ll_own_def ll_rep_def allocated_def next_of_def prev_of_def)
  then show thesis using assms
    by (intro that [of ?s]) (auto simp: new_link_list_def ll_fresh_def allocated_def)
qed

section \<open>Properties\<close>

text \<open>C22. Pointer-level refinement: starting from a new list, every sequence of allocations with
  insertion at the head or tail and of deletions of present nodes runs without an invalid memory
  access, ends in a well-formed ring that holds exactly the payloads the abstract sequence holds, in
  that order, and no node is leaked.\<close>

theorem link_list_refines_sequence:
  assumes "0 \<le> n" "h \<noteq> NULL" "ops_ok {NULL, h} [] ops"
  shows "\<exists>s0 s. new_link_list True h z Map.empty n = Some s0 \<and>
    run_ops add_head add_tail remove s0 ops = Some s \<and> ll_own s (foldl spec_step [] ops) \<and>
    link_list_size s = int (length (foldl spec_step [] ops))"
proof -
  obtain s0 where s0: "new_link_list True h z Map.empty n = Some s0" "ll_own s0 []" "pHead s0 = h"
      "\<forall>q. ll_fresh s0 q \<longleftrightarrow> q \<notin> {NULL, h}" by (rule new_link_list_own [OF assms(1,2)])
  from ll.run_refines [OF s0(2), of "{NULL, h}" ops] s0(4) assms(3) obtain s where
    s: "run_ops add_head add_tail remove s0 ops = Some s" "ll_own s (foldl spec_step [] ops)" by (simp only: Un_empty_right list.set image_empty Int_empty_right) blast
  moreover from rep_size [OF own_rep [OF s(2)]]
  have "link_list_size s = int (length (foldl spec_step [] ops))" by simp
  ultimately show ?thesis using s0(1) by blast
qed

theorem link_list_refines_sequence_witness:
  "\<exists>s0 s. new_link_list True 1 ''-'' Map.empty 4 = Some s0 \<and>
    run_ops add_head add_tail remove s0 [Add_Tail 5 ''a'', Add_Head 6 ''b'', Remove 5, Add_Tail 7 ''c''] = Some s \<and>
    ll_own s [(6, ''b''), (7, ''c'')] \<and> link_list_size s = 2"
  using link_list_refines_sequence [of 4 1 "[Add_Tail 5 ''a'', Add_Head 6 ''b'', Remove 5, Add_Tail 7 ''c'']" "''-''"]
  by simp

text \<open>C29. \<open>destroy_link_list\<close> returns and frees every node: the loop of \<open>clear\<close> ends, and afterwards
  no node of the list, nor its head node, is allocated.\<close>

theorem destroy_link_list_frees_all:
  assumes "ll_own s xs"
  shows "destroy_link_list (Some s) = Some (NoErr, Map.empty)"
proof -
  show ?thesis
  proof (cases "xs = []")
    case True
    then show ?thesis using assms own_Nil [of s] rep_size [OF own_rep [OF assms]]
      by (auto simp: destroy_link_list_def status_defs)
  next
    case False
    then show ?thesis using clear_loop_result [OF assms] own_Nil rep_size [OF own_rep [OF assms]]
      by (fastforce simp: destroy_link_list_def link_list_clear_def status_defs)
  qed
qed

definition ll_example :: "string link_list_class" where
  "ll_example = \<lparr>heap = [1 \<mapsto> \<lparr>pPrev = 6, pNext = 5, nodeData = ''-''\<rparr>,
      5 \<mapsto> \<lparr>pPrev = 1, pNext = 6, nodeData = ''a''\<rparr>, 6 \<mapsto> \<lparr>pPrev = 5, pNext = 1, nodeData = ''b''\<rparr>],
     pHead = 1, pTail = 6, iNodeNum = 2, iNodeDataSize = 4\<rparr>"

lemma ll_example_own: "ll_own ll_example [(5, ''a''), (6, ''b'')]"
  by (auto simp: ll_example_def ll_own_def ll_rep_def allocated_def next_of_def prev_of_def data_of_def)

theorem destroy_link_list_frees_all_witness: "destroy_link_list (Some ll_example) = Some (NoErr, Map.empty)"
  using destroy_link_list_frees_all [OF ll_example_own] .

section \<open>Overlapping insertions\<close>

text \<open>The lock methods do nothing, so that two threads can be inside \<open>link_list_inst\<close> at once. The assignments of the function, one by one,
  after its arguments were evaluated, and the interleavings of two sequences of assignments.\<close>

definition inst_steps :: "ptr \<Rightarrow> ptr \<Rightarrow> ('d link_list_class \<Rightarrow> 'd link_list_class option) list" where
  "inst_steps cur ins =
     [\<lambda>s. do { n \<leftarrow> next_of s cur; set_next s ins n },
      \<lambda>s. set_prev s ins cur,
      \<lambda>s. do { n \<leftarrow> next_of s cur; set_prev s n ins },
      \<lambda>s. set_next s cur ins,
      \<lambda>s. Some (if pTail s = cur then s\<lparr>pTail := ins\<rparr> else s),
      \<lambda>s. Some (s\<lparr>iNodeNum := iNodeNum s + 1\<rparr>)]"

fun run_steps :: "('s \<Rightarrow> 's option) list \<Rightarrow> 's \<Rightarrow> 's option" where
  "run_steps [] s = Some s"
| "run_steps (f # fs) s = do { s1 \<leftarrow> f s; run_steps fs s1 }"

text \<open>Without interruption the assignments are the function.\<close>

lemma inst_steps_inst:
  "cur \<noteq> NULL \<Longrightarrow> ins \<noteq> NULL \<Longrightarrow> link_list_inst s cur ins = map_option (Pair NoErr) (run_steps (inst_steps cur ins) s)"
  by (simp add: link_list_inst_def INSERT_NODE_def inst_steps_def lock_defs Let_def map_conv_bind_option split: Option.bind_split)

inductive interleaving :: "'a list \<Rightarrow> 'a list \<Rightarrow> 'a list \<Rightarrow> bool" where
  none: "interleaving [] [] []"
| left: "interleaving xs ys zs \<Longrightarrow> interleaving (x # xs) ys (x # zs)"
| right: "interleaving xs ys zs \<Longrightarrow> interleaving xs (y # ys) (y # zs)"

text \<open>An empty list and two new nodes.\<close>

definition race_example :: "string link_list_class" where
  "race_example = \<lparr>heap = [1 \<mapsto> \<lparr>pPrev = 1, pNext = 1, nodeData = ''-''\<rparr>,
      5 \<mapsto> \<lparr>pPrev = 0, pNext = 0, nodeData = ''a''\<rparr>, 6 \<mapsto> \<lparr>pPrev = 0, pNext = 0, nodeData = ''b''\<rparr>],
     pHead = 1, pTail = 1, iNodeNum = 0, iNodeDataSize = 4\<rparr>"

text \<open>Two threads append a node each at the same time. There is an interleaving after which both calls have succeeded and the
  number of nodes is two, but a walk from the head finds the second node only; the other one is the tail of the list, behind
  which every later node is lost as well.\<close>

theorem unlocked_inserts_lose_a_node:
  "\<exists>steps s. interleaving (inst_steps (link_list_get_tail race_example) 5) (inst_steps (link_list_get_tail race_example) 6) steps \<and>
     run_steps steps race_example = Some s \<and> link_list_size s = 2 \<and> link_list_get_first s = Some 6 \<and> link_list_get_next s 6 = Some (link_list_get_head s) \<and>
     link_list_get_tail s = 5"
proof -
  define xs where "xs = (inst_steps 1 5 :: (string link_list_class \<Rightarrow> string link_list_class option) list)"
  define ys where "ys = (inst_steps 1 6 :: (string link_list_class \<Rightarrow> string link_list_class option) list)"
  define zs where "zs = concat (map2 (\<lambda>x y. [x, y]) xs ys)"
  have z: "interleaving us vs (concat (map2 (\<lambda>x y. [x, y]) us vs))" if "length us = length vs" for us vs :: "'a list"
    using that by (induction us vs rule: list_induct2) (auto intro: interleaving.intros)
  have "length xs = length ys" by (simp add: xs_def ys_def inst_steps_def)
  from z [OF this] have i: "interleaving xs ys zs" by (simp add: zs_def)
  have t: "link_list_get_tail race_example = 1" by (simp add: link_list_get_tail_def race_example_def)
  obtain s where s: "run_steps zs race_example = Some s" "link_list_size s = 2" "link_list_get_first s = Some 6"
      "link_list_get_next s 6 = Some (link_list_get_head s)" "link_list_get_tail s = 5"
    by (simp add: zs_def xs_def ys_def inst_steps_def race_example_def next_of_def set_next_def set_prev_def link_list_size_def
        link_list_get_first_def link_list_get_next_def link_list_get_head_def link_list_get_tail_def lock_defs Let_def)
  then show ?thesis using i unfolding t xs_def ys_def by blast
qed

section \<open>Positions and search\<close>

text \<open>Positions: \<open>get_by_id\<close> returns the node at a position and \<open>NULL\<close> outside the list, and
  \<open>get_index\<close> is its inverse on the nodes of the list.\<close>

theorem link_list_position_roundtrip:
  assumes "ll_own s xs"
  shows "link_list_get_by_id s i = Some (if 0 \<le> i \<and> i < int (length xs) then fst (xs ! nat i) else NULL) \<and>
    (0 \<le> i \<and> i < int (length xs) \<longrightarrow> link_list_get_index s (fst (xs ! nat i)) = Some i)"
proof -
  note r = own_rep [OF assms]
  have "link_list_get_by_id s i = Some (if 0 \<le> i \<and> i < int (length xs) then fst (xs ! nat i) else NULL)"
    using get_by_id_result [OF r, of i] nth_map [of "nat i" xs fst] by (auto simp: nat_less_iff)
  moreover have "0 \<le> i \<and> i < int (length xs) \<longrightarrow> link_list_get_index s (fst (xs ! nat i)) = Some i"
    using get_index_result [OF r, of "nat i"] by auto
  ultimately show ?thesis by blast
qed

theorem link_list_position_roundtrip_witness:
  "link_list_get_by_id ll_example 1 = Some 6 \<and> link_list_get_index ll_example 6 = Some 1"
  using link_list_position_roundtrip [OF ll_example_own, of 1] by simp

text \<open>Search: \<open>link_list_get\<close> returns and yields the first node, in list order, whose payload
  compares equal to the one searched for, and \<open>NULL\<close> when there is none.\<close>

theorem link_list_get_finds_first:
  assumes "ll_own s xs" "param \<noteq> NULL" "data_of s param = Some d"
  shows "link_list_get s (Some cmp) param =
    Some (case List.find (\<lambda>(p, e). cmp e d = 0) xs of None \<Rightarrow> NULL | Some (p, e) \<Rightarrow> p)"
  using assms by (rule lookup_own)

theorem link_list_get_finds_first_witness:
  "link_list_get ll_example (Some strcmp) 6 = Some 6 \<and>
   link_list_get ll_example (Some (\<lambda>e d. if e = ''a'' then 0 else 1)) 6 = Some 5"
proof -
  have "data_of ll_example 6 = Some ''b''" by (simp add: ll_example_def data_of_def)
  from link_list_get_finds_first [OF ll_example_own _ this, of strcmp]
    link_list_get_finds_first [OF ll_example_own _ this, of "\<lambda>e d. if e = ''a'' then 0 else 1"]
  show ?thesis by simp
qed

end
