(* ===== verification/Hash_Table.thy ===== *)
theory Hash_Table
  imports Honyar_Prelude "HOL-Library.Multiset"
begin

text \<open>
  The chained hash table of \<open>hylink/src/local_scene/hashtable.c\<close>. A bucket is the list of the
  elements that hang off one slot of \<open>pstHashTable\<close>: the head of the list is the element stored in
  the slot itself, the rest is the chain of its \<open>next\<close> pointers, and the empty list is a slot whose
  \<open>ucUsed\<close> is \<open>0\<close>. The counters keep their 32-bit width. The result of the \<open>k\<close>-th \<open>calloc\<close> of a call
  is the parameter \<open>al k\<close>. Calls of \<open>pFreeValueHandle\<close> are recorded in the result.

  Insertion appends without looking for an equal key, lookup returns the oldest entry and deletion
  removes it, so the table is a map from keys to queues of values; growing the table keeps it.
\<close>

section \<open>State and operations\<close>

definition HASH_KEY_MAX_LEN :: nat where "HASH_KEY_MAX_LEN = 128"

record hash_elem =
  acKey :: string
  pValue :: ptr

record hash_table =
  uiHashTableSize :: nat
  ucDilatationEnable :: u8
  pFreeValueHandle :: bool
  uiUsedCount :: u32
  uiConflict :: u32
  pstHashTable :: "hash_elem list list"

definition pauiSizeList :: "nat list" where
  "pauiSizeList = [53, 97, 193, 389, 769, 1543, 3079, 6151, 12289, 24593, 49157, 98317, 196613,
     393241, 786443, 1572869, 3145739, 6291469, 12582917, 25165842, 50331553, 100663319,
     201326611, 402653189, 805306457, 1610612741]"

text \<open>The characters are read as unsigned bytes, as on the ARM targets of the gateway. The modulus
  is never zero, since a table has at least one slot.\<close>

fun hash_loop :: "u32 \<Rightarrow> string \<Rightarrow> u32" where
  "hash_loop uiHash [] = uiHash"
| "hash_loop uiHash (c # cs) = hash_loop (uiHash * 131 + of_nat (of_char c)) cs"

definition hash :: "string \<Rightarrow> nat \<Rightarrow> nat" where
  "hash pcKey iSize = unat (hash_loop 0 pcKey) mod iSize"

definition hash_is_empty :: "hash_table \<Rightarrow> int" where
  "hash_is_empty t = (if uiUsedCount t \<noteq> 0 then 0 else 1)"

definition hash_size :: "hash_table \<Rightarrow> int" where
  "hash_size t = sint (uiUsedCount t + uiConflict t)"

text \<open>Storing one element, the block that appears in the growing loop and at the end of
  \<open>hash_inst\<close>: an occupied slot needs a new chain node and counts as a conflict. \<open>Inl\<close> is the early
  return on a failed allocation; the first component counts the \<open>calloc\<close> calls.\<close>

type_synonym place_state = "nat \<times> hash_elem list list \<times> u32 \<times> u32"

definition place :: "(nat \<Rightarrow> bool) \<Rightarrow> nat \<Rightarrow> string \<Rightarrow> ptr \<Rightarrow> place_state \<Rightarrow> status + place_state" where
  "place al iSize pcKey v st = (case st of (k, tb, used, confl) \<Rightarrow>
     let uiHash = hash pcKey iSize;
         e = \<lparr>acKey = strncpy pcKey (HASH_KEY_MAX_LEN - 1), pValue = v\<rparr> in
     if tb ! uiHash \<noteq> [] then
       (if al k then Inr (Suc k, tb[uiHash := tb ! uiHash @ [e]], used, confl + 1)
        else Inl HeapReqErr)
     else Inr (k, tb[uiHash := [e]], used + 1, confl))"

fun rehash :: "(nat \<Rightarrow> bool) \<Rightarrow> nat \<Rightarrow> hash_elem list \<Rightarrow> place_state \<Rightarrow> status + place_state" where
  "rehash al iSize [] st = Inr st"
| "rehash al iSize (p # ps) st = (case place al iSize (acKey p) (pValue p) st of
     Inl r \<Rightarrow> Inl r
   | Inr st' \<Rightarrow> rehash al iSize ps st')"

definition new_table_size :: "nat \<Rightarrow> nat" where
  "new_table_size n =
     (let i = length (takeWhile (\<lambda>s. s \<le> n) pauiSizeList)
      in pauiSizeList ! (if i = 26 then i - 1 else i))"

text \<open>The growing step: \<open>(unsigned int)(uiHashTableSize * 0.15)\<close> is \<open>15 * size div 100\<close>.\<close>

definition needs_dilatation :: "hash_table \<Rightarrow> bool" where
  "needs_dilatation t \<longleftrightarrow> ucDilatationEnable t \<noteq> 0 \<and> unat (uiConflict t) > 15 * uiHashTableSize t div 100"

definition dilatation :: "(nat \<Rightarrow> bool) \<Rightarrow> hash_table \<Rightarrow> status + nat \<times> hash_table" where
  "dilatation al t =
     (if needs_dilatation t then
        let n = new_table_size (uiHashTableSize t) in
        if \<not> al 0 then Inl HeapReqErr
        else (case rehash al n (concat (pstHashTable t)) (1, replicate n [], 0, 0) of
            Inl r \<Rightarrow> Inl r
          | Inr (k, tb, used, confl) \<Rightarrow>
              Inr (k, t\<lparr>pstHashTable := tb, uiConflict := confl, uiUsedCount := used, uiHashTableSize := n\<rparr>))
      else Inr (0, t))"

definition hash_inst :: "(nat \<Rightarrow> bool) \<Rightarrow> hash_table \<Rightarrow> string option \<Rightarrow> ptr \<Rightarrow> status \<times> hash_table" where
  "hash_inst al t key v = (case key of
     None \<Rightarrow> (ParaErr, t)
   | Some pcKey \<Rightarrow>
       if v = NULL then (ParaErr, t)
       else (case dilatation al t of
           Inl r \<Rightarrow> (r, t)
         | Inr (k, t1) \<Rightarrow>
            (case place al (uiHashTableSize t1) pcKey v (k, pstHashTable t1, uiUsedCount t1, uiConflict t1) of
               Inl r \<Rightarrow> (r, t1)
             | Inr (k', tb, used, confl) \<Rightarrow>
                 (NoErr, t1\<lparr>pstHashTable := tb, uiUsedCount := used, uiConflict := confl\<rparr>))))"

fun del_chain :: "string \<Rightarrow> hash_elem list \<Rightarrow> (ptr \<times> hash_elem list) option" where
  "del_chain pcKey [] = None"
| "del_chain pcKey (p # ps) =
     (if strcmp (acKey p) pcKey = 0 then Some (pValue p, ps)
      else map_option (\<lambda>(v, r). (v, p # r)) (del_chain pcKey ps))"

definition free_call :: "hash_table \<Rightarrow> ptr \<Rightarrow> ptr list" where
  "free_call t v = (if pFreeValueHandle t then [v] else [])"

definition hash_del :: "hash_table \<Rightarrow> string option \<Rightarrow> status \<times> hash_table \<times> ptr list" where
  "hash_del t key = (case key of
     None \<Rightarrow> (ParaErr, t, [])
   | Some pcKey \<Rightarrow>
      (let uiHash = hash pcKey (uiHashTableSize t); pHash = pstHashTable t in
       case pHash ! uiHash of
         [] \<Rightarrow> (NoErr, t, free_call t NULL)
       | p # chain \<Rightarrow>
           if strcmp (acKey p) pcKey = 0 then
             (if chain = []
              then (NoErr, t\<lparr>pstHashTable := pHash[uiHash := []], uiUsedCount := uiUsedCount t - 1\<rparr>,
                    free_call t (pValue p))
              else (NoErr, t\<lparr>pstHashTable := pHash[uiHash := chain], uiConflict := uiConflict t - 1\<rparr>,
                    free_call t (pValue p)))
           else (case del_chain pcKey chain of
               None \<Rightarrow> (NoErr, t, free_call t NULL)
             | Some (v, rest) \<Rightarrow>
                 (NoErr, t\<lparr>pstHashTable := pHash[uiHash := p # rest], uiConflict := uiConflict t - 1\<rparr>,
                  free_call t v))))"

text \<open>\<open>clear\<close> frees the chain of a slot before the element in the slot.\<close>

definition clear_bucket :: "hash_table \<Rightarrow> hash_elem list \<Rightarrow> ptr list" where
  "clear_bucket t b = (case b of
     [] \<Rightarrow> []
   | p # chain \<Rightarrow> concat (map (\<lambda>e. free_call t (pValue e)) chain) @ free_call t (pValue p))"

definition hash_clear :: "hash_table \<Rightarrow> status \<times> hash_table \<times> ptr list" where
  "hash_clear t = (NoErr,
     t\<lparr>pstHashTable := map (\<lambda>b. []) (pstHashTable t), uiConflict := 0, uiUsedCount := 0\<rparr>,
     concat (map (clear_bucket t) (pstHashTable t)))"

definition hash_find :: "hash_table \<Rightarrow> string option \<Rightarrow> ptr" where
  "hash_find t key = (case key of
     None \<Rightarrow> NULL
   | Some pcKey \<Rightarrow>
      (case List.find (\<lambda>e. strcmp (acKey e) pcKey = 0) (pstHashTable t ! hash pcKey (uiHashTableSize t)) of
         None \<Rightarrow> NULL
       | Some e \<Rightarrow> pValue e))"

definition new_hash_table :: "(nat \<Rightarrow> bool) \<Rightarrow> int \<Rightarrow> int \<Rightarrow> bool \<Rightarrow> hash_table option" where
  "new_hash_table al iSize iDilatationEnable freeHandle =
     (let n = (if iSize > 0 then nat iSize else hd pauiSizeList) in
      if \<not> al 0 then None
      else if \<not> al 1 then None
      else Some \<lparr>uiHashTableSize = n, ucDilatationEnable = word_of_int iDilatationEnable,
                 pFreeValueHandle = freeHandle, uiUsedCount = 0, uiConflict = 0,
                 pstHashTable = replicate n []\<rparr>)"

text \<open>The destructor returns the status and the values passed to \<open>pFreeValueHandle\<close>.\<close>

definition destroy_hash_table :: "hash_table option \<Rightarrow> status \<times> ptr list" where
  "destroy_hash_table t = (case t of
     None \<Rightarrow> (ParaErr, [])
   | Some h \<Rightarrow> (NoErr, if hash_size h \<noteq> 0 then snd (snd (hash_clear h)) else []))"

section \<open>Invariant\<close>

text \<open>Every element sits in the bucket of its hash value, with a key that fits the key buffer, and
  the counters are the number of used slots and of chained elements (modulo \<open>2 ^ 32\<close>).\<close>

definition used_slots :: "hash_elem list list \<Rightarrow> nat" where
  "used_slots tb = length (filter (\<lambda>b. b \<noteq> []) tb)"

definition tab_ok :: "nat \<Rightarrow> hash_elem list list \<Rightarrow> u32 \<Rightarrow> u32 \<Rightarrow> bool" where
  "tab_ok n tb used confl \<longleftrightarrow> 0 < n \<and> length tb = n \<and>
     (\<forall>i < n. \<forall>e \<in> set (tb ! i). hash (acKey e) n = i \<and> length (acKey e) < HASH_KEY_MAX_LEN) \<and>
     used = of_nat (used_slots tb) \<and> used + confl = of_nat (length (concat tb))"

definition ht_inv :: "hash_table \<Rightarrow> bool" where
  "ht_inv t \<longleftrightarrow> tab_ok (uiHashTableSize t) (pstHashTable t) (uiUsedCount t) (uiConflict t)"

definition entries :: "hash_table \<Rightarrow> hash_elem list" where
  "entries t = concat (pstHashTable t)"

definition vals_in :: "hash_elem list \<Rightarrow> string \<Rightarrow> ptr list" where
  "vals_in es k = map pValue (filter (\<lambda>e. acKey e = k) es)"

definition vals :: "hash_table \<Rightarrow> string \<Rightarrow> ptr list" where
  "vals t = vals_in (entries t)"

lemma vals_in_simps [simp]:
  "vals_in [] k = []" "vals_in (xs @ ys) k = vals_in xs k @ vals_in ys k"
  "vals_in (e # xs) k = (if acKey e = k then pValue e # vals_in xs k else vals_in xs k)"
  by (simp_all add: vals_in_def)

lemma hash_less: "0 < n \<Longrightarrow> hash k n < n"
  by (simp add: hash_def)

lemma append_middle_eq: "a @ b @ c = b \<Longrightarrow> a = [] \<and> c = []"
proof -
  assume "a @ b @ c = b"
  then have "length (a @ b @ c) = length b" by (simp only:)
  then show ?thesis by simp
qed

lemma split_at: "i < length tb \<Longrightarrow> tb = take i tb @ tb ! i # drop (Suc i) tb"
  by (rule id_take_nth_drop)

lemma concat_update:
  assumes "i < length tb"
  shows "mset (concat (tb[i := x])) + mset (tb ! i) = mset (concat tb) + mset x"
proof -
  have "concat tb = concat (take i tb) @ tb ! i @ concat (drop (Suc i) tb)"
    using arg_cong [OF split_at [OF assms], of concat] by simp
  moreover have "concat (tb[i := x]) = concat (take i tb) @ x @ concat (drop (Suc i) tb)"
    using assms by (simp add: upd_conv_take_nth_drop)
  ultimately show ?thesis by simp
qed

lemma length_concat_update:
  assumes "i < length tb"
  shows "length (concat (tb[i := x])) + length (tb ! i) = length (concat tb) + length x"
  using arg_cong [OF concat_update [OF assms, of x], of size] by (simp only: size_union size_mset)

lemma used_slots_update:
  assumes "i < length tb"
  shows "used_slots (tb[i := x]) + (if tb ! i = [] then 0 else 1) = used_slots tb + (if x = [] then 0 else 1)"
proof -
  have "used_slots tb = used_slots (take i tb @ tb ! i # drop (Suc i) tb)"
    using split_at [OF assms] by simp
  then show ?thesis using assms by (simp add: upd_conv_take_nth_drop used_slots_def)
qed

lemma bucket_vals:
  assumes "tab_ok n tb u c"
  shows "vals_in (concat tb) k = vals_in (tb ! hash k n) k"
proof -
  let ?i = "hash k n"
  have i: "?i < length tb" using assms hash_less by (auto simp: tab_ok_def)
  have none: "j < length tb \<Longrightarrow> j \<noteq> ?i \<Longrightarrow> vals_in (tb ! j) k = []" for j
    using assms by (auto simp: tab_ok_def vals_in_def filter_empty_conv)
  have z: "(\<forall>b \<in> set bs. vals_in b k = []) \<Longrightarrow> vals_in (concat bs) k = []" for bs
    by (induction bs) auto
  have "vals_in (concat (take ?i tb)) k = []"
    using none i by (intro z) (auto simp: in_set_conv_nth)
  moreover have "vals_in (concat (drop (Suc ?i) tb)) k = []"
    using none i by (intro z) (auto simp: in_set_conv_nth)
  moreover have "concat tb = concat (take ?i tb) @ tb ! ?i @ concat (drop (Suc ?i) tb)"
    using arg_cong [OF split_at [OF i], of concat] by simp
  ultimately show ?thesis by simp
qed

lemma place_cases:
  assumes "tab_ok n tb u c" "length key < HASH_KEY_MAX_LEN"
  shows "place al n key v (k, tb, u, c) = Inl HeapReqErr \<or>
    (\<exists>k' u' c'. place al n key v (k, tb, u, c) =
        Inr (k', tb[hash key n := tb ! hash key n @ [\<lparr>acKey = key, pValue = v\<rparr>]], u', c') \<and>
      tab_ok n (tb[hash key n := tb ! hash key n @ [\<lparr>acKey = key, pValue = v\<rparr>]]) u' c')"
proof -
  let ?i = "hash key n" and ?e = "\<lparr>acKey = key, pValue = v\<rparr>"
  let ?tb = "tb[?i := tb ! ?i @ [?e]]"
  have i: "?i < length tb" using assms hash_less by (auto simp: tab_ok_def)
  have key: "strncpy key (HASH_KEY_MAX_LEN - 1) = key"
    using assms(2) by (simp add: HASH_KEY_MAX_LEN_def)
  have "length (concat ?tb) + length (tb ! ?i) = Suc (length (concat tb)) + length (tb ! ?i)"
    using length_concat_update [OF i, of "tb ! ?i @ [?e]"] by simp
  then have l: "length (concat ?tb) = Suc (length (concat tb))" by linarith
  have m: "\<forall>j < n. \<forall>e \<in> set (?tb ! j). hash (acKey e) n = j \<and> length (acKey e) < HASH_KEY_MAX_LEN"
    using assms i by (auto simp: tab_ok_def nth_list_update split: if_splits)
  have u: "u = of_nat (used_slots tb)" using assms(1) by (simp add: tab_ok_def)
  have uc: "u + c + 1 = of_nat (length (concat ?tb))"
    unfolding l of_nat_Suc using assms(1) unfolding tab_ok_def by (metis add.commute)
  have grow: "tab_ok n ?tb u' c'" if "u' = of_nat (used_slots ?tb)" "u' + c' = u + c + 1" for u' c'
    using assms(1) m that uc unfolding tab_ok_def by (intro conjI) simp_all
  show ?thesis
  proof (cases "tb ! ?i = []")
    case True
    then have "used_slots ?tb = Suc (used_slots tb)" using used_slots_update [OF i, of "[?e]"] by simp
    then have "tab_ok n ?tb (u + 1) c" by (intro grow) (simp_all add: u)
    with True key show ?thesis by (simp add: place_def)
  next
    case False
    then have "used_slots ?tb = used_slots tb" using used_slots_update [OF i, of "tb ! ?i @ [?e]"] by simp
    then have "tab_ok n ?tb u (c + 1)" by (intro grow) (simp_all add: u)
    with False key show ?thesis by (cases "al k") (simp_all add: place_def Let_def)
  qed
qed

lemma place_vals:
  assumes "tab_ok n tb u c"
  shows "vals_in (concat (tb[hash (acKey e) n := tb ! hash (acKey e) n @ [e]])) k =
    vals_in (concat tb) k @ (if acKey e = k then [pValue e] else [])"
proof -
  let ?i = "hash (acKey e) n"
  have i: "?i < length tb" using assms hash_less by (auto simp: tab_ok_def)
  have t: "vals_in (concat tb) k = vals_in (concat (take ?i tb)) k @ vals_in (tb ! ?i) k @ vals_in (concat (drop (Suc ?i) tb)) k"
    using arg_cong [OF split_at [OF i], of "\<lambda>x. vals_in (concat x) k"] by simp
  have "acKey e = k \<Longrightarrow> vals_in (concat (drop (Suc ?i) tb)) k = []"
    using arg_cong [of _ _ length, OF trans [OF t [symmetric] bucket_vals [OF assms, of k]]] by auto
  then show ?thesis using i t by (auto simp: upd_conv_take_nth_drop)
qed

lemma rehash_ok:
  assumes "tab_ok n tb u c" "\<forall>e \<in> set es. length (acKey e) < HASH_KEY_MAX_LEN"
    "rehash al n es (k, tb, u, c) = Inr (k', tb', u', c')"
  shows "tab_ok n tb' u' c' \<and> mset (concat tb') = mset (concat tb) + mset es \<and>
    (\<forall>x. vals_in (concat tb') x = vals_in (concat tb) x @ vals_in es x)"
  using assms
proof (induction es arbitrary: k tb u c)
  case (Cons e es)
  let ?i = "hash (acKey e) n"
  let ?tb = "tb[?i := tb ! ?i @ [e]]"
  have i: "?i < length tb" using Cons.prems(1) hash_less by (auto simp: tab_ok_def)
  have e: "\<lparr>acKey = acKey e, pValue = pValue e\<rparr> = e" by simp
  from place_cases [OF Cons.prems(1), of "acKey e" al "pValue e" k] Cons.prems(2,3)
  obtain k1 u1 c1 where p: "place al n (acKey e) (pValue e) (k, tb, u, c) = Inr (k1, ?tb, u1, c1)"
    "tab_ok n ?tb u1 c1" unfolding e by auto
  have "rehash al n es (k1, ?tb, u1, c1) = Inr (k', tb', u', c')" using Cons.prems(3) p(1) by simp
  from Cons.IH [OF p(2) _ this] Cons.prems(2)
  have ih: "tab_ok n tb' u' c'" "mset (concat tb') = mset (concat ?tb) + mset es"
    "\<forall>x. vals_in (concat tb') x = vals_in (concat ?tb) x @ vals_in es x" by auto
  have "mset (concat ?tb) = add_mset e (mset (concat tb))"
    using concat_update [OF i, of "tb ! ?i @ [e]"] by simp
  with ih place_vals [OF Cons.prems(1), of e] show ?case by (auto simp del: mset_concat)
qed auto

lemma new_table_size_pos: "0 < new_table_size n"
proof -
  let ?i = "length (takeWhile (\<lambda>s. s \<le> n) pauiSizeList)"
  have l: "length pauiSizeList = 26" by (simp add: pauiSizeList_def)
  have "?i \<le> 26" using length_takeWhile_le [of "\<lambda>s. s \<le> n" pauiSizeList] l by simp
  then have "(if ?i = 26 then ?i - 1 else ?i) < length pauiSizeList" using l by auto
  moreover have "\<forall>x \<in> set pauiSizeList. 0 < x" by (simp add: pauiSizeList_def)
  ultimately show ?thesis unfolding new_table_size_def Let_def using nth_mem by blast
qed

lemma empty_tab_ok: "0 < n \<Longrightarrow> tab_ok n (replicate n []) 0 0"
  by (simp add: tab_ok_def used_slots_def)

lemma rehash_fail: "rehash al n es st = Inl r \<Longrightarrow> r = HeapReqErr"
proof (induction es arbitrary: st)
  case (Cons e es)
  obtain k tb u c where st: "st = (k, tb, u, c)" by (cases st)
  have "place al n (acKey e) (pValue e) st = Inl x \<Longrightarrow> x = HeapReqErr" for x
    using st by (simp add: place_def Let_def split: if_splits)
  with Cons show ?case by (auto split: sum.splits)
qed auto

lemma dilatation_ok:
  assumes "ht_inv t"
  shows "dilatation al t = Inl HeapReqErr \<or>
    (\<exists>k t1. dilatation al t = Inr (k, t1) \<and> ht_inv t1 \<and> vals t1 = vals t \<and> mset (entries t1) = mset (entries t) \<and>
      ucDilatationEnable t1 = ucDilatationEnable t \<and> pFreeValueHandle t1 = pFreeValueHandle t)"
proof (cases "needs_dilatation t \<and> al 0")
  case False
  then show ?thesis using assms by (auto simp: dilatation_def Let_def)
next
  case True
  let ?n = "new_table_size (uiHashTableSize t)"
  let ?r = "rehash al ?n (entries t) (1, replicate ?n [], 0, 0)"
  have es: "\<forall>e \<in> set (entries t). length (acKey e) < HASH_KEY_MAX_LEN"
    using assms by (fastforce simp: ht_inv_def tab_ok_def entries_def in_set_conv_nth)
  show ?thesis
  proof (cases ?r)
    case (Inl r)
    then show ?thesis using True rehash_fail [OF Inl] by (auto simp: dilatation_def Let_def entries_def)
  next
    case (Inr x)
    obtain k tb u c where x: "x = (k, tb, u, c)" by (cases x)
    from rehash_ok [OF empty_tab_ok [OF new_table_size_pos] es Inr [unfolded x]] have
      "tab_ok ?n tb u c" "mset (concat tb) = mset (entries t)" "\<forall>y. vals_in (concat tb) y = vals_in (entries t) y"
      by (simp_all add: concat_replicate_trivial del: mset_concat)
    with True Inr x show ?thesis
      by (auto simp: dilatation_def Let_def entries_def ht_inv_def vals_def fun_eq_iff simp del: mset_concat)
  qed
qed

lemma hash_inst_cases:
  assumes "ht_inv t" "length k < HASH_KEY_MAX_LEN" "v \<noteq> NULL"
  obtains t' where "hash_inst al t (Some k) v = (HeapReqErr, t')" "ht_inv t'" "vals t' = vals t"
      "mset (entries t') = mset (entries t)" "pFreeValueHandle t' = pFreeValueHandle t"
  | t' where "hash_inst al t (Some k) v = (NoErr, t')" "ht_inv t'"
      "vals t' = (vals t)(k := vals t k @ [v])"
      "mset (entries t') = add_mset \<lparr>acKey = k, pValue = v\<rparr> (mset (entries t))"
      "pFreeValueHandle t' = pFreeValueHandle t"
proof -
  consider (fail) "dilatation al t = Inl HeapReqErr" | (grown) m t1 where "dilatation al t = Inr (m, t1)"
    "ht_inv t1" "vals t1 = vals t" "mset (entries t1) = mset (entries t)"
    "pFreeValueHandle t1 = pFreeValueHandle t"
    using dilatation_ok [OF assms(1), of al] by blast
  then show thesis
  proof cases
    case fail
    then show ?thesis using assms by (intro that(1) [of t]) (simp_all add: hash_inst_def)
  next
    case grown
    let ?n = "uiHashTableSize t1" and ?tb = "pstHashTable t1" and ?e = "\<lparr>acKey = k, pValue = v\<rparr>"
    let ?st = "(m, ?tb, uiUsedCount t1, uiConflict t1)" and ?i = "hash k ?n"
    note ok = grown(2) [unfolded ht_inv_def]
    have i: "?i < length ?tb" using ok hash_less by (auto simp: tab_ok_def)
    from place_cases [OF ok assms(2), of al v m] show ?thesis
    proof (elim disjE exE conjE)
      assume "place al ?n k v ?st = Inl HeapReqErr"
      with grown assms show ?thesis by (intro that(1) [of t1]) (simp_all add: hash_inst_def)
    next
      fix k' u' c'
      assume p: "place al ?n k v ?st = Inr (k', ?tb[?i := ?tb ! ?i @ [?e]], u', c')"
        and ok': "tab_ok ?n (?tb[?i := ?tb ! ?i @ [?e]]) u' c'"
      let ?t = "t1\<lparr>pstHashTable := ?tb[?i := ?tb ! ?i @ [?e]], uiUsedCount := u', uiConflict := c'\<rparr>"
      have "vals ?t = (vals t)(k := vals t k @ [v])"
        using place_vals [OF ok, of ?e] grown(3) by (auto simp: vals_def entries_def fun_eq_iff)
      moreover have "mset (entries ?t) = add_mset ?e (mset (entries t))"
        using concat_update [OF i, of "?tb ! ?i @ [?e]"] grown(4) by (simp add: entries_def)
      ultimately show ?thesis using p ok' grown assms
        by (intro that(2) [of ?t]) (simp_all add: hash_inst_def ht_inv_def)
    qed
  qed
qed

lemma hash_find_vals:
  assumes "ht_inv t"
  shows "hash_find t (Some k) = (case vals t k of [] \<Rightarrow> NULL | v # vs \<Rightarrow> v)"
proof -
  let ?b = "pstHashTable t ! hash k (uiHashTableSize t)"
  have "vals t k = vals_in ?b k"
    using bucket_vals [OF assms [unfolded ht_inv_def]] by (simp add: vals_def entries_def)
  moreover have "(case List.find (\<lambda>e. strcmp (acKey e) k = 0) b of None \<Rightarrow> NULL | Some e \<Rightarrow> pValue e) =
      (case vals_in b k of [] \<Rightarrow> NULL | v # vs \<Rightarrow> v)" for b
    by (induction b) auto
  ultimately show ?thesis by (simp add: hash_find_def)
qed

text \<open>Deletion from a bucket: the first element with the key goes, whatever its position.\<close>

fun bucket_del :: "string \<Rightarrow> hash_elem list \<Rightarrow> hash_elem list" where
  "bucket_del k [] = []"
| "bucket_del k (e # es) = (if acKey e = k then es else e # bucket_del k es)"

lemma bucket_del_vals: "vals_in (bucket_del k b) x = (if x = k then tl (vals_in b k) else vals_in b x)"
  by (induction b) auto

lemma bucket_del_subset: "set (bucket_del k b) \<subseteq> set b"
  by (induction b) auto

lemma bucket_del_length: "length b = length (bucket_del k b) + (if vals_in b k = [] then 0 else 1)"
  by (induction b) auto

lemma bucket_del_absent: "vals_in b k = [] \<Longrightarrow> bucket_del k b = b"
  by (induction b) (auto split: if_splits)

lemma del_chain_bucket:
  "del_chain k es = (if vals_in es k = [] then None else Some (hd (vals_in es k), bucket_del k es))"
  by (induction es) auto

definition used_after :: "u32 \<Rightarrow> hash_elem list \<Rightarrow> hash_elem list \<Rightarrow> u32" where
  "used_after u b b' = (if b' = [] \<and> b \<noteq> [] then u - 1 else u)"

definition confl_after :: "u32 \<Rightarrow> hash_elem list \<Rightarrow> hash_elem list \<Rightarrow> u32" where
  "confl_after c b b' = (if b' \<noteq> [] \<and> length b' < length b then c - 1 else c)"

lemma hash_del_result:
  assumes "ht_inv t" "i = hash k (uiHashTableSize t)" "b = pstHashTable t ! i"
  shows "hash_del t (Some k) = (NoErr, t\<lparr>pstHashTable := (pstHashTable t)[i := bucket_del k b],
      uiUsedCount := used_after (uiUsedCount t) b (bucket_del k b),
      uiConflict := confl_after (uiConflict t) b (bucket_del k b)\<rparr>,
    free_call t (case vals_in b k of [] \<Rightarrow> NULL | v # vs \<Rightarrow> v))"
proof (cases b)
  case Nil
  then have "(pstHashTable t)[i := []] = pstHashTable t" using assms by (metis list_update_id)
  with Nil show ?thesis using assms by (simp add: hash_del_def used_after_def confl_after_def)
next
  case (Cons p chain)
  show ?thesis
  proof (cases "vals_in b k = []")
    case True
    then have d: "bucket_del k b = b" by (rule bucket_del_absent)
    have "hash_del t (Some k) = (NoErr, t, free_call t NULL)"
      using True Cons assms(2,3) by (simp add: hash_del_def del_chain_bucket split: if_splits)
    moreover have "(pstHashTable t)[i := b] = pstHashTable t" using assms by simp
    ultimately show ?thesis unfolding d using True by (simp add: used_after_def confl_after_def)
  next
    case False
    have l: "length chain = length (bucket_del k chain) + (if vals_in chain k = [] then 0 else 1)"
      by (rule bucket_del_length)
    show ?thesis
    proof (cases "acKey p = k")
      case True
      then show ?thesis using Cons assms(2,3)
        by (simp add: hash_del_def used_after_def confl_after_def)
    next
      case F: False
      then have "vals_in chain k \<noteq> []" using False Cons by simp
      with F l show ?thesis using Cons assms(2,3)
        by (cases "vals_in chain k") (simp_all add: hash_del_def used_after_def confl_after_def del_chain_bucket)
    qed
  qed
qed

lemma hash_del_ok:
  assumes "ht_inv t"
  shows "\<exists>t'. hash_del t (Some k) = (NoErr, t', free_call t (case vals t k of [] \<Rightarrow> NULL | v # vs \<Rightarrow> v)) \<and>
    ht_inv t' \<and> vals t' = (vals t)(k := tl (vals t k)) \<and> pFreeValueHandle t' = pFreeValueHandle t"
proof -
  let ?n = "uiHashTableSize t" and ?tb = "pstHashTable t"
  define i where "i = hash k ?n"
  define b where "b = ?tb ! i"
  define b' where "b' = bucket_del k b"
  let ?t = "t\<lparr>pstHashTable := ?tb[i := b'], uiUsedCount := used_after (uiUsedCount t) b b',
    uiConflict := confl_after (uiConflict t) b b'\<rparr>"
  note ok = assms [unfolded ht_inv_def]
  have i: "i < length ?tb" using ok hash_less by (auto simp: tab_ok_def i_def)
  have vb: "vals t k = vals_in b k"
    using bucket_vals [OF ok] by (simp add: vals_def entries_def b_def i_def)
  have l: "length b = length b' + (if vals_in b k = [] then 0 else 1)"
    unfolding b'_def by (rule bucket_del_length)
  have c: "length (concat (?tb[i := b'])) + length b = length (concat ?tb) + length b'"
    using length_concat_update [OF i, of b'] by (simp only: b_def)
  have us: "used_slots (?tb[i := b']) + (if b = [] then 0 else 1) = used_slots ?tb + (if b' = [] then 0 else 1)"
    using used_slots_update [OF i, of b'] by (simp only: b_def)
  have m: "\<forall>j < ?n. \<forall>e \<in> set (?tb[i := b'] ! j). hash (acKey e) ?n = j \<and> length (acKey e) < HASH_KEY_MAX_LEN"
    using ok i bucket_del_subset [of k b] by (auto simp: tab_ok_def nth_list_update b'_def b_def)
  have u: "uiUsedCount t = of_nat (used_slots ?tb)" "uiUsedCount t + uiConflict t = of_nat (length (concat ?tb))"
    using ok unfolding tab_ok_def by blast+
  have u1: "used_after (uiUsedCount t) b b' = of_nat (used_slots (?tb[i := b']))"
  proof (cases "b' = [] \<and> b \<noteq> []")
    case True
    then have "used_slots ?tb = Suc (used_slots (?tb[i := b']))" using us by simp
    with True u(1) show ?thesis by (simp add: used_after_def)
  next
    case False
    moreover have "b = [] \<Longrightarrow> b' = []" using l by simp
    ultimately have "used_slots ?tb = used_slots (?tb[i := b'])" using us by (auto split: if_splits)
    with False u(1) show ?thesis by (simp add: used_after_def)
  qed
  have c1: "used_after (uiUsedCount t) b b' + confl_after (uiConflict t) b b' = of_nat (length (concat (?tb[i := b'])))"
  proof (cases "length b' < length b")
    case True
    then have "length (concat ?tb) = Suc (length (concat (?tb[i := b'])))" using l c by (simp split: if_splits)
    then have "uiUsedCount t + uiConflict t = of_nat (length (concat (?tb[i := b']))) + 1"
      using u(2) by (simp only: of_nat_Suc add.commute)
    with True show ?thesis by (auto simp: used_after_def confl_after_def algebra_simps)
  next
    case False
    then have "length b = length b'" using l by linarith
    then have "length (concat ?tb) = length (concat (?tb[i := b']))" using c by linarith
    moreover have "b' = [] \<longleftrightarrow> b = []" using \<open>length b = length b'\<close> by auto
    ultimately show ?thesis using u(2) False by (simp only: used_after_def confl_after_def) auto
  qed
  have "ht_inv ?t" using ok m u1 c1 by (simp add: ht_inv_def tab_ok_def)
  moreover have "vals ?t = (vals t)(k := tl (vals t k))"
  proof
    fix x
    have tb: "concat ?tb = concat (take i ?tb) @ b @ concat (drop (Suc i) ?tb)"
      using arg_cong [OF split_at [OF i], of concat] by (simp add: b_def)
    have "vals ?t x = vals_in (concat (take i ?tb)) x @ vals_in b' x @ vals_in (concat (drop (Suc i) ?tb)) x"
      using i by (simp add: vals_def entries_def upd_conv_take_nth_drop)
    moreover have "vals t x = vals_in (concat (take i ?tb)) x @ vals_in b x @ vals_in (concat (drop (Suc i) ?tb)) x"
      unfolding vals_def entries_def tb by simp
    moreover have "vals_in (concat (take i ?tb)) k = []" "vals_in (concat (drop (Suc i) ?tb)) k = []"
      using vb unfolding vals_def entries_def tb by (auto dest: append_middle_eq)
    ultimately show "vals ?t x = ((vals t)(k := tl (vals t k))) x"
      by (auto simp: b'_def bucket_del_vals)
  qed
  ultimately show ?thesis
    using hash_del_result [OF assms i_def b_def] vb by (simp add: b'_def)
qed

section \<open>Interface\<close>

text \<open>A store with a queue of values per key. \<open>ins a k v s\<close> may fail, depending on the resource \<open>a\<close>.\<close>

datatype ('a, 'k, 'v) mm_op = Ins 'a 'k 'v | Del 'k

locale multimap =
  fixes inv :: "'s \<Rightarrow> bool"
    and queue_of :: "'s \<Rightarrow> 'k \<Rightarrow> 'v list"
    and okk :: "'k \<Rightarrow> bool"
    and okv :: "'v \<Rightarrow> bool"
    and ins :: "'a \<Rightarrow> 'k \<Rightarrow> 'v \<Rightarrow> 's \<Rightarrow> bool \<times> 's"
    and del :: "'k \<Rightarrow> 's \<Rightarrow> 's"
    and lookup :: "'s \<Rightarrow> 'k \<Rightarrow> 'v option"
  assumes ins_law: "inv s \<Longrightarrow> okk k \<Longrightarrow> okv v \<Longrightarrow> ins a k v s = (b, s') \<Longrightarrow>
      inv s' \<and> queue_of s' = (if b then (queue_of s)(k := queue_of s k @ [v]) else queue_of s)"
    and del_law: "inv s \<Longrightarrow> inv (del k s) \<and> queue_of (del k s) = (queue_of s)(k := tl (queue_of s k))"
    and lookup_law: "inv s \<Longrightarrow> lookup s k = (case queue_of s k of [] \<Rightarrow> None | v # vs \<Rightarrow> Some v)"
begin

text \<open>A client that inserts only absent keys sees a finite map.\<close>

definition single :: "'s \<Rightarrow> bool" where
  "single s \<longleftrightarrow> inv s \<and> (\<forall>k. length (queue_of s k) \<le> 1)"

lemma single_ins:
  assumes "single s" "lookup s k = None" "okk k" "okv v" "ins a k v s = (b, s')"
  shows "single s' \<and> lookup s' = (if b then (lookup s)(k \<mapsto> v) else lookup s)"
proof -
  have i: "inv s" using assms(1) by (simp add: single_def)
  have e: "queue_of s k = []" using assms(2) lookup_law [OF i] by (simp split: list.splits)
  from ins_law [OF i assms(3-5)] have "inv s'"
    "queue_of s' = (if b then (queue_of s)(k := [v]) else queue_of s)" by (simp_all add: e)
  with assms(1) i show ?thesis by (auto simp: single_def lookup_law fun_eq_iff)
qed

lemma single_del:
  assumes "single s"
  shows "single (del k s) \<and> lookup (del k s) = (lookup s)(k := None)"
proof -
  have i: "inv s" and l: "length (queue_of s x) \<le> 1" for x using assms by (auto simp: single_def)
  have "tl (queue_of s k) = []" using l [of k] by (cases "queue_of s k") auto
  with del_law [OF i, of k] have "inv (del k s)" "queue_of (del k s) = (queue_of s)(k := [])" by simp_all
  with l i show ?thesis by (auto simp: single_def lookup_law fun_eq_iff)
qed

end

definition ht_ins :: "(nat \<Rightarrow> bool) \<Rightarrow> string \<Rightarrow> ptr \<Rightarrow> hash_table \<Rightarrow> bool \<times> hash_table" where
  "ht_ins al k v t = (let (r, t') = hash_inst al t (Some k) v in (r = NoErr, t'))"

definition ht_del :: "string \<Rightarrow> hash_table \<Rightarrow> hash_table" where
  "ht_del k t = fst (snd (hash_del t (Some k)))"

definition ht_lookup :: "hash_table \<Rightarrow> string \<Rightarrow> ptr option" where
  "ht_lookup t k = (let v = hash_find t (Some k) in if v = NULL then None else Some v)"

definition ht_ok :: "hash_table \<Rightarrow> bool" where
  "ht_ok t \<longleftrightarrow> ht_inv t \<and> (\<forall>k. NULL \<notin> set (vals t k))"

definition key_fits :: "string \<Rightarrow> bool" where
  "key_fits k \<longleftrightarrow> length k < HASH_KEY_MAX_LEN"

interpretation ht: multimap ht_ok vals key_fits "\<lambda>v. v \<noteq> NULL" ht_ins ht_del ht_lookup
proof unfold_locales
  fix s k v a b s'
  assume a: "ht_ok s" "key_fits k" "v \<noteq> NULL" "ht_ins a k v s = (b, s')"
  from a have i: "ht_inv s" "length k < HASH_KEY_MAX_LEN" by (simp_all add: ht_ok_def key_fits_def)
  from i a(3) have "ht_inv s' \<and> vals s' = (if b then (vals s)(k := vals s k @ [v]) else vals s)"
    using a(4) by (cases rule: hash_inst_cases [of s k v a]) (simp_all add: ht_ins_def status_defs)
  with a(1,3) show "ht_ok s' \<and> vals s' = (if b then (vals s)(k := vals s k @ [v]) else vals s)"
    by (simp add: ht_ok_def)
next
  fix s k
  assume "ht_ok s"
  moreover then have "NULL \<notin> set (tl (vals s k))"
    by (metis ht_ok_def list.sel(2) list.set_sel(2))
  ultimately show "ht_ok (ht_del k s) \<and> vals (ht_del k s) = (vals s)(k := tl (vals s k))"
    using hash_del_ok [of s k] by (auto simp: ht_ok_def ht_del_def split: if_splits)
next
  fix s k
  assume a: "ht_ok s"
  then have "hash_find s (Some k) = (case vals s k of [] \<Rightarrow> NULL | v # vs \<Rightarrow> v)" "NULL \<notin> set (vals s k)"
    using hash_find_vals by (simp_all add: ht_ok_def)
  then show "ht_lookup s k = (case vals s k of [] \<Rightarrow> None | v # vs \<Rightarrow> Some v)"
    by (cases "vals s k") (simp_all add: ht_lookup_def)
qed

lemma new_hash_table_ok:
  assumes "new_hash_table al n e f = Some t"
  shows "ht_ok t" "vals t = (\<lambda>k. [])" "pFreeValueHandle t = f" "entries t = []"
proof -
  have "0 < (if n > 0 then nat n else hd pauiSizeList)" by (simp add: pauiSizeList_def)
  then show "ht_ok t" "vals t = (\<lambda>k. [])" "pFreeValueHandle t = f" "entries t = []"
    using assms empty_tab_ok
    by (auto simp: new_hash_table_def Let_def ht_ok_def ht_inv_def vals_def entries_def split: if_splits)
qed

text \<open>Allocation failure is the only way an insertion can fail.\<close>

lemma place_success: "(\<forall>i. al i) \<Longrightarrow> \<exists>st'. place al n k v st = Inr st'"
  by (cases st) (simp add: place_def Let_def)

lemma rehash_success: "(\<forall>i. al i) \<Longrightarrow> \<exists>st'. rehash al n es st = Inr st'"
proof (induction es arbitrary: st)
  case (Cons e es)
  obtain st1 where "place al n (acKey e) (pValue e) st = Inr st1" using place_success [OF Cons.prems] by blast
  then show ?case using Cons.IH [OF Cons.prems, of st1] by simp
qed (simp del: split_paired_Ex)

lemma dilatation_success: "(\<forall>i. al i) \<Longrightarrow> \<exists>k t1. dilatation al t = Inr (k, t1)"
  using rehash_success [of al "new_table_size (uiHashTableSize t)" "concat (pstHashTable t)"
      "(1, replicate (new_table_size (uiHashTableSize t)) [], 0, 0)"]
  by (auto simp: dilatation_def Let_def)

lemma hash_inst_success:
  assumes "\<forall>i. al i" "v \<noteq> NULL"
  shows "fst (hash_inst al t (Some k) v) = NoErr"
proof -
  obtain m t1 where d: "dilatation al t = Inr (m, t1)" using dilatation_success [OF assms(1)] by blast
  obtain st where "place al (uiHashTableSize t1) k v (m, pstHashTable t1, uiUsedCount t1, uiConflict t1) = Inr st"
    using place_success [OF assms(1)] by blast
  with d show ?thesis using assms(2) by (cases st) (simp add: hash_inst_def)
qed

section \<open>Properties\<close>

text \<open>Runs of insertions and deletions with the statuses they return, and what they mean.\<close>

fun ht_run :: "hash_table \<Rightarrow> (nat \<Rightarrow> bool, string, ptr) mm_op list \<Rightarrow> hash_table \<times> status list" where
  "ht_run t [] = (t, [])"
| "ht_run t (Ins al k v # ops) =
     (let (r, t1) = hash_inst al t (Some k) v; (t2, rs) = ht_run t1 ops in (t2, r # rs))"
| "ht_run t (Del k # ops) =
     (let (r, t1, fr) = hash_del t (Some k); (t2, rs) = ht_run t1 ops in (t2, r # rs))"

fun queue_spec :: "(string \<Rightarrow> ptr list) \<Rightarrow> (nat \<Rightarrow> bool, string, ptr) mm_op list \<Rightarrow> status list \<Rightarrow> string \<Rightarrow> ptr list" where
  "queue_spec q (Ins al k v # ops) (r # rs) =
     queue_spec (if r = NoErr then q(k := q k @ [v]) else q) ops rs"
| "queue_spec q (Del k # ops) (r # rs) = queue_spec (q(k := tl (q k))) ops rs"
| "queue_spec q ops rs = q"

fun mm_op_ok :: "(nat \<Rightarrow> bool, string, ptr) mm_op \<Rightarrow> bool" where
  "mm_op_ok (Ins al k v) = (key_fits k \<and> v \<noteq> NULL)"
| "mm_op_ok (Del k) = True"

lemma ht_run_refines:
  assumes "ht_ok t" "list_all mm_op_ok ops" "ht_run t ops = (t', rs)"
  shows "ht_ok t' \<and> vals t' = queue_spec (vals t) ops rs"
  using assms
proof (induction ops arbitrary: t t' rs)
  case (Cons op ops)
  show ?case
  proof (cases op)
    case (Ins al k v)
    obtain r t1 where i: "hash_inst al t (Some k) v = (r, t1)" by fastforce
    obtain t2 rs2 where j: "ht_run t1 ops = (t2, rs2)" by fastforce
    have "ht_ins al k v t = (r = NoErr, t1)" using i by (simp add: ht_ins_def)
    from ht.ins_law [OF Cons.prems(1) _ _ this] Cons.prems(2) Ins have t1: "ht_ok t1"
      "vals t1 = (if r = NoErr then (vals t)(k := vals t k @ [v]) else vals t)" by simp_all
    from Cons.IH [OF t1(1) _ j] Cons.prems(2,3) Ins i j t1(2) show ?thesis by auto
  next
    case (Del k)
    obtain r t1 fr where i: "hash_del t (Some k) = (r, t1, fr)" using prod_cases3 by blast
    obtain t2 rs2 where j: "ht_run t1 ops = (t2, rs2)" by fastforce
    have t1: "ht_ok t1" "vals t1 = (vals t)(k := tl (vals t k))"
      using ht.del_law [OF Cons.prems(1), of k] i by (simp_all add: ht_del_def)
    from Cons.prems(3) Del i j have e: "t' = t2" "rs = r # rs2" by auto
    have "queue_spec (vals t) (Del k # ops) (r # rs2) = queue_spec (vals t1) ops rs2"
      unfolding t1(2) by simp
    with Cons.IH [OF t1(1) _ j] Cons.prems(2) Del show ?thesis unfolding e by simp
  qed
qed simp

text \<open>C21. The hash table is a queue of values per key: after any run of insertions and deletions on
  a new table, of any size, with growing enabled or not and whichever allocations failed, lookup
  returns the oldest value inserted successfully under the key and not yet deleted.\<close>

theorem hash_table_lookup_correct:
  assumes "new_hash_table al n e f = Some t0" "list_all mm_op_ok ops" "ht_run t0 ops = (t, rs)"
  shows "hash_find t (Some k) = (case queue_spec (\<lambda>x. []) ops rs k of [] \<Rightarrow> NULL | v # vs \<Rightarrow> v)"
proof -
  note n = new_hash_table_ok [OF assms(1)]
  from ht_run_refines [OF n(1) assms(2,3)] n(2) show ?thesis by (simp add: hash_find_vals ht_ok_def)
qed

theorem hash_table_lookup_correct_witness:
  "\<exists>t0. new_hash_table (\<lambda>i. True) 2 1 True = Some t0 \<and>
    hash_find (fst (ht_run t0 [Ins (\<lambda>i. True) ''a'' 5, Ins (\<lambda>i. True) ''c'' 6, Ins (\<lambda>i. False) ''b'' 8,
      Ins (\<lambda>i. True) ''a'' 7, Del ''a''])) (Some ''a'') = 7"
proof -
  let ?ops = "[Ins (\<lambda>i. True) ''a'' 5, Ins (\<lambda>i. True) ''c'' 6, Ins (\<lambda>i. False) ''b'' 8,
    Ins (\<lambda>i. True) ''a'' 7, Del ''a'']"
  obtain t0 where t0: "new_hash_table (\<lambda>i. True) 2 1 True = Some t0" by (simp add: new_hash_table_def)
  obtain t rs where r: "ht_run t0 ?ops = (t, rs)" by fastforce
  obtain r1 r2 r3 r4 r5 where rs: "rs = [r1, r2, r3, r4, r5]" "r1 = NoErr" "r4 = NoErr"
    using r hash_inst_success [of "\<lambda>i. True"]
    by (auto simp: case_prod_unfold Let_def prod_eq_iff)
  have "list_all mm_op_ok ?ops" by (simp add: key_fits_def HASH_KEY_MAX_LEN_def)
  from hash_table_lookup_correct [OF t0 this r, of "''a''"] rs r t0 show ?thesis by simp
qed

text \<open>Insertion: with memory available it succeeds; otherwise it may return \<open>HeapReqErr\<close>. Either
  way the invariant holds afterwards, growing the table loses, duplicates and reorders nothing, and
  the new value is appended to the queue of its key exactly when the call returned \<open>NoErr\<close>.\<close>

theorem hash_inst_outcome:
  assumes "ht_inv t" "key_fits k" "v \<noteq> NULL"
  shows "\<exists>r t'. hash_inst al t (Some k) v = (r, t') \<and> r \<in> {NoErr, HeapReqErr} \<and> ((\<forall>i. al i) \<longrightarrow> r = NoErr) \<and>
    ht_inv t' \<and> vals t' = (if r = NoErr then (vals t)(k := vals t k @ [v]) else vals t) \<and>
    mset (entries t') = mset (entries t) + (if r = NoErr then {#\<lparr>acKey = k, pValue = v\<rparr>#} else {#})"
proof -
  have f: "(\<forall>i. al i) \<longrightarrow> fst (hash_inst al t (Some k) v) = NoErr" using hash_inst_success assms(3) by blast
  have l: "length k < HASH_KEY_MAX_LEN" using assms(2) by (simp add: key_fits_def)
  from assms(1) l assms(3) show ?thesis
    by (cases rule: hash_inst_cases [of t k v al]) (use f in \<open>auto simp: status_defs\<close>)
qed

theorem hash_inst_outcome_witness:
  "\<exists>t. new_hash_table (\<lambda>i. True) 1 1 True = Some t \<and>
    (\<exists>r t'. hash_inst (\<lambda>i. True) t (Some ''ab'') 9 = (r, t') \<and> r = NoErr \<and> ht_inv t' \<and>
      vals t' = (\<lambda>x. [])(''ab'' := [9]))"
proof -
  obtain t where t: "new_hash_table (\<lambda>i. True) 1 1 True = Some t" by (simp add: new_hash_table_def)
  note n = new_hash_table_ok [OF t]
  from hash_inst_outcome [of t "''ab''" 9 "\<lambda>i. True"] n t show ?thesis
    by (auto simp: ht_ok_def key_fits_def HASH_KEY_MAX_LEN_def)
qed

lemma place_keys:
  assumes "\<forall>b \<in> set tb. \<forall>e \<in> set b. length (acKey e) < HASH_KEY_MAX_LEN"
    "place al n k v (m, tb, u, c) = Inr (m', tb', u', c')" "0 < n" "length tb = n"
  shows "(\<forall>b \<in> set tb'. \<forall>e \<in> set b. length (acKey e) < HASH_KEY_MAX_LEN) \<and> length tb' = n"
proof -
  have h: "hash k n < length tb" using assms hash_less by simp
  then have "\<forall>e \<in> set (tb ! hash k n). length (acKey e) < HASH_KEY_MAX_LEN" using assms(1) nth_mem by blast
  with assms h show ?thesis
    by (auto simp: place_def Let_def HASH_KEY_MAX_LEN_def strncpy_def min_def split: if_splits
        dest!: set_update_subset_insert [THEN subsetD])
qed

text \<open>A key that does not fit the 128-byte key buffer is stored truncated, so the entry that a
  successful insertion just made cannot be found again.\<close>

theorem hash_inst_long_key_lost:
  assumes "ht_inv t" "HASH_KEY_MAX_LEN \<le> length k" "hash_inst al t (Some k) v = (NoErr, t')"
  shows "hash_find t' (Some k) = NULL"
proof -
  have v: "v \<noteq> NULL"
  proof
    assume "v = NULL"
    with assms(3) show False by (simp add: hash_inst_def status_defs)
  qed
  have "dilatation al t \<noteq> Inl HeapReqErr" using assms(3) v by (auto simp: hash_inst_def status_defs)
  then obtain m t1 where d: "dilatation al t = Inr (m, t1)" "ht_inv t1"
    using dilatation_ok [OF assms(1), of al] by blast
  let ?tb = "pstHashTable t1" and ?n = "uiHashTableSize t1"
  have n: "0 < ?n" "length ?tb = ?n" and keys: "\<forall>b \<in> set ?tb. \<forall>e \<in> set b. length (acKey e) < HASH_KEY_MAX_LEN"
    using d(2) unfolding ht_inv_def tab_ok_def by (blast, blast, metis in_set_conv_nth)
  obtain m' tb' u' c' where p: "place al ?n k v (m, ?tb, uiUsedCount t1, uiConflict t1) = Inr (m', tb', u', c')"
    using assms(3) v d(1) by (auto simp: hash_inst_def place_def Let_def status_defs split: if_splits)
  from place_keys [OF keys p n] have q: "\<forall>b \<in> set tb'. \<forall>e \<in> set b. length (acKey e) < HASH_KEY_MAX_LEN"
    "length tb' = ?n" by auto
  have t': "pstHashTable t' = tb'" "uiHashTableSize t' = ?n"
    using assms(3) v d(1) p by (auto simp: hash_inst_def)
  have "tb' ! hash k ?n \<in> set tb'" using q(2) n hash_less by simp
  then have "\<forall>e \<in> set (tb' ! hash k ?n). acKey e \<noteq> k" using q(1) assms(2) by fastforce
  then have "List.find (\<lambda>e. strcmp (acKey e) k = 0) (tb' ! hash k ?n) = None"
    by (simp add: find_None_iff)
  then show ?thesis by (simp add: hash_find_def t')
qed

theorem hash_inst_long_key_lost_witness:
  "\<exists>t t'. new_hash_table (\<lambda>i. True) 3 0 True = Some t \<and>
    hash_inst (\<lambda>i. True) t (Some (replicate 128 CHR ''x'')) 9 = (NoErr, t') \<and>
    hash_find t' (Some (replicate 128 CHR ''x'')) = NULL"
proof -
  obtain t where t: "new_hash_table (\<lambda>i. True) 3 0 True = Some t" by (simp add: new_hash_table_def)
  note n = new_hash_table_ok [OF t]
  obtain r t' where i: "hash_inst (\<lambda>i. True) t (Some (replicate 128 CHR ''x'')) 9 = (r, t')" by fastforce
  with hash_inst_success [of "\<lambda>i. True" 9 t "replicate 128 CHR ''x''"] have "r = NoErr" by simp
  with i t hash_inst_long_key_lost [of t "replicate 128 CHR ''x''" "\<lambda>i. True" 9 t'] n(1)
  show ?thesis by (auto simp: ht_ok_def HASH_KEY_MAX_LEN_def)
qed

text \<open>Destroying a table hands every stored value exactly once to the free callback.\<close>

theorem destroy_hash_table_frees:
  assumes "ht_inv t" "pFreeValueHandle t" "length (entries t) < 2 ^ 32"
  shows "fst (destroy_hash_table (Some t)) = NoErr \<and>
    mset (snd (destroy_hash_table (Some t))) = image_mset pValue (mset (entries t))"
proof -
  have b: "mset (clear_bucket t b) = image_mset pValue (mset b)" for b
  proof (cases b)
    case (Cons p chain)
    have "concat (map (\<lambda>e. free_call t (pValue e)) es) = map pValue es" for es
      using assms(2) by (induction es) (simp_all add: free_call_def)
    with Cons assms(2) show ?thesis by (simp add: clear_bucket_def free_call_def)
  qed (simp add: clear_bucket_def)
  have c: "mset (concat (map (clear_bucket t) bs)) = image_mset pValue (mset (concat bs))" for bs
    by (induction bs) (simp_all add: b)
  have s: "uiUsedCount t + uiConflict t = of_nat (length (entries t))"
    using assms(1) unfolding ht_inv_def tab_ok_def entries_def by blast
  have "hash_size t = 0 \<longleftrightarrow> entries t = []"
  proof -
    have "hash_size t = 0 \<longleftrightarrow> (of_nat (length (entries t)) :: u32) = 0" 
      unfolding hash_size_def s by (metis signed_word_eqI signed_0)
    also have "\<dots> \<longleftrightarrow> length (entries t) = 0"
      using assms(3) nat_dvd_not_less [of "length (entries t)" "2 ^ 32"]
      by (auto simp: word_of_nat_eq_0_iff)
    finally show ?thesis by simp
  qed
  with c [of "pstHashTable t"] show ?thesis
    by (auto simp: destroy_hash_table_def hash_clear_def entries_def simp del: mset_concat)
qed

theorem destroy_hash_table_frees_witness:
  "mset (snd (destroy_hash_table (Some \<lparr>uiHashTableSize = 1, ucDilatationEnable = 0, pFreeValueHandle = True,
     uiUsedCount = 1, uiConflict = 1,
     pstHashTable = [[\<lparr>acKey = ''a'', pValue = 5\<rparr>, \<lparr>acKey = ''b'', pValue = 6\<rparr>]]\<rparr>))) = {#5, 6#}"
proof -
  let ?t = "\<lparr>uiHashTableSize = 1, ucDilatationEnable = 0, pFreeValueHandle = True, uiUsedCount = 1,
    uiConflict = 1, pstHashTable = [[\<lparr>acKey = ''a'', pValue = 5\<rparr>, \<lparr>acKey = ''b'', pValue = 6\<rparr>]]\<rparr>"
  have "ht_inv ?t" by (simp add: ht_inv_def tab_ok_def hash_def HASH_KEY_MAX_LEN_def used_slots_def)
  from destroy_hash_table_frees [OF this] show ?thesis by (simp add: entries_def)
qed

end
