(* ===== verification/Ptr_Hash.thy ===== *)
theory Ptr_Hash
  imports Hash_Table
begin

text \<open>
  The index of \<open>hylink/src/local_scene/ptr_hash.c\<close>: a subclass of the hash table whose values are
  lists of pointer records, used to find the conditions and actions that depend on a device
  attribute. The value stored under a key is the address of a head node; \<open>chain_of\<close> maps the address
  of each allocated head node to the list of nodes that hang off it. The callers pass freshly
  zeroed nodes, so a node that is inserted has no successor of its own. A dereference of a head
  address that is not allocated has no defined result.

  The proofs use the table only through the interface \<open>multimap\<close>.
\<close>

section \<open>State and operations\<close>

definition INDEX_MAX_LEN :: nat where "INDEX_MAX_LEN = 64"

record ptr_info =
  acId :: string
  pstScene :: ptr
  pstCondList :: ptr
  pCondSetNode :: ptr
  pCondNode :: ptr
  pScenePanelNode :: ptr

record ptr_hash_table =
  stHash :: hash_table
  chain_of :: "ptr \<rightharpoonup> ptr_info list"

text \<open>The free callback: the head node and its whole chain go; a \<open>NULL\<close> argument is ignored.\<close>

definition free_hash_value :: "(ptr \<rightharpoonup> ptr_info list) \<Rightarrow> ptr \<Rightarrow> (ptr \<rightharpoonup> ptr_info list) option" where
  "free_hash_value cs v = (if v = NULL then Some cs
     else if cs v = None then None else Some (cs(v := None)))"

fun free_hash_values :: "(ptr \<rightharpoonup> ptr_info list) \<Rightarrow> ptr list \<Rightarrow> (ptr \<rightharpoonup> ptr_info list) option" where
  "free_hash_values cs [] = Some cs"
| "free_hash_values cs (v # vs) = do { cs1 \<leftarrow> free_hash_value cs v; free_hash_values cs1 vs }"

text \<open>\<open>al\<close> decides the allocations inside the hash table, \<open>head\<close> is the address that \<open>calloc\<close> returns
  for a new head node. The status of the inner insertion is not looked at.\<close>

definition ptr_hash_inst :: "(nat \<Rightarrow> bool) \<Rightarrow> ptr \<Rightarrow> ptr_hash_table \<Rightarrow> string option \<Rightarrow> ptr_info option \<Rightarrow>
    (status \<times> ptr_hash_table) option" where
  "ptr_hash_inst al head t key val = (case (key, val) of
     (Some pcKey, Some node) \<Rightarrow>
       (let hashValueList = hash_find (stHash t) (Some pcKey) in
        if hashValueList = NULL then
          (if head = NULL then Some (HeapReqErr, t)
           else Some (NoErr, t\<lparr>stHash := snd (hash_inst al (stHash t) (Some pcKey) head),
                               chain_of := (chain_of t)(head \<mapsto> [node])\<rparr>))
        else do {
          ns \<leftarrow> chain_of t hashValueList;
          Some (NoErr, t\<lparr>chain_of := (chain_of t)(hashValueList \<mapsto> node # ns)\<rparr>)
        })
   | _ \<Rightarrow> Some (ParaErr, t))"

definition ptr_hash_del_all :: "ptr_hash_table \<Rightarrow> string option \<Rightarrow> (status \<times> ptr_hash_table) option" where
  "ptr_hash_del_all t key = (case key of
     None \<Rightarrow> Some (ParaErr, t)
   | Some pcKey \<Rightarrow> do {
       let (r, h, freed) = hash_del (stHash t) (Some pcKey);
       cs \<leftarrow> free_hash_values (chain_of t) freed;
       Some (r, \<lparr>stHash = h, chain_of = cs\<rparr>)
     })"

fun del_by_id :: "string \<Rightarrow> ptr_info list \<Rightarrow> ptr_info list" where
  "del_by_id paId [] = []"
| "del_by_id paId (n # ns) = (if strncmp (acId n) paId INDEX_MAX_LEN = 0 then ns else n # del_by_id paId ns)"

definition ptr_hash_del :: "ptr_hash_table \<Rightarrow> string option \<Rightarrow> string option \<Rightarrow> (status \<times> ptr_hash_table) option" where
  "ptr_hash_del t key ident = (case (key, ident) of
     (Some pcKey, Some paId) \<Rightarrow>
       (let hashValueList = hash_find (stHash t) (Some pcKey) in
        if hashValueList = NULL then Some (NoErr, t)
        else do {
          ns \<leftarrow> chain_of t hashValueList;
          let ns1 = del_by_id paId ns;
          let t1 = t\<lparr>chain_of := (chain_of t)(hashValueList \<mapsto> ns1)\<rparr>;
          if (\<exists>n \<in> set ns. strncmp (acId n) paId INDEX_MAX_LEN = 0) \<and> ns1 = [] then do {
            let (r, h, freed) = hash_del (stHash t1) (Some pcKey);
            cs \<leftarrow> free_hash_values (chain_of t1) freed;
            Some (NoErr, \<lparr>stHash = h, chain_of = cs\<rparr>)
          } else Some (NoErr, t1)
        })
   | _ \<Rightarrow> Some (ParaErr, t))"

definition ptr_hash_find_all :: "ptr_hash_table \<Rightarrow> string option \<Rightarrow> ptr" where
  "ptr_hash_find_all t key = (case key of None \<Rightarrow> NULL | Some pcKey \<Rightarrow> hash_find (stHash t) (Some pcKey))"

text \<open>The node found, or \<open>None\<close> for a \<open>NULL\<close> result.\<close>

definition ptr_hash_find :: "ptr_hash_table \<Rightarrow> string option \<Rightarrow> string option \<Rightarrow> ptr_info option option" where
  "ptr_hash_find t key ident = (case (key, ident) of
     (Some pcKey, Some paId) \<Rightarrow>
       (let hashValueList = hash_find (stHash t) (Some pcKey) in
        if hashValueList = NULL then Some None
        else do {
          ns \<leftarrow> chain_of t hashValueList;
          Some (List.find (\<lambda>n. strncmp (acId n) paId INDEX_MAX_LEN = 0) ns)
        })
   | _ \<Rightarrow> Some None)"

definition new_ptr_hash_table :: "bool \<Rightarrow> (nat \<Rightarrow> bool) \<Rightarrow> ptr_hash_table option" where
  "new_ptr_hash_table ok al = (if \<not> ok then None
     else do { h \<leftarrow> new_hash_table al 0 1 True; Some \<lparr>stHash = h, chain_of = Map.empty\<rparr> })"

definition destroy_ptr_hash_table :: "ptr_hash_table option \<Rightarrow> (status \<times> (ptr \<rightharpoonup> ptr_info list)) option" where
  "destroy_ptr_hash_table t = (case t of
     None \<Rightarrow> Some (ParaErr, Map.empty)
   | Some p \<Rightarrow> do {
       let (r, freed) = destroy_hash_table (Some (stHash p));
       cs \<leftarrow> free_hash_values (chain_of p) freed;
       Some (r, cs)
     })"

section \<open>Invariant and abstraction\<close>

text \<open>One head node per key, every head node allocated with a non-empty chain, and no other
  allocated chain.\<close>

definition ph_inv :: "ptr_hash_table \<Rightarrow> bool" where
  "ph_inv t \<longleftrightarrow> ht.single (stHash t) \<and> pFreeValueHandle (stHash t) \<and>
     inj_on (ht_lookup (stHash t)) (dom (ht_lookup (stHash t))) \<and>
     dom (chain_of t) = ran (ht_lookup (stHash t)) \<and> (\<forall>h ns. chain_of t h = Some ns \<longrightarrow> ns \<noteq> [] \<and> h \<noteq> NULL)"

definition nodes :: "ptr_hash_table \<Rightarrow> string \<Rightarrow> ptr_info list" where
  "nodes t k = (case ht_lookup (stHash t) k of None \<Rightarrow> [] | Some h \<Rightarrow> the (chain_of t h))"

lemma find_lookup: "hash_find h (Some k) = (case ht_lookup h k of None \<Rightarrow> NULL | Some v \<Rightarrow> v)"
  by (simp add: ht_lookup_def Let_def)

lemma lookup_not_NULL: "ht_lookup h k = Some v \<Longrightarrow> v \<noteq> NULL"
  by (auto simp: ht_lookup_def Let_def split: if_splits)

lemma single_ok: "ht.single h \<Longrightarrow> ht_ok h"
  by (simp add: ht.single_def)

lemma lookup_vals: "ht.single h \<Longrightarrow> (case vals h k of [] \<Rightarrow> NULL | v # vs \<Rightarrow> v) = hash_find h (Some k)"
  by (simp add: hash_find_vals ht.single_def ht_ok_def)

lemma single_hash_del:
  assumes "ht.single h" "pFreeValueHandle h"
  obtains h' where "hash_del h (Some k) = (NoErr, h', [hash_find h (Some k)])" "ht.single h'"
    "ht_lookup h' = (ht_lookup h)(k := None)" "pFreeValueHandle h'"
proof -
  have i: "ht_inv h" using single_ok [OF assms(1)] by (simp add: ht_ok_def)
  from hash_del_ok [OF i, of k] assms obtain h' where
    h: "hash_del h (Some k) = (NoErr, h', [hash_find h (Some k)])" "pFreeValueHandle h'"
    using lookup_vals [OF assms(1), of k] by (auto simp: free_call_def)
  then have "h' = ht_del k h" by (simp add: ht_del_def)
  with ht.single_del [OF assms(1), of k] h show thesis by (intro that [of h']) auto
qed

lemma ph_chain:
  assumes "ph_inv t" "ht_lookup (stHash t) k = Some h"
  shows "chain_of t h = Some (nodes t k)" "nodes t k \<noteq> []" "h \<noteq> NULL" "hash_find (stHash t) (Some k) = h"
proof -
  have "h \<in> dom (chain_of t)" using assms by (auto simp: ph_inv_def ran_def)
  then show c: "chain_of t h = Some (nodes t k)" using assms(2) by (auto simp: nodes_def)
  then show "nodes t k \<noteq> []" "h \<noteq> NULL" using assms(1) by (auto simp: ph_inv_def)
  show "hash_find (stHash t) (Some k) = h" using assms(2) by (simp add: find_lookup)
qed

lemma ph_none:
  assumes "ht_lookup (stHash t) k = None"
  shows "nodes t k = []" "hash_find (stHash t) (Some k) = NULL"
  using assms by (simp_all add: nodes_def find_lookup)

lemma nodes_other:
  assumes "ph_inv t" "ht_lookup (stHash t) k = Some h" "x \<noteq> k" "ht_lookup (stHash t) x = Some h'"
  shows "h' \<noteq> h"
  using assms unfolding ph_inv_def inj_on_def by (metis domI)

text \<open>Replacing the chain of a present key.\<close>

lemma chain_update:
  assumes "ph_inv t" "ht_lookup (stHash t) k = Some h" "ns \<noteq> []"
  shows "ph_inv (t\<lparr>chain_of := (chain_of t)(h \<mapsto> ns)\<rparr>) \<and>
    nodes (t\<lparr>chain_of := (chain_of t)(h \<mapsto> ns)\<rparr>) = (nodes t)(k := ns)"
proof -
  have "h \<in> dom (chain_of t)" "h \<noteq> NULL" using ph_chain [OF assms(1,2)] by auto
  then have "ph_inv (t\<lparr>chain_of := (chain_of t)(h \<mapsto> ns)\<rparr>)"
    using assms(1,3) by (auto simp: ph_inv_def insert_absorb split: if_splits)
  moreover have "nodes (t\<lparr>chain_of := (chain_of t)(h \<mapsto> ns)\<rparr>) x = ((nodes t)(k := ns)) x" for x
    using assms(2) nodes_other [OF assms(1,2), of x] by (auto simp: nodes_def split: option.splits)
  ultimately show ?thesis by auto
qed

text \<open>Dropping a present key with its chain.\<close>

lemma chain_drop:
  assumes "ph_inv t" "ht_lookup (stHash t) k = Some h" "chain_of t1 = (chain_of t)(h \<mapsto> ns)" "stHash t1 = stHash t"
  obtains h' cs where "hash_del (stHash t1) (Some k) = (NoErr, h', [h])"
    "free_hash_values (chain_of t1) [h] = Some cs" "ph_inv \<lparr>stHash = h', chain_of = cs\<rparr>"
    "nodes \<lparr>stHash = h', chain_of = cs\<rparr> = (nodes t)(k := [])"
proof -
  let ?L = "ht_lookup (stHash t)"
  note c = ph_chain [OF assms(1,2)]
  have s: "ht.single (stHash t)" "pFreeValueHandle (stHash t)" using assms(1) by (simp_all add: ph_inv_def)
  from single_hash_del [OF s, of k] c(4) obtain h' where
    h': "hash_del (stHash t) (Some k) = (NoErr, h', [h])" "ht.single h'" "ht_lookup h' = ?L(k := None)"
      "pFreeValueHandle h'" by auto
  let ?cs = "(chain_of t)(h := None)" and ?t = "\<lparr>stHash = h', chain_of = (chain_of t)(h := None)\<rparr>"
  have f: "free_hash_values (chain_of t1) [h] = Some ?cs"
    using assms(3) c(3) by (auto simp: free_hash_value_def)
  have inj: "inj_on ?L (dom ?L)" using assms(1) by (simp add: ph_inv_def)
  have "ran (?L(k := None)) = ran ?L - {h}"
  proof (intro set_eqI iffI)
    fix x assume "x \<in> ran ?L - {h}"
    then obtain a where a: "?L a = Some x" "x \<noteq> h" by (auto simp: ran_def)
    then have "a \<noteq> k" using assms(2) by auto
    with a show "x \<in> ran (?L(k := None))" by (auto simp: ran_def)
  next
    fix x assume "x \<in> ran (?L(k := None))"
    then obtain a where "a \<noteq> k" "?L a = Some x" by (auto simp: ran_def split: if_splits)
    with nodes_other [OF assms(1,2)] show "x \<in> ran ?L - {h}" by (auto simp: ran_def)
  qed
  moreover have "inj_on (?L(k := None)) (dom (?L(k := None)))"
    using inj by (auto simp: inj_on_def dom_def)
  ultimately have i: "ph_inv ?t" using assms(1) h' by (auto simp: ph_inv_def split: if_splits)
  have "nodes ?t x = ((nodes t)(k := [])) x" for x
    using nodes_other [OF assms(1,2), of x] h'(3) by (auto simp: nodes_def split: option.splits)
  then have n: "nodes ?t = (nodes t)(k := [])" by auto
  show thesis using that [of h' ?cs] h'(1) f i n assms(4) by simp
qed

lemma ptr_hash_inst_refines:
  assumes "ph_inv t" "key_fits k" "head \<noteq> NULL" "chain_of t head = None" "\<forall>i. al i"
  shows "\<exists>t'. ptr_hash_inst al head t (Some k) (Some n) = Some (NoErr, t') \<and> ph_inv t' \<and>
    nodes t' = (nodes t)(k := n # nodes t k)"
proof (cases "ht_lookup (stHash t) k")
  case (Some h)
  note c = ph_chain [OF assms(1) Some]
  show ?thesis using c chain_update [OF assms(1) Some, of "n # nodes t k"]
    by (simp add: ptr_hash_inst_def)
next
  case None
  let ?L = "ht_lookup (stHash t)"
  have s: "ht.single (stHash t)" using assms(1) by (simp add: ph_inv_def)
  obtain r h' where h: "hash_inst al (stHash t) (Some k) head = (r, h')" by fastforce
  have "r = NoErr" using hash_inst_success [OF assms(5,3), of "stHash t" k] h by simp
  then have "ht_ins al k head (stHash t) = (True, h')" using h by (simp add: ht_ins_def)
  from ht.single_ins [OF s None assms(2) _ this] assms(3)
  have h': "ht.single h'" "ht_lookup h' = ?L(k \<mapsto> head)" by auto
  have fr: "pFreeValueHandle h' = pFreeValueHandle (stHash t)"
  proof -
    have "ht_inv (stHash t)" "length k < HASH_KEY_MAX_LEN"
      using single_ok [OF s] assms(2) by (simp_all add: ht_ok_def key_fits_def)
    then show ?thesis using assms(3) h by (cases rule: hash_inst_cases [of "stHash t" k head al]) auto
  qed
  let ?t = "t\<lparr>stHash := h', chain_of := (chain_of t)(head \<mapsto> [n])\<rparr>"
  have new: "head \<notin> ran ?L" using assms(1,4) by (auto simp: ph_inv_def)
  have "ran (?L(k \<mapsto> head)) = insert head (ran ?L)" using None by (simp add: ran_map_upd)
  moreover have "inj_on (?L(k \<mapsto> head)) (dom (?L(k \<mapsto> head)))"
    using assms(1) None new by (auto simp: ph_inv_def inj_on_def ran_def)
  ultimately have i: "ph_inv ?t" using assms(1,3) h' fr by (auto simp: ph_inv_def split: if_splits)
  have "nodes ?t x = ((nodes t)(k := n # nodes t k)) x" for x
    using h'(2) new ph_none(1) [OF None] by (auto simp: nodes_def ran_def split: option.splits)
  then have "nodes ?t = (nodes t)(k := n # nodes t k)" by auto
  with i h assms(3) ph_none(2) [OF None] show ?thesis by (simp add: ptr_hash_inst_def)
qed

lemma del_by_id_absent: "\<not> (\<exists>n \<in> set ns. strncmp (acId n) paId INDEX_MAX_LEN = 0) \<Longrightarrow> del_by_id paId ns = ns"
  by (induction ns) auto

lemma ptr_hash_del_refines:
  assumes "ph_inv t"
  shows "\<exists>t'. ptr_hash_del t (Some k) (Some paId) = Some (NoErr, t') \<and> ph_inv t' \<and>
    nodes t' = (nodes t)(k := del_by_id paId (nodes t k))"
proof (cases "ht_lookup (stHash t) k")
  case None
  then show ?thesis using assms ph_none [OF None] by (auto simp: ptr_hash_del_def)
next
  case (Some h)
  note c = ph_chain [OF assms Some]
  let ?ns = "del_by_id paId (nodes t k)" and ?hit = "\<exists>n \<in> set (nodes t k). strncmp (acId n) paId INDEX_MAX_LEN = 0"
  let ?t1 = "t\<lparr>chain_of := (chain_of t)(h \<mapsto> ?ns)\<rparr>"
  show ?thesis
  proof (cases "?ns = []")
    case True
    then have hit: ?hit using del_by_id_absent [of "nodes t k" paId] c(2) by metis
    obtain h' cs where d: "hash_del (stHash ?t1) (Some k) = (NoErr, h', [h])"
      "free_hash_values (chain_of ?t1) [h] = Some cs" "ph_inv \<lparr>stHash = h', chain_of = cs\<rparr>"
      "nodes \<lparr>stHash = h', chain_of = cs\<rparr> = (nodes t)(k := [])"
      using chain_drop [OF assms Some, of ?t1 ?ns] by auto
    have "ptr_hash_del t (Some k) (Some paId) = Some (NoErr, \<lparr>stHash = h', chain_of = cs\<rparr>)"
      using c hit True d(1,2) by (simp add: ptr_hash_del_def Let_def del: free_hash_values.simps)
    with d(3,4) True show ?thesis by simp
  next
    case False
    then show ?thesis using c chain_update [OF assms Some False] by (simp add: ptr_hash_del_def Let_def)
  qed
qed

lemma ptr_hash_del_all_refines:
  assumes "ph_inv t"
  shows "\<exists>t'. ptr_hash_del_all t (Some k) = Some (NoErr, t') \<and> ph_inv t' \<and> nodes t' = (nodes t)(k := [])"
proof (cases "ht_lookup (stHash t) k")
  case None
  have s: "ht.single (stHash t)" "pFreeValueHandle (stHash t)" using assms by (simp_all add: ph_inv_def)
  from single_hash_del [OF s, of k] ph_none(2) [OF None] obtain h' where
    h': "hash_del (stHash t) (Some k) = (NoErr, h', [NULL])" "ht.single h'"
      "ht_lookup h' = (ht_lookup (stHash t))(k := None)" "pFreeValueHandle h'" by auto
  have l: "ht_lookup h' = ht_lookup (stHash t)" using h'(3) None by auto
  let ?t = "\<lparr>stHash = h', chain_of = chain_of t\<rparr>"
  have "ph_inv ?t" using assms h' l by (simp add: ph_inv_def)
  moreover have "nodes ?t = (nodes t)(k := [])" using l None by (intro ext) (simp add: nodes_def split: option.splits)
  ultimately show ?thesis using h'(1) by (simp add: ptr_hash_del_all_def free_hash_value_def)
next
  case (Some h)
  have "t = t\<lparr>chain_of := (chain_of t)(h \<mapsto> nodes t k)\<rparr>"
    using ph_chain(1) [OF assms Some] by (simp add: map_upd_triv)
  then have "chain_of t = (chain_of t)(h \<mapsto> nodes t k)" by (metis ptr_hash_table.select_convs(2) ptr_hash_table.surjective ptr_hash_table.update_convs(2))
  from chain_drop [OF assms Some this refl] obtain h' cs where
    "hash_del (stHash t) (Some k) = (NoErr, h', [h])" "free_hash_values (chain_of t) [h] = Some cs"
    "ph_inv \<lparr>stHash = h', chain_of = cs\<rparr>" "nodes \<lparr>stHash = h', chain_of = cs\<rparr> = (nodes t)(k := [])" by blast
  then show ?thesis by (simp add: ptr_hash_del_all_def del: free_hash_values.simps)
qed

lemma ptr_hash_find_refines:
  assumes "ph_inv t"
  shows "ptr_hash_find t (Some k) (Some paId) =
    Some (List.find (\<lambda>n. strncmp (acId n) paId INDEX_MAX_LEN = 0) (nodes t k))"
proof (cases "ht_lookup (stHash t) k")
  case None
  then show ?thesis using ph_none [OF None] by (simp add: ptr_hash_find_def)
next
  case (Some h)
  then show ?thesis using ph_chain [OF assms Some] by (simp add: ptr_hash_find_def)
qed

section \<open>Runs\<close>

datatype ph_op = PInst ptr string ptr_info | PDel string string | PDelAll string

text \<open>\<open>al\<close> always succeeds here and head nodes get fresh addresses.\<close>

fun ph_step :: "ptr_hash_table \<Rightarrow> ph_op \<Rightarrow> (status \<times> ptr_hash_table) option" where
  "ph_step t (PInst head k n) = ptr_hash_inst (\<lambda>i. True) head t (Some k) (Some n)"
| "ph_step t (PDel k i) = ptr_hash_del t (Some k) (Some i)"
| "ph_step t (PDelAll k) = ptr_hash_del_all t (Some k)"

fun ph_spec :: "(string \<Rightarrow> ptr_info list) \<Rightarrow> ph_op \<Rightarrow> string \<Rightarrow> ptr_info list" where
  "ph_spec m (PInst head k n) = m(k := n # m k)"
| "ph_spec m (PDel k i) = m(k := del_by_id i (m k))"
| "ph_spec m (PDelAll k) = m(k := [])"

fun ph_op_ok :: "ptr_hash_table \<Rightarrow> ph_op \<Rightarrow> bool" where
  "ph_op_ok t (PInst head k n) = (key_fits k \<and> head \<noteq> NULL \<and> chain_of t head = None)"
| "ph_op_ok t a = True"

text \<open>A run stops with \<open>None\<close> when an operation is not defined or its arguments are not acceptable.\<close>

fun ph_run :: "ptr_hash_table \<Rightarrow> ph_op list \<Rightarrow> ptr_hash_table option" where
  "ph_run t [] = Some t"
| "ph_run t (a # as) = do { (r, t1) \<leftarrow> ph_step t a; ph_run t1 as }"

fun ph_ops_ok :: "ptr_hash_table \<Rightarrow> ph_op list \<Rightarrow> bool" where
  "ph_ops_ok t [] = True"
| "ph_ops_ok t (a # as) = (ph_op_ok t a \<and> (case ph_step t a of None \<Rightarrow> True | Some (r, t1) \<Rightarrow> ph_ops_ok t1 as))"

lemma ph_step_refines:
  assumes "ph_inv t" "ph_op_ok t a"
  shows "\<exists>t'. ph_step t a = Some (NoErr, t') \<and> ph_inv t' \<and> nodes t' = ph_spec (nodes t) a"
  using assms ptr_hash_inst_refines ptr_hash_del_refines ptr_hash_del_all_refines by (cases a) simp_all

lemma ph_run_refines:
  assumes "ph_inv t" "ph_ops_ok t as"
  shows "\<exists>t'. ph_run t as = Some t' \<and> ph_inv t' \<and> nodes t' = foldl ph_spec (nodes t) as"
  using assms
proof (induction as arbitrary: t)
  case (Cons a as)
  from ph_step_refines [OF Cons.prems(1), of a] Cons.prems(2) obtain t1 where
    t1: "ph_step t a = Some (NoErr, t1)" "ph_inv t1" "nodes t1 = ph_spec (nodes t) a" by auto
  with Cons.IH [OF t1(2)] Cons.prems(2) show ?case by simp
qed auto

lemma new_ptr_hash_inv:
  assumes "new_ptr_hash_table ok al = Some t"
  shows "ph_inv t" "nodes t = (\<lambda>k. [])" "chain_of t = Map.empty"
proof -
  from assms obtain h where h: "new_hash_table al 0 1 True = Some h" "t = \<lparr>stHash = h, chain_of = Map.empty\<rparr>"
    by (auto simp: new_ptr_hash_table_def split: if_splits Option.bind_splits)
  note n = new_hash_table_ok [OF h(1)]
  have l: "ht_lookup h k = None" for k using n ht.lookup_law [OF n(1), of k] by simp
  then have "ht_lookup h = Map.empty" by auto
  with n h(2) show "ph_inv t" "nodes t = (\<lambda>k. [])" "chain_of t = Map.empty"
    by (auto simp: ph_inv_def ht.single_def nodes_def)
qed

section \<open>Properties\<close>

text \<open>C20. The pointer index is a map from keys to stacks of records: every run of insertions,
  deletions by identifier and deletions of a whole key on a new index is defined, searching a key
  for an identifier yields its newest record with that identifier, and a key is present in the
  underlying hash table exactly while it has records.\<close>

theorem ptr_hash_refines_map:
  assumes "new_ptr_hash_table ok al = Some t0" "ph_ops_ok t0 as"
  shows "\<exists>t. ph_run t0 as = Some t \<and>
    (\<forall>k i. ptr_hash_find t (Some k) (Some i) =
       Some (List.find (\<lambda>n. strncmp (acId n) i INDEX_MAX_LEN = 0) (foldl ph_spec (\<lambda>x. []) as k))) \<and>
    (\<forall>k. ptr_hash_find_all t (Some k) = NULL \<longleftrightarrow> foldl ph_spec (\<lambda>x. []) as k = [])"
proof -
  note n = new_ptr_hash_inv [OF assms(1)]
  from ph_run_refines [OF n(1) assms(2)] n(2) obtain t where
    t: "ph_run t0 as = Some t" "ph_inv t" "nodes t = foldl ph_spec (\<lambda>x. []) as" by auto
  have "ptr_hash_find_all t (Some k) = NULL \<longleftrightarrow> nodes t k = []" for k
    using ph_none [of t k] ph_chain [OF t(2), of k]
    by (cases "ht_lookup (stHash t) k") (simp_all add: ptr_hash_find_all_def)
  with t ptr_hash_find_refines [OF t(2)] show ?thesis by auto
qed

definition info_example :: "string \<Rightarrow> ptr_info" where
  "info_example i = \<lparr>acId = i, pstScene = 0, pstCondList = 0, pCondSetNode = 0, pCondNode = 0, pScenePanelNode = 0\<rparr>"

theorem ptr_hash_refines_map_witness:
  "\<exists>t0 t. new_ptr_hash_table True (\<lambda>i. True) = Some t0 \<and>
    ph_run t0 [PInst 4 ''dev'' (info_example ''s1''), PDel ''dev'' ''s2''] = Some t \<and>
    ptr_hash_find t (Some ''dev'') (Some ''s1'') = Some (Some (info_example ''s1'')) \<and>
    ptr_hash_find_all t (Some ''dev'') \<noteq> NULL \<and> ptr_hash_find_all t (Some ''x'') = NULL"
proof -
  let ?as = "[PInst 4 ''dev'' (info_example ''s1''), PDel ''dev'' ''s2'']"
  obtain t0 where t0: "new_ptr_hash_table True (\<lambda>i. True) = Some t0"
    by (simp add: new_ptr_hash_table_def new_hash_table_def Let_def)
  have "ph_ops_ok t0 ?as" using new_ptr_hash_inv [OF t0]
    by (auto simp: key_fits_def HASH_KEY_MAX_LEN_def split: option.splits)
  from ptr_hash_refines_map [OF t0 this] obtain t where t: "ph_run t0 ?as = Some t"
    "\<forall>k i. ptr_hash_find t (Some k) (Some i) =
       Some (List.find (\<lambda>n. strncmp (acId n) i INDEX_MAX_LEN = 0) (foldl ph_spec (\<lambda>x. []) ?as k))"
    "\<forall>k. ptr_hash_find_all t (Some k) = NULL \<longleftrightarrow> foldl ph_spec (\<lambda>x. []) ?as k = []" by blast
  have "foldl ph_spec (\<lambda>x. []) ?as ''dev'' = [info_example ''s1'']" "foldl ph_spec (\<lambda>x. []) ?as ''x'' = []"
    by (simp_all add: info_example_def INDEX_MAX_LEN_def)
  with t have "ptr_hash_find t (Some ''dev'') (Some ''s1'') = Some (Some (info_example ''s1''))"
    "ptr_hash_find_all t (Some ''dev'') \<noteq> NULL" "ptr_hash_find_all t (Some ''x'') = NULL"
    by (simp_all add: info_example_def INDEX_MAX_LEN_def)
  with t0 t(1) show ?thesis by blast
qed

text \<open>The status of the inner insertion is ignored: when the hash table cannot allocate, the
  operation still returns \<open>NoErr\<close>, although the record cannot be found and its chain stays allocated.\<close>

theorem ptr_hash_inst_silent_failure:
  assumes "ph_inv t" "key_fits k" "head \<noteq> NULL" "hash_find (stHash t) (Some k) = NULL"
    "fst (hash_inst al (stHash t) (Some k) head) \<noteq> NoErr"
  shows "\<exists>t'. ptr_hash_inst al head t (Some k) (Some n) = Some (NoErr, t') \<and>
    ptr_hash_find_all t' (Some k) = NULL \<and> chain_of t' head = Some [n]"
proof -
  have s: "ht.single (stHash t)" using assms(1) by (simp add: ph_inv_def)
  obtain r h' where h: "hash_inst al (stHash t) (Some k) head = (r, h')" by fastforce
  with assms(5) have i: "ht_ins al k head (stHash t) = (False, h')" by (simp add: ht_ins_def)
  have "ht_lookup (stHash t) k = None" using assms(4) by (simp add: ht_lookup_def)
  from ht.single_ins [OF s this assms(2) _ i] this assms(3) have "ht_lookup h' k = None" by simp
  then have "hash_find h' (Some k) = NULL" by (simp add: find_lookup)
  with assms(3,4) h show ?thesis by (simp add: ptr_hash_inst_def ptr_hash_find_all_def)
qed

theorem ptr_hash_inst_silent_failure_witness:
  "\<exists>t t'. ptr_hash_inst (\<lambda>i. False) 9 t (Some ''b'') (Some (info_example ''s'')) = Some (NoErr, t') \<and>
    ptr_hash_find_all t' (Some ''b'') = NULL \<and> chain_of t' 9 = Some [info_example ''s'']"
proof -
  let ?h = "\<lparr>uiHashTableSize = 1, ucDilatationEnable = 1, pFreeValueHandle = True, uiUsedCount = 1,
    uiConflict = 0, pstHashTable = [[\<lparr>acKey = ''a'', pValue = 5\<rparr>]]\<rparr>"
  let ?t = "\<lparr>stHash = ?h, chain_of = [5 \<mapsto> [info_example ''r'']]\<rparr>"
  have i: "ht_ok ?h" by (simp add: ht_ok_def ht_inv_def tab_ok_def hash_def HASH_KEY_MAX_LEN_def
      used_slots_def vals_def entries_def)
  have v: "vals ?h = (\<lambda>k. if k = ''a'' then [5] else [])" by (auto simp: vals_def entries_def fun_eq_iff)
  have l: "ht_lookup ?h = [''a'' \<mapsto> 5]" using ht.lookup_law [OF i] v by (auto simp: fun_eq_iff)
  have "ph_inv ?t" unfolding ph_inv_def using i v l by (auto simp: ht.single_def)
  moreover have "hash_find ?h (Some ''b'') = NULL" using l by (simp add: find_lookup)
  moreover have "fst (hash_inst (\<lambda>i. False) ?h (Some ''b'') 9) \<noteq> NoErr"
    by (simp add: hash_inst_def dilatation_def needs_dilatation_def place_def hash_def status_defs)
  ultimately show ?thesis using ptr_hash_inst_silent_failure [of ?t "''b''" 9 "\<lambda>i. False" "info_example ''s''"]
    by (auto simp: key_fits_def HASH_KEY_MAX_LEN_def)
qed

end
