(* ===== verification/Scene_Timer.thy ===== *)
theory Scene_Timer
  imports Honyar_Prelude
begin

text \<open>
  The software timers of \<open>hylink/src/local_scene/scene_timer.c\<close>: a global array of timers that a
  one-second signal advances (\<open>scene_task_timer_run\<close>). The array holds as many elements as
  \<open>scene_task_timer_init\<close> was asked for, while the loops run over \<open>g_iTimerNum\<close>, the requested
  number clamped to 1..32; an access outside the array has no defined result. A tick returns the
  tasks it hands to the thread pool, each with the slot it came from, and the argument blocks it
  frees. The thread pool and the signal delivery are outside the model.
\<close>

section \<open>State and operations\<close>

definition TIMER_NUM_MIN :: int where "TIMER_NUM_MIN = 1"
definition TIMER_NUM_MAX :: int where "TIMER_NUM_MAX = 32"

record scene_task_timer =
  pfTimerExecFun :: ptr
  pFunArg :: ptr
  iArgLen :: int
  iFunExecTime :: int
  ulTime :: nat
  ulRunTime :: nat
  ucUsedFlag :: u8

record timer_state =
  g_pstTimerList :: "scene_task_timer list option"
  g_iTimerNum :: int

definition zero_timer :: scene_task_timer where
  "zero_timer = \<lparr>pfTimerExecFun = NULL, pFunArg = NULL, iArgLen = 0, iFunExecTime = 0, ulTime = 0,
     ulRunTime = 0, ucUsedFlag = 0\<rparr>"

text \<open>\<open>ok\<close>: the array was allocated; \<open>iRet\<close>: the result of \<open>thread_pool_init\<close>.\<close>

definition scene_task_timer_init :: "bool \<Rightarrow> int \<Rightarrow> int \<Rightarrow> (status \<times> timer_state) option" where
  "scene_task_timer_init ok iRet iTimerNum =
     (let g = (if iTimerNum < TIMER_NUM_MIN then TIMER_NUM_MIN
               else if iTimerNum > TIMER_NUM_MAX then TIMER_NUM_MAX else iTimerNum) in
      if \<not> ok then Some (-1, \<lparr>g_pstTimerList = None, g_iTimerNum = g\<rparr>)
      else if iTimerNum < 0 then None
      else let s = \<lparr>g_pstTimerList = Some (replicate (nat iTimerNum) zero_timer), g_iTimerNum = g\<rparr> in
        if iRet < 0 then Some (-1, s) else Some (0, s))"

definition scene_task_timer_destroy :: "timer_state \<Rightarrow> status \<times> timer_state" where
  "scene_task_timer_destroy s = (0, s\<lparr>g_pstTimerList := None\<rparr>)"

definition timer_at :: "timer_state \<Rightarrow> int \<Rightarrow> scene_task_timer option" where
  "timer_at s i = (case g_pstTimerList s of
     None \<Rightarrow> None
   | Some ts \<Rightarrow> if 0 \<le> i \<and> i < int (length ts) then Some (ts ! nat i) else None)"

definition timer_put :: "timer_state \<Rightarrow> int \<Rightarrow> scene_task_timer \<Rightarrow> timer_state option" where
  "timer_put s i t = (case g_pstTimerList s of
     None \<Rightarrow> None
   | Some ts \<Rightarrow> if 0 \<le> i \<and> i < int (length ts)
       then Some (s\<lparr>g_pstTimerList := Some (ts[nat i := t])\<rparr>) else None)"

text \<open>The search for an unused slot: \<open>i\<close> after the loop.\<close>

function find_unused :: "timer_state \<Rightarrow> int \<Rightarrow> int option" where
  "find_unused s i =
     (if i < g_iTimerNum s then do {
        t \<leftarrow> timer_at s i;
        if ucUsedFlag t = 0 then Some i else find_unused s (i + 1)
      } else Some i)"
  by pat_completeness auto
termination
  by (relation "measure (\<lambda>(s, i). nat (g_iTimerNum s - i))") auto

declare find_unused.simps [simp del]

text \<open>\<open>p\<close> is the address of the copy of the argument, \<open>NULL\<close> when \<open>calloc\<close> fails.\<close>

definition scene_task_timer_create :: "ptr \<Rightarrow> timer_state \<Rightarrow> ptr \<Rightarrow> ptr \<Rightarrow> int \<Rightarrow> nat \<Rightarrow> int \<Rightarrow> (int \<times> timer_state) option" where
  "scene_task_timer_create p s f arg argLen time execTime =
     (if time = 0 then Some (-1, s)
      else if execTime = 0 \<or> execTime < -1 then Some (-1, s)
      else do {
        i \<leftarrow> find_unused s 0;
        if i > g_iTimerNum s then Some (-1, s)
        else do {
          t \<leftarrow> timer_at s i;
          let t1 = zero_timer\<lparr>pfTimerExecFun := f\<rparr>;
          if arg \<noteq> NULL \<and> p = NULL then do { s1 \<leftarrow> timer_put s i t1; Some (-1, s1) }
          else do {
            let t2 = (if arg \<noteq> NULL then t1\<lparr>pFunArg := p, iArgLen := argLen\<rparr>
                      else t1\<lparr>pFunArg := NULL, iArgLen := 0\<rparr>);
            let t3 = t2\<lparr>ulTime := time, iFunExecTime := execTime, ulRunTime := time,
                        ucUsedFlag := ucUsedFlag t2 + 1\<rparr>;
            s1 \<leftarrow> timer_put s i t3;
            Some (i, s1)
          }
        }
      })"

definition scene_task_timer_change :: "timer_state \<Rightarrow> int \<Rightarrow> ptr \<Rightarrow> ptr \<Rightarrow> nat \<Rightarrow> int \<Rightarrow> (status \<times> timer_state) option" where
  "scene_task_timer_change s iTimerId f arg time execTime = do {
     t \<leftarrow> timer_at s iTimerId;
     if ucUsedFlag t = 0 then Some (-1, s)
     else do {
       let t1 = (if f \<noteq> NULL then t\<lparr>pfTimerExecFun := f\<rparr> else t);
       let t2 = (if arg \<noteq> NULL then t1\<lparr>pFunArg := arg\<rparr> else t1);
       let t3 = (if time \<noteq> 0 then t2\<lparr>ulTime := time, ulRunTime := time\<rparr> else t2);
       let t4 = (if execTime \<noteq> 0 then t3\<lparr>iFunExecTime := execTime\<rparr> else t3);
       s1 \<leftarrow> timer_put s iTimerId t4;
       Some (0, s1)
     }
   }"

text \<open>Deletion returns the argument blocks it frees as third component.\<close>

definition scene_task_timer_dele :: "timer_state \<Rightarrow> int \<Rightarrow> (status \<times> timer_state \<times> ptr list) option" where
  "scene_task_timer_dele s iTimerId =
     (if iTimerId \<ge> g_iTimerNum s then Some (-1, s, [])
      else do {
        t \<leftarrow> timer_at s iTimerId;
        let fr = (if pFunArg t \<noteq> NULL then [pFunArg t] else []);
        s1 \<leftarrow> timer_put s iTimerId (t\<lparr>pFunArg := NULL, ucUsedFlag := 0\<rparr>);
        Some (0, s1, fr)
      })"

definition scene_task_timer_reset :: "timer_state \<Rightarrow> int \<Rightarrow> ptr \<Rightarrow> ptr \<Rightarrow> nat \<Rightarrow> int \<Rightarrow> (status \<times> timer_state) option" where
  "scene_task_timer_reset s iTimerId f arg time execTime =
     (if iTimerId \<ge> g_iTimerNum s then Some (-1, s)
      else if execTime = 0 \<or> execTime < -1 then Some (-1, s)
      else do {
        t \<leftarrow> timer_at s iTimerId;
        if ucUsedFlag t = 0 then Some (-1, s)
        else do {
          s1 \<leftarrow> timer_put s iTimerId (zero_timer\<lparr>ucUsedFlag := ucUsedFlag zero_timer + 1, pfTimerExecFun := f,
             pFunArg := arg, ulTime := time, iFunExecTime := execTime, ulRunTime := time\<rparr>);
          Some (0, s1)
        }
      })"

text \<open>One pass of the loop body of \<open>scene_task_timer_run\<close>: the timer, the task handed to the pool and
  the freed argument.\<close>

type_synonym job = "ptr \<times> ptr \<times> int"

definition timer_tick :: "scene_task_timer \<Rightarrow> scene_task_timer \<times> job list \<times> ptr list" where
  "timer_tick t =
     (if ucUsedFlag t \<noteq> 0 then
        (if ulRunTime t \<le> 1 then
           let j = (pfTimerExecFun t, pFunArg t, iArgLen t);
               t1 = (if iFunExecTime t \<noteq> -1 then t\<lparr>iFunExecTime := iFunExecTime t - 1\<rparr> else t) in
           (if iFunExecTime t1 \<noteq> 0 then (t1\<lparr>ulRunTime := ulTime t1\<rparr>, [j], [])
            else (t1\<lparr>ucUsedFlag := 0, pFunArg := NULL\<rparr>, [j], if pFunArg t1 \<noteq> NULL then [pFunArg t1] else []))
         else (t\<lparr>ulRunTime := ulRunTime t - 1\<rparr>, [], []))
      else (t, [], []))"

text \<open>The loop over the slots; \<open>n\<close> is \<open>g_iTimerNum\<close>, which the loop body does not change.\<close>

function run_loop :: "int \<Rightarrow> timer_state \<Rightarrow> int \<Rightarrow> (timer_state \<times> (int \<times> job) list \<times> ptr list) option" where
  "run_loop n s i =
     (if i < n then do {
        t \<leftarrow> timer_at s i;
        let (t1, js, fr) = timer_tick t;
        s1 \<leftarrow> timer_put s i t1;
        (s2, js2, fr2) \<leftarrow> run_loop n s1 (i + 1);
        Some (s2, map (Pair i) js @ js2, fr @ fr2)
      } else Some (s, [], []))"
  by pat_completeness auto
termination
  by (relation "measure (\<lambda>(n, s, i). nat (n - i))") auto

declare run_loop.simps [simp del]

definition scene_task_timer_run :: "timer_state \<Rightarrow> (timer_state \<times> (int \<times> job) list \<times> ptr list) option" where
  "scene_task_timer_run s = run_loop (g_iTimerNum s) s 0"

section \<open>Slots\<close>

text \<open>The array covers the slots the loops visit, as after \<open>init\<close> with a positive number.\<close>

definition timers :: "timer_state \<Rightarrow> scene_task_timer list" where
  "timers s = (case g_pstTimerList s of None \<Rightarrow> [] | Some ts \<Rightarrow> ts)"

definition ts_inv :: "timer_state \<Rightarrow> bool" where
  "ts_inv s \<longleftrightarrow> g_pstTimerList s \<noteq> None \<and> 1 \<le> g_iTimerNum s \<and> g_iTimerNum s \<le> int (length (timers s))"

lemma timer_at_eq: "timer_at s i = (if 0 \<le> i \<and> i < int (length (timers s)) then Some (timers s ! nat i) else None)"
  by (auto simp: timer_at_def timers_def split: option.splits)

lemma timer_put_eq:
  "timer_put s i t = (if 0 \<le> i \<and> i < int (length (timers s))
     then Some (s\<lparr>g_pstTimerList := Some ((timers s)[nat i := t])\<rparr>) else None)"
  by (auto simp: timer_put_def timers_def split: option.splits)

lemma timers_update [simp]: "timers (s\<lparr>g_pstTimerList := Some ts\<rparr>) = ts"
  by (simp add: timers_def)

lemma run_loop_result:
  assumes "0 \<le> i" "n \<le> int (length (timers s))"
  shows "\<exists>s' js fr. run_loop n s i = Some (s', js, fr) \<and> g_iTimerNum s' = g_iTimerNum s \<and>
    length (timers s') = length (timers s) \<and> (g_pstTimerList s \<noteq> None \<longrightarrow> g_pstTimerList s' \<noteq> None) \<and>
    (\<forall>k < length (timers s). timers s' ! k =
       (if i \<le> int k \<and> int k < n then fst (timer_tick (timers s ! k)) else timers s ! k)) \<and>
    (\<forall>k j. (k, j) \<in> set js \<longleftrightarrow> i \<le> k \<and> k < n \<and> j \<in> set (fst (snd (timer_tick (timers s ! nat k)))))"
  using assms
proof (induction n s i rule: run_loop.induct)
  case (1 n s i)
  show ?case
  proof (cases "i < n")
    case False
    then show ?thesis by (subst run_loop.simps) auto
  next
    case True
    obtain t1 js fr where t: "timer_tick (timers s ! nat i) = (t1, js, fr)" using prod_cases3 by blast
    have at: "timer_at s i = Some (timers s ! nat i)" using True 1(2,3) by (simp add: timer_at_eq)
    let ?s = "s\<lparr>g_pstTimerList := Some ((timers s)[nat i := t1])\<rparr>"
    have put: "timer_put s i t1 = Some ?s" using True 1(2,3) by (simp add: timer_put_eq)
    from 1(1) [OF True, of "timers s ! nat i" "(t1, js, fr)" t1 "(js, fr)" js fr ?s] 1(2,3) t at put
    obtain s' js' fr' where r: "run_loop n ?s (i + 1) = Some (s', js', fr')" "g_iTimerNum s' = g_iTimerNum s"
      "length (timers s') = length (timers s)" "g_pstTimerList s' \<noteq> None"
      "\<forall>k < length (timers s). timers s' ! k = (if i + 1 \<le> int k \<and> int k < n
         then fst (timer_tick ((timers s)[nat i := t1] ! k)) else (timers s)[nat i := t1] ! k)"
      "\<forall>k j. (k, j) \<in> set js' \<longleftrightarrow> i + 1 \<le> k \<and> k < n \<and> j \<in> set (fst (snd (timer_tick ((timers s)[nat i := t1] ! nat k))))"
      by auto
    have "run_loop n s i = Some (s', map (Pair i) js @ js', fr @ fr')"
      using True at put r(1) t by (subst run_loop.simps) simp
    moreover have "\<forall>k < length (timers s). timers s' ! k =
       (if i \<le> int k \<and> int k < n then fst (timer_tick (timers s ! k)) else timers s ! k)"
    proof (intro allI impI)
      fix k assume k: "k < length (timers s)"
      show "timers s' ! k = (if i \<le> int k \<and> int k < n then fst (timer_tick (timers s ! k)) else timers s ! k)"
      proof (cases "int k = i")
        case True
        then have "nat i = k" by simp
        with r(5) k True \<open>i < n\<close> t show ?thesis by auto
      next
        case False
        then have "nat i \<noteq> k" using 1(2) by simp
        with r(5) k False show ?thesis by auto
      qed
    qed
    moreover have "\<forall>k j. (k, j) \<in> set (map (Pair i) js @ js') \<longleftrightarrow>
        i \<le> k \<and> k < n \<and> j \<in> set (fst (snd (timer_tick (timers s ! nat k))))"
    proof (intro allI)
      fix k j
      show "(k, j) \<in> set (map (Pair i) js @ js') \<longleftrightarrow>
        i \<le> k \<and> k < n \<and> j \<in> set (fst (snd (timer_tick (timers s ! nat k))))"
      proof (cases "k = i")
        case True
        with spec [OF spec [OF r(6)], of i j] t \<open>i < n\<close> show ?thesis by auto
      next
        case False
        then have "i + 1 \<le> k \<Longrightarrow> nat i \<noteq> nat k" using 1(2) by simp
        with spec [OF spec [OF r(6)], of k j] False show ?thesis by auto
      qed
    qed
    ultimately show ?thesis using r(2-4) by auto
  qed
qed

lemma run_result:
  assumes "ts_inv s"
  obtains s' js fr where "scene_task_timer_run s = Some (s', js, fr)" "ts_inv s'"
    "g_iTimerNum s' = g_iTimerNum s"
    "\<forall>k < nat (g_iTimerNum s). timers s' ! k = fst (timer_tick (timers s ! k))"
    "\<forall>k j. (int k, j) \<in> set js \<longleftrightarrow> k < nat (g_iTimerNum s) \<and> j \<in> set (fst (snd (timer_tick (timers s ! k))))"
proof -
  from run_loop_result [of 0 "g_iTimerNum s" s] assms obtain s' js fr where
    r: "run_loop (g_iTimerNum s) s 0 = Some (s', js, fr)" "g_iTimerNum s' = g_iTimerNum s"
    "length (timers s') = length (timers s)" "g_pstTimerList s' \<noteq> None"
    "\<forall>k < length (timers s). timers s' ! k =
       (if 0 \<le> int k \<and> int k < g_iTimerNum s then fst (timer_tick (timers s ! k)) else timers s ! k)"
    "\<forall>k j. (k, j) \<in> set js \<longleftrightarrow> 0 \<le> k \<and> k < g_iTimerNum s \<and> j \<in> set (fst (snd (timer_tick (timers s ! nat k))))"
    by (auto simp: ts_inv_def)
  show thesis
  proof (rule that [of s' js fr])
    show "scene_task_timer_run s = Some (s', js, fr)" using r(1) by (simp add: scene_task_timer_run_def)
    show "ts_inv s'" "g_iTimerNum s' = g_iTimerNum s" using r(2-4) assms by (simp_all add: ts_inv_def)
    show "\<forall>k < nat (g_iTimerNum s). timers s' ! k = fst (timer_tick (timers s ! k))"
      using r(5) assms by (auto simp: ts_inv_def)
    show "\<forall>k j. (int k, j) \<in> set js \<longleftrightarrow> k < nat (g_iTimerNum s) \<and> j \<in> set (fst (snd (timer_tick (timers s ! k))))"
      using r(6) by auto
  qed
qed

section \<open>The life of one timer\<close>

definition tick1 :: "scene_task_timer \<Rightarrow> scene_task_timer" where
  "tick1 t = fst (timer_tick t)"

definition fires :: "scene_task_timer \<Rightarrow> bool" where
  "fires t \<longleftrightarrow> ucUsedFlag t \<noteq> 0 \<and> ulRunTime t \<le> 1"

lemma fires_iff: "fst (snd (timer_tick t)) = (if fires t then [(pfTimerExecFun t, pFunArg t, iArgLen t)] else [])"
  by (simp add: timer_tick_def fires_def Let_def)

text \<open>State of a timer \<open>k\<close> ticks after it was armed with period \<open>p\<close> and \<open>n\<close> executions.\<close>

definition armed :: "scene_task_timer \<Rightarrow> nat \<Rightarrow> int \<Rightarrow> scene_task_timer" where
  "armed t p n = t\<lparr>ulTime := p, iFunExecTime := n, ulRunTime := p, ucUsedFlag := 1\<rparr>"

lemma tick1_countdown:
  assumes "ucUsedFlag t \<noteq> 0" "j < ulRunTime t"
  shows "(tick1 ^^ j) t = t\<lparr>ulRunTime := ulRunTime t - j\<rparr>"
  using assms(2)
proof (induction j)
  case (Suc j)
  then show ?case using assms(1) by (simp add: tick1_def timer_tick_def)
qed simp

lemma tick1_fire:
  assumes "ucUsedFlag t \<noteq> 0" "ulRunTime t \<le> 1" "iFunExecTime t \<noteq> 0"
  shows "tick1 t = (if iFunExecTime t = -1 then t\<lparr>ulRunTime := ulTime t\<rparr>
    else if iFunExecTime t = 1 then t\<lparr>iFunExecTime := 0, ucUsedFlag := 0, pFunArg := NULL\<rparr>
    else t\<lparr>iFunExecTime := iFunExecTime t - 1, ulRunTime := ulTime t\<rparr>)"
  using assms by (auto simp: tick1_def timer_tick_def Let_def)

lemma period:
  assumes "0 < p" "n \<noteq> 0"
  shows "(tick1 ^^ p) (armed t p n) = (if n = -1 then armed t p n
    else if n = 1 then (armed t p 0)\<lparr>ulRunTime := 1, ucUsedFlag := 0, pFunArg := NULL\<rparr> else armed t p (n - 1))"
proof -
  have "(tick1 ^^ (p - 1)) (armed t p n) = (armed t p n)\<lparr>ulRunTime := 1\<rparr>"
    using assms tick1_countdown [of "armed t p n" "p - 1"] by (simp add: armed_def)
  moreover have "(tick1 ^^ p) (armed t p n) = tick1 ((tick1 ^^ (p - 1)) (armed t p n))"
    using assms(1) by (metis Suc_pred' comp_apply funpow.simps(2))
  ultimately show ?thesis using assms by (simp add: tick1_fire armed_def)
qed

lemma periods:
  assumes "0 < p" "int m < n \<or> n = -1"
  shows "(tick1 ^^ (m * p)) (armed t p n) = armed t p (if n = -1 then -1 else n - int m)"
  using assms(2)
proof (induction m)
  case (Suc m)
  have "(tick1 ^^ (Suc m * p)) (armed t p n) = (tick1 ^^ p) ((tick1 ^^ (m * p)) (armed t p n))"
    by (simp add: funpow_add)
  also have "\<dots> = (tick1 ^^ p) (armed t p (if n = -1 then -1 else n - int m))"
    using Suc by auto
  also have "\<dots> = armed t p (if n = -1 then -1 else n - int (Suc m))"
    using Suc.prems assms(1) by (subst period) (auto simp: diff_diff_eq add.commute)
  finally show ?case .
qed auto

lemma tick1_dead: "ucUsedFlag t = 0 \<Longrightarrow> (tick1 ^^ j) t = t"
  by (induction j) (simp_all add: tick1_def timer_tick_def)

lemma after_last:
  assumes "0 < p" "0 < n" "n * int p \<le> int k"
  shows "ucUsedFlag ((tick1 ^^ k) (armed t p n)) = 0"
proof -
  obtain m where m: "n = int (Suc m)" using assms(2) by (metis zero_less_imp_eq_int gr0_implies_Suc)
  have "k = (k - Suc m * p) + Suc m * p" using assms(3) m by (simp add: algebra_simps flip: of_nat_Suc of_nat_mult)
  then have "(tick1 ^^ k) (armed t p n) = (tick1 ^^ (k - Suc m * p)) ((tick1 ^^ (Suc m * p)) (armed t p n))"
    by (metis comp_apply funpow_add)
  also have "(tick1 ^^ (Suc m * p)) (armed t p n) = (tick1 ^^ p) ((tick1 ^^ (m * p)) (armed t p n))"
    by (simp add: funpow_add)
  also have "\<dots> = (armed t p 0)\<lparr>ulRunTime := 1, ucUsedFlag := 0, pFunArg := NULL\<rparr>"
    using assms(1) m periods [OF assms(1), of m n t] by (simp add: period)
  finally show ?thesis by (simp add: tick1_dead)
qed

lemma before_last:
  assumes "0 < p" "int k < n * int p \<or> n = -1"
  shows "(tick1 ^^ k) (armed t p n) =
    (armed t p (if n = -1 then -1 else n - int (k div p)))\<lparr>ulRunTime := p - k mod p\<rparr>"
proof -
  let ?a = "armed t p (if n = -1 then -1 else n - int (k div p))"
  have "int (k div p) < n \<or> n = -1"
  proof (cases "n = -1")
    case False
    then have "int k < n * int p" using assms(2) by simp
    moreover have "int (k div p) * int p \<le> int k" by (metis div_times_less_eq_dividend of_nat_le_iff of_nat_mult)
    ultimately have "int (k div p) * int p < n * int p" by linarith
    then show ?thesis by (simp add: mult_less_cancel_right)
  qed simp
  then have "(tick1 ^^ (k div p * p)) (armed t p n) = ?a" using periods [OF assms(1)] by blast
  moreover have "(tick1 ^^ k) (armed t p n) = (tick1 ^^ (k mod p)) ((tick1 ^^ (k div p * p)) (armed t p n))"
    by (metis comp_apply funpow_add mod_div_mult_eq)
  ultimately have "(tick1 ^^ k) (armed t p n) = (tick1 ^^ (k mod p)) ?a" by simp
  also have "\<dots> = ?a\<lparr>ulRunTime := ulRunTime ?a - k mod p\<rparr>"
    using assms(1) by (intro tick1_countdown) (simp_all add: armed_def)
  finally show ?thesis by (simp add: armed_def)
qed

lemma fire_times:
  assumes "0 < p" "0 < n \<or> n = -1"
  shows "fires ((tick1 ^^ k) (armed t p n)) \<longleftrightarrow> p dvd Suc k \<and> (n = -1 \<or> int (Suc k) \<le> n * int p)"
proof (cases "int k < n * int p \<or> n = -1")
  case True
  have "p - k mod p \<le> 1 \<longleftrightarrow> p dvd Suc k"
  proof -
    have "k mod p < p" using assms(1) by simp
    then have "p - k mod p \<le> 1 \<longleftrightarrow> Suc (k mod p) = p" by linarith
    also have "\<dots> \<longleftrightarrow> Suc k mod p = 0" using assms(1) by (simp add: mod_Suc)
    finally show ?thesis by (simp add: dvd_eq_mod_eq_0)
  qed
  then show ?thesis using True before_last [OF assms(1) True, of t] by (auto simp: fires_def armed_def)
next
  case False
  then have "ucUsedFlag ((tick1 ^^ k) (armed t p n)) = 0" using assms by (intro after_last) auto
  with False show ?thesis by (simp add: fires_def)
qed

text \<open>Successive ticks of the whole array; the result lists the tasks of each tick.\<close>

fun run_ticks :: "nat \<Rightarrow> timer_state \<Rightarrow> (timer_state \<times> (int \<times> job) list list) option" where
  "run_ticks 0 s = Some (s, [])"
| "run_ticks (Suc m) s = do {
     (s1, js, fr) \<leftarrow> scene_task_timer_run s;
     (s2, jss) \<leftarrow> run_ticks m s1;
     Some (s2, js # jss)
   }"

definition fires_at :: "(int \<times> job) list list \<Rightarrow> nat \<Rightarrow> nat \<Rightarrow> bool" where
  "fires_at jss k i \<longleftrightarrow> (\<exists>j \<in> set (jss ! k). fst j = int i)"

lemma run_ticks_result:
  assumes "ts_inv s" "i < nat (g_iTimerNum s)"
  shows "\<exists>s' jss. run_ticks m s = Some (s', jss) \<and> ts_inv s' \<and> g_iTimerNum s' = g_iTimerNum s \<and> length jss = m \<and>
    timers s' ! i = (tick1 ^^ m) (timers s ! i) \<and>
    (\<forall>k < m. fires_at jss k i \<longleftrightarrow> fires ((tick1 ^^ k) (timers s ! i)))"
  using assms
proof (induction m arbitrary: s)
  case (Suc m)
  obtain s1 js fr where r: "scene_task_timer_run s = Some (s1, js, fr)" "ts_inv s1" "g_iTimerNum s1 = g_iTimerNum s"
    "\<forall>k < nat (g_iTimerNum s). timers s1 ! k = fst (timer_tick (timers s ! k))"
    "\<forall>k j. (int k, j) \<in> set js \<longleftrightarrow> k < nat (g_iTimerNum s) \<and> j \<in> set (fst (snd (timer_tick (timers s ! k))))"
    by (rule run_result [OF Suc.prems(1)])
  have t: "timers s1 ! i = tick1 (timers s ! i)" using r(4) Suc.prems(2) by (simp add: tick1_def)
  from Suc.IH [OF r(2)] r(3) Suc.prems(2) obtain s2 jss where
    s2: "run_ticks m s1 = Some (s2, jss)" "ts_inv s2" "g_iTimerNum s2 = g_iTimerNum s" "length jss = m"
    "timers s2 ! i = (tick1 ^^ m) (timers s1 ! i)"
    "\<forall>k < m. fires_at jss k i \<longleftrightarrow> fires ((tick1 ^^ k) (timers s1 ! i))" by auto
  have f: "(\<exists>j \<in> set js. fst j = int i) \<longleftrightarrow> fires (timers s ! i)"
  proof -
    have "(\<exists>j \<in> set js. fst j = int i) \<longleftrightarrow> (\<exists>j. (int i, j) \<in> set js)" by (metis fst_conv prod.collapse)
    also have "\<dots> \<longleftrightarrow> (\<exists>j. j \<in> set (fst (snd (timer_tick (timers s ! i)))))" using r(5) Suc.prems(2) by metis
    finally show ?thesis by (simp add: fires_iff)
  qed
  have "fires_at (js # jss) k i \<longleftrightarrow> fires ((tick1 ^^ k) (timers s ! i))" if "k < Suc m" for k
  proof (cases k)
    case 0
    with f show ?thesis by (simp add: fires_at_def)
  next
    case (Suc l)
    then have "fires_at (js # jss) k i \<longleftrightarrow> fires_at jss l i" by (simp add: fires_at_def)
    with Suc that s2(6) t show ?thesis by (simp add: funpow_swap1)
  qed
  with s2 r(1) t show ?case by (simp add: funpow_swap1)
qed simp

lemma find_unused_first:
  assumes "0 \<le> i" "i \<le> int j" "int j < g_iTimerNum s" "g_iTimerNum s \<le> int (length (timers s))"
    "ucUsedFlag (timers s ! j) = 0" "\<forall>k < j. ucUsedFlag (timers s ! k) \<noteq> 0"
  shows "find_unused s i = Some (int j)"
  using assms
proof (induction s i rule: find_unused.induct)
  case (1 s i)
  have at: "timer_at s i = Some (timers s ! nat i)" using 1(2-5) by (simp add: timer_at_eq)
  show ?case
  proof (cases "i = int j")
    case True
    then show ?thesis using at 1(4,6) by (subst find_unused.simps) simp
  next
    case False
    then have "nat i < j" "i < g_iTimerNum s" using 1(2-4) by linarith+
    with 1(7) have "ucUsedFlag (timers s ! nat i) \<noteq> 0" by blast
    moreover have "find_unused s (i + 1) = Some (int j)"
      using 1(1) [OF \<open>i < g_iTimerNum s\<close> at calculation] 1(2-7) False by simp
    ultimately show ?thesis using at \<open>i < g_iTimerNum s\<close> by (subst find_unused.simps) simp
  qed
qed

lemma find_unused_full:
  assumes "0 \<le> i" "i \<le> g_iTimerNum s" "g_iTimerNum s \<le> int (length (timers s))"
    "\<forall>k < nat (g_iTimerNum s). ucUsedFlag (timers s ! k) \<noteq> 0"
  shows "find_unused s i = Some (g_iTimerNum s)"
  using assms
proof (induction s i rule: find_unused.induct)
  case (1 s i)
  show ?case
  proof (cases "i < g_iTimerNum s")
    case True
    then have at: "timer_at s i = Some (timers s ! nat i)" using 1(2-4) by (simp add: timer_at_eq)
    have u: "ucUsedFlag (timers s ! nat i) \<noteq> 0" using 1(2,5) True by simp
    then have "find_unused s (i + 1) = Some (g_iTimerNum s)" using 1(1) [OF True at u] 1(2-5) True by simp
    with at u True show ?thesis by (subst find_unused.simps) simp
  qed (use 1 in \<open>simp add: find_unused.simps\<close>)
qed

section \<open>Properties\<close>

text \<open>C24. Timer schedule: a timer created in a table with a free slot with period \<open>p\<close> and count \<open>n\<close> gets
  the first free slot, and over the following ticks its task runs exactly at the ticks \<open>p\<close>, \<open>2p\<close>, ...,
  \<open>n p\<close> (forever for count \<open>-1\<close>), whatever the other timers do; after the last one the slot is free
  again.\<close>

theorem scene_task_timer_schedule:
  assumes "ts_inv s" "0 < p" "0 < n \<or> n = -1" "int i < g_iTimerNum s" "ucUsedFlag (timers s ! i) = 0"
    "\<forall>k < i. ucUsedFlag (timers s ! k) \<noteq> 0" "arg \<noteq> NULL \<longrightarrow> q \<noteq> NULL"
  shows "\<exists>s1 s2 jss. scene_task_timer_create q s f arg len p n = Some (int i, s1) \<and>
    run_ticks m s1 = Some (s2, jss) \<and>
    (\<forall>k < m. fires_at jss k i \<longleftrightarrow> p dvd Suc k \<and> (n = -1 \<or> int (Suc k) \<le> n * int p)) \<and>
    (ucUsedFlag (timers s2 ! i) = 0 \<longleftrightarrow> n \<noteq> -1 \<and> n * int p \<le> int m)"
proof -
  have inv: "g_iTimerNum s \<le> int (length (timers s))" "i < length (timers s)"
    using assms(1,4) by (auto simp: ts_inv_def)
  have fu: "find_unused s 0 = Some (int i)"
    using assms(4-6) inv by (intro find_unused_first) simp_all
  define t where "t = (if arg \<noteq> NULL then zero_timer\<lparr>pfTimerExecFun := f, pFunArg := q, iArgLen := len\<rparr>
    else zero_timer\<lparr>pfTimerExecFun := f, pFunArg := NULL, iArgLen := 0\<rparr>)"
  define s1 where "s1 = s\<lparr>g_pstTimerList := Some ((timers s)[i := armed t p n])\<rparr>"
  have "\<not> (arg \<noteq> NULL \<and> q = NULL)" using assms(7) by blast
  then have c: "scene_task_timer_create q s f arg len p n = Some (int i, s1)"
    using assms(2-4) fu inv
    by (auto simp: scene_task_timer_create_def timer_at_eq timer_put_eq t_def s1_def armed_def zero_timer_def)
  have "ts_inv s1" "i < nat (g_iTimerNum s1)" "timers s1 ! i = armed t p n"
    using assms(1,4) inv by (auto simp: ts_inv_def s1_def)
  from run_ticks_result [OF this(1,2), of m] this(3) obtain s2 jss where
    r: "run_ticks m s1 = Some (s2, jss)" "timers s2 ! i = (tick1 ^^ m) (armed t p n)"
    "\<forall>k < m. fires_at jss k i \<longleftrightarrow> fires ((tick1 ^^ k) (armed t p n))" by auto
  have "ucUsedFlag ((tick1 ^^ m) (armed t p n)) = 0 \<longleftrightarrow> n \<noteq> -1 \<and> n * int p \<le> int m"
  proof (cases "int m < n * int p \<or> n = -1")
    case True
    then show ?thesis using before_last [OF assms(2) True, of t] by (auto simp: armed_def)
  next
    case False
    then show ?thesis using assms(2,3) after_last [OF assms(2), of n m t] by auto
  qed
  with c r fire_times [OF assms(2,3)] show ?thesis by auto
qed

definition timer_example :: timer_state where
  "timer_example = \<lparr>g_pstTimerList = Some [zero_timer\<lparr>ucUsedFlag := 1, ulTime := 1, ulRunTime := 1, iFunExecTime := -1\<rparr>,
     zero_timer], g_iTimerNum = 2\<rparr>"

theorem scene_task_timer_schedule_witness:
  "\<exists>s1 s2 jss. scene_task_timer_create 7 timer_example 5 6 4 3 2 = Some (1, s1) \<and>
    run_ticks 9 s1 = Some (s2, jss) \<and>
    (\<forall>k < 9. fires_at jss k 1 \<longleftrightarrow> 3 dvd Suc k \<and> Suc k \<le> 6) \<and> ucUsedFlag (timers s2 ! 1) = 0"
proof -
  have "ts_inv timer_example" by (simp add: timer_example_def ts_inv_def timers_def)
  from scene_task_timer_schedule [OF this, of 3 2 1 6 7 5 4 9] show ?thesis
    by (simp add: timer_example_def timers_def zero_timer_def)
qed

text \<open>A full table is not detected: the loop ends with \<open>i = g_iTimerNum\<close>, which the test
  \<open>i > g_iTimerNum\<close> lets pass, so creating one more timer writes one element past the slots the table
  was created for. When the array has just these slots, that is outside the array.\<close>

theorem scene_task_timer_create_overflow:
  assumes "ts_inv s" "0 < p" "0 < n \<or> n = -1" "g_iTimerNum s = int (length (timers s))"
    "\<forall>k < length (timers s). ucUsedFlag (timers s ! k) \<noteq> 0"
  shows "scene_task_timer_create q s f arg len p n = None"
proof -
  have "find_unused s 0 = Some (g_iTimerNum s)"
    using assms(1,4,5) by (intro find_unused_full) (auto simp: ts_inv_def)
  then show ?thesis using assms(2-4) by (auto simp: scene_task_timer_create_def timer_at_eq)
qed

theorem scene_task_timer_create_overflow_witness:
  "scene_task_timer_create 7 \<lparr>g_pstTimerList = Some [zero_timer\<lparr>ucUsedFlag := 1\<rparr>], g_iTimerNum = 1\<rparr> 5 6 4 3 2 = None"
  by (rule scene_task_timer_create_overflow) (simp_all add: ts_inv_def timers_def)

text \<open>Initialisation: for a request of 1 to 32 timers every slot the loops visit exists and is free.\<close>

theorem scene_task_timer_init_ok:
  assumes "1 \<le> n" "0 \<le> r"
  shows "\<exists>s. scene_task_timer_init True r n = Some (0, s) \<and> ts_inv s \<and> g_iTimerNum s = min n 32 \<and>
    (\<forall>k < nat (g_iTimerNum s). ucUsedFlag (timers s ! k) = 0)"
  using assms
  by (auto simp: scene_task_timer_init_def ts_inv_def timers_def zero_timer_def TIMER_NUM_MIN_def TIMER_NUM_MAX_def)

theorem scene_task_timer_init_ok_witness:
  "\<exists>s. scene_task_timer_init True 0 40 = Some (0, s) \<and> ts_inv s \<and> g_iTimerNum s = 32"
  using scene_task_timer_init_ok [of 40 0] by auto

end
