(* ===== verification/Scene_Tool.thy ===== *)
theory Scene_Tool
  imports Honyar_Prelude
begin

text \<open>
  The string and time helpers of \<open>hylink/src/local_scene/tool.c\<close> that the scene conditions use. The
  macro \<open>_tolower\<close> of the C library is only specified for capital letters, so \<open>stristr\<close> takes it as
  a parameter.
\<close>

section \<open>Operations\<close>

fun match_fold :: "(char \<Rightarrow> char) \<Rightarrow> string \<Rightarrow> string \<Rightarrow> bool" where
  "match_fold lo s1 [] = True"
| "match_fold lo [] (b # s2) = False"
| "match_fold lo (a # s1) (b # s2) = (if lo a = lo b then match_fold lo s1 s2 else False)"

text \<open>The result is the offset of the match in \<open>str1\<close>; \<open>None\<close> is \<open>NULL\<close>.\<close>

fun stristr_loop :: "(char \<Rightarrow> char) \<Rightarrow> nat \<Rightarrow> string \<Rightarrow> string \<Rightarrow> nat option" where
  "stristr_loop lo n [] str2 = None"
| "stristr_loop lo n (c # cp) str2 =
     (if match_fold lo (c # cp) str2 then Some n else stristr_loop lo (Suc n) cp str2)"

definition stristr :: "(char \<Rightarrow> char) \<Rightarrow> string \<Rightarrow> string \<Rightarrow> nat option" where
  "stristr lo str1 str2 = (if str2 = [] then Some 0 else stristr_loop lo 0 str1 str2)"

fun is_int :: "string \<Rightarrow> int" where
  "is_int [] = 1"
| "is_int (p # ps) = (if \<not> is_digit p then 0 else is_int ps)"

fun is_float_loop :: "int \<Rightarrow> string \<Rightarrow> int" where
  "is_float_loop iCount [] = (if iCount \<noteq> 1 then 0 else 1)"
| "is_float_loop iCount (p # ps) =
     (if \<not> is_digit p then (if p = CHR ''.'' then is_float_loop (iCount + 1) ps else 0)
      else is_float_loop iCount ps)"

definition is_float :: "string \<Rightarrow> int" where
  "is_float str = is_float_loop 0 str"

definition time_cmp :: "int \<Rightarrow> int \<Rightarrow> int \<Rightarrow> int \<Rightarrow> int" where
  "time_cmp iHour_1 iMinu_1 iHour_2 iMinu_2 =
     (if iHour_1 > iHour_2 then 1
      else if iHour_1 < iHour_2 then -1
      else if iMinu_1 > iMinu_2 then 1
      else if iMinu_1 < iMinu_2 then -1
      else 0)"

section \<open>Lemmas\<close>

lemma match_fold_iff: "match_fold lo s1 s2 \<longleftrightarrow> map lo (take (length s2) s1) = map lo s2"
  by (induction lo s1 s2 rule: match_fold.induct) auto

lemma stristr_loop_least:
  "stristr_loop lo n s1 s2 = (if \<exists>k < length s1. match_fold lo (drop k s1) s2
     then Some (n + (LEAST k. match_fold lo (drop k s1) s2)) else None)"
proof (induction s1 arbitrary: n)
  case (Cons c cs)
  show ?case
  proof (cases "match_fold lo (c # cs) s2")
    case True
    then have "(LEAST k. match_fold lo (drop k (c # cs)) s2) = 0" by (intro Least_equality) simp_all
    with True show ?thesis by force
  next
    case False
    then have ex: "(\<exists>k < length (c # cs). match_fold lo (drop k (c # cs)) s2) \<longleftrightarrow>
        (\<exists>k < length cs. match_fold lo (drop k cs) s2)"
      by (metis Suc_less_eq drop_0 drop_Suc_Cons gr0_implies_Suc length_Cons neq0_conv)
    moreover have "(LEAST k. match_fold lo (drop k (c # cs)) s2) = Suc (LEAST k. match_fold lo (drop k cs) s2)"
      if h: "k < length cs" "match_fold lo (drop k cs) s2" for k
      using Least_Suc [of "\<lambda>k. match_fold lo (drop k (c # cs)) s2" "Suc k"] h False by simp
    ultimately show ?thesis using Cons False by auto
  qed
qed simp

lemma is_int_iff: "is_int s = 1 \<longleftrightarrow> (\<forall>c \<in> set s. is_digit c)"
  by (induction s) auto

lemma is_float_loop_iff:
  "is_float_loop n s = 1 \<longleftrightarrow> (\<forall>c \<in> set s. is_digit c \<or> c = CHR ''.'') \<and> n + int (count_list s CHR ''.'') = 1"
proof (induction n s rule: is_float_loop.induct)
  case (2 n p ps)
  have "\<not> is_digit CHR ''.''" by (simp add: is_digit_def)
  with 2 show ?case by (cases "is_digit p") (auto simp: algebra_simps)
qed auto

section \<open>Properties\<close>

text \<open>\<open>stristr\<close> returns the first position at which the second string occurs up to case folding,
  and \<open>NULL\<close> exactly when it occurs nowhere.\<close>

theorem stristr_first_occurrence:
  "case stristr lo s1 s2 of
     Some k \<Rightarrow> map lo (take (length s2) (drop k s1)) = map lo s2 \<and>
       \<not> (\<exists>j < k. map lo (take (length s2) (drop j s1)) = map lo s2)
   | None \<Rightarrow> \<not> (\<exists>j. map lo (take (length s2) (drop j s1)) = map lo s2)"
proof (cases "s2 = []")
  case True
  then show ?thesis by (simp add: stristr_def)
next
  case False
  let ?P = "\<lambda>k. map lo (take (length s2) (drop k s1)) = map lo s2"
  have len: "k < length s1" if "?P k" for k
  proof (rule ccontr)
    assume "\<not> k < length s1"
    with that False show False by simp
  qed
  show ?thesis
  proof (cases "\<exists>k < length s1. ?P k")
    case True
    then have "stristr lo s1 s2 = Some (LEAST k. ?P k)"
      using False stristr_loop_least [of lo 0 s1 s2] by (simp add: stristr_def match_fold_iff)
    moreover have "?P (LEAST k. ?P k)" using True by (metis (mono_tags, lifting) LeastI)
    moreover have "\<not> (\<exists>j < (LEAST k. ?P k). ?P j)" using not_less_Least by blast
    ultimately show ?thesis by simp
  next
    case none: False
    then have "stristr lo s1 s2 = None"
      using False stristr_loop_least [of lo 0 s1 s2] by (simp add: stristr_def match_fold_iff)
    with none len show ?thesis by auto
  qed
qed

text \<open>The number tests accept exactly the strings of digits and the strings of digits with one
  decimal point; in particular both reject every negative number, and \<open>is_int\<close> accepts the empty
  string.\<close>

theorem number_tests_exact:
  "(is_int s = 1 \<longleftrightarrow> (\<forall>c \<in> set s. is_digit c)) \<and>
   (is_float s = 1 \<longleftrightarrow> (\<forall>c \<in> set s. is_digit c \<or> c = CHR ''.'') \<and> count_list s CHR ''.'' = 1) \<and>
   is_int (CHR ''-'' # s) = 0 \<and> is_float (CHR ''-'' # s) = 0 \<and> is_int [] = 1"
  by (simp add: is_int_iff is_float_def is_float_loop_iff is_digit_def)

theorem number_tests_exact_witness: "is_int ''42'' = 1 \<and> is_float ''4.2'' = 1 \<and> is_float ''4.2.1'' = 0"
proof -
  have "is_int ''42'' = 1" "is_float ''4.2'' = 1"
    using number_tests_exact [of "''42''"] number_tests_exact [of "''4.2''"] by (simp_all add: is_digit_def)
  moreover have "is_float ''4.2.1'' = 0" by (simp add: is_float_def is_digit_def)
  ultimately show ?thesis by simp
qed

lemma time_cmp_minutes:
  assumes "0 \<le> m1" "m1 < 60" "0 \<le> m2" "m2 < 60"
  shows "time_cmp h1 m1 h2 m2 = sgn ((h1 * 60 + m1) - (h2 * 60 + m2))"
  using assms by (auto simp: time_cmp_def sgn_if)

text \<open>\<open>time_cmp\<close> orders times of day: with minutes in range its result is the sign of the
  difference in minutes.\<close>

theorem time_cmp_orders_times:
  assumes "0 \<le> m1" "m1 < 60" "0 \<le> m2" "m2 < 60"
  shows "time_cmp h1 m1 h2 m2 = sgn ((h1 * 60 + m1) - (h2 * 60 + m2))"
  using assms by (rule time_cmp_minutes)

theorem time_cmp_orders_times_witness: "time_cmp 8 59 9 0 = -1"
  using time_cmp_orders_times [of 59 0 8 9] by simp

end
