(* ===== verification/Cond_List.thy ===== *)
theory Cond_List
  imports Ptr_Hash Scene_Tool
begin

text \<open>
  The condition lists of \<open>hylink/src/local_scene/condition_list.c\<close>. A condition list belongs to one
  scene, one logic (\<open>Or\<close> or \<open>And\<close>) and one kind of condition (time or event). It holds at most 32
  condition sets of at most 32 conditions each; a 32-bit word per set has one truth bit per
  condition, and a 32-bit word per list one bit per set. The list of sets is the linked list of
  theory \<open>Link_List\<close>, which implements a sequence of nodes; here it is that sequence, and every node
  keeps its address, since callers hold pointers to nodes. A pointer to a node that is not in the
  list any more has no defined result.

  The C code exists twice, for time and for event conditions, with the same text up to the type and
  two lines; the part that is common to both is modelled once, for a type variable. The list type
  fixes the kind, so that the functions that select one of the two by \<open>acCondType\<close> are not needed.
  Writes to the data base are recorded as statements; \<open>db\<close> is the status that the asynchronous data
  base call returns for a statement. The results of \<open>calloc\<close> are not checked by the code: the
  addresses \<open>ps\<close> and \<open>pc\<close> stand for successful allocations, and \<open>NULL\<close> has no defined result.
\<close>

section \<open>Data\<close>

definition KEY_MAX_LEN :: nat where "KEY_MAX_LEN = 128"
definition VALUE_MAX_LEN :: nat where "VALUE_MAX_LEN = 128"
definition STATE_MAX_LEN :: nat where "STATE_MAX_LEN = 8"
definition TRIGGER_TYPE_MAX_LEN :: nat where "TRIGGER_TYPE_MAX_LEN = 32"
definition TRIGGER_INTERVAL_MAX_LEN :: nat where "TRIGGER_INTERVAL_MAX_LEN = 8"
definition CONTINUE_TIME_MAX_LEN :: nat where "CONTINUE_TIME_MAX_LEN = 8"
definition HOUR_MAX_LEN :: nat where "HOUR_MAX_LEN = 8"
definition MINU_MAX_LEN :: nat where "MINU_MAX_LEN = 8"
definition WEEK_MAX_LEN :: nat where "WEEK_MAX_LEN = 64"
definition ACTIVE_MAX_LEN :: nat where "ACTIVE_MAX_LEN = 8"
definition LOGIC_MAX_LEN :: nat where "LOGIC_MAX_LEN = 8"
definition COND_TYPE_MAX_LEN :: nat where "COND_TYPE_MAX_LEN = 64"
definition DEV_ID_MAX_LEN :: nat where "DEV_ID_MAX_LEN = 64"

lemmas len_defs = KEY_MAX_LEN_def VALUE_MAX_LEN_def STATE_MAX_LEN_def TRIGGER_TYPE_MAX_LEN_def
  TRIGGER_INTERVAL_MAX_LEN_def CONTINUE_TIME_MAX_LEN_def HOUR_MAX_LEN_def MINU_MAX_LEN_def
  WEEK_MAX_LEN_def ACTIVE_MAX_LEN_def LOGIC_MAX_LEN_def COND_TYPE_MAX_LEN_def INDEX_MAX_LEN_def
  DEV_ID_MAX_LEN_def

record cond_info =
  ci_acId :: string
  acLogic :: string
  acCondType :: string

record event =
  ev_acDevId :: string
  ev_acKey :: string
  ev_acValue :: string

record time_cond =
  acTimeKey :: string
  t_acTriggerType :: string
  acTriggerInterval :: string
  iTriggerInterval :: int
  acStartHour :: string
  acStartMinu :: string
  acEndHour :: string
  acEndMinu :: string
  acWeek :: string
  acRepeat :: string
  acLose :: string

record event_cond =
  e_acDevId :: string
  e_acKey :: string
  e_acTriggerType :: string
  acContinueTime :: string
  e_acValue :: string
  acActive :: string
  acLastValue :: string

record 'c cond_node =
  cn_addr :: ptr
  iCondIndex :: int
  stCond :: 'c

record 'c cond_set =
  sn_addr :: ptr
  iCondSetIndex :: int
  uiCondTrue :: u32
  ucCondCount :: nat
  pstCond :: "'c cond_node list"

record 'c cond_list =
  cl_addr :: ptr
  stCondInfo :: cond_info
  ucInitFlag :: u8
  iCount :: int
  uiCondSetTrue :: u32
  sets :: "'c cond_set list"

section \<open>Data base writes\<close>

definition DB_TABLE_NAME_COND :: string where "DB_TABLE_NAME_COND = ''cond_list''"

definition cond_where :: "'c cond_list \<Rightarrow> (string \<times> string) list" where
  "cond_where l = [(''id'', ci_acId (stCondInfo l)), (''logic'', acLogic (stCondInfo l)),
     (''cond_type'', acCondType (stCondInfo l))]"

text \<open>Outside the initialisation phase a statement is sent; a failure becomes the given error.\<close>

definition db_send :: "(db_stmt \<Rightarrow> status) \<Rightarrow> 'c cond_list \<Rightarrow> db_stmt \<Rightarrow> status \<Rightarrow> status \<times> db_calls" where
  "db_send db l st err = db_write db (ucInitFlag l) st err"

definition time_cond_time_lose_set_db :: "(db_stmt \<Rightarrow> status) \<Rightarrow> time_cond cond_list \<Rightarrow> time_cond \<Rightarrow> status \<times> db_calls" where
  "time_cond_time_lose_set_db db l c =
     db_send db l (Db_Update DB_TABLE_NAME_COND [(''time_lose'', acLose c)] (cond_where l @ [(''time_key'', acTimeKey c)])) SceneSetErr"

definition time_cond_add_db :: "(db_stmt \<Rightarrow> status) \<Rightarrow> time_cond cond_list \<Rightarrow> time_cond \<Rightarrow> status \<times> db_calls" where
  "time_cond_add_db db l c = db_send db l (Db_Insert DB_TABLE_NAME_COND (cond_where l @
     [(''time_key'', acTimeKey c), (''trigger_type'', t_acTriggerType c), (''trigger_interval'', acTriggerInterval c),
      (''start_hour'', acStartHour c), (''start_minu'', acStartMinu c), (''end_hour'', acEndHour c),
      (''end_minu'', acEndMinu c), (''week'', acWeek c), (''repeat'', acRepeat c), (''time_lose'', acLose c)])) SceneAddErr"

definition event_cond_add_db :: "(db_stmt \<Rightarrow> status) \<Rightarrow> event_cond cond_list \<Rightarrow> event_cond \<Rightarrow> status \<times> db_calls" where
  "event_cond_add_db db l c = db_send db l (Db_Insert DB_TABLE_NAME_COND (cond_where l @
     [(''trigger_type'', e_acTriggerType c), (''continue_time'', acContinueTime c), (''dev_id'', e_acDevId c),
      (''key'', e_acKey c), (''value'', e_acValue c), (''active'', acActive c), (''last_value'', acLastValue c)])) SceneAddErr"

definition time_cond_del_db :: "(db_stmt \<Rightarrow> status) \<Rightarrow> time_cond cond_list \<Rightarrow> time_cond \<Rightarrow> status \<times> db_calls" where
  "time_cond_del_db db l c =
     db_send db l (Db_Delete DB_TABLE_NAME_COND (cond_where l @ [(''time_key'', acTimeKey c)])) SceneDelErr"

definition event_cond_del_db :: "(db_stmt \<Rightarrow> status) \<Rightarrow> event_cond cond_list \<Rightarrow> event_cond \<Rightarrow> status \<times> db_calls" where
  "event_cond_del_db db l c =
     db_send db l (Db_Delete DB_TABLE_NAME_COND (cond_where l @ [(''dev_id'', e_acDevId c), (''key'', e_acKey c)])) SceneDelErr"

definition time_cond_set_db :: "(db_stmt \<Rightarrow> status) \<Rightarrow> time_cond cond_list \<Rightarrow> time_cond \<Rightarrow> status \<times> db_calls" where
  "time_cond_set_db db l c = db_send db l (Db_Update DB_TABLE_NAME_COND
     [(''trigger_type'', t_acTriggerType c), (''trigger_interval'', acTriggerInterval c),
      (''start_hour'', acStartHour c), (''start_minu'', acStartMinu c), (''end_hour'', acEndHour c),
      (''end_minu'', acEndMinu c), (''week'', acWeek c), (''repeat'', acRepeat c), (''time_lose'', acLose c)]
     (cond_where l @ [(''time_key'', acTimeKey c)])) SceneAddErr"

definition event_cond_set_db :: "(db_stmt \<Rightarrow> status) \<Rightarrow> event_cond cond_list \<Rightarrow> event_cond \<Rightarrow> status \<times> db_calls" where
  "event_cond_set_db db l c = db_send db l (Db_Update DB_TABLE_NAME_COND
     [(''trigger_type'', e_acTriggerType c), (''continue_time'', acContinueTime c), (''value'', e_acValue c),
      (''active'', acActive c), (''last_value'', acLastValue c)]
     (cond_where l @ [(''dev_id'', e_acDevId c), (''key'', e_acKey c)])) SceneAddErr"

section \<open>Operations\<close>

fun renumber :: "int \<Rightarrow> 'c cond_set list \<Rightarrow> 'c cond_set list" where
  "renumber i [] = []"
| "renumber i (s # ss) = s\<lparr>iCondSetIndex := i\<rparr> # renumber (i + 1) ss"

definition cond_list_update_index :: "'c cond_list \<Rightarrow> 'c cond_list" where
  "cond_list_update_index l = l\<lparr>sets := renumber 0 (sets l)\<rparr>"

definition cond_size :: "'c cond_list \<Rightarrow> int" where
  "cond_size l = iCount l"

definition list_size :: "'c cond_list \<Rightarrow> int" where
  "list_size l = int (length (sets l))"

definition get_set :: "'c cond_list \<Rightarrow> ptr \<Rightarrow> 'c cond_set option" where
  "get_set l a = List.find (\<lambda>s. sn_addr s = a) (sets l)"

definition upd_set :: "ptr \<Rightarrow> ('c cond_set \<Rightarrow> 'c cond_set) \<Rightarrow> 'c cond_list \<Rightarrow> 'c cond_list" where
  "upd_set a f l = l\<lparr>sets := map (\<lambda>s. if sn_addr s = a then f s else s) (sets l)\<rparr>"

definition get_cond :: "'c cond_set \<Rightarrow> ptr \<Rightarrow> 'c cond_node option" where
  "get_cond s a = List.find (\<lambda>n. cn_addr n = a) (pstCond s)"

definition upd_cond :: "ptr \<Rightarrow> ('c \<Rightarrow> 'c) \<Rightarrow> 'c cond_set \<Rightarrow> 'c cond_set" where
  "upd_cond a f s = s\<lparr>pstCond := map (\<lambda>n. if cn_addr n = a then n\<lparr>stCond := f (stCond n)\<rparr> else n) (pstCond s)\<rparr>"

definition new_set :: "ptr \<Rightarrow> 'c cond_set" where
  "new_set ps = \<lparr>sn_addr = ps, iCondSetIndex = 0, uiCondTrue = 0, ucCondCount = 0, pstCond = []\<rparr>"

text \<open>Looking for a set with room, adding one when there is none: time conditions get the new set at
  the tail, event conditions at the head. The result is the list and the address of the set.\<close>

definition cond_place :: "bool \<Rightarrow> ptr \<Rightarrow> 'c cond_list \<Rightarrow> (status + 'c cond_list \<times> ptr) option" where
  "cond_place tail ps l = (case List.find (\<lambda>s. ucCondCount s < 32) (sets l) of
     Some s \<Rightarrow> Some (Inr (l, sn_addr s))
   | None \<Rightarrow>
       if list_size l \<ge> 32 then Some (Inl SceneAddErr)
       else if ps = NULL then None
       else Some (Inr (cond_list_update_index
              (l\<lparr>sets := (if tail then sets l @ [new_set ps] else new_set ps # sets l)\<rparr>), ps)))"

text \<open>Appending the new condition to the set.\<close>

definition set_append :: "ptr \<Rightarrow> 'c \<Rightarrow> 'c cond_set \<Rightarrow> 'c cond_set" where
  "set_append pc c s =
     s\<lparr>pstCond := pstCond s @ [\<lparr>cn_addr = pc,
          iCondIndex = (if pstCond s = [] then 0 else iCondIndex (last (pstCond s)) + 1), stCond = c\<rparr>],
       ucCondCount := ucCondCount s + 1\<rparr>"

definition cond_append :: "ptr \<Rightarrow> ptr \<Rightarrow> 'c \<Rightarrow> 'c cond_list \<Rightarrow> 'c cond_list" where
  "cond_append a pc c l =
     (let l1 = upd_set a (set_append pc c) l; l2 = l1\<lparr>iCount := iCount l1 + 1\<rparr> in
      if iCount l2 = 1 then l2\<lparr>uiCondSetTrue := 0\<rparr> else l2)"

type_synonym 'c add_result = "status \<times> 'c cond_list \<times> ptr_info \<times> db_calls"

definition cond_add_gen :: "bool \<Rightarrow> ('c cond_list \<Rightarrow> 'c \<Rightarrow> status \<times> db_calls) \<Rightarrow> ptr \<Rightarrow> ptr \<Rightarrow>
    'c cond_list \<Rightarrow> 'c \<Rightarrow> ptr_info \<Rightarrow> 'c add_result option" where
  "cond_add_gen tail add_db ps pc l c p = do {
     r \<leftarrow> cond_place tail ps l;
     case r of
       Inl e \<Rightarrow> Some (e, l, p, [])
     | Inr (l1, a) \<Rightarrow>
         if pc = NULL then None
         else do {
           let l2 = cond_append a pc c l1;
           let p1 = p\<lparr>pstCondList := cl_addr l, pCondSetNode := a, pCondNode := pc\<rparr>;
           let (iRet, calls) = add_db l2 c;
           Some (iRet, l2, p1, calls)
         }
   }"

definition time_cond_add :: "(db_stmt \<Rightarrow> status) \<Rightarrow> ptr \<Rightarrow> ptr \<Rightarrow> time_cond cond_list \<Rightarrow> time_cond \<Rightarrow> ptr_info \<Rightarrow>
    time_cond add_result option" where
  "time_cond_add db ps pc l c p = cond_add_gen True (time_cond_add_db db) ps pc l c p"

definition event_cond_add :: "(db_stmt \<Rightarrow> status) \<Rightarrow> ptr \<Rightarrow> ptr \<Rightarrow> event_cond cond_list \<Rightarrow> event_cond \<Rightarrow> ptr_info \<Rightarrow>
    event_cond add_result option" where
  "event_cond_add db ps pc l c p = cond_add_gen False (event_cond_add_db db) ps pc l c p"

text \<open>Removing a node from the chain of its set: the nodes behind it get the next lower index.\<close>

fun chain_remove :: "ptr \<Rightarrow> 'c cond_node list \<Rightarrow> 'c cond_node list" where
  "chain_remove a [] = []"
| "chain_remove a (n # ns) =
     (if cn_addr n = a then map (\<lambda>m. m\<lparr>iCondIndex := iCondIndex m - 1\<rparr>) ns else n # chain_remove a ns)"

definition cond_del_gen :: "('c cond_list \<Rightarrow> 'c \<Rightarrow> status \<times> db_calls) \<Rightarrow> 'c cond_list \<Rightarrow> ptr_info \<Rightarrow>
    (status \<times> 'c cond_list \<times> db_calls) option" where
  "cond_del_gen del_db l p = do {
     s \<leftarrow> get_set l (pCondSetNode p);
     n \<leftarrow> get_cond s (pCondNode p);
     let (r, calls) = del_db l (stCond n);
     if r \<noteq> NoErr then Some (SceneDelErr, l, calls)
     else if ucCondCount s = 1 then do {
       let l1 = l\<lparr>iCount := iCount l - 1\<rparr>;
       let l2 = (if iCount l1 = 0
                 then l1\<lparr>uiCondSetTrue := (if strncmp (acLogic (stCondInfo l1)) ''And'' LOGIC_MAX_LEN = 0 then 1 else 0)\<rparr>
                 else l1);
       let l3 = l2\<lparr>sets := filter (\<lambda>t. sn_addr t \<noteq> pCondSetNode p) (sets l2)\<rparr>;
       Some (NoErr, cond_list_update_index l3, calls)
     } else
       Some (NoErr, (upd_set (pCondSetNode p)
          (\<lambda>t. t\<lparr>pstCond := chain_remove (pCondNode p) (pstCond t), ucCondCount := ucCondCount t - 1\<rparr>) l)
          \<lparr>iCount := iCount l - 1\<rparr>, calls)
   }"

definition time_cond_del :: "(db_stmt \<Rightarrow> status) \<Rightarrow> time_cond cond_list \<Rightarrow> ptr_info \<Rightarrow> (status \<times> time_cond cond_list \<times> db_calls) option" where
  "time_cond_del db l p = cond_del_gen (time_cond_del_db db) l p"

definition event_cond_del :: "(db_stmt \<Rightarrow> status) \<Rightarrow> event_cond cond_list \<Rightarrow> ptr_info \<Rightarrow> (status \<times> event_cond cond_list \<times> db_calls) option" where
  "event_cond_del db l p = cond_del_gen (event_cond_del_db db) l p"

text \<open>\<open>set\<close> copies the fields into the node's buffers, but sends the caller's structure to the data
  base.\<close>

definition time_cond_copy :: "time_cond \<Rightarrow> time_cond \<Rightarrow> time_cond" where
  "time_cond_copy c d = d\<lparr>t_acTriggerType := strncpy (t_acTriggerType c) TRIGGER_TYPE_MAX_LEN,
     acTriggerInterval := strncpy (acTriggerInterval c) TRIGGER_INTERVAL_MAX_LEN,
     acStartHour := strncpy (acStartHour c) HOUR_MAX_LEN, acStartMinu := strncpy (acStartMinu c) MINU_MAX_LEN,
     acEndHour := strncpy (acEndHour c) HOUR_MAX_LEN, acEndMinu := strncpy (acEndMinu c) MINU_MAX_LEN,
     acWeek := strncpy (acWeek c) WEEK_MAX_LEN, acRepeat := strncpy (acRepeat c) STATE_MAX_LEN,
     acLose := strncpy ''0'' STATE_MAX_LEN\<rparr>"

definition event_cond_copy :: "event_cond \<Rightarrow> event_cond \<Rightarrow> event_cond" where
  "event_cond_copy c d = d\<lparr>e_acTriggerType := strncpy (e_acTriggerType c) TRIGGER_TYPE_MAX_LEN,
     acContinueTime := strncpy (acContinueTime c) CONTINUE_TIME_MAX_LEN,
     e_acValue := strncpy (e_acValue c) VALUE_MAX_LEN, acActive := strncpy (acActive c) ACTIVE_MAX_LEN,
     acLastValue := strncpy (acLastValue c) VALUE_MAX_LEN\<rparr>"

definition cond_set_gen :: "('c \<Rightarrow> 'c \<Rightarrow> 'c) \<Rightarrow> ('c cond_list \<Rightarrow> 'c \<Rightarrow> status \<times> db_calls) \<Rightarrow> 'c cond_list \<Rightarrow> 'c \<Rightarrow>
    ptr_info \<Rightarrow> (status \<times> 'c cond_list \<times> db_calls) option" where
  "cond_set_gen copy set_db l c p = do {
     s \<leftarrow> get_set l (pCondSetNode p);
     n \<leftarrow> get_cond s (pCondNode p);
     let l1 = upd_set (pCondSetNode p) (upd_cond (pCondNode p) (copy c)) l;
     let (iRet, calls) = set_db l1 c;
     Some (iRet, l1, calls)
   }"

definition time_cond_set :: "(db_stmt \<Rightarrow> status) \<Rightarrow> time_cond cond_list \<Rightarrow> time_cond \<Rightarrow> ptr_info \<Rightarrow> (status \<times> time_cond cond_list \<times> db_calls) option" where
  "time_cond_set db = cond_set_gen time_cond_copy (time_cond_set_db db)"

definition event_cond_set :: "(db_stmt \<Rightarrow> status) \<Rightarrow> event_cond cond_list \<Rightarrow> event_cond \<Rightarrow> ptr_info \<Rightarrow> (status \<times> event_cond cond_list \<times> db_calls) option" where
  "event_cond_set db = cond_set_gen event_cond_copy (event_cond_set_db db)"

definition cond_get_gen :: "'c cond_list \<Rightarrow> ptr_info \<Rightarrow> (status \<times> 'c) option" where
  "cond_get_gen l p = do {
     s \<leftarrow> get_set l (pCondSetNode p);
     n \<leftarrow> get_cond s (pCondNode p);
     Some (NoErr, stCond n)
   }"

definition time_cond_get :: "time_cond cond_list \<Rightarrow> ptr_info \<Rightarrow> (status \<times> time_cond) option" where
  "time_cond_get = cond_get_gen"

definition event_cond_get :: "event_cond cond_list \<Rightarrow> ptr_info \<Rightarrow> (status \<times> event_cond) option" where
  "event_cond_get = cond_get_gen"

text \<open>The result array of \<open>get_list\<close>, at most \<open>iMax\<close> entries; its length is \<open>*piCount\<close> afterwards.\<close>

definition conds_of :: "'c cond_list \<Rightarrow> 'c list" where
  "conds_of l = concat (map (\<lambda>s. map stCond (pstCond s)) (sets l))"

fun copy_chain :: "nat \<Rightarrow> 'c cond_node list \<Rightarrow> 'c list \<Rightarrow> 'c list" where
  "copy_chain iMax [] acc = acc"
| "copy_chain iMax (p # ps) acc =
     copy_chain iMax ps (if length acc < iMax then acc @ [stCond p] else acc)"

fun copy_sets :: "nat \<Rightarrow> 'c cond_set list \<Rightarrow> 'c list \<Rightarrow> 'c list" where
  "copy_sets iMax [] acc = acc"
| "copy_sets iMax (s # ss) acc = copy_sets iMax ss (copy_chain iMax (pstCond s) acc)"

definition cond_get_list_gen :: "'c cond_list \<Rightarrow> nat \<Rightarrow> status \<times> 'c list" where
  "cond_get_list_gen l iMax = (if list_size l = 0 then (NoErr, []) else (NoErr, copy_sets iMax (sets l) []))"

definition time_cond_get_list :: "time_cond cond_list \<Rightarrow> nat \<Rightarrow> status \<times> time_cond list" where
  "time_cond_get_list = cond_get_list_gen"

definition event_cond_get_list :: "event_cond cond_list \<Rightarrow> nat \<Rightarrow> status \<times> event_cond list" where
  "event_cond_get_list = cond_get_list_gen"

definition cond_clear_gen :: "'c cond_list \<Rightarrow> status \<times> 'c cond_list" where
  "cond_clear_gen l = (NoErr, l\<lparr>iCount := 0, sets := []\<rparr>)"

definition time_cond_clear :: "time_cond cond_list \<Rightarrow> status \<times> time_cond cond_list" where
  "time_cond_clear = cond_clear_gen"

definition event_cond_clear :: "event_cond cond_list \<Rightarrow> status \<times> event_cond cond_list" where
  "event_cond_clear = cond_clear_gen"

definition new_cond_list :: "ptr \<Rightarrow> cond_info \<Rightarrow> 'c cond_list option" where
  "new_cond_list p ci = (if p = NULL then None
     else Some \<lparr>cl_addr = p, stCondInfo = ci, ucInitFlag = 0, iCount = 0,
       uiCondSetTrue = (if strncmp (acLogic ci) ''Or'' LOGIC_MAX_LEN = 0 then 0 else 1), sets = []\<rparr>)"

section \<open>Invariant\<close>

definition set_wf :: "'c cond_set \<Rightarrow> bool" where
  "set_wf s \<longleftrightarrow> ucCondCount s = length (pstCond s) \<and> 1 \<le> length (pstCond s) \<and> length (pstCond s) \<le> 32 \<and>
     (\<forall>j < length (pstCond s). iCondIndex (pstCond s ! j) = int j) \<and> distinct (map cn_addr (pstCond s))"

definition cl_wf :: "'c cond_list \<Rightarrow> bool" where
  "cl_wf l \<longleftrightarrow> length (sets l) \<le> 32 \<and> (\<forall>s \<in> set (sets l). set_wf s) \<and>
     (\<forall>k < length (sets l). iCondSetIndex (sets l ! k) = int k) \<and> distinct (map sn_addr (sets l)) \<and>
     iCount l = int (length (conds_of l))"

definition set_conds :: "'c cond_set \<Rightarrow> 'c list" where
  "set_conds s = map stCond (pstCond s)"

lemma conds_of_sets: "conds_of l = concat (map set_conds (sets l))"
  by (simp add: conds_of_def set_conds_def [abs_def])

lemma renumber_length [simp]: "length (renumber i ss) = length ss"
  by (induction ss arbitrary: i) auto

lemma renumber_nth: "k < length ss \<Longrightarrow> renumber i ss ! k = (ss ! k)\<lparr>iCondSetIndex := i + int k\<rparr>"
proof (induction ss arbitrary: i k)
  case (Cons s ss)
  then show ?case by (cases k) auto
qed simp

lemma renumber_map: "(\<And>s v. f (s\<lparr>iCondSetIndex := v\<rparr>) = f s) \<Longrightarrow> map f (renumber i ss) = map f ss"
  by (induction ss arbitrary: i) auto

lemma renumber_ball: "(\<And>s v. P (s\<lparr>iCondSetIndex := v\<rparr>) = P s) \<Longrightarrow> (\<forall>s \<in> set (renumber i ss). P s) \<longleftrightarrow> (\<forall>s \<in> set ss. P s)"
  by (induction ss arbitrary: i) auto

lemma set_wf_renumber [simp]: "set_wf (s\<lparr>iCondSetIndex := v\<rparr>) = set_wf s"
  by (simp add: set_wf_def)

lemma set_conds_renumber [simp]: "set_conds (s\<lparr>iCondSetIndex := v\<rparr>) = set_conds s"
  by (simp add: set_conds_def)

lemma find_unique:
  assumes "distinct (map f xs)" "k < length xs" "f (xs ! k) = a"
  shows "List.find (\<lambda>x. f x = a) xs = Some (xs ! k)"
  using assms
proof (induction xs arbitrary: k)
  case (Cons x xs)
  then show ?case by (cases k) (force simp: in_set_conv_nth)+
qed simp

lemma map_unique:
  assumes "distinct (map f xs)" "k < length xs" "f (xs ! k) = a"
  shows "map (\<lambda>x. if f x = a then g x else x) xs = xs[k := g (xs ! k)]"
proof (rule nth_equalityI)
  fix i assume i: "i < length (map (\<lambda>x. if f x = a then g x else x) xs)"
  show "map (\<lambda>x. if f x = a then g x else x) xs ! i = xs[k := g (xs ! k)] ! i"
    using assms i nth_eq_iff_index_eq [OF assms(1), of i k] by (cases "i = k") auto
qed simp

lemma get_set_position:
  assumes "get_set l a = Some s"
  obtains k where "k < length (sets l)" "sets l ! k = s" "sn_addr s = a"
  using assms by (auto simp: get_set_def find_Some_iff)

lemma upd_set_position:
  assumes "distinct (map sn_addr (sets l))" "k < length (sets l)" "sn_addr (sets l ! k) = a"
  shows "upd_set a f l = l\<lparr>sets := (sets l)[k := f (sets l ! k)]\<rparr>" "get_set l a = Some (sets l ! k)"
  using map_unique [OF assms] find_unique [OF assms] by (simp_all add: upd_set_def get_set_def)

lemma get_cond_position:
  assumes "get_cond s a = Some n"
  obtains j where "j < length (pstCond s)" "pstCond s ! j = n" "cn_addr n = a"
  using assms by (auto simp: get_cond_def find_Some_iff)

lemma mset_concat_update:
  assumes "k < length xss"
  shows "mset (concat (xss[k := ys])) + mset (xss ! k) = mset (concat xss) + mset ys"
proof -
  have "concat xss = concat (take k xss) @ xss ! k @ concat (drop (Suc k) xss)"
    using arg_cong [OF id_take_nth_drop [OF assms], of concat] by simp
  moreover have "concat (xss[k := ys]) = concat (take k xss) @ ys @ concat (drop (Suc k) xss)"
    using assms by (simp add: upd_conv_take_nth_drop)
  ultimately show ?thesis by simp
qed

lemma conds_update:
  assumes "k < length (sets l)"
  shows "mset (conds_of (l\<lparr>sets := (sets l)[k := s]\<rparr>)) + mset (set_conds (sets l ! k)) =
    mset (conds_of l) + mset (set_conds s)"
  using mset_concat_update [of k "map set_conds (sets l)" "set_conds s"] assms
  by (simp add: conds_of_sets map_update)

lemma set_append_wf:
  assumes "set_wf s \<or> s = new_set ps" "length (pstCond s) < 32" "pc \<notin> cn_addr ` set (pstCond s)"
  shows "set_wf (set_append pc c s)" "set_conds (set_append pc c s) = set_conds s @ [c]"
proof -
  have "pstCond s \<noteq> [] \<Longrightarrow> iCondIndex (last (pstCond s)) = int (length (pstCond s)) - 1"
    using assms(1) by (auto simp: set_wf_def new_set_def last_conv_nth of_nat_diff)
  then show "set_wf (set_append pc c s)"
    using assms by (auto simp: set_wf_def set_append_def new_set_def nth_append less_Suc_eq)
  show "set_conds (set_append pc c s) = set_conds s @ [c]" by (simp add: set_conds_def set_append_def)
qed

lemma sum_full: "(\<forall>s \<in> set ss. length (set_conds s) = 32) \<Longrightarrow> length (concat (map set_conds ss)) = 32 * length ss"
  by (induction ss) auto

lemma sum_bound: "(\<forall>s \<in> set ss. length (set_conds s) \<le> 32) \<Longrightarrow> length (concat (map set_conds ss)) \<le> 32 * length ss"
  by (induction ss) auto

text \<open>A list is full exactly when it holds 1024 conditions.\<close>

lemma full_iff:
  assumes "cl_wf l"
  shows "(List.find (\<lambda>s. ucCondCount s < 32) (sets l) = None \<and> list_size l \<ge> 32) \<longleftrightarrow> iCount l = 1024"
proof -
  let ?n = "length (concat (map set_conds (sets l)))"
  have c: "iCount l = int ?n" and b: "length (sets l) \<le> 32"
    using assms by (simp_all add: cl_wf_def conds_of_sets)
  have sw: "\<forall>s \<in> set (sets l). ucCondCount s = length (set_conds s) \<and> length (set_conds s) \<le> 32"
    using assms by (auto simp: cl_wf_def set_wf_def set_conds_def)
  show ?thesis
  proof
    assume a: "List.find (\<lambda>s. ucCondCount s < 32) (sets l) = None \<and> list_size l \<ge> 32"
    then have "\<forall>s \<in> set (sets l). length (set_conds s) = 32" using sw by (force simp: find_None_iff)
    then have "?n = 32 * length (sets l)" by (rule sum_full)
    moreover have "length (sets l) = 32" using a b by (simp add: list_size_def)
    ultimately show "iCount l = 1024" using c by simp
  next
    assume a: "iCount l = 1024"
    have bnd: "?n \<le> 32 * length (sets l)" using sw by (intro sum_bound) blast
    then have l32: "length (sets l) = 32" using a b c by linarith
    have "ucCondCount s = 32" if s: "s \<in> set (sets l)" for s
    proof -
      obtain us vs where u: "sets l = us @ s # vs" using s by (meson split_list)
      have "length (concat (map set_conds us)) \<le> 32 * length us" "length (concat (map set_conds vs)) \<le> 32 * length vs"
        using sw u by (intro sum_bound; simp)+
      moreover have "?n = length (concat (map set_conds us)) + length (set_conds s) + length (concat (map set_conds vs))"
        using u by simp
      moreover have "length us + length vs = 31" using l32 u by simp
      moreover have "length (set_conds s) \<le> 32" "ucCondCount s = length (set_conds s)" using sw s by auto
      ultimately show ?thesis using a c by linarith
    qed
    then show "List.find (\<lambda>s. ucCondCount s < 32) (sets l) = None \<and> list_size l \<ge> 32"
      using l32 by (auto simp: find_None_iff list_size_def)
  qed
qed

lemma append_upd_wf:
  assumes "cl_wf l \<or> (length (sets l) \<le> 32 \<and> (\<forall>i < length (sets l). i \<noteq> k \<longrightarrow> set_wf (sets l ! i)) \<and>
      (\<forall>k < length (sets l). iCondSetIndex (sets l ! k) = int k) \<and> distinct (map sn_addr (sets l)) \<and>
      iCount l = int (length (conds_of l)))"
    "k < length (sets l)" "set_wf s" "sn_addr s = sn_addr (sets l ! k)" "iCondSetIndex s = iCondSetIndex (sets l ! k)"
    "iCount l' = iCount l + int (length (set_conds s)) - int (length (set_conds (sets l ! k)))"
    "sets l' = (sets l)[k := s]"
  shows "cl_wf l'"
proof -
  have w: "length (sets l) \<le> 32" "\<forall>i < length (sets l). i \<noteq> k \<longrightarrow> set_wf (sets l ! i)"
    "\<forall>k < length (sets l). iCondSetIndex (sets l ! k) = int k" "distinct (map sn_addr (sets l))"
    "iCount l = int (length (conds_of l))"
    using assms(1) by (auto simp: cl_wf_def)
  have e: "conds_of l' = conds_of (l\<lparr>sets := (sets l)[k := s]\<rparr>)" using assms(7) by (simp add: conds_of_sets)
  have "length (conds_of l') + length (set_conds (sets l ! k)) = length (conds_of l) + length (set_conds s)"
    using arg_cong [OF conds_update [OF assms(2), of s], of size] e by (simp only: size_union size_mset)
  then have "iCount l' = int (length (conds_of l'))" using assms(6) w(5) by linarith
  moreover have "map sn_addr (sets l') = map sn_addr (sets l)"
    using assms(2,4,7) by (metis list_update_id map_update nth_map)
  moreover have "\<forall>t \<in> set (sets l'). set_wf t"
    using w(2) assms(2,3,7) by (auto simp: in_set_conv_nth nth_list_update)
  moreover have "\<forall>k < length (sets l'). iCondSetIndex (sets l' ! k) = int k"
    using w(3) assms(2,5,7) by (auto simp: nth_list_update)
  ultimately show ?thesis using w assms(7) by (simp add: cl_wf_def)
qed

lemma set_append_fields [simp]:
  "sn_addr (set_append pc c s) = sn_addr s" "iCondSetIndex (set_append pc c s) = iCondSetIndex s"
  by (simp_all add: set_append_def)

lemma get_appended:
  assumes "pc \<notin> cn_addr ` set (pstCond s)"
  shows "\<exists>n. get_cond (set_append pc c s) pc = Some n \<and> stCond n = c"
proof -
  have "List.find (\<lambda>n. cn_addr n = pc) (pstCond s) = None" using assms by (auto simp: find_None_iff)
  then show ?thesis by (simp add: get_cond_def set_append_def find_append)
qed

text \<open>All condition nodes of the list, and freshness of new addresses.\<close>

definition cond_addrs :: "'c cond_list \<Rightarrow> ptr set" where
  "cond_addrs l = (\<Union>s \<in> set (sets l). cn_addr ` set (pstCond s))"

definition set_addrs :: "'c cond_list \<Rightarrow> ptr set" where
  "set_addrs l = sn_addr ` set (sets l)"

lemma cond_append_ok:
  assumes "k < length (sets l)" "sn_addr (sets l ! k) = a" "distinct (map sn_addr (sets l))"
    "pc \<notin> cn_addr ` set (pstCond (sets l ! k))" "l' = cond_append a pc c l"
  shows "sets l' = (sets l)[k := set_append pc c (sets l ! k)]" "iCount l' = iCount l + 1"
    "mset (conds_of l') = add_mset c (mset (conds_of l))" "stCondInfo l' = stCondInfo l" "ucInitFlag l' = ucInitFlag l"
    "\<exists>s n. get_set l' a = Some s \<and> get_cond s pc = Some n \<and> stCond n = c"
proof -
  let ?s = "set_append pc c (sets l ! k)"
  note u = upd_set_position(1) [OF assms(3,1,2)]
  show s: "sets l' = (sets l)[k := ?s]" and "iCount l' = iCount l + 1"
    and "stCondInfo l' = stCondInfo l" "ucInitFlag l' = ucInitFlag l"
    using assms(5) by (simp_all add: cond_append_def u Let_def)
  have c: "set_conds ?s = set_conds (sets l ! k) @ [c]" by (simp add: set_conds_def set_append_def)
  have "conds_of l' = conds_of (l\<lparr>sets := (sets l)[k := ?s]\<rparr>)" using s by (simp add: conds_of_sets)
  with conds_update [OF assms(1), of ?s] c show "mset (conds_of l') = add_mset c (mset (conds_of l))" by simp
  have d: "distinct (map sn_addr (sets l'))" "k < length (sets l')" "sn_addr (sets l' ! k) = a"
    using s assms(1-3) list_update_same_conv [of k "map sn_addr (sets l)" a] by (simp_all add: map_update)
  show "\<exists>s n. get_set l' a = Some s \<and> get_cond s pc = Some n \<and> stCond n = c"
    using upd_set_position(2) [OF d] get_appended [OF assms(4), of c] s assms(1) by simp
qed

text \<open>What the search for a set with room establishes for the condition that is then appended.\<close>

definition place_ok :: "'c cond_list \<Rightarrow> ptr \<Rightarrow> 'c \<Rightarrow> 'c cond_list \<Rightarrow> ptr \<Rightarrow> nat \<Rightarrow> bool" where
  "place_ok l pc c l1 a k \<longleftrightarrow> k < length (sets l1) \<and> sn_addr (sets l1 ! k) = a \<and>
     distinct (map sn_addr (sets l1)) \<and> pc \<notin> cn_addr ` set (pstCond (sets l1 ! k)) \<and>
     cl_wf (cond_append a pc c l1) \<and> mset (conds_of l1) = mset (conds_of l) \<and>
     stCondInfo l1 = stCondInfo l \<and> ucInitFlag l1 = ucInitFlag l"

lemma place_found:
  assumes "cl_wf l" "List.find (\<lambda>s. ucCondCount s < 32) (sets l) = Some s" "pc \<notin> cond_addrs l"
  shows "\<exists>k. place_ok l pc c l (sn_addr s) k"
proof -
  note w = assms(1) [unfolded cl_wf_def]
  from assms(2) obtain k where k: "k < length (sets l)" "sets l ! k = s" "ucCondCount s < 32"
    by (auto simp: find_Some_iff)
  have s: "set_wf s" "length (pstCond s) < 32" using w k by (auto simp: set_wf_def)
  have pc: "pc \<notin> cn_addr ` set (pstCond s)" using assms(3) k by (auto simp: cond_addrs_def)
  have d: "distinct (map sn_addr (sets l))" using w by simp
  note a = cond_append_ok [OF k(1) _ d _ refl, of "sn_addr s" pc c, unfolded k(2), OF refl pc]
  note sa = set_append_wf [of s, OF disjI1 [OF s(1)] s(2) pc, of c]
  have "cl_wf (cond_append (sn_addr s) pc c l)"
  proof (rule append_upd_wf [OF disjI1 [OF assms(1)] k(1) sa(1)])
    show "iCount (cond_append (sn_addr s) pc c l) =
        iCount l + int (length (set_conds (set_append pc c s))) - int (length (set_conds (sets l ! k)))"
      using a(2) sa(2) k(2) by simp
  qed (use k(2) a(1) in simp_all)
  with k d pc show ?thesis unfolding place_ok_def by blast
qed

text \<open>A list with a new empty set at position \<open>k\<close>.\<close>

lemma new_set_added:
  assumes "cl_wf l" "length (sets l) < 32" "ps \<notin> set_addrs l"
    "ss = (if tail then sets l @ [new_set ps] else new_set ps # sets l)"
    "k = (if tail then length (sets l) else 0)" "l1 = cond_list_update_index (l\<lparr>sets := ss\<rparr>)"
  shows "k < length (sets l1)" "sets l1 ! k = (new_set ps)\<lparr>iCondSetIndex := int k\<rparr>"
    "length (sets l1) \<le> 32" "\<forall>i < length (sets l1). i \<noteq> k \<longrightarrow> set_wf (sets l1 ! i)"
    "\<forall>i < length (sets l1). iCondSetIndex (sets l1 ! i) = int i" "distinct (map sn_addr (sets l1))"
    "map set_conds (sets l1) = map set_conds ss"
proof -
  note w = assms(1) [unfolded cl_wf_def]
  have sl: "sets l1 = renumber 0 ss" using assms(6) by (simp add: cond_list_update_index_def)
  have kl: "k < length ss" "ss ! k = new_set ps" using assms(4,5) by (auto simp: nth_append)
  then show "k < length (sets l1)" "sets l1 ! k = (new_set ps)\<lparr>iCondSetIndex := int k\<rparr>"
    using renumber_nth [OF kl(1), of 0] unfolding sl by simp_all
  show "length (sets l1) \<le> 32" unfolding sl using assms(2,4) by simp
  show "\<forall>i < length (sets l1). iCondSetIndex (sets l1 ! i) = int i"
    unfolding sl using renumber_nth [of _ ss 0] by simp
  have "map sn_addr (sets l1) = map sn_addr ss" unfolding sl by (rule renumber_map) simp
  then show "distinct (map sn_addr (sets l1))" using w assms(3,4) by (auto simp: set_addrs_def new_set_def)
  show "map set_conds (sets l1) = map set_conds ss" unfolding sl by (rule renumber_map) simp
  show "\<forall>i < length (sets l1). i \<noteq> k \<longrightarrow> set_wf (sets l1 ! i)"
  proof (intro allI impI)
    fix i assume i: "i < length (sets l1)" "i \<noteq> k"
    have i': "i < length ss" using i(1) unfolding sl by simp
    have "ss ! i \<in> set (sets l)" using i i' assms(4,5) by (cases tail) (auto simp: nth_append nth_Cons')
    then have "set_wf (ss ! i)" using w by blast
    then show "set_wf (sets l1 ! i)" using renumber_nth [OF i', of 0] unfolding sl by simp
  qed
qed

lemma place_new:
  assumes "cl_wf l" "length (sets l) < 32" "ps \<notin> set_addrs l"
    "l1 = cond_list_update_index (l\<lparr>sets := (if tail then sets l @ [new_set ps] else new_set ps # sets l)\<rparr>)"
  shows "\<exists>k. place_ok l pc c l1 ps k"
proof -
  define k where "k = (if tail then length (sets l) else 0)"
  note n = new_set_added [OF assms(1-3) refl k_def assms(4)]
  have ad: "sn_addr (sets l1 ! k) = ps" "pstCond (sets l1 ! k) = []" using n(2) by (simp_all add: new_set_def)
  have pc: "pc \<notin> cn_addr ` set (pstCond (sets l1 ! k))" using ad by simp
  have "set_conds (new_set ps :: 'a cond_set) = []" by (simp add: set_conds_def new_set_def)
  then have co: "mset (conds_of l1) = mset (conds_of l)" "length (conds_of l1) = length (conds_of l)"
    using n(7) by (simp_all add: conds_of_sets)
  have cn: "iCount l1 = iCount l" "stCondInfo l1 = stCondInfo l" "ucInitFlag l1 = ucInitFlag l"
    using assms(4) by (simp_all add: cond_list_update_index_def)
  note a = cond_append_ok [OF n(1) ad(1) n(6) pc refl, of c]
  let ?s = "set_append pc c (sets l1 ! k)"
  have sw: "set_wf ?s" "set_conds ?s = [c]"
    using ad(2) n(2) by (simp_all add: set_wf_def set_append_def set_conds_def new_set_def)
  have ct: "iCount l1 = int (length (conds_of l1))" using cn(1) co(2) assms(1) by (simp add: cl_wf_def)
  have "cl_wf (cond_append ps pc c l1)"
  proof (rule append_upd_wf [OF disjI2 n(1) sw(1)])
    show "length (sets l1) \<le> 32 \<and> (\<forall>i < length (sets l1). i \<noteq> k \<longrightarrow> set_wf (sets l1 ! i)) \<and>
      (\<forall>k < length (sets l1). iCondSetIndex (sets l1 ! k) = int k) \<and> distinct (map sn_addr (sets l1)) \<and>
      iCount l1 = int (length (conds_of l1))"
      using n(3-6) ct by blast
    show "iCount (cond_append ps pc c l1) = iCount l1 + int (length (set_conds ?s)) - int (length (set_conds (sets l1 ! k)))"
      using a(2) sw(2) ad(2) by (simp add: set_conds_def)
  qed (use a(1) in simp_all)
  with n(1,6) ad(1) pc co(1) cn(2,3) show ?thesis unfolding place_ok_def by blast
qed

lemma cond_add_outcome:
  assumes "cl_wf l" "ps \<noteq> NULL" "pc \<noteq> NULL" "ps \<notin> set_addrs l" "pc \<notin> cond_addrs l"
  shows "if iCount l = 1024 then cond_add_gen tail add_db ps pc l c p = Some (SceneAddErr, l, p, [])
    else \<exists>l' p'. cond_add_gen tail add_db ps pc l c p = Some (fst (add_db l' c), l', p', snd (add_db l' c)) \<and>
      cl_wf l' \<and> mset (conds_of l') = add_mset c (mset (conds_of l)) \<and> cond_get_gen l' p' = Some (NoErr, c) \<and>
      stCondInfo l' = stCondInfo l \<and> ucInitFlag l' = ucInitFlag l"
proof (cases "iCount l = 1024")
  case True
  then have "cond_place tail ps l = Some (Inl SceneAddErr)"
    using full_iff [OF assms(1)] by (auto simp: cond_place_def)
  with True show ?thesis by (simp add: cond_add_gen_def)
next
  case False
  have "\<exists>k l1 a. cond_place tail ps l = Some (Inr (l1, a)) \<and> place_ok l pc c l1 a k"
  proof (cases "List.find (\<lambda>s. ucCondCount s < 32) (sets l)")
    case (Some s)
    then show ?thesis using place_found [OF assms(1) Some assms(5)] by (auto simp: cond_place_def)
  next
    case None
    have "length (sets l) < 32"
      using None False full_iff [OF assms(1)] assms(1) by (auto simp: list_size_def cl_wf_def)
    with place_new [OF assms(1) this assms(4) refl, of pc c tail] None assms(2) show ?thesis
      by (auto simp: cond_place_def list_size_def)
  qed
  then obtain k l1 a where r: "cond_place tail ps l = Some (Inr (l1, a))" "place_ok l pc c l1 a k" by blast
  note q = r(2) [unfolded place_ok_def]
  have ap: "mset (conds_of (cond_append a pc c l1)) = add_mset c (mset (conds_of l1))"
    "stCondInfo (cond_append a pc c l1) = stCondInfo l1" "ucInitFlag (cond_append a pc c l1) = ucInitFlag l1"
    "\<exists>s n. get_set (cond_append a pc c l1) a = Some s \<and> get_cond s pc = Some n \<and> stCond n = c"
    using cond_append_ok [of k l1 a pc _ c] q by blast+
  let ?l = "cond_append a pc c l1" and ?p = "p\<lparr>pstCondList := cl_addr l, pCondSetNode := a, pCondNode := pc\<rparr>"
  have "cond_add_gen tail add_db ps pc l c p = Some (fst (add_db ?l c), ?l, ?p, snd (add_db ?l c))"
    using r(1) assms(3) by (simp add: cond_add_gen_def case_prod_unfold Let_def)
  moreover have "cond_get_gen ?l ?p = Some (NoErr, c)" using ap(4) by (auto simp: cond_get_gen_def)
  ultimately show ?thesis using False q ap(1-3) by auto
qed

text \<open>Deletion.\<close>

lemma filter_position:
  assumes "distinct (map f xs)" "k < length xs"
  shows "filter (\<lambda>x. f x \<noteq> f (xs ! k)) xs = take k xs @ drop (Suc k) xs"
  using assms
proof (induction xs arbitrary: k)
  case (Cons x xs)
  show ?case
  proof (cases k)
    case 0
    have "\<forall>y \<in> set xs. f y \<noteq> f x" using Cons.prems(1) by (metis distinct.simps(2) image_eqI list.set_map list.simps(9))
    then show ?thesis using 0 by simp
  next
    case (Suc i)
    then have "f x \<noteq> f (xs ! i)" using Cons.prems by auto
    with Suc Cons show ?thesis by simp
  qed
qed simp

lemma chain_remove_position:
  assumes "distinct (map cn_addr ns)" "j < length ns" "cn_addr (ns ! j) = a"
  shows "chain_remove a ns = take j ns @ map (\<lambda>m. m\<lparr>iCondIndex := iCondIndex m - 1\<rparr>) (drop (Suc j) ns)"
  using assms
proof (induction ns arbitrary: j)
  case (Cons n ns)
  show ?case
  proof (cases j)
    case (Suc i)
    then have "cn_addr n \<noteq> a" using Cons.prems by (metis distinct.simps(2) image_eqI length_Cons list.map(2) list.set_map
          nth_Cons_Suc nth_mem Suc_less_eq)
    with Suc Cons show ?thesis by auto
  qed (use Cons.prems in simp)
qed simp

lemma chain_remove_wf:
  assumes "set_wf s" "get_cond s a = Some n" "ucCondCount s \<noteq> 1"
    "s' = s\<lparr>pstCond := chain_remove a (pstCond s), ucCondCount := ucCondCount s - 1\<rparr>"
  shows "set_wf s'" "mset (set_conds s) = add_mset (stCond n) (mset (set_conds s'))"
proof -
  from assms(2) obtain j where j: "j < length (pstCond s)" "pstCond s ! j = n" "cn_addr n = a"
    by (rule get_cond_position)
  let ?ns = "pstCond s"
  note w = assms(1) [unfolded set_wf_def]
  have c: "pstCond s' = take j ?ns @ map (\<lambda>m. m\<lparr>iCondIndex := iCondIndex m - 1\<rparr>) (drop (Suc j) ?ns)"
    using chain_remove_position [of ?ns j a] w j assms(4) by simp
  have l: "length (pstCond s') = length ?ns - 1" using c j(1) by simp
  have "iCondIndex (pstCond s' ! i) = int i" if "i < length (pstCond s')" for i
    using that w j(1) l unfolding c by (auto simp: nth_append min_def)
  moreover have "distinct (map cn_addr (pstCond s'))"
  proof -
    have "map cn_addr (pstCond s') = take j (map cn_addr ?ns) @ drop (Suc j) (map cn_addr ?ns)"
      unfolding c by (simp add: take_map drop_map comp_def)
    moreover have "distinct (take j (map cn_addr ?ns) @ map cn_addr ?ns ! j # drop (Suc j) (map cn_addr ?ns))"
      using w j(1) by (metis id_take_nth_drop length_map)
    ultimately show ?thesis by auto
  qed
  ultimately show "set_wf s'" using w l assms(3,4) by (auto simp: set_wf_def)
  have "set_conds s' = take j (set_conds s) @ drop (Suc j) (set_conds s)"
    unfolding set_conds_def c by (simp add: take_map drop_map comp_def)
  moreover have "set_conds s = take j (set_conds s) @ stCond n # drop (Suc j) (set_conds s)"
    using j id_take_nth_drop [of j "set_conds s"] by (simp add: set_conds_def)
  then have "mset (set_conds s) = mset (take j (set_conds s) @ stCond n # drop (Suc j) (set_conds s))" by metis
  ultimately show "mset (set_conds s) = add_mset (stCond n) (mset (set_conds s'))" by simp
qed

lemma set_dropped_wf:
  assumes "cl_wf l" "k < length (sets l)" "sets l ! k = s" "pstCond s = [n]"
    "sets l' = renumber 0 (filter (\<lambda>t. sn_addr t \<noteq> sn_addr s) (sets l))" "iCount l' = iCount l - 1"
  shows "cl_wf l'" "mset (conds_of l) = add_mset (stCond n) (mset (conds_of l'))"
proof -
  note w = assms(1) [unfolded cl_wf_def]
  let ?r = "take k (sets l) @ drop (Suc k) (sets l)"
  have f: "filter (\<lambda>t. sn_addr t \<noteq> sn_addr s) (sets l) = ?r"
    using filter_position [of sn_addr "sets l" k] w assms(2,3) by simp
  have s': "sets l' = renumber 0 ?r" using assms(5) unfolding f .
  have r: "mset (sets l) = add_mset s (mset ?r)"
    using arg_cong [OF id_take_nth_drop [OF assms(2)], of mset] assms(3) by simp
  have "set (sets l) = insert s (set ?r)" using arg_cong [OF r, of set_mset] by simp
  then have sub: "set ?r \<subseteq> set (sets l)" by blast
  have mc: "map set_conds (sets l') = map set_conds ?r" unfolding s' by (rule renumber_map) simp
  have "concat (map set_conds (sets l)) = concat (map set_conds (take k (sets l))) @ [stCond n] @
      concat (map set_conds (drop (Suc k) (sets l)))"
    using arg_cong [OF id_take_nth_drop [OF assms(2)], of "\<lambda>x. concat (map set_conds x)"] assms(3,4)
    by (simp add: set_conds_def)
  then show m: "mset (conds_of l) = add_mset (stCond n) (mset (conds_of l'))"
    unfolding conds_of_sets mc by simp
  have "length (conds_of l) = Suc (length (conds_of l'))"
    using arg_cong [OF m, of size] by (simp only: size_mset size_add_mset)
  then have ct: "iCount l' = int (length (conds_of l'))" using assms(6) w by simp
  have "distinct (map sn_addr (sets l'))"
  proof -
    have "map sn_addr (sets l') = map sn_addr ?r" unfolding s' by (rule renumber_map) simp
    moreover have "distinct (map sn_addr ?r)" using w unfolding f [symmetric] by (simp add: distinct_map_filter)
    ultimately show ?thesis by simp
  qed
  moreover have "\<forall>t \<in> set (sets l'). set_wf t"
    unfolding s' using renumber_ball [of set_wf 0 ?r] w sub by auto
  moreover have "\<forall>i < length (sets l'). iCondSetIndex (sets l' ! i) = int i"
    unfolding s' using renumber_nth [of _ ?r 0] by simp
  moreover have "length (sets l') \<le> 32" unfolding s' using w assms(2) by auto
  ultimately show "cl_wf l'" using ct by (simp add: cl_wf_def)
qed

lemma cond_del_outcome:
  assumes "cl_wf l" "get_set l (pCondSetNode p) = Some s" "get_cond s (pCondNode p) = Some n"
    "del_db l (stCond n) = (r, calls)"
  shows "if r \<noteq> NoErr then cond_del_gen del_db l p = Some (SceneDelErr, l, calls)
    else \<exists>l'. cond_del_gen del_db l p = Some (NoErr, l', calls) \<and> cl_wf l' \<and>
      mset (conds_of l) = add_mset (stCond n) (mset (conds_of l'))"
proof (cases "r = NoErr")
  case False
  then show ?thesis using assms(2-4) by (simp add: cond_del_gen_def)
next
  case True
  from assms(2) obtain k where k: "k < length (sets l)" "sets l ! k = s" "sn_addr s = pCondSetNode p"
    by (rule get_set_position)
  note w = assms(1) [unfolded cl_wf_def]
  have sw: "set_wf s" using w k by auto
  show ?thesis
  proof (cases "ucCondCount s = 1")
    case one: True
    then have "length (pstCond s) = 1" using sw by (simp add: set_wf_def)
    then have n: "pstCond s = [n]" using assms(3) by (auto simp: get_cond_def length_Suc_conv split: if_splits)
    obtain l' where l': "cond_del_gen del_db l p = Some (NoErr, l', calls)"
      "sets l' = renumber 0 (filter (\<lambda>t. sn_addr t \<noteq> sn_addr s) (sets l))" "iCount l' = iCount l - 1"
      using assms(2-4) one True k(3) by (simp add: cond_del_gen_def cond_list_update_index_def Let_def)
    with set_dropped_wf [OF assms(1) k(1,2) n l'(2,3)] True show ?thesis by auto
  next
    case more: False
    let ?s = "s\<lparr>pstCond := chain_remove (pCondNode p) (pstCond s), ucCondCount := ucCondCount s - 1\<rparr>"
    note cr = chain_remove_wf [OF sw assms(3) more refl]
    let ?l = "l\<lparr>sets := (sets l)[k := ?s], iCount := iCount l - 1\<rparr>"
    have d: "distinct (map sn_addr (sets l))" using w by simp
    have u: "upd_set (pCondSetNode p) (\<lambda>t. t\<lparr>pstCond := chain_remove (pCondNode p) (pstCond t),
        ucCondCount := ucCondCount t - 1\<rparr>) l = l\<lparr>sets := (sets l)[k := ?s]\<rparr>"
      using upd_set_position(1) [OF d k(1), of "pCondSetNode p"] k(2,3) by simp
    have e: "cond_del_gen del_db l p = Some (NoErr, ?l, calls)"
      using assms(2-4) more True u by (simp add: cond_del_gen_def)
    have m: "mset (conds_of l) = add_mset (stCond n) (mset (conds_of ?l))"
      using conds_update [OF k(1), of ?s] cr(2) k(2) by (simp add: conds_of_sets)
    have ls: "length (set_conds s) = Suc (length (set_conds ?s))"
      using arg_cong [OF cr(2), of size] by (simp only: size_mset size_add_mset)
    have "cl_wf ?l"
      by (rule append_upd_wf [OF disjI1 [OF assms(1)] k(1) cr(1)]) (use k ls in simp_all)
    with e m True show ?thesis by auto
  qed
qed

lemma copy_chain_take: "length acc \<le> m \<Longrightarrow> copy_chain m ps acc = take m (acc @ map stCond ps)"
proof (induction ps arbitrary: acc)
  case (Cons p ps)
  then show ?case using Cons.IH [of "acc @ [stCond p]"] by (cases "length acc < m") auto
qed simp

lemma copy_sets_take: "length acc \<le> m \<Longrightarrow> copy_sets m ss acc = take m (acc @ concat (map set_conds ss))"
proof (induction ss arbitrary: acc)
  case (Cons s ss)
  let ?a = "take m (acc @ map stCond (pstCond s))"
  have "copy_sets m ss ?a = take m (?a @ concat (map set_conds ss))" by (intro Cons.IH) simp
  also have "\<dots> = take m (acc @ concat (map set_conds (s # ss)))"
    using Cons.prems by (simp add: set_conds_def min_def)
  finally show ?case using copy_chain_take [OF Cons.prems] by simp
qed simp

lemma get_list_take: "cond_get_list_gen l m = (NoErr, take m (conds_of l))"
  using copy_sets_take [of "[]" m "sets l"] by (simp add: cond_get_list_gen_def list_size_def conds_of_sets)

section \<open>Interface\<close>

text \<open>A bounded collection of items that hands out a handle for each item it accepts.\<close>

locale bounded_store =
  fixes inv :: "'s \<Rightarrow> bool"
    and content :: "'s \<Rightarrow> 'c multiset"
    and cap :: nat
    and fresh :: "'a \<Rightarrow> 's \<Rightarrow> bool"
    and add :: "'a \<Rightarrow> 'c \<Rightarrow> 's \<Rightarrow> ('s \<times> 'h) option"
    and fetch :: "'s \<Rightarrow> 'h \<Rightarrow> 'c option"
    and del :: "'h \<Rightarrow> 's \<Rightarrow> 's option"
  assumes add_law: "inv s \<Longrightarrow> fresh a s \<Longrightarrow> size (content s) < cap \<Longrightarrow>
      \<exists>s' h. add a c s = Some (s', h) \<and> inv s' \<and> content s' = add_mset c (content s) \<and> fetch s' h = Some c"
    and full_law: "inv s \<Longrightarrow> fresh a s \<Longrightarrow> cap \<le> size (content s) \<Longrightarrow> add a c s = None"
    and del_law: "inv s \<Longrightarrow> fetch s h = Some c \<Longrightarrow>
      \<exists>s'. del h s = Some s' \<and> inv s' \<and> content s = add_mset c (content s')"
begin

lemma add_del_roundtrip:
  assumes "inv s" "fresh a s" "size (content s) < cap"
  shows "\<exists>s1 h s2. add a c s = Some (s1, h) \<and> fetch s1 h = Some c \<and> del h s1 = Some s2 \<and> inv s2 \<and> content s2 = content s"
proof -
  from add_law [OF assms, of c] obtain s1 h where
    a: "add a c s = Some (s1, h)" "inv s1" "content s1 = add_mset c (content s)" "fetch s1 h = Some c" by blast
  from del_law [OF a(2,4)] a(3) obtain s2 where "del h s1 = Some s2" "inv s2" "content s2 = content s" by auto
  with a show ?thesis by blast
qed

lemma never_over_capacity:
  assumes "inv s" "fresh a s" "size (content s) \<le> cap" "add a c s = Some (s', h)"
  shows "size (content s') \<le> cap"
proof (cases "size (content s) < cap")
  case True
  from add_law [OF assms(1,2) True, of c] assms(4) True show ?thesis by auto
next
  case False
  with full_law [OF assms(1,2), of c] assms(4) show ?thesis by simp
qed

end

definition cl_fresh :: "ptr \<times> ptr \<Rightarrow> 'c cond_list \<Rightarrow> bool" where
  "cl_fresh a l \<longleftrightarrow> fst a \<noteq> NULL \<and> snd a \<noteq> NULL \<and> fst a \<notin> set_addrs l \<and> snd a \<notin> cond_addrs l"

definition no_info :: ptr_info where
  "no_info = \<lparr>acId = [], pstScene = NULL, pstCondList = NULL, pCondSetNode = NULL, pCondNode = NULL, pScenePanelNode = NULL\<rparr>"

text \<open>The accepted additions: the status is \<open>NoErr\<close>.\<close>

definition accepted :: "'c add_result option \<Rightarrow> ('c cond_list \<times> ptr_info) option" where
  "accepted r = (case r of Some (st, l, p, calls) \<Rightarrow> if st = NoErr then Some (l, p) else None | None \<Rightarrow> None)"

definition fetched :: "(status \<times> 'c) option \<Rightarrow> 'c option" where
  "fetched r = map_option snd r"

definition deleted :: "(status \<times> 'c cond_list \<times> db_calls) option \<Rightarrow> 'c cond_list option" where
  "deleted r = (case r of Some (st, l, calls) \<Rightarrow> if st = NoErr then Some l else None | None \<Rightarrow> None)"

lemma store_laws:
  fixes l :: "'c cond_list"
  assumes "cl_wf l" "cl_fresh a l" "\<And>l c. fst (add_db l c) = NoErr"
  shows "size (mset (conds_of l)) < 1024 \<Longrightarrow> \<exists>l' p'. accepted (cond_add_gen tail add_db (fst a) (snd a) l c p) = Some (l', p') \<and>
      cl_wf l' \<and> mset (conds_of l') = add_mset c (mset (conds_of l)) \<and> fetched (cond_get_gen l' p') = Some c"
    and "1024 \<le> size (mset (conds_of l)) \<Longrightarrow> accepted (cond_add_gen tail add_db (fst a) (snd a) l c p) = None"
proof -
  have n: "iCount l = int (length (conds_of l))" using assms(1) by (simp add: cl_wf_def)
  have b: "length (conds_of l) \<le> 1024"
  proof -
    have "length (conds_of l) \<le> 32 * length (sets l)"
      unfolding conds_of_sets using assms(1) by (intro sum_bound) (auto simp: cl_wf_def set_wf_def set_conds_def)
    then show ?thesis using assms(1) by (simp add: cl_wf_def)
  qed
  note o = cond_add_outcome [OF assms(1), of "fst a" "snd a" tail add_db c p] assms(2) [unfolded cl_fresh_def]
  { assume "size (mset (conds_of l)) < 1024"
    then have "iCount l \<noteq> 1024" using n by simp
    with o obtain l' p' where "cond_add_gen tail add_db (fst a) (snd a) l c p = Some (fst (add_db l' c), l', p', snd (add_db l' c))"
      "cl_wf l'" "mset (conds_of l') = add_mset c (mset (conds_of l))" "cond_get_gen l' p' = Some (NoErr, c)" by auto
    then show "\<exists>l' p'. accepted (cond_add_gen tail add_db (fst a) (snd a) l c p) = Some (l', p') \<and>
      cl_wf l' \<and> mset (conds_of l') = add_mset c (mset (conds_of l)) \<and> fetched (cond_get_gen l' p') = Some c"
      using assms(3) by (auto simp: accepted_def fetched_def) }
  { assume "1024 \<le> size (mset (conds_of l))"
    then have "iCount l = 1024" using n b by simp
    with o show "accepted (cond_add_gen tail add_db (fst a) (snd a) l c p) = None"
      by (auto simp: accepted_def status_defs) }
qed

lemma store_del_law:
  assumes "cl_wf l" "fetched (cond_get_gen l p) = Some c" "\<And>l c. fst (del_db l c) = NoErr"
  shows "\<exists>l'. deleted (cond_del_gen del_db l p) = Some l' \<and> cl_wf l' \<and> mset (conds_of l) = add_mset c (mset (conds_of l'))"
proof -
  from assms(2) obtain s n where s: "get_set l (pCondSetNode p) = Some s" "get_cond s (pCondNode p) = Some n" "stCond n = c"
    by (auto simp: fetched_def cond_get_gen_def split: Option.bind_splits)
  obtain r calls where d: "del_db l (stCond n) = (r, calls)" by fastforce
  with assms(3) [of l "stCond n"] have "r = NoErr" by simp
  with cond_del_outcome [of l p s n del_db r calls, OF assms(1) s(1,2) d] s(3) show ?thesis by (auto simp: deleted_def)
qed

definition db_ok :: "db_stmt \<Rightarrow> status" where "db_ok st = NoErr"

lemma db_ok_calls [simp]:
  "fst (time_cond_add_db db_ok l c) = NoErr" "fst (time_cond_del_db db_ok l c) = NoErr"
  "fst (event_cond_add_db db_ok l2 c2) = NoErr" "fst (event_cond_del_db db_ok l2 c2) = NoErr"
  by (simp_all add: time_cond_add_db_def time_cond_del_db_def event_cond_add_db_def event_cond_del_db_def db_send_def db_write_def db_ok_def)

definition time_add :: "ptr \<times> ptr \<Rightarrow> time_cond \<Rightarrow> time_cond cond_list \<Rightarrow> (time_cond cond_list \<times> ptr_info) option" where
  "time_add a c l = accepted (time_cond_add db_ok (fst a) (snd a) l c no_info)"

definition event_add :: "ptr \<times> ptr \<Rightarrow> event_cond \<Rightarrow> event_cond cond_list \<Rightarrow> (event_cond cond_list \<times> ptr_info) option" where
  "event_add a c l = accepted (event_cond_add db_ok (fst a) (snd a) l c no_info)"

definition time_fetch :: "time_cond cond_list \<Rightarrow> ptr_info \<Rightarrow> time_cond option" where
  "time_fetch l p = fetched (time_cond_get l p)"

definition event_fetch :: "event_cond cond_list \<Rightarrow> ptr_info \<Rightarrow> event_cond option" where
  "event_fetch l p = fetched (event_cond_get l p)"

definition time_del :: "ptr_info \<Rightarrow> time_cond cond_list \<Rightarrow> time_cond cond_list option" where
  "time_del p l = deleted (time_cond_del db_ok l p)"

definition event_del :: "ptr_info \<Rightarrow> event_cond cond_list \<Rightarrow> event_cond cond_list option" where
  "event_del p l = deleted (event_cond_del db_ok l p)"

lemmas time_store_defs = time_add_def time_fetch_def time_del_def time_cond_add_def time_cond_get_def time_cond_del_def
lemmas event_store_defs = event_add_def event_fetch_def event_del_def event_cond_add_def event_cond_get_def event_cond_del_def

interpretation tc: bounded_store cl_wf "\<lambda>l. mset (conds_of l)" 1024 cl_fresh time_add time_fetch time_del
  by (unfold_locales; unfold time_store_defs; (rule store_laws store_del_law; simp)+)

interpretation ec: bounded_store cl_wf "\<lambda>l. mset (conds_of l)" 1024 cl_fresh event_add event_fetch event_del
  by (unfold_locales; unfold event_store_defs; (rule store_laws store_del_law; simp)+)

section \<open>Properties\<close>

definition event_example :: event_cond where
  "event_example = \<lparr>e_acDevId = ''d1'', e_acKey = ''k'', e_acTriggerType = ''InstantOnce'', acContinueTime = [],
     e_acValue = ''1'', acActive = ''Equ'', acLastValue = []\<rparr>"

definition event_list_example :: "event_cond cond_list" where
  "event_list_example = \<lparr>cl_addr = 9, stCondInfo = \<lparr>ci_acId = ''s1'', acLogic = ''And'', acCondType = ''Event''\<rparr>,
     ucInitFlag = 0, iCount = 1, uiCondSetTrue = 0,
     sets = [\<lparr>sn_addr = 10, iCondSetIndex = 0, uiCondTrue = 0, ucCondCount = 1,
        pstCond = [\<lparr>cn_addr = 11, iCondIndex = 0, stCond = event_example\<rparr>]\<rparr>]\<rparr>"

definition time_example :: time_cond where
  "time_example = \<lparr>acTimeKey = ''t1'', t_acTriggerType = ''Start'', acTriggerInterval = ''0'', iTriggerInterval = 0,
     acStartHour = ''8'', acStartMinu = ''0'', acEndHour = ''9'', acEndMinu = ''30'', acWeek = ''1,2'',
     acRepeat = ''1'', acLose = ''0''\<rparr>"

definition time_list_example :: "time_cond cond_list" where
  "time_list_example = \<lparr>cl_addr = 9, stCondInfo = \<lparr>ci_acId = ''s1'', acLogic = ''And'', acCondType = ''Time''\<rparr>,
     ucInitFlag = 0, iCount = 2, uiCondSetTrue = 0,
     sets = [\<lparr>sn_addr = 10, iCondSetIndex = 0, uiCondTrue = 0, ucCondCount = 2,
        pstCond = [\<lparr>cn_addr = 11, iCondIndex = 0, stCond = time_example\<lparr>acTimeKey := ''t0''\<rparr>\<rparr>,
                   \<lparr>cn_addr = 12, iCondIndex = 1, stCond = time_example\<rparr>]\<rparr>]\<rparr>"

lemma example_wf: "cl_wf event_list_example" "cl_wf time_list_example"
  by (auto simp: cl_wf_def set_wf_def conds_of_def event_list_example_def time_list_example_def less_Suc_eq nth_Cons')

lemma example_addrs [simp]:
  "set_addrs event_list_example = {10}" "cond_addrs event_list_example = {11}"
  "set_addrs time_list_example = {10}" "cond_addrs time_list_example = {11, 12}"
  by (auto simp: set_addrs_def cond_addrs_def event_list_example_def time_list_example_def)

text \<open>Adding an event condition to a well-formed list that holds 1024 conditions is refused with
  \<open>SceneAddErr\<close> and changes nothing. Otherwise the condition is stored, the list stays well-formed,
  the handle that is handed out fetches exactly this condition, and one row is inserted into the data
  base (none while the list is initialised from it). When the data base refuses the row, the status
  is \<open>SceneAddErr\<close> although the condition stays in memory.\<close>

theorem event_cond_add_outcome:
  assumes "cl_wf l" "ps \<noteq> NULL" "pc \<noteq> NULL" "ps \<notin> set_addrs l" "pc \<notin> cond_addrs l"
  shows "if iCount l = 1024 then event_cond_add db ps pc l c p = Some (SceneAddErr, l, p, [])
    else \<exists>st l' p' calls. event_cond_add db ps pc l c p = Some (st, l', p', calls) \<and>
      cl_wf l' \<and> mset (conds_of l') = add_mset c (mset (conds_of l)) \<and> event_cond_get l' p' = Some (NoErr, c) \<and>
      length calls = (if ucInitFlag l = 1 then 0 else 1) \<and>
      (st = NoErr \<longleftrightarrow> (\<forall>q \<in> set calls. db q = NoErr)) \<and> (st \<noteq> NoErr \<longrightarrow> st = SceneAddErr)"
proof (cases "iCount l = 1024")
  case True
  with cond_add_outcome [OF assms, of False "event_cond_add_db db" c p] show ?thesis by (simp add: event_cond_add_def)
next
  case False
  with cond_add_outcome [OF assms, of False "event_cond_add_db db" c p] obtain l' p' where
    "event_cond_add db ps pc l c p = Some (fst (event_cond_add_db db l' c), l', p', snd (event_cond_add_db db l' c))"
    "cl_wf l'" "mset (conds_of l') = add_mset c (mset (conds_of l))" "event_cond_get l' p' = Some (NoErr, c)"
    "ucInitFlag l' = ucInitFlag l"
    by (auto simp: event_cond_add_def event_cond_get_def)
  with False show ?thesis by (auto simp: event_cond_add_db_def db_send_def db_write_def status_defs)
qed

theorem event_cond_add_outcome_witness:
  "\<exists>st l' p' calls. event_cond_add (\<lambda>q. NotFoundErr) 20 21 event_list_example event_example no_info = Some (st, l', p', calls) \<and>
     st = SceneAddErr \<and> mset (conds_of l') = {#event_example, event_example#}"
proof -
  have n: "iCount event_list_example \<noteq> 1024" "mset (conds_of event_list_example) = {#event_example#}"
    "ucInitFlag event_list_example = 0" "NotFoundErr \<noteq> NoErr"
    by (simp_all add: event_list_example_def conds_of_def status_defs)
  have "(20 :: nat) \<noteq> NULL" "(21 :: nat) \<noteq> NULL" by (simp_all add:)
  from event_cond_add_outcome [OF example_wf(1) this, of "\<lambda>q. NotFoundErr" event_example no_info] n
  obtain st l' p' calls where
    r: "event_cond_add (\<lambda>q. NotFoundErr) 20 21 event_list_example event_example no_info = Some (st, l', p', calls)"
      "mset (conds_of l') = add_mset event_example {#event_example#}" "length calls = 1"
      "st = NoErr \<longleftrightarrow> (\<forall>q \<in> set calls. NotFoundErr = NoErr)" "st \<noteq> NoErr \<longrightarrow> st = SceneAddErr"
    by auto
  from r(3) have "calls \<noteq> []" by auto
  then have "st \<noteq> NoErr" using r(4) n(4) by (cases calls) auto
  with r show ?thesis by auto
qed

text \<open>Deleting the time condition a handle refers to. When the data base refuses the statement,
  the status is \<open>SceneDelErr\<close> and the list is unchanged; otherwise exactly this condition leaves the
  list, which stays well-formed: counts and positions are adjusted, and a set that becomes empty is
  removed.\<close>

theorem time_cond_del_outcome:
  assumes "cl_wf l" "time_cond_get l p = Some (st, c)"
  shows "\<exists>r calls. time_cond_del_db db l c = (r, calls) \<and>
    (if r \<noteq> NoErr then time_cond_del db l p = Some (SceneDelErr, l, calls)
     else \<exists>l'. time_cond_del db l p = Some (NoErr, l', calls) \<and> cl_wf l' \<and>
       mset (conds_of l) = add_mset c (mset (conds_of l')))"
proof -
  from assms(2) obtain s n where s: "get_set l (pCondSetNode p) = Some s" "get_cond s (pCondNode p) = Some n" "stCond n = c"
    by (auto simp: time_cond_get_def cond_get_gen_def split: Option.bind_splits)
  obtain r calls where d: "time_cond_del_db db l (stCond n) = (r, calls)" by fastforce
  from cond_del_outcome [of l p s n "time_cond_del_db db" r calls, OF assms(1) s(1,2) d] s(3) d show ?thesis by (auto simp: time_cond_del_def)
qed

theorem time_cond_del_outcome_witness:
  "\<exists>l' calls. time_cond_del db_ok time_list_example (no_info\<lparr>pCondSetNode := 10, pCondNode := 11\<rparr>) = Some (NoErr, l', calls) \<and>
     cl_wf l' \<and> mset (conds_of l') = {#time_example#}"
proof -
  have g: "time_cond_get time_list_example (no_info\<lparr>pCondSetNode := 10, pCondNode := 11\<rparr>) = Some (NoErr, time_example\<lparr>acTimeKey := ''t0''\<rparr>)"
    by (simp add: time_cond_get_def cond_get_gen_def get_set_def get_cond_def time_list_example_def no_info_def)
  have m: "mset (conds_of time_list_example) = add_mset (time_example\<lparr>acTimeKey := ''t0''\<rparr>) {#time_example#}"
    by (simp add: conds_of_def time_list_example_def)
  have d: "\<And>r calls. time_cond_del_db db_ok time_list_example (time_example\<lparr>acTimeKey := ''t0''\<rparr>) = (r, calls) \<Longrightarrow> r = NoErr"
    using db_ok_calls(2) [of time_list_example "time_example\<lparr>acTimeKey := ''t0''\<rparr>"] by simp
  from time_cond_del_outcome [OF example_wf(2) g, of db_ok] d m show ?thesis by auto
qed

text \<open>Round trip for both kinds of condition: a condition that was added with a working data base
  can be fetched with its handle, and deleting it with that handle restores the stored collection.\<close>

theorem cond_add_del_roundtrip:
  assumes "cl_wf lt" "cl_fresh a lt" "iCount lt < 1024" "cl_wf le" "cl_fresh b le" "iCount le < 1024"
  shows "(\<exists>l1 p l2. time_add a c lt = Some (l1, p) \<and> time_fetch l1 p = Some c \<and> time_del p l1 = Some l2 \<and>
      cl_wf l2 \<and> mset (conds_of l2) = mset (conds_of lt)) \<and>
    (\<exists>l1 p l2. event_add b d le = Some (l1, p) \<and> event_fetch l1 p = Some d \<and> event_del p l1 = Some l2 \<and>
      cl_wf l2 \<and> mset (conds_of l2) = mset (conds_of le))"
proof -
  have "size (mset (conds_of lt)) < 1024" "size (mset (conds_of le)) < 1024"
    using assms by (simp_all add: cl_wf_def)
  then show ?thesis using tc.add_del_roundtrip [OF assms(1,2)] ec.add_del_roundtrip [OF assms(4,5)] by blast
qed

theorem cond_add_del_roundtrip_witness:
  "\<exists>l1 p l2. event_add (20, 21) event_example event_list_example = Some (l1, p) \<and> event_del p l1 = Some l2 \<and>
     mset (conds_of l2) = {#event_example#}"
proof -
  have f: "cl_fresh (20, 21) event_list_example" "cl_fresh (20, 21) time_list_example"
    by (simp_all add: cl_fresh_def)
  have i: "iCount event_list_example < 1024" "iCount time_list_example < 1024" "mset (conds_of event_list_example) = {#event_example#}"
    by (simp_all add: event_list_example_def time_list_example_def conds_of_def)
  from cond_add_del_roundtrip [OF example_wf(2) f(2) i(2) example_wf(1) f(1) i(1), of time_example event_example] i(3)
  show ?thesis by auto
qed

text \<open>Reading a list into an array of \<open>iMax\<close> entries returns the first \<open>iMax\<close> conditions in the
  order of the sets and of the chains, never more, and always succeeds.\<close>

theorem cond_get_list_prefix:
  "time_cond_get_list lt iMax = (NoErr, take iMax (conds_of lt)) \<and>
   event_cond_get_list le iMax = (NoErr, take iMax (conds_of le))"
  by (simp add: time_cond_get_list_def event_cond_get_list_def get_list_take)

text \<open>When all sets of an event list are full, the new condition gets a set of its own at the head of the list, and every other set moves
  back by one place; but the word with the truth of the sets stays as it is, so that each bit tells from then on of the set before
  the one it was computed for.\<close>

theorem new_event_set_shifts_truth:
  assumes "\<forall>t \<in> set (sets l). ucCondCount t = 32" "length (sets l) < 32" "iCount l \<noteq> 0" "ps \<noteq> NULL" "pc \<noteq> NULL"
  shows "\<exists>r l' p' calls. event_cond_add db ps pc l c p = Some (r, l', p', calls) \<and> uiCondSetTrue l' = uiCondSetTrue l \<and>
    map sn_addr (sets l') = ps # map sn_addr (sets l)"
proof -
  have "List.find (\<lambda>s. ucCondCount s < 32) (sets l) = None" using assms(1) by (simp add: find_None_iff)
  then have p: "cond_place False ps l = Some (Inr (cond_list_update_index (l\<lparr>sets := new_set ps # sets l\<rparr>), ps))"
    using assms(2,4) by (simp add: cond_place_def list_size_def)
  let ?l = "cond_append ps pc c (cond_list_update_index (l\<lparr>sets := new_set ps # sets l\<rparr>))"
  have a: "map sn_addr (map (\<lambda>s. if sn_addr s = ps then set_append pc c s else s) ss) = map sn_addr ss" for ss :: "event_cond cond_set list"
    by (induction ss) (auto simp: set_append_def)
  have "uiCondSetTrue ?l = uiCondSetTrue l" using assms(3) by (simp add: cond_append_def cond_list_update_index_def upd_set_def Let_def)
  moreover have "sets ?l = map (\<lambda>s. if sn_addr s = ps then set_append pc c s else s) (renumber 0 (new_set ps # sets l))"
    by (simp add: cond_append_def cond_list_update_index_def upd_set_def Let_def)
  then have "map sn_addr (sets ?l) = ps # map sn_addr (sets l)" unfolding a
    using renumber_map [of sn_addr 0 "new_set ps # sets l"] by (simp only: a) (simp add: new_set_def)
  ultimately show ?thesis using p assms(5) by (simp add: event_cond_add_def cond_add_gen_def Let_def split: prod.split)
qed

end
