(* ===== verification/Scene_Cond.thy ===== *)
theory Scene_Cond
  imports Complex_Main Cond_List
begin

text \<open>
  The truth of scene conditions: \<open>hylink/src/local_scene/scene_list.c\<close>, from
  \<open>_scene_time_cond_is_true\<close> to \<open>scene_time_cond_set_true_init\<close>. A scene has four condition lists (time
  and event conditions, each for the logics \<open>Or\<close> and \<open>And\<close>). Truth is cached on four levels: a bit per
  condition in \<open>uiCondTrue\<close> of its set, a bit per set in \<open>uiCondSetTrue\<close> of its list, a bit per list in
  \<open>ucCondListTrue\<close> of its logic (bit 0 time, bit 1 event), and \<open>ucSceneCondTrue\<close> of the scene. The
  \<open>init\<close> functions recompute all levels above a condition or a set, the \<open>update\<close> functions stop at the
  first level that does not change and trigger the scene.

  The functions for time and event conditions have the same text up to the type and the bit number;
  the common part is modelled once, with the record field that selects the list as a parameter.
  The pointers of a \<open>ptr_info\<close> are resolved by address in the scene; an address that is not there has
  no defined result. \<open>ucSceneCondTrue\<close> only ever holds 0 or 1 and is a \<open>bool\<close>. Executing a scene and
  starting a timer are recorded as effects. The panels of a scene are the chain of nodes that \<open>pstPanel\<close> points
  to; \<open>panelFreed\<close> records that the pointer is not null and its nodes have been freed.
\<close>

section \<open>Data\<close>

definition WEEK :: "string list" where
  "WEEK = [''Sun'', ''Mon'', ''Tue'', ''Wed'', ''Thu'', ''Fri'', ''Sat'']"

record scene_panel =
  sp_acDevId :: string
  sp_acKey :: string
  sp_acValue :: string
  sp_acEnable :: string

record cond_logic =
  ucCondListTrue :: u8
  pstTimeCondList :: "time_cond cond_list"
  pstEventCondList :: "event_cond cond_list"

record scene_info =
  acSceneId :: string
  acSceneName :: string
  cManualTriggerFlag :: int
  acSceneEnable :: string
  acExecDelayed :: string
  acUpdateTime :: string
  acNote :: string
  ucSceneCondTrue :: bool
  pstPanel :: "(ptr \<times> scene_panel) list"
  panelFreed :: bool
  stOrCond :: cond_logic
  stAndCond :: cond_logic
  pstAction :: ptr

datatype scene_effect =
    Exec_Scene
  | Start_Timer ptr_info int

section \<open>Evaluation of a time condition\<close>

record tm =
  tm_wday :: int
  tm_hour :: int
  tm_min :: int

fun week_index :: "string \<Rightarrow> int \<Rightarrow> string list \<Rightarrow> int" where
  "week_index w i [] = i"
| "week_index w i (d # ds) = (if strncmp w d WEEK_MAX_LEN \<noteq> 0 then week_index w (i + 1) ds else i)"

fun time_cond_loop :: "tm \<Rightarrow> string list \<Rightarrow> int \<Rightarrow> time_cond \<Rightarrow> int \<times> time_cond" where
  "time_cond_loop now [] iNewTrue c = (iNewTrue, c)"
| "time_cond_loop now (w # ws) iNewTrue c =
     (let i = week_index w 0 WEEK;
          start = time_cmp (tm_hour now) (tm_min now) (atoi (acStartHour c)) (atoi (acStartMinu c));
          stop = time_cmp (tm_hour now) (tm_min now) (atoi (acEndHour c)) (atoi (acEndMinu c)) in
      if start < 0 then time_cond_loop now ws iNewTrue c
      else if tm_wday now = i \<and> start \<ge> 0 \<and> stop \<le> 0 then time_cond_loop now ws (iNewTrue + 1) c
      else time_cond_loop now ws iNewTrue
             (if atoi (acRepeat c) = 0 then c\<lparr>acLose := strncpy ''1'' STATE_MAX_LEN\<rparr> else c))"

definition scene_time_cond_is_true :: "tm \<Rightarrow> time_cond \<Rightarrow> bool \<times> time_cond" where
  "scene_time_cond_is_true now c =
     (if strncmp (acLose c) ''1'' STATE_MAX_LEN = 0 then (False, c)
      else let (n, c') = time_cond_loop now (strtok (CHR '','') (strncpy (acWeek c) WEEK_MAX_LEN)) 0 c
           in (n \<noteq> 0, c'))"

section \<open>Evaluation of an event condition\<close>

text \<open>
  \<open>double\<close> values are rational numbers; \<open>rnd\<close> is the rounding to the nearest \<open>double\<close>, applied to the
  value of \<open>atof\<close>, to the constant and to the difference. Values outside the range of \<open>double\<close> are not
  considered. \<open>atof\<close> reads a decimal number with an optional exponent; for the other forms of the C
  standard (hexadecimal, infinity, not a number) the model has no result.
\<close>

fun frac_val :: "rat \<Rightarrow> rat \<Rightarrow> string \<Rightarrow> rat" where
  "frac_val acc u [] = acc"
| "frac_val acc u (c # cs) =
     (if is_digit c then frac_val (acc + u * of_int (int (of_char c) - 48)) (u / 10) cs else acc)"

definition exp_val :: "string \<Rightarrow> int" where
  "exp_val s = (case s of
       c # d # cs \<Rightarrow> if c = CHR ''e'' \<or> c = CHR ''E''
         then (if d = CHR ''-'' then - digits_val 0 cs
               else if d = CHR ''+'' then digits_val 0 cs else digits_val 0 (d # cs))
         else 0
     | _ \<Rightarrow> 0)"

definition pow10 :: "int \<Rightarrow> rat" where
  "pow10 e = (if e \<ge> 0 then 10 ^ nat e else 1 / 10 ^ nat (- e))"

definition unsigned_val :: "string \<Rightarrow> rat option" where
  "unsigned_val s = (case s of
       [] \<Rightarrow> Some 0
     | c # cs \<Rightarrow>
         if c \<in> {CHR ''i'', CHR ''I'', CHR ''n'', CHR ''N''} then None
         else if c = CHR ''0'' \<and> cs \<noteq> [] \<and> hd cs \<in> {CHR ''x'', CHR ''X''} then None
         else let ds = takeWhile is_digit s; r1 = dropWhile is_digit s;
                  fs = (case r1 of d # r \<Rightarrow> if d = CHR ''.'' then takeWhile is_digit r else [] | [] \<Rightarrow> []);
                  r2 = (case r1 of d # r \<Rightarrow> if d = CHR ''.'' then dropWhile is_digit r else r1 | [] \<Rightarrow> []) in
              if ds = [] \<and> fs = [] then Some 0
              else Some (frac_val (of_int (digits_val 0 ds)) (1 / 10) fs * pow10 (exp_val r2)))"

definition atof :: "(rat \<Rightarrow> rat) \<Rightarrow> string \<Rightarrow> rat option" where
  "atof rnd s = (case dropWhile isspace s of
       [] \<Rightarrow> Some 0
     | c # cs \<Rightarrow>
         map_option rnd (if c = CHR ''-'' then map_option uminus (unsigned_val cs)
                         else if c = CHR ''+'' then unsigned_val cs
                         else unsigned_val (c # cs)))"

definition active_is :: "event_cond \<Rightarrow> string \<Rightarrow> bool" where
  "active_is c op = (strncmp (acActive c) op ACTIVE_MAX_LEN = 0)"

definition scene_event_cond_is_true :: "(rat \<Rightarrow> rat) \<Rightarrow> event_cond \<Rightarrow> event \<Rightarrow> bool option" where
  "scene_event_cond_is_true rnd c e =
     (if is_int (e_acValue c) \<noteq> 0 then
        Some (if active_is c ''Equ'' then atoi (ev_acValue e) = atoi (e_acValue c)
              else if active_is c ''Gtr'' then atoi (ev_acValue e) > atoi (e_acValue c)
              else if active_is c ''Lss'' then atoi (ev_acValue e) < atoi (e_acValue c)
              else if active_is c ''Not'' then atoi (ev_acValue e) \<noteq> atoi (e_acValue c)
              else False)
      else if is_float (e_acValue c) \<noteq> 0 then
        (if active_is c ''Equ'' then do {
           x \<leftarrow> atof rnd (ev_acValue e); y \<leftarrow> atof rnd (e_acValue c); Some (\<bar>rnd (x - y)\<bar> < rnd (1 / 10000)) }
         else if active_is c ''Gtr'' then do {
           x \<leftarrow> atof rnd (ev_acValue e); y \<leftarrow> atof rnd (e_acValue c); Some (x > y) }
         else if active_is c ''Lss'' then do {
           x \<leftarrow> atof rnd (ev_acValue e); y \<leftarrow> atof rnd (e_acValue c); Some (x > y) }
         else if active_is c ''Not'' then do {
           x \<leftarrow> atof rnd (ev_acValue e); y \<leftarrow> atof rnd (e_acValue c); Some (\<bar>rnd (x - y)\<bar> > rnd (1 / 10000)) }
         else Some False)
      else
        (let iRet = strcmp (ev_acValue e) (e_acValue c) in
         Some (if active_is c ''Equ'' then iRet = 0
               else if active_is c ''Gtr'' then iRet > 0
               else if active_is c ''Lss'' then iRet < 0
               else if active_is c ''Not'' then iRet \<noteq> 0
               else False)))"

section \<open>Truth bits\<close>

text \<open>A shift by a negative amount or by 32 or more has no defined result.\<close>

definition bit_get :: "int \<Rightarrow> u32 \<Rightarrow> bool option" where
  "bit_get i w = (if 0 \<le> i \<and> i < 32 then Some (w AND push_bit (nat i) 1 \<noteq> 0) else None)"

definition bit_put :: "bool \<Rightarrow> int \<Rightarrow> u32 \<Rightarrow> u32 option" where
  "bit_put b i w = (if 0 \<le> i \<and> i < 32
     then Some (if b then w OR push_bit (nat i) 1 else w AND NOT (push_bit (nat i) 1)) else None)"

definition low_bits :: "int \<Rightarrow> u32 option" where
  "low_bits n = (if 0 < n \<and> n \<le> 32 then Some (drop_bit (nat (32 - n)) 0xFFFFFFFF) else None)"

text \<open>The truth of a group of \<open>n\<close> members with the truth bits \<open>w\<close>.\<close>

definition group_true :: "string \<Rightarrow> u32 \<Rightarrow> int \<Rightarrow> bool option" where
  "group_true logic w n = do {
     uiTmp \<leftarrow> low_bits n;
     Some (if strncmp logic ''Or'' LOGIC_MAX_LEN = 0 then w AND uiTmp \<noteq> 0 else (w AND uiTmp) = uiTmp)
   }"

definition list_bit_put :: "bool \<Rightarrow> nat \<Rightarrow> u8 \<Rightarrow> u8" where
  "list_bit_put b k w = (if b then w OR push_bit k 1 else w AND NOT (push_bit k 1))"

definition list_bit_get :: "nat \<Rightarrow> u8 \<Rightarrow> bool" where
  "list_bit_get k w = (w AND push_bit k 1 \<noteq> 0)"

text \<open>The truth of the scene from the truth of its four lists.\<close>

definition logic_count :: "cond_logic \<Rightarrow> int" where
  "logic_count c = iCount (pstTimeCondList c) + iCount (pstEventCondList c)"

definition scene_truth :: "scene_info \<Rightarrow> bool" where
  "scene_truth s =
     (let uiTmp = 3 in
      if logic_count (stOrCond s) = 0 \<and> logic_count (stAndCond s) = 0 then False
      else if logic_count (stOrCond s) \<noteq> 0 \<and> logic_count (stAndCond s) = 0 then
        ucCondListTrue (stOrCond s) AND uiTmp \<noteq> 0
      else if logic_count (stOrCond s) = 0 \<and> logic_count (stAndCond s) \<noteq> 0 then
        (ucCondListTrue (stAndCond s) AND uiTmp) = uiTmp
      else ucCondListTrue (stOrCond s) AND uiTmp \<noteq> 0 \<and> (ucCondListTrue (stAndCond s) AND uiTmp) = uiTmp)"

section \<open>Access to the lists of a scene\<close>

type_synonym 'c list_get = "cond_logic \<Rightarrow> 'c cond_list"
type_synonym 'c list_upd = "('c cond_list \<Rightarrow> 'c cond_list) \<Rightarrow> cond_logic \<Rightarrow> cond_logic"

definition find_list :: "'c list_get \<Rightarrow> scene_info \<Rightarrow> ptr \<Rightarrow> 'c cond_list option" where
  "find_list fget s a =
     (if cl_addr (fget (stOrCond s)) = a then Some (fget (stOrCond s))
      else if cl_addr (fget (stAndCond s)) = a then Some (fget (stAndCond s)) else None)"

definition put_list :: "'c list_get \<Rightarrow> 'c list_upd \<Rightarrow> ptr \<Rightarrow> 'c cond_list \<Rightarrow> scene_info \<Rightarrow> scene_info" where
  "put_list fget fupd a l s =
     (if cl_addr (fget (stOrCond s)) = a then s\<lparr>stOrCond := fupd (\<lambda>_. l) (stOrCond s)\<rparr>
      else s\<lparr>stAndCond := fupd (\<lambda>_. l) (stAndCond s)\<rparr>)"

definition sel_logic :: "'c cond_list \<Rightarrow> scene_info \<Rightarrow> cond_logic" where
  "sel_logic l s = (if strncmp (acLogic (stCondInfo l)) ''And'' LOGIC_MAX_LEN = 0 then stAndCond s else stOrCond s)"

definition put_list_true :: "'c cond_list \<Rightarrow> nat \<Rightarrow> bool \<Rightarrow> scene_info \<Rightarrow> scene_info" where
  "put_list_true l k b s =
     (if strncmp (acLogic (stCondInfo l)) ''And'' LOGIC_MAX_LEN = 0
      then s\<lparr>stAndCond := (stAndCond s)\<lparr>ucCondListTrue := list_bit_put b k (ucCondListTrue (stAndCond s))\<rparr>\<rparr>
      else s\<lparr>stOrCond := (stOrCond s)\<lparr>ucCondListTrue := list_bit_put b k (ucCondListTrue (stOrCond s))\<rparr>\<rparr>)"

section \<open>Initialisation: all levels are recomputed\<close>

definition cond_set_true_init :: "'c list_get \<Rightarrow> 'c list_upd \<Rightarrow> nat \<Rightarrow> bool \<Rightarrow> ptr_info \<Rightarrow> scene_info \<Rightarrow> scene_info option" where
  "cond_set_true_init fget fupd k iCondSetTrue p s = do {
     pstCondClass \<leftarrow> find_list fget s (pstCondList p);
     pstCondSetNode \<leftarrow> get_set pstCondClass (pCondSetNode p);
     w \<leftarrow> bit_put iCondSetTrue (iCondSetIndex pstCondSetNode) (uiCondSetTrue pstCondClass);
     let l1 = pstCondClass\<lparr>uiCondSetTrue := w\<rparr>;
     let s1 = put_list fget fupd (pstCondList p) l1 s;
     iNewCondListTrue \<leftarrow> group_true (acLogic (stCondInfo l1)) w (list_size l1);
     let s2 = put_list_true l1 k iNewCondListTrue s1;
     Some (s2\<lparr>ucSceneCondTrue := scene_truth s2\<rparr>)
   }"

definition cond_true_init :: "'c list_get \<Rightarrow> 'c list_upd \<Rightarrow> nat \<Rightarrow> bool \<Rightarrow> ptr_info \<Rightarrow> scene_info \<Rightarrow> scene_info option" where
  "cond_true_init fget fupd k iCondTrue p s = do {
     pstCondClass \<leftarrow> find_list fget s (pstCondList p);
     pstCondSetNode \<leftarrow> get_set pstCondClass (pCondSetNode p);
     pstCondNode \<leftarrow> get_cond pstCondSetNode (pCondNode p);
     w \<leftarrow> bit_put iCondTrue (iCondIndex pstCondNode) (uiCondTrue pstCondSetNode);
     let l1 = upd_set (pCondSetNode p) (\<lambda>t. t\<lparr>uiCondTrue := w\<rparr>) pstCondClass;
     let s1 = put_list fget fupd (pstCondList p) l1 s;
     iNewCondSetTrue \<leftarrow> group_true (acLogic (stCondInfo pstCondClass)) w (int (ucCondCount pstCondSetNode));
     cond_set_true_init fget fupd k iNewCondSetTrue p s1
   }"

definition scene_event_cond_true_init :: "bool \<Rightarrow> ptr_info \<Rightarrow> scene_info \<Rightarrow> scene_info option" where
  "scene_event_cond_true_init = cond_true_init pstEventCondList pstEventCondList_update 1"

definition scene_time_cond_true_init :: "bool \<Rightarrow> ptr_info \<Rightarrow> scene_info \<Rightarrow> scene_info option" where
  "scene_time_cond_true_init = cond_true_init pstTimeCondList pstTimeCondList_update 0"

definition scene_event_cond_set_true_init :: "bool \<Rightarrow> ptr_info \<Rightarrow> scene_info \<Rightarrow> scene_info option" where
  "scene_event_cond_set_true_init = cond_set_true_init pstEventCondList pstEventCondList_update 1"

definition scene_time_cond_set_true_init :: "bool \<Rightarrow> ptr_info \<Rightarrow> scene_info \<Rightarrow> scene_info option" where
  "scene_time_cond_set_true_init = cond_set_true_init pstTimeCondList pstTimeCondList_update 0"

section \<open>Update: the propagation stops at the first level that keeps its truth\<close>

text \<open>The result is the old truth of the condition and the scene.\<close>

definition cond_true_propagate :: "'c list_get \<Rightarrow> 'c list_upd \<Rightarrow> nat \<Rightarrow> bool \<Rightarrow> ptr_info \<Rightarrow> scene_info \<Rightarrow>
    (bool \<times> scene_info) option" where
  "cond_true_propagate fget fupd k iNewCondTrue p s = do {
     pstCondClass \<leftarrow> find_list fget s (pstCondList p);
     pstCondSetNode \<leftarrow> get_set pstCondClass (pCondSetNode p);
     pstCondNode \<leftarrow> get_cond pstCondSetNode (pCondNode p);
     iOldCondTrue \<leftarrow> bit_get (iCondIndex pstCondNode) (uiCondTrue pstCondSetNode);
     if iNewCondTrue = iOldCondTrue then Some (iOldCondTrue, s)
     else do {
       w \<leftarrow> bit_put iNewCondTrue (iCondIndex pstCondNode) (uiCondTrue pstCondSetNode);
       let l1 = upd_set (pCondSetNode p) (\<lambda>t. t\<lparr>uiCondTrue := w\<rparr>) pstCondClass;
       let s1 = put_list fget fupd (pstCondList p) l1 s;
       iNewCondSetTrue \<leftarrow> group_true (acLogic (stCondInfo pstCondClass)) w (int (ucCondCount pstCondSetNode));
       iOldCondSetTrue \<leftarrow> bit_get (iCondSetIndex pstCondSetNode) (uiCondSetTrue pstCondClass);
       if iNewCondSetTrue = iOldCondSetTrue then Some (iOldCondTrue, s1)
       else do {
         w2 \<leftarrow> bit_put iNewCondSetTrue (iCondSetIndex pstCondSetNode) (uiCondSetTrue pstCondClass);
         let l2 = l1\<lparr>uiCondSetTrue := w2\<rparr>;
         let s2 = put_list fget fupd (pstCondList p) l2 s1;
         iNewCondListTrue \<leftarrow> group_true (acLogic (stCondInfo l2)) w2 (list_size l2);
         let iOldCondListTrue = list_bit_get k (ucCondListTrue (sel_logic l2 s2));
         if iNewCondListTrue = iOldCondListTrue then Some (iOldCondTrue, s2)
         else do {
           let s3 = put_list_true l2 k iNewCondListTrue s2;
           let iNewSceneTrue = scene_truth s3;
           if iNewSceneTrue \<noteq> ucSceneCondTrue s3 then Some (iOldCondTrue, s3\<lparr>ucSceneCondTrue := iNewSceneTrue\<rparr>)
           else Some (iOldCondTrue, s3)
         }
       }
     }
   }"

definition cond_at :: "'c list_get \<Rightarrow> ptr_info \<Rightarrow> scene_info \<Rightarrow> 'c option" where
  "cond_at fget p s = do {
     l \<leftarrow> find_list fget s (pstCondList p);
     t \<leftarrow> get_set l (pCondSetNode p);
     n \<leftarrow> get_cond t (pCondNode p);
     Some (stCond n)
   }"

definition put_cond :: "'c list_get \<Rightarrow> 'c list_upd \<Rightarrow> ptr_info \<Rightarrow> ('c \<Rightarrow> 'c) \<Rightarrow> scene_info \<Rightarrow> scene_info option" where
  "put_cond fget fupd p f s = do {
     l \<leftarrow> find_list fget s (pstCondList p);
     Some (put_list fget fupd (pstCondList p) (upd_set (pCondSetNode p) (upd_cond (pCondNode p) f) l) s)
   }"

definition event_trigger :: "ptr_info \<Rightarrow> event_cond \<Rightarrow> scene_effect list" where
  "event_trigger p c =
     (if strstr (e_acTriggerType c) ''Continue'' then
        (if atoi (acContinueTime c) > 0 then [Start_Timer p (atoi (acContinueTime c))] else [Exec_Scene])
      else if strstr (e_acTriggerType c) ''Instant'' then [Exec_Scene]
      else [])"

definition event_cond_true_step :: "bool \<Rightarrow> ptr_info \<Rightarrow> scene_info \<Rightarrow> (scene_info \<times> scene_effect list) option" where
  "event_cond_true_step iNewCondTrue p s = do {
     c \<leftarrow> cond_at pstEventCondList p s;
     (iOldCondTrue, s1) \<leftarrow> cond_true_propagate pstEventCondList pstEventCondList_update 1 iNewCondTrue p s;
     Some (s1, if iNewCondTrue \<and> \<not> iOldCondTrue \<and> ucSceneCondTrue s1 then event_trigger p c else [])
   }"

definition scene_event_cond_true_update :: "bool \<Rightarrow> ptr_info \<Rightarrow> scene_info \<Rightarrow> (scene_info \<times> scene_effect list) option" where
  "scene_event_cond_true_update iNewCondTrue p s = do {
     c \<leftarrow> cond_at pstEventCondList p s;
     (s1, e1) \<leftarrow> event_cond_true_step iNewCondTrue p s;
     if strstr (e_acTriggerType c) ''Every'' \<and> iNewCondTrue then do {
       (s2, e2) \<leftarrow> event_cond_true_step False p s1;
       Some (s2, e1 @ e2)
     } else Some (s1, e1)
   }"

definition scene_time_cond_true_update :: "bool \<Rightarrow> ptr_info \<Rightarrow> scene_info \<Rightarrow> (scene_info \<times> scene_effect list) option" where
  "scene_time_cond_true_update iNewCondTrue p s = do {
     c \<leftarrow> cond_at pstTimeCondList p s;
     (iOldCondTrue, s1) \<leftarrow> cond_true_propagate pstTimeCondList pstTimeCondList_update 0 iNewCondTrue p s;
     let rearm = put_cond pstTimeCondList pstTimeCondList_update p
           (\<lambda>t. t\<lparr>iTriggerInterval := atoi (acTriggerInterval t) - 1\<rparr>) s1;
     if iNewCondTrue \<noteq> iOldCondTrue then
       (if iNewCondTrue \<and> \<not> iOldCondTrue \<and> ucSceneCondTrue s1 then do { s2 \<leftarrow> rearm; Some (s2, [Exec_Scene]) }
        else Some (s1, []))
     else if strstr (t_acTriggerType c) ''Every'' \<and> iNewCondTrue \<and> ucSceneCondTrue s1 then
       (if iTriggerInterval c \<le> 0 then do { s2 \<leftarrow> rearm; Some (s2, [Exec_Scene]) }
        else do {
          s2 \<leftarrow> put_cond pstTimeCondList pstTimeCondList_update p
                 (\<lambda>t. t\<lparr>iTriggerInterval := iTriggerInterval t - 1\<rparr>) s1;
          Some (s2, []) })
     else Some (s1, [])
   }"

text \<open>The timer task of a condition that has to hold for some time.\<close>

definition scene_continue_trigger_timer_fun :: "scene_info \<Rightarrow> scene_effect list" where
  "scene_continue_trigger_timer_fun s = (if ucSceneCondTrue s then [Exec_Scene] else [])"

section \<open>Truth bits: lemmas\<close>

lemma bit_get_iff: "0 \<le> i \<Longrightarrow> i < 32 \<Longrightarrow> bit_get i w = Some (bit w (nat i))"
  by (simp add: bit_get_def bit_iff_and_push_bit_not_eq_0)

lemma bit_put_bits:
  assumes "0 \<le> i" "i < 32"
  obtains w' where "bit_put b i w = Some w'" "\<And>j. j < 32 \<Longrightarrow> bit w' j \<longleftrightarrow> (if j = nat i then b else bit w j)"
proof -
  let ?w = "if b then w OR push_bit (nat i) 1 else w AND NOT (push_bit (nat i) 1)"
  have "bit_put b i w = Some ?w" using assms by (simp add: bit_put_def)
  moreover have "bit ?w j \<longleftrightarrow> (if j = nat i then b else bit w j)" if "j < 32" for j
    using that assms by (cases b) (auto simp: bit_or_iff bit_and_iff bit_not_iff bit_exp_iff)
  ultimately show ?thesis by (rule that)
qed

lemma bit_put_same:
  assumes "bit_get i w = Some b"
  shows "bit_put b i w = Some w"
proof -
  have i: "0 \<le> i" "i < 32" "bit w (nat i) = b"
    using assms by (auto simp: bit_get_def bit_iff_and_push_bit_not_eq_0 split: if_splits)
  obtain w' where w': "bit_put b i w = Some w'" "\<And>j. j < 32 \<Longrightarrow> bit w' j \<longleftrightarrow> (if j = nat i then b else bit w j)"
    using bit_put_bits [OF i(1,2)] by blast
  have "w' = w" by (rule bit_word_eqI) (use w'(2) i(3) in auto)
  with w'(1) show ?thesis by simp
qed

lemma low_bits_bits:
  assumes "0 < n" "n \<le> 32"
  obtains m where "low_bits (int n) = Some m" "\<And>j. bit m j \<longleftrightarrow> j < n"
proof -
  have f: "(0xFFFFFFFF :: u32) = - 1" by simp
  have "bit (drop_bit (32 - n) (- 1 :: u32)) j \<longleftrightarrow> j < n" for j
    using assms by (auto simp: bit_mask_iff)
  moreover have "low_bits (int n) = Some (drop_bit (32 - n) (- 1))"
    using assms unfolding low_bits_def f by (simp add: nat_diff_distrib)
  ultimately show ?thesis using that by blast
qed

lemma group_true_bits:
  assumes "0 < n" "n \<le> 32"
  shows "group_true logic w (int n) =
    Some (if logic = ''Or'' then \<exists>j < n. bit w j else \<forall>j < n. bit w j)"
proof -
  obtain m where m: "low_bits (int n) = Some m" "\<And>j. bit m j \<longleftrightarrow> j < n" using low_bits_bits [OF assms] by blast
  have "w AND m \<noteq> 0 \<longleftrightarrow> (\<exists>j < n. bit w j)"
    using m(2) bit_imp_le_length [of w] by (auto simp: bit_eq_iff bit_and_iff)
  moreover have "(w AND m) = m \<longleftrightarrow> (\<forall>j. bit (w AND m) j = bit m j)" by (metis bit_eqI)
  then have "(w AND m) = m \<longleftrightarrow> (\<forall>j < n. bit w j)" unfolding bit_and_iff m(2) by blast
  ultimately show ?thesis by (simp add: group_true_def m(1) strncmp_eq_0_lit len_defs)
qed

lemma list_bit_get_iff: "list_bit_get k w = bit w k"
  by (simp add: list_bit_get_def bit_iff_and_push_bit_not_eq_0)

lemma list_bit_put_bit: "k < 8 \<Longrightarrow> bit (list_bit_put b k w) j \<longleftrightarrow> (if j = k then b else bit w j)"
  by (cases b; cases "j < 8") (auto simp: list_bit_put_def bit_or_iff bit_and_iff bit_not_iff bit_exp_iff
      dest: bit_imp_le_length)

lemma list_bit_put_same: "k < 8 \<Longrightarrow> bit w k = b \<Longrightarrow> list_bit_put b k w = w"
  by (rule bit_word_eqI) (auto simp: list_bit_put_bit)

lemma two_bits:
  fixes w :: u8
  shows "w AND 3 \<noteq> 0 \<longleftrightarrow> bit w 0 \<or> bit w 1" "(w AND 3) = 3 \<longleftrightarrow> bit w 0 \<and> bit w 1"
proof -
  have b: "bit (3 :: u8) j \<longleftrightarrow> j = 0 \<or> j = 1" for j
  proof -
    have "(3 :: u8) = mask 2" by (simp add: mask_eq_exp_minus_1)
    then show ?thesis unfolding \<open>3 = mask 2\<close> by (auto simp: bit_mask_iff simp del: mask_numeral)
  qed
  have n: "bit (w AND 3) j \<longleftrightarrow> bit w j \<and> (j = 0 \<or> j = 1)" for j unfolding bit_and_iff b ..
  have "w AND 3 = 0 \<longleftrightarrow> (\<forall>j. \<not> bit (w AND 3) j)" by (metis bit_0_eq bot_apply bot_bool_def bit_eqI)
  then show "w AND 3 \<noteq> 0 \<longleftrightarrow> bit w 0 \<or> bit w 1" unfolding n by blast
  have "(w AND 3) = 3 \<longleftrightarrow> (\<forall>j. bit (w AND 3) j = bit (3 :: u8) j)" by (metis bit_eqI)
  then show "(w AND 3) = 3 \<longleftrightarrow> bit w 0 \<and> bit w 1" unfolding n b by blast
qed

section \<open>Specification and consistency\<close>

text \<open>What the truth values mean, read off the truth bits of the single conditions.\<close>

definition cond_truths :: "'c cond_set \<Rightarrow> bool list" where
  "cond_truths t = map (bit (uiCondTrue t)) [0..<length (pstCond t)]"

definition junction :: "bool \<Rightarrow> bool list \<Rightarrow> bool" where
  "junction any bs = (if any then True \<in> set bs else False \<notin> set bs)"

definition list_spec :: "bool \<Rightarrow> 'c cond_list \<Rightarrow> bool" where
  "list_spec any l = junction any (concat (map cond_truths (sets l)))"

definition has_cond :: "cond_logic \<Rightarrow> bool" where
  "has_cond c \<longleftrightarrow> sets (pstTimeCondList c) \<noteq> [] \<or> sets (pstEventCondList c) \<noteq> []"

definition scene_spec :: "scene_info \<Rightarrow> bool" where
  "scene_spec s \<longleftrightarrow> (has_cond (stOrCond s) \<or> has_cond (stAndCond s)) \<and>
     (has_cond (stOrCond s) \<longrightarrow> list_spec True (pstTimeCondList (stOrCond s)) \<or> list_spec True (pstEventCondList (stOrCond s))) \<and>
     list_spec False (pstTimeCondList (stAndCond s)) \<and> list_spec False (pstEventCondList (stAndCond s))"

definition list_ok :: "bool \<Rightarrow> 'c cond_list \<Rightarrow> bool \<Rightarrow> bool" where
  "list_ok any l b \<longleftrightarrow> cl_wf l \<and> acLogic (stCondInfo l) = (if any then ''Or'' else ''And'') \<and>
     (\<forall>x < length (sets l). bit (uiCondSetTrue l) x = junction any (cond_truths (sets l ! x))) \<and> b = list_spec any l"

definition logic_ok :: "bool \<Rightarrow> cond_logic \<Rightarrow> bool" where
  "logic_ok any c \<longleftrightarrow> list_ok any (pstTimeCondList c) (bit (ucCondListTrue c) 0) \<and>
     list_ok any (pstEventCondList c) (bit (ucCondListTrue c) 1)"

definition scene_ok :: "scene_info \<Rightarrow> bool" where
  "scene_ok s \<longleftrightarrow> logic_ok True (stOrCond s) \<and> logic_ok False (stAndCond s) \<and>
     cl_addr (pstTimeCondList (stOrCond s)) \<noteq> cl_addr (pstTimeCondList (stAndCond s)) \<and>
     cl_addr (pstEventCondList (stOrCond s)) \<noteq> cl_addr (pstEventCondList (stAndCond s)) \<and>
     ucSceneCondTrue s = scene_truth s"

lemma junction_concat: "junction any (concat bss) = junction any (map (junction any) bss)"
  by (auto simp: junction_def)

lemma junction_nth: "junction any bs = (if any then \<exists>j < length bs. bs ! j else \<forall>j < length bs. bs ! j)"
  unfolding junction_def in_set_conv_nth by (metis (full_types))

lemma wf_count: "cl_wf l \<Longrightarrow> iCount l = 0 \<longleftrightarrow> sets l = []"
  by (cases "sets l") (auto simp: cl_wf_def conds_of_def set_wf_def)

lemma wf_count_nonneg: "cl_wf l \<Longrightarrow> 0 \<le> iCount l"
  by (simp add: cl_wf_def)

lemma logic_count_0: "logic_ok any c \<Longrightarrow> logic_count c = 0 \<longleftrightarrow> \<not> has_cond c"
  using wf_count [of "pstTimeCondList c"] wf_count [of "pstEventCondList c"]
    wf_count_nonneg [of "pstTimeCondList c"] wf_count_nonneg [of "pstEventCondList c"]
  by (auto simp: logic_ok_def list_ok_def logic_count_def has_cond_def)

lemma scene_truth_spec:
  assumes "logic_ok True (stOrCond s)" "logic_ok False (stAndCond s)"
  shows "scene_truth s = scene_spec s"
proof -
  note c = logic_count_0 [OF assms(1)] logic_count_0 [OF assms(2)]
  have b: "bit (ucCondListTrue (stOrCond s)) 0 = list_spec True (pstTimeCondList (stOrCond s))"
    "bit (ucCondListTrue (stOrCond s)) 1 = list_spec True (pstEventCondList (stOrCond s))"
    "bit (ucCondListTrue (stAndCond s)) 0 = list_spec False (pstTimeCondList (stAndCond s))"
    "bit (ucCondListTrue (stAndCond s)) 1 = list_spec False (pstEventCondList (stAndCond s))"
    using assms by (auto simp: logic_ok_def list_ok_def)
  have e: "\<not> has_cond (stAndCond s) \<Longrightarrow> list_spec False (pstTimeCondList (stAndCond s)) \<and> list_spec False (pstEventCondList (stAndCond s))"
    by (simp add: has_cond_def list_spec_def junction_def)
  show ?thesis unfolding scene_truth_def Let_def two_bits b c scene_spec_def using e by auto
qed

section \<open>One list\<close>

lemma set_group_true:
  assumes "set_wf t" "logic = (if any then ''Or'' else ''And'')"
  shows "group_true logic w (int (ucCondCount t)) = Some (junction any (cond_truths (t\<lparr>uiCondTrue := w\<rparr>)))"
proof -
  have n: "0 < length (pstCond t)" "length (pstCond t) \<le> 32" "ucCondCount t = length (pstCond t)"
    using assms(1) unfolding set_wf_def by linarith+
  have "junction any (cond_truths (t\<lparr>uiCondTrue := w\<rparr>)) =
      (if any then \<exists>j < length (pstCond t). bit w j else \<forall>j < length (pstCond t). bit w j)"
    by (auto simp: junction_def cond_truths_def)
  then show ?thesis using group_true_bits [OF n(1,2), of logic w] n(3) assms(2) by simp
qed

lemma list_group_true:
  assumes "cl_wf l" "sets l \<noteq> []" "logic = (if any then ''Or'' else ''And'')"
    "\<And>x. x < length (sets l) \<Longrightarrow> bit w x = junction any (cond_truths (sets l ! x))"
  shows "group_true logic w (list_size l) = Some (list_spec any l)"
proof -
  have n: "0 < length (sets l)" "length (sets l) \<le> 32" using assms(1,2) by (auto simp: cl_wf_def)
  have "list_spec any l = junction any (map (junction any \<circ> cond_truths) (sets l))"
    by (simp add: list_spec_def junction_concat)
  then show ?thesis using group_true_bits [OF n, of logic w] assms(3,4) by (auto simp: list_size_def junction_nth)
qed

text \<open>The place of a condition in its list.\<close>

definition placed :: "'c cond_list \<Rightarrow> ptr_info \<Rightarrow> nat \<Rightarrow> nat \<Rightarrow> 'c cond_set \<Rightarrow> 'c cond_node \<Rightarrow> bool" where
  "placed l p x y t n \<longleftrightarrow> x < length (sets l) \<and> x < 32 \<and> sets l ! x = t \<and> sn_addr t = pCondSetNode p \<and> iCondSetIndex t = int x \<and>
     set_wf t \<and> y < length (pstCond t) \<and> y < 32 \<and> pstCond t ! y = n \<and> cn_addr n = pCondNode p \<and> iCondIndex n = int y"

lemma placed_ex:
  assumes "cl_wf l" "get_set l (pCondSetNode p) = Some t" "get_cond t (pCondNode p) = Some n"
  shows "\<exists>x y. placed l p x y t n"
proof -
  obtain x where x: "x < length (sets l)" "sets l ! x = t" "sn_addr t = pCondSetNode p"
    by (rule get_set_position [OF assms(2)])
  obtain y where y: "y < length (pstCond t)" "pstCond t ! y = n" "cn_addr n = pCondNode p"
    by (rule get_cond_position [OF assms(3)])
  have t: "set_wf t" "iCondSetIndex t = int x" "x < 32" using assms(1) x by (auto simp: cl_wf_def)
  have "iCondIndex n = int y" "y < 32" using t(1) y by (auto simp: set_wf_def)
  with x y t show ?thesis unfolding placed_def by blast
qed

text \<open>The list after the truth of a condition was set and the truth of its set recomputed.\<close>

definition list_after :: "'c cond_list \<Rightarrow> nat \<Rightarrow> u32 \<Rightarrow> u32 \<Rightarrow> 'c cond_list" where
  "list_after l x w w2 = l\<lparr>sets := (sets l)[x := (sets l ! x)\<lparr>uiCondTrue := w\<rparr>], uiCondSetTrue := w2\<rparr>"

lemma list_after_wf: "cl_wf l \<Longrightarrow> x < length (sets l) \<Longrightarrow> cl_wf (list_after l x w w2)"
  by (rule append_upd_wf [of l x "(sets l ! x)\<lparr>uiCondTrue := w\<rparr>"])
    (auto simp: list_after_def set_conds_def set_wf_def cl_wf_def)

text \<open>Everything is right but the cached truth of the set at \<open>x\<close>.\<close>

definition list_almost :: "bool \<Rightarrow> 'c cond_list \<Rightarrow> nat \<Rightarrow> bool" where
  "list_almost any l x \<longleftrightarrow> cl_wf l \<and> acLogic (stCondInfo l) = (if any then ''Or'' else ''And'') \<and>
     (\<forall>i < length (sets l). i \<noteq> x \<longrightarrow> bit (uiCondSetTrue l) i = junction any (cond_truths (sets l ! i)))"

lemma list_ok_almost: "list_ok any l b \<Longrightarrow> list_almost any l x"
  by (simp add: list_ok_def list_almost_def)

lemma list_after_ok:
  assumes "list_almost any l x" "placed l p x y t n"
    "\<And>i. i < 32 \<Longrightarrow> bit w2 i \<longleftrightarrow> (if i = x then junction any (cond_truths (t\<lparr>uiCondTrue := w\<rparr>)) else bit (uiCondSetTrue l) i)"
    "l2 = list_after l x w w2"
  shows "list_ok any l2 (list_spec any l2)" "group_true (acLogic (stCondInfo l2)) w2 (list_size l2) = Some (list_spec any l2)"
proof -
  have l: "cl_wf l" "acLogic (stCondInfo l) = (if any then ''Or'' else ''And'')"
    "\<And>i. i < length (sets l) \<Longrightarrow> i \<noteq> x \<Longrightarrow> bit (uiCondSetTrue l) i = junction any (cond_truths (sets l ! i))" "length (sets l) \<le> 32"
    using assms(1) by (auto simp: list_almost_def cl_wf_def)
  have x: "x < length (sets l)" "sets l ! x = t" using assms(2) by (auto simp: placed_def)
  have bits: "bit w2 i = junction any (cond_truths (sets l2 ! i))" if i: "i < length (sets l2)" for i
    using i x l(3,4) assms(3) [of i] assms(4) by (auto simp: list_after_def nth_list_update)
  have wf: "cl_wf l2" using list_after_wf [OF l(1) x(1)] assms(4) by simp
  have lg: "acLogic (stCondInfo l2) = (if any then ''Or'' else ''And'')" "uiCondSetTrue l2 = w2" "sets l2 \<noteq> []"
    using l(2) x(1) assms(4) by (auto simp: list_after_def)
  show "list_ok any l2 (list_spec any l2)" using wf lg bits by (simp add: list_ok_def)
  show "group_true (acLogic (stCondInfo l2)) w2 (list_size l2) = Some (list_spec any l2)"
    by (rule list_group_true [OF wf lg(3,1) bits])
qed

section \<open>Both kinds of condition\<close>

text \<open>The scene after the truth of a list was set and the truth of the scene recomputed.\<close>

definition finish :: "'c list_get \<Rightarrow> 'c list_upd \<Rightarrow> nat \<Rightarrow> ptr \<Rightarrow> 'c cond_list \<Rightarrow> bool \<Rightarrow> scene_info \<Rightarrow> scene_info" where
  "finish fget fupd k a l b s =
     (let s2 = put_list_true l k b (put_list fget fupd a l s) in s2\<lparr>ucSceneCondTrue := scene_truth s2\<rparr>)"

text \<open>The truth bit of the condition that a pointer record refers to.\<close>

definition cond_truth :: "'c list_get \<Rightarrow> ptr_info \<Rightarrow> scene_info \<Rightarrow> bool option" where
  "cond_truth fget p s = do {
     l \<leftarrow> find_list fget s (pstCondList p);
     t \<leftarrow> get_set l (pCondSetNode p);
     n \<leftarrow> get_cond t (pCondNode p);
     bit_get (iCondIndex n) (uiCondTrue t)
   }"

text \<open>A kind of condition: the list field it uses, its bit, and the other list field.\<close>

locale cond_kind =
  fixes fget :: "'c list_get" and fupd :: "'c list_upd" and k :: nat
    and oget :: "'d list_get" and j :: nat
  assumes get_upd: "fget (fupd f c) = f (fget c)"
    and oget_upd: "oget (fupd f c) = oget c"
    and true_upd: "ucCondListTrue (fupd f c) = ucCondListTrue c"
    and get_true: "fget (c\<lparr>ucCondListTrue := w\<rparr>) = fget c" "oget (c\<lparr>ucCondListTrue := w\<rparr>) = oget c"
    and upd_id: "fupd (\<lambda>_. fget c) c = c"
    and upd_upd: "fupd (\<lambda>_. l) (fupd (\<lambda>_. l') c) = fupd (\<lambda>_. l) c"
    and bits: "k < 8" "j \<noteq> k"
    and logic_ok_kind: "logic_ok any c \<longleftrightarrow> list_ok any (fget c) (bit (ucCondListTrue c) k) \<and>
      list_ok any (oget c) (bit (ucCondListTrue c) j)"
    and count_kind: "logic_count c = iCount (fget c) + iCount (oget c)"
    and addr_kind: "scene_ok s \<longleftrightarrow> logic_ok True (stOrCond s) \<and> logic_ok False (stAndCond s) \<and>
      cl_addr (fget (stOrCond s)) \<noteq> cl_addr (fget (stAndCond s)) \<and>
      cl_addr (oget (stOrCond s)) \<noteq> cl_addr (oget (stAndCond s)) \<and> ucSceneCondTrue s = scene_truth s"
begin

lemmas kind_simps = get_upd oget_upd true_upd get_true upd_id upd_upd

lemma truth_kept:
  assumes "find_list fget s a = Some l" "iCount l' = iCount l"
  shows "scene_truth (put_list fget fupd a l' s) = scene_truth s"
proof -
  have "logic_count (stOrCond (put_list fget fupd a l' s)) = logic_count (stOrCond s)"
    "logic_count (stAndCond (put_list fget fupd a l' s)) = logic_count (stAndCond s)"
    using assms by (auto simp: put_list_def find_list_def count_kind kind_simps split: if_splits)
  then show ?thesis unfolding scene_truth_def by (simp add: put_list_def kind_simps)
qed

lemma put_list_same: "find_list fget s a = Some l \<Longrightarrow> put_list fget fupd a l s = s"
  by (auto simp: find_list_def put_list_def kind_simps split: if_splits)

lemma put_list_twice:
  "find_list fget s a = Some l \<Longrightarrow> cl_addr l' = a \<Longrightarrow> put_list fget fupd a l2 (put_list fget fupd a l' s) = put_list fget fupd a l2 s"
  by (auto simp: find_list_def put_list_def kind_simps split: if_splits)

lemma find_put:
  "find_list fget s a = Some l \<Longrightarrow> cl_addr l' = a \<Longrightarrow> find_list fget (put_list fget fupd a l' s) a = Some l'"
  by (auto simp: find_list_def put_list_def kind_simps split: if_splits)

text \<open>The side of the scene a list belongs to.\<close>

lemma side_of:
  assumes "scene_ok s" "find_list fget s a = Some l"
  obtains any where "list_ok any l (bit (ucCondListTrue (sel_logic l s)) k)" "cl_addr l = a"
    "any \<longleftrightarrow> cl_addr (fget (stOrCond s)) = a"
  using assms by (auto simp: addr_kind logic_ok_kind list_ok_def sel_logic_def find_list_def strncmp_eq_0_lit len_defs
      split: if_splits)

lemma finish_ok:
  assumes "scene_ok s" "find_list fget s a = Some l" "cl_addr l' = a"
    "list_ok (cl_addr (fget (stOrCond s)) = a) l' b"
  shows "scene_ok (finish fget fupd k a l' b s)"
proof -
  have t: "scene_truth (s\<lparr>ucSceneCondTrue := v\<rparr>) = scene_truth s" for v s by (simp add: scene_truth_def)
  show ?thesis
    using assms bits unfolding finish_def Let_def addr_kind t
    by (auto simp: put_list_def put_list_true_def kind_simps logic_ok_kind list_bit_put_bit find_list_def list_ok_def
        strncmp_eq_0_lit len_defs split: if_splits)
qed

end

interpretation event_kind: cond_kind pstEventCondList pstEventCondList_update 1 pstTimeCondList 0
  by unfold_locales (auto simp: logic_ok_def logic_count_def scene_ok_def)

interpretation time_kind: cond_kind pstTimeCondList pstTimeCondList_update 0 pstEventCondList 1
  by unfold_locales (auto simp: logic_ok_def logic_count_def scene_ok_def)

lemma upd_set_placed:
  assumes "cl_wf l" "placed l p x y t n" "l1 = upd_set (pCondSetNode p) (\<lambda>t. t\<lparr>uiCondTrue := w\<rparr>) l"
  shows "l1\<lparr>uiCondSetTrue := w2\<rparr> = list_after l x w w2" "get_set l1 (pCondSetNode p) = Some (t\<lparr>uiCondTrue := w\<rparr>)"
    "cl_addr l1 = cl_addr l" "iCount l1 = iCount l" "uiCondSetTrue l1 = uiCondSetTrue l" "stCondInfo l1 = stCondInfo l"
    "w = uiCondTrue t \<Longrightarrow> l1 = l"
proof -
  have x: "x < length (sets l)" "sets l ! x = t" "sn_addr t = pCondSetNode p" using assms(2) by (auto simp: placed_def)
  have d: "distinct (map sn_addr (sets l))" using assms(1) by (simp add: cl_wf_def)
  have l1: "l1 = l\<lparr>sets := (sets l)[x := t\<lparr>uiCondTrue := w\<rparr>]\<rparr>"
    using upd_set_position(1) [OF d x(1)] x assms(3) by simp
  then show "l1\<lparr>uiCondSetTrue := w2\<rparr> = list_after l x w w2" using x by (simp add: list_after_def)
  show "cl_addr l1 = cl_addr l" "iCount l1 = iCount l" "uiCondSetTrue l1 = uiCondSetTrue l" "stCondInfo l1 = stCondInfo l"
    using l1 by simp_all
  have "distinct (map sn_addr (sets l1))" using d x unfolding l1 by (metis (no_types, lifting) cond_list.select_convs(6)
      cond_list.surjective cond_list.update_convs(6) cond_set.select_convs(1) cond_set.surjective cond_set.update_convs(3)
      list_update_id map_update nth_map)
  moreover have "x < length (sets l1)" "sets l1 ! x = t\<lparr>uiCondTrue := w\<rparr>" using x l1 by simp_all
  ultimately show "get_set l1 (pCondSetNode p) = Some (t\<lparr>uiCondTrue := w\<rparr>)"
    using upd_set_position(2) [of l1 x "pCondSetNode p"] x(3) by simp
  show "w = uiCondTrue t \<Longrightarrow> l1 = l" using l1 list_update_id [of "sets l" x] x(2) by simp
qed

context cond_kind
begin

text \<open>The result of the initialisation, with the words it writes, for a list that has just been put in the
  place of another.\<close>

lemma init_result_new:
  assumes l0: "find_list fget s (pstCondList p) = Some l0" and a: "cl_addr l = pstCondList p"
    and t: "get_set l (pCondSetNode p) = Some t" and n: "get_cond t (pCondNode p) = Some n"
    and pl: "placed l p x y t n" and lo: "list_almost any l x"
  obtains w w2 where "bit_put b (int y) (uiCondTrue t) = Some w"
    "\<And>i. i < 32 \<Longrightarrow> bit w i \<longleftrightarrow> (if i = y then b else bit (uiCondTrue t) i)"
    "bit_put (junction any (cond_truths (t\<lparr>uiCondTrue := w\<rparr>))) (int x) (uiCondSetTrue l) = Some w2"
    "list_ok any (list_after l x w w2) (list_spec any (list_after l x w w2))"
    "cond_true_init fget fupd k b p (put_list fget fupd (pstCondList p) l s) =
      Some (finish fget fupd k (pstCondList p) (list_after l x w w2) (list_spec any (list_after l x w w2)) s)"
    "group_true (acLogic (stCondInfo l)) w2 (list_size (list_after l x w w2)) = Some (list_spec any (list_after l x w w2))"
proof -
  have pos: "x < 32" "y < 32" "iCondSetIndex t = int x" "iCondIndex n = int y" "set_wf t" "y < length (pstCond t)"
    using pl by (auto simp: placed_def)
  have wf: "cl_wf l" "acLogic (stCondInfo l) = (if any then ''Or'' else ''And'')" using lo by (auto simp: list_almost_def)
  let ?s = "put_list fget fupd (pstCondList p) l s"
  have l: "find_list fget ?s (pstCondList p) = Some l" using find_put [OF l0 a] .
  obtain w where w: "bit_put b (int y) (uiCondTrue t) = Some w"
    "\<And>i. i < 32 \<Longrightarrow> bit w i \<longleftrightarrow> (if i = y then b else bit (uiCondTrue t) i)"
    using bit_put_bits [of "int y" b "uiCondTrue t"] pos(2) by auto
  let ?t = "t\<lparr>uiCondTrue := w\<rparr>"
  obtain w2 where w2: "bit_put (junction any (cond_truths ?t)) (int x) (uiCondSetTrue l) = Some w2"
    "\<And>i. i < 32 \<Longrightarrow> bit w2 i \<longleftrightarrow> (if i = x then junction any (cond_truths ?t) else bit (uiCondSetTrue l) i)"
    using bit_put_bits [of "int x" "junction any (cond_truths ?t)" "uiCondSetTrue l"] pos(1) by auto
  let ?l2 = "list_after l x w w2"
  define l1 where "l1 = upd_set (pCondSetNode p) (\<lambda>t. t\<lparr>uiCondTrue := w\<rparr>) l"
  note u = upd_set_placed [OF wf(1) pl l1_def]
  note ao = list_after_ok [OF lo pl w2(2) refl]
  have gs: "group_true (acLogic (stCondInfo l)) w (int (ucCondCount t)) = Some (junction any (cond_truths ?t))"
    using set_group_true [OF pos(5) wf(2)] .
  have s1: "put_list fget fupd (pstCondList p) l1 ?s = put_list fget fupd (pstCondList p) l1 s"
    using put_list_twice [OF l0 a] .
  have fl: "find_list fget (put_list fget fupd (pstCondList p) l1 s) (pstCondList p) = Some l1"
    using find_put [OF l0] u(3) a by simp
  have "cond_true_init fget fupd k b p ?s = cond_set_true_init fget fupd k (junction any (cond_truths ?t)) p
      (put_list fget fupd (pstCondList p) l1 s)"
    using l t n w(1) pos gs s1 by (simp add: cond_true_init_def l1_def)
  also have "\<dots> = Some (finish fget fupd k (pstCondList p) ?l2 (list_spec any ?l2) s)"
    using fl u(1,2,3,5,6) w2(1) pos(3) ao(2) a put_list_twice [OF l0, of l1 ?l2]
    by (simp add: cond_set_true_init_def finish_def Let_def list_after_def)
  finally have e: "cond_true_init fget fupd k b p ?s = Some (finish fget fupd k (pstCondList p) ?l2 (list_spec any ?l2) s)" .
  have "stCondInfo ?l2 = stCondInfo l" by (simp add: list_after_def)
  with that [OF w(1,2) w2(1) ao(1) e] ao(2) show ?thesis by simp
qed

lemma init_result:
  assumes ok: "scene_ok s" and l: "find_list fget s (pstCondList p) = Some l"
    and t: "get_set l (pCondSetNode p) = Some t" and n: "get_cond t (pCondNode p) = Some n"
    and pl: "placed l p x y t n"
    and lo: "list_ok any l (bit (ucCondListTrue (sel_logic l s)) k)"
  obtains w w2 where "bit_put b (int y) (uiCondTrue t) = Some w"
    "\<And>i. i < 32 \<Longrightarrow> bit w i \<longleftrightarrow> (if i = y then b else bit (uiCondTrue t) i)"
    "bit_put (junction any (cond_truths (t\<lparr>uiCondTrue := w\<rparr>))) (int x) (uiCondSetTrue l) = Some w2"
    "list_ok any (list_after l x w w2) (list_spec any (list_after l x w w2))"
    "cond_true_init fget fupd k b p s =
      Some (finish fget fupd k (pstCondList p) (list_after l x w w2) (list_spec any (list_after l x w w2)) s)"
    "group_true (acLogic (stCondInfo l)) w2 (list_size (list_after l x w w2)) = Some (list_spec any (list_after l x w w2))"
proof -
  have a: "cl_addr l = pstCondList p" by (rule side_of [OF ok l])
  show ?thesis
    by (rule init_result_new [OF l a t n pl list_ok_almost [OF lo], of b]) (rule that, simp_all add: put_list_same [OF l])
qed

lemma sel_put: "stCondInfo l' = stCondInfo l \<Longrightarrow>
    ucCondListTrue (sel_logic l' (put_list fget fupd a l2 s)) = ucCondListTrue (sel_logic l s)"
  by (simp add: sel_logic_def put_list_def kind_simps)

text \<open>Where the truth of the list is unchanged, so is everything above it.\<close>

lemma finish_cut:
  assumes "scene_ok s" "find_list fget s a = Some l" "iCount l' = iCount l" "stCondInfo l' = stCondInfo l"
    "b = bit (ucCondListTrue (sel_logic l s)) k"
  shows "finish fget fupd k a l' b s = put_list fget fupd a l' s"
proof -
  let ?s = "put_list fget fupd a l' s"
  have "b = bit (ucCondListTrue (sel_logic l' ?s)) k" using sel_put [OF assms(4)] assms(5) by simp
  then have p: "put_list_true l' k b ?s = ?s"
    using bits(1) by (auto simp: put_list_true_def sel_logic_def list_bit_put_same)
  have "ucSceneCondTrue ?s = ucSceneCondTrue s" by (simp add: put_list_def)
  then have "scene_truth ?s = ucSceneCondTrue ?s" using truth_kept [OF assms(2,3)] assms(1) by (simp add: scene_ok_def)
  then show ?thesis unfolding finish_def Let_def p by simp
qed

text \<open>The stopping propagation computes the same scene as the full recomputation.\<close>

lemma propagate_eq_init:
  assumes ok: "scene_ok s" and l: "find_list fget s (pstCondList p) = Some l"
    and t: "get_set l (pCondSetNode p) = Some t" and n: "get_cond t (pCondNode p) = Some n"
    and pl: "placed l p x y t n" and lo: "list_ok any l (bit (ucCondListTrue (sel_logic l s)) k)"
    and a: "cl_addr l = pstCondList p"
  shows "cond_true_propagate fget fupd k b p s =
    map_option (Pair (bit (uiCondTrue t) y)) (cond_true_init fget fupd k b p s)"
proof -
  have wf: "cl_wf l" "acLogic (stCondInfo l) = (if any then ''Or'' else ''And'')" using lo by (auto simp: list_ok_def)
  have pos: "x < length (sets l)" "x < 32" "y < 32" "sets l ! x = t" "iCondSetIndex t = int x" "iCondIndex n = int y" "set_wf t"
    using pl by (auto simp: placed_def)
  obtain w w2 where r: "bit_put b (int y) (uiCondTrue t) = Some w"
    "bit_put (junction any (cond_truths (t\<lparr>uiCondTrue := w\<rparr>))) (int x) (uiCondSetTrue l) = Some w2"
    "cond_true_init fget fupd k b p s =
      Some (finish fget fupd k (pstCondList p) (list_after l x w w2) (list_spec any (list_after l x w w2)) s)"
    "group_true (acLogic (stCondInfo l)) w2 (list_size (list_after l x w w2)) = Some (list_spec any (list_after l x w w2))"
    by (rule init_result [OF ok l t n pl lo]) blast
  define l1 where "l1 = upd_set (pCondSetNode p) (\<lambda>t. t\<lparr>uiCondTrue := w\<rparr>) l"
  note u = upd_set_placed [OF wf(1) pl l1_def]
  let ?l2 = "list_after l x w w2" and ?js = "junction any (cond_truths (t\<lparr>uiCondTrue := w\<rparr>))"
  have old: "bit_get (int y) (uiCondTrue t) = Some (bit (uiCondTrue t) y)" using pos(3) by (simp add: bit_get_iff)
  have os: "bit_get (int x) (uiCondSetTrue l) = Some (junction any (cond_truths t))"
    using pos(1,2,4) lo by (auto simp: bit_get_iff list_ok_def)
  have gs: "group_true (acLogic (stCondInfo l)) w (int (ucCondCount t)) = Some ?js"
    using set_group_true [OF pos(7) wf(2)] .
  have gl: "group_true (acLogic (stCondInfo l)) (uiCondSetTrue l) (list_size l) = Some (list_spec any l)"
    by (rule list_group_true [OF wf(1) _ wf(2)]) (use pos(1) lo in \<open>auto simp: list_ok_def\<close>)
  have i2: "iCount ?l2 = iCount l" "stCondInfo ?l2 = stCondInfo l" "list_size ?l2 = list_size l"
    by (simp_all add: list_after_def list_size_def)
  have bl: "list_spec any l = bit (ucCondListTrue (sel_logic l s)) k" using lo by (simp add: list_ok_def)
  have w_same: "w = uiCondTrue t" if "b = bit (uiCondTrue t) y" using bit_put_same [OF old] r(1) that by simp
  have w2_same: "w2 = uiCondSetTrue l" "?l2 = l1" "list_spec any ?l2 = list_spec any l" if "?js = junction any (cond_truths t)"
  proof -
    show e: "w2 = uiCondSetTrue l" using bit_put_same [OF os] r(2) that by simp
    have "l1\<lparr>uiCondSetTrue := w2\<rparr> = l1" unfolding e u(5) [symmetric] by simp
    then show "?l2 = l1" using u(1) by simp
    show "list_spec any ?l2 = list_spec any l" using r(4) gl e i2(3) by simp
  qed
  note cut = finish_cut [OF ok l, of ?l2 "list_spec any ?l2", OF i2(1,2)]
  note tw = put_list_twice [OF l, of l1 ?l2]
  show ?thesis
  proof (cases "b = bit (uiCondTrue t) y")
    case True
    have "?js = junction any (cond_truths t)" using w_same [OF True] by simp
    then have "finish fget fupd k (pstCondList p) ?l2 (list_spec any ?l2) s = s"
      using cut w2_same bl u(7) [OF w_same [OF True]] put_list_same [OF l] by simp
    then show ?thesis using True l t n pos(6) old r(3) by (simp add: cond_true_propagate_def)
  next
    case b: False
    show ?thesis
    proof (cases "?js = junction any (cond_truths t)")
      case True
      then show ?thesis using b l t n pos old os gs r cut w2_same [OF True] bl
        by (simp add: cond_true_propagate_def l1_def)
    next
      case False
      then show ?thesis
        using b l t n pos old os gs r(1,2,3,4) cut bl u(1,3) tw a sel_put [OF i2(2), of "pstCondList p" ?l2 s] i2(2)
        by (auto simp: cond_true_propagate_def l1_def [symmetric] list_bit_get_iff finish_def Let_def)
    qed
  qed
qed

lemma find_finish:
  assumes "scene_ok s" "find_list fget s a = Some l" "cl_addr l' = a"
  shows "find_list fget (finish fget fupd k a l' b s) a' = (if a' = a then Some l' else find_list fget s a')"
    "find_list oget (finish fget fupd k a l' b s) a' = find_list oget s a'"
  using assms by (auto simp: find_list_def finish_def Let_def put_list_true_def put_list_def kind_simps split: if_splits)

end

lemma get_set_upd:
  "(\<And>s. sn_addr (f s) = sn_addr s) \<Longrightarrow>
    get_set (upd_set a f l) a' = map_option (\<lambda>s. if sn_addr s = a then f s else s) (get_set l a')"
proof -
  assume f: "\<And>s. sn_addr (f s) = sn_addr s"
  have "List.find (\<lambda>s. sn_addr s = a') (map (\<lambda>s. if sn_addr s = a then f s else s) ss) =
      map_option (\<lambda>s. if sn_addr s = a then f s else s) (List.find (\<lambda>s. sn_addr s = a') ss)" for ss
    using f by (induction ss) auto
  then show ?thesis by (simp add: get_set_def upd_set_def)
qed

text \<open>Truth and identity of the condition at a place of a list.\<close>

definition list_truth_at :: "'c cond_list \<Rightarrow> ptr_info \<Rightarrow> bool option" where
  "list_truth_at l p = do { t \<leftarrow> get_set l (pCondSetNode p); n \<leftarrow> get_cond t (pCondNode p); bit_get (iCondIndex n) (uiCondTrue t) }"

lemma list_after_truths:
  assumes "cl_wf l" "placed l p x y t n" "get_set l (pCondSetNode p) = Some t" "get_cond t (pCondNode p) = Some n"
    "\<And>i. i < 32 \<Longrightarrow> bit w i \<longleftrightarrow> (if i = y then b else bit (uiCondTrue t) i)"
  shows "list_truth_at (list_after l x w w2) q =
      (if (pCondSetNode q, pCondNode q) = (pCondSetNode p, pCondNode p) then Some b else list_truth_at l q)"
    "get_set (list_after l x w w2) (pCondSetNode q) \<bind> (\<lambda>t. get_cond t (pCondNode q) \<bind> (\<lambda>n. Some (stCond n))) =
      get_set l (pCondSetNode q) \<bind> (\<lambda>t. get_cond t (pCondNode q) \<bind> (\<lambda>n. Some (stCond n)))"
proof -
  define l1 where "l1 = upd_set (pCondSetNode p) (\<lambda>t. t\<lparr>uiCondTrue := w\<rparr>) l"
  note u = upd_set_placed(1) [OF assms(1,2) l1_def, of w2]
  have g: "get_set (list_after l x w w2) a = map_option (\<lambda>s. if sn_addr s = pCondSetNode p then s\<lparr>uiCondTrue := w\<rparr> else s) (get_set l a)" for a
    unfolding u [symmetric] using get_set_upd [of "\<lambda>t. t\<lparr>uiCondTrue := w\<rparr>" "pCondSetNode p" l a]
    by (simp add: l1_def get_set_def)
  have c: "get_cond (s\<lparr>uiCondTrue := v\<rparr>) a = get_cond s a" for s :: "'a cond_set" and v a by (simp add: get_cond_def)
  have ad: "get_set l a = Some s \<Longrightarrow> sn_addr s = a" for a s by (auto simp: get_set_def find_Some_iff)
  show "get_set (list_after l x w w2) (pCondSetNode q) \<bind> (\<lambda>t. get_cond t (pCondNode q) \<bind> (\<lambda>n. Some (stCond n))) =
      get_set l (pCondSetNode q) \<bind> (\<lambda>t. get_cond t (pCondNode q) \<bind> (\<lambda>n. Some (stCond n)))"
    by (cases "get_set l (pCondSetNode q)") (auto simp: g c)
  have pos: "y < 32" "set_wf t" "iCondIndex n = int y" "y < length (pstCond t)" "pstCond t ! y = n"
    using assms(2) by (auto simp: placed_def)
  have diff: "bit_get (iCondIndex m) w = bit_get (iCondIndex m) (uiCondTrue t)"
    if m: "get_cond t a = Some m" "a \<noteq> pCondNode p" for m a
  proof -
    obtain z where z: "z < length (pstCond t)" "pstCond t ! z = m" "cn_addr m = a" by (rule get_cond_position [OF m(1)])
    have "cn_addr n = pCondNode p" using assms(2) by (simp add: placed_def)
    then have "z \<noteq> y" using z m(2) pos(5) by auto
    moreover have "iCondIndex m = int z" "z < 32" using pos(2) z by (auto simp: set_wf_def)
    ultimately show ?thesis using assms(5) [of z] by (simp add: bit_get_iff)
  qed
  show "list_truth_at (list_after l x w w2) q =
      (if (pCondSetNode q, pCondNode q) = (pCondSetNode p, pCondNode p) then Some b else list_truth_at l q)"
  proof (cases "pCondSetNode q = pCondSetNode p")
    case False
    then show ?thesis using ad [of "pCondSetNode q"] by (cases "get_set l (pCondSetNode q)") (auto simp: list_truth_at_def g)
  next
    case True
    have "sn_addr t = pCondSetNode p" using ad assms(3) by blast
    then show ?thesis using True assms(3,4,5) pos diff
      by (cases "get_cond t (pCondNode q)") (auto simp: list_truth_at_def g c bit_get_iff)
  qed
qed

text \<open>Two pointer records refer to the same condition.\<close>

definition same_cond :: "ptr_info \<Rightarrow> ptr_info \<Rightarrow> bool" where
  "same_cond p q \<longleftrightarrow> (pstCondList p, pCondSetNode p, pCondNode p) = (pstCondList q, pCondSetNode q, pCondNode q)"

text \<open>Nothing but the conditions and their truth differs.\<close>

definition same_static :: "scene_info \<Rightarrow> scene_info \<Rightarrow> bool" where
  "same_static s s' \<longleftrightarrow>
     s' = s\<lparr>stOrCond := stOrCond s', stAndCond := stAndCond s', ucSceneCondTrue := ucSceneCondTrue s'\<rparr>"

lemma same_static_trans: "same_static s t \<Longrightarrow> same_static t u \<Longrightarrow> same_static s u"
  unfolding same_static_def by (cases s; cases t; cases u) simp

lemma same_static_refl [simp]: "same_static s s"
  by (simp add: same_static_def)

lemma put_list_static: "same_static s (put_list fget fupd a l s)"
  by (simp add: same_static_def put_list_def)

lemma finish_static: "same_static s (finish fget fupd k a l b s)"
  by (simp add: same_static_def finish_def put_list_def put_list_true_def Let_def)

text \<open>The scene differs in the truth of one condition and in what follows from it.\<close>

definition truth_set :: "'c list_get \<Rightarrow> 'd list_get \<Rightarrow> ptr_info \<Rightarrow> bool \<Rightarrow> scene_info \<Rightarrow> scene_info \<Rightarrow> bool" where
  "truth_set fget oget p b s s' \<longleftrightarrow> scene_ok s' \<and>
     (\<forall>q. cond_truth fget q s' = (if same_cond q p then Some b else cond_truth fget q s)) \<and>
     (\<forall>q. cond_truth oget q s' = cond_truth oget q s) \<and> (\<forall>q. cond_at fget q s' = cond_at fget q s) \<and> same_static s s'"

lemma cond_truth_alt: "cond_truth fget p s = find_list fget s (pstCondList p) \<bind> (\<lambda>l. list_truth_at l p)"
  by (simp add: cond_truth_def list_truth_at_def)

lemma scene_ok_truth: "scene_ok s \<Longrightarrow> ucSceneCondTrue s = scene_spec s"
  using scene_truth_spec [of s] by (simp add: scene_ok_def)

text \<open>Changing the data of a condition, but not its place.\<close>

lemma upd_cond_list_ok:
  fixes l :: "'c cond_list"
  assumes "list_ok any l b"
  shows "list_ok any (upd_set a (upd_cond a' f) l) b"
proof -
  define g where "g = (\<lambda>s. if sn_addr s = a then upd_cond a' f s else s)"
  let ?h = "\<lambda>n :: 'c cond_node. if cn_addr n = a' then n\<lparr>stCond := f (stCond n)\<rparr> else n"
  have h: "cn_addr \<circ> ?h = cn_addr" by (rule ext) simp
  have g: "set_wf (g s) = set_wf s" "cond_truths (g s) = cond_truths s" "sn_addr (g s) = sn_addr s"
    "iCondSetIndex (g s) = iCondSetIndex s" "length (set_conds (g s)) = length (set_conds s)" for s
    using h by (auto simp: g_def set_wf_def upd_cond_def cond_truths_def set_conds_def)
  have u: "upd_set a (upd_cond a' f) l = l\<lparr>sets := map g (sets l)\<rparr>" by (simp add: upd_set_def g_def)
  show ?thesis using assms
    unfolding u list_ok_def cl_wf_def list_spec_def conds_of_sets by (simp add: g o_def length_concat)
qed

lemma get_cond_upd: "get_cond (upd_cond a f t) a' = map_option (\<lambda>n. if cn_addr n = a then n\<lparr>stCond := f (stCond n)\<rparr> else n) (get_cond t a')"
proof -
  have "List.find (\<lambda>n. cn_addr n = a') (map (\<lambda>n. if cn_addr n = a then n\<lparr>stCond := f (stCond n)\<rparr> else n) ns) =
      map_option (\<lambda>n. if cn_addr n = a then n\<lparr>stCond := f (stCond n)\<rparr> else n) (List.find (\<lambda>n. cn_addr n = a') ns)" for ns
    by (induction ns) auto
  then show ?thesis by (simp add: get_cond_def upd_cond_def)
qed

lemma get_addr: "get_set l a = Some t \<Longrightarrow> sn_addr t = a" "get_cond t a = Some n \<Longrightarrow> cn_addr n = a"
  by (auto simp: get_set_def get_cond_def find_Some_iff)

lemma upd_cond_truths: "list_truth_at (upd_set a (upd_cond a' f) l) q = list_truth_at l q"
proof -
  have s: "sn_addr (upd_cond a' f t) = sn_addr t" "uiCondTrue (upd_cond a' f t) = uiCondTrue t" for t by (simp_all add: upd_cond_def)
  show ?thesis unfolding list_truth_at_def get_set_upd [of "upd_cond a' f", OF s(1)]
    by (cases "get_set l (pCondSetNode q)"; cases "get_cond (the (get_set l (pCondSetNode q))) (pCondNode q)")
      (auto simp: get_cond_upd s)
qed

lemma upd_cond_at:
  "get_set (upd_set a (upd_cond a' f) l) b \<bind> (\<lambda>t. get_cond t b' \<bind> (\<lambda>n. Some (stCond n))) =
     (let r = get_set l b \<bind> (\<lambda>t. get_cond t b' \<bind> (\<lambda>n. Some (stCond n))) in
      if (b, b') = (a, a') then map_option f r else r)"
proof -
  have s: "sn_addr (upd_cond a' f t) = sn_addr t" for t by (simp add: upd_cond_def)
  show ?thesis
  proof (cases "get_set l b")
    case None
    then show ?thesis by (simp add: get_set_upd [of "upd_cond a' f", OF s])
  next
    case (Some t)
    note t = get_addr(1) [OF Some]
    show ?thesis
    proof (cases "get_cond t b'")
      case None
      then show ?thesis using Some by (auto simp: get_set_upd [of "upd_cond a' f", OF s] get_cond_upd)
    next
      case n: (Some n)
      show ?thesis using Some n t get_addr(2) [OF n] by (auto simp: get_set_upd [of "upd_cond a' f", OF s] get_cond_upd)
    qed
  qed
qed

context cond_kind
begin

lemma cond_found:
  assumes "scene_ok s" "cond_at fget p s = Some c"
  obtains l t n x y any where "find_list fget s (pstCondList p) = Some l" "get_set l (pCondSetNode p) = Some t"
    "get_cond t (pCondNode p) = Some n" "stCond n = c" "placed l p x y t n" "cl_wf l"
    "list_ok any l (bit (ucCondListTrue (sel_logic l s)) k)" "cl_addr l = pstCondList p"
    "any \<longleftrightarrow> cl_addr (fget (stOrCond s)) = pstCondList p"
proof -
  obtain l t n where l: "find_list fget s (pstCondList p) = Some l" "get_set l (pCondSetNode p) = Some t"
    "get_cond t (pCondNode p) = Some n" "stCond n = c"
    using assms(2) by (auto simp: cond_at_def split: Option.bind_splits)
  obtain any where any: "list_ok any l (bit (ucCondListTrue (sel_logic l s)) k)" "cl_addr l = pstCondList p"
    "any \<longleftrightarrow> cl_addr (fget (stOrCond s)) = pstCondList p"
    by (rule side_of [OF assms(1) l(1)])
  have wf: "cl_wf l" using any(1) by (simp add: list_ok_def)
  obtain x y where "placed l p x y t n" using placed_ex [OF wf l(2,3)] by blast
  then show ?thesis using that l wf any by blast
qed

lemma init_spec:
  assumes "scene_ok s" "cond_at fget p s = Some c"
  shows "\<exists>old s'. cond_truth fget p s = Some old \<and> cond_true_init fget fupd k b p s = Some s' \<and>
    truth_set fget oget p b s s' \<and> cond_true_propagate fget fupd k b p s = Some (old, s')"
proof -
  obtain l t n x y any where f: "find_list fget s (pstCondList p) = Some l" "get_set l (pCondSetNode p) = Some t"
    "get_cond t (pCondNode p) = Some n" "stCond n = c" "placed l p x y t n" "cl_wf l"
    "list_ok any l (bit (ucCondListTrue (sel_logic l s)) k)" "cl_addr l = pstCondList p"
    "any \<longleftrightarrow> cl_addr (fget (stOrCond s)) = pstCondList p"
    by (rule cond_found [OF assms])
  obtain w w2 where r: "\<And>i. i < 32 \<Longrightarrow> bit w i \<longleftrightarrow> (if i = y then b else bit (uiCondTrue t) i)"
    "list_ok any (list_after l x w w2) (list_spec any (list_after l x w w2))"
    "cond_true_init fget fupd k b p s =
      Some (finish fget fupd k (pstCondList p) (list_after l x w w2) (list_spec any (list_after l x w w2)) s)"
    by (rule init_result [OF assms(1) f(1-3,5,7)]) blast
  let ?l = "list_after l x w w2" and ?s = "finish fget fupd k (pstCondList p) (list_after l x w w2) (list_spec any (list_after l x w w2)) s"
  have a: "cl_addr ?l = pstCondList p" using f(8) by (simp add: list_after_def)
  note ff = find_finish [OF assms(1) f(1) a]
  note lt = list_after_truths [OF f(6,5,2,3) r(1), of w2]
  have y: "iCondIndex n = int y" "y < 32" using f(5) by (auto simp: placed_def)
  have "scene_ok ?s" using finish_ok [OF assms(1) f(1) a] r(2) f(9) by simp
  moreover have "cond_truth fget q ?s = (if same_cond q p then Some b else cond_truth fget q s)" for q
    using f(1) lt(1) by (auto simp: cond_truth_alt ff same_cond_def)
  moreover have "cond_truth oget q ?s = cond_truth oget q s" for q by (simp add: cond_truth_alt ff)
  moreover have "cond_at fget q ?s = cond_at fget q s" for q
    using f(1) lt(2) [of q] by (auto simp: cond_at_def ff)
  ultimately have ts: "truth_set fget oget p b s ?s" by (simp add: truth_set_def finish_static)
  have "cond_truth fget p s = Some (bit (uiCondTrue t) y)" using f(1-3) y by (simp add: cond_truth_def bit_get_iff)
  with ts r(3) propagate_eq_init [OF assms(1) f(1-3,5,7,8), of b] show ?thesis by auto
qed

lemma put_cond_spec:
  assumes "scene_ok s" "cond_at fget p s = Some c"
  shows "\<exists>s'. put_cond fget fupd p f s = Some s' \<and> scene_ok s' \<and> cond_at fget p s' = Some (f c) \<and>
    (\<forall>q. cond_truth fget q s' = cond_truth fget q s) \<and> (\<forall>q. cond_truth oget q s' = cond_truth oget q s) \<and>
    ucSceneCondTrue s' = ucSceneCondTrue s \<and> same_static s s' \<and>
    (\<forall>q. cond_at fget q s' = (if same_cond q p then map_option f (cond_at fget q s) else cond_at fget q s))"
proof -
  obtain l t n x y any where h: "find_list fget s (pstCondList p) = Some l" "get_set l (pCondSetNode p) = Some t"
    "get_cond t (pCondNode p) = Some n" "stCond n = c" "placed l p x y t n" "cl_wf l"
    "list_ok any l (bit (ucCondListTrue (sel_logic l s)) k)" "cl_addr l = pstCondList p"
    "any \<longleftrightarrow> cl_addr (fget (stOrCond s)) = pstCondList p"
    by (rule cond_found [OF assms])
  let ?l = "upd_set (pCondSetNode p) (upd_cond (pCondNode p) f) l" and ?b = "bit (ucCondListTrue (sel_logic l s)) k"
  have i: "iCount ?l = iCount l" "stCondInfo ?l = stCondInfo l" "cl_addr ?l = pstCondList p"
    using h(8) by (simp_all add: upd_set_def)
  have lo: "list_ok any ?l ?b" by (rule upd_cond_list_ok [OF h(7)])
  have e: "finish fget fupd k (pstCondList p) ?l ?b s = put_list fget fupd (pstCondList p) ?l s"
    by (rule finish_cut [OF assms(1) h(1) i(1,2) refl])
  note ff = find_finish [OF assms(1) h(1) i(3), of ?b, unfolded e]
  have ok: "scene_ok (put_list fget fupd (pstCondList p) ?l s)"
    using finish_ok [OF assms(1) h(1) i(3), of ?b] lo h(9) e by simp
  have sa: "sn_addr (upd_cond (pCondNode p) f t) = sn_addr t" for t by (simp add: upd_cond_def)
  have "cond_at fget p (put_list fget fupd (pstCondList p) ?l s) = Some (f c)"
    using h(2,3,4) get_addr(1) [OF h(2)] get_addr(2) [OF h(3)] by (simp add: cond_at_def ff get_set_upd [of "upd_cond (pCondNode p) f", OF sa] get_cond_upd)
  moreover have "cond_truth fget q (put_list fget fupd (pstCondList p) ?l s) = cond_truth fget q s" for q
    using h(1) by (simp add: cond_truth_alt ff upd_cond_truths)
  moreover have "cond_truth oget q (put_list fget fupd (pstCondList p) ?l s) = cond_truth oget q s" for q
    by (simp add: cond_truth_alt ff)
  moreover have "ucSceneCondTrue (put_list fget fupd (pstCondList p) ?l s) = ucSceneCondTrue s" by (simp add: put_list_def)
  moreover have "cond_at fget q (put_list fget fupd (pstCondList p) ?l s) =
      (if same_cond q p then map_option f (cond_at fget q s) else cond_at fget q s)" for q
    using upd_cond_at [of "pCondSetNode p" "pCondNode p" f l "pCondSetNode q" "pCondNode q"] h(1)
    by (auto simp: cond_at_def ff same_cond_def)
  ultimately show ?thesis using ok h(1) by (simp add: put_cond_def put_list_static)
qed

lemma init_unchanged:
  assumes "scene_ok s" "cond_at fget p s = Some c" "cond_truth fget p s = Some b"
  shows "cond_true_init fget fupd k b p s = Some s"
proof -
  have "cond_true_propagate fget fupd k b p s = Some (b, s)"
    using assms(3) by (auto simp: cond_true_propagate_def cond_truth_def split: Option.bind_splits)
  with init_spec [OF assms(1,2), of b] show ?thesis by auto
qed

end

section \<open>Properties of the truth propagation\<close>

lemmas event_funs = scene_event_cond_true_init_def scene_event_cond_set_true_init_def
lemmas time_funs = scene_time_cond_true_init_def scene_time_cond_set_true_init_def

definition empty_list :: "ptr \<Rightarrow> string \<Rightarrow> string \<Rightarrow> 'c cond_list" where
  "empty_list a logic kind = \<lparr>cl_addr = a, stCondInfo = \<lparr>ci_acId = ''s1'', acLogic = logic, acCondType = kind\<rparr>,
     ucInitFlag = 0, iCount = 0, uiCondSetTrue = 0, sets = []\<rparr>"

definition scene_example :: scene_info where
  "scene_example = \<lparr>acSceneId = ''s1'', acSceneName = ''evening'', cManualTriggerFlag = 0, acSceneEnable = ''1'',
     acExecDelayed = ''0'', acUpdateTime = [], acNote = [], ucSceneCondTrue = False, pstPanel = [], panelFreed = False,
     stOrCond = \<lparr>ucCondListTrue = 0, pstTimeCondList = empty_list 6 ''Or'' ''Time'', pstEventCondList = empty_list 7 ''Or'' ''Event''\<rparr>,
     stAndCond = \<lparr>ucCondListTrue = 1, pstTimeCondList = empty_list 8 ''And'' ''Time'', pstEventCondList = event_list_example\<rparr>,
     pstAction = 5\<rparr>"

definition event_ptr :: ptr_info where
  "event_ptr = \<lparr>acId = ''s1'', pstScene = 1, pstCondList = 9, pCondSetNode = 10, pCondNode = 11, pScenePanelNode = NULL\<rparr>"

lemma empty_list_ok: "list_ok any (empty_list a (if any then ''Or'' else ''And'') kind) (\<not> any)"
  by (simp add: list_ok_def empty_list_def cl_wf_def conds_of_def list_spec_def junction_def)

lemma scene_example_ok: "scene_ok scene_example"
proof -
  have "list_ok False event_list_example False"
    using example_wf(1) by (simp add: list_ok_def event_list_example_def list_spec_def junction_def cond_truths_def)
  then show ?thesis
    using empty_list_ok [of True 6 "''Time''"] empty_list_ok [of True 7 "''Event''"] empty_list_ok [of False 8 "''Time''"]
    by (simp add: scene_ok_def logic_ok_def scene_example_def scene_truth_def logic_count_def)
      (simp add: empty_list_def event_list_example_def)
qed

lemma event_ptr_cond: "cond_at pstEventCondList event_ptr scene_example = Some event_example"
  by (simp add: cond_at_def find_list_def get_set_def get_cond_def event_ptr_def scene_example_def empty_list_def
      event_list_example_def)

definition time_scene_example :: scene_info where
  "time_scene_example = scene_example\<lparr>stAndCond := \<lparr>ucCondListTrue = 2, pstTimeCondList = time_list_example\<lparr>
       sets := [\<lparr>sn_addr = 10, iCondSetIndex = 0, uiCondTrue = 0, ucCondCount = 1,
         pstCond = [\<lparr>cn_addr = 11, iCondIndex = 0, stCond = time_example\<lparr>t_acTriggerType := ''InstantEvery'', acTriggerInterval := ''5''\<rparr>\<rparr>]\<rparr>],
       iCount := 1\<rparr>, pstEventCondList = empty_list 8 ''And'' ''Event''\<rparr>\<rparr>"

lemma time_scene_example_ok: "scene_ok time_scene_example"
proof -
  have "list_ok False (pstTimeCondList (stAndCond time_scene_example)) False"
    by (simp add: list_ok_def time_scene_example_def time_list_example_def cl_wf_def set_wf_def conds_of_def
        list_spec_def junction_def cond_truths_def)
  moreover have "bit (2 :: u8) 0 = False" "bit (2 :: u8) 1 = True" by simp_all
  ultimately show ?thesis
    using empty_list_ok [of True 6 "''Time''"] empty_list_ok [of True 7 "''Event''"] empty_list_ok [of False 8 "''Event''"]
    by (simp add: scene_ok_def logic_ok_def scene_example_def time_scene_example_def scene_truth_def logic_count_def)
      (simp add: empty_list_def time_list_example_def)
qed

definition every5 :: time_cond where
  "every5 = time_example\<lparr>t_acTriggerType := ''InstantEvery'', acTriggerInterval := ''5''\<rparr>"

lemma time_ptr_cond: "cond_at pstTimeCondList event_ptr time_scene_example = Some every5"
  by (simp add: cond_at_def find_list_def get_set_def get_cond_def event_ptr_def scene_example_def time_scene_example_def
      empty_list_def time_list_example_def every5_def)

text \<open>C11. Setting the truth of an event condition in a consistent scene and recomputing the levels
  above it: the result is consistent again, exactly this condition has the new truth, every other
  event and time condition keeps its own, and the truth of the scene is what the conditions say:
  there is a condition, if there are \<open>Or\<close> conditions then one of them holds, and all \<open>And\<close> conditions
  hold. The same for a time condition.\<close>

theorem scene_cond_true_init_correct:
  assumes "scene_ok s" "cond_at pstEventCondList pe s = Some ce" "scene_ok r" "cond_at pstTimeCondList pt r = Some ct"
  shows "(\<exists>s'. scene_event_cond_true_init b pe s = Some s' \<and> truth_set pstEventCondList pstTimeCondList pe b s s' \<and>
      ucSceneCondTrue s' = scene_spec s') \<and>
    (\<exists>r'. scene_time_cond_true_init b pt r = Some r' \<and> truth_set pstTimeCondList pstEventCondList pt b r r' \<and>
      ucSceneCondTrue r' = scene_spec r')"
  using event_kind.init_spec [OF assms(1,2), of b] time_kind.init_spec [OF assms(3,4), of b] scene_ok_truth
  unfolding event_funs time_funs truth_set_def by meson

theorem scene_cond_true_init_correct_witness:
  "\<exists>s'. scene_event_cond_true_init True event_ptr scene_example = Some s' \<and>
     cond_truth pstEventCondList event_ptr s' = Some True \<and> scene_spec s'"
proof -
  from scene_cond_true_init_correct [OF scene_example_ok event_ptr_cond time_scene_example_ok time_ptr_cond, of True]
  obtain s' where s': "scene_event_cond_true_init True event_ptr scene_example = Some s'"
    "truth_set pstEventCondList pstTimeCondList event_ptr True scene_example s'" "ucSceneCondTrue s' = scene_spec s'"
    by blast
  have "map_option ucSceneCondTrue (scene_event_cond_true_init True event_ptr scene_example) = Some True"
    by code_simp
  with s' show ?thesis by (simp add: truth_set_def same_cond_def)
qed

lemma event_update_result:
  assumes "scene_ok s" "cond_at pstEventCondList p s = Some c"
  shows "\<exists>old s1 s2. cond_truth pstEventCondList p s = Some old \<and> scene_event_cond_true_init b p s = Some s1 \<and>
    truth_set pstEventCondList pstTimeCondList p b s s1 \<and>
    (if strstr (e_acTriggerType c) ''Every'' \<and> b
     then scene_event_cond_true_init False p s1 = Some s2 \<and> truth_set pstEventCondList pstTimeCondList p False s1 s2
     else s2 = s1) \<and>
    scene_event_cond_true_update b p s = Some (s2, if b \<and> \<not> old \<and> scene_spec s1 then event_trigger p c else [])"
proof -
  from event_kind.init_spec [OF assms, of b] obtain old s1 where
    u: "cond_truth pstEventCondList p s = Some old" "scene_event_cond_true_init b p s = Some s1"
      "truth_set pstEventCondList pstTimeCondList p b s s1"
      "cond_true_propagate pstEventCondList pstEventCondList_update 1 b p s = Some (old, s1)"
    unfolding event_funs by blast
  have s1: "scene_ok s1" "cond_at pstEventCondList p s1 = Some c" using u(3) assms(2) by (simp_all add: truth_set_def)
  from event_kind.init_spec [OF s1, of False] obtain old2 s2 where
    v: "scene_event_cond_true_init False p s1 = Some s2" "truth_set pstEventCondList pstTimeCondList p False s1 s2"
      "cond_true_propagate pstEventCondList pstEventCondList_update 1 False p s1 = Some (old2, s2)"
    unfolding event_funs by blast
  show ?thesis
  proof (cases "strstr (e_acTriggerType c) ''Every'' \<and> b")
    case True
    then show ?thesis using u v s1 assms(2) scene_ok_truth [OF s1(1)]
      by (auto simp: scene_event_cond_true_update_def event_cond_true_step_def)
  next
    case False
    then show ?thesis using u s1 assms(2) scene_ok_truth [OF s1(1)]
      by (auto simp: scene_event_cond_true_update_def event_cond_true_step_def)
  qed
qed

text \<open>C10. The update that stops at the first level whose truth does not change computes the same scene
  as the full recomputation. It triggers the scene exactly when the condition becomes true and the
  scene is then true; a condition of an \<open>Every\<close> type is set back to false afterwards.\<close>

theorem scene_event_cond_true_update_correct:
  assumes "scene_ok s" "cond_at pstEventCondList p s = Some c"
  shows "\<exists>old s1. cond_truth pstEventCondList p s = Some old \<and> scene_event_cond_true_init b p s = Some s1 \<and>
    ucSceneCondTrue s1 = scene_spec s1 \<and>
    scene_event_cond_true_update b p s =
      (let eff = (if b \<and> \<not> old \<and> scene_spec s1 then event_trigger p c else []) in
       if strstr (e_acTriggerType c) ''Every'' \<and> b
       then map_option (\<lambda>s2. (s2, eff)) (scene_event_cond_true_init False p s1)
       else Some (s1, eff))"
  using event_update_result [OF assms, of b] scene_ok_truth by (auto simp: truth_set_def Let_def split: if_splits)

theorem scene_event_cond_true_update_correct_witness:
  "\<exists>s1. scene_event_cond_true_update True event_ptr scene_example = Some (s1, [Exec_Scene])"
proof -
  have o: "cond_truth pstEventCondList event_ptr scene_example = Some False"
    by (simp add: cond_truth_def find_list_def get_set_def get_cond_def event_ptr_def scene_example_def empty_list_def
        event_list_example_def bit_get_def)
  have e: "\<not> strstr (e_acTriggerType event_example) ''Every''" "event_trigger event_ptr event_example = [Exec_Scene]"
    by (simp_all add: event_trigger_def strstr_def event_example_def upt_rec)
  from scene_event_cond_true_update_correct [OF scene_example_ok event_ptr_cond, of True] o obtain s1 where
    s1: "scene_event_cond_true_init True event_ptr scene_example = Some s1" "ucSceneCondTrue s1 = scene_spec s1"
      "scene_event_cond_true_update True event_ptr scene_example =
        Some (s1, if scene_spec s1 then [Exec_Scene] else [])"
    using e by (auto simp: Let_def)
  have "map_option ucSceneCondTrue (scene_event_cond_true_init True event_ptr scene_example) = Some True"
    by code_simp
  with s1 show ?thesis by simp
qed

text \<open>The interval counter of a time condition after an update.\<close>

definition next_interval :: "bool \<Rightarrow> bool \<Rightarrow> time_cond \<Rightarrow> int" where
  "next_interval fire counting c =
     (if fire then atoi (acTriggerInterval c) - 1 else if counting then iTriggerInterval c - 1 else iTriggerInterval c)"

lemma time_update_result:
  assumes "scene_ok s" "cond_at pstTimeCondList p s = Some c"
  shows "\<exists>old s1 s2. cond_truth pstTimeCondList p s = Some old \<and> scene_time_cond_true_init b p s = Some s1 \<and>
    scene_ok s2 \<and> (\<forall>q. cond_truth pstTimeCondList q s2 = (if same_cond q p then Some b else cond_truth pstTimeCondList q s)) \<and>
    (\<forall>q. cond_truth pstEventCondList q s2 = cond_truth pstEventCondList q s) \<and> ucSceneCondTrue s2 = scene_spec s1 \<and>
    same_static s s2 \<and> (\<forall>q. cond_at pstTimeCondList q s2 = None \<longleftrightarrow> cond_at pstTimeCondList q s = None) \<and>
    (let every = strstr (t_acTriggerType c) ''Every'';
         fire = (b \<and> scene_spec s1 \<and> (\<not> old \<or> every \<and> iTriggerInterval c \<le> 0)) in
     scene_time_cond_true_update b p s = Some (s2, if fire then [Exec_Scene] else []) \<and>
     cond_at pstTimeCondList p s2 =
       Some (c\<lparr>iTriggerInterval := next_interval fire (b \<and> scene_spec s1 \<and> every) c\<rparr>))"
proof -
  from time_kind.init_spec [OF assms, of b] obtain old s1 where
    u: "cond_truth pstTimeCondList p s = Some old" "scene_time_cond_true_init b p s = Some s1"
      "truth_set pstTimeCondList pstEventCondList p b s s1"
      "cond_true_propagate pstTimeCondList pstTimeCondList_update 0 b p s = Some (old, s1)"
    unfolding time_funs by blast
  have s1: "scene_ok s1" "cond_at pstTimeCondList p s1 = Some c" using u(3) assms(2) by (simp_all add: truth_set_def)
  note pc = time_kind.put_cond_spec [OF s1]
  from pc [of "\<lambda>t. t\<lparr>iTriggerInterval := atoi (acTriggerInterval t) - 1\<rparr>"] obtain s2 where
    a: "put_cond pstTimeCondList pstTimeCondList_update p (\<lambda>t. t\<lparr>iTriggerInterval := atoi (acTriggerInterval t) - 1\<rparr>) s1 = Some s2"
      "scene_ok s2" "cond_at pstTimeCondList p s2 = Some (c\<lparr>iTriggerInterval := atoi (acTriggerInterval c) - 1\<rparr>)"
      "\<forall>q. cond_truth pstTimeCondList q s2 = cond_truth pstTimeCondList q s1"
      "\<forall>q. cond_truth pstEventCondList q s2 = cond_truth pstEventCondList q s1" "ucSceneCondTrue s2 = ucSceneCondTrue s1"
      "same_static s1 s2" "\<forall>q. cond_at pstTimeCondList q s2 = None \<longleftrightarrow> cond_at pstTimeCondList q s1 = None" by auto
  from pc [of "\<lambda>t. t\<lparr>iTriggerInterval := iTriggerInterval t - 1\<rparr>"] obtain s3 where
    d: "put_cond pstTimeCondList pstTimeCondList_update p (\<lambda>t. t\<lparr>iTriggerInterval := iTriggerInterval t - 1\<rparr>) s1 = Some s3"
      "scene_ok s3" "cond_at pstTimeCondList p s3 = Some (c\<lparr>iTriggerInterval := iTriggerInterval c - 1\<rparr>)"
      "\<forall>q. cond_truth pstTimeCondList q s3 = cond_truth pstTimeCondList q s1"
      "\<forall>q. cond_truth pstEventCondList q s3 = cond_truth pstEventCondList q s1" "ucSceneCondTrue s3 = ucSceneCondTrue s1"
      "same_static s1 s3" "\<forall>q. cond_at pstTimeCondList q s3 = None \<longleftrightarrow> cond_at pstTimeCondList q s1 = None" by auto
  define every where "every = strstr (t_acTriggerType c) ''Every''"
  define fire where "fire = (b \<and> scene_spec s1 \<and> (\<not> old \<or> every \<and> iTriggerInterval c \<le> 0))"
  define cnt where "cnt = (b \<and> scene_spec s1 \<and> every)"
  note t = scene_ok_truth [OF s1(1)]
  define sr where "sr = (if fire then s2 else if cnt then s3 else s1)"
  have e: "scene_time_cond_true_update b p s = Some (sr, if fire then [Exec_Scene] else [])"
    using u(4) assms(2) a(1) d(1) t
    by (auto simp: scene_time_cond_true_update_def sr_def fire_def cnt_def every_def Let_def)
  have "cond_at pstTimeCondList p sr = Some (c\<lparr>iTriggerInterval := next_interval fire cnt c\<rparr>)"
    using a(3) d(3) s1(2) by (simp add: sr_def next_interval_def)
  moreover have "scene_ok sr" "\<forall>q. cond_truth pstTimeCondList q sr = cond_truth pstTimeCondList q s1"
    "\<forall>q. cond_truth pstEventCondList q sr = cond_truth pstEventCondList q s1" "ucSceneCondTrue sr = scene_spec s1"
    "same_static s1 sr" "\<forall>q. cond_at pstTimeCondList q sr = None \<longleftrightarrow> cond_at pstTimeCondList q s1 = None"
    using a d s1(1) t by (auto simp: sr_def)
  moreover have "same_static s s1" "\<forall>q. cond_at pstTimeCondList q s1 = cond_at pstTimeCondList q s"
    "\<forall>q. cond_truth pstTimeCondList q s1 = (if same_cond q p then Some b else cond_truth pstTimeCondList q s)"
    "\<forall>q. cond_truth pstEventCondList q s1 = cond_truth pstEventCondList q s" using u(3) by (simp_all add: truth_set_def)
  ultimately have r: "cond_at pstTimeCondList p sr = Some (c\<lparr>iTriggerInterval := next_interval fire cnt c\<rparr>)" "scene_ok sr"
    "\<forall>q. cond_truth pstTimeCondList q sr = (if same_cond q p then Some b else cond_truth pstTimeCondList q s)"
    "\<forall>q. cond_truth pstEventCondList q sr = cond_truth pstEventCondList q s" "ucSceneCondTrue sr = scene_spec s1"
    "same_static s sr" "\<forall>q. cond_at pstTimeCondList q sr = None \<longleftrightarrow> cond_at pstTimeCondList q s = None"
    using same_static_trans by auto
  show ?thesis
    by (intro exI [of _ old] exI [of _ s1] exI [of _ sr] conjI u(1,2) r(2-7))
      (use e r(1) in \<open>simp add: fire_def cnt_def every_def Let_def\<close>)
qed

text \<open>C13. Updating a time condition in a consistent scene: the scene stays consistent and only this
  condition changes its truth. The scene is executed exactly when the scene is true and the condition
  has just become true, or stays true, is of an \<open>Every\<close> type and its interval counter has run out; the
  counter is then set to the interval minus one, and counts down in the other checks.\<close>

theorem scene_time_cond_true_update_correct:
  assumes "scene_ok s" "cond_at pstTimeCondList p s = Some c"
  shows "\<exists>old s1 s2. cond_truth pstTimeCondList p s = Some old \<and> scene_time_cond_true_init b p s = Some s1 \<and>
    scene_ok s2 \<and> (\<forall>q. cond_truth pstTimeCondList q s2 = (if same_cond q p then Some b else cond_truth pstTimeCondList q s)) \<and>
    (\<forall>q. cond_truth pstEventCondList q s2 = cond_truth pstEventCondList q s) \<and> ucSceneCondTrue s2 = scene_spec s1 \<and>
    (let every = strstr (t_acTriggerType c) ''Every'';
         fire = (b \<and> scene_spec s1 \<and> (\<not> old \<or> every \<and> iTriggerInterval c \<le> 0)) in
     scene_time_cond_true_update b p s = Some (s2, if fire then [Exec_Scene] else []) \<and>
     cond_at pstTimeCondList p s2 =
       Some (c\<lparr>iTriggerInterval := next_interval fire (b \<and> scene_spec s1 \<and> every) c\<rparr>))"
  using time_update_result [OF assms, of b] by blast

theorem scene_time_cond_true_update_correct_witness:
  "\<exists>s2. scene_time_cond_true_update True event_ptr time_scene_example = Some (s2, [Exec_Scene]) \<and>
     cond_at pstTimeCondList event_ptr s2 = Some (every5\<lparr>iTriggerInterval := 4\<rparr>)"
proof -
  have o: "cond_truth pstTimeCondList event_ptr time_scene_example = Some False"
    by (simp add: cond_truth_def find_list_def get_set_def get_cond_def event_ptr_def scene_example_def time_scene_example_def
        empty_list_def time_list_example_def bit_get_def)
  have i: "atoi (acTriggerInterval every5) = 5" by (simp add: every5_def atoi_def isspace_def is_digit_def)
  have g: "map_option ucSceneCondTrue (scene_time_cond_true_init True event_ptr time_scene_example) = Some True"
    by code_simp
  have k: "\<exists>s1. scene_time_cond_true_init True event_ptr time_scene_example = Some s1 \<and> scene_spec s1"
    using g time_kind.init_spec [OF time_scene_example_ok time_ptr_cond, of True] scene_ok_truth
    by (auto simp: time_funs truth_set_def)
  from scene_time_cond_true_update_correct [OF time_scene_example_ok time_ptr_cond, of True] o i k
  show ?thesis by (auto simp: next_interval_def Let_def)
qed

text \<open>Repeated checks in which the condition holds.\<close>

fun time_checks :: "nat \<Rightarrow> ptr_info \<Rightarrow> scene_info \<Rightarrow> (scene_info \<times> scene_effect list list) option" where
  "time_checks 0 p s = Some (s, [])"
| "time_checks (Suc m) p s = do {
     (s1, e) \<leftarrow> scene_time_cond_true_update True p s;
     (s2, es) \<leftarrow> time_checks m p s1;
     Some (s2, e # es)
   }"

lemma time_checks_phase:
  assumes "scene_ok s" "cond_at pstTimeCondList p s = Some c" "cond_truth pstTimeCondList p s = Some True"
    "ucSceneCondTrue s" "strstr (t_acTriggerType c) ''Every''" "atoi (acTriggerInterval c) = int n" "r < n"
    "iTriggerInterval c = int r"
  shows "\<exists>s' es. time_checks m p s = Some (s', es) \<and> length es = m \<and>
    (\<forall>i < m. es ! i = (if (i + n - r) mod n = 0 then [Exec_Scene] else []))"
  using assms
proof (induction m arbitrary: s c r)
  case (Suc m)
  have i: "scene_time_cond_true_init True p s = Some s"
    using time_kind.init_unchanged [OF Suc.prems(1-3)] by (simp add: time_funs)
  have sp: "scene_spec s" using scene_ok_truth [OF Suc.prems(1)] Suc.prems(4) by simp
  let ?f = "r = 0" and ?r = "if r = 0 then n - 1 else r - 1"
  from time_update_result [OF Suc.prems(1,2), of True] i sp Suc.prems(3,5,6,7,8) obtain s2 where
    s2: "scene_ok s2" "cond_truth pstTimeCondList p s2 = Some True" "ucSceneCondTrue s2"
      "scene_time_cond_true_update True p s = Some (s2, if ?f then [Exec_Scene] else [])"
      "cond_at pstTimeCondList p s2 = Some (c\<lparr>iTriggerInterval := int ?r\<rparr>)"
    by (auto simp: Let_def same_cond_def next_interval_def of_nat_diff split: if_splits)
  have "?r < n" using Suc.prems(7) by auto
  with Suc.IH [OF s2(1,5,2,3), of ?r] Suc.prems(5,6) obtain s' es where
    e: "time_checks m p s2 = Some (s', es)" "length es = m"
      "\<forall>i < m. es ! i = (if (i + n - ?r) mod n = 0 then [Exec_Scene] else [])" by auto
  have "((if ?f then [Exec_Scene] else []) # es) ! j = (if (j + n - r) mod n = 0 then [Exec_Scene] else [])" if "j < Suc m" for j
  proof (cases j)
    case 0
    have "r \<noteq> 0 \<Longrightarrow> (n - r) mod n \<noteq> 0" using Suc.prems(7) by simp
    with 0 show ?thesis by auto
  next
    case (Suc i)
    have "(i + n - ?r) mod n = (Suc i + n - r) mod n" using Suc.prems(7) mod_add_self2 [of "Suc i" n] by (auto simp: Suc_diff_le)
    with Suc e(3) that show ?thesis by simp
  qed
  with e s2(4) show ?case by auto
qed simp

text \<open>C14. A time condition of an \<open>Every\<close> type with interval \<open>n\<close> that becomes true in a scene that is then
  true executes the scene in the check in which it becomes true and in every \<open>n\<close>-th check after it,
  and in no other, as long as it stays true.\<close>

theorem time_every_period:
  assumes "scene_ok s" "cond_at pstTimeCondList p s = Some c" "cond_truth pstTimeCondList p s = Some False"
    "map_option scene_spec (scene_time_cond_true_init True p s) = Some True"
    "strstr (t_acTriggerType c) ''Every''" "atoi (acTriggerInterval c) = int n" "0 < n"
  shows "\<exists>s' es. time_checks m p s = Some (s', es) \<and> length es = m \<and>
    (\<forall>i < m. es ! i = (if i mod n = 0 then [Exec_Scene] else []))"
proof (cases m)
  case (Suc l)
  from time_update_result [OF assms(1,2), of True] assms(3-7) obtain s2 where
    s2: "scene_ok s2" "cond_truth pstTimeCondList p s2 = Some True" "ucSceneCondTrue s2"
      "scene_time_cond_true_update True p s = Some (s2, [Exec_Scene])"
      "cond_at pstTimeCondList p s2 = Some (c\<lparr>iTriggerInterval := int (n - 1)\<rparr>)"
    by (auto simp: Let_def same_cond_def next_interval_def of_nat_diff)
  from time_checks_phase [OF s2(1,5,2,3), of n "n - 1" l] assms(5-7) obtain s' es where
    e: "time_checks l p s2 = Some (s', es)" "length es = l"
      "\<forall>i < l. es ! i = (if (i + n - (n - 1)) mod n = 0 then [Exec_Scene] else [])" by auto
  have "([Exec_Scene] # es) ! j = (if j mod n = 0 then [Exec_Scene] else [])" if "j < Suc l" for j
  proof (cases j)
    case (Suc i)
    have "i + n - (n - 1) = Suc i" using assms(7) by simp
    with Suc e(3) that show ?thesis by simp
  qed simp
  with e s2(4) Suc show ?thesis by auto
qed simp

theorem time_every_period_witness:
  "\<exists>s' es. time_checks 7 event_ptr time_scene_example = Some (s', es) \<and>
     es ! 0 = [Exec_Scene] \<and> es ! 1 = [] \<and> es ! 4 = [] \<and> es ! 5 = [Exec_Scene] \<and> es ! 6 = []"
proof -
  have o: "cond_truth pstTimeCondList event_ptr time_scene_example = Some False"
    by (simp add: cond_truth_def find_list_def get_set_def get_cond_def event_ptr_def scene_example_def time_scene_example_def
        empty_list_def time_list_example_def bit_get_def)
  have i: "atoi (acTriggerInterval every5) = int 5" "strstr (t_acTriggerType every5) ''Every''"
    by (simp_all add: every5_def atoi_def isspace_def is_digit_def strstr_def upt_rec)
  have "map_option ucSceneCondTrue (scene_time_cond_true_init True event_ptr time_scene_example) = Some True"
    by code_simp
  then have k: "map_option scene_spec (scene_time_cond_true_init True event_ptr time_scene_example) = Some True"
    using time_kind.init_spec [OF time_scene_example_ok time_ptr_cond, of True] scene_ok_truth
    by (auto simp: time_funs truth_set_def)
  from time_every_period [OF time_scene_example_ok time_ptr_cond o k i(2,1), of 7] show ?thesis by auto
qed

section \<open>Properties of the evaluation of conditions\<close>

text \<open>\<open>h:m\<close> is not later than \<open>h':m'\<close>.\<close>

definition not_later :: "int \<Rightarrow> int \<Rightarrow> int \<Rightarrow> int \<Rightarrow> bool" where
  "not_later h m h' m' \<longleftrightarrow> h < h' \<or> h = h' \<and> m \<le> m'"

definition started :: "tm \<Rightarrow> time_cond \<Rightarrow> bool" where
  "started now c \<longleftrightarrow> not_later (atoi (acStartHour c)) (atoi (acStartMinu c)) (tm_hour now) (tm_min now)"

definition unfinished :: "tm \<Rightarrow> time_cond \<Rightarrow> bool" where
  "unfinished now c \<longleftrightarrow> not_later (tm_hour now) (tm_min now) (atoi (acEndHour c)) (atoi (acEndMinu c))"

definition weekdays :: "time_cond \<Rightarrow> int list" where
  "weekdays c = map (\<lambda>w. week_index w 0 WEEK) (strtok (CHR '','') (strncpy (acWeek c) WEEK_MAX_LEN))"

lemma time_cmp_started: "time_cmp (tm_hour now) (tm_min now) (atoi (acStartHour c)) (atoi (acStartMinu c)) < 0 \<longleftrightarrow> \<not> started now c"
  by (auto simp: time_cmp_def started_def not_later_def)

lemma time_cmp_unfinished: "time_cmp (tm_hour now) (tm_min now) (atoi (acEndHour c)) (atoi (acEndMinu c)) \<le> 0 \<longleftrightarrow> unfinished now c"
  by (auto simp: time_cmp_def unfinished_def not_later_def)

lemma lose_simps [simp]: "started now (c\<lparr>acLose := v\<rparr>) = started now c" "unfinished now (c\<lparr>acLose := v\<rparr>) = unfinished now c"
  by (simp_all add: started_def unfinished_def)

lemma time_cond_loop_result:
  "fst (time_cond_loop now ws n c) =
      n + int (length (filter (\<lambda>w. started now c \<and> unfinished now c \<and> week_index w 0 WEEK = tm_wday now) ws)) \<and>
   snd (time_cond_loop now ws n c) =
      (if (\<exists>w \<in> set ws. started now c \<and> \<not> (week_index w 0 WEEK = tm_wday now \<and> unfinished now c)) \<and> atoi (acRepeat c) = 0
       then c\<lparr>acLose := ''1''\<rparr> else c)"
proof (induction ws arbitrary: n c)
  case (Cons w ws)
  have ge: "time_cmp (tm_hour now) (tm_min now) (atoi (acStartHour c)) (atoi (acStartMinu c)) \<ge> 0 \<longleftrightarrow> started now c"
    using time_cmp_started [of now c] by linarith
  have s1: "strncpy ''1'' STATE_MAX_LEN = ''1''" by (simp add: len_defs)
  show ?case
    using Cons.IH [of n c] Cons.IH [of "n + 1" c] Cons.IH [of n "c\<lparr>acLose := ''1''\<rparr>"]
    by (auto simp: Let_def time_cmp_started time_cmp_unfinished ge s1)
qed simp

lemma time_cond_result:
  "scene_time_cond_is_true now c =
     (if acLose c = ''1'' then (False, c)
      else (tm_wday now \<in> set (weekdays c) \<and> started now c \<and> unfinished now c,
        if atoi (acRepeat c) = 0 \<and> started now c \<and> (\<exists>d \<in> set (weekdays c). d \<noteq> tm_wday now \<or> \<not> unfinished now c)
        then c\<lparr>acLose := ''1''\<rparr> else c))"
proof (cases "acLose c = ''1''")
  case True
  then show ?thesis by (simp add: scene_time_cond_is_true_def strncmp_eq_0_lit len_defs)
next
  case False
  let ?ws = "strtok (CHR '','') (strncpy (acWeek c) WEEK_MAX_LEN)"
  note r = time_cond_loop_result [of now ?ws 0 c]
  have "scene_time_cond_is_true now c = (fst (time_cond_loop now ?ws 0 c) \<noteq> 0, snd (time_cond_loop now ?ws 0 c))"
    using False by (simp add: scene_time_cond_is_true_def strncmp_eq_0_lit len_defs case_prod_beta' Let_def)
  also have "\<dots> = (tm_wday now \<in> set (weekdays c) \<and> started now c \<and> unfinished now c,
        if atoi (acRepeat c) = 0 \<and> started now c \<and> (\<exists>d \<in> set (weekdays c). d \<noteq> tm_wday now \<or> \<not> unfinished now c)
        then c\<lparr>acLose := ''1''\<rparr> else c)"
  proof (rule prod_eqI)
    have "(filter (\<lambda>w. started now c \<and> unfinished now c \<and> week_index w 0 WEEK = tm_wday now) ?ws = []) \<longleftrightarrow>
        \<not> (tm_wday now \<in> set (weekdays c) \<and> started now c \<and> unfinished now c)"
      by (force simp: weekdays_def filter_empty_conv)
    then show "fst (fst (time_cond_loop now ?ws 0 c) \<noteq> 0, snd (time_cond_loop now ?ws 0 c)) =
        fst (tm_wday now \<in> set (weekdays c) \<and> started now c \<and> unfinished now c,
          if atoi (acRepeat c) = 0 \<and> started now c \<and> (\<exists>d \<in> set (weekdays c). d \<noteq> tm_wday now \<or> \<not> unfinished now c)
          then c\<lparr>acLose := ''1''\<rparr> else c)"
      using conjunct1 [OF r] by auto
  qed (use conjunct2 [OF r] in \<open>auto simp: weekdays_def\<close>)
  finally show ?thesis using False by simp
qed

text \<open>C30. A time condition that is not lost is true exactly when today is one of its weekdays and the
  time lies between its start and its end, both included; a lost one is false. A condition that does
  not repeat is marked as lost when its start time has passed and one of its weekdays is not today or
  the end time has passed.\<close>

theorem scene_time_cond_is_true_exact:
  "scene_time_cond_is_true now c =
     (if acLose c = ''1'' then (False, c)
      else (tm_wday now \<in> set (weekdays c) \<and> started now c \<and> unfinished now c,
        if atoi (acRepeat c) = 0 \<and> started now c \<and> (\<exists>d \<in> set (weekdays c). d \<noteq> tm_wday now \<or> \<not> unfinished now c)
        then c\<lparr>acLose := ''1''\<rparr> else c))"
  by (rule time_cond_result)

theorem scene_time_cond_is_true_exact_witness:
  "scene_time_cond_is_true \<lparr>tm_wday = 2, tm_hour = 8, tm_min = 15\<rparr> (every5\<lparr>acWeek := ''Mon'', acRepeat := ''0''\<rparr>) =
     (False, every5\<lparr>acWeek := ''Mon'', acRepeat := ''0'', acLose := ''1''\<rparr>)"
proof -
  let ?c = "every5\<lparr>acWeek := ''Mon'', acRepeat := ''0''\<rparr>" and ?now = "\<lparr>tm_wday = 2, tm_hour = 8, tm_min = 15\<rparr>"
  have "weekdays ?c = [1]" "started ?now ?c" "acLose ?c = ''0''" "atoi (acRepeat ?c) = 0" by code_simp+
  then show ?thesis by (simp add: scene_time_cond_is_true_exact)
qed

text \<open>A condition that does not repeat and is due on another day is lost as soon as it is evaluated
  after its start time of day on a day that is not its own: it is false then and in every later
  evaluation, also on its own day, which it never gets to see.\<close>

theorem time_cond_lost_before_its_day:
  assumes "acLose c \<noteq> ''1''" "atoi (acRepeat c) = 0" "started now c" "weekdays c = [d]" "d \<noteq> tm_wday now"
  shows "\<not> fst (scene_time_cond_is_true now c) \<and>
    scene_time_cond_is_true later (snd (scene_time_cond_is_true now c)) = (False, c\<lparr>acLose := ''1''\<rparr>)"
  using assms by (simp add: time_cond_result)

theorem time_cond_lost_before_its_day_witness:
  "\<not> fst (scene_time_cond_is_true \<lparr>tm_wday = 2, tm_hour = 8, tm_min = 15\<rparr> (snd (scene_time_cond_is_true
      \<lparr>tm_wday = 1, tm_hour = 9, tm_min = 0\<rparr> (time_example\<lparr>acWeek := ''Tue'', acRepeat := ''0''\<rparr>)))) \<and>
   fst (scene_time_cond_is_true \<lparr>tm_wday = 2, tm_hour = 8, tm_min = 15\<rparr> (time_example\<lparr>acWeek := ''Tue'', acRepeat := ''0''\<rparr>))"
proof -
  let ?c = "time_example\<lparr>acWeek := ''Tue'', acRepeat := ''0''\<rparr>"
  let ?now = "\<lparr>tm_wday = 1, tm_hour = 9, tm_min = 0\<rparr>"
  have a: "atoi ''8'' = 8" "atoi ''0'' = 0" "atoi ''9'' = 9" "atoi ''30'' = 30"
    by (simp_all add: atoi_def isspace_def is_digit_def)
  have "strtok (CHR '','') ''Tue'' = [''Tue'']" by (rule strtok_single) simp_all
  moreover have "week_index ''Tue'' 0 WEEK = 2" by (simp add: WEEK_def strncmp_eq_0_lit len_defs)
  ultimately have w: "weekdays ?c = [2]" by (simp add: weekdays_def len_defs)
  have c: "acLose ?c \<noteq> ''1''" "atoi (acRepeat ?c) = 0" "started ?now ?c" "(2::int) \<noteq> tm_wday ?now"
    by (simp_all add: time_example_def started_def not_later_def a)
  have "fst (scene_time_cond_is_true \<lparr>tm_wday = 2, tm_hour = 8, tm_min = 15\<rparr> ?c)"
    using w c(1) by (simp add: time_cond_result started_def unfinished_def not_later_def time_example_def a)
  then show ?thesis using time_cond_lost_before_its_day [OF c(1-3) w c(4), of "\<lparr>tm_wday = 2, tm_hour = 8, tm_min = 15\<rparr>"] by simp
qed

text \<open>For a condition whose value has a decimal point, the operator \<open>Lss\<close> is evaluated like \<open>Gtr\<close>,
  whatever the rounding: the condition holds for the greater values.\<close>

theorem event_float_less_is_greater:
  assumes "is_int (e_acValue c) = 0" "is_float (e_acValue c) \<noteq> 0"
  shows "scene_event_cond_is_true rnd (c\<lparr>acActive := ''Lss''\<rparr>) e = scene_event_cond_is_true rnd (c\<lparr>acActive := ''Gtr''\<rparr>) e"
  using assms by (simp add: scene_event_cond_is_true_def active_is_def strncmp_eq_0_lit len_defs)

theorem event_float_less_is_greater_witness:
  "scene_event_cond_is_true id (event_example\<lparr>e_acValue := ''20.5'', acActive := ''Lss''\<rparr>)
     \<lparr>ev_acDevId = ''d1'', ev_acKey = ''k'', ev_acValue = ''21.0''\<rparr> = Some True"
proof -
  let ?c = "event_example\<lparr>e_acValue := ''20.5''\<rparr>" and ?e = "\<lparr>ev_acDevId = ''d1'', ev_acKey = ''k'', ev_acValue = ''21.0''\<rparr>"
  have h: "is_int (e_acValue ?c) = 0" "is_float (e_acValue ?c) \<noteq> 0"
    by (simp_all add: is_float_def is_digit_def)
  have "scene_event_cond_is_true id (?c\<lparr>acActive := ''Gtr''\<rparr>) ?e = Some True"
    by (simp add: scene_event_cond_is_true_def active_is_def strncmp_eq_0_lit len_defs is_float_def is_digit_def
        atof_def unsigned_val_def isspace_def exp_val_def pow10_def)
  then show ?thesis using event_float_less_is_greater [OF h, of id ?e] by simp
qed

text \<open>For conditions on integers and on strings the operators are what they say: exactly one of
  \<open>Equ\<close>, \<open>Gtr\<close> and \<open>Lss\<close> holds for an event, \<open>Not\<close> is the negation of \<open>Equ\<close>, and an unknown operator never
  holds.\<close>

theorem event_compare_trichotomy:
  assumes "is_int (e_acValue c) \<noteq> 0 \<or> is_float (e_acValue c) = 0"
  shows "\<exists>equ gtr lss. scene_event_cond_is_true rnd (c\<lparr>acActive := ''Equ''\<rparr>) e = Some equ \<and>
    scene_event_cond_is_true rnd (c\<lparr>acActive := ''Gtr''\<rparr>) e = Some gtr \<and>
    scene_event_cond_is_true rnd (c\<lparr>acActive := ''Lss''\<rparr>) e = Some lss \<and>
    scene_event_cond_is_true rnd (c\<lparr>acActive := ''Not''\<rparr>) e = Some (\<not> equ) \<and>
    (acActive c \<notin> {''Equ'', ''Gtr'', ''Lss'', ''Not''} \<longrightarrow> scene_event_cond_is_true rnd c e = Some False) \<and>
    (equ \<and> \<not> gtr \<and> \<not> lss \<or> \<not> equ \<and> gtr \<and> \<not> lss \<or> \<not> equ \<and> \<not> gtr \<and> lss)"
  using assms strcmp_range [of "ev_acValue e" "e_acValue c"]
  by (cases "is_int (e_acValue c) = 0")
    (auto simp: scene_event_cond_is_true_def active_is_def strncmp_eq_0_lit len_defs Let_def)

theorem event_compare_trichotomy_witness:
  "scene_event_cond_is_true id (event_example\<lparr>e_acValue := ''5'', acActive := ''Lss''\<rparr>)
     \<lparr>ev_acDevId = ''d1'', ev_acKey = ''k'', ev_acValue = ''3''\<rparr> = Some True"
proof -
  let ?c = "event_example\<lparr>e_acValue := ''5''\<rparr>" and ?e = "\<lparr>ev_acDevId = ''d1'', ev_acKey = ''k'', ev_acValue = ''3''\<rparr>"
  have h: "is_int (e_acValue ?c) \<noteq> 0 \<or> is_float (e_acValue ?c) = 0" by (simp add: is_digit_def)
  have "scene_event_cond_is_true id (?c\<lparr>acActive := ''Equ''\<rparr>) ?e = Some False"
    "scene_event_cond_is_true id (?c\<lparr>acActive := ''Gtr''\<rparr>) ?e = Some False"
    by (simp_all add: scene_event_cond_is_true_def active_is_def strncmp_eq_0_lit len_defs is_digit_def atoi_def isspace_def)
  with event_compare_trichotomy [OF h, of id ?e] show ?thesis by auto
qed

end
