(* ===== verification/Scene_Sync.thy ===== *)
theory Scene_Sync
  imports Honyar_Prelude "HOL-Library.Multiset"
begin

text \<open>
  State synchronisation between devices: \<open>hylink/src/local_scene/scene_sync.c\<close>. For every device and
  attribute there is a node with the values that were requested; a flag word marks the values that
  were sent already. A report of a device is an answer when it matches a sent value. When requests
  come too fast a node is protected: values that were not sent are dropped, and sending is delayed.

  The global list \<open>g_pstSceneSyncEventList\<close> is created on first use, so the state is an option; it is the
  sequence of nodes that the linked list of theory \<open>Link_List\<close> implements, and \<open>mem\<close> tells whether an
  allocation succeeds. The clock is the parameter \<open>now\<close>, in seconds. The message that is sent is the
  triple of device, attribute and value, not its JSON text; \<open>send n\<close> is the status of the \<open>n\<close>-th message of
  a pass. An access outside the array of 32 values and a shift by 32 or more have no defined result.
\<close>

section \<open>Data\<close>

definition EVENT_MAX_NUM :: nat where "EVENT_MAX_NUM = 32"
definition SYNC_EVENT_LOSE_TIME :: int where "SYNC_EVENT_LOSE_TIME = 30"
definition SYNC_EVENT_SAFE_TIME :: int where "SYNC_EVENT_SAFE_TIME = 2"
definition SYNC_EVENT_DELAY_TIME :: int where "SYNC_EVENT_DELAY_TIME = 1"
definition SYNC_EVENT_SAFE_NUM :: int where "SYNC_EVENT_SAFE_NUM = 4"

lemmas sync_consts = EVENT_MAX_NUM_def SYNC_EVENT_LOSE_TIME_def SYNC_EVENT_SAFE_TIME_def
  SYNC_EVENT_DELAY_TIME_def SYNC_EVENT_SAFE_NUM_def

record scene_sync_node =
  sy_acDevId :: string
  sy_acKey :: string
  iValueTotal :: nat
  aiValue :: "int list"
  uiSendFlag :: u32
  iProtect :: int
  sy_iCount :: int
  stActiveTime :: int

type_synonym sync_list = "scene_sync_node list option"
type_synonym sync_msg = "string \<times> string \<times> string"

section \<open>Flags and arrays\<close>

definition send_flag_get :: "u32 \<Rightarrow> nat \<Rightarrow> bool option" where
  "send_flag_get w i = (if i < 32 then Some (drop_bit i w AND 1 = 1) else None)"

definition send_flag_set :: "u32 \<Rightarrow> nat \<Rightarrow> u32 option" where
  "send_flag_set w i = (if i < 32 then Some (w OR push_bit i 1) else None)"

text \<open>The code negates the mask with the logical operator \<open>!\<close>, which yields 0 or 1.\<close>

definition send_flag_clean :: "u32 \<Rightarrow> nat \<Rightarrow> u32 option" where
  "send_flag_clean w i = (if i < 32 then Some (w AND (if push_bit i 1 = (0 :: u32) then 1 else 0)) else None)"

definition arr_get :: "int list \<Rightarrow> nat \<Rightarrow> int option" where
  "arr_get xs i = (if i < length xs then Some (xs ! i) else None)"

definition arr_put :: "int list \<Rightarrow> nat \<Rightarrow> int \<Rightarrow> int list option" where
  "arr_put xs i v = (if i < length xs then Some (xs[i := v]) else None)"

text \<open>The text that \<open>snprintf\<close> writes for \<open>%d\<close>.\<close>

fun nat_str :: "nat \<Rightarrow> string" where
  "nat_str n = (if n < 10 then [char_of (48 + n)] else nat_str (n div 10) @ [char_of (48 + n mod 10)])"

declare nat_str.simps [simp del]

definition int_str :: "int \<Rightarrow> string" where
  "int_str i = (if i < 0 then CHR ''-'' # nat_str (nat (- i)) else nat_str (nat i))"

section \<open>Requests\<close>

definition is_event :: "string \<Rightarrow> string \<Rightarrow> scene_sync_node \<Rightarrow> bool" where
  "is_event pcDevId pcKey nd \<longleftrightarrow> strncmp (sy_acDevId nd) pcDevId 64 = 0 \<and> strncmp (sy_acKey nd) pcKey 128 = 0"

fun keep_sent :: "scene_sync_node \<Rightarrow> nat list \<Rightarrow> nat \<Rightarrow> int list \<Rightarrow> u32 \<Rightarrow> (nat \<times> int list \<times> u32) option" where
  "keep_sent nd [] n vs fl = Some (n, vs, fl)"
| "keep_sent nd (i # is) n vs fl = do {
     b \<leftarrow> send_flag_get (uiSendFlag nd) i;
     if b then do {
       v \<leftarrow> arr_get (aiValue nd) i;
       vs' \<leftarrow> arr_put vs n v;
       fl' \<leftarrow> send_flag_set fl n;
       keep_sent nd is (Suc n) vs' fl'
     } else keep_sent nd is n vs fl
   }"

definition drop_unsent :: "scene_sync_node \<Rightarrow> scene_sync_node option" where
  "drop_unsent nd = do {
     (n, vs, fl) \<leftarrow> keep_sent nd [0..<iValueTotal nd] 0 (replicate EVENT_MAX_NUM 0) 0;
     Some (nd\<lparr>iValueTotal := n, aiValue := vs, uiSendFlag := fl\<rparr>)
   }"

definition append_value :: "string \<Rightarrow> scene_sync_node \<Rightarrow> scene_sync_node option" where
  "append_value pcValue nd = do {
     vs \<leftarrow> arr_put (aiValue nd) (iValueTotal nd) (atoi pcValue);
     fl \<leftarrow> send_flag_clean (uiSendFlag nd) (iValueTotal nd);
     Some (nd\<lparr>aiValue := vs, uiSendFlag := fl, iValueTotal := iValueTotal nd + 1\<rparr>)
   }"

definition req_add_node :: "int \<Rightarrow> string \<Rightarrow> scene_sync_node \<Rightarrow> scene_sync_node option" where
  "req_add_node now pcValue nd = do {
     let nd1 = (if now - stActiveTime nd < SYNC_EVENT_SAFE_TIME then nd\<lparr>sy_iCount := sy_iCount nd + 1\<rparr>
                else nd\<lparr>sy_iCount := 0\<rparr>);
     let nd2 = (if iProtect nd1 = 0 \<and> sy_iCount nd1 \<ge> SYNC_EVENT_SAFE_NUM then nd1\<lparr>iProtect := 1\<rparr> else nd1);
     nd3 \<leftarrow> (if iProtect nd2 = 1 then drop_unsent nd2 \<bind> append_value pcValue else append_value pcValue nd2);
     Some (nd3\<lparr>stActiveTime := now\<rparr>)
   }"

fun req_add_loop :: "int \<Rightarrow> string \<Rightarrow> string \<Rightarrow> string \<Rightarrow> scene_sync_node list \<Rightarrow> (bool \<times> scene_sync_node list) option" where
  "req_add_loop now pcDevId pcKey pcValue [] = Some (False, [])"
| "req_add_loop now pcDevId pcKey pcValue (nd # nds) = do {
     nd' \<leftarrow> (if is_event pcDevId pcKey nd then req_add_node now pcValue nd else Some nd);
     (found, nds') \<leftarrow> req_add_loop now pcDevId pcKey pcValue nds;
     Some (is_event pcDevId pcKey nd \<or> found, nd' # nds')
   }"

definition new_sync_node :: "int \<Rightarrow> string \<Rightarrow> string \<Rightarrow> string \<Rightarrow> scene_sync_node" where
  "new_sync_node now pcDevId pcKey pcValue = \<lparr>sy_acDevId = strncpy pcDevId 64, sy_acKey = strncpy pcKey 128,
     iValueTotal = 1, aiValue = (replicate EVENT_MAX_NUM 0)[0 := atoi pcValue], uiSendFlag = 0, iProtect = 0,
     sy_iCount = 1, stActiveTime = now\<rparr>"

text \<open>\<open>mem\<close>: the allocation of the list and that of a new node.\<close>

definition scene_sync_event_req_add :: "bool \<times> bool \<Rightarrow> int \<Rightarrow> string \<Rightarrow> string \<Rightarrow> string \<Rightarrow> sync_list \<Rightarrow>
    (int \<times> sync_list) option" where
  "scene_sync_event_req_add mem now pcDevId pcKey pcValue g =
     (if g = None \<and> \<not> fst mem then Some (-1, None)
      else do {
        (found, nds) \<leftarrow> req_add_loop now pcDevId pcKey pcValue (case g of None \<Rightarrow> [] | Some l \<Rightarrow> l);
        Some (0, Some (if found then nds else if snd mem then nds @ [new_sync_node now pcDevId pcKey pcValue] else nds))
      })"

section \<open>Sending\<close>

text \<open>The values of a node that have not been sent; \<open>iRet\<close> is the status of the last message.\<close>

fun send_loop :: "(nat \<Rightarrow> int) \<Rightarrow> nat list \<Rightarrow> scene_sync_node \<Rightarrow> sync_msg list \<Rightarrow> int \<Rightarrow>
    (scene_sync_node \<times> sync_msg list \<times> int) option" where
  "send_loop send [] nd msgs iRet = Some (nd, msgs, iRet)"
| "send_loop send (i # is) nd msgs iRet = do {
     b \<leftarrow> send_flag_get (uiSendFlag nd) i;
     if \<not> b then do {
       v \<leftarrow> arr_get (aiValue nd) i;
       let iRet' = send (length msgs);
       let msgs' = msgs @ [(sy_acDevId nd, sy_acKey nd, snprintf 128 (int_str v))];
       if iRet' = 0 then do {
         fl \<leftarrow> send_flag_set (uiSendFlag nd) i;
         send_loop send is (nd\<lparr>uiSendFlag := fl\<rparr>) msgs' iRet'
       } else send_loop send is nd msgs' iRet'
     } else send_loop send is nd msgs iRet
   }"

definition req_exec_node :: "(nat \<Rightarrow> int) \<Rightarrow> int \<Rightarrow> scene_sync_node \<Rightarrow> sync_msg list \<Rightarrow> int \<Rightarrow>
    (scene_sync_node \<times> sync_msg list \<times> int) option" where
  "req_exec_node send now nd msgs iRet =
     (let nd1 = (if iProtect nd = 1 \<and> now - stActiveTime nd \<ge> SYNC_EVENT_SAFE_TIME
                 then nd\<lparr>iProtect := 0, sy_iCount := 0\<rparr> else nd) in
      if iProtect nd = 1 \<and> now - stActiveTime nd < SYNC_EVENT_DELAY_TIME then Some (nd1, msgs, iRet)
      else send_loop send [0..<iValueTotal nd1] nd1 msgs iRet)"

fun req_exec_loop :: "(nat \<Rightarrow> int) \<Rightarrow> int \<Rightarrow> scene_sync_node list \<Rightarrow> sync_msg list \<Rightarrow> int \<Rightarrow>
    (scene_sync_node list \<times> sync_msg list \<times> int) option" where
  "req_exec_loop send now [] msgs iRet = Some ([], msgs, iRet)"
| "req_exec_loop send now (nd # nds) msgs iRet =
     (if iValueTotal nd = 0 \<or> now - stActiveTime nd \<ge> SYNC_EVENT_LOSE_TIME
      then req_exec_loop send now nds msgs iRet
      else do {
        (nd2, msgs2, iRet2) \<leftarrow> req_exec_node send now nd msgs iRet;
        (nds', msgs', iRet') \<leftarrow> req_exec_loop send now nds msgs2 iRet2;
        Some (nd2 # nds', msgs', iRet')
      })"

definition scene_sync_event_req_exec :: "bool \<Rightarrow> (nat \<Rightarrow> int) \<Rightarrow> int \<Rightarrow> sync_list \<Rightarrow> (int \<times> sync_list \<times> sync_msg list) option" where
  "scene_sync_event_req_exec mem send now g = (case g of
       None \<Rightarrow> Some (if mem then (0, Some [], []) else (-1, None, []))
     | Some nds \<Rightarrow> do {
         (nds', msgs, iRet) \<leftarrow> req_exec_loop send now nds [] 0;
         Some (iRet, Some nds', msgs)
       })"

section \<open>Reports\<close>

fun match_loop :: "string \<Rightarrow> scene_sync_node \<Rightarrow> nat list \<Rightarrow> bool \<Rightarrow> nat \<Rightarrow> int list \<Rightarrow> u32 \<Rightarrow>
    (bool \<times> nat \<times> int list \<times> u32) option" where
  "match_loop pcValue nd [] found n vs fl = Some (found, n, vs, fl)"
| "match_loop pcValue nd (i # is) found n vs fl = do {
     b \<leftarrow> send_flag_get (uiSendFlag nd) i;
     v \<leftarrow> arr_get (aiValue nd) i;
     if b \<and> \<not> found \<and> v = atoi pcValue then match_loop pcValue nd is True n vs fl
     else do {
       vs' \<leftarrow> arr_put vs n v;
       fl' \<leftarrow> (if b then send_flag_set fl n else send_flag_clean fl n);
       match_loop pcValue nd is found (Suc n) vs' fl'
     }
   }"

fun event_loop :: "int \<Rightarrow> string \<Rightarrow> string \<Rightarrow> string \<Rightarrow> scene_sync_node list \<Rightarrow> bool \<Rightarrow> (bool \<times> scene_sync_node list) option" where
  "event_loop now pcDevId pcKey pcValue [] found = Some (found, [])"
| "event_loop now pcDevId pcKey pcValue (nd # nds) found =
     (if is_event pcDevId pcKey nd then do {
        let nd1 = nd\<lparr>stActiveTime := now\<rparr>;
        (found1, n, vs, fl) \<leftarrow> match_loop pcValue nd1 [0..<iValueTotal nd1] found 0 (replicate EVENT_MAX_NUM 0) 0;
        (found', nds') \<leftarrow> event_loop now pcDevId pcKey pcValue nds found1;
        Some (found', nd1\<lparr>iValueTotal := n, aiValue := vs, uiSendFlag := fl\<rparr> # nds')
      } else do {
        (found', nds') \<leftarrow> event_loop now pcDevId pcKey pcValue nds found;
        Some (found', nd # nds')
      })"

definition scene_sync_event :: "bool \<Rightarrow> int \<Rightarrow> string \<Rightarrow> string \<Rightarrow> string \<Rightarrow> sync_list \<Rightarrow> (int \<times> sync_list) option" where
  "scene_sync_event mem now pcDevId pcKey pcValue g = (case g of
       None \<Rightarrow> Some (-1, if mem then Some [] else None)
     | Some nds \<Rightarrow>
         if nds = [] then Some (-1, Some [])
         else do {
           (found, nds') \<leftarrow> event_loop now pcDevId pcKey pcValue nds False;
           Some (if found then 1 else 0, Some nds')
         })"

section \<open>Lemmas\<close>

lemma flag_get_bit: "i < 32 \<Longrightarrow> send_flag_get w i = Some (bit w i)"
  by (simp add: send_flag_get_def bit_iff_odd_drop_bit odd_iff_mod_2_eq_one and_one_eq)

lemma flag_set_bits:
  assumes "i < 32"
  obtains w' where "send_flag_set w i = Some w'" "\<And>j. bit w' j \<longleftrightarrow> j = i \<or> bit w j"
proof -
  have "bit (w OR push_bit i 1) j \<longleftrightarrow> j = i \<or> bit w j" for j
    using assms by (auto simp: bit_or_iff bit_exp_iff)
  then show ?thesis using that assms by (simp add: send_flag_set_def)
qed

lemma flag_clean_all: "i < 32 \<Longrightarrow> send_flag_clean w i = Some 0"
proof -
  assume "i < 32"
  then have "bit (push_bit i (1 :: u32)) i" by (simp add: bit_exp_iff)
  then have "push_bit i (1 :: u32) \<noteq> 0" by (metis bit_0_eq bot_apply bot_bool_def)
  with \<open>i < 32\<close> show ?thesis by (simp add: send_flag_clean_def)
qed

definition node_wf :: "scene_sync_node \<Rightarrow> bool" where
  "node_wf nd \<longleftrightarrow> length (aiValue nd) = 32 \<and> iValueTotal nd \<le> 32"

text \<open>The values of a node and whether they were sent.\<close>

definition items :: "scene_sync_node \<Rightarrow> (int \<times> bool) list" where
  "items nd = map (\<lambda>i. (aiValue nd ! i, bit (uiSendFlag nd) i)) [0..<iValueTotal nd]"

definition sent_values :: "scene_sync_node \<Rightarrow> int list" where
  "sent_values nd = map fst (filter snd (items nd))"

definition all_values :: "scene_sync_node \<Rightarrow> int list" where
  "all_values nd = map fst (items nd)"

lemma all_values_take: "node_wf nd \<Longrightarrow> all_values nd = take (iValueTotal nd) (aiValue nd)"
  by (auto simp: all_values_def items_def node_wf_def intro!: nth_equalityI)

lemma sent_values_filter: "sent_values nd = map ((!) (aiValue nd)) (filter (bit (uiSendFlag nd)) [0..<iValueTotal nd])"
  by (simp add: sent_values_def items_def filter_map o_def)

lemma keep_sent_result:
  assumes "length (aiValue nd) = 32" "\<forall>i \<in> set is. i < 32" "n + length is \<le> 32" "length vs = 32"
  shows "\<exists>vs' fl'. keep_sent nd is n vs fl = Some (n + length (filter (bit (uiSendFlag nd)) is), vs', fl') \<and> length vs' = 32 \<and>
    take (n + length (filter (bit (uiSendFlag nd)) is)) vs' =
      take n vs @ map ((!) (aiValue nd)) (filter (bit (uiSendFlag nd)) is)"
  using assms
proof (induction "is" arbitrary: n vs fl)
  case (Cons i "is")
  have i: "i < 32" "n < 32" using Cons.prems by auto
  show ?case
  proof (cases "bit (uiSendFlag nd) i")
    case True
    obtain fl' where f: "send_flag_set fl n = Some fl'" by (rule flag_set_bits [OF i(2)])
    let ?vs = "vs[n := aiValue nd ! i]"
    have tk: "take (Suc n) ?vs = take n vs @ [aiValue nd ! i]" using i(2) Cons.prems(4) by (simp add: take_Suc_conv_app_nth)
    from Cons.IH [of "Suc n" ?vs fl'] Cons.prems obtain vs' fl2 where
      "keep_sent nd is (Suc n) ?vs fl' = Some (Suc n + length (filter (bit (uiSendFlag nd)) is), vs', fl2)" "length vs' = 32"
      "take (Suc n + length (filter (bit (uiSendFlag nd)) is)) vs' =
        take (Suc n) ?vs @ map ((!) (aiValue nd)) (filter (bit (uiSendFlag nd)) is)" by auto
    then show ?thesis using True i f Cons.prems tk by (simp add: flag_get_bit arr_get_def arr_put_def)
  next
    case False
    with Cons.IH [of n vs fl] Cons.prems i show ?thesis by (simp add: flag_get_bit)
  qed
qed simp

lemma drop_unsent_result:
  assumes "node_wf nd"
  shows "\<exists>nd'. drop_unsent nd = Some nd' \<and> node_wf nd' \<and> all_values nd' = sent_values nd \<and>
    sy_acDevId nd' = sy_acDevId nd \<and> sy_acKey nd' = sy_acKey nd"
proof -
  let ?is = "[0..<iValueTotal nd]" and ?ks = "filter (bit (uiSendFlag nd)) [0..<iValueTotal nd]"
  have l: "length ?ks \<le> 32" using assms length_filter_le [of "bit (uiSendFlag nd)" ?is] by (simp add: node_wf_def)
  from keep_sent_result [of nd ?is 0 "replicate EVENT_MAX_NUM 0" 0] assms obtain vs' fl' where
    r: "keep_sent nd ?is 0 (replicate EVENT_MAX_NUM 0) 0 = Some (length ?ks, vs', fl')" "length vs' = 32"
      "take (length ?ks) vs' = map ((!) (aiValue nd)) ?ks"
    by (auto simp: node_wf_def EVENT_MAX_NUM_def)
  let ?nd = "nd\<lparr>iValueTotal := length ?ks, aiValue := vs', uiSendFlag := fl'\<rparr>"
  have "node_wf ?nd" using r(2) l by (simp add: node_wf_def)
  moreover have "all_values ?nd = sent_values nd" using all_values_take [OF \<open>node_wf ?nd\<close>] r(3) by (simp add: sent_values_filter)
  ultimately show ?thesis using r(1) by (simp add: drop_unsent_def)
qed

lemma append_value_result:
  assumes "node_wf nd"
  shows "append_value v nd = (if iValueTotal nd = 32 then None
    else Some (nd\<lparr>aiValue := (aiValue nd)[iValueTotal nd := atoi v], uiSendFlag := 0, iValueTotal := iValueTotal nd + 1\<rparr>))"
  using assms by (auto simp: append_value_def arr_put_def flag_clean_all node_wf_def)

lemma append_value_items:
  assumes "node_wf nd" "iValueTotal nd < 32"
    "nd' = nd\<lparr>aiValue := (aiValue nd)[iValueTotal nd := atoi v], uiSendFlag := 0, iValueTotal := iValueTotal nd + 1\<rparr>"
  shows "node_wf nd'" "items nd' = map (\<lambda>x. (x, False)) (all_values nd @ [atoi v])"
proof -
  show w: "node_wf nd'" using assms by (simp add: node_wf_def)
  have "all_values nd' = all_values nd @ [atoi v]"
    using all_values_take [OF w] all_values_take [OF assms(1)] assms by (simp add: node_wf_def take_Suc_conv_app_nth)
  moreover have "items nd' = map (\<lambda>x. (x, False)) (all_values nd')"
    using assms(3) by (simp add: items_def all_values_def)
  ultimately show "items nd' = map (\<lambda>x. (x, False)) (all_values nd @ [atoi v])" by simp
qed

definition protects :: "int \<Rightarrow> scene_sync_node \<Rightarrow> bool" where
  "protects now nd \<longleftrightarrow> iProtect nd = 1 \<or> iProtect nd = 0 \<and> now - stActiveTime nd < 2 \<and> sy_iCount nd + 1 \<ge> 4"

definition kept_values :: "int \<Rightarrow> scene_sync_node \<Rightarrow> int list" where
  "kept_values now nd = (if protects now nd then sent_values nd else all_values nd)"

lemma length_all_values: "length (all_values nd) = iValueTotal nd"
  by (simp add: all_values_def items_def)

lemma req_add_node_result:
  assumes "node_wf nd"
  shows "if length (kept_values now nd) = 32 then req_add_node now v nd = None
    else \<exists>nd'. req_add_node now v nd = Some nd' \<and> node_wf nd' \<and>
      items nd' = map (\<lambda>x. (x, False)) (kept_values now nd @ [atoi v]) \<and>
      sy_acDevId nd' = sy_acDevId nd \<and> sy_acKey nd' = sy_acKey nd \<and> stActiveTime nd' = now"
proof -
  define nd2 where "nd2 = (let nd1 = (if now - stActiveTime nd < SYNC_EVENT_SAFE_TIME then nd\<lparr>sy_iCount := sy_iCount nd + 1\<rparr>
                else nd\<lparr>sy_iCount := 0\<rparr>) in
     if iProtect nd1 = 0 \<and> sy_iCount nd1 \<ge> SYNC_EVENT_SAFE_NUM then nd1\<lparr>iProtect := 1\<rparr> else nd1)"
  have n2: "node_wf nd2" "all_values nd2 = all_values nd" "sent_values nd2 = sent_values nd"
    "sy_acDevId nd2 = sy_acDevId nd" "sy_acKey nd2 = sy_acKey nd" "iProtect nd2 = 1 \<longleftrightarrow> protects now nd"
    using assms by (auto simp: nd2_def Let_def node_wf_def all_values_def sent_values_def items_def protects_def sync_consts)
  obtain nd3 where n3: "(if iProtect nd2 = 1 then drop_unsent nd2 else Some nd2) = Some nd3" "node_wf nd3"
    "all_values nd3 = kept_values now nd" "sy_acDevId nd3 = sy_acDevId nd" "sy_acKey nd3 = sy_acKey nd"
    using drop_unsent_result [OF n2(1)] n2 by (auto simp: kept_values_def)
  have e: "req_add_node now v nd = append_value v nd3 \<bind> (\<lambda>x. Some (x\<lparr>stActiveTime := now\<rparr>))"
    using n3(1) by (auto simp: req_add_node_def Let_def nd2_def [unfolded Let_def, symmetric] split: if_splits)
  have t: "iValueTotal nd3 = length (kept_values now nd)" using length_all_values [of nd3] n3(3) by simp
  have w: "node_wf (x\<lparr>stActiveTime := now\<rparr>) = node_wf x" "items (x\<lparr>stActiveTime := now\<rparr>) = items x" for x
    by (simp_all add: node_wf_def items_def)
  show ?thesis
  proof (cases "iValueTotal nd3 = 32")
    case True
    then show ?thesis using e t append_value_result [OF n3(2), of v] by simp
  next
    case False
    then have lt: "iValueTotal nd3 < 32" using n3(2) by (simp add: node_wf_def)
    note a = append_value_items [OF n3(2) lt refl, of v]
    show ?thesis using False e t a append_value_result [OF n3(2), of v] n3(3-5) by (simp add: w)
  qed
qed

lemma req_add_loop_skip:
  assumes "\<forall>nd \<in> set nds. \<not> is_event dev key nd"
  shows "req_add_loop now dev key v nds = Some (False, nds)"
  using assms by (induction nds) auto

lemma req_add_loop_one:
  assumes "\<forall>nd \<in> set pre. \<not> is_event dev key nd" "\<forall>nd \<in> set post. \<not> is_event dev key nd" "is_event dev key nd"
  shows "req_add_loop now dev key v (pre @ nd # post) =
    req_add_node now v nd \<bind> (\<lambda>nd'. Some (True, pre @ nd' # post))"
  using assms(1)
proof (induction pre)
  case Nil
  then show ?case using assms(2,3) by (simp add: req_add_loop_skip) 
next
  case (Cons x pre)
  then show ?case by (cases "req_add_node now v nd") auto
qed

text \<open>Sending: which messages a pass sends, and what remains to be sent.\<close>

definition msg_of :: "scene_sync_node \<Rightarrow> int \<Rightarrow> sync_msg" where
  "msg_of nd v = (sy_acDevId nd, sy_acKey nd, snprintf 128 (int_str v))"

definition unsent_values :: "scene_sync_node \<Rightarrow> int list" where
  "unsent_values nd = map fst (filter (Not \<circ> snd) (items nd))"

definition live :: "int \<Rightarrow> scene_sync_node \<Rightarrow> bool" where
  "live now nd \<longleftrightarrow> iValueTotal nd \<noteq> 0 \<and> now - stActiveTime nd < 30"

definition delayed :: "int \<Rightarrow> scene_sync_node \<Rightarrow> bool" where
  "delayed now nd \<longleftrightarrow> iProtect nd = 1 \<and> now - stActiveTime nd < 1"

definition pass_msgs :: "int \<Rightarrow> scene_sync_node \<Rightarrow> sync_msg list" where
  "pass_msgs now nd = (if delayed now nd then [] else map (msg_of nd) (unsent_values nd))"

definition reliable :: "(nat \<Rightarrow> int) \<Rightarrow> bool" where
  "reliable send \<longleftrightarrow> (\<forall>n. send n = 0)"

lemma unsent_values_filter:
  "unsent_values nd = map ((!) (aiValue nd)) (filter (\<lambda>i. \<not> bit (uiSendFlag nd) i) [0..<iValueTotal nd])"
  by (simp add: unsent_values_def items_def filter_map o_def)

lemma send_loop_result:
  assumes "length (aiValue nd) = 32" "\<forall>i \<in> set is. i < 32" "distinct is"
  shows "\<exists>fl' r. send_loop send is nd msgs iRet = Some (nd\<lparr>uiSendFlag := fl'\<rparr>,
      msgs @ map (\<lambda>i. msg_of nd (aiValue nd ! i)) (filter (\<lambda>i. \<not> bit (uiSendFlag nd) i) is), r) \<and>
    (reliable send \<longrightarrow> (\<forall>j. bit fl' j \<longleftrightarrow> bit (uiSendFlag nd) j \<or> j \<in> set is) \<and> (iRet = 0 \<longrightarrow> r = 0))"
  using assms
proof (induction "is" arbitrary: nd msgs iRet)
  case Nil
  show ?case by (intro exI [of _ "uiSendFlag nd"] exI [of _ iRet]) simp
next
  case (Cons i "is")
  have i: "i < 32" "i \<notin> set is" using Cons.prems by auto
  show ?case
  proof (cases "bit (uiSendFlag nd) i")
    case True
    from Cons.IH [of nd msgs iRet] Cons.prems obtain fl' r where
      "send_loop send is nd msgs iRet = Some (nd\<lparr>uiSendFlag := fl'\<rparr>,
        msgs @ map (\<lambda>i. msg_of nd (aiValue nd ! i)) (filter (\<lambda>i. \<not> bit (uiSendFlag nd) i) is), r)"
      "reliable send \<longrightarrow> (\<forall>j. bit fl' j \<longleftrightarrow> bit (uiSendFlag nd) j \<or> j \<in> set is) \<and> (iRet = 0 \<longrightarrow> r = 0)" by auto
    with True i have "send_loop send (i # is) nd msgs iRet = Some (nd\<lparr>uiSendFlag := fl'\<rparr>,
        msgs @ map (\<lambda>i. msg_of nd (aiValue nd ! i)) (filter (\<lambda>i. \<not> bit (uiSendFlag nd) i) (i # is)), r) \<and>
      (reliable send \<longrightarrow> (\<forall>j. bit fl' j \<longleftrightarrow> bit (uiSendFlag nd) j \<or> j \<in> set (i # is)) \<and> (iRet = 0 \<longrightarrow> r = 0))"
      by (auto simp: flag_get_bit)
    then show ?thesis by blast
  next
    case False
    let ?m = "msgs @ [msg_of nd (aiValue nd ! i)]"
    obtain fl where fl: "send_flag_set (uiSendFlag nd) i = Some fl" "\<And>j. bit fl j \<longleftrightarrow> j = i \<or> bit (uiSendFlag nd) j"
      using flag_set_bits [OF i(1), of "uiSendFlag nd"] by metis
    let ?nd = "if send (length msgs) = 0 then nd\<lparr>uiSendFlag := fl\<rparr> else nd"
    have s: "send_loop send (i # is) nd msgs iRet = send_loop send is ?nd ?m (send (length msgs))"
      using False i(1) Cons.prems(1) fl(1) by (simp add: flag_get_bit arr_get_def msg_of_def Let_def)
    have ff: "filter (\<lambda>j. \<not> bit (uiSendFlag ?nd) j) is = filter (\<lambda>j. \<not> bit (uiSendFlag nd) j) is"
      using fl(2) i(2) by (auto intro!: filter_cong)
    have nd: "aiValue ?nd = aiValue nd" "msg_of ?nd = msg_of nd" "?nd\<lparr>uiSendFlag := x\<rparr> = nd\<lparr>uiSendFlag := x\<rparr>" for x
      by (auto simp: msg_of_def fun_eq_iff)
    from Cons.IH [of ?nd ?m "send (length msgs)"] Cons.prems obtain fl' r where
      r: "send_loop send is ?nd ?m (send (length msgs)) = Some (nd\<lparr>uiSendFlag := fl'\<rparr>,
        ?m @ map (\<lambda>i. msg_of nd (aiValue nd ! i)) (filter (\<lambda>i. \<not> bit (uiSendFlag nd) i) is), r)"
        "reliable send \<longrightarrow> (\<forall>j. bit fl' j \<longleftrightarrow> bit (uiSendFlag ?nd) j \<or> j \<in> set is) \<and> (send (length msgs) = 0 \<longrightarrow> r = 0)"
      unfolding ff nd by auto
    have "reliable send \<longrightarrow> (\<forall>j. bit fl' j \<longleftrightarrow> bit (uiSendFlag nd) j \<or> j \<in> set (i # is)) \<and> r = 0"
      using r(2) fl(2) by (auto simp: reliable_def)
    moreover have "send_loop send (i # is) nd msgs iRet = Some (nd\<lparr>uiSendFlag := fl'\<rparr>,
        msgs @ map (\<lambda>i. msg_of nd (aiValue nd ! i)) (filter (\<lambda>i. \<not> bit (uiSendFlag nd) i) (i # is)), r)"
      using r(1) s False by simp
    ultimately show ?thesis by blast
  qed
qed

lemma req_exec_node_result:
  assumes "node_wf nd" "live now nd"
  shows "\<exists>nd2 r. req_exec_node send now nd msgs iRet = Some (nd2, msgs @ pass_msgs now nd, r) \<and> node_wf nd2 \<and>
    live now nd2 \<and> (reliable send \<longrightarrow> (iRet = 0 \<longrightarrow> r = 0) \<and> (\<forall>msgs. req_exec_node send now nd2 msgs 0 = Some (nd2, msgs, 0)))"
proof (cases "delayed now nd")
  case True
  then show ?thesis using assms by (auto simp: req_exec_node_def pass_msgs_def delayed_def sync_consts)
next
  case False
  define nd1 where "nd1 = (if iProtect nd = 1 \<and> now - stActiveTime nd \<ge> 2 then nd\<lparr>iProtect := 0, sy_iCount := 0\<rparr> else nd)"
  have n1: "aiValue nd1 = aiValue nd" "iValueTotal nd1 = iValueTotal nd" "uiSendFlag nd1 = uiSendFlag nd" "msg_of nd1 = msg_of nd"
    "stActiveTime nd1 = stActiveTime nd" "\<not> delayed now nd1" "\<not> (iProtect nd1 = 1 \<and> now - stActiveTime nd1 \<ge> 2)"
    using False by (auto simp: nd1_def msg_of_def delayed_def fun_eq_iff)
  have i: "\<forall>i \<in> set [0..<iValueTotal nd1]. i < 32" "length (aiValue nd1) = 32" using assms(1) n1 by (auto simp: node_wf_def)
  have e: "req_exec_node send now nd msgs iRet = send_loop send [0..<iValueTotal nd1] nd1 msgs iRet"
    using False by (auto simp: req_exec_node_def nd1_def delayed_def sync_consts)
  from send_loop_result [OF i(2,1), of send msgs iRet] obtain fl' r where
    r: "send_loop send [0..<iValueTotal nd1] nd1 msgs iRet = Some (nd1\<lparr>uiSendFlag := fl'\<rparr>, msgs @ pass_msgs now nd, r)"
      "reliable send \<longrightarrow> (\<forall>j. bit fl' j \<longleftrightarrow> bit (uiSendFlag nd1) j \<or> j \<in> set [0..<iValueTotal nd1]) \<and> (iRet = 0 \<longrightarrow> r = 0)"
    using False n1(1-4) by (simp add: pass_msgs_def unsent_values_filter o_def) blast
  let ?nd = "nd1\<lparr>uiSendFlag := fl'\<rparr>"
  have w: "node_wf ?nd" "live now ?nd" using assms n1 by (simp_all add: node_wf_def live_def)
  have "req_exec_node send now ?nd m 0 = Some (?nd, m, 0)" if ok: "reliable send" for m
  proof -
    have a: "filter (\<lambda>i. \<not> bit fl' i) [0..<iValueTotal nd1] = []" using r(2) ok by (simp add: filter_empty_conv)
    have "send_loop send is ?nd m 0 = Some (?nd, m, 0)" if "\<forall>i \<in> set is. bit fl' i \<and> i < 32" for "is"
      using that by (induction "is") (auto simp: flag_get_bit)
    moreover have "\<forall>i \<in> set [0..<iValueTotal nd1]. bit fl' i \<and> i < 32" using a i(1) by (auto simp: filter_empty_conv)
    ultimately have "send_loop send [0..<iValueTotal nd1] ?nd m 0 = Some (?nd, m, 0)" by blast
    then show ?thesis using n1(6,7) by (auto simp: req_exec_node_def delayed_def sync_consts Let_def)
  qed
  with e r w show ?thesis by auto
qed

lemma req_exec_loop_result:
  assumes "\<forall>nd \<in> set nds. node_wf nd"
  shows "\<exists>nds' r. req_exec_loop send now nds msgs iRet = Some (nds', msgs @ concat (map (pass_msgs now) (filter (live now) nds)), r) \<and>
    (\<forall>nd \<in> set nds'. node_wf nd \<and> live now nd) \<and>
    (reliable send \<longrightarrow> (iRet = 0 \<longrightarrow> r = 0) \<and> (\<forall>msgs. req_exec_loop send now nds' msgs 0 = Some (nds', msgs, 0)))"
  using assms
proof (induction nds arbitrary: msgs iRet)
  case (Cons nd nds)
  have dead: "iValueTotal nd = 0 \<or> now - stActiveTime nd \<ge> SYNC_EVENT_LOSE_TIME \<longleftrightarrow> \<not> live now nd" for nd
    by (auto simp: live_def sync_consts)
  show ?case
  proof (cases "live now nd")
    case False
    with Cons.IH [of msgs iRet] Cons.prems show ?thesis by (simp add: dead)
  next
    case True
    from req_exec_node_result [OF _ True, of send msgs iRet] Cons.prems obtain nd2 r2 where
      n: "req_exec_node send now nd msgs iRet = Some (nd2, msgs @ pass_msgs now nd, r2)" "node_wf nd2" "live now nd2"
        "reliable send \<longrightarrow> (iRet = 0 \<longrightarrow> r2 = 0) \<and> (\<forall>msgs. req_exec_node send now nd2 msgs 0 = Some (nd2, msgs, 0))" by auto
    from Cons.IH [of "msgs @ pass_msgs now nd" r2] Cons.prems obtain nds' r where
      l: "req_exec_loop send now nds (msgs @ pass_msgs now nd) r2 =
          Some (nds', (msgs @ pass_msgs now nd) @ concat (map (pass_msgs now) (filter (live now) nds)), r)"
        "\<forall>nd \<in> set nds'. node_wf nd \<and> live now nd"
        "reliable send \<longrightarrow> (r2 = 0 \<longrightarrow> r = 0) \<and> (\<forall>msgs. req_exec_loop send now nds' msgs 0 = Some (nds', msgs, 0))"
      by auto
    have "req_exec_loop send now (nd # nds) msgs iRet =
        Some (nd2 # nds', msgs @ concat (map (pass_msgs now) (filter (live now) (nd # nds))), r)"
      using True n(1) l(1) dead [of nd] by simp
    moreover have "reliable send \<longrightarrow> (\<forall>msgs. req_exec_loop send now (nd2 # nds') msgs 0 = Some (nd2 # nds', msgs, 0))"
      using n(3,4) l(3) dead [of nd2] by simp
    ultimately show ?thesis using n l by auto
  qed
qed simp

text \<open>Reports: which value a report answers.\<close>

fun answer :: "int \<Rightarrow> bool \<Rightarrow> (int \<times> bool) list \<Rightarrow> bool \<times> int list" where
  "answer v found [] = (found, [])"
| "answer v found ((x, sent) # xs) =
     (if sent \<and> \<not> found \<and> x = v then answer v True xs else (fst (answer v found xs), x # snd (answer v found xs)))"

lemma answer_length: "length (snd (answer v found xs)) \<le> length xs"
  by (induction v found xs rule: answer.induct) auto

lemma match_loop_result:
  assumes "length (aiValue nd) = 32" "\<forall>i \<in> set is. i < 32" "n + length is \<le> 32" "length vs = 32"
    "a = answer (atoi v) found (map (\<lambda>i. (aiValue nd ! i, bit (uiSendFlag nd) i)) is)"
  shows "\<exists>vs' fl'. match_loop v nd is found n vs fl = Some (fst a, n + length (snd a), vs', fl') \<and>
    length vs' = 32 \<and> take (n + length (snd a)) vs' = take n vs @ snd a"
  using assms
proof (induction "is" arbitrary: found n vs fl a)
  case (Cons i "is")
  let ?xs = "map (\<lambda>i. (aiValue nd ! i, bit (uiSendFlag nd) i)) is"
  have i: "i < 32" "n < 32" using Cons.prems by auto
  show ?case
  proof (cases "bit (uiSendFlag nd) i \<and> \<not> found \<and> aiValue nd ! i = atoi v")
    case True
    then show ?thesis using Cons.IH [of n vs "answer (atoi v) True ?xs" True fl] Cons.prems i
      by (auto simp: flag_get_bit arr_get_def)
  next
    case False
    let ?vs = "vs[n := aiValue nd ! i]" and ?a = "answer (atoi v) found ?xs"
    obtain fl' where f: "(if bit (uiSendFlag nd) i then send_flag_set fl n else send_flag_clean fl n) = Some fl'"
      using flag_set_bits [OF i(2), of fl] flag_clean_all [OF i(2), of fl] by metis
    have tk: "take (Suc n) ?vs = take n vs @ [aiValue nd ! i]" using i(2) Cons.prems(4) by (simp add: take_Suc_conv_app_nth)
    from Cons.IH [of "Suc n" ?vs ?a found fl'] Cons.prems obtain vs' fl2 where
      "match_loop v nd is found (Suc n) ?vs fl' = Some (fst ?a, Suc n + length (snd ?a), vs', fl2)" "length vs' = 32"
      "take (Suc n + length (snd ?a)) vs' = take (Suc n) ?vs @ snd ?a" by auto
    moreover have "match_loop v nd (i # is) found n vs fl = match_loop v nd is found (Suc n) ?vs fl'"
      using False i f Cons.prems(1,4) by (auto simp: flag_get_bit arr_get_def arr_put_def)
    moreover have "a = (fst ?a, aiValue nd ! i # snd ?a)" using Cons.prems(5) False by auto
    ultimately show ?thesis using tk by simp
  qed
qed simp

lemma match_node_result:
  assumes "node_wf nd"
  shows "\<exists>vs fl. match_loop v nd [0..<iValueTotal nd] False 0 (replicate EVENT_MAX_NUM 0) 0 =
      Some (fst (answer (atoi v) False (items nd)), length (snd (answer (atoi v) False (items nd))), vs, fl) \<and>
    node_wf (nd\<lparr>iValueTotal := length (snd (answer (atoi v) False (items nd))), aiValue := vs, uiSendFlag := fl\<rparr>) \<and>
    all_values (nd\<lparr>iValueTotal := length (snd (answer (atoi v) False (items nd))), aiValue := vs, uiSendFlag := fl\<rparr>) =
      snd (answer (atoi v) False (items nd))"
proof -
  let ?a = "answer (atoi v) False (items nd)"
  have l: "length (snd ?a) \<le> 32" using answer_length [of "atoi v" False "items nd"] assms by (simp add: items_def node_wf_def)
  from match_loop_result [of nd "[0..<iValueTotal nd]" 0 "replicate EVENT_MAX_NUM 0" ?a v False 0] assms
  obtain vs fl where r: "match_loop v nd [0..<iValueTotal nd] False 0 (replicate EVENT_MAX_NUM 0) 0 =
      Some (fst ?a, length (snd ?a), vs, fl)" "length vs = 32" "take (length (snd ?a)) vs = snd ?a"
    by (auto simp: node_wf_def EVENT_MAX_NUM_def items_def)
  let ?nd = "nd\<lparr>iValueTotal := length (snd ?a), aiValue := vs, uiSendFlag := fl\<rparr>"
  have w: "node_wf ?nd" using r(2) l by (simp add: node_wf_def)
  have "all_values ?nd = snd ?a" using all_values_take [OF w] r(3) by simp
  with r(1) w show ?thesis by blast
qed

lemma event_loop_skip:
  assumes "\<forall>nd \<in> set nds. \<not> is_event dev key nd"
  shows "event_loop now dev key v nds found = Some (found, nds)"
  using assms by (induction nds) auto

lemma event_loop_one:
  assumes "\<forall>x \<in> set (pre @ post). \<not> is_event dev key x" "is_event dev key nd" "node_wf nd"
  shows "\<exists>nd'. event_loop now dev key v (pre @ nd # post) False =
      Some (fst (answer (atoi v) False (items nd)), pre @ nd' # post) \<and>
    node_wf nd' \<and> all_values nd' = snd (answer (atoi v) False (items nd)) \<and> stActiveTime nd' = now"
proof -
  let ?nd = "nd\<lparr>stActiveTime := now\<rparr>" and ?a = "answer (atoi v) False (items nd)"
  have w: "node_wf ?nd" "items ?nd = items nd" using assms(3) by (simp_all add: node_wf_def items_def)
  from match_node_result [OF w(1), of v] obtain vs fl where
    m: "match_loop v ?nd [0..<iValueTotal ?nd] False 0 (replicate EVENT_MAX_NUM 0) 0 = Some (fst ?a, length (snd ?a), vs, fl)"
      "node_wf (?nd\<lparr>iValueTotal := length (snd ?a), aiValue := vs, uiSendFlag := fl\<rparr>)"
      "all_values (?nd\<lparr>iValueTotal := length (snd ?a), aiValue := vs, uiSendFlag := fl\<rparr>) = snd ?a"
    unfolding w(2) by blast
  define nd' where "nd' = ?nd\<lparr>iValueTotal := length (snd ?a), aiValue := vs, uiSendFlag := fl\<rparr>"
  have "event_loop now dev key v (nd # post) False = Some (fst ?a, nd' # post)"
    using assms(1,2) m(1) event_loop_skip [of post dev key now v] by (simp add: nd'_def)
  then have "event_loop now dev key v (pre @ nd # post) False = Some (fst ?a, pre @ nd' # post)"
    using assms(1) by (induction pre) auto
  with m show ?thesis by (auto simp: nd'_def)
qed

lemma answer_found: "fst (answer v found xs) \<longleftrightarrow> found \<or> (v, True) \<in> set xs"
  by (induction v found xs rule: answer.induct) auto

lemma answer_values:
  "if fst (answer v found xs) \<and> \<not> found then mset (map fst xs) = add_mset v (mset (snd (answer v found xs)))
   else snd (answer v found xs) = map fst xs"
  by (induction v found xs rule: answer.induct) (auto simp: answer_found split: if_splits)

lemma new_node_sent:
  assumes "length dev < 64" "length key < 128"
  shows "is_event dev key (new_sync_node now dev key v)" "is_event dev key ((new_sync_node now dev key v)\<lparr>uiSendFlag := fl\<rparr>)"
  using assms by (simp_all add: is_event_def new_sync_node_def)

section \<open>Properties\<close>

definition sync_node_example :: scene_sync_node where
  "sync_node_example = (new_sync_node 100 ''d1'' ''sw'' ''1'')\<lparr>uiSendFlag := 1\<rparr>"

lemma sync_node_example_wf: "node_wf sync_node_example" "is_event ''d1'' ''sw'' sync_node_example"
  by (simp_all add: node_wf_def sync_node_example_def new_sync_node_def EVENT_MAX_NUM_def is_event_def)

text \<open>A request for a device attribute that has a node: values that are kept (all of them, or only
  the sent ones when the protection against too many requests is active) and the new value are
  queued, but every one of them is marked as not sent, also those that were sent before. When 32
  values are kept already, the code writes outside the array.\<close>

theorem scene_sync_request_forgets_sent:
  assumes "node_wf nd" "is_event dev key nd" "\<forall>x \<in> set (pre @ post). \<not> is_event dev key x"
  shows "if length (kept_values now nd) = 32 then scene_sync_event_req_add mem now dev key v (Some (pre @ nd # post)) = None
    else \<exists>nd'. scene_sync_event_req_add mem now dev key v (Some (pre @ nd # post)) = Some (0, Some (pre @ nd' # post)) \<and>
      node_wf nd' \<and> items nd' = map (\<lambda>x. (x, False)) (kept_values now nd @ [atoi v]) \<and> stActiveTime nd' = now"
proof -
  have "req_add_loop now dev key v (pre @ nd # post) = req_add_node now v nd \<bind> (\<lambda>nd'. Some (True, pre @ nd' # post))"
    using assms by (intro req_add_loop_one) auto
  with req_add_node_result [OF assms(1), of now v] show ?thesis
    by (auto simp: scene_sync_event_req_add_def split: if_splits)
qed

theorem scene_sync_request_forgets_sent_witness:
  "items sync_node_example = [(1, True)] \<and>
   (\<exists>nd'. scene_sync_event_req_add (True, True) 105 ''d1'' ''sw'' ''0'' (Some [sync_node_example]) = Some (0, Some [nd']) \<and>
      items nd' = [(1, False), (0, False)])"
proof -
  have a: "atoi ''1'' = 1" "atoi ''0'' = 0" by (simp_all add: atoi_def isspace_def is_digit_def)
  have i: "items sync_node_example = [(1, True)]"
    by (simp add: items_def sync_node_example_def new_sync_node_def EVENT_MAX_NUM_def a)
  have k: "kept_values 105 sync_node_example = [1]"
    using i by (simp add: kept_values_def protects_def all_values_def sync_node_example_def new_sync_node_def)
  from scene_sync_request_forgets_sent [OF sync_node_example_wf, of "[]" "[]" 105 "(True, True)" "''0''"] k a i
  show ?thesis by auto
qed

text \<open>A pass over well-formed nodes sends, node by node and in order of the requests, exactly the
  values that are marked as not sent. Nodes without values and nodes that have been idle for 30
  seconds are removed; a protected node waits for one second after its last request. When every
  message could be sent, a second pass at the same time sends nothing.\<close>

theorem scene_sync_exec_sends_unsent:
  assumes "\<forall>nd \<in> set nds. node_wf nd"
  shows "\<exists>nds' r. scene_sync_event_req_exec mem send now (Some nds) =
      Some (r, Some nds', concat (map (pass_msgs now) (filter (live now) nds))) \<and>
    (\<forall>nd \<in> set nds'. node_wf nd \<and> live now nd) \<and>
    (reliable send \<longrightarrow> r = 0 \<and> scene_sync_event_req_exec mem send now (Some nds') = Some (0, Some nds', []))"
  using req_exec_loop_result [OF assms, of send now "[]" 0] by (auto simp: scene_sync_event_req_exec_def)

theorem scene_sync_exec_sends_unsent_witness:
  "\<exists>nds' r. scene_sync_event_req_exec True (\<lambda>n. 0) 101 (Some [sync_node_example\<lparr>uiSendFlag := 0\<rparr>]) =
     Some (r, Some nds', [(''d1'', ''sw'', ''1'')])"
proof -
  let ?nd = "sync_node_example\<lparr>uiSendFlag := 0\<rparr>"
  have "atoi ''1'' = 1" by (simp add: atoi_def isspace_def is_digit_def)
  then have i: "items ?nd = [(1, False)]" "sy_acDevId ?nd = ''d1''" "sy_acKey ?nd = ''sw''" "live 101 ?nd" "\<not> delayed 101 ?nd"
    by (simp_all add: items_def sync_node_example_def new_sync_node_def EVENT_MAX_NUM_def live_def delayed_def)
  have "int_str 1 = ''1''" by (simp add: int_str_def nat_str.simps) code_simp
  then have "pass_msgs 101 ?nd = [(''d1'', ''sw'', ''1'')]"
    using i by (simp add: pass_msgs_def unsent_values_def msg_of_def snprintf_def)
  moreover have "\<forall>nd \<in> set [?nd]. node_wf nd" using sync_node_example_wf(1) by (simp add: node_wf_def)
  ultimately show ?thesis using scene_sync_exec_sends_unsent [of "[?nd]" True "\<lambda>n. 0" 101] i(4) by auto
qed

text \<open>A report of a device is taken for the answer to a request exactly when its value is one of the
  sent values of the node; one occurrence of the value then leaves the node. Otherwise the values
  of the node stay as they are.\<close>

theorem scene_sync_event_answer:
  assumes "node_wf nd" "is_event dev key nd" "\<forall>x \<in> set (pre @ post). \<not> is_event dev key x"
  shows "\<exists>nd'. scene_sync_event mem now dev key v (Some (pre @ nd # post)) =
      Some (if (atoi v, True) \<in> set (items nd) then 1 else 0, Some (pre @ nd' # post)) \<and> node_wf nd' \<and>
    (if (atoi v, True) \<in> set (items nd) then mset (all_values nd) = add_mset (atoi v) (mset (all_values nd'))
     else all_values nd' = all_values nd)"
proof -
  obtain nd' where e: "event_loop now dev key v (pre @ nd # post) False =
      Some (fst (answer (atoi v) False (items nd)), pre @ nd' # post)"
    "node_wf nd'" "all_values nd' = snd (answer (atoi v) False (items nd))"
    using event_loop_one [OF assms(3,2,1), of now v] by blast
  have "if (atoi v, True) \<in> set (items nd) then mset (all_values nd) = add_mset (atoi v) (mset (all_values nd'))
     else all_values nd' = all_values nd"
    using answer_values [of "atoi v" False "items nd"] unfolding answer_found e(3) all_values_def [of nd] by simp
  with e(1,2) show ?thesis by (auto simp: scene_sync_event_def answer_found)
qed

theorem scene_sync_event_answer_witness:
  "\<exists>nd'. scene_sync_event True 102 ''d1'' ''sw'' ''1'' (Some [sync_node_example]) = Some (1, Some [nd']) \<and> all_values nd' = []"
proof -
  have a: "atoi ''1'' = 1" by (simp add: atoi_def isspace_def is_digit_def)
  have i: "items sync_node_example = [(1, True)]"
    by (simp add: items_def sync_node_example_def new_sync_node_def EVENT_MAX_NUM_def a)
  then have v: "all_values sync_node_example = [1]" by (simp add: all_values_def)
  from scene_sync_event_answer [OF sync_node_example_wf, of "[]" "[]" True 102 "''1''"] a i v show ?thesis by auto
qed

text \<open>C28. The life of a request: it is queued, the next pass sends it once, the report of the device with
  the requested value is recognised as its answer, and the pass after that removes the node without
  sending anything.\<close>

theorem scene_sync_request_roundtrip:
  assumes "length dev < 64" "length key < 128" "t1 - t0 < 30" "reliable send"
  shows "do {
      (r0, g0) \<leftarrow> scene_sync_event_req_add (True, True) t0 dev key v (Some []);
      (r1, g1, m1) \<leftarrow> scene_sync_event_req_exec True send t1 g0;
      (r2, g2) \<leftarrow> scene_sync_event True t2 dev key v g1;
      (r3, g3, m3) \<leftarrow> scene_sync_event_req_exec True send t3 g2;
      Some ([r0, r1, r2, r3], m1, m3, g3)
    } = Some ([0, 0, 1, 0], [(dev, key, snprintf 128 (int_str (atoi v)))], [], Some [])"
proof -
  let ?nd = "new_sync_node t0 dev key v"
  have f: "send_flag_get 0 0 = Some False" "send_flag_set 0 0 = Some 1" "send_flag_get 1 0 = Some True"
    by (simp_all add: send_flag_get_def send_flag_set_def)
  have n: "iValueTotal ?nd = 1" "aiValue ?nd ! 0 = atoi v" "length (aiValue ?nd) = 32" "uiSendFlag ?nd = 0"
    "iProtect ?nd = 0" "stActiveTime ?nd = t0" "sy_acDevId ?nd = dev" "sy_acKey ?nd = key"
    using assms(1,2) by (simp_all add: new_sync_node_def EVENT_MAX_NUM_def)
  have add: "scene_sync_event_req_add (True, True) t0 dev key v (Some []) = Some (0, Some [?nd])"
    by (simp add: scene_sync_event_req_add_def)
  have exec: "scene_sync_event_req_exec True send t1 (Some [?nd]) =
      Some (0, Some [?nd\<lparr>uiSendFlag := 1\<rparr>], [(dev, key, snprintf 128 (int_str (atoi v)))])"
    using n f assms(3,4) by (simp add: scene_sync_event_req_exec_def req_exec_node_def sync_consts Let_def arr_get_def reliable_def)
  have event: "scene_sync_event True t2 dev key v (Some [?nd\<lparr>uiSendFlag := 1\<rparr>]) =
      Some (1, Some [?nd\<lparr>uiSendFlag := 0, stActiveTime := t2, iValueTotal := 0, aiValue := replicate EVENT_MAX_NUM 0\<rparr>])"
    using n f new_node_sent(2) [OF assms(1,2)] by (simp add: scene_sync_event_def arr_get_def Let_def)
  show ?thesis unfolding add by (simp add: exec event) (simp add: scene_sync_event_req_exec_def)
qed

theorem scene_sync_request_roundtrip_witness:
  "do {
      (r0, g0) \<leftarrow> scene_sync_event_req_add (True, True) 100 ''d1'' ''sw'' ''1'' (Some []);
      (r1, g1, m1) \<leftarrow> scene_sync_event_req_exec True (\<lambda>n. 0) 101 g0;
      (r2, g2) \<leftarrow> scene_sync_event True 102 ''d1'' ''sw'' ''1'' g1;
      (r3, g3, m3) \<leftarrow> scene_sync_event_req_exec True (\<lambda>n. 0) 103 g2;
      Some ([r0, r1, r2, r3], m1, m3, g3)
    } = Some ([0, 0, 1, 0], [(''d1'', ''sw'', snprintf 128 (int_str (atoi ''1'')))], [], Some [])"
  by (rule scene_sync_request_roundtrip) (simp_all add: reliable_def)

end
