(* ===== verification/Base64.thy ===== *)
theory Base64
  imports Honyar_Prelude
begin

text \<open>
  Base64 text of binary data: \<open>base64_encode\<close> and \<open>base64_decode\<close> of \<open>hylink/hytoolsdk/src/misc/misc_api.c\<close>,
  which the scene actions use for the data they pass through to ZigBee devices. A byte is an 8-bit
  word, a text the list of its characters before the terminating zero byte. The decoder reads four
  characters at a time without looking at the length; a read behind the terminating byte has no
  defined result.
\<close>

section \<open>Operations\<close>

definition base64char :: string where
  "base64char = ''ABCDEFGHIJKLMNOPQRSTUVWXYZabcdefghijklmnopqrstuvwxyz0123456789+/''"

definition b64 :: "u8 \<Rightarrow> char" where
  "b64 current = base64char ! unat current"

text \<open>One round of the encoding loop takes three bytes, the last one may take two or one.\<close>

fun base64_encode :: "u8 list \<Rightarrow> string" where
  "base64_encode [] = []"
| "base64_encode [x] =
     [b64 (drop_bit 2 x AND 0x3F), b64 (push_bit 4 x AND 0x30), CHR ''='', CHR ''='']"
| "base64_encode [x, y] =
     [b64 (drop_bit 2 x AND 0x3F), b64 ((push_bit 4 x AND 0x30) OR (drop_bit 4 y AND 0x0F)),
      b64 (push_bit 2 y AND 0x3C), CHR ''='']"
| "base64_encode (x # y # z # ds) =
     [b64 (drop_bit 2 x AND 0x3F), b64 ((push_bit 4 x AND 0x30) OR (drop_bit 4 y AND 0x0F)),
      b64 ((push_bit 2 y AND 0x3C) OR (drop_bit 6 z AND 0x03)), b64 (z AND 0x3F)] @ base64_encode ds"

text \<open>The search for a character in the table: the last match, \<open>0xFF\<close> when there is none.\<close>

definition b64_index :: "char \<Rightarrow> u8" where
  "b64_index c = foldl (\<lambda>t k. if base64char ! k = c then of_nat k else t) 0xFF [0..<64]"

definition b64_byte0 :: "char \<Rightarrow> char \<Rightarrow> u8" where
  "b64_byte0 a b = (push_bit 2 (b64_index a) AND 0xFC) OR (drop_bit 4 (b64_index b) AND 0x03)"

definition b64_byte1 :: "char \<Rightarrow> char \<Rightarrow> u8" where
  "b64_byte1 b c = (push_bit 4 (b64_index b) AND 0xF0) OR (drop_bit 2 (b64_index c) AND 0x0F)"

definition b64_byte2 :: "char \<Rightarrow> char \<Rightarrow> u8" where
  "b64_byte2 c d = (push_bit 6 (b64_index c) AND 0xF0) OR (b64_index d AND 0x3F)"

text \<open>With three characters left the fourth one is the terminating byte; unless the third one is \<open>=\<close>
  the loop goes on behind it.\<close>

fun base64_decode :: "string \<Rightarrow> u8 list option" where
  "base64_decode [] = Some []"
| "base64_decode [a] = None"
| "base64_decode [a, b] = None"
| "base64_decode [a, b, c] = (if c = CHR ''='' then Some [b64_byte0 a b] else None)"
| "base64_decode (a # b # c # d # cs) =
     (if c = CHR ''='' then Some [b64_byte0 a b]
      else if d = CHR ''='' then Some [b64_byte0 a b, b64_byte1 b c]
      else do { ds \<leftarrow> base64_decode cs; Some (b64_byte0 a b # b64_byte1 b c # b64_byte2 c d # ds) })"

section \<open>Lemmas\<close>

lemma b64_table: "list_all (\<lambda>k. b64_index (base64char ! k) = of_nat k \<and> base64char ! k \<noteq> CHR ''='') [0..<64]"
  by code_simp

lemma b64_index_b64:
  assumes "w < 64"
  shows "b64_index (b64 w) = w" "b64 w \<noteq> CHR ''=''"
proof -
  have "unat w < 64" using assms by (simp add: word_less_nat_alt)
  then show "b64_index (b64 w) = w" "b64 w \<noteq> CHR ''=''"
    using b64_table by (simp_all add: list_all_iff b64_def)
qed

text \<open>The groups of six bits, and the bytes put together from them.\<close>

lemma masks:
  "(0x3F :: u8) = mask 6" "(0x30 :: u8) = push_bit 4 (mask 2)" "(0x3C :: u8) = push_bit 2 (mask 4)"
  "(0x0F :: u8) = mask 4" "(0x03 :: u8) = mask 2" "(0xFC :: u8) = push_bit 2 (mask 6)"
  "(0xF0 :: u8) = push_bit 4 (mask 4)"
  by code_simp+

lemma sextet_bits:
  fixes w :: u8
  assumes "\<And>n. bit w n \<Longrightarrow> n < 6"
  shows "w < 64"
proof -
  have "take_bit 6 w = w" using assms by (intro bit_word_eqI) (auto simp: bit_simps)
  moreover have "w AND mask 6 < 2 ^ 6" by (rule and_mask_less') simp
  ultimately show ?thesis by (simp add: take_bit_eq_mask)
qed

lemma sextet_less [simp]:
  fixes x y :: u8
  shows "x AND 0x3F < 64" "x AND 0x30 < 64" "x AND 0x3C < 64"
    "(x AND 0x30) OR (y AND 0x0F) < 64" "(x AND 0x3C) OR (y AND 0x03) < 64"
  unfolding masks by (auto intro!: sextet_bits simp: bit_simps)

lemma byte_eqI:
  fixes v w :: u8
  assumes "\<forall>n \<in> {0, 1, 2, 3, 4, 5, 6, 7}. bit v n = bit w n"
  shows "v = w"
proof (rule bit_word_eqI)
  fix n assume "n < LENGTH(8)"
  then have "n \<in> {0, 1, 2, 3, 4, 5, 6, 7}" by auto
  with assms show "bit v n = bit w n" by blast
qed

lemmas b64_byte_defs = b64_byte0_def b64_byte1_def b64_byte2_def

lemma byte0_b64 [simp]:
  "b64_byte0 (b64 (drop_bit 2 x AND 0x3F)) (b64 ((push_bit 4 x AND 0x30) OR (y AND 0x0F))) = x"
  "b64_byte0 (b64 (drop_bit 2 x AND 0x3F)) (b64 (push_bit 4 x AND 0x30)) = x"
  unfolding b64_byte_defs b64_index_b64(1) [OF sextet_less(1)] b64_index_b64(1) [OF sextet_less(2)]
    b64_index_b64(1) [OF sextet_less(4)] unfolding masks
  by (rule byte_eqI, simp add: bit_simps flip: numeral_2_eq_2 numeral_3_eq_3)+

lemma byte1_b64 [simp]:
  "b64_byte1 (b64 ((x AND 0x30) OR (drop_bit 4 y AND 0x0F))) (b64 ((push_bit 2 y AND 0x3C) OR (z AND 0x03))) = y"
  "b64_byte1 (b64 ((x AND 0x30) OR (drop_bit 4 y AND 0x0F))) (b64 (push_bit 2 y AND 0x3C)) = y"
  unfolding b64_byte_defs b64_index_b64(1) [OF sextet_less(3)] b64_index_b64(1) [OF sextet_less(4)]
    b64_index_b64(1) [OF sextet_less(5)] unfolding masks
  by (rule byte_eqI, simp add: bit_simps flip: numeral_2_eq_2 numeral_3_eq_3)+

lemma byte2_b64 [simp]: "b64_byte2 (b64 ((y AND 0x3C) OR (drop_bit 6 z AND 0x03))) (b64 (z AND 0x3F)) = z"
  unfolding b64_byte_defs b64_index_b64(1) [OF sextet_less(1)] b64_index_b64(1) [OF sextet_less(5)] unfolding masks
  by (rule byte_eqI, simp add: bit_simps flip: numeral_2_eq_2 numeral_3_eq_3)

lemma b64_not_pad [simp]:
  "b64 (x AND 0x3F) \<noteq> CHR ''=''" "b64 (x AND 0x3C) \<noteq> CHR ''=''" "b64 ((x AND 0x3C) OR (y AND 0x03)) \<noteq> CHR ''=''"
  by (rule b64_index_b64(2), simp)+

section \<open>Properties\<close>

text \<open>C31. Decoding the text of any sequence of bytes gives the bytes back, and the text has four characters
  for every started group of three bytes.\<close>

theorem base64_roundtrip: "base64_decode (base64_encode ds) = Some ds \<and> length (base64_encode ds) = 4 * ((length ds + 2) div 3)"
proof (induction ds rule: base64_encode.induct)
  case (4 x y z ds)
  have "4 + 4 * ((length ds + 2) div 3) = 4 * ((length (x # y # z # ds) + 2) div 3)" by simp presburger
  with 4 show ?case by (simp del: and_numerals)
qed (simp_all del: and_numerals)

text \<open>The decoder trusts its input: a text whose length is not a multiple of four, none of whose
  characters is the padding character, is read behind its end.\<close>

theorem base64_decode_overread:
  assumes "length cs mod 4 \<noteq> 0" "CHR ''='' \<notin> set cs"
  shows "base64_decode cs = None"
  using assms by (induction cs rule: base64_decode.induct) auto

theorem base64_decode_overread_witness: "base64_decode ''QUJDR'' = None"
  using base64_decode_overread [of "''QUJDR''"] by simp

end
