(* ===== verification/Db_Api.thy ===== *)
theory Db_Api
  imports Honyar_Prelude
begin

text \<open>
  Access to the data base: \<open>hylink/src/local_scene/db_api.c\<close>. Writes are queued and executed by a thread of their own in
  the order in which they were queued, provided that the operations of the queue do not overlap; a query runs at once and copies its result into an array of cells;
  at the start the tables of older versions get the columns they lack.

  The data base itself is a parameter: \<open>ex d q\<close> is one call of \<open>sqlite3_exec\<close> for the statement \<open>q\<close>, its result
  code and the state of the data base after it. Statements are data (theory \<open>Honyar_Prelude\<close>), not SQL texts. The loop that
  repeats a call while the data base is busy need not end; it has the result \<open>None\<close> then.
\<close>

section \<open>Executing statements\<close>

definition SQLITE_OK :: int where "SQLITE_OK = 0"
definition SQLITE_BUSY :: int where "SQLITE_BUSY = 5"
definition SQLITE_LOCKED :: int where "SQLITE_LOCKED = 6"
definition DB_DATA_MAX_LEN :: nat where "DB_DATA_MAX_LEN = 128"

lemmas sqlite_defs = SQLITE_OK_def SQLITE_BUSY_def SQLITE_LOCKED_def

type_synonym 'd sqlite = "'d \<Rightarrow> db_stmt \<Rightarrow> int \<times> 'd"

partial_function (option) db_sql_exec :: "'d sqlite \<Rightarrow> 'd \<Rightarrow> db_stmt \<Rightarrow> (status \<times> 'd) option" where
  "db_sql_exec ex d q = (let (iRet, d1) = ex d q in
     if iRet = SQLITE_BUSY \<or> iRet = SQLITE_LOCKED then db_sql_exec ex d1 q
     else Some (if iRet \<noteq> SQLITE_OK then -1 else 0, d1))"

text \<open>\<open>b\<close>: the handle is not null. Adding, deleting and changing are the same calls.\<close>

definition db_set :: "bool \<Rightarrow> 'd sqlite \<Rightarrow> 'd \<Rightarrow> db_stmt \<Rightarrow> (status \<times> 'd) option" where
  "db_set b ex d q = (if \<not> b then Some (-1, d) else db_sql_exec ex d q)"

definition db_add :: "bool \<Rightarrow> 'd sqlite \<Rightarrow> 'd \<Rightarrow> db_stmt \<Rightarrow> (status \<times> 'd) option" where
  "db_add b ex d q = (if \<not> b then Some (-1, d) else db_sql_exec ex d q)"

definition db_del :: "bool \<Rightarrow> 'd sqlite \<Rightarrow> 'd \<Rightarrow> db_stmt \<Rightarrow> (status \<times> 'd) option" where
  "db_del b ex d q = (if \<not> b then Some (-1, d) else db_sql_exec ex d q)"

text \<open>The queue: \<open>m\<close> tells whether the node is allocated.\<close>

definition db_add_asyn :: "bool \<Rightarrow> bool \<Rightarrow> db_stmt \<Rightarrow> db_stmt list \<Rightarrow> status \<times> db_stmt list" where
  "db_add_asyn b m q Q = (if \<not> b then (-1, Q) else if \<not> m then (-1, Q) else (NoErr, Q @ [q]))"

definition db_del_asyn :: "bool \<Rightarrow> bool \<Rightarrow> db_stmt \<Rightarrow> db_stmt list \<Rightarrow> status \<times> db_stmt list" where
  "db_del_asyn b m q Q = (if \<not> b then (-1, Q) else if \<not> m then (-1, Q) else (NoErr, Q @ [q]))"

definition db_set_asyn :: "bool \<Rightarrow> bool \<Rightarrow> db_stmt \<Rightarrow> db_stmt list \<Rightarrow> status \<times> db_stmt list" where
  "db_set_asyn b m q Q = (if \<not> b then (-1, Q) else if \<not> m then (-1, Q) else (NoErr, Q @ [q]))"

text \<open>The thread executes the statement of the first node, whatever the result, and then deletes the node. In between, clients can
  append to the queue; only the thread deletes.\<close>

definition db_exec_first :: "'d sqlite \<Rightarrow> 'd \<Rightarrow> db_stmt list \<Rightarrow> 'd option" where
  "db_exec_first ex d Q = (case Q of [] \<Rightarrow> Some d | q # Q1 \<Rightarrow> do { (r, d1) \<leftarrow> db_sql_exec ex d q; Some d1 })"

definition db_exec_del :: "db_stmt list \<Rightarrow> db_stmt list" where
  "db_exec_del Q = (case Q of [] \<Rightarrow> [] | q # Q1 \<Rightarrow> Q1)"

section \<open>Queries\<close>

text \<open>The result of \<open>sqlite3_get_table\<close>, when the data base is no longer busy: result code, columns and the rows, without
  the header, whose cells may be null. \<open>db_get\<close>
  copies cells one after the other, as many as rows and columns fit, and returns the number of rows of the
  result, which can be larger than the array of the caller.\<close>

definition cell_text :: "string option \<Rightarrow> string" where
  "cell_text c = (case c of None \<Rightarrow> [] | Some v \<Rightarrow> strncpy v DB_DATA_MAX_LEN)"

definition db_get :: "bool \<Rightarrow> int \<times> nat \<times> string option list list \<Rightarrow> nat \<Rightarrow> nat \<Rightarrow> status \<times> string list \<times> nat \<times> nat" where
  "db_get b result iMaxRow iMaxColumn = (case result of (iRet, iColumn, rows) \<Rightarrow>
     if \<not> b then (-1, [], iMaxRow, iMaxColumn)
     else if iRet \<noteq> SQLITE_OK then (-1, [], iMaxRow, iMaxColumn)
     else if rows = [] then (0, [], 0, 0)
     else (0, map cell_text (take (min (length rows) iMaxRow * min iColumn iMaxColumn) (concat rows)), length rows, iColumn))"

text \<open>The loop of the callers over the rows of a result. Rows whose first cell is empty are skipped; the loop ends with
  the rows or when \<open>iInfoMax\<close> entries are filled. The rows beyond the array of \<open>cap\<close> rows are not there to be read.\<close>

fun read_rows :: "(string list \<Rightarrow> 'a) \<Rightarrow> nat \<Rightarrow> nat \<Rightarrow> string list list \<Rightarrow> 'a list option" where
  "read_rows f cap iInfoMax [] = Some []"
| "read_rows f cap iInfoMax (r # rs) =
     (if iInfoMax = 0 then Some []
      else if cap = 0 then None
      else if strcmp (r ! 0) [] \<noteq> 0 then map_option ((#) (f r)) (read_rows f (cap - 1) (iInfoMax - 1) rs)
      else read_rows f (cap - 1) iInfoMax rs)"

text \<open>What the readers of lists have in common: an array of \<open>cap\<close> rows for the result, the status of the query with the rows,
  null cells read as empty texts. The entries of the caller's array that are not filled keep the zeros they
  were allocated with. Without memory the number of entries that the caller gave stays.\<close>

definition get_list_db :: "(string list \<Rightarrow> 'a) \<Rightarrow> 'a \<Rightarrow> nat \<Rightarrow> bool \<Rightarrow> status \<times> string list list \<Rightarrow> nat \<Rightarrow> (status \<times> 'a list) option" where
  "get_list_db f z cap m rows iInfoMax =
     (if \<not> m then Some (HeapReqErr, replicate iInfoMax z)
      else if fst rows \<noteq> NoErr then Some (NotFoundErr, [])
      else map_option (Pair NoErr) (read_rows f cap iInfoMax (snd rows)))"

definition zero_fill :: "nat \<Rightarrow> 'a \<Rightarrow> 'a list \<Rightarrow> 'a list" where
  "zero_fill n z xs = xs @ replicate (n - length xs) z"

section \<open>Older data bases\<close>

text \<open>\<open>qu d t c\<close> is the status of selecting column \<open>c\<close> of table \<open>t\<close>. A column is added and gets a default value where
  it has none.\<close>

definition add_column :: "'d sqlite \<Rightarrow> string \<Rightarrow> string \<Rightarrow> string \<Rightarrow> 'd \<Rightarrow> (status \<times> 'd) option" where
  "add_column ex t c v d = do {
     (iRet, d1) \<leftarrow> db_set True ex d (Db_Alter t c);
     if iRet = 0 then db_set True ex d1 (Db_Default t c v) else Some (iRet, d1)
   }"

fun add_columns :: "'d sqlite \<Rightarrow> string \<Rightarrow> (string \<times> string) list \<Rightarrow> status \<Rightarrow> 'd \<Rightarrow> (status \<times> 'd) option" where
  "add_columns ex t [] iRet d = Some (iRet, d)"
| "add_columns ex t ((c, v) # cs) iRet d = do { (r, d1) \<leftarrow> add_column ex t c v d; add_columns ex t cs r d1 }"

text \<open>The columns are added when the first of them cannot be selected from a table that exists.\<close>

definition upgrade :: "('d \<Rightarrow> string \<Rightarrow> string \<Rightarrow> status) \<Rightarrow> 'd sqlite \<Rightarrow> string \<Rightarrow> (string \<times> string) list \<Rightarrow> 'd \<Rightarrow> (status \<times> 'd) option" where
  "upgrade qu ex t cs d =
     (if qu d t ''id'' \<noteq> 0 then Some (qu d t ''id'', d)
      else if qu d t (fst (hd cs)) = 0 then Some (0, d)
      else add_columns ex t cs (qu d t (fst (hd cs))) d)"

definition upgrade_columns :: "nat \<Rightarrow> string \<times> (string \<times> string) list" where
  "upgrade_columns iType = [
     (''scene_list'', [(''exec_delayed'', ''0'')]),
     (''action_list'', [(''action_id'', ''0''), (''value_coding'', ''Original'')]),
     (''scene_list'', [(''update_time'', ''0''), (''scene_note'', ''0'')]),
     (''cond_list'', [(''trigger_type'', ''InstantOnce''), (''continue_time'', ''0''), (''trigger_interval'', ''1''), (''trigger_type'', ''InstantOnce''),
        (''last_value'', [])])] ! iType"

text \<open>\<open>m\<close>: the array for the query is allocated.\<close>

definition db_compatibility :: "bool \<Rightarrow> ('d \<Rightarrow> string \<Rightarrow> string \<Rightarrow> status) \<Rightarrow> 'd sqlite \<Rightarrow> nat \<Rightarrow> 'd \<Rightarrow> (status \<times> 'd) option" where
  "db_compatibility m qu ex iType d =
     (if iType < 4 then if \<not> m then Some (-1, d) else case upgrade_columns iType of (t, cs) \<Rightarrow> upgrade qu ex t cs d
      else Some (0, d))"

section \<open>Directories\<close>

text \<open>The directories of a path are created from the outside in; \<open>mk\<close> tells whether creating a directory succeeds. The
  buffer has \<open>PATCH\_NAME\_MAX\_LEN\<close> bytes.\<close>

definition PATCH_NAME_MAX_LEN :: nat where "PATCH_NAME_MAX_LEN = 200"

fun make_dirs :: "(string \<Rightarrow> bool) \<Rightarrow> string list \<Rightarrow> string set \<Rightarrow> int \<times> string set" where
  "make_dirs mk [] ds = (0, ds)"
| "make_dirs mk (p # ps) ds = (if p \<in> ds then make_dirs mk ps ds else if mk p then make_dirs mk ps (insert p ds) else (-1, ds))"

definition parents :: "string \<Rightarrow> string list" where
  "parents path = map (\<lambda>i. take i path) (filter (\<lambda>i. path ! i = CHR ''/'') [1..<length path])"

definition CreateDir :: "(string \<Rightarrow> bool) \<Rightarrow> string \<Rightarrow> string set \<Rightarrow> int \<times> string set" where
  "CreateDir mk pcPathName ds = (let acPatchName = strncpy pcPathName PATCH_NAME_MAX_LEN in
     if CHR ''/'' \<notin> set acPatchName then (-1, ds)
     else make_dirs mk (parents (rev (dropWhile (\<lambda>c. c \<noteq> CHR ''/'') (rev acPatchName)))) ds)"

section \<open>Start and end\<close>

text \<open>\<open>m\<close>: the handle is allocated; \<open>qm\<close>: the queue is created; \<open>readable\<close>: the file can be read; \<open>op\<close>: the result of
  opening it, with the directories there are; \<open>th\<close>: the result of creating the thread. The start gives the empty queue of the new handle.\<close>

definition db_server_start :: "bool \<Rightarrow> bool \<Rightarrow> bool \<Rightarrow> (string \<Rightarrow> bool) \<Rightarrow> (string set \<Rightarrow> int) \<Rightarrow> int \<Rightarrow> string \<Rightarrow> string set \<Rightarrow> db_stmt list option \<times> string set" where
  "db_server_start m qm readable mk op th pcPath ds =
     (if \<not> m then (None, ds) else if \<not> qm then (None, ds)
      else let ds1 = (if readable then ds else snd (CreateDir mk pcPath ds)) in
        if op ds1 \<noteq> SQLITE_OK then (None, ds1) else if th \<noteq> 0 then (None, ds1) else (Some [], ds1))"

text \<open>The end cancels the thread and frees the queue. The second component are the statements that were still in it.\<close>

definition db_server_stop :: "bool \<Rightarrow> int \<Rightarrow> db_stmt list \<Rightarrow> int \<times> db_stmt list" where
  "db_server_stop b close Q = (if \<not> b then (-1, []) else (close, Q))"

section \<open>Waiting for the data base\<close>

definition busy :: "int \<Rightarrow> bool" where
  "busy r \<longleftrightarrow> r = SQLITE_BUSY \<or> r = SQLITE_LOCKED"

definition tried :: "'d sqlite \<Rightarrow> db_stmt \<Rightarrow> nat \<Rightarrow> 'd \<Rightarrow> 'd" where
  "tried ex q n d = ((\<lambda>d. snd (ex d q)) ^^ n) d"

lemma tried_Suc: "tried ex q (Suc n) d = tried ex q n (snd (ex d q))"
  by (simp add: tried_def funpow_Suc_right del: funpow.simps)

lemma exec_waits:
  assumes "\<forall>k < n. busy (fst (ex (tried ex q k d) q))" "\<not> busy (fst (ex (tried ex q n d) q))"
  shows "db_sql_exec ex d q = Some (if fst (ex (tried ex q n d) q) = SQLITE_OK then 0 else -1, tried ex q (Suc n) d)"
  using assms
proof (induction n arbitrary: d)
  case 0
  then show ?case by (subst db_sql_exec.simps) (simp add: tried_def busy_def case_prod_unfold Let_def)
next
  case (Suc n)
  have b: "busy (fst (ex d q))" using Suc.prems(1) by (force simp: tried_def)
  have "\<forall>k < n. busy (fst (ex (tried ex q k (snd (ex d q))) q))" using Suc.prems(1) by (auto simp flip: tried_Suc)
  then have "db_sql_exec ex (snd (ex d q)) q =
      Some (if fst (ex (tried ex q (Suc n) d) q) = SQLITE_OK then 0 else -1, tried ex q (Suc (Suc n)) d)"
    using Suc.IH [of "snd (ex d q)"] Suc.prems by (simp add: tried_Suc)
  then show ?case using b by (subst db_sql_exec.simps) (simp add: busy_def case_prod_unfold Let_def)
qed

lemma exec_ready: "\<not> busy (fst (ex d q)) \<Longrightarrow> db_sql_exec ex d q = Some (if fst (ex d q) = SQLITE_OK then 0 else -1, snd (ex d q))"
  using exec_waits [of 0 ex q d] by (simp add: tried_def)

section \<open>The queue of writes\<close>

text \<open>The steps of clients and thread: a client appends a statement, the thread executes the first statement, the thread deletes its node. The
  steps of both can come in any order, so that clients append while a statement is executed. A step is one call of an operation
  of the queue; that two such calls do not overlap is the model's assumption, which the code does not
  enforce (theory \<open>Link_List\<close>, \<open>unlocked_inserts_lose_a_node\<close>). \<open>running\<close>: the first node has been executed and not yet deleted. \<open>sent\<close> are the statements that clients
  sent with success, \<open>executed\<close> those the thread executed.\<close>

record 'd db_state =
  exec_queue_db :: "db_stmt list"
  running :: bool
  contents :: 'd
  sent :: "db_stmt list"
  executed :: "db_stmt list"

inductive db_step :: "'d sqlite \<Rightarrow> 'd db_state \<Rightarrow> 'd db_state \<Rightarrow> bool" for ex where
  client: "f \<in> {db_add_asyn, db_del_asyn, db_set_asyn} \<Longrightarrow> f b m q (exec_queue_db S) = (r, Q) \<Longrightarrow>
    db_step ex S (S\<lparr>exec_queue_db := Q, sent := (if r = NoErr then sent S @ [q] else sent S)\<rparr>)"
| execute: "\<not> running S \<Longrightarrow> exec_queue_db S = q # Q1 \<Longrightarrow> db_exec_first ex (contents S) (exec_queue_db S) = Some d \<Longrightarrow>
    db_step ex S (S\<lparr>running := True, contents := d, executed := executed S @ [q]\<rparr>)"
| delete: "running S \<Longrightarrow> db_step ex S (S\<lparr>running := False, exec_queue_db := db_exec_del (exec_queue_db S)\<rparr>)"

inductive_cases db_stepE: "db_step ex S S'"

definition db_start :: "'d \<Rightarrow> 'd db_state" where
  "db_start d = \<lparr>exec_queue_db = [], running = False, contents = d, sent = [], executed = []\<rparr>"

fun exec_all :: "'d sqlite \<Rightarrow> db_stmt list \<Rightarrow> 'd \<Rightarrow> 'd option" where
  "exec_all ex [] d = Some d"
| "exec_all ex (q # qs) d = do { (r, d1) \<leftarrow> db_sql_exec ex d q; exec_all ex qs d1 }"

lemma exec_all_append: "exec_all ex (qs @ rs) d = exec_all ex qs d \<bind> exec_all ex rs"
  by (induction qs arbitrary: d) (auto split: Option.bind_split)

text \<open>The statements that are not executed yet.\<close>

definition waiting :: "'d db_state \<Rightarrow> db_stmt list" where
  "waiting S = (if running S then tl (exec_queue_db S) else exec_queue_db S)"

definition db_ok :: "'d sqlite \<Rightarrow> 'd \<Rightarrow> 'd db_state \<Rightarrow> bool" where
  "db_ok ex d0 S \<longleftrightarrow> sent S = executed S @ waiting S \<and> (running S \<longrightarrow> exec_queue_db S \<noteq> []) \<and> exec_all ex (executed S) d0 = Some (contents S)"

lemma db_step_ok: "db_step ex S S' \<Longrightarrow> db_ok ex d0 S \<Longrightarrow> db_ok ex d0 S'"
proof (induction rule: db_step.induct)
  case (client f b m q S r Q)
  then have "(r = NoErr \<and> Q = exec_queue_db S @ [q]) \<or> (r \<noteq> NoErr \<and> Q = exec_queue_db S)"
    by (auto simp: db_add_asyn_def db_del_asyn_def db_set_asyn_def NoErr_def split: if_splits)
  then show ?case using client.prems by (auto simp: db_ok_def waiting_def)
next
  case (execute S q Q1 d)
  then show ?case by (auto simp: db_ok_def waiting_def db_exec_first_def exec_all_append split: Option.bind_splits)
next
  case (delete S)
  then show ?case by (cases "exec_queue_db S") (auto simp: db_ok_def waiting_def db_exec_del_def)
qed

text \<open>C34. Writes reach the data base in the order in which they were sent, each once: at any time, also while a statement is executed,
  what clients sent with success is what the thread has executed followed by what waits in the queue, and the
  contents are those that executing the former one after the other gives. A statement that the data base refuses counts as
  executed: nobody learns of it. This holds for operations of the queue that do not overlap each other, which
  the callers would have to ensure: the queue takes no lock.\<close>

theorem db_writes_in_order:
  assumes "(db_step ex)\<^sup>*\<^sup>* (db_start d0) S"
  shows "sent S = executed S @ (if running S then tl (exec_queue_db S) else exec_queue_db S) \<and> exec_all ex (executed S) d0 = Some (contents S)"
proof -
  have "db_ok ex d0 S" using assms
    by (induction rule: rtranclp_induct) (simp_all add: db_step_ok, simp add: db_ok_def waiting_def db_start_def)
  then show ?thesis by (simp add: db_ok_def waiting_def)
qed

text \<open>A data base that is busy at the first call of each statement and keeps what it executed.\<close>

definition slow_db :: "(bool \<times> db_stmt list) sqlite" where
  "slow_db d q = (if fst d then (SQLITE_OK, (False, snd d @ [q])) else (SQLITE_BUSY, (True, snd d)))"

theorem db_writes_in_order_witness:
  "\<exists>S. (db_step slow_db)\<^sup>*\<^sup>* (db_start (False, [])) S \<and> running S \<and> executed S = [Db_Drop ''t''] \<and> exec_queue_db S = [Db_Drop ''t'', Db_Drop ''u''] \<and>
     sent S = [Db_Drop ''t'', Db_Drop ''u''] \<and> exec_all slow_db [Db_Drop ''t''] (False, []) = Some (False, [Db_Drop ''t''])"
proof -
  let ?q = "Db_Drop ''t''" and ?r = "Db_Drop ''u''"
  have e: "db_sql_exec slow_db (False, []) ?q = Some (0, (False, [?q]))"
    using exec_waits [of 1 slow_db ?q "(False, [])"] by (simp add: slow_db_def tried_def busy_def sqlite_defs)
  let ?S1 = "db_start (False, []) \<lparr>exec_queue_db := [?q], sent := [?q]\<rparr>"
  let ?S2 = "\<lparr>exec_queue_db = [?q], running = True, contents = (False, [?q]), sent = [?q], executed = [?q]\<rparr>"
  let ?S3 = "?S2\<lparr>exec_queue_db := [?q, ?r], sent := [?q, ?r]\<rparr>"
  have 1: "db_step slow_db (db_start (False, [])) ?S1"
    using db_step.client [of db_add_asyn True True ?q "db_start (False, [])" NoErr "[?q]" slow_db] by (simp add: db_add_asyn_def db_start_def)
  have 2: "db_step slow_db ?S1 ?S2"
    using db_step.execute [of ?S1 ?q "[]" slow_db "(False, [?q])"] e by (simp add: db_exec_first_def db_start_def)
  have 3: "db_step slow_db ?S2 ?S3"
    using db_step.client [of db_del_asyn True True ?r ?S2 NoErr "[?q, ?r]" slow_db] by (simp add: db_del_asyn_def)
  have r: "(db_step slow_db)\<^sup>*\<^sup>* (db_start (False, [])) ?S3" using 1 2 3 by (meson rtranclp.rtrancl_into_rtrancl rtranclp.rtrancl_refl)
  from db_writes_in_order [OF r] r show ?thesis by (intro exI [of _ ?S3]) simp
qed

section \<open>Reading results\<close>

lemma strcmp_empty [simp]: "strcmp s [] = 0 \<longleftrightarrow> s = []"
  by (cases s) simp_all

text \<open>A result with no more rows than the array, or whose rows in the array all have a first cell, is read completely,
  as far as the entries go.\<close>

lemma read_rows_all:
  "length rows \<le> cap \<or> (\<forall>r \<in> set (take cap rows). r ! 0 \<noteq> []) \<and> n \<le> cap \<Longrightarrow>
     read_rows f cap n rows = Some (take n (map f (filter (\<lambda>r. r ! 0 \<noteq> []) (take cap rows))))"
proof (induction f cap n rows rule: read_rows.induct)
  case (2 f cap n r rs)
  show ?case
  proof (cases "n = 0 \<or> cap = 0")
    case False
    then obtain c m where c: "cap = Suc c" "n = Suc m" by (metis not0_implies_Suc)
    then show ?thesis using 2 by (cases "r ! 0 = []") auto
  qed (use 2(3) in auto)
qed simp

lemma get_list_db_all:
  "length rows \<le> cap \<Longrightarrow> \<forall>r \<in> set rows. r ! 0 \<noteq> [] \<Longrightarrow> get_list_db f z cap True (NoErr, rows) cap = Some (NoErr, map f rows)"
  by (simp add: get_list_db_def read_rows_all)

lemma nth_zero_fill: "map ((!) (zero_fill n z xs)) [0..<length xs] = xs"
  by (rule nth_equalityI) (simp_all add: zero_fill_def nth_append)

text \<open>The cells that a query copies are those of the first rows, when all rows have the columns that were asked for.\<close>

lemma take_concat: "\<forall>r \<in> set rows. length r = n \<Longrightarrow> take (k * n) (concat rows) = concat (take k rows)"
proof (induction rows arbitrary: k)
  case (Cons r rows)
  then show ?case by (cases k) simp_all
qed simp

lemma db_get_rows:
  assumes "\<forall>r \<in> set rows. length r = c" "rows \<noteq> []"
  shows "db_get True (SQLITE_OK, c, rows) iMaxRow c = (0, concat (map (map cell_text) (take iMaxRow rows)), length rows, c)"
proof -
  have "min (length rows) iMaxRow * min c c = min (length rows) iMaxRow * c" by simp
  then have "take (min (length rows) iMaxRow * min c c) (concat rows) = concat (take iMaxRow rows)"
    using take_concat [OF assms(1), of "min (length rows) iMaxRow"] by (simp add: min_def split: if_splits)
  with assms(2) show ?thesis by (simp add: db_get_def map_concat)
qed

section \<open>Upgrading\<close>

text \<open>What the upgrade relies on: a column can be selected when the table has it, adding a column works exactly on a table
  that does not have it, and a column that is there can be given values.\<close>

definition sql_schema :: "('d \<Rightarrow> string \<Rightarrow> string set) \<Rightarrow> ('d \<Rightarrow> string \<Rightarrow> string \<Rightarrow> status) \<Rightarrow> 'd sqlite \<Rightarrow> bool" where
  "sql_schema cols qu ex \<longleftrightarrow> (\<forall>d t c. qu d t c = 0 \<longleftrightarrow> c \<in> cols d t) \<and>
     (\<forall>d t c. cols d t \<noteq> {} \<and> c \<notin> cols d t \<longrightarrow>
        fst (ex d (Db_Alter t c)) = SQLITE_OK \<and> cols (snd (ex d (Db_Alter t c))) = (cols d)(t := insert c (cols d t))) \<and>
     (\<forall>d t c. c \<in> cols d t \<longrightarrow> \<not> busy (fst (ex d (Db_Alter t c))) \<and> fst (ex d (Db_Alter t c)) \<noteq> SQLITE_OK \<and> cols (snd (ex d (Db_Alter t c))) = cols d) \<and>
     (\<forall>d t c v. c \<in> cols d t \<longrightarrow> fst (ex d (Db_Default t c v)) = SQLITE_OK \<and> cols (snd (ex d (Db_Default t c v))) = cols d)"

lemma ok_not_busy: "\<not> busy SQLITE_OK"
  by (simp add: busy_def sqlite_defs)

lemma add_column_result:
  assumes "sql_schema cols qu ex" "cols d t \<noteq> {}"
  shows "\<exists>r d'. add_column ex t c v d = Some (r, d') \<and> cols d' = (cols d)(t := insert c (cols d t))"
proof (cases "c \<in> cols d t")
  case True
  then have "\<not> busy (fst (ex d (Db_Alter t c)))" "fst (ex d (Db_Alter t c)) \<noteq> SQLITE_OK" "cols (snd (ex d (Db_Alter t c))) = cols d"
    using assms(1) by (simp_all add: sql_schema_def)
  then show ?thesis using exec_ready [of ex d "Db_Alter t c"] True by (simp add: add_column_def db_set_def insert_absorb)
next
  case False
  let ?d = "snd (ex d (Db_Alter t c))"
  have a: "fst (ex d (Db_Alter t c)) = SQLITE_OK" "cols ?d = (cols d)(t := insert c (cols d t))"
    using assms False by (simp_all add: sql_schema_def)
  then have "fst (ex ?d (Db_Default t c v)) = SQLITE_OK" "cols (snd (ex ?d (Db_Default t c v))) = cols ?d"
    using assms(1) by (simp_all add: sql_schema_def)
  then show ?thesis using exec_ready [of ex d "Db_Alter t c"] exec_ready [of ex ?d "Db_Default t c v"] a ok_not_busy
    by (simp add: add_column_def db_set_def)
qed

lemma add_columns_result:
  assumes "sql_schema cols qu ex" "cols d t \<noteq> {}"
  shows "\<exists>r d'. add_columns ex t cs i d = Some (r, d') \<and> cols d' = (cols d)(t := cols d t \<union> set (map fst cs))"
  using assms(2)
proof (induction cs arbitrary: d i)
  case (Cons x cs)
  obtain c v where x: "x = (c, v)" by (cases x)
  obtain r d1 where 1: "add_column ex t c v d = Some (r, d1)" "cols d1 = (cols d)(t := insert c (cols d t))"
    using add_column_result [OF assms(1) Cons.prems] by blast
  then have "cols d1 t \<noteq> {}" by simp
  with Cons.IH [of d1 r] 1 x show ?case by (auto simp: fun_eq_iff)
qed simp

text \<open>Upgrading a data base of an older version: if the table exists and lacks the first column of a step, it has all
  columns of the step afterwards, and no other table changes. If it has the first column, nothing is done at
  all: an upgrade that was interrupted after its first column is never completed.\<close>

theorem db_compatibility_result:
  assumes "sql_schema cols qu ex" "iType < 4" "upgrade_columns iType = (t, cs)" "''id'' \<in> cols d t"
  shows "\<exists>r d'. db_compatibility True qu ex iType d = Some (r, d') \<and>
    cols d' = (if fst (hd cs) \<in> cols d t then cols d else (cols d)(t := cols d t \<union> set (map fst cs)))"
proof -
  have q: "qu d t ''id'' = 0" "qu d t (fst (hd cs)) = 0 \<longleftrightarrow> fst (hd cs) \<in> cols d t" using assms(1,4) by (simp_all add: sql_schema_def)
  have "cols d t \<noteq> {}" using assms(4) by auto
  from add_columns_result [OF assms(1) this] q assms(2,3) show ?thesis by (auto simp: db_compatibility_def upgrade_def)
qed

definition schema_exec :: "(string \<Rightarrow> string set) sqlite" where
  "schema_exec d q = (case q of
     Db_Alter t c \<Rightarrow> if d t \<noteq> {} \<and> c \<notin> d t then (SQLITE_OK, d(t := insert c (d t))) else (1, d)
   | _ \<Rightarrow> (SQLITE_OK, d))"

theorem db_compatibility_result_witness:
  "(\<exists>r d'. db_compatibility True (\<lambda>d t c. if c \<in> d t then 0 else -1) schema_exec 1 (\<lambda>t. {''id''}) = Some (r, d') \<and>
      d' ''action_list'' = {''id'', ''action_id'', ''value_coding''} \<and> d' ''scene_list'' = {''id''}) \<and>
   (\<exists>r d'. db_compatibility True (\<lambda>d t c. if c \<in> d t then 0 else -1) schema_exec 1 (\<lambda>t. {''id'', ''action_id''}) = Some (r, d') \<and>
      d' ''action_list'' = {''id'', ''action_id''})"
proof -
  have s: "sql_schema (\<lambda>d. d) (\<lambda>d t c. if c \<in> d t then 0 else -1) schema_exec"
    by (simp add: sql_schema_def schema_exec_def sqlite_defs busy_def)
  have u: "upgrade_columns 1 = (''action_list'', [(''action_id'', ''0''), (''value_coding'', ''Original'')])" by (simp add: upgrade_columns_def)
  have "''action_id'' \<notin> {''id''}" by simp
  then show ?thesis using db_compatibility_result [OF s _ u, of "\<lambda>t. {''id''}"] db_compatibility_result [OF s _ u, of "\<lambda>t. {''id'', ''action_id''}"] by auto
qed

section \<open>Creating directories\<close>

text \<open>When directories can be created, all parents of the file are there afterwards, and nothing else is created.\<close>

lemma make_dirs_all: "\<forall>p \<in> set ps. mk p \<Longrightarrow> make_dirs mk ps ds = (0, ds \<union> set ps)"
  by (induction ps arbitrary: ds) (auto simp: insert_absorb)

lemma CreateDir_result:
  assumes "\<forall>p. mk p" "length path \<le> PATCH_NAME_MAX_LEN" "CHR ''/'' \<in> set path"
  shows "CreateDir mk path ds = (0, ds \<union> set (parents (rev (dropWhile (\<lambda>c. c \<noteq> CHR ''/'') (rev path)))))"
  using assms make_dirs_all [of _ mk] by (simp add: CreateDir_def strncpy_def Let_def)

end
