(* ===== verification/Action_List.thy ===== *)
theory Action_List
  imports Cond_List Base64 Db_Api
begin

text \<open>
  The actions of a scene: \<open>hylink/src/local_scene/action_list.c\<close>. An action list is a linked list (theory
  \<open>Link_List\<close>, here the sequence it implements) of actions, which are found by comparing action id, device id
  (without regard to case) and key; every change is sent to the data base. Executing an action means to
  send a command to the gateway's message handler, to sleep, or to call a registered function.

  Parameters: \<open>db\<close> is the status of a data base call, \<open>send\<close> the status that the registered command handler
  returns for a command, \<open>json\<close> stands for \<open>cJSON_Parse\<close> followed by \<open>JSON_value_get\<close> of the tool library (\<open>None\<close>
  when the text is not JSON; the function then returns the text of a member, cut to a length). Commands
  are kept as data, before they are printed as JSON text. A \<open>bool\<close> named \<open>m\<close>, \<open>m1\<close>, .. tells whether an
  allocation of a list node succeeds.
\<close>

section \<open>Data\<close>

definition ACTION_ID_MAX_LEN :: nat where "ACTION_ID_MAX_LEN = 128"
definition VALUE_CODING_MAX_LEN :: nat where "VALUE_CODING_MAX_LEN = 32"
definition TYPE_MAX_LEN :: nat where "TYPE_MAX_LEN = 16"
definition ACTION_CALLBACK_LIST_MAX_NUM :: nat where "ACTION_CALLBACK_LIST_MAX_NUM = 64"
definition DB_TABLE_NAME_ACTION :: string where "DB_TABLE_NAME_ACTION = ''action_list''"
definition JsonFormatErr :: status where "JsonFormatErr = -283"

record action_info =
  acActionId :: string
  a_acDevId :: string
  a_acKey :: string
  acValueCoding :: string
  a_acValue :: string
  acResult :: string

record action_list =
  al_acId :: string
  al_ucInitFlag :: u8
  actions :: "action_info list"

text \<open>\<open>strcasecmp\<close> in the C locale: capital letters are compared as small ones.\<close>

definition to_lower :: "char \<Rightarrow> char" where
  "to_lower c = (let n = (of_char c :: nat) in if 65 \<le> n \<and> n \<le> 90 then char_of (n + 32) else c)"

definition strcasecmp :: "string \<Rightarrow> string \<Rightarrow> int" where
  "strcasecmp a b = strcmp (map to_lower a) (map to_lower b)"

definition action_compare :: "action_info \<Rightarrow> action_info \<Rightarrow> int" where
  "action_compare p1 p2 =
     (if strncmp (acActionId p1) (acActionId p2) ACTION_ID_MAX_LEN \<noteq> 0 \<or>
         strcasecmp (a_acDevId p1) (a_acDevId p2) \<noteq> 0 \<or>
         strncmp (a_acKey p1) (a_acKey p2) KEY_MAX_LEN \<noteq> 0 then 1 else 0)"

definition same_action :: "action_info \<Rightarrow> action_info \<Rightarrow> bool" where
  "same_action x y \<longleftrightarrow> action_compare y x = 0"

section \<open>Data base writes\<close>

definition action_where :: "action_list \<Rightarrow> action_info \<Rightarrow> (string \<times> string) list" where
  "action_where l a = [(''id'', al_acId l), (''action_id'', acActionId a), (''dev_id'', a_acDevId a), (''key'', a_acKey a)]"

definition action_list_add_db :: "(db_stmt \<Rightarrow> status) \<Rightarrow> action_list \<Rightarrow> action_info \<Rightarrow> status \<times> db_calls" where
  "action_list_add_db db l a = db_write db (al_ucInitFlag l) (Db_Insert DB_TABLE_NAME_ACTION
     (action_where l a @ [(''value_coding'', acValueCoding a), (''value'', a_acValue a)])) SceneAddErr"

definition action_list_del_db :: "(db_stmt \<Rightarrow> status) \<Rightarrow> action_list \<Rightarrow> action_info \<Rightarrow> status \<times> db_calls" where
  "action_list_del_db db l a = db_write db (al_ucInitFlag l) (Db_Delete DB_TABLE_NAME_ACTION (action_where l a)) SceneDelErr"

definition action_list_set_db :: "(db_stmt \<Rightarrow> status) \<Rightarrow> action_list \<Rightarrow> action_info \<Rightarrow> status \<times> db_calls" where
  "action_list_set_db db l a = db_write db (al_ucInitFlag l) (Db_Update DB_TABLE_NAME_ACTION
     [(''value_coding'', acValueCoding a), (''value'', a_acValue a)] (action_where l a)) SceneAddErr"

section \<open>Operations\<close>

definition action_list_clear :: "action_list \<Rightarrow> status \<times> action_list" where
  "action_list_clear l = (NoErr, l\<lparr>actions := []\<rparr>)"

text \<open>The search node is allocated for the comparison; without it nothing is found.\<close>

definition action_find :: "bool \<Rightarrow> action_list \<Rightarrow> action_info \<Rightarrow> action_info option" where
  "action_find m l a = (if m then List.find (same_action a) (actions l) else None)"

definition action_list_get :: "bool \<Rightarrow> action_list \<Rightarrow> action_info \<Rightarrow> status \<times> action_info" where
  "action_list_get m l a = (case action_find m l a of None \<Rightarrow> (ParaErr, a) | Some b \<Rightarrow> (NoErr, b))"

definition action_list_set :: "bool \<Rightarrow> (db_stmt \<Rightarrow> status) \<Rightarrow> action_list \<Rightarrow> action_info \<Rightarrow> status \<times> action_list \<times> db_calls" where
  "action_list_set m db l a = (case action_find m l a of
     None \<Rightarrow> (NotFoundErr, l, [])
   | Some b \<Rightarrow>
       (let l1 = l\<lparr>actions := upd_first (same_action a) (\<lambda>_. a) (actions l)\<rparr>;
            (iRet, calls) = action_list_set_db db l1 a in
        (if iRet \<noteq> NoErr then SceneSetErr else NoErr, l1, calls)))"

definition action_list_add :: "bool \<times> bool \<times> bool \<Rightarrow> (db_stmt \<Rightarrow> status) \<Rightarrow> action_list \<Rightarrow> action_info \<Rightarrow>
    status \<times> action_list \<times> db_calls" where
  "action_list_add mem db l a = (case mem of (m1, m2, m3) \<Rightarrow>
     let stInfo = \<lparr>acActionId = strncpy (acActionId a) ACTION_ID_MAX_LEN, a_acDevId = strncpy (a_acDevId a) DEV_ID_MAX_LEN,
           a_acKey = strncpy (a_acKey a) KEY_MAX_LEN, acValueCoding = strncpy (acValueCoding a) VALUE_CODING_MAX_LEN,
           a_acValue = [], acResult = []\<rparr> in
     if fst (action_list_get m1 l stInfo) = NoErr then
       (let (iRet, l1, calls) = action_list_set m2 db l a in
        if iRet \<noteq> NoErr then (SceneAddErr, l1, calls)
        else let (iRet2, calls2) = action_list_set_db db l1 a in (iRet2, l1, calls @ calls2))
     else if \<not> m3 then (SceneAddErr, l, [])
     else let l1 = l\<lparr>actions := actions l @ [a]\<rparr>; (iRet, calls) = action_list_add_db db l1 a in (iRet, l1, calls))"

definition action_list_del :: "bool \<Rightarrow> (db_stmt \<Rightarrow> status) \<Rightarrow> action_list \<Rightarrow> action_info \<Rightarrow> status \<times> action_list \<times> db_calls" where
  "action_list_del m db l a = (case action_find m l a of
     None \<Rightarrow> (SceneDelErr, l, [])
   | Some b \<Rightarrow>
       (let l1 = l\<lparr>actions := del_first (same_action a) (actions l)\<rparr>;
            (iRet, calls) = action_list_del_db db l1 a in
        (if iRet \<noteq> NoErr then SceneDelErr else NoErr, l1, calls)))"

text \<open>The result array of \<open>get_list\<close>, at most \<open>iMax\<close> entries; its length is \<open>*piCount\<close> afterwards.\<close>

fun copy_actions :: "nat \<Rightarrow> action_info list \<Rightarrow> action_info list \<Rightarrow> action_info list" where
  "copy_actions iMax [] acc = acc"
| "copy_actions iMax (p # ps) acc = copy_actions iMax ps (if length acc < iMax then acc @ [p] else acc)"

definition action_list_get_list :: "action_list \<Rightarrow> nat \<Rightarrow> status \<times> action_info list" where
  "action_list_get_list l iMax = (if actions l = [] then (NoErr, []) else (NoErr, copy_actions iMax (actions l) []))"

text \<open>Synchronisation with an array \<open>arr\<close> of which \<open>cnt\<close> entries are used. For a node without a match the
  code deletes the action described by the entry at \<open>cnt\<close>, the value of the loop counter after the
  search, not the node. The position of the current node in the list is \<open>k\<close>; a node that is deleted while
  it is the current one is read afterwards. \<open>al i\<close> are the allocations made for entry \<open>i\<close>.\<close>

definition match_entry :: "action_info list \<Rightarrow> nat \<Rightarrow> action_info \<Rightarrow> nat option" where
  "match_entry arr cnt b = List.find (\<lambda>i. action_compare b (arr ! i) = 0) [0..<cnt]"

definition action_changed :: "action_info \<Rightarrow> action_info \<Rightarrow> bool" where
  "action_changed b a \<longleftrightarrow> strncmp (acValueCoding b) (acValueCoding a) VALUE_CODING_MAX_LEN \<noteq> 0 \<or>
     strncmp (a_acValue b) (a_acValue a) VALUE_MAX_LEN \<noteq> 0"

definition first_pos :: "('a \<Rightarrow> bool) \<Rightarrow> 'a list \<Rightarrow> nat" where
  "first_pos P xs = length (takeWhile (\<lambda>x. \<not> P x) xs)"

lemma action_set_length: "length (actions (fst (snd (action_list_set m db l a)))) = length (actions l)"
  by (simp add: action_list_set_def Let_def split: option.split prod.split)

lemma action_del_length:
  "length (actions (fst (snd (action_list_del m db l a)))) =
     (if action_find m l a = None then length (actions l) else length (actions l) - 1)"
proof -
  have "\<exists>x \<in> set (actions l). same_action a x" if "action_find m l a \<noteq> None"
    using that find_ex [of "same_action a" "actions l"] by (auto simp: action_find_def split: if_splits)
  then show ?thesis by (auto simp: action_list_del_def Let_def length_del_first split: option.split prod.split)
qed

function sync_loop :: "(nat \<Rightarrow> bool \<times> bool \<times> bool) \<Rightarrow> (db_stmt \<Rightarrow> status) \<Rightarrow> action_info list \<Rightarrow> nat \<Rightarrow> nat \<Rightarrow> action_list \<Rightarrow>
    nat set \<Rightarrow> db_calls \<Rightarrow> (action_list \<times> nat set \<times> db_calls) option" where
  "sync_loop al db arr cnt k l found calls =
     (if k \<ge> length (actions l) then Some (l, found, calls)
      else case match_entry arr cnt (actions l ! k) of
          Some i \<Rightarrow>
            (let res = (if action_changed (actions l ! k) (arr ! i) then action_list_set (fst (al i)) db l (arr ! i) else (NoErr, l, [])) in
             sync_loop al db arr cnt (Suc k) (fst (snd res)) (insert i found) (calls @ snd (snd res)))
        | None \<Rightarrow>
            (if length arr \<le> cnt then None
             else let hit = action_find (fst (al cnt)) l (arr ! cnt) \<noteq> None;
                      q = first_pos (same_action (arr ! cnt)) (actions l);
                      res = action_list_del (fst (al cnt)) db l (arr ! cnt) in
              if hit \<and> q = k then None
              else sync_loop al db arr cnt (if hit \<and> q < k then k else Suc k) (fst (snd res)) found (calls @ snd (snd res))))"
  by pat_completeness auto
termination
  by (relation "measure (\<lambda>(al, db, arr, cnt, k, l, found, calls). length (actions l) - k)")
    (auto simp: action_set_length action_del_length)

declare sync_loop.simps [simp del]

fun add_entries :: "(nat \<Rightarrow> bool \<times> bool \<times> bool) \<Rightarrow> (db_stmt \<Rightarrow> status) \<Rightarrow> action_info list \<Rightarrow> nat list \<Rightarrow> action_list \<Rightarrow> action_list \<times> db_calls" where
  "add_entries al db arr [] l = (l, [])"
| "add_entries al db arr (i # is) l =
     (let (r, l1, cs) = action_list_add (al i) db l (arr ! i); (l2, cs2) = add_entries al db arr is l1 in (l2, cs @ cs2))"

definition action_list_sync :: "bool \<Rightarrow> (nat \<Rightarrow> bool \<times> bool \<times> bool) \<Rightarrow> (db_stmt \<Rightarrow> status) \<Rightarrow> action_info list \<Rightarrow> nat \<Rightarrow>
    action_list \<Rightarrow> (status \<times> action_list \<times> db_calls) option" where
  "action_list_sync m al db arr cnt l =
     (if actions l = [] then let (l1, cs) = add_entries al db arr [0..<cnt] l in Some (NoErr, l1, cs)
      else if cnt = 0 then Some (NoErr, snd (action_list_clear l), [])
      else if \<not> m then Some (HeapReqErr, l, [])
      else do {
        (l1, found, cs) \<leftarrow> sync_loop al db arr cnt 0 l {} [];
        let (l2, cs2) = add_entries al db arr (filter (\<lambda>i. i \<notin> found) [0..<cnt]) l1;
        Some (NoErr, l2, cs @ cs2)
      })"

text \<open>Loading: \<open>rows\<close> are the status of the query and the rows it returns; a row without an action id is skipped (theory
  \<open>Db_Api\<close>). The array that receives the entries is allocated with zeros.\<close>

definition ACTION_MAX_NUM :: nat where "ACTION_MAX_NUM = 128"

definition zero_action :: action_info where
  "zero_action = \<lparr>acActionId = [], a_acDevId = [], a_acKey = [], acValueCoding = [], a_acValue = [], acResult = []\<rparr>"

definition row_action :: "string list \<Rightarrow> action_info" where
  "row_action r = \<lparr>acActionId = strncpy (r ! 0) ACTION_ID_MAX_LEN, a_acDevId = strncpy (r ! 1) DEV_ID_MAX_LEN,
     a_acKey = strncpy (r ! 2) KEY_MAX_LEN, acValueCoding = strncpy (r ! 3) VALUE_CODING_MAX_LEN,
     a_acValue = strncpy (r ! 4) VALUE_MAX_LEN, acResult = []\<rparr>"

definition action_list_get_list_db :: "bool \<Rightarrow> status \<times> string list list \<Rightarrow> nat \<Rightarrow> (status \<times> action_info list) option" where
  "action_list_get_list_db = get_list_db row_action zero_action ACTION_MAX_NUM"

definition action_list_init :: "bool \<times> bool \<times> bool \<Rightarrow> (nat \<Rightarrow> bool \<times> bool \<times> bool) \<Rightarrow> (db_stmt \<Rightarrow> status) \<Rightarrow> status \<times> string list list \<Rightarrow>
    action_list \<Rightarrow> (status \<times> action_list \<times> db_calls) option" where
  "action_list_init mem al db rows l = (case mem of (m1, m2, m3) \<Rightarrow>
     if \<not> m1 then Some (HeapReqErr, l, [])
     else do {
       (r, entries) \<leftarrow> action_list_get_list_db m2 rows ACTION_MAX_NUM;
       let arr = zero_fill ACTION_MAX_NUM zero_action entries;
       (iRet, l1, calls) \<leftarrow> action_list_sync m3 al db arr (length entries) (l\<lparr>al_ucInitFlag := 1\<rparr>);
       Some (iRet, l1\<lparr>al_ucInitFlag := 0\<rparr>, calls)
     })"

definition new_action_list :: "bool \<Rightarrow> bool \<Rightarrow> string \<Rightarrow> action_list option" where
  "new_action_list m1 m2 pcId = (if \<not> m1 then None else if \<not> m2 then None
     else Some \<lparr>al_acId = strncpy pcId INDEX_MAX_LEN, al_ucInitFlag = 0, actions = []\<rparr>)"

section \<open>Callbacks\<close>

text \<open>The table \<open>g_astActionCBList\<close> of identifier, function and user data.\<close>

type_synonym cb_table = "(int \<times> ptr \<times> ptr) list"

definition g_astActionCBList :: cb_table where
  "g_astActionCBList = replicate ACTION_CALLBACK_LIST_MAX_NUM (0, NULL, NULL)"

definition action_callback_reg :: "int \<Rightarrow> ptr \<Rightarrow> ptr \<Rightarrow> cb_table \<Rightarrow> status \<times> cb_table" where
  "action_callback_reg iCbid pFun pUserData t =
     (if iCbid \<le> 0 then (ParaErr, t)
      else if pFun = NULL then (ParaErr, t)
      else let i = first_pos (\<lambda>e. fst e \<le> 0) t in
        if i \<ge> ACTION_CALLBACK_LIST_MAX_NUM then (HeapReqErr, t) else (NoErr, t[i := (iCbid, pFun, pUserData)]))"

definition action_callback_get :: "int \<Rightarrow> cb_table \<Rightarrow> (int \<times> ptr \<times> ptr) option" where
  "action_callback_get iCbid t =
     (if iCbid \<le> 0 then None
      else let i = first_pos (\<lambda>e. fst e = iCbid) t in
        if i \<ge> ACTION_CALLBACK_LIST_MAX_NUM then None else Some (t ! i))"

section \<open>Execution\<close>

datatype action_cmd =
    Cmd_Exec_Scene string "string option"
  | Cmd_Custom_Data "u8 list"
  | Cmd_Multicast string string string string
  | Cmd_Ctrl string string string

datatype action_effect =
    Send_Cmd action_cmd
  | Sleep_Ms int
  | Call_Back ptr string ptr

text \<open>The text that \<open>%d\<close> prints.\<close>

function dec_text :: "nat \<Rightarrow> string" where
  "dec_text n = (if n < 10 then [char_of (48 + n)] else dec_text (n div 10) @ [char_of (48 + n mod 10)])"
  by auto
termination by (relation "measure id") auto

declare dec_text.simps [simp del]

definition int_text :: "int \<Rightarrow> string" where
  "int_text i = (if i < 0 then CHR ''-'' # dec_text (nat (- i)) else dec_text (nat i))"

type_synonym json_parser = "string \<Rightarrow> (string \<Rightarrow> nat \<Rightarrow> string option) option"
type_synonym exec_result = "status \<times> action_info \<times> action_effect list"

definition exec_scene_action :: "json_parser \<Rightarrow> (action_cmd \<Rightarrow> status) \<Rightarrow> action_info \<Rightarrow> exec_result" where
  "exec_scene_action json send a = (case json (a_acValue a) of
     None \<Rightarrow> (JsonFormatErr, a, [])
   | Some get \<Rightarrow> (case get ''SceneId'' INDEX_MAX_LEN of
       None \<Rightarrow> (JsonFormatErr, a, [])
     | Some acSceneId \<Rightarrow>
         (let acSceneEnable = (case get ''Enable'' STATE_MAX_LEN of None \<Rightarrow> [] | Some v \<Rightarrow> v);
              cmd = Cmd_Exec_Scene acSceneId (if strcmp acSceneEnable [] \<noteq> 0 then Some acSceneEnable else None) in
          (send cmd, a, [Send_Cmd cmd]))))"

definition exec_push_zigbee :: "(action_cmd \<Rightarrow> status) \<Rightarrow> action_info \<Rightarrow> exec_result option" where
  "exec_push_zigbee send a = do {
     aucCustomData \<leftarrow>
       (if strncmp (acValueCoding a) ''Original'' VALUE_CODING_MAX_LEN = 0 then Some (map (\<lambda>c. of_nat (of_char c)) (a_acValue a))
        else if strncmp (acValueCoding a) ''Base64'' VALUE_CODING_MAX_LEN = 0 then base64_decode (a_acValue a)
        else Some []);
     Some (send (Cmd_Custom_Data aucCustomData), a, [Send_Cmd (Cmd_Custom_Data aucCustomData)])
   }"

definition exec_group :: "json_parser \<Rightarrow> (action_cmd \<Rightarrow> status) \<Rightarrow> action_info \<Rightarrow> exec_result" where
  "exec_group json send a = (case json (a_acValue a) of
     None \<Rightarrow> (JsonFormatErr, a, [])
   | Some get \<Rightarrow> (case (get ''GroupId'' INDEX_MAX_LEN, get ''Type'' TYPE_MAX_LEN, get ''Key'' KEY_MAX_LEN, get ''Value'' VALUE_MAX_LEN) of
       (Some acGroupId, Some acType, Some k, Some v) \<Rightarrow>
         (send (Cmd_Multicast acGroupId acType k v), a, [Send_Cmd (Cmd_Multicast acGroupId acType k v)])
     | _ \<Rightarrow> (JsonFormatErr, a, [])))"

definition exec_call_back :: "json_parser \<Rightarrow> cb_table \<Rightarrow> action_info \<Rightarrow> exec_result" where
  "exec_call_back json t a = (case json (a_acValue a) of
     None \<Rightarrow> (JsonFormatErr, a, [])
   | Some get \<Rightarrow> (case (get ''CbId'' INDEX_MAX_LEN, get ''Param'' KEY_MAX_LEN) of
       (Some acCbId, Some acParam) \<Rightarrow>
         (case action_callback_get (atoi acCbId) t of
            None \<Rightarrow> (NotFoundErr, a, [])
          | Some (c, pFun, pUserData) \<Rightarrow> (0, a, [Call_Back pFun acParam pUserData]))
     | _ \<Rightarrow> (JsonFormatErr, a, [])))"

definition action_list_exec :: "json_parser \<Rightarrow> (action_cmd \<Rightarrow> status) \<Rightarrow> cb_table \<Rightarrow> action_info \<Rightarrow> exec_result option" where
  "action_list_exec json send t a =
     (if strncmp (a_acKey a) ''SceneId'' KEY_MAX_LEN = 0 then Some (exec_scene_action json send a)
      else if strncmp (a_acKey a) ''PushZigbee'' KEY_MAX_LEN = 0 then exec_push_zigbee send a
      else if strncmp (a_acKey a) ''Sleep'' KEY_MAX_LEN = 0 then Some (0, a, [Sleep_Ms (atoi (a_acValue a))])
      else if strncmp (a_acKey a) ''Group'' KEY_MAX_LEN = 0 then Some (exec_group json send a)
      else if strncmp (a_acKey a) ''CallBack'' KEY_MAX_LEN = 0 then Some (exec_call_back json t a)
      else let cmd = Cmd_Ctrl (a_acDevId a) (a_acKey a) (a_acValue a); iRet = send cmd in
        Some (iRet, a\<lparr>acResult := snprintf STATE_MAX_LEN (int_text iRet)\<rparr>, [Send_Cmd cmd]))"

fun exec_actions :: "json_parser \<Rightarrow> (action_cmd \<Rightarrow> status) \<Rightarrow> cb_table \<Rightarrow> action_info list \<Rightarrow> (action_info list \<times> action_effect list) option" where
  "exec_actions json send t [] = Some ([], [])"
| "exec_actions json send t (a # as) = do {
     (r, a1, es) \<leftarrow> action_list_exec json send t a;
     (as1, es1) \<leftarrow> exec_actions json send t as;
     Some (a1 # as1, es @ es1)
   }"

definition action_list_exec_all :: "json_parser \<Rightarrow> (action_cmd \<Rightarrow> status) \<Rightarrow> cb_table \<Rightarrow> action_list \<Rightarrow>
    (status \<times> action_list \<times> action_effect list) option" where
  "action_list_exec_all json send t l =
     (if actions l = [] then Some (NoErr, l, [])
      else do { (as, es) \<leftarrow> exec_actions json send t (actions l); Some (NoErr, l\<lparr>actions := as\<rparr>, es) })"

section \<open>Keys\<close>

lemma same_action_iff:
  "same_action x y \<longleftrightarrow> take ACTION_ID_MAX_LEN (acActionId x) = take ACTION_ID_MAX_LEN (acActionId y) \<and>
     map to_lower (a_acDevId x) = map to_lower (a_acDevId y) \<and> take KEY_MAX_LEN (a_acKey x) = take KEY_MAX_LEN (a_acKey y)"
  by (auto simp: same_action_def action_compare_def strncmp_def strcasecmp_def)

interpretation ak: keyed_list same_action
  by unfold_locales (auto simp: same_action_iff)

text \<open>The invariant of an action list: no two actions with the same key.\<close>

definition action_wf :: "action_list \<Rightarrow> bool" where
  "action_wf l \<longleftrightarrow> distinct_by same_action (actions l)"

lemma action_find_wf: "action_find True l a = None \<longleftrightarrow> \<not> (\<exists>b \<in> set (actions l). same_action a b)"
  using find_ex [of "same_action a" "actions l"] by (auto simp: action_find_def)

lemma action_set_wf: "action_wf l \<Longrightarrow> action_wf (fst (snd (action_list_set m db l a)))"
  using ak.distinct_upd [of "actions l" a "\<lambda>_. a"] ak.sym
  by (auto simp: action_list_set_def action_wf_def Let_def split: option.split prod.split)

lemma action_del_wf: "action_wf l \<Longrightarrow> action_wf (fst (snd (action_list_del m db l a)))"
  using ak.distinct_del [of "actions l" a] by (auto simp: action_list_del_def action_wf_def Let_def split: option.split prod.split)

text \<open>The copy that \<open>action_list_add\<close> searches for has the key of the action.\<close>

lemma add_search_key:
  assumes "length (a_acDevId a) < DEV_ID_MAX_LEN"
  shows "same_action \<lparr>acActionId = strncpy (acActionId a) ACTION_ID_MAX_LEN, a_acDevId = strncpy (a_acDevId a) DEV_ID_MAX_LEN,
    a_acKey = strncpy (a_acKey a) KEY_MAX_LEN, acValueCoding = c, a_acValue = v, acResult = r\<rparr> = same_action a"
  using assms by (auto simp: fun_eq_iff same_action_iff strncpy_def)

lemma action_add_cases:
  assumes "length (a_acDevId a) < DEV_ID_MAX_LEN"
  shows "action_list_add (True, True, True) db l a =
    (if action_find True l a \<noteq> None
     then let (iRet, l1, calls) = action_list_set True db l a in
       if iRet \<noteq> NoErr then (SceneAddErr, l1, calls)
       else let (iRet2, calls2) = action_list_set_db db l1 a in (iRet2, l1, calls @ calls2)
     else let l1 = l\<lparr>actions := actions l @ [a]\<rparr>; (iRet, calls) = action_list_add_db db l1 a in (iRet, l1, calls))"
  unfolding action_list_add_def Let_def action_list_get_def action_find_def add_search_key [OF assms]
  by (auto split: option.split simp: status_defs)

lemma db_write_cases:
  "db_write db f st err = (NoErr, if f = 1 then [] else [st]) \<and> (f = 1 \<or> db st = NoErr) \<or>
   db_write db f st err = (err, [st]) \<and> f \<noteq> 1 \<and> db st \<noteq> NoErr"
  by (simp add: db_write_def)

section \<open>Properties\<close>

definition action_example :: action_info where
  "action_example = \<lparr>acActionId = ''1'', a_acDevId = ''00AB'', a_acKey = ''Switch'', acValueCoding = ''Original'', a_acValue = ''1'', acResult = []\<rparr>"

definition sleep_example :: action_info where
  "sleep_example = \<lparr>acActionId = ''2'', a_acDevId = ''0'', a_acKey = ''Sleep'', acValueCoding = [], a_acValue = ''500'', acResult = []\<rparr>"

definition actions_example :: action_list where
  "actions_example = \<lparr>al_acId = ''s1'', al_ucInitFlag = 0, actions = [action_example, sleep_example]\<rparr>"

lemma example_keys [simp]: "\<not> same_action action_example sleep_example" "\<not> same_action sleep_example action_example"
  by (simp_all add: same_action_iff action_example_def sleep_example_def ACTION_ID_MAX_LEN_def)

lemma actions_example_wf: "action_wf actions_example"
  by (simp add: action_wf_def actions_example_def)

text \<open>Adding an action: an action with the same key is replaced where it stands, otherwise the new action
  goes to the end; the action is found afterwards, all others are as before, and keys stay unique. The
  status is \<open>NoErr\<close> exactly when no data base call failed, but the memory has changed in any case. An
  existing action is written to the data base twice.\<close>

theorem action_list_add_outcome:
  assumes "action_wf l" "length (a_acDevId a) < DEV_ID_MAX_LEN" "action_list_add (True, True, True) db l a = (r, l', calls)"
  shows "action_wf l' \<and> action_find True l' a = Some a \<and>
    (\<forall>b. \<not> same_action a b \<longrightarrow> action_find True l' b = action_find True l b) \<and>
    length (actions l') = length (actions l) + (if action_find True l a = None then 1 else 0) \<and>
    (r = NoErr \<longleftrightarrow> (\<forall>q \<in> set calls. db q = NoErr)) \<and>
    (r = NoErr \<longrightarrow> al_ucInitFlag l \<noteq> 1 \<longrightarrow> length calls = (if action_find True l a = None then 1 else 2))"
proof (cases "action_find True l a")
  case None
  then have l': "l' = l\<lparr>actions := actions l @ [a]\<rparr>" "(r, calls) = action_list_add_db db l' a"
    using assms(3) unfolding action_add_cases [OF assms(2)] by (auto simp: Let_def split: prod.splits)
  have n: "\<not> (\<exists>b \<in> set (actions l). same_action a b)" using None by (simp add: action_find_wf)
  have "action_find True l' a = Some a"
    using n find_ex [of "same_action a" "actions l"] ak.refl by (auto simp: l'(1) action_find_def find_append split: option.split)
  moreover have "action_find True l' b = action_find True l b" if "\<not> same_action a b" for b
    using ak.find_other(2) [OF that] by (simp add: l'(1) action_find_def)
  moreover have "(r = NoErr \<longleftrightarrow> (\<forall>q \<in> set calls. db q = NoErr)) \<and> (r = NoErr \<longrightarrow> al_ucInitFlag l \<noteq> 1 \<longrightarrow> length calls = 1)"
    using l'(2) by (auto simp: l'(1) action_list_add_db_def db_write_def status_defs split: if_splits)
  ultimately show ?thesis
    using None ak.distinct_snoc [OF assms(1) [unfolded action_wf_def] n] by (simp add: l'(1) action_wf_def)
next
  case (Some b)
  define l1 where "l1 = l\<lparr>actions := upd_first (same_action a) (\<lambda>_. a) (actions l)\<rparr>"
  have l': "l' = l1" "(r = NoErr \<longleftrightarrow> (\<forall>q \<in> set calls. db q = NoErr))"
    "r = NoErr \<longrightarrow> al_ucInitFlag l \<noteq> 1 \<longrightarrow> length calls = 2"
    using assms(3) Some unfolding action_add_cases [OF assms(2)]
    by (auto simp: action_list_set_def action_list_set_db_def db_write_def l1_def Let_def status_defs split: if_splits)
  have "action_find True l1 a = map_option (\<lambda>_. a) (action_find True l a)"
    using find_upd_first [of "same_action a" "\<lambda>_. a" "actions l"] ak.refl by (simp add: l1_def action_find_def)
  moreover have "action_find True l1 b = action_find True l b" if "\<not> same_action a b" for b
    using ak.find_other(3) [OF that, of "\<lambda>_. a"] ak.sym by (simp add: l1_def action_find_def)
  moreover have "action_wf l1" using ak.distinct_upd [of "actions l" a "\<lambda>_. a"] assms(1) ak.sym by (simp add: l1_def action_wf_def)
  ultimately show ?thesis using Some l' by (simp add: l1_def)
qed

theorem action_list_add_outcome_witness:
  "\<exists>l' calls. action_list_add (True, True, True) (\<lambda>q. NoErr) actions_example (action_example\<lparr>a_acDevId := ''00ab''\<rparr>) = (NoErr, l', calls) \<and>
     action_wf l' \<and> length (actions l') = 2 \<and> length calls = 2"
proof -
  let ?a = "action_example\<lparr>a_acDevId := ''00ab''\<rparr>"
  have f: "action_find True actions_example ?a \<noteq> None" by code_simp
  obtain r l' calls where e: "action_list_add (True, True, True) (\<lambda>q. NoErr) actions_example ?a = (r, l', calls)"
    by (metis prod_cases3)
  have d: "length (a_acDevId ?a) < DEV_ID_MAX_LEN" by (simp add: len_defs)
  from action_list_add_outcome [OF actions_example_wf d e] f e show ?thesis by (auto simp: actions_example_def)
qed

text \<open>Adding an action with a new key and deleting it again gives back the list; deleting an action
  removes it and no other one, and deleting one that is not there is an error that changes nothing.\<close>

theorem action_add_del_roundtrip:
  assumes "action_wf l" "length (a_acDevId a) < DEV_ID_MAX_LEN"
  shows "if action_find True l a = None
    then action_list_del True (\<lambda>q. NoErr) (fst (snd (action_list_add (True, True, True) db l a))) a =
        (NoErr, l, snd (action_list_del_db (\<lambda>q. NoErr) l a)) \<and> action_list_del True db l a = (SceneDelErr, l, [])
    else let l' = fst (snd (action_list_del True db l a)) in
      action_find True l' a = None \<and> length (actions l') + 1 = length (actions l) \<and> action_wf l' \<and>
      (\<forall>b. \<not> same_action a b \<longrightarrow> action_find True l' b = action_find True l b)"
proof (cases "action_find True l a")
  case None
  then have n: "\<not> (\<exists>b \<in> set (actions l). same_action a b)" by (simp add: action_find_wf)
  define l1 where "l1 = l\<lparr>actions := actions l @ [a]\<rparr>"
  have l1: "fst (snd (action_list_add (True, True, True) db l a)) = l1"
    using None unfolding action_add_cases [OF assms(2)] by (auto simp: Let_def l1_def split: prod.splits)
  have "action_find True l1 a \<noteq> None" using ak.refl by (auto simp: action_find_wf l1_def)
  moreover have "l1\<lparr>actions := del_first (same_action a) (actions l1)\<rparr> = l"
    using del_first_snoc [OF n, of a] ak.refl by (simp add: l1_def)
  ultimately show ?thesis using None
    by (auto simp: l1 action_list_del_def action_list_del_db_def db_write_def Let_def status_defs action_find_def split: option.splits)
next
  case (Some b)
  then have l': "fst (snd (action_list_del True db l a)) = l\<lparr>actions := del_first (same_action a) (actions l)\<rparr>"
    by (simp add: action_list_del_def Let_def split: prod.split)
  have x: "\<exists>b \<in> set (actions l). same_action a b" using Some action_find_wf [of l a] by simp
  have "action_find True (l\<lparr>actions := del_first (same_action a) (actions l)\<rparr>) a = None"
    using ak.find_del assms(1) by (simp add: action_find_def action_wf_def)
  moreover have "length (del_first (same_action a) (actions l)) + 1 = length (actions l)"
    using x by (auto simp: length_del_first dest: length_pos_if_in_set)
  ultimately show ?thesis using Some ak.distinct_del [of "actions l" a] ak.find_other(1) assms(1)
    by (simp add: l' Let_def action_wf_def action_find_def)
qed

theorem action_add_del_roundtrip_witness:
  "action_find True (fst (snd (action_list_del True (\<lambda>q. NoErr) actions_example action_example))) action_example = None \<and>
   action_find True (fst (snd (action_list_del True (\<lambda>q. NoErr) actions_example action_example))) sleep_example = Some sleep_example"
proof -
  have f: "action_find True actions_example action_example \<noteq> None" "action_find True actions_example sleep_example = Some sleep_example"
    using ak.refl by (simp_all add: action_find_def actions_example_def)
  have d: "length (a_acDevId action_example) < DEV_ID_MAX_LEN" by (simp add: len_defs action_example_def)
  from action_add_del_roundtrip [OF actions_example_wf d, of "\<lambda>q. NoErr"] f show ?thesis by (simp add: Let_def)
qed

lemma exec_changes_result:
  "action_list_exec json send t a = Some (r, a', es) \<Longrightarrow> a' = a\<lparr>acResult := acResult a'\<rparr>"
  by (auto simp: action_list_exec_def exec_scene_action_def exec_push_zigbee_def exec_group_def exec_call_back_def Let_def
      split: if_splits option.splits Option.bind_splits)

lemma exec_actions_result:
  assumes "\<forall>a \<in> set as. action_list_exec json send t a \<noteq> None"
  shows "exec_actions json send t as = Some (map (\<lambda>a. fst (snd (the (action_list_exec json send t a)))) as,
    concat (map (\<lambda>a. snd (snd (the (action_list_exec json send t a)))) as))"
  using assms by (induction as) auto

text \<open>C26. Executing a scene: when every action can be executed, all of them are, in the order of the list and each
  exactly once, whatever the status of the ones before; nothing of an action changes but its result
  field. An action with an ordinary key sends one control command for its device, key and value, and
  its result field is the text of the status.\<close>

theorem action_list_exec_all_in_order:
  assumes "\<forall>a \<in> set (actions l). action_list_exec json send t a \<noteq> None"
  shows "\<exists>l'. action_list_exec_all json send t l = Some (NoErr, l',
      concat (map (\<lambda>a. snd (snd (the (action_list_exec json send t a)))) (actions l))) \<and>
    map (acResult_update (\<lambda>_. [])) (actions l') = map (acResult_update (\<lambda>_. [])) (actions l) \<and>
    (\<forall>i < length (actions l). a_acKey (actions l ! i) \<notin> {''SceneId'', ''PushZigbee'', ''Sleep'', ''Group'', ''CallBack''} \<longrightarrow>
      acResult (actions l' ! i) = snprintf STATE_MAX_LEN (int_text (send (Cmd_Ctrl (a_acDevId (actions l ! i)) (a_acKey (actions l ! i)) (a_acValue (actions l ! i))))))"
proof -
  define new where "new = (\<lambda>a. fst (snd (the (action_list_exec json send t a))))"
  define l' where "l' = l\<lparr>actions := map new (actions l)\<rparr>"
  have e: "action_list_exec_all json send t l = Some (NoErr, l', concat (map (\<lambda>a. snd (snd (the (action_list_exec json send t a)))) (actions l)))"
    using exec_actions_result [OF assms] by (simp add: action_list_exec_all_def l'_def new_def)
  have "acResult_update (\<lambda>_. []) (new a) = acResult_update (\<lambda>_. []) a" if "a \<in> set (actions l)" for a
  proof -
    from assms that obtain r a' es where "action_list_exec json send t a = Some (r, a', es)" by auto
    moreover from exec_changes_result [OF this] have "acResult_update (\<lambda>_. []) a' = acResult_update (\<lambda>_. []) a"
      by (metis action_info.surjective action_info.update_convs(6))
    ultimately show ?thesis by (simp add: new_def)
  qed
  then have s: "map (acResult_update (\<lambda>_. [])) (actions l') = map (acResult_update (\<lambda>_. [])) (actions l)" by (simp add: l'_def)
  have "acResult (actions l' ! i) = snprintf STATE_MAX_LEN (int_text (send (Cmd_Ctrl (a_acDevId (actions l ! i)) (a_acKey (actions l ! i)) (a_acValue (actions l ! i)))))"
    if "i < length (actions l)" "a_acKey (actions l ! i) \<notin> {''SceneId'', ''PushZigbee'', ''Sleep'', ''Group'', ''CallBack''}" for i
    using that by (simp add: l'_def new_def action_list_exec_def Let_def strncmp_eq_0_lit len_defs)
  with e s show ?thesis by blast
qed

theorem action_list_exec_all_in_order_witness:
  "\<exists>l'. action_list_exec_all (\<lambda>v. None) (\<lambda>c. -3) g_astActionCBList actions_example =
     Some (NoErr, l', [Send_Cmd (Cmd_Ctrl ''00AB'' ''Switch'' ''1''), Sleep_Ms 500]) \<and> acResult (actions l' ! 0) = ''-3''"
proof -
  have x: "action_list_exec (\<lambda>v. None) (\<lambda>c. -3) g_astActionCBList action_example =
      Some (-3, action_example\<lparr>acResult := ''-3''\<rparr>, [Send_Cmd (Cmd_Ctrl ''00AB'' ''Switch'' ''1'')])"
    "action_list_exec (\<lambda>v. None) (\<lambda>c. -3) g_astActionCBList sleep_example = Some (0, sleep_example, [Sleep_Ms 500])"
    by code_simp+
  have e: "snprintf STATE_MAX_LEN (int_text (-3)) = ''-3''" "a_acKey action_example = ''Switch''" by code_simp+
  have "\<forall>a \<in> set (actions actions_example). action_list_exec (\<lambda>v. None) (\<lambda>c. -3) g_astActionCBList a \<noteq> None"
    using x by (simp add: actions_example_def)
  from action_list_exec_all_in_order [OF this] obtain l' where
    "action_list_exec_all (\<lambda>v. None) (\<lambda>c. -3) g_astActionCBList actions_example =
       Some (NoErr, l', [Send_Cmd (Cmd_Ctrl ''00AB'' ''Switch'' ''1''), Sleep_Ms 500])" "acResult (actions l' ! 0) = ''-3''"
    using x e by (fastforce simp: actions_example_def)
  then show ?thesis by blast
qed

section \<open>Synchronisation\<close>

lemma upd_first_keys: "map key (upd_first P (\<lambda>_. a) xs) = map key xs" if "\<And>x. P x \<Longrightarrow> key a = key x"
  using that by (induction xs) auto

definition key_of :: "action_info \<Rightarrow> string \<times> string \<times> string" where
  "key_of a = (take ACTION_ID_MAX_LEN (acActionId a), map to_lower (a_acDevId a), take KEY_MAX_LEN (a_acKey a))"

lemma same_action_key: "same_action x y \<longleftrightarrow> key_of x = key_of y"
  by (simp add: same_action_iff key_of_def)

lemma action_set_keys: "map key_of (actions (fst (snd (action_list_set m db l a)))) = map key_of (actions l)"
  using upd_first_keys [of "same_action a" key_of a "actions l"]
  by (auto simp: action_list_set_def Let_def same_action_key split: option.split prod.split)

text \<open>An entry behind the array's used part that describes no action of the list: nothing is deleted.\<close>

lemma sync_loop_keeps:
  assumes "cnt < length arr" "key_of (arr ! cnt) \<notin> key_of ` set (actions l)"
  shows "\<exists>l' found' calls'. sync_loop al db arr cnt k l found calls = Some (l', found', calls') \<and>
    map key_of (actions l') = map key_of (actions l)"
  using assms
proof (induction al db arr cnt k l found calls rule: sync_loop.induct)
  case (1 al db arr cnt k l found calls)
  show ?case
  proof (cases "length (actions l) \<le> k")
    case True
    then show ?thesis by (simp add: sync_loop.simps [of al db arr cnt k])
  next
    case False
    have del: "action_find m l (arr ! cnt) = None" "action_list_del m db l (arr ! cnt) = (SceneDelErr, l, [])" for m
      using "1.prems"(2) action_find_wf [of l "arr ! cnt"]
      by (auto simp: action_find_def action_list_del_def same_action_key split: if_splits option.splits)
    show ?thesis
    proof (cases "match_entry arr cnt (actions l ! k)")
      case None
      then show ?thesis using 1(1) [OF False None] "1.prems" False del by (simp add: sync_loop.simps [of al db arr cnt k] Let_def)
    next
      case (Some i)
      define res where "res = (if action_changed (actions l ! k) (arr ! i) then action_list_set (fst (al i)) db l (arr ! i) else (NoErr, l, []))"
      have keys: "map key_of (actions (fst (snd res))) = map key_of (actions l)" by (simp add: res_def action_set_keys)
      then have "key_of (arr ! cnt) \<notin> key_of ` set (actions (fst (snd res)))" using "1.prems"(2) by (metis list.set_map)
      from 1(2) [OF False Some res_def "1.prems"(1) this] keys show ?thesis
        using False Some by (simp add: sync_loop.simps [of al db arr cnt k] Let_def flip: res_def)
    qed
  qed
qed

lemma add_entries_keys:
  "key_of ` set (actions l) \<subseteq> key_of ` set (actions (fst (add_entries al db arr is l)))"
proof (induction "is" arbitrary: l)
  case (Cons i "is")
  have "key_of ` set (actions l) \<subseteq> key_of ` set (actions (fst (snd (action_list_add (al i) db l (arr ! i)))))"
  proof -
    have "key_of ` set (actions (fst (snd (action_list_set m db l a)))) = key_of ` set (actions l)" for m a
      using action_set_keys [of m db l a] by (metis list.set_map)
    then show ?thesis by (simp add: action_list_add_def Let_def case_prod_beta subset_insertI)
  qed
  from subset_trans [OF this Cons.IH] show ?case by (simp add: Let_def case_prod_beta)
qed simp

text \<open>Synchronising a non-empty list does not remove the actions that are missing in the new array: when the
  entry behind the last used one describes no stored action (an array of zeros does not), every action of
  the list is still there afterwards. Only an empty array empties the list. When the array ends at its
  last used entry and an action is missing in it, the entry behind the array is read.\<close>

theorem action_list_sync_keeps_stale:
  assumes "actions l \<noteq> []" "0 < cnt"
  shows "(cnt < length arr \<longrightarrow> key_of (arr ! cnt) \<notin> key_of ` set (actions l) \<longrightarrow>
      (\<exists>l' calls. action_list_sync True al db arr cnt l = Some (NoErr, l', calls) \<and>
        key_of ` set (actions l) \<subseteq> key_of ` set (actions l'))) \<and>
    (length arr = cnt \<longrightarrow> match_entry arr cnt (hd (actions l)) = None \<longrightarrow> action_list_sync True al db arr cnt l = None) \<and>
    action_list_sync True al db arr 0 l = Some (NoErr, l\<lparr>actions := []\<rparr>, [])"
proof (intro conjI impI)
  assume "cnt < length arr" "key_of (arr ! cnt) \<notin> key_of ` set (actions l)"
  from sync_loop_keeps [OF this, of al db 0 "{}" "[]"] obtain l1 found cs where
    s: "sync_loop al db arr cnt 0 l {} [] = Some (l1, found, cs)" "map key_of (actions l1) = map key_of (actions l)" by blast
  then have "key_of ` set (actions l) = key_of ` set (actions l1)" by (metis list.set_map)
  with s(1) assms show "\<exists>l' calls. action_list_sync True al db arr cnt l = Some (NoErr, l', calls) \<and>
      key_of ` set (actions l) \<subseteq> key_of ` set (actions l')"
    using add_entries_keys [of l1 al db arr "filter (\<lambda>i. i \<notin> found) [0..<cnt]"]
    by (auto simp: action_list_sync_def Let_def split: prod.split)
next
  assume "length arr = cnt" "match_entry arr cnt (hd (actions l)) = None"
  with assms show "action_list_sync True al db arr cnt l = None"
    by (simp add: action_list_sync_def sync_loop.simps [of al db arr cnt 0] hd_conv_nth)
qed (use assms in \<open>simp add: action_list_sync_def action_list_clear_def\<close>)

theorem action_list_sync_keeps_stale_witness:
  "\<exists>l' calls. action_list_sync True (\<lambda>i. (True, True, True)) (\<lambda>q. NoErr)
      [action_example, \<lparr>acActionId = [], a_acDevId = [], a_acKey = [], acValueCoding = [], a_acValue = [], acResult = []\<rparr>] 1 actions_example =
      Some (NoErr, l', calls) \<and> key_of sleep_example \<in> key_of ` set (actions l')"
proof -
  let ?z = "\<lparr>acActionId = [], a_acDevId = [], a_acKey = [], acValueCoding = [], a_acValue = [], acResult = []\<rparr>"
  have ne: "actions actions_example \<noteq> []" by (simp add: actions_example_def)
  have k: "key_of ([action_example, ?z] ! 1) \<notin> key_of ` set (actions actions_example)"
    by (simp add: actions_example_def key_of_def action_example_def sleep_example_def)
  have m: "key_of sleep_example \<in> key_of ` set (actions actions_example)" by (simp add: actions_example_def)
  from action_list_sync_keeps_stale [OF ne, of 1 "[action_example, ?z]" "\<lambda>i. (True, True, True)" "\<lambda>q. NoErr"] k m
  show ?thesis by auto
qed

section \<open>Loading\<close>

text \<open>The rows that hold the actions of a list, and the actions that fit the columns.\<close>

definition rows_of :: "action_list \<Rightarrow> string list list" where
  "rows_of l = map (\<lambda>a. [acActionId a, a_acDevId a, a_acKey a, acValueCoding a, a_acValue a]) (actions l)"

definition storable :: "action_info \<Rightarrow> bool" where
  "storable a \<longleftrightarrow> acActionId a \<noteq> [] \<and> length (acActionId a) < ACTION_ID_MAX_LEN \<and> length (a_acDevId a) < DEV_ID_MAX_LEN \<and>
     length (a_acKey a) < KEY_MAX_LEN \<and> length (acValueCoding a) < VALUE_CODING_MAX_LEN \<and> length (a_acValue a) < VALUE_MAX_LEN"

lemma row_action_storable:
  "storable a \<Longrightarrow> row_action [acActionId a, a_acDevId a, a_acKey a, acValueCoding a, a_acValue a] = a\<lparr>acResult := []\<rparr>"
  by (simp add: row_action_def storable_def strncpy_def)

lemma get_list_db_rows:
  assumes "\<forall>a \<in> set (actions l). storable a" "length (actions l) \<le> ACTION_MAX_NUM"
  shows "action_list_get_list_db True (NoErr, rows_of l) ACTION_MAX_NUM = Some (NoErr, map (acResult_update (\<lambda>_. [])) (actions l))"
proof -
  have "map row_action (rows_of l) = map (acResult_update (\<lambda>_. [])) (actions l)"
    using assms(1) by (simp add: rows_of_def row_action_storable)
  moreover have "length (rows_of l) \<le> ACTION_MAX_NUM" "\<forall>r \<in> set (rows_of l). r ! 0 \<noteq> []" using assms by (auto simp: rows_of_def storable_def)
  ultimately show ?thesis by (simp add: action_list_get_list_db_def get_list_db_all)
qed

lemma add_entries_fresh:
  assumes "al_ucInitFlag l = 1" "distinct_by same_action (actions l @ map ((!) arr) is)"
    "\<forall>i \<in> set is. length (a_acDevId (arr ! i)) < DEV_ID_MAX_LEN"
  shows "add_entries (\<lambda>i. (True, True, True)) db arr is l = (l\<lparr>actions := actions l @ map ((!) arr) is\<rparr>, [])"
  using assms
proof (induction "is" arbitrary: l)
  case (Cons i "is")
  let ?a = "arr ! i"
  have "\<not> (\<exists>b \<in> set xs. same_action ?a b)" if "distinct_by same_action (xs @ ?a # ys)" for xs ys
    using that ak.sym by (induction xs) auto
  then have n: "\<not> (\<exists>b \<in> set (actions l). same_action ?a b)" using Cons.prems(2) by simp
  then have f: "action_find True l ?a = None" by (simp add: action_find_wf)
  define l1 where "l1 = l\<lparr>actions := actions l @ [?a]\<rparr>"
  have "action_list_add (True, True, True) db l ?a = (NoErr, l1, [])"
    using f Cons.prems(1,3) by (simp add: action_add_cases action_list_add_db_def db_write_def l1_def)
  moreover have "add_entries (\<lambda>i. (True, True, True)) db arr is l1 = (l1\<lparr>actions := actions l1 @ map ((!) arr) is\<rparr>, [])"
    using Cons.prems by (intro Cons.IH) (simp_all add: l1_def)
  ultimately show ?case by (simp add: l1_def)
qed simp

text \<open>A restart restores the actions: loading the rows of a list whose actions fit their columns and have a
  non-empty id into a new list gives the actions back in their order, without their results and without
  any write to the data base, and the list leaves the initialisation phase.\<close>

theorem action_list_init_restores:
  assumes "action_wf l" "\<forall>a \<in> set (actions l). storable a" "length (actions l) \<le> ACTION_MAX_NUM"
    "new_action_list True True pcId = Some new"
  shows "action_list_init (True, True, True) (\<lambda>i. (True, True, True)) db (NoErr, rows_of l) new =
    Some (NoErr, new\<lparr>actions := map (acResult_update (\<lambda>_. [])) (actions l)\<rparr>, [])"
proof -
  let ?es = "map (acResult_update (\<lambda>_. [])) (actions l)"
  let ?arr = "zero_fill ACTION_MAX_NUM zero_action ?es"
  have new: "actions new = []" "al_ucInitFlag new = 0" using assms(4) by (auto simp: new_action_list_def)
  have m: "map ((!) ?arr) [0..<length ?es] = ?es" by (rule nth_zero_fill)
  have "distinct_by same_action (map (acResult_update (\<lambda>_. [])) as) = distinct_by same_action as" for as
    by (induction as) (simp_all add: same_action_iff)
  then have d: "distinct_by same_action ?es" using assms(1) by (simp add: action_wf_def)
  have "\<forall>i \<in> set [0..<length ?es]. length (a_acDevId (?arr ! i)) < DEV_ID_MAX_LEN"
    using assms(2) by (auto simp: zero_fill_def nth_append storable_def)
  from add_entries_fresh [of "new\<lparr>al_ucInitFlag := 1\<rparr>" ?arr "[0..<length ?es]" db, OF _ _ this] d m new(1)
  have "add_entries (\<lambda>i. (True, True, True)) db ?arr [0..<length ?es] (new\<lparr>al_ucInitFlag := 1\<rparr>) =
      (new\<lparr>al_ucInitFlag := 1, actions := ?es\<rparr>, [])" by simp
  then show ?thesis using get_list_db_rows [OF assms(2,3)] new
    by (simp add: action_list_init_def action_list_sync_def Let_def)
qed

theorem action_list_init_restores_witness:
  "\<exists>new. new_action_list True True ''s1'' = Some new \<and>
     action_list_init (True, True, True) (\<lambda>i. (True, True, True)) (\<lambda>q. SceneAddErr) (NoErr, rows_of actions_example) new =
       Some (NoErr, new\<lparr>actions := [action_example, sleep_example]\<rparr>, [])"
proof -
  obtain new where new: "new_action_list True True ''s1'' = Some new" by (simp add: new_action_list_def)
  have s: "\<forall>a \<in> set (actions actions_example). storable a" "length (actions actions_example) \<le> ACTION_MAX_NUM"
    by (simp_all add: actions_example_def storable_def action_example_def sleep_example_def ACTION_ID_MAX_LEN_def
        VALUE_CODING_MAX_LEN_def ACTION_MAX_NUM_def len_defs)
  from action_list_init_restores [OF actions_example_wf s new, of "\<lambda>q. SceneAddErr"] new show ?thesis
    by (simp add: actions_example_def action_example_def sleep_example_def)
qed

lemma first_pos_less: "first_pos P xs < length xs \<longleftrightarrow> (\<exists>x \<in> set xs. P x)"
  unfolding first_pos_def by (induction xs) auto

lemma first_pos_at: "first_pos P xs < length xs \<Longrightarrow> P (xs ! first_pos P xs)"
  unfolding first_pos_def by (induction xs) auto

lemma first_pos_update:
  assumes "k < length t" "c \<notin> fst ` set t" "fst (t ! k) \<noteq> d"
  shows "first_pos (\<lambda>e. fst e = d) (t[k := (c, x)]) = (if d = c then k else first_pos (\<lambda>e. fst e = d) t)"
  using assms
proof (induction t arbitrary: k)
  case (Cons e t)
  then show ?case by (cases k) (auto simp: first_pos_def)
qed simp

text \<open>A callback that was registered under a new identifier is found under it, and the others stay as they
  are; with all 64 places taken the registration is refused.\<close>

theorem action_callback_reg_get:
  assumes "length t = ACTION_CALLBACK_LIST_MAX_NUM" "0 < c" "pFun \<noteq> NULL" "c \<notin> fst ` set t"
    "action_callback_reg c pFun u t = (r, t')"
  shows "if \<exists>e \<in> set t. fst e \<le> 0
    then r = NoErr \<and> action_callback_get c t' = Some (c, pFun, u) \<and> length t' = length t \<and>
      (\<forall>d. d \<noteq> c \<longrightarrow> 0 < d \<longrightarrow> action_callback_get d t' = action_callback_get d t)
    else r = HeapReqErr \<and> t' = t"
proof (cases "\<exists>e \<in> set t. fst e \<le> 0")
  case False
  then have "\<not> first_pos (\<lambda>e. fst e \<le> 0) t < length t" unfolding first_pos_less by auto
  then show ?thesis using False assms by (auto simp: action_callback_reg_def)
next
  case True
  let ?i = "first_pos (\<lambda>e. fst e \<le> 0) t"
  have i: "?i < length t" "fst (t ! ?i) \<le> 0"
    using True first_pos_less [of "\<lambda>e. fst e \<le> 0" t] first_pos_at [of "\<lambda>e. fst e \<le> 0" t] by auto
  have t': "r = NoErr" "t' = t[?i := (c, pFun, u)]" using i(1) assms(1-3,5) by (auto simp: action_callback_reg_def Let_def)
  have g: "action_callback_get d t' = (if d = c then Some (c, pFun, u) else action_callback_get d t)" if d: "0 < d" for d
  proof -
    have "fst (t ! ?i) \<noteq> d" using i(2) d by simp
    note p = first_pos_update [OF i(1) assms(4) this, of "(pFun, u)"]
    have "first_pos (\<lambda>e. fst e = d) t \<noteq> ?i" using i \<open>fst (t ! ?i) \<noteq> d\<close> first_pos_at [of "\<lambda>e. fst e = d" t] by fastforce
    then show ?thesis using p i(1) assms(1) d by (simp add: action_callback_get_def t'(2) Let_def)
  qed
  show ?thesis using True t' g [OF assms(2)] g by simp
qed

theorem action_callback_reg_get_witness:
  "\<exists>t'. action_callback_reg 5 9 0 g_astActionCBList = (NoErr, t') \<and> action_callback_get 5 t' = Some (5, 9, 0)"
proof -
  obtain r t' where e: "action_callback_reg 5 9 0 g_astActionCBList = (r, t')" by fastforce
  have g: "length g_astActionCBList = ACTION_CALLBACK_LIST_MAX_NUM" "5 \<notin> fst ` set g_astActionCBList" "\<exists>e \<in> set g_astActionCBList. fst e \<le> 0"
    by (simp_all add: g_astActionCBList_def ACTION_CALLBACK_LIST_MAX_NUM_def)
  from action_callback_reg_get [OF g(1) _ _ g(2) e] g(3) e show ?thesis by auto
qed

end
