(* ===== verification/Scene_Exec.thy ===== *)
theory Scene_Exec
  imports Scene_Cond Scene_Sync Action_List "HOL-Library.Sublist"
begin

text \<open>
  Execution of scenes: \<open>hylink/src/local_scene/scene_list.c\<close>, from \<open>scene_list_exec\<close> to the thread function
  \<open>scene_exec\<close>. An event of a device is looked up in the pointer index; every event condition that
  depends on it is evaluated and its truth propagated (theory \<open>Scene_Cond\<close>), or, for a condition of type
  \<open>StateSync\<close>, the other devices of the scene are brought to the same state (theory \<open>Scene_Sync\<close>). A
  scene that is triggered joins a queue, which a thread works off; time conditions are checked every
  minute.

  A scene is identified by the address of its \<open>scene_info_t\<close>. The copy of the scene in a queue entry is
  read only for the identifier and the action list, so the entry holds these two. \<open>mem n\<close> tells whether
  the allocation of a queue entry succeeds when the queue has \<open>n\<close> entries. Timers that are requested are
  recorded; their table is theory \<open>Scene_Timer\<close>. The action lists that scenes point to are theory \<open>Action_List\<close>. A handler or a pass of a
  thread is one function on the state, which describes it when nothing else runs meanwhile. The code takes \<open>scene_lock\<close> for the
  pass over the time conditions and for running the actions of one entry, and takes no lock in the event
  handlers; the interleaving of the tasks is the subject of theory \<open>Scene_Run\<close>.
\<close>

section \<open>State\<close>

definition COND_MAX_NUM :: nat where "COND_MAX_NUM = 128"

record queue_node =
  iExecDelayed :: int
  iTime :: int
  q_acSceneId :: string
  q_pstAction :: ptr

record scene_list =
  scenes :: "(ptr \<times> scene_info) list"
  pHashTable :: ptr_hash_table
  pstExecQueue :: "queue_node list"
  pSceneReportHandler :: ptr
  syncList :: sync_list
  timerReqs :: "(ptr_info \<times> int) list"
  sl_ucInitFlag :: u8
  actionLists :: "ptr \<rightharpoonup> action_list"

definition get_scene :: "scene_list \<Rightarrow> ptr \<Rightarrow> scene_info option" where
  "get_scene L a = map_of (scenes L) a"

definition put_scene :: "ptr \<Rightarrow> scene_info \<Rightarrow> scene_list \<Rightarrow> scene_list" where
  "put_scene a s L = L\<lparr>scenes := map (\<lambda>(b, t). if b = a then (b, s) else (b, t)) (scenes L)\<rparr>"

section \<open>Execution requests\<close>

definition scene_list_exec :: "(nat \<Rightarrow> bool) \<Rightarrow> int \<Rightarrow> scene_info \<Rightarrow> scene_list \<Rightarrow> status \<times> scene_list" where
  "scene_list_exec mem now pstInfo L =
     (if \<not> mem (length (pstExecQueue L)) then (HeapReqErr, L)
      else (NoErr, L\<lparr>pstExecQueue := pstExecQueue L @ [\<lparr>iExecDelayed = atoi (acExecDelayed pstInfo), iTime = now,
              q_acSceneId = acSceneId pstInfo, q_pstAction = pstAction pstInfo\<rparr>]\<rparr>))"

definition scene_list_active :: "(nat \<Rightarrow> bool) \<Rightarrow> int \<Rightarrow> scene_info \<Rightarrow> scene_list \<Rightarrow> status \<times> scene_list" where
  "scene_list_active mem now pstInfo L =
     (if cManualTriggerFlag pstInfo = 1 then
        (if strncmp (acSceneEnable pstInfo) ''1'' STATE_MAX_LEN = 0 then scene_list_exec mem now pstInfo L else (NoErr, L))
      else
        (if strncmp (acSceneEnable pstInfo) ''1'' STATE_MAX_LEN = 0 then
           (if cond_size (pstTimeCondList (stOrCond pstInfo)) + cond_size (pstEventCondList (stOrCond pstInfo)) +
               cond_size (pstTimeCondList (stAndCond pstInfo)) + cond_size (pstEventCondList (stAndCond pstInfo)) = 0
            then scene_list_exec mem now pstInfo L else (NoErr, L))
         else (NoErr, L)))"

definition scene_report_reg :: "ptr \<Rightarrow> scene_list \<Rightarrow> status \<times> scene_list" where
  "scene_report_reg handler L = (if handler = NULL then (ParaErr, L) else (NoErr, L\<lparr>pSceneReportHandler := handler\<rparr>))"

text \<open>The effects that the truth propagation of a scene requests.\<close>

fun apply_effects :: "(nat \<Rightarrow> bool) \<Rightarrow> int \<Rightarrow> scene_info \<Rightarrow> scene_effect list \<Rightarrow> scene_list \<Rightarrow> scene_list" where
  "apply_effects mem now s [] L = L"
| "apply_effects mem now s (Exec_Scene # es) L = apply_effects mem now s es (snd (scene_list_exec mem now s L))"
| "apply_effects mem now s (Start_Timer p n # es) L =
     apply_effects mem now s es (L\<lparr>timerReqs := timerReqs L @ [(p, n)]\<rparr>)"

section \<open>Events\<close>

text \<open>Requests to bring the other devices of the scene to the reported value.\<close>

fun sync_others :: "bool \<times> bool \<Rightarrow> int \<Rightarrow> event \<Rightarrow> event_cond list \<Rightarrow> sync_list \<Rightarrow> sync_list option" where
  "sync_others smem now e [] g = Some g"
| "sync_others smem now e (c # cs) g =
     (if strncmp (ev_acDevId e) (e_acDevId c) DEV_ID_MAX_LEN = 0 \<and> strncmp (ev_acKey e) (e_acKey c) KEY_MAX_LEN = 0
      then sync_others smem now e cs g
      else do {
        (r, g1) \<leftarrow> scene_sync_event_req_add smem now (e_acDevId c) (e_acKey c) (ev_acValue e) g;
        sync_others smem now e cs g1
      })"

text \<open>The last value of the condition is updated and stored in the data base.\<close>

definition store_last_value :: "(db_stmt \<Rightarrow> status) \<Rightarrow> event \<Rightarrow> ptr_info \<Rightarrow> scene_info \<Rightarrow> (status \<times> scene_info \<times> db_calls) option" where
  "store_last_value db e p s = do {
     s1 \<leftarrow> put_cond pstEventCondList pstEventCondList_update p (\<lambda>c. c\<lparr>acLastValue := strncpy (ev_acValue e) VALUE_MAX_LEN\<rparr>) s;
     c \<leftarrow> cond_at pstEventCondList p s1;
     l \<leftarrow> find_list pstEventCondList s1 (pstCondList p);
     let (iRet, calls) = event_cond_set_db db l c;
     Some (iRet, s1, calls)
   }"

type_synonym event_result = "status \<times> scene_list \<times> db_calls"

text \<open>One condition: of type \<open>StateSync\<close>, or of a local scene.\<close>

definition sync_cond :: "(db_stmt \<Rightarrow> status) \<Rightarrow> bool \<times> bool \<Rightarrow> int \<Rightarrow> event \<Rightarrow> ptr_info \<Rightarrow> scene_info \<Rightarrow> event_cond \<Rightarrow>
    scene_list \<Rightarrow> event_result option" where
  "sync_cond db smem now e p s c L =
     (if strncmp (acLastValue c) (ev_acValue e) VALUE_MAX_LEN \<noteq> 0 then do {
        (r, g) \<leftarrow> scene_sync_event (fst smem) now (ev_acDevId e) (ev_acKey e) (ev_acValue e) (syncList L);
        g1 \<leftarrow> (if r = 1 then Some g
               else sync_others smem now e (snd (event_cond_get_list (pstEventCondList (stOrCond s)) COND_MAX_NUM)) g);
        (iRet, s1, calls) \<leftarrow> store_last_value db e p s;
        Some (iRet, put_scene (pstScene p) s1 (L\<lparr>syncList := g1\<rparr>), calls)
      } else Some (NoErr, L, []))"

definition local_cond :: "(rat \<Rightarrow> rat) \<Rightarrow> (db_stmt \<Rightarrow> status) \<Rightarrow> (nat \<Rightarrow> bool) \<Rightarrow> int \<Rightarrow> event \<Rightarrow> ptr_info \<Rightarrow> scene_info \<Rightarrow>
    event_cond \<Rightarrow> scene_list \<Rightarrow> event_result option" where
  "local_cond rnd db mem now e p s c L = do {
     iTrue \<leftarrow> scene_event_cond_is_true rnd c e;
     (iRet, s1, calls) \<leftarrow> (if strncmp (acLastValue c) (ev_acValue e) VALUE_MAX_LEN \<noteq> 0 then store_last_value db e p s
                          else Some (NoErr, s, []));
     let L1 = put_scene (pstScene p) s1 L;
     if iRet \<noteq> NoErr then Some (iRet, L1, calls)
     else do {
       (s2, eff) \<leftarrow> scene_event_cond_true_update iTrue p s1;
       Some (NoErr, apply_effects mem now s2 eff (put_scene (pstScene p) s2 L1), calls)
     }
   }"

definition event_cond_one :: "(rat \<Rightarrow> rat) \<Rightarrow> (db_stmt \<Rightarrow> status) \<Rightarrow> (nat \<Rightarrow> bool) \<Rightarrow> bool \<times> bool \<Rightarrow> int \<Rightarrow> event \<Rightarrow>
    ptr_info \<Rightarrow> scene_list \<Rightarrow> event_result option" where
  "event_cond_one rnd db mem smem now e p L = do {
     s \<leftarrow> get_scene L (pstScene p);
     if strncmp (acSceneEnable s) ''0'' STATE_MAX_LEN = 0 then Some (NoErr, L, [])
     else do {
       c \<leftarrow> cond_at pstEventCondList p s;
       if strcmp (e_acTriggerType c) ''StateSync'' = 0 then sync_cond db smem now e p s c L
       else local_cond rnd db mem now e p s c L
     }
   }"

fun event_conds :: "(rat \<Rightarrow> rat) \<Rightarrow> (db_stmt \<Rightarrow> status) \<Rightarrow> (nat \<Rightarrow> bool) \<Rightarrow> bool \<times> bool \<Rightarrow> int \<Rightarrow> event \<Rightarrow>
    ptr_info list \<Rightarrow> scene_list \<Rightarrow> event_result option" where
  "event_conds rnd db mem smem now e [] L = Some (NoErr, L, [])"
| "event_conds rnd db mem smem now e (p # ps) L = do {
     (iRet, L1, calls) \<leftarrow> event_cond_one rnd db mem smem now e p L;
     if iRet \<noteq> NoErr then Some (iRet, L1, calls)
     else do {
       (iRet2, L2, calls2) \<leftarrow> event_conds rnd db mem smem now e ps L1;
       Some (iRet2, L2, calls @ calls2)
     }
   }"

fun event_panels :: "(nat \<Rightarrow> bool) \<Rightarrow> int \<Rightarrow> ptr_info list \<Rightarrow> scene_list \<Rightarrow> event_result option" where
  "event_panels mem now [] L = Some (NoErr, L, [])"
| "event_panels mem now (p # ps) L = do {
     s \<leftarrow> get_scene L (pstScene p);
     panel \<leftarrow> map_of (pstPanel s) (pScenePanelNode p);
     event_panels mem now ps
       (if strncmp (sp_acEnable panel) ''1'' STATE_MAX_LEN = 0 then snd (scene_list_active mem now s L) else L)
   }"

definition scene_list_event :: "(rat \<Rightarrow> rat) \<Rightarrow> (db_stmt \<Rightarrow> status) \<Rightarrow> (nat \<Rightarrow> bool) \<Rightarrow> bool \<times> bool \<Rightarrow> int \<Rightarrow> event \<Rightarrow>
    scene_list \<Rightarrow> event_result option" where
  "scene_list_event rnd db mem smem now e L =
     (let key = snprintf KEY_MAX_LEN (ev_acDevId e @ ev_acKey e @ ''cond'');
          pHashValue = ptr_hash_find_all (pHashTable L) (Some key) in
      if pHashValue \<noteq> NULL then do {
        ps \<leftarrow> chain_of (pHashTable L) pHashValue;
        event_conds rnd db mem smem now e ps L
      } else
        let key2 = snprintf KEY_MAX_LEN (ev_acDevId e @ ev_acKey e @ ev_acValue e @ ''scene_bind'');
            pHashValue2 = ptr_hash_find_all (pHashTable L) (Some key2) in
        if pHashValue2 \<noteq> NULL then do {
          ps \<leftarrow> chain_of (pHashTable L) pHashValue2;
          event_panels mem now ps L
        } else Some (NoErr, L, []))"

section \<open>Time conditions\<close>

text \<open>The pointer records of the conditions of a list, in the order in which the check visits them.\<close>

definition cond_ptrs :: "ptr \<Rightarrow> scene_info \<Rightarrow> 'c cond_list \<Rightarrow> ptr_info list" where
  "cond_ptrs a s l = concat (map (\<lambda>t. map (\<lambda>n. \<lparr>acId = strncpy (acSceneId s) INDEX_MAX_LEN, pstScene = a,
     pstCondList = cl_addr l, pCondSetNode = sn_addr t, pCondNode = cn_addr n, pScenePanelNode = NULL\<rparr>) (pstCond t)) (sets l))"

definition time_cond_one :: "(nat \<Rightarrow> bool) \<Rightarrow> tm \<Rightarrow> int \<Rightarrow> ptr_info \<Rightarrow> scene_list \<Rightarrow> scene_list option" where
  "time_cond_one mem tm now p L = do {
     s \<leftarrow> get_scene L (pstScene p);
     c \<leftarrow> cond_at pstTimeCondList p s;
     let (iNewTrue, c') = scene_time_cond_is_true tm c;
     s1 \<leftarrow> put_cond pstTimeCondList pstTimeCondList_update p (\<lambda>_. c') s;
     (s2, eff) \<leftarrow> scene_time_cond_true_update iNewTrue p s1;
     Some (apply_effects mem now s2 eff (put_scene (pstScene p) s2 L))
   }"

fun time_conds :: "(nat \<Rightarrow> bool) \<Rightarrow> tm \<Rightarrow> int \<Rightarrow> ptr_info list \<Rightarrow> scene_list \<Rightarrow> scene_list option" where
  "time_conds mem tm now [] L = Some L"
| "time_conds mem tm now (p # ps) L = do { L1 \<leftarrow> time_cond_one mem tm now p L; time_conds mem tm now ps L1 }"

fun time_scenes :: "(nat \<Rightarrow> bool) \<Rightarrow> tm \<Rightarrow> int \<Rightarrow> ptr list \<Rightarrow> scene_list \<Rightarrow> scene_list option" where
  "time_scenes mem tm now [] L = Some L"
| "time_scenes mem tm now (a # as) L = do {
     s \<leftarrow> get_scene L a;
     L1 \<leftarrow> time_conds mem tm now (cond_ptrs a s (pstTimeCondList (stOrCond s))) L;
     s1 \<leftarrow> get_scene L1 a;
     L2 \<leftarrow> time_conds mem tm now (cond_ptrs a s1 (pstTimeCondList (stAndCond s1))) L1;
     time_scenes mem tm now as L2
   }"

definition scene_list_time_true_all :: "(nat \<Rightarrow> bool) \<Rightarrow> tm \<Rightarrow> int \<Rightarrow> scene_list \<Rightarrow> (status \<times> scene_list) option" where
  "scene_list_time_true_all mem tm now L =
     (if scenes L = [] then Some (NoErr, L)
      else do { L1 \<leftarrow> time_scenes mem tm now (map fst (scenes L)) L; Some (NoErr, L1) })"

text \<open>One round of the thread that checks the time conditions; \<open>iTimeCondCheck\<close> is its local variable.\<close>

definition scene_cond_round :: "(nat \<Rightarrow> bool) \<Rightarrow> tm \<Rightarrow> int \<Rightarrow> int \<times> scene_list \<Rightarrow> (int \<times> scene_list) option" where
  "scene_cond_round mem tm iNow st =
     (let (iTimeCondCheck, L) = st in
      if iNow - iTimeCondCheck \<ge> 60 then do {
        (r, L1) \<leftarrow> (if length (scenes L) > 0 then scene_list_time_true_all mem tm iNow L else Some (NoErr, L));
        Some (iNow, L1)
      } else Some (iTimeCondCheck, L))"

section \<open>Execution queue\<close>

text \<open>What the execution thread does: it runs the actions of a scene and reports the scene.\<close>

datatype exec_step =
    Run_Actions ptr
  | Report_Scene string

definition due :: "int \<Rightarrow> queue_node \<Rightarrow> bool" where
  "due now q \<longleftrightarrow> iExecDelayed q = 0 \<or> now - iTime q \<ge> iExecDelayed q"

definition run_steps_of :: "bool \<Rightarrow> queue_node \<Rightarrow> exec_step list" where
  "run_steps_of rep q = Run_Actions (q_pstAction q) # (if rep then [Report_Scene (q_acSceneId q)] else [])"

text \<open>One entry, at position \<open>i\<close> of the queue: it is executed and deleted when it is due, otherwise the pass goes on to the next
  one. The result has the position of the next entry.\<close>

definition exec_one :: "int \<Rightarrow> bool \<Rightarrow> nat \<Rightarrow> queue_node list \<Rightarrow> nat \<times> queue_node list \<times> exec_step list" where
  "exec_one now rep i Q = (if due now (Q ! i) then (i, take i Q @ drop (Suc i) Q, run_steps_of rep (Q ! i)) else (Suc i, Q, []))"

text \<open>A pass over the queue: it starts at position 0 and ends behind the last entry. \<open>clock n\<close> is the time at which the \<open>n\<close>-th entry of the
  pass is looked at, \<open>rep\<close>: a handler for reports is registered.\<close>

function exec_queue :: "(nat \<Rightarrow> int) \<Rightarrow> bool \<Rightarrow> nat \<Rightarrow> nat \<Rightarrow> queue_node list \<Rightarrow> queue_node list \<times> exec_step list" where
  "exec_queue clock rep n i Q =
     (if i < length Q then
        let (i1, Q1, steps) = exec_one (clock n) rep i Q; (rest, steps1) = exec_queue clock rep (Suc n) i1 Q1 in (rest, steps @ steps1)
      else (Q, []))"
  by auto
termination by (relation "measure (\<lambda>(clock, rep, n, i, Q). length Q - i)") (auto simp: exec_one_def split: if_splits)

declare exec_queue.simps [simp del]

definition scene_exec_round :: "bool \<Rightarrow> (nat \<Rightarrow> int) \<Rightarrow> (nat \<Rightarrow> int) \<Rightarrow> int \<Rightarrow> scene_list \<Rightarrow>
    (scene_list \<times> sync_msg list \<times> exec_step list) option" where
  "scene_exec_round smem send clock now L = do {
     (r, g, msgs) \<leftarrow> scene_sync_event_req_exec smem send now (syncList L);
     let (rest, steps) = exec_queue clock (pSceneReportHandler L \<noteq> NULL) 0 0 (pstExecQueue L);
     Some (L\<lparr>syncList := g, pstExecQueue := rest\<rparr>, msgs, steps)
   }"

section \<open>Consistency of all scenes\<close>

definition scenes_ok :: "scene_list \<Rightarrow> bool" where
  "scenes_ok L \<longleftrightarrow> distinct (map fst (scenes L)) \<and> (\<forall>s \<in> snd ` set (scenes L). scene_ok s)"

lemma get_scene_ok: "scenes_ok L \<Longrightarrow> get_scene L a = Some s \<Longrightarrow> scene_ok s"
  unfolding scenes_ok_def get_scene_def by (metis image_eqI map_of_SomeD snd_conv)

lemma put_scene_fst: "map fst (scenes (put_scene a s L)) = map fst (scenes L)"
  by (simp add: put_scene_def case_prod_unfold o_def if_distrib [of fst] cong: if_cong)

lemma put_scene_queue [simp]:
  "pstExecQueue (put_scene a s L) = pstExecQueue L" "pHashTable (put_scene a s L) = pHashTable L"
  by (simp_all add: put_scene_def)

lemma put_scene_ok: "scenes_ok L \<Longrightarrow> scene_ok s \<Longrightarrow> scenes_ok (put_scene a s L)"
  unfolding scenes_ok_def put_scene_fst by (auto simp: put_scene_def split: if_splits)

lemma get_put_scene: "get_scene (put_scene a s L) b = (if b = a \<and> get_scene L a \<noteq> None then Some s else get_scene L b)"
proof -
  have "map_of (map (\<lambda>(b, t). if b = a then (b, s) else (b, t)) xs) b =
      (if b = a \<and> map_of xs a \<noteq> None then Some s else map_of xs b)" for xs :: "(ptr \<times> scene_info) list"
    by (induction xs) auto
  then show ?thesis by (simp add: get_scene_def put_scene_def)
qed

lemma apply_effects_simps [simp]:
  "scenes (apply_effects mem now s es L) = scenes L" "pHashTable (apply_effects mem now s es L) = pHashTable L"
  "syncList (apply_effects mem now s es L) = syncList L" "get_scene (apply_effects mem now s es L) a = get_scene L a"
  "pSceneReportHandler (apply_effects mem now s es L) = pSceneReportHandler L"
proof -
  show s: "scenes (apply_effects mem now s es L) = scenes L"
    by (induction mem now s es L rule: apply_effects.induct) (auto simp: scene_list_exec_def)
  then show "get_scene (apply_effects mem now s es L) a = get_scene L a" by (simp add: get_scene_def)
  show "pHashTable (apply_effects mem now s es L) = pHashTable L" "syncList (apply_effects mem now s es L) = syncList L"
    "pSceneReportHandler (apply_effects mem now s es L) = pSceneReportHandler L"
    by (induction mem now s es L rule: apply_effects.induct) (auto simp: scene_list_exec_def)
qed

lemma apply_effects_ok [simp]: "scenes_ok (apply_effects mem now s es L) = scenes_ok L"
  by (simp add: scenes_ok_def)

text \<open>A pointer record that leads to an event condition, and a condition the handler can evaluate.\<close>

definition cond_of :: "scene_list \<Rightarrow> ptr_info \<Rightarrow> event_cond option" where
  "cond_of L p = do { s \<leftarrow> get_scene L (pstScene p); cond_at pstEventCondList p s }"

definition ready :: "(rat \<Rightarrow> rat) \<Rightarrow> event \<Rightarrow> scene_list \<Rightarrow> ptr_info \<Rightarrow> bool" where
  "ready rnd e L p \<longleftrightarrow> (case cond_of L p of None \<Rightarrow> False
     | Some c \<Rightarrow> e_acTriggerType c \<noteq> ''StateSync'' \<and> scene_event_cond_is_true rnd c e \<noteq> None)"

text \<open>The fields of a condition that the evaluation reads do not change.\<close>

definition same_eval :: "event_cond \<Rightarrow> event_cond \<Rightarrow> bool" where
  "same_eval c d \<longleftrightarrow> e_acValue c = e_acValue d \<and> acActive c = acActive d \<and> e_acTriggerType c = e_acTriggerType d"

lemma same_eval_true: "same_eval c d \<Longrightarrow> scene_event_cond_is_true rnd c e = scene_event_cond_is_true rnd d e"
  by (simp add: same_eval_def scene_event_cond_is_true_def active_is_def)

lemma same_eval_refl [simp]: "same_eval c c"
  by (simp add: same_eval_def)

lemma same_eval_trans: "same_eval c d \<Longrightarrow> same_eval d e \<Longrightarrow> same_eval c e"
  by (simp add: same_eval_def)

text \<open>What one step may do to a scene: it stays consistent, and its event conditions stay where they are
  and keep the fields that the evaluation reads.\<close>

definition scene_step :: "scene_info \<Rightarrow> scene_info \<Rightarrow> bool" where
  "scene_step s s' \<longleftrightarrow> scene_ok s' \<and> same_static s s' \<and>
     (\<forall>q d. cond_at pstEventCondList q s = Some d \<longrightarrow> (\<exists>d'. cond_at pstEventCondList q s' = Some d' \<and> same_eval d d'))"

lemma scene_step_trans: "scene_step s t \<Longrightarrow> scene_step t u \<Longrightarrow> scene_step s u"
  unfolding scene_step_def by (meson same_eval_trans same_static_trans)

lemma scene_step_refl: "scene_ok s \<Longrightarrow> scene_step s s"
  unfolding scene_step_def by auto

lemma store_last_value_result:
  assumes "scene_ok s" "cond_at pstEventCondList p s = Some c"
  shows "\<exists>st s1 calls. store_last_value db e p s = Some (st, s1, calls) \<and> scene_step s s1 \<and>
    cond_at pstEventCondList p s1 = Some (c\<lparr>acLastValue := strncpy (ev_acValue e) VALUE_MAX_LEN\<rparr>) \<and>
    cond_truth pstEventCondList p s1 = cond_truth pstEventCondList p s \<and>
    (st = NoErr \<longleftrightarrow> (\<forall>q \<in> set calls. db q = NoErr)) \<and> (st \<noteq> NoErr \<longrightarrow> st = SceneAddErr)"
proof -
  let ?f = "\<lambda>c. c\<lparr>acLastValue := strncpy (ev_acValue e) VALUE_MAX_LEN\<rparr>"
  from event_kind.put_cond_spec [OF assms, of ?f] obtain s1 where
    s1: "put_cond pstEventCondList pstEventCondList_update p ?f s = Some s1" "scene_ok s1" "cond_at pstEventCondList p s1 = Some (?f c)"
      "\<forall>q. cond_truth pstEventCondList q s1 = cond_truth pstEventCondList q s" "same_static s s1"
      "\<forall>q. cond_at pstEventCondList q s1 =
        (if same_cond q p then map_option ?f (cond_at pstEventCondList q s) else cond_at pstEventCondList q s)" by blast
  from s1(3) obtain l where l: "find_list pstEventCondList s1 (pstCondList p) = Some l"
    by (auto simp: cond_at_def split: Option.bind_splits)
  have "scene_step s s1" using s1(2,5,6) by (auto simp: scene_step_def same_eval_def)
  then show ?thesis using s1(1,3,4) l
    by (auto simp: store_last_value_def event_cond_set_db_def db_send_def db_write_def status_defs)
qed

lemma last_value_step:
  assumes "scene_ok s" "cond_at pstEventCondList p s = Some c"
  shows "\<exists>st s1 calls c1. (if changed then store_last_value db e p s else Some (NoErr, s, [])) = Some (st, s1, calls) \<and>
    scene_step s s1 \<and> cond_at pstEventCondList p s1 = Some c1 \<and> same_eval c c1 \<and>
    cond_truth pstEventCondList p s1 = cond_truth pstEventCondList p s \<and>
    (st = NoErr \<longleftrightarrow> (\<forall>q \<in> set calls. db q = NoErr)) \<and> (st \<noteq> NoErr \<longrightarrow> st = SceneAddErr)"
proof (cases changed)
  case True
  have "same_eval c (c\<lparr>acLastValue := v\<rparr>)" for v by (simp add: same_eval_def)
  with True store_last_value_result [OF assms, of db e] show ?thesis by simp blast
next
  case False
  then show ?thesis using assms scene_step_refl [OF assms(1)] by simp
qed

lemma event_update_step:
  assumes "scene_ok s" "cond_at pstEventCondList p s = Some c"
  shows "\<exists>s2 eff. scene_event_cond_true_update b p s = Some (s2, eff) \<and> scene_step s s2"
proof -
  from event_update_result [OF assms, of b] obtain old s1 s2 where
    u: "truth_set pstEventCondList pstTimeCondList p b s s1"
      "if strstr (e_acTriggerType c) ''Every'' \<and> b
       then scene_event_cond_true_init False p s1 = Some s2 \<and> truth_set pstEventCondList pstTimeCondList p False s1 s2
       else s2 = s1"
      "scene_event_cond_true_update b p s = Some (s2, if b \<and> \<not> old \<and> scene_spec s1 then event_trigger p c else [])"
    by blast
  have "scene_step s s1" using u(1) by (auto simp: truth_set_def scene_step_def)
  moreover have "scene_step s1 s2" using u(1,2) by (auto simp: truth_set_def scene_step_def split: if_splits)
  ultimately show ?thesis using u(3) scene_step_trans by blast
qed

lemma ready_step:
  assumes "ready rnd e L q" "get_scene L a = Some s" "scene_step s s'"
    "\<And>b. get_scene L' b = (if b = a then Some s' else get_scene L b)"
  shows "ready rnd e L' q"
proof (cases "pstScene q = a")
  case True
  from assms(1,2) True obtain c where c: "cond_at pstEventCondList q s = Some c" "e_acTriggerType c \<noteq> ''StateSync''"
    "scene_event_cond_is_true rnd c e \<noteq> None" by (auto simp: ready_def cond_of_def split: option.splits)
  from assms(3) c(1) obtain c' where c': "cond_at pstEventCondList q s' = Some c'" "same_eval c c'"
    unfolding scene_step_def by blast
  show ?thesis using True c c' assms(4) same_eval_true [OF c'(2), of rnd e]
    by (auto simp: ready_def cond_of_def same_eval_def)
next
  case False
  then show ?thesis using assms(1,4) by (simp add: ready_def cond_of_def)
qed

text \<open>A queue entry that was made for a scene.\<close>

definition entry_for :: "queue_node \<Rightarrow> scene_info \<Rightarrow> bool" where
  "entry_for q s \<longleftrightarrow> iExecDelayed q = atoi (acExecDelayed s) \<and> q_acSceneId q = acSceneId s \<and> q_pstAction q = pstAction s"

lemma apply_effects_queue:
  "\<exists>es'. pstExecQueue (apply_effects mem now s es L) = pstExecQueue L @ es' \<and> (\<forall>q \<in> set es'. entry_for q s)"
proof (induction mem now s es L rule: apply_effects.induct)
  case (2 mem now s es L)
  then show ?case by (fastforce simp: scene_list_exec_def entry_for_def)
qed auto

lemma entry_for_static: "same_static s s' \<Longrightarrow> entry_for q s' = entry_for q s"
  by (cases s; cases s') (simp add: same_static_def entry_for_def)

definition same_scenes :: "scene_list \<Rightarrow> scene_list \<Rightarrow> bool" where
  "same_scenes L L' \<longleftrightarrow> list_all2 (\<lambda>(a, s) (b, t). a = b \<and> same_static s t) (scenes L) (scenes L')"

lemma same_scenes_refl [simp]: "same_scenes L L"
  by (auto simp: same_scenes_def intro: list_all2_refl)

lemma same_scenes_trans: "same_scenes L L1 \<Longrightarrow> same_scenes L1 L2 \<Longrightarrow> same_scenes L L2"
  unfolding same_scenes_def by (erule (1) list_all2_trans [rotated]) (auto intro: same_static_trans)

lemma same_scenes_fst: "same_scenes L L' \<Longrightarrow> map fst (scenes L') = map fst (scenes L)"
  unfolding same_scenes_def by (induction rule: list_all2_induct) auto

lemma same_scenes_back:
  assumes "same_scenes L L'" "(a, s') \<in> set (scenes L')"
  shows "\<exists>s. (a, s) \<in> set (scenes L) \<and> same_static s s'"
  using assms unfolding same_scenes_def list_all2_conv_all_nth by (fastforce simp: in_set_conv_nth)

lemma same_scenes_put:
  assumes "distinct (map fst (scenes L))" "get_scene L a = Some s0" "same_static s0 s"
  shows "same_scenes L (put_scene a s L)"
proof -
  have "list_all2 (\<lambda>(a, s) (b, t). a = b \<and> same_static s t) xs (map (\<lambda>(b, t). if b = a then (b, s) else (b, t)) xs)"
    if "\<forall>t. (a, t) \<in> set xs \<longrightarrow> t = s0" for xs
    using that assms(3) by (induction xs) (auto split: if_splits)
  moreover have "\<forall>t. (a, t) \<in> set (scenes L) \<longrightarrow> t = s0"
    using assms(1,2) map_of_is_SomeI [OF assms(1)] by (fastforce simp: get_scene_def)
  ultimately show ?thesis by (simp add: same_scenes_def put_scene_def)
qed

text \<open>What event handling and the minute check may do to the state: every scene stays consistent and
  keeps its place and its fixed fields, the index stays as it is, and the queue gets new entries at
  its end, each made for a scene of the list.\<close>

definition grown :: "scene_list \<Rightarrow> scene_list \<Rightarrow> bool" where
  "grown L L' \<longleftrightarrow> scenes_ok L' \<and> same_scenes L L' \<and> pHashTable L' = pHashTable L \<and>
     (\<exists>es. pstExecQueue L' = pstExecQueue L @ es \<and> (\<forall>q \<in> set es. \<exists>s \<in> snd ` set (scenes L). entry_for q s))"

lemma grown_trans:
  assumes "grown L L1" "grown L1 L2"
  shows "grown L L2"
proof -
  have old: "\<exists>s \<in> snd ` set (scenes L). entry_for q s" if q: "\<exists>s \<in> snd ` set (scenes L1). entry_for q s" for q
  proof -
    from q obtain a s' where s': "(a, s') \<in> set (scenes L1)" "entry_for q s'" by auto
    have "same_scenes L L1" using assms(1) by (simp add: grown_def)
    from same_scenes_back [OF this s'(1)] obtain s where "(a, s) \<in> set (scenes L)" "same_static s s'" by blast
    then show ?thesis using s'(2) entry_for_static by force
  qed
  from assms obtain es es1 where "pstExecQueue L1 = pstExecQueue L @ es" "\<forall>q \<in> set es. \<exists>s \<in> snd ` set (scenes L). entry_for q s"
    "pstExecQueue L2 = pstExecQueue L1 @ es1" "\<forall>q \<in> set es1. \<exists>s \<in> snd ` set (scenes L1). entry_for q s"
    unfolding grown_def by blast
  with old have "pstExecQueue L2 = pstExecQueue L @ (es @ es1)"
    "\<forall>q \<in> set (es @ es1). \<exists>s \<in> snd ` set (scenes L). entry_for q s" by simp_all (blast)
  moreover have "scenes_ok L2 \<and> same_scenes L L2 \<and> pHashTable L2 = pHashTable L"
    using assms same_scenes_trans [of L L1 L2] unfolding grown_def by metis
  ultimately show ?thesis unfolding grown_def by blast
qed

lemma grown_put:
  assumes "scenes_ok L" "get_scene L a = Some s0" "same_static s0 s" "scene_ok s"
  shows "grown L (apply_effects mem now s eff (put_scene a s L))"
proof -
  have "s0 \<in> snd ` set (scenes L)" using assms(2) unfolding get_scene_def by (metis image_eqI map_of_SomeD snd_conv)
  moreover have "same_scenes L (apply_effects mem now s eff (put_scene a s L))"
    using same_scenes_put [OF _ assms(2,3)] assms(1) by (simp add: scenes_ok_def same_scenes_def)
  ultimately show ?thesis
    using put_scene_ok [OF assms(1,4), of a] apply_effects_queue [of mem now s eff "put_scene a s L"] entry_for_static [OF assms(3)]
    unfolding grown_def by simp blast
qed

lemma event_cond_one_safe:
  assumes "scenes_ok L" "ready rnd e L p"
  shows "\<exists>st L' calls. event_cond_one rnd db mem smem now e p L = Some (st, L', calls) \<and> grown L L' \<and>
    (\<forall>q. ready rnd e L q \<longrightarrow> ready rnd e L' q) \<and>
    (st = NoErr \<longleftrightarrow> (\<forall>q \<in> set calls. db q = NoErr)) \<and> (st \<noteq> NoErr \<longrightarrow> st = SceneAddErr)"
proof -
  from assms(2) obtain s c b where sc: "get_scene L (pstScene p) = Some s" "cond_at pstEventCondList p s = Some c"
    "e_acTriggerType c \<noteq> ''StateSync''" "scene_event_cond_is_true rnd c e = Some b"
    by (auto simp: ready_def cond_of_def split: option.splits Option.bind_splits)
  note ok = get_scene_ok [OF assms(1) sc(1)]
  show ?thesis
  proof (cases "strncmp (acSceneEnable s) ''0'' STATE_MAX_LEN = 0")
    case True
    then show ?thesis using assms(1) sc(1) by (simp add: event_cond_one_def grown_def)
  next
    case False
    let ?ch = "strncmp (acLastValue c) (ev_acValue e) VALUE_MAX_LEN \<noteq> 0"
    obtain st s1 calls c1 where s1: "(if ?ch then store_last_value db e p s else Some (NoErr, s, [])) = Some (st, s1, calls)"
      "scene_step s s1" "cond_at pstEventCondList p s1 = Some c1" "st = NoErr \<longleftrightarrow> (\<forall>q \<in> set calls. db q = NoErr)"
      "st \<noteq> NoErr \<longrightarrow> st = SceneAddErr"
      using last_value_step [OF ok sc(2), of ?ch db e] by blast
    have ok1: "scene_ok s1" using s1(2) by (simp add: scene_step_def)
    have e: "event_cond_one rnd db mem smem now e p L = local_cond rnd db mem now e p s c L"
      using sc(1-3) False by (simp add: event_cond_one_def)
    have gs: "get_scene (put_scene (pstScene p) s1 L) a = (if a = pstScene p then Some s1 else get_scene L a)" for a
      using sc(1) by (simp add: get_put_scene)
    show ?thesis
    proof (cases "st = NoErr")
      case err: False
      have "grown L (put_scene (pstScene p) s1 L)"
        using grown_put [OF assms(1) sc(1) _ ok1, of mem now "[]"] s1(2) by (simp add: scene_step_def)
      moreover have "event_cond_one rnd db mem smem now e p L = Some (st, put_scene (pstScene p) s1 L, calls)"
        using e err sc(4) s1(1) by (simp add: local_cond_def Let_def)
      ultimately show ?thesis using s1(4,5) ready_step [OF _ sc(1) s1(2) gs] by blast
    next
      case noerr: True
      from event_update_step [OF ok1 s1(3), of b] obtain s2 eff where
        u: "scene_event_cond_true_update b p s1 = Some (s2, eff)" "scene_step s1 s2" by blast
      define L2 where "L2 = apply_effects mem now s2 eff (put_scene (pstScene p) s2 (put_scene (pstScene p) s1 L))"
      have g2: "get_scene L2 a = (if a = pstScene p then Some s2 else get_scene L a)" for a
        using sc(1) by (simp add: L2_def get_put_scene)
      have "grown L (put_scene (pstScene p) s1 L)"
        using grown_put [OF assms(1) sc(1) _ ok1, of mem now "[]"] s1(2) by (simp add: scene_step_def)
      moreover have "grown (put_scene (pstScene p) s1 L) L2" unfolding L2_def
        using grown_put [OF put_scene_ok [OF assms(1) ok1], of "pstScene p" "pstScene p" s1 s2] u(2) gs by (simp add: scene_step_def)
      ultimately have gr: "grown L L2" by (rule grown_trans)
      have "event_cond_one rnd db mem smem now e p L = Some (NoErr, L2, calls)"
        using e noerr sc(4) s1(1) u(1) by (simp add: local_cond_def Let_def L2_def)
      then show ?thesis using gr s1(4) noerr ready_step [OF _ sc(1) scene_step_trans [OF s1(2) u(2)] g2] by blast
    qed
  qed
qed

lemma event_conds_safe:
  assumes "scenes_ok L" "\<forall>p \<in> set ps. ready rnd e L p"
  shows "\<exists>st L' calls. event_conds rnd db mem smem now e ps L = Some (st, L', calls) \<and> grown L L' \<and>
    (st = NoErr \<longleftrightarrow> (\<forall>q \<in> set calls. db q = NoErr)) \<and> (st \<noteq> NoErr \<longrightarrow> st = SceneAddErr)"
  using assms
proof (induction ps arbitrary: L)
  case Nil
  then show ?case by (simp add: grown_def)
next
  case (Cons p ps)
  from event_cond_one_safe [OF Cons.prems(1), of rnd e p db mem smem now] Cons.prems(2) obtain st L1 calls where
    o: "event_cond_one rnd db mem smem now e p L = Some (st, L1, calls)" "grown L L1"
      "\<forall>q. ready rnd e L q \<longrightarrow> ready rnd e L1 q" "st = NoErr \<longleftrightarrow> (\<forall>q \<in> set calls. db q = NoErr)"
      "st \<noteq> NoErr \<longrightarrow> st = SceneAddErr" by auto
  show ?case
  proof (cases "st = NoErr")
    case False
    then show ?thesis using o by simp
  next
    case True
    have "scenes_ok L1" "\<forall>q \<in> set ps. ready rnd e L1 q" using o(2,3) Cons.prems(2) by (simp_all add: grown_def)
    from Cons.IH [OF this] obtain st' L' calls' where
      r: "event_conds rnd db mem smem now e ps L1 = Some (st', L', calls')" "grown L1 L'"
        "st' = NoErr \<longleftrightarrow> (\<forall>q \<in> set calls'. db q = NoErr)" "st' \<noteq> NoErr \<longrightarrow> st' = SceneAddErr" by blast
    have "event_conds rnd db mem smem now e (p # ps) L = Some (st', L', calls @ calls')" using o(1) True r(1) by simp
    then show ?thesis using r(3,4) o(4) True grown_trans [OF o(2) r(2)] by auto
  qed
qed

text \<open>Whatever the conditions are, a handler that returns has kept the scenes consistent.\<close>

lemma store_keeps:
  assumes "scene_ok s" "cond_at pstEventCondList p s = Some c" "store_last_value db e p s = Some (st, s1, calls)"
  shows "scene_ok s1" "\<exists>c1. cond_at pstEventCondList p s1 = Some c1" "same_static s s1"
  using store_last_value_result [OF assms(1,2), of db e] assms(3) by (auto simp: scene_step_def)

lemma update_keeps:
  assumes "scene_ok s" "cond_at pstEventCondList p s = Some c" "scene_event_cond_true_update b p s = Some (s2, eff)"
  shows "scene_ok s2" "same_static s s2"
  using event_update_step [OF assms(1,2), of b] assms(3) by (auto simp: scene_step_def)

lemma grown_refl: "scenes_ok L \<Longrightarrow> grown L L"
  by (simp add: grown_def)

lemma grown_put_only: "scenes_ok L \<Longrightarrow> get_scene L a = Some s0 \<Longrightarrow> same_static s0 s \<Longrightarrow> scene_ok s \<Longrightarrow> grown L (put_scene a s L)"
  using grown_put [of L a s0 s mem now "[]"] by simp

lemma grown_sync: "grown L L' \<Longrightarrow> grown L (L'\<lparr>syncList := g\<rparr>)"
  by (simp add: grown_def scenes_ok_def same_scenes_def)

lemma sync_cond_keeps:
  assumes "scenes_ok L" "get_scene L (pstScene p) = Some s" "cond_at pstEventCondList p s = Some c"
    "sync_cond db smem now e p s c L = Some (st, L', calls)"
  shows "grown L L'"
proof (cases "strncmp (acLastValue c) (ev_acValue e) VALUE_MAX_LEN \<noteq> 0")
  case False
  then show ?thesis using assms(1,4) grown_refl by (simp add: sync_cond_def)
next
  case True
  note ok = get_scene_ok [OF assms(1,2)]
  from True assms(4) obtain s1 g1 where s1: "store_last_value db e p s = Some (st, s1, calls)"
    "L' = (put_scene (pstScene p) s1 L)\<lparr>syncList := g1\<rparr>"
    by (cases L) (auto simp: sync_cond_def put_scene_def split: Option.bind_splits)
  show ?thesis unfolding s1(2)
    by (rule grown_sync [OF grown_put_only [OF assms(1,2) store_keeps(3,1) [OF ok assms(3) s1(1)]]])
qed

lemma local_cond_keeps:
  assumes "scenes_ok L" "get_scene L (pstScene p) = Some s" "cond_at pstEventCondList p s = Some c"
    "local_cond rnd db mem now e p s c L = Some (st, L', calls)"
  shows "grown L L'"
proof -
  note ok = get_scene_ok [OF assms(1,2)]
  let ?ch = "strncmp (acLastValue c) (ev_acValue e) VALUE_MAX_LEN \<noteq> 0"
  from assms(4) obtain b st1 s1 calls1 where
    r: "scene_event_cond_is_true rnd c e = Some b"
      "(if ?ch then store_last_value db e p s else Some (NoErr, s, [])) = Some (st1, s1, calls1)"
    unfolding local_cond_def by (auto split: Option.bind_splits)
  have s1: "scene_ok s1" "\<exists>c1. cond_at pstEventCondList p s1 = Some c1" "same_static s s1"
    using r(2) store_keeps [OF ok assms(3)] ok assms(3) by (auto split: if_splits)
  note g = grown_put_only [OF assms(1,2) s1(3,1)]
  show ?thesis
  proof (cases "st1 = NoErr")
    case False
    then show ?thesis using assms(4) r g unfolding local_cond_def by (simp add: Let_def)
  next
    case True
    with assms(4) r obtain s2 eff where u: "scene_event_cond_true_update b p s1 = Some (s2, eff)"
      "L' = apply_effects mem now s2 eff (put_scene (pstScene p) s2 (put_scene (pstScene p) s1 L))"
      unfolding local_cond_def by (auto simp: Let_def split: Option.bind_splits)
    from s1 u(1) have s2: "scene_ok s2" "same_static s1 s2" using update_keeps by blast+
    have "get_scene (put_scene (pstScene p) s1 L) (pstScene p) = Some s1" using assms(2) by (simp add: get_put_scene)
    from grown_put [OF put_scene_ok [OF assms(1) s1(1)] this s2(2,1)] u(2) show ?thesis
      using grown_trans [OF g] by simp
  qed
qed

lemma event_cond_one_keeps:
  assumes "scenes_ok L" "event_cond_one rnd db mem smem now e p L = Some (st, L', calls)"
  shows "grown L L'"
proof -
  from assms(2) obtain s where s: "get_scene L (pstScene p) = Some s" by (auto simp: event_cond_one_def split: Option.bind_splits)
  show ?thesis
  proof (cases "strncmp (acSceneEnable s) ''0'' STATE_MAX_LEN = 0")
    case True
    then show ?thesis using assms s grown_refl by (simp add: event_cond_one_def)
  next
    case False
    with assms(2) s obtain c where c: "cond_at pstEventCondList p s = Some c" by (auto simp: event_cond_one_def split: Option.bind_splits)
    show ?thesis using assms s c False sync_cond_keeps [OF assms(1) s c] local_cond_keeps [OF assms(1) s c]
      by (auto simp: event_cond_one_def split: if_splits)
  qed
qed

lemma event_conds_keeps:
  assumes "scenes_ok L" "event_conds rnd db mem smem now e ps L = Some (st, L', calls)"
  shows "grown L L'"
  using assms
proof (induction ps arbitrary: L st L' calls)
  case Nil
  then show ?case by (auto intro: grown_refl)
next
  case (Cons p ps)
  from Cons.prems(2) obtain st1 L1 calls1 where o: "event_cond_one rnd db mem smem now e p L = Some (st1, L1, calls1)"
    by (auto split: Option.bind_splits)
  note g = event_cond_one_keeps [OF Cons.prems(1) o]
  show ?case
  proof (cases "st1 = NoErr")
    case False
    then show ?thesis using Cons.prems(2) o g by simp
  next
    case True
    with Cons.prems(2) o obtain calls2 where c: "event_conds rnd db mem smem now e ps L1 = Some (st, L', calls2)"
      by (auto split: Option.bind_splits)
    have "scenes_ok L1" using g by (simp add: grown_def)
    from grown_trans [OF g Cons.IH [OF this c]] show ?thesis .
  qed
qed

lemma exec_keeps: "scenes_ok L \<Longrightarrow> get_scene L a = Some s \<Longrightarrow> grown L (snd (scene_list_exec mem now s L))"
  unfolding grown_def scenes_ok_def same_scenes_def get_scene_def
  by (auto simp: scene_list_exec_def entry_for_def intro: list_all2_refl dest!: map_of_SomeD intro!: bexI image_eqI)

lemma active_keeps: "scenes_ok L \<Longrightarrow> get_scene L a = Some s \<Longrightarrow> grown L (snd (scene_list_active mem now s L))"
  by (simp add: scene_list_active_def exec_keeps grown_refl)

lemma event_panels_keeps:
  "scenes_ok L \<Longrightarrow> event_panels mem now ps L = Some (st, L', calls) \<Longrightarrow> grown L L'"
proof (induction ps arbitrary: L)
  case (Cons p ps)
  from Cons.prems(2) obtain s and panel :: scene_panel where gs: "get_scene L (pstScene p) = Some s" and
    s: "event_panels mem now ps (if strncmp (sp_acEnable panel) ''1'' STATE_MAX_LEN = 0 then snd (scene_list_active mem now s L) else L) =
      Some (st, L', calls)" by (auto split: Option.bind_splits)
  let ?L = "if strncmp (sp_acEnable panel) ''1'' STATE_MAX_LEN = 0 then snd (scene_list_active mem now s L) else L"
  have g: "grown L ?L" using active_keeps [OF Cons.prems(1) gs] grown_refl [OF Cons.prems(1)] by simp
  then have "scenes_ok ?L" by (simp add: grown_def)
  from grown_trans [OF g Cons.IH [OF this s]] show ?case .
qed (auto intro: grown_refl)

lemma scene_list_event_keeps:
  "scenes_ok L \<Longrightarrow> scene_list_event rnd db mem smem now e L = Some (st, L', calls) \<Longrightarrow> grown L L'"
  using event_conds_keeps event_panels_keeps grown_refl
  by (auto simp: scene_list_event_def Let_def split: if_splits Option.bind_splits)

section \<open>The check of the time conditions\<close>

definition time_step :: "scene_info \<Rightarrow> scene_info \<Rightarrow> bool" where
  "time_step s s' \<longleftrightarrow> scene_ok s' \<and> same_static s s' \<and>
     (\<forall>q. cond_at pstTimeCondList q s' = None \<longleftrightarrow> cond_at pstTimeCondList q s = None)"

lemma time_step_trans: "time_step s t \<Longrightarrow> time_step t u \<Longrightarrow> time_step s u"
  unfolding time_step_def by (meson same_static_trans)

lemma time_cond_step:
  assumes "scene_ok s" "cond_at pstTimeCondList p s = Some c"
  shows "\<exists>s1 s2 eff. put_cond pstTimeCondList pstTimeCondList_update p (\<lambda>_. c') s = Some s1 \<and>
    scene_time_cond_true_update b p s1 = Some (s2, eff) \<and> time_step s s2"
proof -
  from time_kind.put_cond_spec [OF assms, of "\<lambda>_. c'"] obtain s1 where
    a: "put_cond pstTimeCondList pstTimeCondList_update p (\<lambda>_. c') s = Some s1" "scene_ok s1"
      "cond_at pstTimeCondList p s1 = Some c'" "same_static s s1"
      "\<forall>q. cond_at pstTimeCondList q s1 = (if same_cond q p then map_option (\<lambda>_. c') (cond_at pstTimeCondList q s)
         else cond_at pstTimeCondList q s)" by blast
  have s1: "time_step s s1" using a(2,4,5) by (simp add: time_step_def)
  from time_update_result [OF a(2,3), of b] obtain s2 eff where
    "scene_time_cond_true_update b p s1 = Some (s2, eff)" "time_step s1 s2"
    unfolding time_step_def Let_def by blast
  with a(1) time_step_trans [OF s1] show ?thesis by blast
qed

lemma time_conds_safe:
  assumes "scenes_ok L" "get_scene L a = Some s" "\<forall>p \<in> set ps. pstScene p = a \<and> cond_at pstTimeCondList p s \<noteq> None"
  shows "\<exists>L' s'. time_conds mem tm now ps L = Some L' \<and> grown L L' \<and> get_scene L' a = Some s' \<and> time_step s s'"
  using assms
proof (induction ps arbitrary: L s)
  case Nil
  then show ?case using get_scene_ok [OF Nil.prems(1,2)] by (simp add: grown_def time_step_def)
next
  case (Cons p ps)
  have p: "pstScene p = a" using Cons.prems(3) by simp
  obtain c where c: "cond_at pstTimeCondList p s = Some c" using Cons.prems(3) by auto
  obtain b c' where e: "scene_time_cond_is_true tm c = (b, c')" by fastforce
  from time_cond_step [OF get_scene_ok [OF Cons.prems(1,2)] c, of c' b] obtain s1 s2 eff where
    s2: "put_cond pstTimeCondList pstTimeCondList_update p (\<lambda>_. c') s = Some s1"
      "scene_time_cond_true_update b p s1 = Some (s2, eff)" "time_step s s2" by blast
  define L2 where "L2 = apply_effects mem now s2 eff (put_scene a s2 L)"
  have g: "grown L L2" using grown_put [OF Cons.prems(1,2)] s2(3) by (simp add: L2_def time_step_def)
  have s: "get_scene L2 a = Some s2" using Cons.prems(2) by (simp add: L2_def get_put_scene)
  have "\<forall>q \<in> set ps. pstScene q = a \<and> cond_at pstTimeCondList q s2 \<noteq> None"
    using Cons.prems(3) s2(3) by (simp add: time_step_def)
  from Cons.IH [OF _ s this] g obtain L' s' where
    r: "time_conds mem tm now ps L2 = Some L'" "grown L2 L'" "get_scene L' a = Some s'" "time_step s2 s'"
    by (auto simp: grown_def)
  have "time_conds mem tm now (p # ps) L = Some L'"
    using p Cons.prems(2) c e s2 r(1) by (simp add: L2_def time_cond_one_def)
  then show ?case using r(3) grown_trans [OF g r(2)] time_step_trans [OF s2(3) r(4)] by blast
qed

lemma cond_ptrs_valid:
  assumes "scene_ok s" "l = pstTimeCondList (stOrCond s) \<or> l = pstTimeCondList (stAndCond s)" "p \<in> set (cond_ptrs a s' l)"
  shows "pstScene p = a \<and> cond_at pstTimeCondList p s \<noteq> None"
proof -
  from assms(3) obtain t n where p: "t \<in> set (sets l)" "n \<in> set (pstCond t)" "pstScene p = a" "pstCondList p = cl_addr l"
    "pCondSetNode p = sn_addr t" "pCondNode p = cn_addr n"
    by (auto simp: cond_ptrs_def)
  have wf: "cl_wf l" using assms(1,2) by (auto simp: scene_ok_def logic_ok_def list_ok_def)
  have f: "find_list pstTimeCondList s (cl_addr l) = Some l"
    using assms(1,2) by (auto simp: find_list_def scene_ok_def)
  obtain x where x: "x < length (sets l)" "sets l ! x = t" using p(1) by (auto simp: in_set_conv_nth)
  obtain y where y: "y < length (pstCond t)" "pstCond t ! y = n" using p(2) by (auto simp: in_set_conv_nth)
  have "get_set l (sn_addr t) = Some t"
    using find_unique [of sn_addr "sets l" x] wf x by (simp add: get_set_def cl_wf_def)
  moreover have "get_cond t (cn_addr n) = Some n"
    using find_unique [of cn_addr "pstCond t" y] wf y p(1) by (simp add: get_cond_def cl_wf_def set_wf_def)
  ultimately show ?thesis using f p(3-6) by (simp add: cond_at_def)
qed

lemma time_scenes_safe:
  assumes "scenes_ok L" "set as \<subseteq> fst ` set (scenes L)"
  shows "\<exists>L'. time_scenes mem tm now as L = Some L' \<and> grown L L'"
  using assms
proof (induction as arbitrary: L)
  case Nil
  then show ?case by (simp add: grown_def)
next
  case (Cons a as)
  from Cons.prems(2) obtain s where s: "get_scene L a = Some s"
    by (metis get_scene_def insert_subset list.simps(15) map_of_eq_None_iff not_None_eq)
  let ?os = "cond_ptrs a s (pstTimeCondList (stOrCond s))"
  have "\<forall>p \<in> set ?os. pstScene p = a \<and> cond_at pstTimeCondList p s \<noteq> None"
    using cond_ptrs_valid [OF get_scene_ok [OF Cons.prems(1) s]] by blast
  from time_conds_safe [OF Cons.prems(1) s this, of mem tm now] obtain L1 s1 where
    l1: "time_conds mem tm now ?os L = Some L1" "grown L L1" "get_scene L1 a = Some s1" by blast
  have ok1: "scenes_ok L1" using l1(2) by (simp add: grown_def)
  let ?as = "cond_ptrs a s1 (pstTimeCondList (stAndCond s1))"
  have "\<forall>p \<in> set ?as. pstScene p = a \<and> cond_at pstTimeCondList p s1 \<noteq> None"
    using cond_ptrs_valid [OF get_scene_ok [OF ok1 l1(3)]] by blast
  from time_conds_safe [OF ok1 l1(3) this, of mem tm now] obtain L2 where
    l2: "time_conds mem tm now ?as L1 = Some L2" "grown L1 L2" by blast
  have g: "grown L L2" by (rule grown_trans [OF l1(2) l2(2)])
  have "set as \<subseteq> fst ` set (scenes L2)"
    using g Cons.prems(2) same_scenes_fst by (metis grown_def insert_subset list.set_map list.simps(15))
  from Cons.IH [OF _ this] g obtain L' where "time_scenes mem tm now as L2 = Some L'" "grown L2 L'" by (auto simp: grown_def)
  with s l1(1,3) l2(1) grown_trans [OF g] show ?case by auto
qed

section \<open>Properties\<close>

definition key_example :: string where "key_example = ''d1kcond''"

definition table_example :: ptr_hash_table where
  "table_example = \<lparr>stHash = \<lparr>uiHashTableSize = 1, ucDilatationEnable = 1, pFreeValueHandle = True, uiUsedCount = 1,
     uiConflict = 0, pstHashTable = [[\<lparr>acKey = key_example, pValue = 5\<rparr>]]\<rparr>, chain_of = [5 \<mapsto> [event_ptr]]\<rparr>"

definition scenes_example :: "scene_info \<Rightarrow> scene_list" where
  "scenes_example s = \<lparr>scenes = [(1, s)], pHashTable = table_example, pstExecQueue = [], pSceneReportHandler = NULL,
     syncList = None, timerReqs = [], sl_ucInitFlag = 0, actionLists = Map.empty\<rparr>"

definition report_example :: "string \<Rightarrow> event" where
  "report_example v = \<lparr>ev_acDevId = ''d1'', ev_acKey = ''k'', ev_acValue = v\<rparr>"

lemma table_example_find: "ptr_hash_find_all table_example (Some key_example) = 5" "chain_of table_example 5 = Some [event_ptr]"
  by (simp_all add: ptr_hash_find_all_def table_example_def hash_find_def hash_def key_example_def)

lemma report_key: "snprintf KEY_MAX_LEN (ev_acDevId (report_example v) @ ev_acKey (report_example v) @ ''cond'') = key_example"
  by (simp add: report_example_def key_example_def snprintf_def len_defs)

lemma scenes_example_ok: "scene_ok s \<Longrightarrow> scenes_ok (scenes_example s)"
  by (simp add: scenes_ok_def scenes_example_def)

lemma event_scene_get: "get_scene (scenes_example s) (pstScene event_ptr) = Some s"
  by (simp add: get_scene_def scenes_example_def event_ptr_def)

lemma event_example_eval: "scene_event_cond_is_true id event_example (report_example ''1'') = Some True"
  by (simp add: scene_event_cond_is_true_def active_is_def strncmp_eq_0_lit len_defs event_example_def report_example_def is_digit_def)

text \<open>C12. An event of a device that scenes depend on: when all scenes are consistent and the index leads
  to conditions that can be evaluated, the handler has a defined result, all scenes stay consistent,
  the index stays as it is and the queue only grows. The status is \<open>NoErr\<close> unless the data base
  refuses to store a value.\<close>

theorem scene_list_event_safe:
  assumes "scenes_ok L" "ptr_hash_find_all (pHashTable L) (Some (snprintf KEY_MAX_LEN (ev_acDevId e @ ev_acKey e @ ''cond''))) = h"
    "h \<noteq> NULL" "chain_of (pHashTable L) h = Some ps" "\<forall>p \<in> set ps. ready rnd e L p"
  shows "\<exists>st L' calls. scene_list_event rnd db mem smem now e L = Some (st, L', calls) \<and> grown L L' \<and>
    (st = NoErr \<longleftrightarrow> (\<forall>q \<in> set calls. db q = NoErr)) \<and> (st \<noteq> NoErr \<longrightarrow> st = SceneAddErr)"
  using event_conds_safe [OF assms(1,5), of db mem smem now] assms(2-4) by (simp add: scene_list_event_def Let_def)

theorem scene_list_event_safe_witness:
  "\<exists>L' calls. scene_list_event id (\<lambda>q. NoErr) (\<lambda>n. True) (True, True) 100 (report_example ''1'') (scenes_example scene_example) =
     Some (NoErr, L', calls) \<and> scenes_ok L'"
proof -
  let ?L = "scenes_example scene_example" and ?e = "report_example ''1''"
  have h: "ptr_hash_find_all (pHashTable ?L) (Some (snprintf KEY_MAX_LEN (ev_acDevId ?e @ ev_acKey ?e @ ''cond''))) = 5"
    "chain_of (pHashTable ?L) 5 = Some [event_ptr]"
    using table_example_find report_key by (simp_all add: scenes_example_def)
  have "\<forall>p \<in> set [event_ptr]. ready id ?e ?L p"
    using event_scene_get event_ptr_cond event_example_eval by (simp add: ready_def cond_of_def) (simp add: event_example_def)
  from scene_list_event_safe [OF scenes_example_ok [OF scene_example_ok] h(1) _ h(2) this, of "\<lambda>q. NoErr" "\<lambda>n. True" "(True, True)" 100]
  show ?thesis by (auto simp: grown_def)
qed

text \<open>The minute check of all time conditions always has a defined result: every scene stays
  consistent, the index stays as it is and the queue only grows.\<close>

theorem scene_list_time_true_all_safe:
  assumes "scenes_ok L"
  shows "\<exists>L'. scene_list_time_true_all mem tm now L = Some (NoErr, L') \<and> grown L L'"
proof (cases "scenes L = []")
  case True
  then show ?thesis using assms by (simp add: scene_list_time_true_all_def grown_def)
next
  case False
  then show ?thesis using time_scenes_safe [OF assms, of "map fst (scenes L)" mem tm now]
    by (auto simp: scene_list_time_true_all_def)
qed

theorem scene_list_time_true_all_safe_witness:
  "\<exists>L'. scene_list_time_true_all (\<lambda>n. True) \<lparr>tm_wday = 1, tm_hour = 8, tm_min = 15\<rparr> 100 (scenes_example time_scene_example) =
     Some (NoErr, L') \<and> scenes_ok L'"
  using scene_list_time_true_all_safe [OF scenes_example_ok [OF time_scene_example_ok],
      of "\<lambda>n. True" "\<lparr>tm_wday = 1, tm_hour = 8, tm_min = 15\<rparr>" 100]
  by (auto simp: grown_def)

text \<open>The queue entry of a scene.\<close>

definition entry_of :: "int \<Rightarrow> scene_info \<Rightarrow> queue_node" where
  "entry_of now s = \<lparr>iExecDelayed = atoi (acExecDelayed s), iTime = now, q_acSceneId = acSceneId s, q_pstAction = pstAction s\<rparr>"

lemma entry_of_static: "same_static s s' \<Longrightarrow> entry_of now s' = entry_of now s"
  by (cases s; cases s') (simp add: same_static_def entry_of_def)

lemma exec_entry: "mem (length (pstExecQueue L)) \<Longrightarrow> scene_list_exec mem now s L = (NoErr, L\<lparr>pstExecQueue := pstExecQueue L @ [entry_of now s]\<rparr>)"
  by (simp add: scene_list_exec_def entry_of_def)

lemma event_triggers:
  assumes "scenes_ok L" "ptr_hash_find_all (pHashTable L) (Some (snprintf KEY_MAX_LEN (ev_acDevId e @ ev_acKey e @ ''cond''))) = h"
    "h \<noteq> NULL" "chain_of (pHashTable L) h = Some [p]" "get_scene L (pstScene p) = Some s"
    "cond_at pstEventCondList p s = Some c" "e_acTriggerType c = ''InstantOnce''" "acSceneEnable s \<noteq> ''0''"
    "scene_event_cond_is_true rnd c e = Some b" "cond_truth pstEventCondList p s = Some old"
  shows "\<exists>L' s' calls. scene_list_event rnd (\<lambda>q. NoErr) (\<lambda>n. True) smem now e L = Some (NoErr, L', calls) \<and>
    get_scene L' (pstScene p) = Some s' \<and> scene_ok s' \<and> cond_truth pstEventCondList p s' = Some b \<and>
    pstExecQueue L' = pstExecQueue L @ (if b \<and> \<not> old \<and> scene_spec s' then [entry_of now s] else [])"
proof -
  note ok = get_scene_ok [OF assms(1,5)]
  let ?ch = "strncmp (acLastValue c) (ev_acValue e) VALUE_MAX_LEN \<noteq> 0"
  have en: "strncmp (acSceneEnable s) ''0'' STATE_MAX_LEN \<noteq> 0" using assms(8) by (simp add: strncmp_eq_0_lit len_defs)
  from last_value_step [OF ok assms(6), of ?ch "\<lambda>q. NoErr" e] obtain s1 calls c1 where
    s1: "(if ?ch then store_last_value (\<lambda>q. NoErr) e p s else Some (NoErr, s, [])) = Some (NoErr, s1, calls)"
      "scene_step s s1" "cond_at pstEventCondList p s1 = Some c1" "same_eval c c1"
      "cond_truth pstEventCondList p s1 = Some old" using assms(10) by auto
  have ok1: "scene_ok s1" using s1(2) by (simp add: scene_step_def)
  have tr: "e_acTriggerType c1 = ''InstantOnce''" using s1(4) assms(7) by (simp add: same_eval_def)
  have nt: "\<not> strstr ''InstantOnce'' ''Every''" "event_trigger p c1 = [Exec_Scene]"
    using tr by (simp_all add: event_trigger_def strstr_def upt_rec)
  from event_update_result [OF ok1 s1(3), of b] s1(5) tr nt obtain s2 where
    u: "truth_set pstEventCondList pstTimeCondList p b s1 s2"
      "scene_event_cond_true_update b p s1 = Some (s2, if b \<and> \<not> old \<and> scene_spec s2 then [Exec_Scene] else [])" by auto
  define L2 where "L2 = apply_effects (\<lambda>n. True) now s2 (if b \<and> \<not> old \<and> scene_spec s2 then [Exec_Scene] else [])
    (put_scene (pstScene p) s2 (put_scene (pstScene p) s1 L))"
  have "event_conds rnd (\<lambda>q. NoErr) (\<lambda>n. True) smem now e [p] L = Some (NoErr, L2, calls)"
    using assms(5-7,9) en s1(1) u(2) by (simp add: event_cond_one_def local_cond_def L2_def Let_def)
  then have "scene_list_event rnd (\<lambda>q. NoErr) (\<lambda>n. True) smem now e L = Some (NoErr, L2, calls)"
    using assms(2-4) by (simp add: scene_list_event_def Let_def)
  moreover have "get_scene L2 (pstScene p) = Some s2" using assms(5) by (simp add: L2_def get_put_scene)
  moreover have "entry_of now s2 = entry_of now s"
    using entry_of_static same_static_trans s1(2) u(1) unfolding scene_step_def truth_set_def by metis
  then have "pstExecQueue L2 = pstExecQueue L @ (if b \<and> \<not> old \<and> scene_spec s2 then [entry_of now s] else [])"
    by (simp add: L2_def exec_entry put_scene_def)
  moreover have "scene_ok s2" "cond_truth pstEventCondList p s2 = Some b" using u(1) by (auto simp: truth_set_def same_cond_def)
  ultimately show ?thesis by blast
qed

text \<open>C1. From the report of a device to the execution queue: for the condition of an enabled scene that
  triggers at once (type \<open>InstantOnce\<close>), the truth of the condition becomes the result of comparing the
  reported value, and the scene joins the end of the queue exactly when the condition was false, is
  now true, and the conditions of the scene hold together; nothing else joins the queue.\<close>

theorem scene_list_event_triggers:
  assumes "scenes_ok L" "ptr_hash_find_all (pHashTable L) (Some (snprintf KEY_MAX_LEN (ev_acDevId e @ ev_acKey e @ ''cond''))) = h"
    "h \<noteq> NULL" "chain_of (pHashTable L) h = Some [p]" "get_scene L (pstScene p) = Some s"
    "cond_at pstEventCondList p s = Some c" "e_acTriggerType c = ''InstantOnce''" "acSceneEnable s \<noteq> ''0''"
    "scene_event_cond_is_true rnd c e = Some b" "cond_truth pstEventCondList p s = Some old"
  shows "\<exists>L' s' calls. scene_list_event rnd (\<lambda>q. NoErr) (\<lambda>n. True) smem now e L = Some (NoErr, L', calls) \<and>
    get_scene L' (pstScene p) = Some s' \<and> scene_ok s' \<and> cond_truth pstEventCondList p s' = Some b \<and>
    pstExecQueue L' = pstExecQueue L @ (if b \<and> \<not> old \<and> scene_spec s' then [entry_of now s] else [])"
  by (rule event_triggers [OF assms])

theorem scene_list_event_triggers_witness:
  "\<exists>L' s' calls. scene_list_event id (\<lambda>q. NoErr) (\<lambda>n. True) (True, True) 100 (report_example ''1'') (scenes_example scene_example) =
     Some (NoErr, L', calls) \<and> get_scene L' 1 = Some s' \<and> cond_truth pstEventCondList event_ptr s' = Some True \<and>
     pstExecQueue L' = (if scene_spec s' then [entry_of 100 scene_example] else [])"
proof -
  let ?L = "scenes_example scene_example" and ?e = "report_example ''1''"
  have h: "ptr_hash_find_all (pHashTable ?L) (Some (snprintf KEY_MAX_LEN (ev_acDevId ?e @ ev_acKey ?e @ ''cond''))) = 5"
    "chain_of (pHashTable ?L) 5 = Some [event_ptr]"
    using table_example_find report_key by (simp_all add: scenes_example_def)
  have c: "e_acTriggerType event_example = ''InstantOnce''" "acSceneEnable scene_example \<noteq> ''0''"
    "cond_truth pstEventCondList event_ptr scene_example = Some False"
    by (simp_all add: event_example_def scene_example_def cond_truth_def find_list_def get_set_def get_cond_def event_ptr_def
        empty_list_def event_list_example_def bit_get_def)
  from scene_list_event_triggers [OF scenes_example_ok [OF scene_example_ok] h(1) _ h(2) event_scene_get event_ptr_cond c(1,2)
      event_example_eval c(3), of "(True, True)" 100]
  show ?thesis by (auto simp: scenes_example_def event_ptr_def)
qed

text \<open>A pass by recursion over the entries.\<close>

fun exec_pass :: "(nat \<Rightarrow> int) \<Rightarrow> bool \<Rightarrow> nat \<Rightarrow> queue_node list \<Rightarrow> queue_node list \<times> exec_step list" where
  "exec_pass clock rep n [] = ([], [])"
| "exec_pass clock rep n (q # qs) =
     (if due (clock n) q then (fst (exec_pass clock rep (Suc n) qs), run_steps_of rep q @ snd (exec_pass clock rep (Suc n) qs))
      else (q # fst (exec_pass clock rep (Suc n) qs), snd (exec_pass clock rep (Suc n) qs)))"

lemma exec_queue_from:
  "exec_queue clock rep n (length pre) (pre @ qs) = (pre @ fst (exec_pass clock rep n qs), snd (exec_pass clock rep n qs))"
proof (induction qs arbitrary: n pre)
  case Nil
  show ?case by (simp add: exec_queue.simps)
next
  case (Cons q qs)
  show ?case using Cons.IH [of "Suc n" pre] Cons.IH [of "Suc n" "pre @ [q]"]
    by (subst exec_queue.simps) (simp add: exec_one_def)
qed

lemma exec_queue_pass: "exec_queue clock rep n 0 Q = exec_pass clock rep n Q"
  using exec_queue_from [of clock rep n "[]" Q] by simp

definition sync_wf :: "sync_list \<Rightarrow> bool" where
  "sync_wf g \<longleftrightarrow> (\<forall>nds. g = Some nds \<longrightarrow> (\<forall>nd \<in> set nds. node_wf nd))"

lemma exec_round_pass:
  assumes "sync_wf (syncList L)"
  shows "\<exists>g msgs. scene_exec_round smem send clock now L =
      Some (L\<lparr>syncList := g, pstExecQueue := fst (exec_pass clock (pSceneReportHandler L \<noteq> NULL) 0 (pstExecQueue L))\<rparr>, msgs,
        snd (exec_pass clock (pSceneReportHandler L \<noteq> NULL) 0 (pstExecQueue L))) \<and> sync_wf g"
proof -
  obtain r g msgs where "scene_sync_event_req_exec smem send now (syncList L) = Some (r, g, msgs)" "sync_wf g"
  proof (cases "syncList L")
    case None
    then show ?thesis using that by (cases smem) (auto simp: scene_sync_event_req_exec_def sync_wf_def)
  next
    case (Some nds)
    then have "\<forall>nd \<in> set nds. node_wf nd" using assms by (simp add: sync_wf_def)
    from req_exec_loop_result [OF this, of send now "[]" 0] Some that show ?thesis
      by (auto simp: scene_sync_event_req_exec_def sync_wf_def)
  qed
  then show ?thesis by (intro exI [of _ g] exI [of _ msgs]) (simp add: scene_exec_round_def exec_queue_pass case_prod_unfold Let_def)
qed

text \<open>The entries for one action list in a pass: none, one that waits, one that runs.\<close>

definition entries :: "ptr \<Rightarrow> queue_node list \<Rightarrow> queue_node list" where
  "entries a qs = filter (\<lambda>q. q_pstAction q = a) qs"

definition runs :: "exec_step list \<Rightarrow> ptr list" where
  "runs xs = concat (map (\<lambda>x. case x of Run_Actions a \<Rightarrow> [a] | Report_Scene i \<Rightarrow> []) xs)"

lemma runs_append [simp]: "runs (xs @ ys) = runs xs @ runs ys"
  by (simp add: runs_def)

lemma runs_steps [simp]: "runs (run_steps_of rep q) = [q_pstAction q]"
  by (simp add: runs_def run_steps_of_def)

lemma pass_in_order: "subseq (runs (snd (exec_pass clock rep n qs))) (map q_pstAction qs)"
  by (induction qs arbitrary: n) (auto simp: runs_def [of "[]"])

lemma pass_none: "entries a qs = [] \<Longrightarrow> entries a (fst (exec_pass clock rep n qs)) = [] \<and> a \<notin> set (runs (snd (exec_pass clock rep n qs)))"
  by (induction qs arbitrary: n) (auto simp: entries_def runs_def [of "[]"] split: if_splits)

lemma pass_waits:
  assumes "entries (q_pstAction e) qs = [e]" "\<forall>n. \<not> due (clock n) e"
  shows "entries (q_pstAction e) (fst (exec_pass clock rep n qs)) = [e] \<and> q_pstAction e \<notin> set (runs (snd (exec_pass clock rep n qs)))"
  using assms(1)
proof (induction qs arbitrary: n)
  case (Cons q qs)
  then show ?case using Cons.IH [of "Suc n"] pass_none [of "q_pstAction e" qs clock rep "Suc n"] assms(2)
    by (auto simp: entries_def split: if_splits)
qed (simp add: entries_def)

lemma pass_runs:
  assumes "entries (q_pstAction e) qs = [e]" "\<forall>n. due (clock n) e"
  shows "entries (q_pstAction e) (fst (exec_pass clock rep n qs)) = [] \<and>
    (\<exists>xs ys. snd (exec_pass clock rep n qs) = xs @ run_steps_of rep e @ ys \<and> q_pstAction e \<notin> set (runs (xs @ ys)))"
  using assms(1)
proof (induction qs arbitrary: n)
  case (Cons q qs)
  let ?p = "exec_pass clock rep (Suc n) qs"
  show ?case
  proof (cases "q_pstAction q = q_pstAction e")
    case True
    with Cons.prems have "q = e" "entries (q_pstAction e) qs = []" by (simp_all add: entries_def)
    then show ?thesis using pass_none [of "q_pstAction e" qs clock rep "Suc n"] assms(2)
      by (intro conjI exI [of _ "[]"] exI [of _ "snd ?p"]) simp_all
  next
    case False
    with Cons.prems Cons.IH [of "Suc n"] obtain xs ys where
      i: "entries (q_pstAction e) (fst ?p) = []" "snd ?p = xs @ run_steps_of rep e @ ys" "q_pstAction e \<notin> set (runs (xs @ ys))"
      by (auto simp: entries_def)
    show ?thesis
    proof (cases "due (clock n) q")
      case True
      then show ?thesis using i False by (intro conjI exI [of _ "run_steps_of rep q @ xs"] exI [of _ ys]) simp_all
    next
      case notdue: False
      then show ?thesis using i False by (intro conjI exI [of _ xs] exI [of _ ys]) (simp_all add: entries_def)
    qed
  qed
qed (simp add: entries_def)

text \<open>Rounds of the thread, with the requests for executions that come in after each of them.\<close>

record exec_env =
  ee_mem :: bool
  ee_send :: "nat \<Rightarrow> int"
  ee_clock :: "nat \<Rightarrow> int"
  ee_now :: int
  ee_alloc :: "nat \<Rightarrow> bool"
  ee_requests :: "(int \<times> scene_info) list"

definition requests :: "exec_env \<Rightarrow> scene_list \<Rightarrow> scene_list" where
  "requests r L = fold (\<lambda>(t, s) L. snd (scene_list_exec (ee_alloc r) t s L)) (ee_requests r) L"

fun exec_rounds :: "exec_env list \<Rightarrow> scene_list \<Rightarrow> (scene_list \<times> exec_step list list) option" where
  "exec_rounds [] L = Some (L, [])"
| "exec_rounds (r # rs) L = do {
     (L1, msgs, steps) \<leftarrow> scene_exec_round (ee_mem r) (ee_send r) (ee_clock r) (ee_now r) L;
     (L2, stepss) \<leftarrow> exec_rounds rs (requests r L1);
     Some (L2, steps # stepss)
   }"

lemma requests_others:
  assumes "\<forall>(t, s) \<in> set (ee_requests r). pstAction s \<noteq> a"
  shows "entries a (pstExecQueue (requests r L)) = entries a (pstExecQueue L)" "syncList (requests r L) = syncList L"
    "pSceneReportHandler (requests r L) = pSceneReportHandler L"
proof -
  have "entries a (pstExecQueue (fold (\<lambda>(t, s) L. snd (scene_list_exec m t s L)) xs L)) = entries a (pstExecQueue L) \<and>
      syncList (fold (\<lambda>(t, s) L. snd (scene_list_exec m t s L)) xs L) = syncList L \<and>
      pSceneReportHandler (fold (\<lambda>(t, s) L. snd (scene_list_exec m t s L)) xs L) = pSceneReportHandler L"
    if "\<forall>(t, s) \<in> set xs. pstAction s \<noteq> a" for m xs
    using that by (induction xs arbitrary: L) (auto simp: scene_list_exec_def entries_def)
  from this [OF assms] show "entries a (pstExecQueue (requests r L)) = entries a (pstExecQueue L)" "syncList (requests r L) = syncList L"
    "pSceneReportHandler (requests r L) = pSceneReportHandler L" by (simp_all add: requests_def)
qed

lemma rounds_wait:
  assumes "entries (q_pstAction e) (pstExecQueue L) = [e]" "sync_wf (syncList L)"
    "\<forall>r \<in> set rs. (\<forall>n. \<not> due (ee_clock r n) e) \<and> (\<forall>(t, s) \<in> set (ee_requests r). pstAction s \<noteq> q_pstAction e)"
  shows "\<exists>L' stepss. exec_rounds rs L = Some (L', stepss) \<and> (\<forall>steps \<in> set stepss. q_pstAction e \<notin> set (runs steps)) \<and>
    entries (q_pstAction e) (pstExecQueue L') = [e] \<and> sync_wf (syncList L') \<and> pSceneReportHandler L' = pSceneReportHandler L"
  using assms
proof (induction rs arbitrary: L)
  case (Cons r rs)
  let ?p = "exec_pass (ee_clock r) (pSceneReportHandler L \<noteq> NULL) 0 (pstExecQueue L)"
  from exec_round_pass [OF Cons.prems(2)] obtain g msgs where
    x: "scene_exec_round (ee_mem r) (ee_send r) (ee_clock r) (ee_now r) L = Some (L\<lparr>syncList := g, pstExecQueue := fst ?p\<rparr>, msgs, snd ?p)" "sync_wf g" by blast
  define L1 where "L1 = requests r (L\<lparr>syncList := g, pstExecQueue := fst ?p\<rparr>)"
  have w: "entries (q_pstAction e) (fst ?p) = [e]" "q_pstAction e \<notin> set (runs (snd ?p))"
    using pass_waits [OF Cons.prems(1)] Cons.prems(3) by auto
  have r: "\<forall>(t, s) \<in> set (ee_requests r). pstAction s \<noteq> q_pstAction e" using Cons.prems(3) by simp
  have "entries (q_pstAction e) (pstExecQueue L1) = [e]" "sync_wf (syncList L1)" "pSceneReportHandler L1 = pSceneReportHandler L"
    using requests_others [OF r] w(1) x(2) by (simp_all add: L1_def)
  with Cons.IH [of L1] Cons.prems(3) x(1) w(2) show ?case by (auto simp: L1_def)
qed simp

text \<open>C15. When a scene runs: a scene whose execution is requested at time \<open>t\<close> is not run by a round of the thread in which the
  clock always reads less than \<open>t\<close> plus its delay, and is run by the first round in which the clock reads at least that, or by
  the first round at all when it has no delay: its actions are run once, followed by the report of the scene when a handler is
  registered, and it is not in the queue any more. The clock is read anew for every entry, and between the rounds other scenes
  may be requested. Each round runs what it runs in the order of the queue.\<close>

theorem scene_runs_after_delay:
  assumes "scene_list_exec mem t s L0 = (NoErr, L)" "sync_wf (syncList L0)" "pstAction s \<notin> q_pstAction ` set (pstExecQueue L0)"
    "d = atoi (acExecDelayed s)"
    "\<forall>r \<in> set rs. d \<noteq> 0 \<and> (\<forall>n. ee_clock r n < t + d) \<and> (\<forall>(t', s') \<in> set (ee_requests r). pstAction s' \<noteq> pstAction s)"
    "d = 0 \<or> (\<forall>n. t + d \<le> clock n)"
  shows "\<exists>L1 stepss L2 msgs steps xs ys. exec_rounds rs L = Some (L1, stepss) \<and>
    (\<forall>steps \<in> set stepss. pstAction s \<notin> set (runs steps)) \<and>
    scene_exec_round smem send clock now L1 = Some (L2, msgs, steps) \<and>
    steps = xs @ Run_Actions (pstAction s) # (if pSceneReportHandler L0 \<noteq> NULL then [Report_Scene (acSceneId s)] else []) @ ys \<and>
    pstAction s \<notin> set (runs (xs @ ys)) \<and> pstAction s \<notin> q_pstAction ` set (pstExecQueue L2) \<and>
    subseq (runs steps) (map q_pstAction (pstExecQueue L1))"
proof -
  let ?e = "entry_of t s"
  have L: "L = L0\<lparr>pstExecQueue := pstExecQueue L0 @ [?e]\<rparr>"
    using assms(1) by (auto simp: scene_list_exec_def entry_of_def NoErr_def HeapReqErr_def split: if_splits)
  have a: "q_pstAction ?e = pstAction s" by (simp add: entry_of_def)
  have "entries (q_pstAction ?e) (pstExecQueue L) = [?e]" using assms(3) by (force simp: L entries_def a filter_empty_conv)
  moreover have "\<forall>r \<in> set rs. (\<forall>n. \<not> due (ee_clock r n) ?e) \<and> (\<forall>(t', s') \<in> set (ee_requests r). pstAction s' \<noteq> q_pstAction ?e)"
  proof (intro ballI conjI allI)
    fix r n
    assume "r \<in> set rs"
    with assms(5) have "d \<noteq> 0" "ee_clock r n < t + d" by auto
    then show "\<not> due (ee_clock r n) ?e" using assms(4) by (simp add: due_def entry_of_def)
  qed (use assms(5) a in auto)
  ultimately obtain L1 stepss where 1: "exec_rounds rs L = Some (L1, stepss)" "\<forall>steps \<in> set stepss. pstAction s \<notin> set (runs steps)"
      "entries (q_pstAction ?e) (pstExecQueue L1) = [?e]" "sync_wf (syncList L1)" "pSceneReportHandler L1 = pSceneReportHandler L0"
    using rounds_wait [of ?e L rs] assms(2) a by (auto simp: L)
  let ?p = "exec_pass clock (pSceneReportHandler L1 \<noteq> NULL) 0 (pstExecQueue L1)"
  from exec_round_pass [OF 1(4)] obtain g msgs where
    2: "scene_exec_round smem send clock now L1 = Some (L1\<lparr>syncList := g, pstExecQueue := fst ?p\<rparr>, msgs, snd ?p)" by blast
  have "\<forall>n. due (clock n) ?e" using assms(4,6) by (auto simp: due_def entry_of_def algebra_simps)
  from pass_runs [OF 1(3) this] obtain xs ys where
    3: "entries (pstAction s) (fst ?p) = []" "snd ?p = xs @ run_steps_of (pSceneReportHandler L1 \<noteq> NULL) ?e @ ys" "pstAction s \<notin> set (runs (xs @ ys))"
    unfolding a by blast
  from 3(1) have 4: "pstAction s \<notin> q_pstAction ` set (fst ?p)" by (auto simp: entries_def filter_empty_conv)
  have "run_steps_of rep ?e = Run_Actions (pstAction s) # (if rep then [Report_Scene (acSceneId s)] else [])" for rep
    by (simp add: run_steps_of_def entry_of_def)
  with 3(2) 1(5) have 5: "snd ?p = xs @ Run_Actions (pstAction s) # (if pSceneReportHandler L0 \<noteq> NULL then [Report_Scene (acSceneId s)] else []) @ ys"
    by simp
  have "pstAction s \<notin> q_pstAction ` set (pstExecQueue (L1\<lparr>syncList := g, pstExecQueue := fst ?p\<rparr>))" using 4 by simp
  with 1(1,2) 2 5 3(3) pass_in_order show ?thesis by blast
qed

text \<open>A delay of five seconds: the round that reads one second less does not run the scene, the one that reads exactly the end of the
  delay does.\<close>

definition delay_example :: scene_info where
  "delay_example = scene_example\<lparr>acExecDelayed := ''5'', pstAction := 7\<rparr>"

definition round_example :: "int \<Rightarrow> exec_env" where
  "round_example now = \<lparr>ee_mem = True, ee_send = (\<lambda>n. 0), ee_clock = (\<lambda>n. now), ee_now = now, ee_alloc = (\<lambda>n. True), ee_requests = []\<rparr>"

theorem scene_runs_after_delay_witness:
  "\<exists>L L1 L2 msgs steps. scene_list_exec (\<lambda>n. True) 100 delay_example (scenes_example scene_example) = (NoErr, L) \<and>
     exec_rounds [round_example 104] L = Some (L1, [[]]) \<and> scene_exec_round True (\<lambda>n. 0) (\<lambda>n. 105) 105 L1 = Some (L2, msgs, steps) \<and> 7 \<in> set (runs steps)"
proof -
  let ?L0 = "scenes_example scene_example"
  obtain L where L: "scene_list_exec (\<lambda>n. True) 100 delay_example ?L0 = (NoErr, L)" by (simp add: exec_entry)
  have f: "pstAction delay_example = 7" "atoi (acExecDelayed delay_example) = 5"
    by (simp_all add: delay_example_def atoi_def isspace_def is_digit_def)
  have s: "sync_wf (syncList ?L0)" "pstAction delay_example \<notin> q_pstAction ` set (pstExecQueue ?L0)" by (simp_all add: sync_wf_def scenes_example_def)
  have r: "\<forall>r \<in> set [round_example 104]. (5 :: int) \<noteq> 0 \<and> (\<forall>n. ee_clock r n < 100 + 5) \<and>
      (\<forall>(t', s') \<in> set (ee_requests r). pstAction s' \<noteq> pstAction delay_example)" by (simp add: round_example_def)
  from scene_runs_after_delay [OF L s f(2) [symmetric] r, of "\<lambda>n. 105" True "\<lambda>n. 0" 105] obtain L1 stepss L2 msgs steps xs ys where
    x: "exec_rounds [round_example 104] L = Some (L1, stepss)" "scene_exec_round True (\<lambda>n. 0) (\<lambda>n. 105) 105 L1 = Some (L2, msgs, steps)"
      "steps = xs @ Run_Actions 7 # (if pSceneReportHandler ?L0 \<noteq> NULL then [Report_Scene (acSceneId delay_example)] else []) @ ys"
    unfolding f by auto
  have "stepss = [[]]" using x(1) L
    by (auto simp: exec_entry scenes_example_def round_example_def scene_exec_round_def scene_sync_event_req_exec_def exec_queue_pass due_def
        entry_of_def f split: if_splits)
  moreover have "7 \<in> set (runs steps)" unfolding x(3) by (simp add: runs_def)
  ultimately show ?thesis using L x(1,2) by blast
qed

text \<open>A disabled scene is not triggered by events: when all scenes that depend on a device are
  disabled, its report changes nothing and writes nothing to the data base.\<close>

theorem scene_list_event_disabled:
  assumes "ptr_hash_find_all (pHashTable L) (Some (snprintf KEY_MAX_LEN (ev_acDevId e @ ev_acKey e @ ''cond''))) = h"
    "h \<noteq> NULL" "chain_of (pHashTable L) h = Some ps"
    "\<forall>p \<in> set ps. \<exists>s. get_scene L (pstScene p) = Some s \<and> acSceneEnable s = ''0''"
  shows "scene_list_event rnd db mem smem now e L = Some (NoErr, L, [])"
proof -
  have "event_conds rnd db mem smem now e ps L = Some (NoErr, L, [])"
    using assms(4) by (induction ps) (auto simp: event_cond_one_def strncmp_eq_0_lit len_defs)
  with assms(1-3) show ?thesis by (simp add: scene_list_event_def Let_def)
qed

definition disabled_example :: scene_list where
  "disabled_example = scenes_example (time_scene_example\<lparr>acSceneEnable := ''0'', stAndCond := (stAndCond time_scene_example)
    \<lparr>pstTimeCondList := (pstTimeCondList (stAndCond time_scene_example))\<lparr>sets := [\<lparr>sn_addr = 10, iCondSetIndex = 0, uiCondTrue = 0,
      ucCondCount = 1, pstCond = [\<lparr>cn_addr = 11, iCondIndex = 0, stCond = every5\<lparr>acWeek := ''Mon''\<rparr>\<rparr>]\<rparr>]\<rparr>\<rparr>\<rparr>)"

theorem scene_list_event_disabled_witness:
  "scene_list_event id (\<lambda>q. NoErr) (\<lambda>n. True) (True, True) 100 (report_example ''1'') disabled_example =
     Some (NoErr, disabled_example, [])"
proof -
  let ?e = "report_example ''1''"
  have h: "ptr_hash_find_all (pHashTable disabled_example) (Some (snprintf KEY_MAX_LEN (ev_acDevId ?e @ ev_acKey ?e @ ''cond''))) = 5"
    "chain_of (pHashTable disabled_example) 5 = Some [event_ptr]"
    using table_example_find report_key by (simp_all add: disabled_example_def scenes_example_def)
  have s: "\<forall>p \<in> set [event_ptr]. \<exists>s. get_scene disabled_example (pstScene p) = Some s \<and> acSceneEnable s = ''0''"
    using event_scene_get by (simp add: disabled_example_def)
  show ?thesis by (rule scene_list_event_disabled [OF h(1) _ h(2) s]) simp
qed

text \<open>The minute check does not look at the enable flag: there is a state in which the only scene is
  disabled and the queue is empty, and the check of the time conditions puts a scene into the queue.\<close>

theorem time_check_ignores_enable:
  "\<exists>L L'. map (acSceneEnable \<circ> snd) (scenes L) = [''0''] \<and> pstExecQueue L = [] \<and>
      scene_list_time_true_all (\<lambda>n. True) \<lparr>tm_wday = 1, tm_hour = 8, tm_min = 15\<rparr> 100 L = Some (NoErr, L') \<and>
      length (pstExecQueue L') = 1"
proof -
  have "map_option (\<lambda>(st, L'). (st, length (pstExecQueue L'))) (scene_list_time_true_all (\<lambda>n. True)
      \<lparr>tm_wday = 1, tm_hour = 8, tm_min = 15\<rparr> 100 disabled_example) = Some (NoErr, 1)" by code_simp
  then obtain L' where "scene_list_time_true_all (\<lambda>n. True) \<lparr>tm_wday = 1, tm_hour = 8, tm_min = 15\<rparr> 100 disabled_example =
      Some (NoErr, L')" "length (pstExecQueue L') = 1" by auto
  moreover have "map (acSceneEnable \<circ> snd) (scenes disabled_example) = [''0''] \<and> pstExecQueue disabled_example = []"
    by (simp add: disabled_example_def scenes_example_def)
  ultimately show ?thesis by (intro exI [of _ disabled_example] exI [of _ L']) simp
qed

text \<open>Manual activation: a scene joins the queue exactly when it is enabled and either is marked for
  manual activation or has no conditions; otherwise nothing changes.\<close>

theorem scene_list_active_outcome:
  assumes "scene_ok s"
  shows "scene_list_active mem now s L =
    (if acSceneEnable s = ''1'' \<and> (cManualTriggerFlag s = 1 \<or> \<not> has_cond (stOrCond s) \<and> \<not> has_cond (stAndCond s))
     then scene_list_exec mem now s L else (NoErr, L))"
proof -
  have w: "cl_wf (pstTimeCondList (stOrCond s))" "cl_wf (pstEventCondList (stOrCond s))"
    "cl_wf (pstTimeCondList (stAndCond s))" "cl_wf (pstEventCondList (stAndCond s))"
    using assms by (auto simp: scene_ok_def logic_ok_def list_ok_def)
  have "cond_size (pstTimeCondList (stOrCond s)) + cond_size (pstEventCondList (stOrCond s)) +
      cond_size (pstTimeCondList (stAndCond s)) + cond_size (pstEventCondList (stAndCond s)) = 0 \<longleftrightarrow>
      \<not> has_cond (stOrCond s) \<and> \<not> has_cond (stAndCond s)"
    using w [THEN wf_count] w [THEN wf_count_nonneg] unfolding cond_size_def has_cond_def by linarith
  then show ?thesis by (simp add: scene_list_active_def strncmp_eq_0_lit len_defs)
qed

theorem scene_list_active_outcome_witness:
  "scene_list_active (\<lambda>n. True) 100 scene_example (scenes_example scene_example) = (NoErr, scenes_example scene_example)"
  using scene_list_active_outcome [OF scene_example_ok, of "\<lambda>n. True" 100 "scenes_example scene_example"]
  by (simp add: scene_example_def has_cond_def event_list_example_def)

end
