(* ===== verification/Scene_Index.thy ===== *)
theory Scene_Index
  imports Scene_Exec
begin

text \<open>
  Conditions, panels and actions of a scene: \<open>hylink/src/local_scene/scene_list.c\<close>, the operations \<open>scene_bind\<close> to
  \<open>scene_action_clear\<close>. Every condition and every panel is in two places: in the lists of its scene and in
  the pointer index, under a key made of its device and key (or its time key) and with the identifier of
  the scene. The operations keep both, send the change to the data base and bring the cached truth of the
  scene up to date (theory \<open>Scene_Cond\<close>).

  The operations for the four condition lists have the same text up to names; the common parts are modelled
  once, with the kind of condition given by the list field and the logic by \<open>logic\<close>. Addresses that
  \<open>calloc\<close> returns are parameters; \<open>al\<close> and \<open>head\<close> are those of the index (theory \<open>Ptr_Hash\<close>). A record of the
  index that belongs to another list or another scene than the one an operation was called for is followed
  where the code follows it; a deletion through such a record changes the counters of one list for a
  node of another, which the model does not represent, so it has no result there.
\<close>

section \<open>Access\<close>

datatype logic = Or_Logic | And_Logic

definition get_logic :: "logic \<Rightarrow> scene_info \<Rightarrow> cond_logic" where
  "get_logic lg s = (case lg of Or_Logic \<Rightarrow> stOrCond s | And_Logic \<Rightarrow> stAndCond s)"

definition upd_logic :: "logic \<Rightarrow> (cond_logic \<Rightarrow> cond_logic) \<Rightarrow> scene_info \<Rightarrow> scene_info" where
  "upd_logic lg f s = (case lg of Or_Logic \<Rightarrow> s\<lparr>stOrCond := f (stOrCond s)\<rparr> | And_Logic \<Rightarrow> s\<lparr>stAndCond := f (stAndCond s)\<rparr>)"

definition zero_ptr :: ptr_info where
  "zero_ptr = \<lparr>acId = [], pstScene = NULL, pstCondList = NULL, pCondSetNode = NULL, pCondNode = NULL, pScenePanelNode = NULL\<rparr>"

definition PRT_HASH_TYPE_COND :: string where "PRT_HASH_TYPE_COND = ''cond''"
definition PRT_HASH_TYPE_SCENE_BIND :: string where "PRT_HASH_TYPE_SCENE_BIND = ''scene_bind''"

text \<open>The keys of the index; \<open>snprintf\<close> cuts them to the buffer.\<close>

definition time_key :: "time_cond \<Rightarrow> string" where
  "time_key c = snprintf KEY_MAX_LEN (acTimeKey c @ PRT_HASH_TYPE_COND)"

definition event_key :: "event_cond \<Rightarrow> string" where
  "event_key c = snprintf KEY_MAX_LEN (e_acDevId c @ e_acKey c @ PRT_HASH_TYPE_COND)"

definition panel_key :: "scene_panel \<Rightarrow> string" where
  "panel_key pn = snprintf KEY_MAX_LEN (sp_acDevId pn @ sp_acKey pn @ sp_acValue pn @ PRT_HASH_TYPE_SCENE_BIND)"

type_synonym op_result = "(status \<times> scene_list \<times> db_calls) option"

section \<open>Panels\<close>

definition DB_TABLE_NAME_BIND_SCENE :: string where "DB_TABLE_NAME_BIND_SCENE = ''scene_bind_list''"

definition panel_where :: "scene_info \<Rightarrow> scene_panel \<Rightarrow> (string \<times> string) list" where
  "panel_where s pn = [(''id'', acSceneId s), (''dev_id'', sp_acDevId pn), (''key'', sp_acKey pn), (''value'', sp_acValue pn)]"

definition scene_bind_db :: "(db_stmt \<Rightarrow> status) \<Rightarrow> scene_list \<Rightarrow> scene_info \<Rightarrow> scene_panel \<Rightarrow> status \<times> db_calls" where
  "scene_bind_db db L s pn = db_write db (sl_ucInitFlag L)
     (Db_Insert DB_TABLE_NAME_BIND_SCENE (panel_where s pn @ [(''enable'', sp_acEnable pn)])) SceneAddErr"

definition scene_bind_set_db :: "(db_stmt \<Rightarrow> status) \<Rightarrow> scene_list \<Rightarrow> scene_info \<Rightarrow> scene_panel \<Rightarrow> status \<times> db_calls" where
  "scene_bind_set_db db L s pn = db_write db (sl_ucInitFlag L)
     (Db_Update DB_TABLE_NAME_BIND_SCENE [(''enable'', sp_acEnable pn)] (panel_where s pn)) SceneAddErr"

definition scene_unbind_db :: "(db_stmt \<Rightarrow> status) \<Rightarrow> scene_list \<Rightarrow> scene_info \<Rightarrow> scene_panel \<Rightarrow> status \<times> db_calls" where
  "scene_unbind_db db L s pn = db_write db (sl_ucInitFlag L) (Db_Delete DB_TABLE_NAME_BIND_SCENE (panel_where s pn)) SceneDelErr"

text \<open>\<open>m\<close>: the index record is allocated; \<open>pNew\<close>: the address of the panel node, which is used unchecked.\<close>

definition set_enable :: "ptr \<Rightarrow> string \<Rightarrow> scene_info \<Rightarrow> scene_info" where
  "set_enable b v s = s\<lparr>pstPanel := map (\<lambda>(x, q). if x = b then (x, q\<lparr>sp_acEnable := strncpy v STATE_MAX_LEN\<rparr>) else (x, q)) (pstPanel s)\<rparr>"

definition bind_found :: "(db_stmt \<Rightarrow> status) \<Rightarrow> scene_info \<Rightarrow> ptr_info \<Rightarrow> scene_panel \<Rightarrow> scene_list \<Rightarrow> op_result" where
  "bind_found db s p pn L = do {
     s1 \<leftarrow> get_scene L (pstScene p);
     q \<leftarrow> map_of (pstPanel s1) (pScenePanelNode p);
     if strncmp (sp_acEnable q) (sp_acEnable pn) STATE_MAX_LEN \<noteq> 0 then
       let L1 = put_scene (pstScene p) (set_enable (pScenePanelNode p) (sp_acEnable pn) s1) L;
           (iRet, calls) = scene_bind_set_db db L s pn in
       Some (if iRet \<noteq> NoErr then SceneDelErr else NoErr, L1, calls)
     else Some (NoErr, L, [])
   }"

definition bind_new :: "ptr \<Rightarrow> (nat \<Rightarrow> bool) \<Rightarrow> ptr \<Rightarrow> (db_stmt \<Rightarrow> status) \<Rightarrow> ptr \<Rightarrow> scene_info \<Rightarrow> scene_panel \<Rightarrow> scene_list \<Rightarrow> op_result" where
  "bind_new pNew al head db a s pn L =
     (if pNew = NULL \<or> panelFreed s then None
      else let L1 = put_scene a (s\<lparr>pstPanel := pstPanel s @ [(pNew, pn)]\<rparr>) L;
               (iRet, calls) = scene_bind_db db L s pn in
        if iRet \<noteq> NoErr then Some (SceneDelErr, L1, calls)
        else do {
          let p = zero_ptr\<lparr>acId := strncpy (acSceneId s) INDEX_MAX_LEN, pstScene := a, pScenePanelNode := pNew\<rparr>;
          (r, t) \<leftarrow> ptr_hash_inst al head (pHashTable L1) (Some (panel_key pn)) (Some p);
          Some (r, L1\<lparr>pHashTable := t\<rparr>, calls)
        })"

definition scene_bind :: "bool \<Rightarrow> ptr \<Rightarrow> (nat \<Rightarrow> bool) \<Rightarrow> ptr \<Rightarrow> (db_stmt \<Rightarrow> status) \<Rightarrow> ptr \<Rightarrow> scene_panel \<Rightarrow> scene_list \<Rightarrow> op_result" where
  "scene_bind m pNew al head db a pn L = do {
     s \<leftarrow> get_scene L a;
     pHashValue \<leftarrow> ptr_hash_find (pHashTable L) (Some (panel_key pn)) (Some (acSceneId s));
     case pHashValue of
       Some p \<Rightarrow> bind_found db s p pn L
     | None \<Rightarrow> if \<not> m then Some (HeapReqErr, L, []) else bind_new pNew al head db a s pn L
   }"

definition scene_unbind :: "(db_stmt \<Rightarrow> status) \<Rightarrow> ptr \<Rightarrow> scene_panel \<Rightarrow> scene_list \<Rightarrow> op_result" where
  "scene_unbind db a pn L = do {
     s \<leftarrow> get_scene L a;
     pHashValue \<leftarrow> ptr_hash_find (pHashTable L) (Some (panel_key pn)) (Some (acSceneId s));
     case pHashValue of
       None \<Rightarrow> Some (NotFoundErr, L, [])
     | Some p \<Rightarrow> if pstScene p \<noteq> a then None else do {
         q \<leftarrow> map_of (pstPanel s) (pScenePanelNode p);
         let (iRet, calls) = scene_unbind_db db L s q;
         if iRet \<noteq> NoErr then Some (SceneDelErr, L, calls)
         else do {
           let L1 = put_scene a (s\<lparr>pstPanel := filter (\<lambda>(x, _). x \<noteq> pScenePanelNode p) (pstPanel s)\<rparr>) L;
           (r, t) \<leftarrow> ptr_hash_del (pHashTable L1) (Some (panel_key pn)) (Some (acSceneId s));
           Some (iRet + r, L1\<lparr>pHashTable := t\<rparr>, calls)
         }
       }
   }"

definition scene_bind_get_list :: "ptr \<Rightarrow> nat \<Rightarrow> scene_list \<Rightarrow> (status \<times> scene_panel list) option" where
  "scene_bind_get_list a iMax L = do {
     s \<leftarrow> get_scene L a;
     if panelFreed s then None else Some (NoErr, take iMax (map snd (pstPanel s)))
   }"

fun clear_panels :: "(db_stmt \<Rightarrow> status) \<Rightarrow> int \<Rightarrow> scene_list \<Rightarrow> scene_info \<Rightarrow> scene_panel list \<Rightarrow> ptr_hash_table \<Rightarrow>
    (ptr_hash_table \<times> db_calls) option" where
  "clear_panels db iClearDbFlag L s [] t = Some (t, [])"
| "clear_panels db iClearDbFlag L s (pn # pns) t = do {
     (r, t1) \<leftarrow> ptr_hash_del t (Some (panel_key pn)) (Some (acSceneId s));
     (t2, calls) \<leftarrow> clear_panels db iClearDbFlag L s pns t1;
     Some (t2, (if iClearDbFlag = 1 then snd (scene_unbind_db db L s pn) else []) @ calls)
   }"

definition scene_bind_clear :: "(db_stmt \<Rightarrow> status) \<Rightarrow> int \<Rightarrow> ptr \<Rightarrow> scene_list \<Rightarrow> op_result" where
  "scene_bind_clear db iClearDbFlag a L = do {
     s \<leftarrow> get_scene L a;
     if panelFreed s then None
     else do {
       (t, calls) \<leftarrow> clear_panels db iClearDbFlag L s (map snd (pstPanel s)) (pHashTable L);
       Some (NoErr, (put_scene a (s\<lparr>pstPanel := [], panelFreed := pstPanel s \<noteq> []\<rparr>) L)\<lparr>pHashTable := t\<rparr>, calls)
     }
   }"

section \<open>Conditions\<close>

text \<open>A condition that the index knows is changed where its record points to, with the data base statement
  of the list the operation was called for; otherwise it is added to that list, and its record to the
  index, whatever the status of the list operation. The result has the record for the truth.\<close>

definition cond_change :: "'c list_get \<Rightarrow> 'c list_upd \<Rightarrow> logic \<Rightarrow> ('c \<Rightarrow> 'c \<Rightarrow> 'c) \<Rightarrow> ('c cond_list \<Rightarrow> 'c \<Rightarrow> status \<times> db_calls) \<Rightarrow>
    ptr \<Rightarrow> ptr_info \<Rightarrow> 'c \<Rightarrow> scene_list \<Rightarrow> (status \<times> scene_list \<times> ptr_info \<times> db_calls) option" where
  "cond_change fget fupd lg copy set_db a p c L = do {
     s1 \<leftarrow> get_scene L (pstScene p);
     old \<leftarrow> cond_at fget p s1;
     s2 \<leftarrow> put_cond fget fupd p (copy c) s1;
     let L1 = put_scene (pstScene p) s2 L;
     s \<leftarrow> get_scene L1 a;
     let (iRet, calls) = set_db (fget (get_logic lg s)) c;
     Some (iRet, L1, p, calls)
   }"

definition cond_insert :: "'c list_get \<Rightarrow> 'c list_upd \<Rightarrow> logic \<Rightarrow> ('c cond_list \<Rightarrow> 'c \<Rightarrow> ptr_info \<Rightarrow> 'c add_result option) \<Rightarrow>
    (nat \<Rightarrow> bool) \<Rightarrow> ptr \<Rightarrow> string \<Rightarrow> ptr \<Rightarrow> scene_info \<Rightarrow> 'c \<Rightarrow> scene_list \<Rightarrow> (status \<times> scene_list \<times> ptr_info \<times> db_calls) option" where
  "cond_insert fget fupd lg add al head key a s c L = do {
     (iRet, l1, p1, calls) \<leftarrow> add (fget (get_logic lg s)) c zero_ptr;
     let p = p1\<lparr>acId := strncpy (acSceneId s) INDEX_MAX_LEN, pstScene := a\<rparr>;
     let L1 = put_scene a (upd_logic lg (fupd (\<lambda>_. l1)) s) L;
     (r, t) \<leftarrow> ptr_hash_inst al head (pHashTable L1) (Some key) (Some p);
     Some (iRet + r, L1\<lparr>pHashTable := t\<rparr>, p, calls)
   }"

text \<open>\<open>ps\<close>, \<open>pc\<close>: addresses of a new set and of the new condition; \<open>m\<close>: the index record is allocated. \<open>Inl\<close> is
  the early return without memory.\<close>

type_synonym cond_mem = "bool \<times> ptr \<times> ptr \<times> (nat \<Rightarrow> bool) \<times> ptr"

definition time_cond_put :: "cond_mem \<Rightarrow> (db_stmt \<Rightarrow> status) \<Rightarrow> logic \<Rightarrow> ptr \<Rightarrow> time_cond \<Rightarrow> scene_list \<Rightarrow>
    (status \<times> scene_list \<times> ptr_info \<times> db_calls) option" where
  "time_cond_put mem db lg a c L = (case mem of (m, ps, pc, al, head) \<Rightarrow> do {
     s \<leftarrow> get_scene L a;
     pHashValue \<leftarrow> ptr_hash_find (pHashTable L) (Some (time_key c)) (Some (acSceneId s));
     case pHashValue of
       Some p \<Rightarrow> cond_change pstTimeCondList pstTimeCondList_update lg time_cond_copy (time_cond_set_db db) a p c L
     | None \<Rightarrow> if \<not> m then Some (HeapReqErr, L, zero_ptr, [])
         else cond_insert pstTimeCondList pstTimeCondList_update lg (time_cond_add db ps pc) al head (time_key c) a s c L
   })"

definition event_cond_put :: "cond_mem \<Rightarrow> (db_stmt \<Rightarrow> status) \<Rightarrow> logic \<Rightarrow> ptr \<Rightarrow> event_cond \<Rightarrow> scene_list \<Rightarrow>
    (status \<times> scene_list \<times> ptr_info \<times> db_calls) option" where
  "event_cond_put mem db lg a c L = (case mem of (m, ps, pc, al, head) \<Rightarrow> do {
     s \<leftarrow> get_scene L a;
     pHashValue \<leftarrow> ptr_hash_find (pHashTable L) (Some (event_key c)) (Some (acSceneId s));
     case pHashValue of
       Some p \<Rightarrow> cond_change pstEventCondList pstEventCondList_update lg event_cond_copy (event_cond_set_db db) a p c L
     | None \<Rightarrow> if \<not> m then Some (HeapReqErr, L, zero_ptr, [])
         else cond_insert pstEventCondList pstEventCondList_update lg (event_cond_add db ps pc) al head (event_key c) a s c L
   })"

text \<open>The truth of the condition that was put, on all levels.\<close>

definition put_truth :: "(bool \<Rightarrow> ptr_info \<Rightarrow> scene_info \<Rightarrow> scene_info option) \<Rightarrow> bool \<Rightarrow> ptr_info \<Rightarrow> scene_list \<Rightarrow> scene_list option" where
  "put_truth true_init b p L = do {
     s \<leftarrow> get_scene L (pstScene p);
     s1 \<leftarrow> true_init b p s;
     Some (put_scene (pstScene p) s1 L)
   }"

definition time_cond_add_scene :: "cond_mem \<Rightarrow> (db_stmt \<Rightarrow> status) \<Rightarrow> logic \<Rightarrow> ptr \<Rightarrow> time_cond \<Rightarrow> scene_list \<Rightarrow> op_result" where
  "time_cond_add_scene mem db lg a c L = do {
     (iRet, L1, p, calls) \<leftarrow> time_cond_put mem db lg a c L;
     L2 \<leftarrow> (if iRet = NoErr then put_truth scene_time_cond_true_init False p L1 else Some L1);
     Some (iRet, L2, calls)
   }"

definition scene_time_or_cond_add :: "cond_mem \<Rightarrow> (db_stmt \<Rightarrow> status) \<Rightarrow> ptr \<Rightarrow> time_cond \<Rightarrow> scene_list \<Rightarrow> op_result" where
  "scene_time_or_cond_add mem db a c L = time_cond_add_scene mem db Or_Logic a c L"

definition scene_time_and_cond_add :: "cond_mem \<Rightarrow> (db_stmt \<Rightarrow> status) \<Rightarrow> ptr \<Rightarrow> time_cond \<Rightarrow> scene_list \<Rightarrow> op_result" where
  "scene_time_and_cond_add mem db a c L = time_cond_add_scene mem db And_Logic a c L"

text \<open>An event condition starts with the truth that its last value gives it.\<close>

definition event_cond_start :: "(rat \<Rightarrow> rat) \<Rightarrow> event_cond \<Rightarrow> bool option" where
  "event_cond_start rnd c = (if length (acLastValue c) = 0 then Some False
     else scene_event_cond_is_true rnd c \<lparr>ev_acDevId = strncpy (e_acDevId c) DEV_ID_MAX_LEN, ev_acKey = strncpy (e_acKey c) KEY_MAX_LEN,
       ev_acValue = strncpy (acLastValue c) VALUE_MAX_LEN\<rparr>)"

definition scene_event_or_cond_add :: "(rat \<Rightarrow> rat) \<Rightarrow> cond_mem \<Rightarrow> (db_stmt \<Rightarrow> status) \<Rightarrow> ptr \<Rightarrow> event_cond \<Rightarrow> scene_list \<Rightarrow> op_result" where
  "scene_event_or_cond_add rnd mem db a c L =
     (if strncmp (e_acKey c) ''Manual'' KEY_MAX_LEN = 0 then do {
        s \<leftarrow> get_scene L a;
        if cManualTriggerFlag s = 0 then
          let (iRet, calls) = event_cond_add_db db (pstEventCondList (stOrCond s)) c in
          if iRet \<noteq> NoErr then Some (iRet, L, calls)
          else Some (NoErr, put_scene a (s\<lparr>cManualTriggerFlag := 1\<rparr>) L, calls)
        else Some (NoErr, L, [])
      } else do {
        (iRet, L1, p, calls) \<leftarrow> event_cond_put mem db Or_Logic a c L;
        L2 \<leftarrow> (if iRet = NoErr then do { iTrue \<leftarrow> event_cond_start rnd c; put_truth scene_event_cond_true_init iTrue p L1 }
               else Some L1);
        Some (iRet, L2, calls)
      })"

definition scene_event_and_cond_add :: "(rat \<Rightarrow> rat) \<Rightarrow> cond_mem \<Rightarrow> (db_stmt \<Rightarrow> status) \<Rightarrow> ptr \<Rightarrow> event_cond \<Rightarrow> scene_list \<Rightarrow> op_result" where
  "scene_event_and_cond_add rnd mem db a c L = do {
     (iRet, L1, p, calls) \<leftarrow> event_cond_put mem db And_Logic a c L;
     L2 \<leftarrow> (if iRet = NoErr then do {
              s \<leftarrow> get_scene L1 a;
              if cond_size (pstEventCondList (stAndCond s)) = 1 then
                Some (put_scene a (upd_logic And_Logic (\<lambda>cl. cl\<lparr>ucCondListTrue := list_bit_put False 1 (ucCondListTrue cl)\<rparr>) s) L1)
              else do { iTrue \<leftarrow> event_cond_start rnd c; put_truth scene_event_cond_true_init iTrue p L1 }
            } else Some L1);
     Some (iRet, L2, calls)
   }"

definition scene_event_cond_get :: "ptr \<Rightarrow> event_cond \<Rightarrow> scene_list \<Rightarrow> (status \<times> event_cond) option" where
  "scene_event_cond_get a c L = do {
     s \<leftarrow> get_scene L a;
     pHashValue \<leftarrow> ptr_hash_find (pHashTable L) (Some (event_key c)) (Some (acSceneId s));
     case pHashValue of
       Some p \<Rightarrow> do { s1 \<leftarrow> get_scene L (pstScene p); d \<leftarrow> cond_at pstEventCondList p s1; Some (0, d) }
     | None \<Rightarrow> Some (-1, c)
   }"

text \<open>Deletion. When the list becomes empty its truth is reset: \<open>reset\<close> is the change of the logic. Otherwise
  the truth of the condition's set is computed from what is left of it, which reads the set after it may
  have been freed.\<close>

definition set_truth :: "logic \<Rightarrow> 'c cond_set \<Rightarrow> bool option" where
  "set_truth lg t = group_true (case lg of Or_Logic \<Rightarrow> ''Or'' | And_Logic \<Rightarrow> ''And'') (uiCondTrue t) (int (ucCondCount t))"

definition del_truth :: "'c list_get \<Rightarrow> 'c list_upd \<Rightarrow> nat \<Rightarrow> logic \<Rightarrow> (cond_logic \<Rightarrow> cond_logic) \<Rightarrow> ptr_info \<Rightarrow> 'c cond_list \<Rightarrow> scene_info \<Rightarrow> scene_info option" where
  "del_truth fget fupd k lg reset p l s =
     (if cond_size l = 0 then Some (upd_logic lg (reset \<circ> fupd (\<lambda>l. l\<lparr>uiCondSetTrue := 0\<rparr>)) s)
      else do {
        t \<leftarrow> get_set l (pCondSetNode p);
        iTrue \<leftarrow> set_truth lg t;
        cond_set_true_init fget fupd k iTrue p s
      })"

definition cond_remove :: "'c list_get \<Rightarrow> 'c list_upd \<Rightarrow> nat \<Rightarrow> logic \<Rightarrow> (cond_logic \<Rightarrow> cond_logic) \<Rightarrow>
    ('c cond_list \<Rightarrow> ptr_info \<Rightarrow> (status \<times> 'c cond_list \<times> db_calls) option) \<Rightarrow> string \<Rightarrow> ptr \<Rightarrow> scene_list \<Rightarrow> op_result" where
  "cond_remove fget fupd k lg reset del key a L = do {
     s \<leftarrow> get_scene L a;
     pHashValue \<leftarrow> ptr_hash_find (pHashTable L) (Some key) (Some (acSceneId s));
     case pHashValue of
       None \<Rightarrow> Some (NotFoundErr, L, [])
     | Some p \<Rightarrow> if pstScene p \<noteq> a \<or> pstCondList p \<noteq> cl_addr (fget (get_logic lg s)) then None else do {
         (iRet, l, calls) \<leftarrow> del (fget (get_logic lg s)) p;
         let s1 = upd_logic lg (fupd (\<lambda>_. l)) s;
         s2 \<leftarrow> (if iRet = NoErr then del_truth fget fupd k lg reset p l s1 else Some s1);
         (r, t) \<leftarrow> ptr_hash_del (pHashTable L) (Some key) (Some (acSceneId s));
         Some (iRet + r, (put_scene a s2 L)\<lparr>pHashTable := t\<rparr>, calls)
       }
   }"

definition scene_time_or_cond_del :: "(db_stmt \<Rightarrow> status) \<Rightarrow> ptr \<Rightarrow> time_cond \<Rightarrow> scene_list \<Rightarrow> op_result" where
  "scene_time_or_cond_del db a c L = cond_remove pstTimeCondList pstTimeCondList_update 0 Or_Logic
     (\<lambda>cl. cl\<lparr>ucCondListTrue := list_bit_put False 0 (ucCondListTrue cl)\<rparr>) (time_cond_del db) (time_key c) a L"

definition scene_time_and_cond_del :: "(db_stmt \<Rightarrow> status) \<Rightarrow> ptr \<Rightarrow> time_cond \<Rightarrow> scene_list \<Rightarrow> op_result" where
  "scene_time_and_cond_del db a c L = cond_remove pstTimeCondList pstTimeCondList_update 0 And_Logic
     (\<lambda>cl. cl\<lparr>ucCondListTrue := list_bit_put True 0 (ucCondListTrue cl)\<rparr>) (time_cond_del db) (time_key c) a L"

definition scene_event_or_cond_del :: "(db_stmt \<Rightarrow> status) \<Rightarrow> ptr \<Rightarrow> event_cond \<Rightarrow> scene_list \<Rightarrow> op_result" where
  "scene_event_or_cond_del db a c L =
     (if strncmp (e_acKey c) ''Manual'' KEY_MAX_LEN = 0 then do {
        s \<leftarrow> get_scene L a;
        if cManualTriggerFlag s = 1 then
          let (iRet, calls) = event_cond_del_db db (pstEventCondList (stOrCond s)) c in
          if iRet \<noteq> NoErr then Some (iRet, L, calls)
          else Some (NoErr, put_scene a (s\<lparr>cManualTriggerFlag := 0\<rparr>) L, calls)
        else Some (NoErr, L, [])
      } else do {
        (iRet, L1, calls) \<leftarrow> cond_remove pstEventCondList pstEventCondList_update 1 Or_Logic
          (\<lambda>cl. cl\<lparr>ucCondListTrue := list_bit_put False 1 (ucCondListTrue cl)\<rparr>) (event_cond_del db) (event_key c) a L;
        Some (if iRet = NotFoundErr then NotFoundErr else NoErr, L1, calls)
      })"

definition scene_event_and_cond_del :: "(db_stmt \<Rightarrow> status) \<Rightarrow> ptr \<Rightarrow> event_cond \<Rightarrow> scene_list \<Rightarrow> op_result" where
  "scene_event_and_cond_del db a c L = cond_remove pstEventCondList pstEventCondList_update 1 And_Logic
     (\<lambda>cl. cl\<lparr>ucCondListTrue := list_bit_put True 0 (ucCondListTrue cl)\<rparr>) (event_cond_del db) (event_key c) a L"

text \<open>The condition arrays, with room for \<open>iMax\<close> entries.\<close>

definition scene_time_cond_get_list :: "logic \<Rightarrow> ptr \<Rightarrow> nat \<Rightarrow> scene_list \<Rightarrow> (status \<times> time_cond list) option" where
  "scene_time_cond_get_list lg a iMax L = do {
     s \<leftarrow> get_scene L a; Some (time_cond_get_list (pstTimeCondList (get_logic lg s)) iMax) }"

definition scene_event_cond_get_list :: "logic \<Rightarrow> ptr \<Rightarrow> nat \<Rightarrow> scene_list \<Rightarrow> (status \<times> event_cond list) option" where
  "scene_event_cond_get_list lg a iMax L = do {
     s \<leftarrow> get_scene L a; Some (event_cond_get_list (pstEventCondList (get_logic lg s)) iMax) }"

text \<open>Clearing a list: the records leave the index and the rows the data base, the list is emptied and its
  set truths are reset. Nothing above the list is touched.\<close>

fun clear_index :: "string \<Rightarrow> string list \<Rightarrow> ptr_hash_table \<Rightarrow> ptr_hash_table option" where
  "clear_index ident [] t = Some t"
| "clear_index ident (key # ks) t = do { (r, t1) \<leftarrow> ptr_hash_del t (Some key) (Some ident); clear_index ident ks t1 }"

definition cond_clear_scene :: "'c list_get \<Rightarrow> 'c list_upd \<Rightarrow> logic \<Rightarrow> ('c \<Rightarrow> string) \<Rightarrow> ('c cond_list \<Rightarrow> 'c \<Rightarrow> status \<times> db_calls) \<Rightarrow>
    int \<Rightarrow> ptr \<Rightarrow> scene_list \<Rightarrow> op_result" where
  "cond_clear_scene fget fupd lg key del_db iClearDbFlag a L = do {
     s \<leftarrow> get_scene L a;
     let l = fget (get_logic lg s);
     t \<leftarrow> clear_index (acSceneId s) (map key (conds_of l)) (pHashTable L);
     let s1 = upd_logic lg (fupd (\<lambda>_. l\<lparr>iCount := 0, uiCondSetTrue := 0, sets := []\<rparr>)) s;
     Some (NoErr, (put_scene a s1 L)\<lparr>pHashTable := t\<rparr>,
       if iClearDbFlag = 1 then concat (map (\<lambda>c. snd (del_db l c)) (conds_of l)) else [])
   }"

definition scene_time_cond_clear :: "logic \<Rightarrow> (db_stmt \<Rightarrow> status) \<Rightarrow> int \<Rightarrow> ptr \<Rightarrow> scene_list \<Rightarrow> op_result" where
  "scene_time_cond_clear lg db iClearDbFlag a L =
     cond_clear_scene pstTimeCondList pstTimeCondList_update lg time_key (time_cond_del_db db) iClearDbFlag a L"

definition scene_event_and_cond_clear :: "(db_stmt \<Rightarrow> status) \<Rightarrow> int \<Rightarrow> ptr \<Rightarrow> scene_list \<Rightarrow> op_result" where
  "scene_event_and_cond_clear db iClearDbFlag a L =
     cond_clear_scene pstEventCondList pstEventCondList_update And_Logic event_key (event_cond_del_db db) iClearDbFlag a L"

definition manual_cond :: event_cond where
  "manual_cond = \<lparr>e_acDevId = ''0000000000000000'', e_acKey = ''Manual'', e_acTriggerType = [], acContinueTime = [],
     e_acValue = [], acActive = [], acLastValue = []\<rparr>"

definition scene_event_or_cond_clear :: "(db_stmt \<Rightarrow> status) \<Rightarrow> int \<Rightarrow> ptr \<Rightarrow> scene_list \<Rightarrow> op_result" where
  "scene_event_or_cond_clear db iClearDbFlag a L = do {
     (iRet, L1, calls) \<leftarrow> cond_clear_scene pstEventCondList pstEventCondList_update Or_Logic event_key (event_cond_del_db db) iClearDbFlag a L;
     s \<leftarrow> get_scene L1 a;
     Some (iRet, L1, calls @ (if cManualTriggerFlag s = 1 \<and> iClearDbFlag = 1
       then snd (event_cond_del_db db (pstEventCondList (stOrCond s)) manual_cond) else []))
   }"

section \<open>Actions\<close>

text \<open>The action list of a scene; a scene whose list has been destroyed has none.\<close>

definition scene_actions :: "ptr \<Rightarrow> scene_list \<Rightarrow> (ptr \<times> action_list) option" where
  "scene_actions a L = do { s \<leftarrow> get_scene L a; l \<leftarrow> actionLists L (pstAction s); Some (pstAction s, l) }"

definition put_actions :: "ptr \<Rightarrow> action_list \<Rightarrow> scene_list \<Rightarrow> scene_list" where
  "put_actions b l L = L\<lparr>actionLists := (actionLists L)(b \<mapsto> l)\<rparr>"

definition scene_action_add :: "bool \<times> bool \<times> bool \<Rightarrow> (db_stmt \<Rightarrow> status) \<Rightarrow> ptr \<Rightarrow> action_info \<Rightarrow> scene_list \<Rightarrow> op_result" where
  "scene_action_add mem db a x L = do {
     (b, l) \<leftarrow> scene_actions a L;
     let (iRet, l1, calls) = action_list_add mem db l x;
     Some (iRet, put_actions b l1 L, calls)
   }"

definition scene_action_del :: "bool \<Rightarrow> (db_stmt \<Rightarrow> status) \<Rightarrow> ptr \<Rightarrow> action_info \<Rightarrow> scene_list \<Rightarrow> op_result" where
  "scene_action_del m db a x L = do {
     (b, l) \<leftarrow> scene_actions a L;
     let (iRet, l1, calls) = action_list_del m db l x;
     Some (iRet, put_actions b l1 L, calls)
   }"

definition scene_action_get_list :: "ptr \<Rightarrow> nat \<Rightarrow> scene_list \<Rightarrow> (status \<times> action_info list) option" where
  "scene_action_get_list a iMax L = do { (b, l) \<leftarrow> scene_actions a L; Some (action_list_get_list l iMax) }"

definition scene_action_clear :: "(db_stmt \<Rightarrow> status) \<Rightarrow> int \<Rightarrow> ptr \<Rightarrow> scene_list \<Rightarrow> op_result" where
  "scene_action_clear db iClearDbFlag a L = do {
     (b, l) \<leftarrow> scene_actions a L;
     Some (NoErr, put_actions b (l\<lparr>actions := []\<rparr>) L,
       if iClearDbFlag = 1 then concat (map (\<lambda>x. snd (action_list_del_db db l x)) (actions l)) else [])
   }"

section \<open>Adding a condition to a list\<close>

definition node_at :: "'c cond_list \<Rightarrow> ptr_info \<Rightarrow> 'c option" where
  "node_at l q = get_set l (pCondSetNode q) \<bind> (\<lambda>t. get_cond t (pCondNode q) \<bind> (\<lambda>n. Some (stCond n)))"

text \<open>A set with room was found, or a new one was put at the end: the other sets are where they were.\<close>

definition room_at :: "'c cond_list \<Rightarrow> 'c cond_list \<Rightarrow> ptr \<Rightarrow> nat \<Rightarrow> bool" where
  "room_at l l1 a k \<longleftrightarrow> l1 = l\<lparr>sets := sets l1\<rparr> \<and> (\<forall>b. b \<noteq> a \<longrightarrow> get_set l1 b = get_set l b) \<and>
     (get_set l a = Some (sets l1 ! k) \<or> get_set l a = None \<and> pstCond (sets l1 ! k) = []) \<and>
     (\<forall>i < length (sets l1). i \<noteq> k \<longrightarrow> i < length (sets l) \<and> sets l1 ! i = sets l ! i)"

lemma renumber_id: "(\<forall>k < length ss. iCondSetIndex (ss ! k) = i + int k) \<Longrightarrow> renumber i ss = ss"
proof (induction ss arbitrary: i)
  case (Cons s ss)
  have "iCondSetIndex s = i" using Cons.prems by fastforce
  moreover have "renumber (i + 1) ss = ss" using Cons.prems by (intro Cons.IH) fastforce
  ultimately show ?case by simp
qed simp

lemma renumber_snoc: "renumber i (ss @ [t]) = renumber i ss @ [t\<lparr>iCondSetIndex := i + int (length ss)\<rparr>]"
  by (induction ss arbitrary: i) (simp_all add: algebra_simps)

lemma place_room:
  fixes l :: "'c cond_list" and c :: 'c
  assumes wf: "cl_wf l" and new: "ps \<noteq> NULL" "ps \<notin> set_addrs l" "pc \<notin> cond_addrs l" and room: "iCount l \<noteq> 1024"
    and order: "tail \<or> sets l = [] \<or> (\<exists>t \<in> set (sets l). ucCondCount t < 32)"
  shows "\<exists>l1 a k. cond_place tail ps l = Some (Inr (l1, a)) \<and> place_ok l pc c l1 a k \<and> room_at l l1 a k"
proof (cases "List.find (\<lambda>s. ucCondCount s < 32) (sets l)")
  case (Some s)
  obtain k where k: "place_ok l pc c l (sn_addr s) k" using place_found [OF wf Some new(3)] by blast
  have "room_at l l (sn_addr s) k" using k upd_set_position(2) [of l k "sn_addr s"] by (simp add: room_at_def place_ok_def)
  with k Some show ?thesis by (auto simp: cond_place_def)
next
  case None
  have lt: "length (sets l) < 32" using None room full_iff [OF wf] wf by (auto simp: list_size_def cl_wf_def)
  have tl: "tail \<or> sets l = []" using None order by (auto simp: find_None_iff)
  define l1 where "l1 = cond_list_update_index (l\<lparr>sets := (if tail then sets l @ [new_set ps] else new_set ps # sets l)\<rparr>)"
  have s1: "sets l1 = sets l @ [(new_set ps)\<lparr>iCondSetIndex := int (length (sets l))\<rparr>]"
    using tl wf renumber_id [of "sets l" 0] by (auto simp: l1_def cond_list_update_index_def renumber_snoc cl_wf_def new_set_def)
  obtain k where k: "place_ok l pc c l1 ps k" using place_new [OF wf lt new(2) l1_def, of pc c] by blast
  have n: "get_set l ps = None" using new(2) by (auto simp: get_set_def set_addrs_def find_None_iff)
  have kl: "k = length (sets l)"
  proof (rule ccontr)
    assume "k \<noteq> length (sets l)"
    then have "k < length (sets l)" "sn_addr (sets l ! k) = ps" using k s1 by (auto simp: place_ok_def nth_append)
    then show False using new(2) by (auto simp: set_addrs_def)
  qed
  have "room_at l l1 ps k"
    using n s1 kl by (auto simp: room_at_def get_set_def find_append l1_def cond_list_update_index_def new_set_def nth_append
        split: option.splits)
  with k None lt new(1) show ?thesis by (auto simp: cond_place_def list_size_def l1_def)
qed

lemma get_set_append: "get_cond (set_append pc c u) b = (case get_cond u b of Some n \<Rightarrow> Some n
   | None \<Rightarrow> if b = pc then Some \<lparr>cn_addr = pc, iCondIndex = (if pstCond u = [] then 0 else iCondIndex (last (pstCond u)) + 1), stCond = c\<rparr> else None)"
  by (simp add: get_cond_def set_append_def find_append split: option.split)

text \<open>What appending a condition does to the list.\<close>

lemma append_placed:
  assumes ok: "list_ok any l b" and pk: "place_ok l pc c l1 a k" and rm: "room_at l l1 a k"
    and l': "l' = cond_append a pc c l1" and p': "pCondSetNode p' = a" "pCondNode p' = pc"
  shows "list_almost any l' k"
    "\<exists>y t n. placed l' p' k y t n \<and> get_set l' a = Some t \<and> get_cond t pc = Some n \<and> stCond n = c"
    "\<not> (pCondSetNode q = a \<and> pCondNode q = pc) \<Longrightarrow> list_truth_at l' q = list_truth_at l q \<and> node_at l' q = node_at l q"
    "cl_addr l' = cl_addr l" "stCondInfo l' = stCondInfo l" "ucInitFlag l' = ucInitFlag l"
proof -
  note P = pk [unfolded place_ok_def]
  have r: "l1 = l\<lparr>sets := sets l1\<rparr>" and R: "\<And>b. b \<noteq> a \<Longrightarrow> get_set l1 b = get_set l b"
    "get_set l a = Some (sets l1 ! k) \<or> get_set l a = None \<and> pstCond (sets l1 ! k) = []"
    "\<And>i. i < length (sets l1) \<Longrightarrow> i \<noteq> k \<Longrightarrow> i < length (sets l) \<and> sets l1 ! i = sets l ! i"
    using rm unfolding room_at_def by blast+
  have k: "k < length (sets l1)" "sn_addr (sets l1 ! k) = a" "distinct (map sn_addr (sets l1))"
    "pc \<notin> cn_addr ` set (pstCond (sets l1 ! k))" using P by auto
  note ap = cond_append_ok [OF k l']
  have wf: "cl_wf l'" using P l' by simp
  let ?u = "sets l1 ! k"
  have s': "sets l' = (sets l1)[k := set_append pc c ?u]" by (rule ap(1))
  have i: "iCount l1 = iCount l" "uiCondSetTrue l1 = uiCondSetTrue l" "cl_addr l1 = cl_addr l"
    using arg_cong [OF r, of iCount] arg_cong [OF r, of uiCondSetTrue] arg_cong [OF r, of cl_addr] by simp_all
  have w: "uiCondSetTrue l' = (if iCount l = 0 then 0 else uiCondSetTrue l)"
    using l' i by (simp add: cond_append_def Let_def upd_set_def)
  have lw: "cl_wf l" "acLogic (stCondInfo l) = (if any then ''Or'' else ''And'')"
    "\<forall>x < length (sets l). bit (uiCondSetTrue l) x = junction any (cond_truths (sets l ! x))"
    using ok by (auto simp: list_ok_def)
  show "cl_addr l' = cl_addr l" using l' i by (simp add: cond_append_def Let_def upd_set_def)
  show ci: "stCondInfo l' = stCondInfo l" "ucInitFlag l' = ucInitFlag l" using ap(4,5) P by simp_all
  show "list_almost any l' k" unfolding list_almost_def
  proof (intro conjI allI impI)
    fix j assume j: "j < length (sets l')" "j \<noteq> k"
    then have "j < length (sets l)" "sets l1 ! j = sets l ! j" using R(3) s' by auto
    moreover from this have "iCount l \<noteq> 0" using wf_count [OF lw(1)] by auto
    ultimately show "bit (uiCondSetTrue l') j = junction any (cond_truths (sets l' ! j))" using lw(3) w s' j by simp
  qed (use wf ci lw(2) in simp_all)
  have d': "distinct (map sn_addr (sets l'))" using wf by (simp add: cl_wf_def)
  have ga: "get_set l' a = Some (set_append pc c ?u)"
    using upd_set_position(2) [OF d', of k a] s' k by simp
  obtain n where n: "get_cond (set_append pc c ?u) pc = Some n" "stCond n = c" using get_appended [OF k(4)] by blast
  have "\<exists>x y. placed l' p' x y (set_append pc c ?u) n" using placed_ex [OF wf, of p'] ga n(1) p' by simp
  then obtain x y where xy: "placed l' p' x y (set_append pc c ?u) n" by blast
  have "x = k"
  proof -
    have "x < length (sets l')" "sn_addr (sets l' ! x) = a" using xy p' by (auto simp: placed_def)
    then show ?thesis using d' k s' nth_eq_iff_index_eq [OF d', of x k] by simp
  qed
  then show "\<exists>y t n. placed l' p' k y t n \<and> get_set l' a = Some t \<and> get_cond t pc = Some n \<and> stCond n = c"
    using xy ga n by blast
  show "list_truth_at l' q = list_truth_at l q \<and> node_at l' q = node_at l q" if q: "\<not> (pCondSetNode q = a \<and> pCondNode q = pc)"
  proof (cases "pCondSetNode q = a")
    case False
    have "get_set l' (pCondSetNode q) = get_set (upd_set a (set_append pc c) l1) (pCondSetNode q)"
      by (simp add: l' cond_append_def Let_def get_set_def)
    also have "\<dots> = get_set l1 (pCondSetNode q)"
      using False get_addr(1) [of l1 "pCondSetNode q"]
      by (cases "get_set l1 (pCondSetNode q)") (simp_all add: get_set_upd [of "set_append pc c"])
    finally have "get_set l' (pCondSetNode q) = get_set l1 (pCondSetNode q)" .
    then show ?thesis using R(1) False by (simp add: list_truth_at_def node_at_def)
  next
    case True
    then have b: "pCondNode q \<noteq> pc" using q by simp
    have g: "get_cond (set_append pc c ?u) (pCondNode q) = get_cond ?u (pCondNode q)"
      using b by (simp add: get_set_append split: option.split)
    have t: "uiCondTrue (set_append pc c ?u) = uiCondTrue ?u" by (simp add: set_append_def)
    consider "get_set l a = Some ?u" | "get_set l a = None" "pstCond ?u = []" using R(2) by auto
    then show ?thesis
      by cases (simp_all add: list_truth_at_def node_at_def True ga g t, simp_all add: get_cond_def)
  qed
qed

section \<open>Adding a condition to a scene\<close>

text \<open>The scene has one more condition, with the given truth; all others and their truth are as before.\<close>

definition cond_added :: "'c list_get \<Rightarrow> 'd list_get \<Rightarrow> ptr_info \<Rightarrow> 'c \<Rightarrow> bool \<Rightarrow> scene_info \<Rightarrow> scene_info \<Rightarrow> bool" where
  "cond_added fget oget p c b s s' \<longleftrightarrow> scene_ok s' \<and> same_static s s' \<and>
     cond_at fget p s' = Some c \<and> cond_truth fget p s' = Some b \<and>
     (\<forall>q. \<not> same_cond q p \<longrightarrow> cond_truth fget q s' = cond_truth fget q s \<and> cond_at fget q s' = cond_at fget q s) \<and>
     (\<forall>q. cond_truth oget q s' = cond_truth oget q s \<and> cond_at oget q s' = cond_at oget q s)"

lemma cond_at_alt: "cond_at fget p s = find_list fget s (pstCondList p) \<bind> (\<lambda>l. node_at l p)"
  by (simp add: cond_at_def node_at_def)

definition any_of :: "logic \<Rightarrow> bool" where
  "any_of lg = (lg = Or_Logic)"

context cond_kind
begin

lemma logic_list:
  assumes "scene_ok s" "l = fget (get_logic lg s)"
  shows "find_list fget s (cl_addr l) = Some l" "any_of lg \<longleftrightarrow> cl_addr (fget (stOrCond s)) = cl_addr l"
    "list_ok (any_of lg) l (bit (ucCondListTrue (get_logic lg s)) k)"
    "upd_logic lg (fupd (\<lambda>_. l')) s = put_list fget fupd (cl_addr l) l' s"
  using assms by (cases lg; auto simp: addr_kind logic_ok_kind find_list_def get_logic_def upd_logic_def put_list_def any_of_def)+

lemma added_truth:
  assumes ok: "scene_ok s" and l0: "find_list fget s (pstCondList p) = Some l0" "any \<longleftrightarrow> cl_addr (fget (stOrCond s)) = pstCondList p"
    and l: "cl_addr l = pstCondList p" "list_almost any l x" "placed l p x y t n"
      "get_set l (pCondSetNode p) = Some t" "get_cond t (pCondNode p) = Some n"
    and old: "\<And>q. \<not> (pCondSetNode q = pCondSetNode p \<and> pCondNode q = pCondNode p) \<Longrightarrow>
      list_truth_at l q = list_truth_at l0 q \<and> node_at l q = node_at l0 q"
  shows "\<exists>s'. cond_true_init fget fupd k b p (put_list fget fupd (pstCondList p) l s) = Some s' \<and>
    cond_added fget oget p (stCond n) b s s'"
proof -
  obtain w w2 where r: "\<And>i. i < 32 \<Longrightarrow> bit w i \<longleftrightarrow> (if i = y then b else bit (uiCondTrue t) i)"
    "list_ok any (list_after l x w w2) (list_spec any (list_after l x w w2))"
    "cond_true_init fget fupd k b p (put_list fget fupd (pstCondList p) l s) =
      Some (finish fget fupd k (pstCondList p) (list_after l x w w2) (list_spec any (list_after l x w w2)) s)"
    by (rule init_result_new [OF l0(1) l(1,4,5,3,2)]) blast
  let ?l = "list_after l x w w2" and ?s = "finish fget fupd k (pstCondList p) (list_after l x w w2) (list_spec any (list_after l x w w2)) s"
  have a: "cl_addr ?l = pstCondList p" using l(1) by (simp add: list_after_def)
  note ff = find_finish [OF ok l0(1) a]
  have wf: "cl_wf l" using l(2) by (simp add: list_almost_def)
  note lt = list_after_truths [OF wf l(3,4,5) r(1), of w2, folded node_at_def]
  have "scene_ok ?s" using finish_ok [OF ok l0(1) a] r(2) l0(2) by simp
  moreover have "cond_at fget p ?s = Some (stCond n)" "cond_truth fget p ?s = Some b"
    using l(4,5) lt by (simp_all add: cond_at_alt cond_truth_alt ff) (simp add: node_at_def)
  moreover have "cond_truth fget q ?s = cond_truth fget q s \<and> cond_at fget q ?s = cond_at fget q s" if "\<not> same_cond q p" for q
    using that old [of q] lt l0(1) by (auto simp: cond_at_alt cond_truth_alt ff same_cond_def)
  moreover have "cond_truth oget q ?s = cond_truth oget q s" "cond_at oget q ?s = cond_at oget q s" for q
    by (simp_all add: cond_truth_alt cond_at_alt ff)
  ultimately have "cond_added fget oget p (stCond n) b s ?s" by (simp add: cond_added_def finish_static)
  with r(3) show ?thesis by blast
qed

text \<open>The room a list must have for a new condition.\<close>

lemma add_truth:
  assumes ok: "scene_ok s" and l: "l = fget (get_logic lg s)"
    and new: "ps \<noteq> NULL" "pc \<noteq> NULL" "ps \<notin> set_addrs l" "pc \<notin> cond_addrs l" and room: "iCount l \<noteq> 1024"
    and order: "tail \<or> sets l = [] \<or> (\<exists>t \<in> set (sets l). ucCondCount t < 32)"
  shows "\<exists>l' p. cond_add_gen tail add_db ps pc l c zero_ptr = Some (fst (add_db l' c), l', p, snd (add_db l' c)) \<and>
    stCondInfo l' = stCondInfo l \<and> ucInitFlag l' = ucInitFlag l \<and>
    (\<forall>i a b. \<exists>s'. cond_true_init fget fupd k b (p\<lparr>acId := i, pstScene := a\<rparr>) (upd_logic lg (fupd (\<lambda>_. l')) s) = Some s' \<and>
      cond_added fget oget (p\<lparr>acId := i, pstScene := a\<rparr>) c b s s')"
proof -
  note g = logic_list [OF ok l]
  have wf: "cl_wf l" using g(3) by (simp add: list_ok_def)
  obtain l1 a k' where c: "cond_place tail ps l = Some (Inr (l1, a))" "place_ok l pc c l1 a k'" "room_at l l1 a k'"
    using place_room [OF wf new(1,3,4) room order, of c] by blast
  define l' p where "l' = cond_append a pc c l1" and "p = zero_ptr\<lparr>pstCondList := cl_addr l, pCondSetNode := a, pCondNode := pc\<rparr>"
  have p: "pCondSetNode p = a" "pCondNode p = pc" "pstCondList p = cl_addr l" by (simp_all add: p_def)
  note ap = append_placed [OF g(3) c(2,3) l'_def p(1,2)]
  obtain y t n where pl: "placed l' p k' y t n" "get_set l' a = Some t" "get_cond t pc = Some n" "stCond n = c" using ap(2) by blast
  have "\<exists>s'. cond_true_init fget fupd k b (p\<lparr>acId := i, pstScene := z\<rparr>) (upd_logic lg (fupd (\<lambda>_. l')) s) = Some s' \<and>
      cond_added fget oget (p\<lparr>acId := i, pstScene := z\<rparr>) c b s s'" for i z b
    using added_truth [of s "p\<lparr>acId := i, pstScene := z\<rparr>" l "any_of lg" l' k' y t n b] ok g ap pl p
    by (simp add: placed_def)
  moreover have "cond_add_gen tail add_db ps pc l c zero_ptr = Some (fst (add_db l' c), l', p, snd (add_db l' c))"
    using c(1) new(2) by (simp add: cond_add_gen_def case_prod_unfold Let_def l'_def p_def)
  ultimately show ?thesis using ap(5,6) by blast
qed

end

text \<open>A list without its truth bits. Setting truths does not change it.\<close>

definition bare_list :: "'c cond_list \<Rightarrow> 'c cond_list" where
  "bare_list l = l\<lparr>uiCondSetTrue := 0, sets := map (\<lambda>t. t\<lparr>uiCondTrue := 0\<rparr>) (sets l)\<rparr>"

lemma bare_upd:
  "bare_list (upd_set a (\<lambda>t. t\<lparr>uiCondTrue := w\<rparr>) l) = bare_list l" "bare_list (l\<lparr>uiCondSetTrue := v\<rparr>) = bare_list l"
  by (auto simp: bare_list_def upd_set_def)

lemma bare_fields:
  "cl_addr (bare_list l) = cl_addr l" "stCondInfo (bare_list l) = stCondInfo l" "ucInitFlag (bare_list l) = ucInitFlag l" "iCount (bare_list l) = iCount l"
  "conds_of (bare_list l) = conds_of l" "set_addrs (bare_list l) = set_addrs l" "cond_addrs (bare_list l) = cond_addrs l" "length (sets (bare_list l)) = length (sets l)"
  by (simp_all add: bare_list_def conds_of_def set_addrs_def cond_addrs_def image_image comp_def)

text \<open>A list with one more condition.\<close>

definition list_grown :: "ptr \<Rightarrow> ptr \<Rightarrow> 'c \<Rightarrow> 'c cond_list \<Rightarrow> 'c cond_list \<Rightarrow> bool" where
  "list_grown ps pc c l l' \<longleftrightarrow> cl_addr l' = cl_addr l \<and> stCondInfo l' = stCondInfo l \<and> ucInitFlag l' = ucInitFlag l \<and> iCount l' = iCount l + 1 \<and>
     mset (conds_of l') = add_mset c (mset (conds_of l)) \<and> set_addrs l' \<subseteq> insert ps (set_addrs l) \<and> cond_addrs l' \<subseteq> insert pc (cond_addrs l)"

lemma list_grown_bare: "bare_list l2 = bare_list l1 \<Longrightarrow> list_grown ps pc c l l2 = list_grown ps pc c l l1"
  using bare_fields [of l1] bare_fields [of l2] by (simp add: list_grown_def)

lemma renumber_addrs: "sn_addr ` set (renumber i ss) = sn_addr ` set ss" "(\<Union>t \<in> set (renumber i ss). cn_addr ` set (pstCond t)) = (\<Union>t \<in> set ss. cn_addr ` set (pstCond t))"
  by (induction i ss rule: renumber.induct) simp_all

lemma update_index_addrs:
  "set_addrs (cond_list_update_index l) = set_addrs l" "cond_addrs (cond_list_update_index l) = cond_addrs l"
  "set_addrs (l\<lparr>sets := xs\<rparr>) = sn_addr ` set xs" "cond_addrs (l\<lparr>sets := xs\<rparr>) = (\<Union>t \<in> set xs. cn_addr ` set (pstCond t))"
  by (simp_all add: set_addrs_def cond_addrs_def cond_list_update_index_def renumber_addrs)

lemma append_addrs:
  "set_addrs (cond_append a pc c l) \<subseteq> set_addrs l" "cond_addrs (cond_append a pc c l) \<subseteq> insert pc (cond_addrs l)"
  "iCount (cond_append a pc c l) = iCount l + 1" "cl_addr (cond_append a pc c l) = cl_addr l"
  by (auto simp: set_addrs_def cond_addrs_def cond_append_def upd_set_def set_append_def Let_def image_image split: if_splits)

lemma place_addrs:
  assumes "cond_place tail ps l = Some (Inr (l1, a))"
  shows "set_addrs l1 \<subseteq> insert ps (set_addrs l)" "cond_addrs l1 = cond_addrs l" "iCount l1 = iCount l" "cl_addr l1 = cl_addr l"
proof -
  consider "l1 = l" | "l1 = cond_list_update_index (l\<lparr>sets := (if tail then sets l @ [new_set ps] else new_set ps # sets l)\<rparr>)"
    using assms by (auto simp: cond_place_def split: option.splits if_splits)
  then have "set_addrs l1 \<subseteq> insert ps (set_addrs l) \<and> cond_addrs l1 = cond_addrs l \<and> iCount l1 = iCount l \<and> cl_addr l1 = cl_addr l"
  proof cases
    case 2
    then show ?thesis unfolding 2 update_index_addrs by (auto simp: new_set_def set_addrs_def cond_addrs_def cond_list_update_index_def)
  qed blast
  then show "set_addrs l1 \<subseteq> insert ps (set_addrs l)" "cond_addrs l1 = cond_addrs l" "iCount l1 = iCount l" "cl_addr l1 = cl_addr l" by blast+
qed

lemma add_grown:
  assumes "cl_wf l" "ps \<noteq> NULL" "pc \<noteq> NULL" "ps \<notin> set_addrs l" "pc \<notin> cond_addrs l" "iCount l \<noteq> 1024" "cond_add_gen tail add_db ps pc l c p = Some (r, l', p', calls)"
  shows "list_grown ps pc c l l'" "pstCondList p' = cl_addr l" "pCondNode p' = pc"
proof -
  obtain l2 p2 where o: "cond_add_gen tail add_db ps pc l c p = Some (fst (add_db l2 c), l2, p2, snd (add_db l2 c))"
    "mset (conds_of l2) = add_mset c (mset (conds_of l))" "stCondInfo l2 = stCondInfo l" "ucInitFlag l2 = ucInitFlag l"
    using cond_add_outcome [OF assms(1-5), of tail add_db c p] assms(6) by auto
  then have "mset (conds_of l') = add_mset c (mset (conds_of l))" "stCondInfo l' = stCondInfo l" "ucInitFlag l' = ucInitFlag l" using assms(7) by simp_all
  moreover obtain x where x: "cond_place tail ps l = Some x" using assms(7) by (auto simp: cond_add_gen_def split: Option.bind_splits)
  moreover obtain l1 a where y: "x = Inr (l1, a)"
  proof (cases x)
    case (Inl e)
    then have "l' = l" using assms(7) x by (simp add: cond_add_gen_def)
    with calculation(1) show ?thesis by simp
  qed (use that in auto)
  moreover have "l' = cond_append a pc c l1" "pstCondList p' = cl_addr l" "pCondNode p' = pc"
    using assms(3,7) x y by (auto simp: cond_add_gen_def Let_def case_prod_unfold)
  ultimately show "list_grown ps pc c l l'" "pstCondList p' = cl_addr l" "pCondNode p' = pc"
    using append_addrs [of a pc c l1] place_addrs [of tail ps l l1 a] by (auto simp: list_grown_def)
qed

context cond_kind
begin

lemma put_list_content:
  assumes "find_list fget s a = Some l0" "bare_list l = bare_list l0"
  shows "bare_list (fget (get_logic lg (put_list fget fupd a l s))) = bare_list (fget (get_logic lg s))" "oget (get_logic lg (put_list fget fupd a l s)) = oget (get_logic lg s)"
  using assms by (auto simp: find_list_def put_list_def get_logic_def kind_simps split: if_splits logic.splits)

lemma put_true_content:
  "fget (get_logic lg (put_list_true l k b s)) = fget (get_logic lg s)" "oget (get_logic lg (put_list_true l k b s)) = oget (get_logic lg s)"
  "get_logic lg (s\<lparr>ucSceneCondTrue := v\<rparr>) = get_logic lg s"
  by (auto simp: put_list_true_def get_logic_def kind_simps split: logic.splits)

lemma set_init_content:
  assumes "cond_set_true_init fget fupd k b p s = Some s'"
  shows "bare_list (fget (get_logic lg s')) = bare_list (fget (get_logic lg s)) \<and> oget (get_logic lg s') = oget (get_logic lg s)"
  using assms put_list_content [of s "pstCondList p"]
  by (auto simp: cond_set_true_init_def Let_def put_true_content bare_upd split: Option.bind_splits)

lemma init_content:
  assumes "cond_true_init fget fupd k b p s = Some s'"
  shows "bare_list (fget (get_logic lg s')) = bare_list (fget (get_logic lg s)) \<and> oget (get_logic lg s') = oget (get_logic lg s)"
  using assms put_list_content [of s "pstCondList p"] set_init_content
  by (fastforce simp: cond_true_init_def Let_def bare_upd split: Option.bind_splits)

end

text \<open>The index has no record of a scene under a key.\<close>

definition index_free :: "ptr_hash_table \<Rightarrow> string \<Rightarrow> string \<Rightarrow> bool" where
  "index_free t key ident \<longleftrightarrow> ptr_hash_find t (Some key) (Some ident) = Some None"

text \<open>All allocations succeed, with addresses that are not in use.\<close>

definition mem_ok :: "cond_mem \<Rightarrow> 'c cond_list \<Rightarrow> ptr_hash_table \<Rightarrow> bool" where
  "mem_ok mem l t \<longleftrightarrow> (case mem of (m, ps, pc, al, head) \<Rightarrow> m \<and> ps \<noteq> NULL \<and> pc \<noteq> NULL \<and> ps \<notin> set_addrs l \<and> pc \<notin> cond_addrs l \<and>
     (\<forall>i. al i) \<and> head \<noteq> NULL \<and> chain_of t head = None)"

definition index_put :: "string \<Rightarrow> ptr_info \<Rightarrow> ptr_hash_table \<Rightarrow> ptr_hash_table \<Rightarrow> bool" where
  "index_put key p t t' \<longleftrightarrow> ph_inv t' \<and> nodes t' = (nodes t)(key := p # nodes t key)"

text \<open>The scene list after an operation on one scene.\<close>

definition one_scene :: "ptr \<Rightarrow> scene_info \<Rightarrow> scene_list \<Rightarrow> scene_list \<Rightarrow> bool" where
  "one_scene a s' L L' \<longleftrightarrow> L' = (put_scene a s' L)\<lparr>pHashTable := pHashTable L'\<rparr>"

lemma one_scene_parts:
  assumes "one_scene a s' L L'"
  shows "scenes L' = scenes (put_scene a s' L)" "pstExecQueue L' = pstExecQueue L"
  using arg_cong [OF assms [unfolded one_scene_def], of scenes] arg_cong [OF assms [unfolded one_scene_def], of pstExecQueue]
  by (simp_all add: put_scene_def)

lemma one_scene_get: "get_scene L a \<noteq> None \<Longrightarrow> one_scene a s' L L' \<Longrightarrow>
    get_scene L' a = Some s' \<and> (\<forall>b. b \<noteq> a \<longrightarrow> get_scene L' b = get_scene L b)"
proof -
  assume a: "get_scene L a \<noteq> None" "one_scene a s' L L'"
  then have "scenes L' = scenes (put_scene a s' L)" by (intro one_scene_parts)
  then have "get_scene L' b = get_scene (put_scene a s' L) b" for b by (simp add: get_scene_def)
  with a(1) show ?thesis by (simp add: get_put_scene)
qed

lemma one_scene_ok: "scenes_ok L \<Longrightarrow> scene_ok s' \<Longrightarrow> one_scene a s' L L' \<Longrightarrow> scenes_ok L'"
proof -
  assume a: "scenes_ok L" "scene_ok s'" "one_scene a s' L L'"
  then have "scenes L' = scenes (put_scene a s' L)" by (intro one_scene_parts)
  with put_scene_ok [OF a(1,2), of a] show ?thesis by (simp add: scenes_ok_def)
qed

lemma key_fits_all: "key_fits (time_key c)" "key_fits (event_key e)" "key_fits (panel_key pn)"
  using length_snprintf [of KEY_MAX_LEN]
  by (simp_all add: key_fits_def time_key_def event_key_def panel_key_def HASH_KEY_MAX_LEN_def KEY_MAX_LEN_def)

lemma put_put_scene: "put_scene a s (put_scene a s' L) = put_scene a s L"
  by (simp add: put_scene_def case_prod_unfold if_distrib [of fst] if_distrib [of snd] cong: if_cong)

lemma put_scene_table: "put_scene a s (L\<lparr>pHashTable := t\<rparr>) = (put_scene a s L)\<lparr>pHashTable := t\<rparr>"
  by (simp add: put_scene_def)

text \<open>Where the new condition is: in the list of its logic, the content of the other lists stays, and the index uses at most one
  new chain.\<close>

definition cond_stored :: "'c list_get \<Rightarrow> 'd list_get \<Rightarrow> logic \<Rightarrow> cond_mem \<Rightarrow> 'c \<Rightarrow> ptr_info \<Rightarrow> scene_info \<Rightarrow> scene_info \<Rightarrow> ptr_hash_table \<Rightarrow> ptr_hash_table \<Rightarrow> bool" where
  "cond_stored fget oget lg mem c p s s' t t' \<longleftrightarrow> (case mem of (m, ps, pc, al, head) \<Rightarrow>
     pstCondList p = cl_addr (fget (get_logic lg s)) \<and> pCondNode p = pc \<and> list_grown ps pc c (fget (get_logic lg s)) (fget (get_logic lg s')) \<and>
     (\<forall>lg2. lg2 \<noteq> lg \<longrightarrow> bare_list (fget (get_logic lg2 s')) = bare_list (fget (get_logic lg2 s))) \<and>
     (\<forall>lg2. oget (get_logic lg2 s') = oget (get_logic lg2 s)) \<and> dom (chain_of t') \<subseteq> insert head (dom (chain_of t)))"

lemma inst_chains: "ptr_hash_inst al head t key val = Some (r, t') \<Longrightarrow> dom (chain_of t') \<subseteq> insert head (dom (chain_of t))"
  by (auto simp: ptr_hash_inst_def Let_def split: option.splits if_splits Option.bind_splits)

context cond_kind
begin

lemma logic_upd:
  "fget (get_logic lg2 (upd_logic lg (fupd (\<lambda>_. l')) s)) = (if lg2 = lg then l' else fget (get_logic lg2 s))"
  "oget (get_logic lg2 (upd_logic lg (fupd (\<lambda>_. l')) s)) = oget (get_logic lg2 s)"
  by (cases lg; cases lg2; simp add: upd_logic_def get_logic_def kind_simps)+

lemma insert_truth_result:
  assumes ok: "scene_ok s" and s: "get_scene L a = Some s" and l: "l = fget (get_logic lg s)" and inv: "ph_inv (pHashTable L)"
    and mem: "mem_ok (m, ps, pc, al, head) l (pHashTable L)" and room: "iCount l \<noteq> 1024" and key: "key_fits key"
    and order: "tail \<or> sets l = [] \<or> (\<exists>t \<in> set (sets l). ucCondCount t < 32)"
    and db: "\<And>l'. stCondInfo l' = stCondInfo l \<Longrightarrow> ucInitFlag l' = ucInitFlag l \<Longrightarrow> add_db l' c = (NoErr, calls)"
  shows "\<exists>L1 p. cond_insert fget fupd lg (cond_add_gen tail add_db ps pc) al head key a s c L = Some (NoErr, L1, p, calls) \<and>
    pstScene p = a \<and> acId p = strncpy (acSceneId s) INDEX_MAX_LEN \<and> pScenePanelNode p = NULL \<and>
    (\<exists>l'. one_scene a (upd_logic lg (fupd (\<lambda>_. l')) s) L L1 \<and> iCount l' = iCount l + 1) \<and> index_put key p (pHashTable L) (pHashTable L1) \<and>
    (\<forall>b. \<exists>s' L2. put_truth (cond_true_init fget fupd k) b p L1 = Some L2 \<and> one_scene a s' L L2 \<and> pHashTable L2 = pHashTable L1 \<and>
      cond_added fget oget p c b s s' \<and> cond_stored fget oget lg (m, ps, pc, al, head) c p s s' (pHashTable L) (pHashTable L1))"
proof -
  have M: "ps \<noteq> NULL" "pc \<noteq> NULL" "ps \<notin> set_addrs l" "pc \<notin> cond_addrs l" "\<forall>i. al i" "head \<noteq> NULL" "chain_of (pHashTable L) head = None"
    using mem by (auto simp: mem_ok_def)
  obtain l' p0 where A: "cond_add_gen tail add_db ps pc l c zero_ptr = Some (fst (add_db l' c), l', p0, snd (add_db l' c))"
    "stCondInfo l' = stCondInfo l" "ucInitFlag l' = ucInitFlag l"
    "\<And>i z b. \<exists>s'. cond_true_init fget fupd k b (p0\<lparr>acId := i, pstScene := z\<rparr>) (upd_logic lg (fupd (\<lambda>_. l')) s) = Some s' \<and>
      cond_added fget oget (p0\<lparr>acId := i, pstScene := z\<rparr>) c b s s'"
    using add_truth [OF ok l M(1-4) room order, of add_db c] by blast
  define p where "p = p0\<lparr>acId := strncpy (acSceneId s) INDEX_MAX_LEN, pstScene := a\<rparr>"
  define s1 where "s1 = upd_logic lg (fupd (\<lambda>_. l')) s"
  obtain t where t: "ptr_hash_inst al head (pHashTable L) (Some key) (Some p) = Some (NoErr, t)" "ph_inv t"
    "nodes t = (nodes (pHashTable L))(key := p # nodes (pHashTable L) key)"
    using ptr_hash_inst_refines [OF inv key M(6,7,5), of p] by blast
  define L1 where "L1 = (put_scene a s1 L)\<lparr>pHashTable := t\<rparr>"
  have e: "cond_insert fget fupd lg (cond_add_gen tail add_db ps pc) al head key a s c L = Some (NoErr, L1, p, calls)"
    using A(1) db [OF A(2,3)] t(1) l by (simp add: cond_insert_def p_def s1_def L1_def NoErr_def)
  have z: "pScenePanelNode p0 = NULL" "iCount l' = iCount l + 1"
    using A(1) db [OF A(2,3)] by (auto simp: status_defs cond_add_gen_def cond_place_def zero_ptr_def cond_append_def upd_set_def cond_list_update_index_def Let_def case_prod_unfold
        split: Option.bind_splits option.splits sum.splits if_splits)
  have g1: "get_scene L1 a = Some s1" using s get_put_scene [of a s1 L a] by (simp add: L1_def get_scene_def)
  have wf: "cl_wf l" using logic_list(3) [OF ok l] by (simp add: list_ok_def)
  note gr = add_grown [OF wf M(1-4) room A(1)]
  have tr: "\<exists>s' L2. put_truth (cond_true_init fget fupd k) b p L1 = Some L2 \<and> one_scene a s' L L2 \<and> pHashTable L2 = pHashTable L1 \<and>
      cond_added fget oget p c b s s' \<and> cond_stored fget oget lg (m, ps, pc, al, head) c p s s' (pHashTable L) (pHashTable L1)" for b
  proof -
    obtain s' where s': "cond_true_init fget fupd k b p s1 = Some s'" "cond_added fget oget p c b s s'" using A(4) unfolding p_def s1_def by blast
    have "put_scene a s' L1 = (put_scene a s' L)\<lparr>pHashTable := t\<rparr>"
      by (simp add: L1_def put_scene_table put_put_scene)
    moreover note cn = init_content [OF s'(1)]
    have "list_grown ps pc c l (fget (get_logic lg s'))" using gr(1) list_grown_bare [of "fget (get_logic lg s')" l'] cn [of lg] by (simp add: s1_def logic_upd)
    then have "cond_stored fget oget lg (m, ps, pc, al, head) c p s s' (pHashTable L) (pHashTable L1)"
      using cn gr(2,3) inst_chains [OF t(1)] l by (simp add: cond_stored_def p_def s1_def logic_upd L1_def)
    ultimately show ?thesis using g1 s' by (auto simp: put_truth_def one_scene_def L1_def p_def)
  qed
  have "one_scene a s1 L L1" "index_put key p (pHashTable L) (pHashTable L1)" using t by (simp_all add: one_scene_def L1_def index_put_def)
  with e tr z show ?thesis by (auto simp: p_def s1_def)
qed

end

section \<open>Properties of adding a condition\<close>

lemma add_db_same:
  "stCondInfo l' = stCondInfo l \<Longrightarrow> ucInitFlag l' = ucInitFlag l \<Longrightarrow> time_cond_add_db db l' c = time_cond_add_db db l c"
  "stCondInfo l2 = stCondInfo l1 \<Longrightarrow> ucInitFlag l2 = ucInitFlag l1 \<Longrightarrow> event_cond_add_db db l2 e = event_cond_add_db db l1 e"
  by (simp_all add: time_cond_add_db_def event_cond_add_db_def db_send_def cond_where_def)

lemma example_table:
  obtains t where "new_ptr_hash_table True (\<lambda>i. True) = Some t" "ph_inv t" "nodes t = (\<lambda>k. [])" "chain_of t = Map.empty"
proof -
  obtain t where t: "new_ptr_hash_table True (\<lambda>i. True) = Some t"
    by (simp add: new_ptr_hash_table_def new_hash_table_def Let_def)
  with new_ptr_hash_inv [OF t] that show thesis by blast
qed

text \<open>A data base that accepts every statement, and a table with one record.\<close>

lemma db_send_accepted: "\<exists>calls. db_send (\<lambda>q. NoErr) l st err = (NoErr, calls)"
  by (simp add: db_send_def db_write_def)

lemma db_answers:
  "\<exists>calls. time_cond_add_db (\<lambda>q. NoErr) l c = (NoErr, calls)" "\<exists>calls. event_cond_add_db (\<lambda>q. NoErr) l' e = (NoErr, calls)"
  "\<exists>calls. time_cond_del_db (\<lambda>q. NoErr) l c = (NoErr, calls)" "\<exists>calls. event_cond_del_db (\<lambda>q. NoErr) l' e = (NoErr, calls)"
  by (simp_all only: time_cond_add_db_def event_cond_add_db_def time_cond_del_db_def event_cond_del_db_def db_send_accepted)

lemma example_table_with:
  assumes "key_fits key" "acId p = ident" "length ident < INDEX_MAX_LEN"
  obtains t where "ph_inv t" "nodes t = (\<lambda>k. [])(key := [p])" "ptr_hash_find t (Some key) (Some ident) = Some (Some p)" "chain_of t 90 = None"
proof -
  obtain t0 where t0: "ph_inv t0" "nodes t0 = (\<lambda>k. [])" "chain_of t0 = Map.empty" by (rule example_table)
  obtain t where t: "ptr_hash_inst (\<lambda>i. True) 91 t0 (Some key) (Some p) = Some (NoErr, t)" "ph_inv t" "nodes t = (nodes t0)(key := p # nodes t0 key)"
    using ptr_hash_inst_refines [OF t0(1) assms(1), of 91 "\<lambda>i. True" p] t0(3) by auto
  have "chain_of t 90 = None" using t(1) t0(3) by (auto simp: ptr_hash_inst_def Let_def split: if_splits Option.bind_splits)
  moreover have "ptr_hash_find t (Some key) (Some ident) = Some (Some p)"
    using ptr_hash_find_refines [OF t(2), of key ident] t(3) t0(2) assms(2) by (simp add: strncmp_eq_0)
  ultimately show thesis using that [of t] t(2,3) t0(2) by simp
qed

lemma empty_index_free: "ph_inv t \<Longrightarrow> nodes t key = [] \<Longrightarrow> index_free t key ident"
  by (simp add: index_free_def ptr_hash_find_refines)

lemma time_cond_added:
  assumes "scenes_ok L" "get_scene L a = Some s" "ph_inv (pHashTable L)" "index_free (pHashTable L) (time_key c) (acSceneId s)"
    "mem_ok mem (pstTimeCondList (get_logic lg s)) (pHashTable L)" "iCount (pstTimeCondList (get_logic lg s)) \<noteq> 1024"
    "time_cond_add_db db (pstTimeCondList (get_logic lg s)) c = (NoErr, calls)"
  shows "\<exists>L' p s'. (case lg of Or_Logic \<Rightarrow> scene_time_or_cond_add | And_Logic \<Rightarrow> scene_time_and_cond_add) mem db a c L = Some (NoErr, L', calls) \<and>
    scenes_ok L' \<and> get_scene L' a = Some s' \<and> cond_added pstTimeCondList pstEventCondList p c False s s' \<and>
    cond_stored pstTimeCondList pstEventCondList lg mem c p s s' (pHashTable L) (pHashTable L') \<and> one_scene a s' L L' \<and>
    (\<forall>b. b \<noteq> a \<longrightarrow> get_scene L' b = get_scene L b) \<and> pstScene p = a \<and> index_put (time_key c) p (pHashTable L) (pHashTable L')"
proof -
  obtain m ps pc al head where mem: "mem = (m, ps, pc, al, head)" by (metis prod.exhaust)
  have m: m using assms(5) mem by (simp add: mem_ok_def)
  have ok: "scene_ok s" by (rule get_scene_ok [OF assms(1,2)])
  have db: "time_cond_add_db db l' c = (NoErr, calls)" if "stCondInfo l' = stCondInfo (pstTimeCondList (get_logic lg s))"
    "ucInitFlag l' = ucInitFlag (pstTimeCondList (get_logic lg s))" for l'
    using add_db_same(1) [OF that] assms(7) by simp
  obtain L1 p where r: "cond_insert pstTimeCondList pstTimeCondList_update lg (cond_add_gen True (time_cond_add_db db) ps pc) al head (time_key c) a s c L
      = Some (NoErr, L1, p, calls)" "pstScene p = a" "index_put (time_key c) p (pHashTable L) (pHashTable L1)"
    "\<And>b. \<exists>s' L2. put_truth (cond_true_init pstTimeCondList pstTimeCondList_update 0) b p L1 = Some L2 \<and> one_scene a s' L L2 \<and>
      pHashTable L2 = pHashTable L1 \<and> cond_added pstTimeCondList pstEventCondList p c b s s' \<and>
      cond_stored pstTimeCondList pstEventCondList lg (m, ps, pc, al, head) c p s s' (pHashTable L) (pHashTable L1)"
    using time_kind.insert_truth_result [where tail = True and add_db = "time_cond_add_db db" and c = c, OF ok assms(2) refl assms(3) assms(5) [unfolded mem] assms(6) key_fits_all(1) disjI1 [OF TrueI] db] by blast
  then obtain s' L2 where t: "put_truth scene_time_cond_true_init False p L1 = Some L2" "one_scene a s' L L2"
    "pHashTable L2 = pHashTable L1" "cond_added pstTimeCondList pstEventCondList p c False s s'"
    "cond_stored pstTimeCondList pstEventCondList lg mem c p s s' (pHashTable L) (pHashTable L1)" unfolding time_funs mem by blast
  have "time_cond_add_scene mem db lg a c L = Some (NoErr, L2, calls)"
    using r(1) t(1) assms(2,4) mem m by (simp add: time_cond_add_scene_def time_cond_put_def index_free_def time_cond_add_def [abs_def])
  moreover have "scenes_ok L2" using one_scene_ok [OF assms(1) _ t(2)] t(4) by (simp add: cond_added_def)
  moreover have "(case lg of Or_Logic \<Rightarrow> scene_time_or_cond_add | And_Logic \<Rightarrow> scene_time_and_cond_add) mem db a c L = time_cond_add_scene mem db lg a c L"
    by (simp add: scene_time_or_cond_add_def scene_time_and_cond_add_def split: logic.split)
  moreover have "get_scene L2 a = Some s' \<and> (\<forall>b. b \<noteq> a \<longrightarrow> get_scene L2 b = get_scene L b)"
    using one_scene_get [OF _ t(2)] assms(2) by simp
  ultimately show ?thesis using t(2-5) r(2,3) by metis
qed

text \<open>C16. Adding a time condition that the scene does not have yet, to either list: it is stored and starts out
  false, the data base gets one insertion, the index gets one record, which leads to the condition, and
  nothing else changes: not the truth or the data of any other condition, no other scene, and the cached
  truth of the scene stays what its conditions mean.\<close>

theorem scene_time_cond_add_correct:
  assumes "scenes_ok L" "get_scene L a = Some s" "ph_inv (pHashTable L)" "index_free (pHashTable L) (time_key c) (acSceneId s)"
    "mem_ok mem (pstTimeCondList (get_logic lg s)) (pHashTable L)" "iCount (pstTimeCondList (get_logic lg s)) \<noteq> 1024"
    "time_cond_add_db db (pstTimeCondList (get_logic lg s)) c = (NoErr, calls)"
  shows "\<exists>L' p s'. (case lg of Or_Logic \<Rightarrow> scene_time_or_cond_add | And_Logic \<Rightarrow> scene_time_and_cond_add) mem db a c L = Some (NoErr, L', calls) \<and>
    scenes_ok L' \<and> get_scene L' a = Some s' \<and> cond_added pstTimeCondList pstEventCondList p c False s s' \<and>
    (\<forall>b. b \<noteq> a \<longrightarrow> get_scene L' b = get_scene L b) \<and> pstScene p = a \<and> index_put (time_key c) p (pHashTable L) (pHashTable L')"
  using time_cond_added [OF assms] by blast

theorem scene_time_cond_add_correct_witness:
  "\<exists>t L' calls s' p. new_ptr_hash_table True (\<lambda>i. True) = Some t \<and>
     scene_time_or_cond_add (True, 20, 21, \<lambda>i. True, 22) (\<lambda>q. NoErr) 1 time_example ((scenes_example scene_example)\<lparr>pHashTable := t\<rparr>) = Some (NoErr, L', calls) \<and>
     get_scene L' 1 = Some s' \<and> scene_ok s' \<and> cond_at pstTimeCondList p s' = Some time_example"
proof -
  obtain t where t: "new_ptr_hash_table True (\<lambda>i. True) = Some t" "ph_inv t" "nodes t = (\<lambda>k. [])" "chain_of t = Map.empty" by (rule example_table)
  let ?L = "(scenes_example scene_example)\<lparr>pHashTable := t\<rparr>" and ?l = "pstTimeCondList (get_logic Or_Logic scene_example)"
  have L: "scenes_ok ?L" using scenes_example_ok [OF scene_example_ok] by (simp add: scenes_ok_def)
  have g: "get_scene ?L 1 = Some scene_example" by (simp add: get_scene_def scenes_example_def)
  have l: "?l = empty_list 6 ''Or'' ''Time''" by (simp add: get_logic_def scene_example_def)
  have m: "mem_ok (True, 20, 21, \<lambda>i. True, 22) ?l (pHashTable ?L)"
    unfolding l by (simp add: mem_ok_def set_addrs_def cond_addrs_def empty_list_def t(4))
  have i: "index_free (pHashTable ?L) (time_key time_example) (acSceneId scene_example)" using empty_index_free t(2,3) by simp
  have c: "iCount ?l \<noteq> 1024" unfolding l by (simp add: empty_list_def)
  obtain calls where d: "time_cond_add_db (\<lambda>q. NoErr) ?l time_example = (NoErr, calls)" using db_answers by blast
  from scene_time_cond_add_correct [OF L g _ i m c d] t(1,2) show ?thesis by (auto simp: cond_added_def scenes_ok_def)
qed

lemma event_insert:
  assumes "scenes_ok L" "get_scene L a = Some s" "ph_inv (pHashTable L)" "index_free (pHashTable L) (event_key c) (acSceneId s)"
    "mem_ok mem (pstEventCondList (get_logic lg s)) (pHashTable L)" "iCount (pstEventCondList (get_logic lg s)) \<noteq> 1024"
    "event_cond_add_db db (pstEventCondList (get_logic lg s)) c = (NoErr, calls)"
    "sets (pstEventCondList (get_logic lg s)) = [] \<or> (\<exists>t \<in> set (sets (pstEventCondList (get_logic lg s))). ucCondCount t < 32)"
  shows "\<exists>L1 p l'. event_cond_put mem db lg a c L = Some (NoErr, L1, p, calls) \<and>
    pstScene p = a \<and> one_scene a (upd_logic lg (pstEventCondList_update (\<lambda>_. l')) s) L L1 \<and>
    iCount l' = iCount (pstEventCondList (get_logic lg s)) + 1 \<and> index_put (event_key c) p (pHashTable L) (pHashTable L1) \<and>
    (\<forall>b. \<exists>s' L2. put_truth scene_event_cond_true_init b p L1 = Some L2 \<and> one_scene a s' L L2 \<and> pHashTable L2 = pHashTable L1 \<and>
      cond_added pstEventCondList pstTimeCondList p c b s s' \<and> cond_stored pstEventCondList pstTimeCondList lg mem c p s s' (pHashTable L) (pHashTable L1))"
proof -
  obtain m ps pc al head where mem: "mem = (m, ps, pc, al, head)" by (metis prod.exhaust)
  have m: m using assms(5) mem by (simp add: mem_ok_def)
  have ok: "scene_ok s" by (rule get_scene_ok [OF assms(1,2)])
  have db: "event_cond_add_db db l' c = (NoErr, calls)" if "stCondInfo l' = stCondInfo (pstEventCondList (get_logic lg s))"
    "ucInitFlag l' = ucInitFlag (pstEventCondList (get_logic lg s))" for l'
    using add_db_same(2) [OF that] assms(7) by simp
  have "event_cond_put mem db lg a c L = cond_insert pstEventCondList pstEventCondList_update lg
      (cond_add_gen False (event_cond_add_db db) ps pc) al head (event_key c) a s c L"
    using assms(2,4) mem m by (simp add: event_cond_put_def index_free_def event_cond_add_def [abs_def])
  with event_kind.insert_truth_result [where tail = False and add_db = "event_cond_add_db db" and c = c, OF ok assms(2) refl assms(3)
      assms(5) [unfolded mem] assms(6) key_fits_all(2) [of c] disjI2 [OF assms(8)] db]
  show ?thesis unfolding event_funs mem by force
qed

lemma event_cond_added:
  assumes "scenes_ok L" "get_scene L a = Some s" "ph_inv (pHashTable L)" "index_free (pHashTable L) (event_key c) (acSceneId s)"
    "mem_ok mem (pstEventCondList (get_logic lg s)) (pHashTable L)" "iCount (pstEventCondList (get_logic lg s)) \<noteq> 1024"
    "event_cond_add_db db (pstEventCondList (get_logic lg s)) c = (NoErr, calls)" "e_acKey c \<noteq> ''Manual''" "event_cond_start rnd c = Some b"
    "(lg = Or_Logic \<and> sets (pstEventCondList (get_logic lg s)) = []) \<or> (\<exists>t \<in> set (sets (pstEventCondList (get_logic lg s))). ucCondCount t < 32)"
  shows "\<exists>L' p s'. (case lg of Or_Logic \<Rightarrow> scene_event_or_cond_add | And_Logic \<Rightarrow> scene_event_and_cond_add) rnd mem db a c L = Some (NoErr, L', calls) \<and>
    scenes_ok L' \<and> get_scene L' a = Some s' \<and> cond_added pstEventCondList pstTimeCondList p c b s s' \<and>
    cond_stored pstEventCondList pstTimeCondList lg mem c p s s' (pHashTable L) (pHashTable L') \<and> one_scene a s' L L' \<and>
    (\<forall>x. x \<noteq> a \<longrightarrow> get_scene L' x = get_scene L x) \<and> pstScene p = a \<and> index_put (event_key c) p (pHashTable L) (pHashTable L')"
proof -
  let ?l = "pstEventCondList (get_logic lg s)"
  have "sets ?l = [] \<or> (\<exists>t \<in> set (sets ?l). ucCondCount t < 32)" using assms(10) by auto
  from event_insert [OF assms(1-7) this] obtain L1 p l' where r: "event_cond_put mem db lg a c L = Some (NoErr, L1, p, calls)"
    "pstScene p = a" "one_scene a (upd_logic lg (pstEventCondList_update (\<lambda>_. l')) s) L L1" "iCount l' = iCount ?l + 1"
    "index_put (event_key c) p (pHashTable L) (pHashTable L1)"
    "\<And>b. \<exists>s' L2. put_truth scene_event_cond_true_init b p L1 = Some L2 \<and> one_scene a s' L L2 \<and> pHashTable L2 = pHashTable L1 \<and>
      cond_added pstEventCondList pstTimeCondList p c b s s' \<and> cond_stored pstEventCondList pstTimeCondList lg mem c p s s' (pHashTable L) (pHashTable L1)" by blast
  then obtain s' L2 where t: "put_truth scene_event_cond_true_init b p L1 = Some L2" "one_scene a s' L L2"
    "pHashTable L2 = pHashTable L1" "cond_added pstEventCondList pstTimeCondList p c b s s'"
    "cond_stored pstEventCondList pstTimeCondList lg mem c p s s' (pHashTable L) (pHashTable L1)" by blast
  have g1: "get_scene L1 a = Some (upd_logic lg (pstEventCondList_update (\<lambda>_. l')) s)" using one_scene_get [OF _ r(3)] assms(2) by simp
  have nm: "strncmp (e_acKey c) ''Manual'' KEY_MAX_LEN \<noteq> 0" using assms(8) by (simp add: strncmp_eq_0_lit KEY_MAX_LEN_def)
  have n1: "iCount l' \<noteq> 1" if lg: "lg = And_Logic"
  proof -
    have wf: "cl_wf ?l" using event_kind.logic_list(3) [OF get_scene_ok [OF assms(1,2)] refl, of lg] by (simp add: list_ok_def)
    have "sets ?l \<noteq> []" using assms(10) lg by auto
    then show ?thesis using wf_count [OF wf] r(4) by simp
  qed
  have "(case lg of Or_Logic \<Rightarrow> scene_event_or_cond_add | And_Logic \<Rightarrow> scene_event_and_cond_add) rnd mem db a c L = Some (NoErr, L2, calls)"
  proof (cases lg)
    case Or_Logic
    then show ?thesis using r(1) t(1) assms(9) nm by (simp add: scene_event_or_cond_add_def)
  next
    case And_Logic
    then show ?thesis using r(1) t(1) assms(9) g1 n1 by (simp add: scene_event_and_cond_add_def upd_logic_def cond_size_def)
  qed
  moreover have "scenes_ok L2" using one_scene_ok [OF assms(1) _ t(2)] t(4) by (simp add: cond_added_def)
  moreover have "get_scene L2 a = Some s' \<and> (\<forall>b. b \<noteq> a \<longrightarrow> get_scene L2 b = get_scene L b)"
    using one_scene_get [OF _ t(2)] assms(2) by simp
  ultimately show ?thesis using t(2-5) r(2,5) by metis
qed

text \<open>C17. Adding an event condition that the scene does not have yet: it is stored with the truth that its last
  value gives it, with one row and one index record, nothing else changes and every scene stays consistent. Two cases are
  excluded, in which the code goes wrong: the first of the conditions that must all hold (\<open>first_and_event_cond_stale\<close>), and a
  list whose sets are all full (32 conditions each), where the truth bits of the sets are not moved with the
  sets (\<open>new_event_set_shifts_truth\<close> in \<open>Cond_List\<close>). So a set with room is there, or the list of any-conditions is empty.\<close>

theorem scene_event_cond_add_correct:
  assumes "scenes_ok L" "get_scene L a = Some s" "ph_inv (pHashTable L)" "index_free (pHashTable L) (event_key c) (acSceneId s)"
    "mem_ok mem (pstEventCondList (get_logic lg s)) (pHashTable L)" "iCount (pstEventCondList (get_logic lg s)) \<noteq> 1024"
    "event_cond_add_db db (pstEventCondList (get_logic lg s)) c = (NoErr, calls)" "e_acKey c \<noteq> ''Manual''" "event_cond_start rnd c = Some b"
    "(lg = Or_Logic \<and> sets (pstEventCondList (get_logic lg s)) = []) \<or> (\<exists>t \<in> set (sets (pstEventCondList (get_logic lg s))). ucCondCount t < 32)"
  shows "\<exists>L' p s'. (case lg of Or_Logic \<Rightarrow> scene_event_or_cond_add | And_Logic \<Rightarrow> scene_event_and_cond_add) rnd mem db a c L = Some (NoErr, L', calls) \<and>
    scenes_ok L' \<and> get_scene L' a = Some s' \<and> cond_added pstEventCondList pstTimeCondList p c b s s' \<and>
    (\<forall>x. x \<noteq> a \<longrightarrow> get_scene L' x = get_scene L x) \<and> pstScene p = a \<and> index_put (event_key c) p (pHashTable L) (pHashTable L')"
  using event_cond_added [OF assms] by blast

theorem scene_event_cond_add_correct_witness:
  "\<exists>t L' calls s' p. new_ptr_hash_table True (\<lambda>i. True) = Some t \<and>
     scene_event_and_cond_add id (True, 20, 21, \<lambda>i. True, 22) (\<lambda>q. NoErr) 1 (event_example\<lparr>acLastValue := ''1''\<rparr>)
       ((scenes_example scene_example)\<lparr>pHashTable := t\<rparr>) = Some (NoErr, L', calls) \<and>
     get_scene L' 1 = Some s' \<and> scene_ok s' \<and> cond_truth pstEventCondList p s' = Some True"
proof -
  let ?c = "event_example\<lparr>acLastValue := ''1''\<rparr>"
  obtain t where t: "new_ptr_hash_table True (\<lambda>i. True) = Some t" "ph_inv t" "nodes t = (\<lambda>k. [])" "chain_of t = Map.empty" by (rule example_table)
  let ?L = "(scenes_example scene_example)\<lparr>pHashTable := t\<rparr>" and ?l = "pstEventCondList (get_logic And_Logic scene_example)"
  have L: "scenes_ok ?L" using scenes_example_ok [OF scene_example_ok] by (simp add: scenes_ok_def)
  have g: "get_scene ?L 1 = Some scene_example" by (simp add: get_scene_def scenes_example_def)
  have l: "?l = event_list_example" by (simp add: get_logic_def scene_example_def)
  have m: "mem_ok (True, 20, 21, \<lambda>i. True, 22) ?l (pHashTable ?L)" unfolding l by (simp add: mem_ok_def t(4))
  have i: "index_free (pHashTable ?L) (event_key ?c) (acSceneId scene_example)" using empty_index_free t(2,3) by simp
  have c: "iCount ?l \<noteq> 1024" "\<exists>t \<in> set (sets ?l). ucCondCount t < 32" unfolding l by (simp_all add: event_list_example_def)
  obtain calls where d: "event_cond_add_db (\<lambda>q. NoErr) ?l ?c = (NoErr, calls)" using db_answers by blast
  have k: "e_acKey ?c \<noteq> ''Manual''" by (simp add: event_example_def)
  have b: "event_cond_start id ?c = Some True"
    by (simp add: event_cond_start_def scene_event_cond_is_true_def active_is_def strncmp_eq_0_lit len_defs event_example_def is_digit_def)
  from scene_event_cond_add_correct [OF L g _ i m c(1) d k b disjI2 [OF c(2)]] t(1,2) show ?thesis by (auto simp: cond_added_def scenes_ok_def)
qed

text \<open>The first event condition of those that must all hold is never evaluated: whatever its last value, only
  the truth of its list is cleared, and the cached truth of the scene is not recomputed. A scene that was
  true stays true although the new condition counts as false, so its other conditions still execute it.\<close>

theorem first_and_event_cond_stale:
  assumes "scenes_ok L" "get_scene L a = Some s" "ph_inv (pHashTable L)" "index_free (pHashTable L) (event_key c) (acSceneId s)"
    "mem_ok mem (pstEventCondList (stAndCond s)) (pHashTable L)" "event_cond_add_db db (pstEventCondList (stAndCond s)) c = (NoErr, calls)"
    "sets (pstEventCondList (stAndCond s)) = []"
  shows "\<exists>L' s'. scene_event_and_cond_add rnd mem db a c L = Some (NoErr, L', calls) \<and> get_scene L' a = Some s' \<and>
    ucSceneCondTrue s' = ucSceneCondTrue s \<and> \<not> scene_truth s'"
proof -
  let ?l = "pstEventCondList (get_logic And_Logic s)"
  have ok: "scene_ok s" by (rule get_scene_ok [OF assms(1,2)])
  then have wf: "cl_wf (pstEventCondList (stAndCond s))" "cl_wf (pstTimeCondList (stAndCond s))"
    by (simp_all add: scene_ok_def logic_ok_def list_ok_def)
  have c0: "iCount ?l = 0" using wf_count [OF wf(1)] assms(7) by (simp add: get_logic_def)
  have g: "get_logic And_Logic s = stAndCond s" by (simp add: get_logic_def)
  have e: "sets ?l = [] \<or> (\<exists>t \<in> set (sets ?l). ucCondCount t < 32)" using assms(7) by (simp add: g)
  obtain L1 p l' where r: "event_cond_put mem db And_Logic a c L = Some (NoErr, L1, p, calls)"
    "one_scene a (upd_logic And_Logic (pstEventCondList_update (\<lambda>_. l')) s) L L1" "iCount l' = 1"
    using event_insert [OF assms(1-4), of mem And_Logic db calls, OF _ _ _ e] assms(5,6) c0 by (auto simp: g)
  let ?s1 = "upd_logic And_Logic (pstEventCondList_update (\<lambda>_. l')) s"
  let ?s2 = "upd_logic And_Logic (\<lambda>cl. cl\<lparr>ucCondListTrue := list_bit_put False 1 (ucCondListTrue cl)\<rparr>) ?s1"
  have g1: "get_scene L1 a = Some ?s1" using one_scene_get [OF _ r(2)] assms(2) by simp
  then have "scene_event_and_cond_add rnd mem db a c L = Some (NoErr, put_scene a ?s2 L1, calls)"
    using r(1,3) by (simp add: scene_event_and_cond_add_def upd_logic_def cond_size_def)
  moreover have "get_scene (put_scene a ?s2 L1) a = Some ?s2" using g1 by (simp add: get_put_scene)
  moreover have "ucSceneCondTrue ?s2 = ucSceneCondTrue s" by (simp add: upd_logic_def)
  moreover have "logic_count (stAndCond ?s2) \<noteq> 0" using r(3) wf_count_nonneg [OF wf(2)] by (simp add: upd_logic_def logic_count_def)
  then have "\<not> scene_truth ?s2"
    unfolding scene_truth_def Let_def two_bits by (simp add: upd_logic_def list_bit_put_bit)
  ultimately show ?thesis by blast
qed

theorem first_and_event_cond_stale_witness:
  "\<exists>t L' calls s'. new_ptr_hash_table True (\<lambda>i. True) = Some t \<and>
     scene_event_and_cond_add id (True, 20, 21, \<lambda>i. True, 22) (\<lambda>q. NoErr) 1 event_example
       ((scenes_example time_scene_example)\<lparr>pHashTable := t\<rparr>) = Some (NoErr, L', calls) \<and>
     get_scene L' 1 = Some s' \<and> ucSceneCondTrue s' = ucSceneCondTrue time_scene_example \<and> \<not> scene_truth s'"
proof -
  obtain t where t: "new_ptr_hash_table True (\<lambda>i. True) = Some t" "ph_inv t" "nodes t = (\<lambda>k. [])" "chain_of t = Map.empty" by (rule example_table)
  let ?L = "(scenes_example time_scene_example)\<lparr>pHashTable := t\<rparr>"
  have L: "scenes_ok ?L" using scenes_example_ok [OF time_scene_example_ok] by (simp add: scenes_ok_def)
  have g: "get_scene ?L 1 = Some time_scene_example" by (simp add: get_scene_def scenes_example_def)
  have l: "pstEventCondList (stAndCond time_scene_example) = empty_list 8 ''And'' ''Event''" by (simp add: time_scene_example_def)
  have m: "mem_ok (True, 20, 21, \<lambda>i. True, 22) (pstEventCondList (stAndCond time_scene_example)) (pHashTable ?L)"
    unfolding l by (simp add: mem_ok_def set_addrs_def cond_addrs_def empty_list_def t(4))
  have i: "index_free (pHashTable ?L) (event_key event_example) (acSceneId time_scene_example)" using empty_index_free t(2,3) by simp
  obtain calls where d: "event_cond_add_db (\<lambda>q. NoErr) (pstEventCondList (stAndCond time_scene_example)) event_example = (NoErr, calls)"
    using db_answers by blast
  have e: "sets (pstEventCondList (stAndCond time_scene_example)) = []" unfolding l by (simp add: empty_list_def)
  from first_and_event_cond_stale [OF L g _ i m d e, of id] t(1,2) show ?thesis by auto
qed

section \<open>Removing a condition\<close>

lemma del_gen_more:
  assumes "cl_wf l" "get_set l (pCondSetNode p) = Some t" "get_cond t (pCondNode p) = Some n" "del_db l (stCond n) = (NoErr, calls)"
    "ucCondCount t \<noteq> 1"
  shows "cond_del_gen del_db l p = Some (NoErr, (upd_set (pCondSetNode p) (\<lambda>t. t\<lparr>pstCond := chain_remove (pCondNode p) (pstCond t),
      ucCondCount := ucCondCount t - 1\<rparr>) l)\<lparr>iCount := iCount l - 1\<rparr>, calls)"
  using assms by (simp add: cond_del_gen_def)

lemma del_gen_last:
  assumes "get_set l (pCondSetNode p) = Some t" "get_cond t (pCondNode p) = Some n" "del_db l (stCond n) = (NoErr, calls)" "ucCondCount t = 1"
  shows "\<exists>l'. cond_del_gen del_db l p = Some (NoErr, l', calls) \<and> iCount l' = iCount l - 1 \<and> get_set l' (pCondSetNode p) = None"
proof -
  have "List.find (\<lambda>s. sn_addr s = a) (renumber i (filter (\<lambda>t. sn_addr t \<noteq> a) ss)) = None" for a i and ss :: "'a cond_set list"
    by (induction ss arbitrary: i) auto
  then show ?thesis using assms by (simp add: cond_del_gen_def cond_list_update_index_def get_set_def Let_def)
qed

text \<open>What is left of the set, and the truths in it: the conditions behind the removed one move one bit down,
  the bits stay where they are.\<close>

lemma chain_removed:
  assumes "set_wf t" "placed l p x y t n" "ucCondCount t \<noteq> 1"
    "t' = t\<lparr>pstCond := chain_remove (pCondNode p) (pstCond t), ucCondCount := ucCondCount t - 1\<rparr>"
  shows "set_wf t'" "length (pstCond t') = length (pstCond t) - 1"
    "i < length (pstCond t') \<Longrightarrow> cn_addr (pstCond t' ! i) = cn_addr (pstCond t ! (if i < y then i else i + 1)) \<and>
      stCond (pstCond t' ! i) = stCond (pstCond t ! (if i < y then i else i + 1)) \<and> iCondIndex (pstCond t' ! i) = int i"
proof -
  have y: "y < length (pstCond t)" "pstCond t ! y = n" "cn_addr n = pCondNode p" using assms(2) by (auto simp: placed_def)
  have d: "distinct (map cn_addr (pstCond t))" using assms(1) by (simp add: set_wf_def)
  have c: "pstCond t' = take y (pstCond t) @ map (\<lambda>m. m\<lparr>iCondIndex := iCondIndex m - 1\<rparr>) (drop (Suc y) (pstCond t))"
    using chain_remove_position [OF d y(1)] y assms(4) by simp
  have g: "get_cond t (pCondNode p) = Some n" using find_unique [OF d y(1)] y by (simp add: get_cond_def)
  show wf: "set_wf t'" by (rule chain_remove_wf(1) [OF assms(1) g assms(3,4)])
  show l: "length (pstCond t') = length (pstCond t) - 1" using y(1) unfolding c by simp
  assume i: "i < length (pstCond t')"
  then have "iCondIndex (pstCond t' ! i) = int i" using wf by (simp add: set_wf_def)
  moreover have "cn_addr (pstCond t' ! i) = cn_addr (pstCond t ! (if i < y then i else i + 1)) \<and>
      stCond (pstCond t' ! i) = stCond (pstCond t ! (if i < y then i else i + 1))"
    using i l y(1) unfolding c by (auto simp: nth_append)
  ultimately show "cn_addr (pstCond t' ! i) = cn_addr (pstCond t ! (if i < y then i else i + 1)) \<and>
      stCond (pstCond t' ! i) = stCond (pstCond t ! (if i < y then i else i + 1)) \<and> iCondIndex (pstCond t' ! i) = int i" by simp
qed

context cond_kind
begin

lemma remove_truth:
  assumes ok: "scene_ok s" and l: "l = fget (get_logic lg s)" and pc: "pstCondList p = cl_addr l" and pl: "placed l p x y t n"
    and more: "ucCondCount t \<noteq> 1"
    and t': "t' = t\<lparr>pstCond := chain_remove (pCondNode p) (pstCond t), ucCondCount := ucCondCount t - 1\<rparr>"
    and l': "l' = l\<lparr>sets := (sets l)[x := t'], iCount := iCount l - 1\<rparr>"
  shows "\<exists>s' w. del_truth fget fupd k lg reset p l' (upd_logic lg (fupd (\<lambda>_. l')) s) = Some s' \<and> scene_ok s' \<and> same_static s s' \<and>
    fget (get_logic lg s') = l'\<lparr>uiCondSetTrue := w\<rparr>"
proof -
  note g = logic_list [OF ok l]
  have wf: "cl_wf l" "acLogic (stCondInfo l) = (if any_of lg then ''Or'' else ''And'')"
    "\<forall>i < length (sets l). bit (uiCondSetTrue l) i = junction (any_of lg) (cond_truths (sets l ! i))"
    using g(3) by (auto simp: list_ok_def)
  have x: "x < length (sets l)" "sets l ! x = t" "x < 32" "sn_addr t = pCondSetNode p" "iCondSetIndex t = int x" "set_wf t"
    using pl by (auto simp: placed_def)
  note cr = chain_removed [OF x(6) pl more t']
  have ct: "2 \<le> length (pstCond t)" "length (set_conds t') = length (set_conds t) - 1"
    using x(6) more cr(2) by (auto simp: set_wf_def set_conds_def)
  have wf': "cl_wf l'"
    by (rule append_upd_wf [OF disjI1 [OF wf(1)] x(1) cr(1)]) (use x ct t' l' in \<open>auto simp: set_conds_def\<close>)
  have al: "list_almost (any_of lg) l' x" using wf wf' l' by (simp add: list_almost_def)
  define n' p' where "n' = pstCond t' ! 0" and "p' = p\<lparr>pCondNode := cn_addr (pstCond t' ! 0)\<rparr>"
  have pl': "placed l' p' x 0 t' n'" using x cr(1) ct cr(2) cr(3) [of 0] t' l' by (auto simp: placed_def n'_def p'_def)
  have sx: "sets l' ! x = t'" "x < length (sets l')" using x(1) l' by simp_all
  have gs: "get_set l' (pCondSetNode p) = Some t'"
    using upd_set_position(2) [of l' x "pCondSetNode p"] wf' sx x(4) t' by (simp add: cl_wf_def)
  have st: "set_truth lg t' = Some (junction (any_of lg) (cond_truths t'))"
    using set_group_true [OF cr(1), of "case lg of Or_Logic \<Rightarrow> ''Or'' | And_Logic \<Rightarrow> ''And''" "any_of lg" "uiCondTrue t'"]
    by (cases lg) (simp_all add: set_truth_def any_of_def)
  obtain w2 where w2: "bit_put (junction (any_of lg) (cond_truths t')) (int x) (uiCondSetTrue l') = Some w2"
    "\<And>i. i < 32 \<Longrightarrow> bit w2 i \<longleftrightarrow> (if i = x then junction (any_of lg) (cond_truths t') else bit (uiCondSetTrue l') i)"
    using bit_put_bits [of "int x" "junction (any_of lg) (cond_truths t')" "uiCondSetTrue l'"] x(3) by auto
  have la: "list_after l' x (uiCondTrue t') w2 = l'\<lparr>uiCondSetTrue := w2\<rparr>"
    using sx list_update_id [of "sets l'" x] by (simp add: list_after_def)
  note ao = list_after_ok [OF al pl' _ refl, of w2 "uiCondTrue t'", unfolded la]
  have a: "cl_addr l' = pstCondList p" using l' pc by simp
  have f: "find_list fget (put_list fget fupd (pstCondList p) l' s) (pstCondList p) = Some l'" using find_put g(1) pc a by simp
  let ?l = "l'\<lparr>uiCondSetTrue := w2\<rparr>"
  have li: "list_ok (any_of lg) ?l (list_spec (any_of lg) ?l)" "group_true (acLogic (stCondInfo ?l)) w2 (list_size ?l) = Some (list_spec (any_of lg) ?l)"
    using ao w2(2) by simp_all
  have "cond_set_true_init fget fupd k (junction (any_of lg) (cond_truths t')) p (put_list fget fupd (pstCondList p) l' s) =
      Some (finish fget fupd k (pstCondList p) ?l (list_spec (any_of lg) ?l) s)"
    using f gs w2(1) t' x(5) li(2) put_list_twice [of s "pstCondList p" l l' ?l] g(1) pc a
    by (simp add: cond_set_true_init_def finish_def Let_def)
  moreover have "cond_size l' \<noteq> 0" using wf_count [OF wf'] sx by (auto simp: cond_size_def)
  ultimately have e: "del_truth fget fupd k lg reset p l' (upd_logic lg (fupd (\<lambda>_. l')) s) =
      Some (finish fget fupd k (pstCondList p) ?l (list_spec (any_of lg) ?l) s)"
    using gs st g(4) [of l'] pc by (simp add: del_truth_def)
  have "scene_ok (finish fget fupd k (pstCondList p) ?l (list_spec (any_of lg) ?l) s)"
    using finish_ok [OF ok, of "pstCondList p" l ?l] g(1,2) pc a li(1) by simp
  moreover have "fget (get_logic lg (finish fget fupd k (pstCondList p) ?l (list_spec (any_of lg) ?l) s)) = ?l"
    using pc g(2) l ok by (cases lg) (auto simp: finish_def put_list_def put_list_true_def Let_def get_logic_def any_of_def kind_simps)
  ultimately show ?thesis using e finish_static by blast
qed

end

text \<open>The record of a condition of the list, found in the index.\<close>

definition indexed :: "'c list_get \<Rightarrow> logic \<Rightarrow> ptr \<Rightarrow> scene_info \<Rightarrow> scene_list \<Rightarrow> string \<Rightarrow> ptr_info \<Rightarrow> bool" where
  "indexed fget lg a s L key p \<longleftrightarrow> get_scene L a = Some s \<and> ptr_hash_find (pHashTable L) (Some key) (Some (acSceneId s)) = Some (Some p) \<and>
     pstScene p = a \<and> pstCondList p = cl_addr (fget (get_logic lg s))"

definition index_del :: "string \<Rightarrow> string \<Rightarrow> ptr_hash_table \<Rightarrow> ptr_hash_table \<Rightarrow> bool" where
  "index_del key ident t t' \<longleftrightarrow> ph_inv t' \<and> nodes t' = (nodes t)(key := del_by_id ident (nodes t key))"

context cond_kind
begin

lemma remove_result:
  assumes all: "scenes_ok L" and inv: "ph_inv (pHashTable L)" and ix: "indexed fget lg a s L key p" and l: "l = fget (get_logic lg s)"
    and pl: "placed l p x y t n" and more: "ucCondCount t \<noteq> 1" and db: "del_db l (stCond n) = (NoErr, calls)"
  shows "\<exists>L' s'. cond_remove fget fupd k lg reset (cond_del_gen del_db) key a L = Some (NoErr, L', calls) \<and> scenes_ok L' \<and>
    one_scene a s' L L' \<and> get_scene L' a = Some s' \<and> same_static s s' \<and> index_del key (acSceneId s) (pHashTable L) (pHashTable L') \<and>
    (\<forall>i. i + 1 < length (pstCond t) \<longrightarrow>
      cond_truth fget (p\<lparr>pCondNode := cn_addr (pstCond t ! (if i < y then i else i + 1))\<rparr>) s' = Some (bit (uiCondTrue t) i))"
proof -
  have s: "get_scene L a = Some s" "ptr_hash_find (pHashTable L) (Some key) (Some (acSceneId s)) = Some (Some p)" "pstScene p = a"
    "pstCondList p = cl_addr l" using ix l by (auto simp: indexed_def)
  have ok: "scene_ok s" by (rule get_scene_ok [OF all s(1)])
  note g = logic_list [OF ok l]
  have wf: "cl_wf l" using g(3) by (simp add: list_ok_def)
  have x: "x < length (sets l)" "sets l ! x = t" "sn_addr t = pCondSetNode p" "set_wf t" "y < length (pstCond t)" "pstCond t ! y = n"
    "cn_addr n = pCondNode p" using pl by (auto simp: placed_def)
  have d: "distinct (map sn_addr (sets l))" "distinct (map cn_addr (pstCond t))" using wf x(4) by (simp_all add: cl_wf_def set_wf_def)
  have gt: "get_set l (pCondSetNode p) = Some t" using upd_set_position(2) [OF d(1) x(1)] x(2,3) by simp
  have gn: "get_cond t (pCondNode p) = Some n" using find_unique [OF d(2) x(5)] x(6,7) by (simp add: get_cond_def)
  define t' where "t' = t\<lparr>pstCond := chain_remove (pCondNode p) (pstCond t), ucCondCount := ucCondCount t - 1\<rparr>"
  define l' where "l' = l\<lparr>sets := (sets l)[x := t'], iCount := iCount l - 1\<rparr>"
  have del: "cond_del_gen del_db l p = Some (NoErr, l', calls)"
    using del_gen_more [where del_db = del_db, OF wf gt gn db more] upd_set_position(1) [OF d(1) x(1)] x(2,3) by (simp add: l'_def t'_def)
  obtain s' w where s': "del_truth fget fupd k lg reset p l' (upd_logic lg (fupd (\<lambda>_. l')) s) = Some s'" "scene_ok s'" "same_static s s'"
    "fget (get_logic lg s') = l'\<lparr>uiCondSetTrue := w\<rparr>"
    using remove_truth [OF ok l s(4) pl more t'_def l'_def] by blast
  obtain T where T: "ptr_hash_del (pHashTable L) (Some key) (Some (acSceneId s)) = Some (NoErr, T)" "ph_inv T"
    "nodes T = (nodes (pHashTable L))(key := del_by_id (acSceneId s) (nodes (pHashTable L) key))"
    using ptr_hash_del_refines [OF inv] by blast
  define L' where "L' = (put_scene a s' L)\<lparr>pHashTable := T\<rparr>"
  have one: "one_scene a s' L L'" by (simp add: one_scene_def L'_def)
  have e: "cond_remove fget fupd k lg reset (cond_del_gen del_db) key a L = Some (NoErr, L', calls)"
    using s del s'(1) T(1) l by (simp add: cond_remove_def L'_def NoErr_def)
  note cr = chain_removed [OF x(4) pl more t'_def]
  have tr: "cond_truth fget (p\<lparr>pCondNode := cn_addr (pstCond t ! (if i < y then i else i + 1))\<rparr>) s' = Some (bit (uiCondTrue t) i)"
    if i: "i + 1 < length (pstCond t)" for i
  proof -
    have i': "i < length (pstCond t')" using i cr(2) by simp
    have "find_list fget s' (pstCondList p) = Some (l'\<lparr>uiCondSetTrue := w\<rparr>)"
      using logic_list(1) [OF s'(2) s'(4) [symmetric]] s(4) by (simp add: l'_def)
    moreover have "get_set (l'\<lparr>uiCondSetTrue := w\<rparr>) (pCondSetNode p) = Some t'"
      using find_unique [of sn_addr "(sets l)[x := t']" x] d(1) x(1,2,3)
      by (simp add: get_set_def l'_def t'_def map_update) (metis list_update_id nth_map)
    moreover have "get_cond t' (cn_addr (pstCond t ! (if i < y then i else i + 1))) = Some (pstCond t' ! i)"
      using find_unique [of cn_addr "pstCond t'" i] cr(1) cr(3) [OF i'] i' by (simp add: get_cond_def set_wf_def)
    moreover have "i < 32" "uiCondTrue t' = uiCondTrue t" using i' cr(1) by (auto simp: set_wf_def t'_def)
    ultimately show ?thesis using cr(3) [OF i'] by (simp add: cond_truth_def bit_get_iff)
  qed
  have "get_scene L' a = Some s'" using one_scene_get [OF _ one] s(1) by simp
  moreover have "index_del key (acSceneId s) (pHashTable L) (pHashTable L')" using T(2,3) by (simp add: index_del_def L'_def)
  ultimately show ?thesis using e one_scene_ok [OF all s'(2) one] one s'(3) tr by blast
qed

lemma remove_last_of_set:
  assumes ix: "indexed fget lg a s L key p" and l: "l = fget (get_logic lg s)"
    and c: "get_set l (pCondSetNode p) = Some t" "get_cond t (pCondNode p) = Some n" "ucCondCount t = 1" "iCount l \<noteq> 1"
    and db: "del_db l (stCond n) = (NoErr, calls)"
  shows "cond_remove fget fupd k lg reset (cond_del_gen del_db) key a L = None"
proof -
  obtain l' where l': "cond_del_gen del_db l p = Some (NoErr, l', calls)" "iCount l' = iCount l - 1" "get_set l' (pCondSetNode p) = None"
    using del_gen_last [of l p t n del_db calls] c db by blast
  then have "del_truth fget fupd k lg reset p l' s1 = None" for s1 using c(4) by (simp add: del_truth_def cond_size_def)
  then show ?thesis using ix l l'(1) by (simp add: cond_remove_def indexed_def)
qed

end

section \<open>Properties of removing a condition\<close>

text \<open>Deleting a time condition whose set holds others: one row goes, the index record goes, the cached truth
  stays consistent with the truth bits, and the scene is otherwise as before. But the bits do not move with
  the conditions: every condition behind the deleted one now has the truth of the condition before it, the
  next one that of the deleted condition.\<close>

theorem scene_time_cond_del_shifts:
  assumes "scenes_ok L" "ph_inv (pHashTable L)" "indexed pstTimeCondList lg a s L (time_key c) p"
    "placed (pstTimeCondList (get_logic lg s)) p x y t n" "ucCondCount t \<noteq> 1"
    "time_cond_del_db db (pstTimeCondList (get_logic lg s)) (stCond n) = (NoErr, calls)"
  shows "\<exists>L' s'. (case lg of Or_Logic \<Rightarrow> scene_time_or_cond_del | And_Logic \<Rightarrow> scene_time_and_cond_del) db a c L = Some (NoErr, L', calls) \<and>
    scenes_ok L' \<and> get_scene L' a = Some s' \<and> same_static s s' \<and> index_del (time_key c) (acSceneId s) (pHashTable L) (pHashTable L') \<and>
    (\<forall>i. i + 1 < length (pstCond t) \<longrightarrow>
      cond_truth pstTimeCondList (p\<lparr>pCondNode := cn_addr (pstCond t ! (if i < y then i else i + 1))\<rparr>) s' = Some (bit (uiCondTrue t) i))"
  using time_kind.remove_result [where del_db = "time_cond_del_db db", OF assms(1-3) refl assms(4-6)]
  by (cases lg) (force simp: scene_time_or_cond_del_def scene_time_and_cond_del_def time_cond_del_def [abs_def])+

definition two_times_scene :: scene_info where
  "two_times_scene = time_scene_example\<lparr>stAndCond := (stAndCond time_scene_example)\<lparr>pstTimeCondList := time_list_example\<lparr>
     sets := map (uiCondTrue_update (\<lambda>_. 1)) (sets time_list_example)\<rparr>\<rparr>\<rparr>"

definition time_ptr :: ptr_info where
  "time_ptr = \<lparr>acId = ''s1'', pstScene = 1, pstCondList = 9, pCondSetNode = 10, pCondNode = 11, pScenePanelNode = NULL\<rparr>"

lemma two_times_ok: "scene_ok two_times_scene"
proof -
  have "list_ok False (pstTimeCondList (stAndCond two_times_scene)) False"
    by (auto simp: list_ok_def two_times_scene_def time_list_example_def cl_wf_def set_wf_def conds_of_def
        list_spec_def junction_def cond_truths_def less_Suc_eq nth_Cons')
  then show ?thesis using time_scene_example_ok
    by (simp add: scene_ok_def logic_ok_def two_times_scene_def time_scene_example_def scene_example_def scene_truth_def logic_count_def)
qed

theorem scene_time_cond_del_shifts_witness:
  "\<exists>t L' s' calls. cond_truth pstTimeCondList (time_ptr\<lparr>pCondNode := 12\<rparr>) two_times_scene = Some False \<and>
     scene_time_and_cond_del (\<lambda>q. NoErr) 1 (time_example\<lparr>acTimeKey := ''t0''\<rparr>) ((scenes_example two_times_scene)\<lparr>pHashTable := t\<rparr>) = Some (NoErr, L', calls) \<and>
     get_scene L' 1 = Some s' \<and> scene_ok s' \<and> cond_truth pstTimeCondList (time_ptr\<lparr>pCondNode := 12\<rparr>) s' = Some True"
proof -
  let ?c = "time_example\<lparr>acTimeKey := ''t0''\<rparr>"
  obtain t where t: "ph_inv t" "ptr_hash_find t (Some (time_key ?c)) (Some ''s1'') = Some (Some time_ptr)"
    by (rule example_table_with [of "time_key ?c" time_ptr "''s1''"]) (simp_all add: key_fits_all time_ptr_def INDEX_MAX_LEN_def)
  let ?L = "(scenes_example two_times_scene)\<lparr>pHashTable := t\<rparr>" and ?l = "pstTimeCondList (get_logic And_Logic two_times_scene)"
  have L: "scenes_ok ?L" using scenes_example_ok [OF two_times_ok] by (simp add: scenes_ok_def)
  have ix: "indexed pstTimeCondList And_Logic 1 two_times_scene ?L (time_key ?c) time_ptr"
    using t(2) by (simp add: indexed_def get_scene_def scenes_example_def two_times_scene_def time_scene_example_def scene_example_def
        time_ptr_def get_logic_def time_list_example_def)
  have pl: "placed ?l time_ptr 0 0 (sets ?l ! 0) (pstCond (sets ?l ! 0) ! 0)"
    by (auto simp: placed_def two_times_scene_def time_scene_example_def get_logic_def time_list_example_def time_ptr_def set_wf_def less_Suc_eq nth_Cons')
  have u: "ucCondCount (sets ?l ! 0) \<noteq> 1" "length (pstCond (sets ?l ! 0)) = 2" "cn_addr (pstCond (sets ?l ! 0) ! 1) = 12" "uiCondTrue (sets ?l ! 0) = 1"
    by (simp_all add: two_times_scene_def get_logic_def time_list_example_def)
  obtain calls where d: "time_cond_del_db (\<lambda>q. NoErr) ?l (stCond (pstCond (sets ?l ! 0) ! 0)) = (NoErr, calls)"
    using db_answers by blast
  have o: "cond_truth pstTimeCondList (time_ptr\<lparr>pCondNode := 12\<rparr>) two_times_scene = Some False" by code_simp
  obtain L' s' where r: "scene_time_and_cond_del (\<lambda>q. NoErr) 1 ?c ?L = Some (NoErr, L', calls)" "scenes_ok L'" "get_scene L' 1 = Some s'"
    "\<forall>i. i + 1 < length (pstCond (sets ?l ! 0)) \<longrightarrow> cond_truth pstTimeCondList
       (time_ptr\<lparr>pCondNode := cn_addr (pstCond (sets ?l ! 0) ! (if i < 0 then i else i + 1))\<rparr>) s' = Some (bit (uiCondTrue (sets ?l ! 0)) i)"
    using scene_time_cond_del_shifts [OF L _ ix pl u(1) d] t(1) by auto
  have "cond_truth pstTimeCondList (time_ptr\<lparr>pCondNode := 12\<rparr>) s' = Some True" using r(4) [rule_format, of 0] u(2,3,4) by simp
  with o r get_scene_ok [OF r(2,3)] show ?thesis by blast
qed

text \<open>Deleting the only event condition of a set while the list has other sets has no defined result: the
  set is freed, and then its truth is read. The same holds for time conditions.\<close>

theorem scene_event_cond_del_last_of_set:
  assumes "indexed pstEventCondList lg a s L (event_key c) p" "get_set (pstEventCondList (get_logic lg s)) (pCondSetNode p) = Some t"
    "get_cond t (pCondNode p) = Some n" "ucCondCount t = 1" "iCount (pstEventCondList (get_logic lg s)) \<noteq> 1" "e_acKey c \<noteq> ''Manual''"
    "event_cond_del_db db (pstEventCondList (get_logic lg s)) (stCond n) = (NoErr, calls)"
  shows "(case lg of Or_Logic \<Rightarrow> scene_event_or_cond_del | And_Logic \<Rightarrow> scene_event_and_cond_del) db a c L = None"
proof -
  have "strncmp (e_acKey c) ''Manual'' KEY_MAX_LEN \<noteq> 0" using assms(6) by (simp add: strncmp_eq_0_lit KEY_MAX_LEN_def)
  then show ?thesis using event_kind.remove_last_of_set [where del_db = "event_cond_del_db db", OF assms(1) refl assms(2-5,7)]
    by (cases lg) (simp_all add: scene_event_or_cond_del_def scene_event_and_cond_del_def event_cond_del_def [abs_def])
qed

definition two_sets_scene :: scene_info where
  "two_sets_scene = scene_example\<lparr>stAndCond := (stAndCond scene_example)\<lparr>pstEventCondList := event_list_example\<lparr>iCount := 2, sets := sets event_list_example @
     [\<lparr>sn_addr = 12, iCondSetIndex = 1, uiCondTrue = 0, ucCondCount = 1, pstCond = [\<lparr>cn_addr = 13, iCondIndex = 0, stCond = event_example\<lparr>e_acDevId := ''d2''\<rparr>\<rparr>]\<rparr>]\<rparr>\<rparr>\<rparr>"

theorem scene_event_cond_del_last_of_set_witness:
  "\<exists>t. ptr_hash_find t (Some (event_key event_example)) (Some ''s1'') = Some (Some event_ptr) \<and>
     scene_event_and_cond_del (\<lambda>q. NoErr) 1 event_example ((scenes_example two_sets_scene)\<lparr>pHashTable := t\<rparr>) = None"
proof -
  obtain t where t: "ptr_hash_find t (Some (event_key event_example)) (Some ''s1'') = Some (Some event_ptr)"
    by (rule example_table_with [of "event_key event_example" event_ptr "''s1''"]) (simp_all add: key_fits_all event_ptr_def INDEX_MAX_LEN_def)
  let ?L = "(scenes_example two_sets_scene)\<lparr>pHashTable := t\<rparr>" and ?l = "pstEventCondList (get_logic And_Logic two_sets_scene)"
  have ix: "indexed pstEventCondList And_Logic 1 two_sets_scene ?L (event_key event_example) event_ptr"
    using t by (simp add: indexed_def get_scene_def scenes_example_def two_sets_scene_def scene_example_def event_ptr_def get_logic_def event_list_example_def)
  have c: "get_set ?l (pCondSetNode event_ptr) = Some (sets ?l ! 0)" "get_cond (sets ?l ! 0) (pCondNode event_ptr) = Some (pstCond (sets ?l ! 0) ! 0)"
    "ucCondCount (sets ?l ! 0) = 1" "iCount ?l \<noteq> 1"
    by (simp_all add: get_set_def get_cond_def event_ptr_def two_sets_scene_def get_logic_def event_list_example_def)
  obtain calls where d: "event_cond_del_db (\<lambda>q. NoErr) ?l (stCond (pstCond (sets ?l ! 0) ! 0)) = (NoErr, calls)"
    using db_answers by blast
  have k: "e_acKey event_example \<noteq> ''Manual''" by (simp add: event_example_def)
  from scene_event_cond_del_last_of_set [OF ix c k d] t show ?thesis by auto
qed

section \<open>Clearing the index\<close>

text \<open>The records of a scene are those with its identifier. \<open>cleared i ks t t'\<close>: of the records with identifier \<open>i\<close>, one
  has gone under a key for each time that the key is in \<open>ks\<close>; the records of other scenes are as before.\<close>

definition of_id :: "string \<Rightarrow> ptr_info \<Rightarrow> bool" where
  "of_id i n \<longleftrightarrow> strncmp (acId n) i INDEX_MAX_LEN = 0"

definition cleared :: "string \<Rightarrow> string list \<Rightarrow> ptr_hash_table \<Rightarrow> ptr_hash_table \<Rightarrow> bool" where
  "cleared i ks t t' \<longleftrightarrow> ph_inv t' \<and>
     (\<forall>k. filter (of_id i) (nodes t' k) = drop (count_list ks k) (filter (of_id i) (nodes t k)) \<and>
          filter (\<lambda>n. \<not> of_id i n) (nodes t' k) = filter (\<lambda>n. \<not> of_id i n) (nodes t k))"

lemma del_by_id_split:
  "filter (of_id i) (del_by_id i ns) = drop 1 (filter (of_id i) ns)"
  "filter (\<lambda>n. \<not> of_id i n) (del_by_id i ns) = filter (\<lambda>n. \<not> of_id i n) ns"
  by (induction ns) (auto simp: of_id_def)

lemma clear_index_cleared: "ph_inv t \<Longrightarrow> \<exists>t'. clear_index i ks t = Some t' \<and> cleared i ks t t'"
proof (induction ks arbitrary: t)
  case (Cons k ks)
  obtain t1 where t1: "ptr_hash_del t (Some k) (Some i) = Some (NoErr, t1)" "ph_inv t1" "nodes t1 = (nodes t)(k := del_by_id i (nodes t k))"
    using ptr_hash_del_refines [OF Cons.prems] by blast
  obtain t' where t': "clear_index i ks t1 = Some t'" "cleared i ks t1 t'" using Cons.IH [OF t1(2)] by blast
  have "cleared i (k # ks) t t'" using t' t1(3) by (auto simp: cleared_def del_by_id_split add.commute)
  then show ?case using t1(1) t'(1) by auto
qed (simp add: cleared_def)

lemma cleared_trans: "cleared i ks t t1 \<Longrightarrow> cleared i ks' t1 t2 \<Longrightarrow> cleared i (ks @ ks') t t2"
  by (auto simp: cleared_def add.commute)

lemma clear_panels_index:
  "clear_panels db f L s pns t = map_option (\<lambda>t'. (t', if f = 1 then concat (map (\<lambda>pn. snd (scene_unbind_db db L s pn)) pns) else []))
     (clear_index (acSceneId s) (map panel_key pns) t)"
proof (induction pns arbitrary: t)
  case (Cons pn pns)
  show ?case
    by (cases "ptr_hash_del t (Some (panel_key pn)) (Some (acSceneId s))")
      (auto simp: Cons.IH Option.bind_map_option split: Option.bind_splits option.splits prod.splits)
qed simp

section \<open>Properties of panels\<close>

lemma del_by_id_head: "strncmp (acId p) i INDEX_MAX_LEN = 0 \<Longrightarrow> del_by_id i (p # ns) = ns"
  by simp

lemma map_of_snoc_new: "x \<notin> set (map fst xs) \<Longrightarrow> map_of (xs @ [(x, v)]) x = Some v"
  by (induction xs) auto

lemma filter_snoc_new: "x \<notin> set (map fst xs) \<Longrightarrow> filter (\<lambda>(y, _). y \<noteq> x) (xs @ [(x, v)]) = xs"
  by (induction xs) auto

text \<open>C32. Binding a panel that is not bound puts it at the end of the panels of the scene and gives it a record in the
  index; unbinding it gives back the panels and the records there were before.\<close>

theorem scene_bind_unbind:
  assumes "get_scene L a = Some s" "ph_inv (pHashTable L)" "index_free (pHashTable L) (panel_key pn) (acSceneId s)" "\<not> panelFreed s"
    "pNew \<noteq> NULL" "pNew \<notin> set (map fst (pstPanel s))" "\<forall>i. al i" "head \<noteq> NULL" "chain_of (pHashTable L) head = None"
    "scene_bind_db db L s pn = (NoErr, ins)" "scene_unbind_db db L s pn = (NoErr, del)"
  shows "\<exists>L1 L2 p. scene_bind True pNew al head db a pn L = Some (NoErr, L1, ins) \<and>
    get_scene L1 a = Some (s\<lparr>pstPanel := pstPanel s @ [(pNew, pn)]\<rparr>) \<and> index_put (panel_key pn) p (pHashTable L) (pHashTable L1) \<and>
    pstScene p = a \<and> pScenePanelNode p = pNew \<and> ptr_hash_find (pHashTable L1) (Some (panel_key pn)) (Some (acSceneId s)) = Some (Some p) \<and>
    scene_unbind db a pn L1 = Some (NoErr, L2, del) \<and> get_scene L2 a = Some s \<and> nodes (pHashTable L2) = nodes (pHashTable L)"
proof -
  define p where "p = zero_ptr\<lparr>acId := strncpy (acSceneId s) INDEX_MAX_LEN, pstScene := a, pScenePanelNode := pNew\<rparr>"
  define s1 where "s1 = s\<lparr>pstPanel := pstPanel s @ [(pNew, pn)]\<rparr>"
  obtain t1 where t1: "ptr_hash_inst al head (pHashTable L) (Some (panel_key pn)) (Some p) = Some (NoErr, t1)" "ph_inv t1"
    "nodes t1 = (nodes (pHashTable L))(panel_key pn := p # nodes (pHashTable L) (panel_key pn))"
    using ptr_hash_inst_refines [OF assms(2) key_fits_all(3) assms(8,9,7)] by blast
  define L1 where "L1 = (put_scene a s1 L)\<lparr>pHashTable := t1\<rparr>"
  have pt: "pHashTable (put_scene a s1 L) = pHashTable L" by (simp add: put_scene_def)
  have b: "scene_bind True pNew al head db a pn L = Some (NoErr, L1, ins)"
    using assms t1(1) pt by (simp add: scene_bind_def index_free_def bind_new_def L1_def s1_def p_def)
  have m: "strncmp (acId p) (acSceneId s) INDEX_MAX_LEN = 0" by (simp add: p_def strncmp_eq_0 strncpy_def)
  have f: "ptr_hash_find t1 (Some (panel_key pn)) (Some (acSceneId s)) = Some (Some p)"
    using m t1(3) by (simp add: ptr_hash_find_refines [OF t1(2)])
  have g: "get_scene L1 a = Some s1" using assms(1) get_put_scene [of a s1 L a] by (simp add: L1_def get_scene_def)
  obtain t2 where t2: "ptr_hash_del t1 (Some (panel_key pn)) (Some (acSceneId s)) = Some (NoErr, t2)" "ph_inv t2"
    "nodes t2 = (nodes t1)(panel_key pn := del_by_id (acSceneId s) (nodes t1 (panel_key pn)))"
    using ptr_hash_del_refines [OF t1(2)] by blast
  define L2 where "L2 = (put_scene a s L)\<lparr>pHashTable := t2\<rparr>"
  have d: "scene_unbind_db db L1 s1 pn = (NoErr, del)" using assms(11) by (simp add: scene_unbind_db_def panel_where_def L1_def s1_def put_scene_def)
  have l2: "put_scene a (s1\<lparr>pstPanel := filter (\<lambda>(x, _). x \<noteq> pNew) (pstPanel s1)\<rparr>) L1 = (put_scene a s L)\<lparr>pHashTable := t1\<rparr>"
    using filter_snoc_new [OF assms(6), of pn] by (simp add: L1_def s1_def put_scene_table put_put_scene)
  have "scene_unbind db a pn L1 = Some (NoErr, L2, del)"
    using g f d t2(1) l2 map_of_snoc_new [OF assms(6), of pn] by (simp add: scene_unbind_def L1_def L2_def s1_def p_def NoErr_def)
  moreover have "get_scene L2 a = Some s" using assms(1) get_put_scene [of a s L a] by (simp add: L2_def get_scene_def)
  moreover have "nodes t2 = nodes (pHashTable L)" using t1(3) t2(3) m by (simp add: fun_eq_iff)
  moreover have "index_put (panel_key pn) p (pHashTable L) (pHashTable L1)" using t1 by (simp add: index_put_def L1_def)
  ultimately show ?thesis using b g f by (auto simp: L1_def L2_def s1_def p_def)
qed

definition panel_example :: scene_panel where
  "panel_example = \<lparr>sp_acDevId = ''p1'', sp_acKey = ''KeyFobValue'', sp_acValue = ''1'', sp_acEnable = ''1''\<rparr>"

lemma panel_db_accepted: "scene_bind_db (\<lambda>q. NoErr) L s pn = (NoErr, snd (scene_bind_db (\<lambda>q. NoErr) L s pn))"
  "scene_unbind_db (\<lambda>q. NoErr) L s pn = (NoErr, snd (scene_unbind_db (\<lambda>q. NoErr) L s pn))"
  by (simp_all add: scene_bind_db_def scene_unbind_db_def db_write_def)

lemma scenes_example_get: "get_scene ((scenes_example s)\<lparr>pHashTable := t\<rparr>) 1 = Some s"
  by (simp add: get_scene_def scenes_example_def)

theorem scene_bind_unbind_witness:
  "\<exists>t L1 L2 ins del. scene_bind True 20 (\<lambda>i. True) 30 (\<lambda>q. NoErr) 1 panel_example ((scenes_example scene_example)\<lparr>pHashTable := t\<rparr>) = Some (NoErr, L1, ins) \<and>
     get_scene L1 1 = Some (scene_example\<lparr>pstPanel := [(20, panel_example)]\<rparr>) \<and>
     scene_unbind (\<lambda>q. NoErr) 1 panel_example L1 = Some (NoErr, L2, del) \<and> get_scene L2 1 = Some scene_example"
proof -
  obtain t where t: "ph_inv t" "nodes t = (\<lambda>k. [])" "chain_of t = Map.empty" by (rule example_table)
  let ?L = "(scenes_example scene_example)\<lparr>pHashTable := t\<rparr>"
  have i: "index_free (pHashTable ?L) (panel_key panel_example) (acSceneId scene_example)"
    using t(2) by (simp add: index_free_def ptr_hash_find_refines [OF t(1)])
  have e: "ph_inv (pHashTable ?L)" "\<not> panelFreed scene_example" "(20::ptr) \<noteq> NULL" "20 \<notin> set (map fst (pstPanel scene_example))" "\<forall>i::nat. (\<lambda>i. True) i" "(30::ptr) \<noteq> NULL"
    "chain_of (pHashTable ?L) 30 = None" using t by (simp_all add: scene_example_def)
  from scene_bind_unbind [OF scenes_example_get e(1) i e(2-7) panel_db_accepted] show ?thesis
    by (auto simp: scene_example_def)
qed

text \<open>After the panels of a scene have been cleared, the list of its panels still points to freed memory: binding
  a panel, listing the panels and clearing them again have no defined result.\<close>

theorem scene_bind_clear_dangles:
  assumes "get_scene L a = Some s" "ph_inv (pHashTable L)" "pstPanel s \<noteq> []" "\<not> panelFreed s"
  shows "\<exists>L' calls. scene_bind_clear db iClearDbFlag a L = Some (NoErr, L', calls) \<and> scene_bind_get_list a iMax L' = None \<and>
    scene_bind_clear db iClearDbFlag a L' = None \<and>
    (index_free (pHashTable L') (panel_key pn) (acSceneId s) \<longrightarrow> scene_bind True pNew al head db a pn L' = None)"
proof -
  obtain t calls where t: "clear_panels db iClearDbFlag L s (map snd (pstPanel s)) (pHashTable L) = Some (t, calls)"
    using clear_index_cleared [OF assms(2)] unfolding clear_panels_index by (metis option.map(2))
  define s1 where "s1 = s\<lparr>pstPanel := [], panelFreed := True\<rparr>"
  define L1 where "L1 = (put_scene a s1 L)\<lparr>pHashTable := t\<rparr>"
  have c: "scene_bind_clear db iClearDbFlag a L = Some (NoErr, L1, calls)"
    using assms t by (simp add: scene_bind_clear_def L1_def s1_def)
  have g: "get_scene L1 a = Some s1" using assms(1) get_put_scene [of a s1 L a] by (simp add: L1_def get_scene_def)
  show ?thesis using c g by (auto simp: scene_bind_get_list_def scene_bind_clear_def scene_bind_def bind_new_def index_free_def s1_def)
qed

theorem scene_bind_clear_dangles_witness:
  "\<exists>t L' calls. scene_bind_clear (\<lambda>q. NoErr) 1 1 ((scenes_example (scene_example\<lparr>pstPanel := [(20, panel_example)]\<rparr>))\<lparr>pHashTable := t\<rparr>) = Some (NoErr, L', calls) \<and>
     scene_bind_get_list 1 8 L' = None"
proof -
  obtain t where t: "ph_inv t" "nodes t = (\<lambda>k. [])" "chain_of t = Map.empty" by (rule example_table)
  let ?s = "scene_example\<lparr>pstPanel := [(20, panel_example)]\<rparr>"
  have "ph_inv (pHashTable ((scenes_example ?s)\<lparr>pHashTable := t\<rparr>))" "pstPanel ?s \<noteq> []" "\<not> panelFreed ?s" using t(1) by (simp_all add: scene_example_def)
  from scene_bind_clear_dangles [OF scenes_example_get this, of "\<lambda>q. NoErr" 1 8] show ?thesis by blast
qed

section \<open>Manual triggering\<close>

text \<open>Clearing the event conditions of a scene that can be triggered by hand deletes the row of that trigger and
  leaves the flag set. Adding the trigger again then reports success without writing a row, so that the
  scene loses it at the next start.\<close>

theorem manual_trigger_lost:
  assumes "get_scene L a = Some s" "ph_inv (pHashTable L)" "cManualTriggerFlag s = 1" "e_acKey c = ''Manual''"
  shows "\<exists>L' calls. scene_event_or_cond_clear db 1 a L =
      Some (NoErr, L', calls @ snd (event_cond_del_db db (pstEventCondList (stOrCond s)) manual_cond)) \<and>
    scene_event_or_cond_add rnd mem db a c L' = Some (NoErr, L', [])"
proof -
  obtain t where t: "clear_index (acSceneId s) (map event_key (conds_of (pstEventCondList (stOrCond s)))) (pHashTable L) = Some t"
    using clear_index_cleared [OF assms(2)] by blast
  define s1 where "s1 = upd_logic Or_Logic (pstEventCondList_update (\<lambda>_. (pstEventCondList (stOrCond s))\<lparr>iCount := 0, uiCondSetTrue := 0, sets := []\<rparr>)) s"
  define L1 where "L1 = (put_scene a s1 L)\<lparr>pHashTable := t\<rparr>"
  have g: "get_scene L1 a = Some s1" using assms(1) get_put_scene [of a s1 L a] by (simp add: L1_def get_scene_def)
  have f: "cManualTriggerFlag s1 = 1" using assms(3) by (simp add: s1_def upd_logic_def)
  have d: "event_cond_del_db db (pstEventCondList (stOrCond s1)) manual_cond = event_cond_del_db db (pstEventCondList (stOrCond s)) manual_cond"
    by (simp add: s1_def upd_logic_def event_cond_del_db_def db_send_def cond_where_def)
  have k: "strncmp (e_acKey c) ''Manual'' KEY_MAX_LEN = 0" using assms(4) by (simp add: strncmp_eq_0)
  obtain calls where "cond_clear_scene pstEventCondList pstEventCondList_update Or_Logic event_key (event_cond_del_db db) 1 a L = Some (NoErr, L1, calls)"
    using assms(1) t by (simp add: cond_clear_scene_def Let_def get_logic_def L1_def s1_def)
  then have "scene_event_or_cond_clear db 1 a L = Some (NoErr, L1, calls @ snd (event_cond_del_db db (pstEventCondList (stOrCond s)) manual_cond))"
    using g f d by (simp add: scene_event_or_cond_clear_def)
  moreover have "scene_event_or_cond_add rnd mem db a c L1 = Some (NoErr, L1, [])" using g f k by (simp add: scene_event_or_cond_add_def)
  ultimately show ?thesis by blast
qed

theorem manual_trigger_lost_witness:
  "\<exists>t L' calls. scene_event_or_cond_clear (\<lambda>q. NoErr) 1 1 ((scenes_example (scene_example\<lparr>cManualTriggerFlag := 1\<rparr>))\<lparr>pHashTable := t\<rparr>) = Some (NoErr, L', calls) \<and>
     scene_event_or_cond_add id (True, 2, 3, \<lambda>i. True, 4) (\<lambda>q. NoErr) 1 manual_cond L' = Some (NoErr, L', [])"
proof -
  obtain t where t: "ph_inv t" by (rule example_table)
  let ?s = "scene_example\<lparr>cManualTriggerFlag := 1\<rparr>"
  have "ph_inv (pHashTable ((scenes_example ?s)\<lparr>pHashTable := t\<rparr>))" "cManualTriggerFlag ?s = 1" "e_acKey manual_cond = ''Manual''"
    using t(1) by (simp_all add: manual_cond_def)
  from manual_trigger_lost [OF scenes_example_get this, of "\<lambda>q. NoErr" id "(True, 2, 3, \<lambda>i. True, 4)"] show ?thesis by blast
qed

section \<open>A full list\<close>

lemma find_all_nodes:
  assumes "ph_inv t" "nodes t k = n # ns"
  shows "ptr_hash_find_all t (Some k) \<noteq> NULL" "chain_of t (ptr_hash_find_all t (Some k)) = Some (n # ns)"
proof -
  obtain h where "ht_lookup (stHash t) k = Some h" using assms(2) by (fastforce simp: nodes_def split: option.splits)
  from ph_chain [OF assms(1) this] assms(2) show "ptr_hash_find_all t (Some k) \<noteq> NULL" "chain_of t (ptr_hash_find_all t (Some k)) = Some (n # ns)"
    by (simp_all add: ptr_hash_find_all_def)
qed

lemma full_insert:
  assumes "cl_wf l" "iCount l = 1024" "l = fget (get_logic lg s)" "ph_inv (pHashTable L)" "key_fits key" "\<forall>i. al i" "head \<noteq> NULL" "chain_of (pHashTable L) head = None"
  shows "\<exists>L' p. cond_insert fget fupd lg (cond_add_gen tail add_db ps pc) al head key a s c L = Some (SceneAddErr, L', p, []) \<and>
    p = zero_ptr\<lparr>acId := strncpy (acSceneId s) INDEX_MAX_LEN, pstScene := a\<rparr> \<and> one_scene a (upd_logic lg (fupd (\<lambda>_. l)) s) L L' \<and> index_put key p (pHashTable L) (pHashTable L')"
proof -
  define p where "p = zero_ptr\<lparr>acId := strncpy (acSceneId s) INDEX_MAX_LEN, pstScene := a\<rparr>"
  have "cond_place tail ps l = Some (Inl SceneAddErr)" using full_iff [OF assms(1)] assms(2) by (simp add: cond_place_def)
  then have f: "cond_add_gen tail add_db ps pc l c zero_ptr = Some (SceneAddErr, l, zero_ptr, [])" by (simp add: cond_add_gen_def)
  obtain t where t: "ptr_hash_inst al head (pHashTable L) (Some key) (Some p) = Some (NoErr, t)" "ph_inv t" "nodes t = (nodes (pHashTable L))(key := p # nodes (pHashTable L) key)"
    using ptr_hash_inst_refines [OF assms(4,5,7,8,6)] by blast
  have "pHashTable (put_scene a u L) = pHashTable L" for u by (simp add: put_scene_def)
  then show ?thesis using f t assms(3) by (simp add: cond_insert_def p_def [symmetric] one_scene_def index_put_def NoErr_def)
qed

text \<open>C33. A list holds 1024 conditions. Adding another event condition is refused with an error, but the index gets a record
  for it that leads nowhere: the next event of that device and key has no defined result.\<close>

theorem event_cond_add_full_breaks_events:
  assumes "get_scene L a = Some s" "scene_ok s" "ph_inv (pHashTable L)" "index_free (pHashTable L) (event_key c) (acSceneId s)"
    "mem_ok mem (pstEventCondList (get_logic lg s)) (pHashTable L)" "iCount (pstEventCondList (get_logic lg s)) = 1024" "e_acKey c \<noteq> ''Manual''"
    "cl_addr (pstEventCondList (stOrCond s)) \<noteq> NULL" "cl_addr (pstEventCondList (stAndCond s)) \<noteq> NULL" "acSceneEnable s \<noteq> ''0''"
  shows "\<exists>L'. (case lg of Or_Logic \<Rightarrow> scene_event_or_cond_add | And_Logic \<Rightarrow> scene_event_and_cond_add) rnd mem db a c L = Some (SceneAddErr, L', []) \<and>
    scene_list_event rnd db qmem smem now \<lparr>ev_acDevId = e_acDevId c, ev_acKey = e_acKey c, ev_acValue = v\<rparr> L' = None"
proof -
  obtain m ps pc al head where mem: "mem = (m, ps, pc, al, head)" by (metis prod.exhaust)
  have M: m "\<forall>i. al i" "head \<noteq> NULL" "chain_of (pHashTable L) head = None" using assms(5) by (auto simp: mem_ok_def mem)
  let ?l = "pstEventCondList (get_logic lg s)"
  have wf: "cl_wf ?l" using event_kind.logic_list(3) [OF assms(2) refl, of lg] by (simp add: list_ok_def)
  obtain L' p where r: "cond_insert pstEventCondList pstEventCondList_update lg (event_cond_add db ps pc) al head (event_key c) a s c L = Some (SceneAddErr, L', p, [])"
    "p = zero_ptr\<lparr>acId := strncpy (acSceneId s) INDEX_MAX_LEN, pstScene := a\<rparr>" "one_scene a (upd_logic lg (pstEventCondList_update (\<lambda>_. ?l)) s) L L'"
    "index_put (event_key c) p (pHashTable L) (pHashTable L')"
    using full_insert [where fget = pstEventCondList and fupd = pstEventCondList_update, OF wf assms(6) refl assms(3) key_fits_all(2) M(2-4)]
    unfolding event_cond_add_def [abs_def] by blast
  have put: "event_cond_put mem db lg a c L = Some (SceneAddErr, L', p, [])"
    using assms(1,4) M(1) r(1) by (simp add: event_cond_put_def mem index_free_def)
  have k: "strncmp (e_acKey c) ''Manual'' KEY_MAX_LEN \<noteq> 0" using assms(7) by (simp add: strncmp_eq_0_lit KEY_MAX_LEN_def)
  have add: "(case lg of Or_Logic \<Rightarrow> scene_event_or_cond_add | And_Logic \<Rightarrow> scene_event_and_cond_add) rnd mem db a c L = Some (SceneAddErr, L', [])"
    using put k by (cases lg) (simp_all add: scene_event_or_cond_add_def scene_event_and_cond_add_def status_defs)
  have "upd_logic lg (pstEventCondList_update (\<lambda>_. ?l)) s = s" by (cases lg) (simp_all add: upd_logic_def get_logic_def)
  then have g: "get_scene L' a = Some s" using one_scene_get [OF _ r(3)] assms(1) by simp
  have n: "nodes (pHashTable L') (event_key c) = p # nodes (pHashTable L) (event_key c)" "ph_inv (pHashTable L')" using r(4) by (simp_all add: index_put_def)
  have e: "strncmp (acSceneEnable s) ''0'' STATE_MAX_LEN \<noteq> 0" using assms(10) by (simp add: strncmp_eq_0_lit STATE_MAX_LEN_def)
  have "event_cond_one rnd db qmem smem now ev p L' = None" for ev
    using g e assms(8,9) by (simp add: event_cond_one_def cond_at_def find_list_def r(2) zero_ptr_def)
  then have "scene_list_event rnd db qmem smem now \<lparr>ev_acDevId = e_acDevId c, ev_acKey = e_acKey c, ev_acValue = v\<rparr> L' = None"
    using find_all_nodes [OF n(2,1)] by (simp add: scene_list_event_def Let_def event_key_def PRT_HASH_TYPE_COND_def)
  with add show ?thesis by blast
qed

definition full_list :: "event_cond cond_list" where
  "full_list = (empty_list 7 ''Or'' ''Event'')\<lparr>iCount := 1024, sets := map (\<lambda>k. \<lparr>sn_addr = 100 + k, iCondSetIndex = int k, uiCondTrue = 0, ucCondCount = 32,
     pstCond = map (\<lambda>j. \<lparr>cn_addr = 200 + j, iCondIndex = int j, stCond = event_example\<rparr>) [0..<32]\<rparr>) [0..<32]\<rparr>"

definition full_scene :: scene_info where
  "full_scene = scene_example\<lparr>stOrCond := (stOrCond scene_example)\<lparr>pstEventCondList := full_list\<rparr>\<rparr>"

lemma full_scene_ok: "scene_ok full_scene"
proof -
  have w: "\<forall>t \<in> set (sets full_list). set_wf t \<and> length (set_conds t) = 32 \<and> True \<notin> set (cond_truths t)"
    by (auto simp: full_list_def set_wf_def set_conds_def cond_truths_def distinct_map inj_on_def map_replicate_const)
  then have "conds_of full_list = concat (map set_conds (sets full_list))" "length (concat (map set_conds (sets full_list))) = 1024"
    using sum_full [of "sets full_list"] by (simp_all add: conds_of_sets full_list_def)
  then have "cl_wf full_list" using w by (auto simp: cl_wf_def) (auto simp: full_list_def distinct_map inj_on_def)
  then have "list_ok True full_list False" using w
    by (auto simp: list_ok_def list_spec_def junction_def empty_list_def) (auto simp: full_list_def empty_list_def)
  then show ?thesis using scene_example_ok
    by (simp add: scene_ok_def logic_ok_def full_scene_def scene_example_def scene_truth_def logic_count_def) (simp add: full_list_def empty_list_def)
qed

theorem event_cond_add_full_breaks_events_witness:
  "\<exists>t L'. scene_event_or_cond_add id (True, 50, 51, \<lambda>i. True, 52) (\<lambda>q. NoErr) 1 (event_example\<lparr>e_acDevId := ''d9''\<rparr>) ((scenes_example full_scene)\<lparr>pHashTable := t\<rparr>) = Some (SceneAddErr, L', []) \<and>
     scene_list_event id (\<lambda>q. NoErr) (\<lambda>n. True) (True, True) 100 \<lparr>ev_acDevId = ''d9'', ev_acKey = ''k'', ev_acValue = ''1''\<rparr> L' = None"
proof -
  obtain t where t: "ph_inv t" "nodes t = (\<lambda>k. [])" "chain_of t = Map.empty" by (rule example_table)
  let ?c = "event_example\<lparr>e_acDevId := ''d9''\<rparr>" and ?L = "(scenes_example full_scene)\<lparr>pHashTable := t\<rparr>" and ?l = "pstEventCondList (get_logic Or_Logic full_scene)"
  have i: "index_free (pHashTable ?L) (event_key ?c) (acSceneId full_scene)" using t empty_index_free by simp
  have m: "mem_ok (True, 50, 51, \<lambda>i. True, 52) ?l (pHashTable ?L)"
    using t(3) by (auto simp: mem_ok_def get_logic_def full_scene_def full_list_def set_addrs_def cond_addrs_def)
  have c: "iCount ?l = 1024" "e_acKey ?c \<noteq> ''Manual''" "cl_addr (pstEventCondList (stOrCond full_scene)) \<noteq> NULL" "cl_addr (pstEventCondList (stAndCond full_scene)) \<noteq> NULL"
    "acSceneEnable full_scene \<noteq> ''0''" "e_acDevId ?c = ''d9''" "e_acKey ?c = ''k''" "ph_inv (pHashTable ?L)"
    using t(1) by (simp_all add: get_logic_def full_scene_def full_list_def event_example_def empty_list_def scene_example_def event_list_example_def)
  from event_cond_add_full_breaks_events [OF scenes_example_get full_scene_ok c(8) i m c(1-5), where rnd = id and db = "\<lambda>q. NoErr" and qmem = "\<lambda>n. True" and smem = "(True, True)" and now = 100 and v = "''1''"] c(6,7)
  show ?thesis by auto
qed

end
