(* ===== verification/Scene_Manage.thy ===== *)
theory Scene_Manage
  imports Scene_Index
begin

text \<open>
  The scenes of the list: \<open>hylink/src/local_scene/scene_list.c\<close>, the data base writers \<open>scene_list_add_db\<close> to
  \<open>scene_list_set_db\<close> and the operations \<open>scene_list_clear\<close> to \<open>scene_list_get_list\<close>. A new scene goes to the head of
  the list; scenes are found by the first match of their identifier. Deleting a scene clears its conditions,
  actions and panels with their index records and rows (theory \<open>Scene_Index\<close>) and frees its lists.

  Addresses that \<open>calloc\<close> returns are parameters, \<open>NULL\<close> for a failure. \<open>None\<close> is an access through a null or
  freed pointer.
\<close>

section \<open>Data base writes\<close>

definition NAME_MAX_LEN :: nat where "NAME_MAX_LEN = 128"
definition DELAYED_MAX_LEN :: nat where "DELAYED_MAX_LEN = 16"
definition TIME_MAX_LEN :: nat where "TIME_MAX_LEN = 64"
definition NOTE_MAX_LEN :: nat where "NOTE_MAX_LEN = 128"
definition SCENE_BIND_MAX_NUM :: nat where "SCENE_BIND_MAX_NUM = 128"
definition DB_TABLE_NAME_SCENE :: string where "DB_TABLE_NAME_SCENE = ''scene_list''"

definition scene_list_add_db :: "(db_stmt \<Rightarrow> status) \<Rightarrow> scene_list \<Rightarrow> scene_info \<Rightarrow> status \<times> db_calls" where
  "scene_list_add_db db L s = db_write db (sl_ucInitFlag L) (Db_Insert DB_TABLE_NAME_SCENE
     [(''id'', acSceneId s), (''scene_name'', acSceneName s), (''scene_enable'', acSceneEnable s),
      (''exec_delayed'', acExecDelayed s), (''update_time'', acUpdateTime s), (''scene_note'', acNote s)]) SceneAddErr"

definition scene_list_del_db :: "(db_stmt \<Rightarrow> status) \<Rightarrow> scene_list \<Rightarrow> string \<Rightarrow> status \<times> db_calls" where
  "scene_list_del_db db L ident = db_write db (sl_ucInitFlag L) (Db_Delete DB_TABLE_NAME_SCENE [(''id'', ident)]) SceneDelErr"

definition scene_list_clear_db :: "(db_stmt \<Rightarrow> status) \<Rightarrow> scene_list \<Rightarrow> status \<times> db_calls" where
  "scene_list_clear_db db L = (if sl_ucInitFlag L = 1 then (NoErr, [])
     else (db (Db_Drop DB_TABLE_NAME_COND), map Db_Drop [DB_TABLE_NAME_SCENE, DB_TABLE_NAME_BIND_SCENE, DB_TABLE_NAME_ACTION, DB_TABLE_NAME_COND]))"

definition scene_list_set_db :: "(db_stmt \<Rightarrow> status) \<Rightarrow> scene_list \<Rightarrow> scene_info \<Rightarrow> status \<times> db_calls" where
  "scene_list_set_db db L s = db_write db (sl_ucInitFlag L) (Db_Update DB_TABLE_NAME_SCENE
     [(''scene_name'', acSceneName s), (''scene_enable'', acSceneEnable s), (''exec_delayed'', acExecDelayed s),
      (''update_time'', acUpdateTime s), (''scene_note'', acNote s)] [(''id'', acSceneId s)]) SceneAddErr"

section \<open>Adding and finding scenes\<close>

definition scene_compare :: "scene_info \<Rightarrow> string \<Rightarrow> int" where
  "scene_compare s ident = strncmp (acSceneId s) ident INDEX_MAX_LEN"

text \<open>Addresses of the node, the four condition lists (time and event conditions, any and all) and the action
  list. The test after the last condition list looks at the wrong pointer; where its allocation fails, the
  code goes on with a null list, for which the model has no result.\<close>

record scene_mem =
  m_node :: ptr
  m_time_or :: ptr
  m_event_or :: ptr
  m_time_and :: ptr
  m_event_and :: ptr
  m_action :: ptr

definition fresh_list :: "ptr \<Rightarrow> string \<Rightarrow> string \<Rightarrow> string \<Rightarrow> 'c cond_list option" where
  "fresh_list p ident lg kind = new_cond_list p \<lparr>ci_acId = ident, acLogic = lg, acCondType = kind\<rparr>"

definition copy_info :: "scene_info \<Rightarrow> scene_info \<Rightarrow> scene_info" where
  "copy_info src s = s\<lparr>acSceneName := strncpy (acSceneName src) NAME_MAX_LEN, acSceneEnable := strncpy (acSceneEnable src) STATE_MAX_LEN,
     acExecDelayed := strncpy (acExecDelayed src) DELAYED_MAX_LEN, acUpdateTime := strncpy (acUpdateTime src) TIME_MAX_LEN,
     acNote := strncpy (acNote src) NOTE_MAX_LEN\<rparr>"

definition new_scene :: "scene_info \<Rightarrow> time_cond cond_list \<Rightarrow> event_cond cond_list \<Rightarrow> time_cond cond_list \<Rightarrow> event_cond cond_list \<Rightarrow> ptr \<Rightarrow> scene_info" where
  "new_scene pstInfo lt1 le1 lt2 le2 act = copy_info pstInfo
     \<lparr>acSceneId = strncpy (acSceneId pstInfo) INDEX_MAX_LEN, acSceneName = [], cManualTriggerFlag = 0, acSceneEnable = [],
      acExecDelayed = [], acUpdateTime = [], acNote = [], ucSceneCondTrue = False, pstPanel = [], panelFreed = False,
      stOrCond = \<lparr>ucCondListTrue = 0, pstTimeCondList = lt1, pstEventCondList = le1\<rparr>,
      stAndCond = \<lparr>ucCondListTrue = 3, pstTimeCondList = lt2, pstEventCondList = le2\<rparr>, pstAction = act\<rparr>"

definition scene_list_add :: "scene_mem \<Rightarrow> (db_stmt \<Rightarrow> status) \<Rightarrow> scene_info \<Rightarrow> scene_list \<Rightarrow> (ptr \<times> scene_list \<times> db_calls) option" where
  "scene_list_add mem db pstInfo L =
     (if m_node mem = NULL then None
      else case (fresh_list (m_time_or mem) (acSceneId pstInfo) ''Or'' ''Time'', fresh_list (m_event_or mem) (acSceneId pstInfo) ''Or'' ''Event'',
                 fresh_list (m_time_and mem) (acSceneId pstInfo) ''And'' ''Time'') of
        (Some lt1, Some le1, Some lt2) \<Rightarrow> do {
          le2 \<leftarrow> fresh_list (m_event_and mem) (acSceneId pstInfo) ''And'' ''Event'';
          case new_action_list (m_action mem \<noteq> NULL) True (acSceneId pstInfo) of
            None \<Rightarrow> Some (NULL, L, [])
          | Some l \<Rightarrow>
              (let s = new_scene pstInfo lt1 le1 lt2 le2 (m_action mem);
                   L1 = L\<lparr>scenes := (m_node mem, s) # scenes L, actionLists := (actionLists L)(m_action mem \<mapsto> l)\<rparr>;
                   (iRet, calls) = scene_list_add_db db L1 s in
               Some (if iRet \<noteq> NoErr then NULL else m_node mem, L1, calls))
        }
      | _ \<Rightarrow> Some (NULL, L, []))"

text \<open>The search node is allocated for the comparison; without it nothing is found.\<close>

definition scene_find :: "bool \<Rightarrow> string \<Rightarrow> scene_list \<Rightarrow> (ptr \<times> scene_info) option" where
  "scene_find m ident L = (if m then List.find (\<lambda>(b, s). scene_compare s (strncpy ident INDEX_MAX_LEN) = 0) (scenes L) else None)"

definition scene_list_get :: "bool \<Rightarrow> string \<Rightarrow> scene_list \<Rightarrow> ptr" where
  "scene_list_get m ident L = (case scene_find m ident L of None \<Rightarrow> NULL | Some (b, s) \<Rightarrow> b)"

definition scene_list_get_list :: "nat \<Rightarrow> scene_list \<Rightarrow> status \<times> scene_info list" where
  "scene_list_get_list iMax L = (NoErr, take iMax (map snd (scenes L)))"

definition scene_list_set :: "bool \<Rightarrow> (db_stmt \<Rightarrow> status) \<Rightarrow> scene_info \<Rightarrow> scene_list \<Rightarrow> status \<times> scene_list \<times> db_calls" where
  "scene_list_set m db pstInfo L = (case scene_find m (acSceneId pstInfo) L of
     None \<Rightarrow> (NotFoundErr, L, [])
   | Some (b, s) \<Rightarrow>
       (let L1 = put_scene b (copy_info pstInfo s) L;
            (iRet, calls) = scene_list_set_db db L1 ((copy_info pstInfo pstInfo)\<lparr>acSceneId := strncpy (acSceneId pstInfo) INDEX_MAX_LEN\<rparr>) in
        (if iRet \<noteq> NoErr then SceneSetErr else NoErr, L1, calls)))"

section \<open>Deleting scenes\<close>

text \<open>What deleting does to one scene before its node goes: everything it has is cleared, its action list
  is destroyed.\<close>

definition scene_release :: "(db_stmt \<Rightarrow> status) \<Rightarrow> ptr \<Rightarrow> scene_list \<Rightarrow> (scene_list \<times> db_calls) option" where
  "scene_release db a L = do {
     (r1, L1, c1) \<leftarrow> scene_time_cond_clear Or_Logic db 1 a L;
     (r2, L2, c2) \<leftarrow> scene_event_or_cond_clear db 1 a L1;
     (r3, L3, c3) \<leftarrow> scene_time_cond_clear And_Logic db 1 a L2;
     (r4, L4, c4) \<leftarrow> scene_event_and_cond_clear db 1 a L3;
     (r5, L5, c5) \<leftarrow> scene_action_clear db 1 a L4;
     s \<leftarrow> get_scene L5 a;
     let L6 = L5\<lparr>actionLists := (actionLists L5)(pstAction s := None)\<rparr>;
     (r7, L7, c7) \<leftarrow> scene_bind_clear db 1 a L6;
     Some (L7, c1 @ c2 @ c3 @ c4 @ c5 @ c7)
   }"

definition scene_list_del :: "bool \<Rightarrow> (db_stmt \<Rightarrow> status) \<Rightarrow> string \<Rightarrow> scene_list \<Rightarrow> op_result" where
  "scene_list_del m db ident L = (case scene_find m ident L of
     None \<Rightarrow> Some (NotFoundErr, L, [])
   | Some (a, s) \<Rightarrow> do {
       (L1, calls) \<leftarrow> scene_release db a L;
       let L2 = L1\<lparr>scenes := filter (\<lambda>(b, _). b \<noteq> a) (scenes L1)\<rparr>;
       let (iRet, calls2) = scene_list_del_db db L2 (strncpy ident INDEX_MAX_LEN);
       Some (if iRet \<noteq> NoErr then SceneDelErr else NoErr, L2, calls @ calls2)
     })"

fun release_all :: "(db_stmt \<Rightarrow> status) \<Rightarrow> int \<Rightarrow> (ptr \<times> scene_info) list \<Rightarrow> scene_list \<Rightarrow> (scene_list \<times> db_calls) option" where
  "release_all db iClearDbFlag [] L = Some (L, [])"
| "release_all db iClearDbFlag ((a, s) # ss) L = do {
     (L1, c1) \<leftarrow> scene_release db a L;
     let c2 = (if iClearDbFlag = 1 then snd (scene_list_del_db db L1 (acSceneId s)) else []);
     (L2, c3) \<leftarrow> release_all db iClearDbFlag ss L1;
     Some (L2, c1 @ c2 @ c3)
   }"

definition scene_list_clear :: "(db_stmt \<Rightarrow> status) \<Rightarrow> int \<Rightarrow> scene_list \<Rightarrow> op_result" where
  "scene_list_clear db iClearDbFlag L = do {
     (L1, calls) \<leftarrow> release_all db iClearDbFlag (scenes L) L;
     Some (NoErr, L1\<lparr>scenes := []\<rparr>, calls)
   }"

section \<open>Devices that leave\<close>

text \<open>The code copies the conditions, actions and panels of a scene into arrays of fixed size and then deletes
  the ones of the device, one by one; the status of the deletions is ignored.\<close>

fun del_each :: "('x \<Rightarrow> scene_list \<Rightarrow> op_result) \<Rightarrow> 'x list \<Rightarrow> scene_list \<Rightarrow> (scene_list \<times> db_calls) option" where
  "del_each del [] L = Some (L, [])"
| "del_each del (x # xs) L = do {
     (r, L1, c1) \<leftarrow> del x L;
     (L2, c2) \<leftarrow> del_each del xs L1;
     Some (L2, c1 @ c2)
   }"

definition of_dev :: "string \<Rightarrow> ('x \<Rightarrow> string) \<Rightarrow> 'x list \<Rightarrow> 'x list" where
  "of_dev pDevId dev xs = filter (\<lambda>x. strncmp (dev x) pDevId DEV_ID_MAX_LEN = 0) xs"

definition dev_unregister_scene :: "(db_stmt \<Rightarrow> status) \<Rightarrow> string \<Rightarrow> ptr \<Rightarrow> scene_list \<Rightarrow> (scene_list \<times> db_calls) option" where
  "dev_unregister_scene db pDevId a L = do {
     (r1, es) \<leftarrow> scene_event_cond_get_list Or_Logic a COND_MAX_NUM L;
     (L1, c1) \<leftarrow> del_each (scene_event_or_cond_del db a) (of_dev pDevId e_acDevId es) L;
     (r2, es2) \<leftarrow> scene_event_cond_get_list And_Logic a COND_MAX_NUM L1;
     (L2, c2) \<leftarrow> del_each (scene_event_and_cond_del db a) (of_dev pDevId e_acDevId es2) L1;
     (r3, as) \<leftarrow> scene_action_get_list a ACTION_MAX_NUM L2;
     (L3, c3) \<leftarrow> del_each (scene_action_del True db a) (of_dev pDevId a_acDevId as) L2;
     (r4, pns) \<leftarrow> scene_bind_get_list a SCENE_BIND_MAX_NUM L3;
     (L4, c4) \<leftarrow> del_each (scene_unbind db a) (of_dev pDevId sp_acDevId pns) L3;
     Some (L4, c1 @ c2 @ c3 @ c4)
   }"

fun dev_unregister_loop :: "(db_stmt \<Rightarrow> status) \<Rightarrow> string \<Rightarrow> ptr list \<Rightarrow> scene_list \<Rightarrow> (scene_list \<times> db_calls) option" where
  "dev_unregister_loop db pDevId [] L = Some (L, [])"
| "dev_unregister_loop db pDevId (a # as) L = do {
     (L1, c1) \<leftarrow> dev_unregister_scene db pDevId a L;
     (L2, c2) \<leftarrow> dev_unregister_loop db pDevId as L1;
     Some (L2, c1 @ c2)
   }"

text \<open>Allocation of the three arrays; the third is used unchecked.\<close>

definition scene_list_dev_unregister :: "bool \<Rightarrow> bool \<Rightarrow> bool \<Rightarrow> (db_stmt \<Rightarrow> status) \<Rightarrow> string \<Rightarrow> scene_list \<Rightarrow> op_result" where
  "scene_list_dev_unregister m1 m2 m3 db pDevId L =
     (if \<not> m1 \<or> \<not> m2 then Some (HeapReqErr, L, [])
      else if \<not> m3 \<and> scenes L \<noteq> [] then None
      else do { (L1, calls) \<leftarrow> dev_unregister_loop db pDevId (map fst (scenes L)) L; Some (NoErr, L1, calls) })"

section \<open>Releasing a scene\<close>

text \<open>The keys under which the index may have records of a scene.\<close>

definition scene_keys :: "scene_info \<Rightarrow> string list" where
  "scene_keys s = map time_key (conds_of (pstTimeCondList (stOrCond s))) @ map event_key (conds_of (pstEventCondList (stOrCond s))) @
     map time_key (conds_of (pstTimeCondList (stAndCond s))) @ map event_key (conds_of (pstEventCondList (stAndCond s))) @
     map panel_key (map snd (pstPanel s))"

lemma get_scene_table [simp]: "get_scene (L\<lparr>pHashTable := t\<rparr>) b = get_scene L b" "get_scene (L\<lparr>actionLists := f\<rparr>) b = get_scene L b"
  by (simp_all add: get_scene_def)

lemma put_scene_fields [simp]:
  "pHashTable (put_scene a s L) = pHashTable L" "actionLists (put_scene a s L) = actionLists L" "pstExecQueue (put_scene a s L) = pstExecQueue L"
  "sl_ucInitFlag (put_scene a s L) = sl_ucInitFlag L" "map fst (scenes (put_scene a s L)) = map fst (scenes L)"
  "put_scene a s (L\<lparr>pHashTable := t\<rparr>) = (put_scene a s L)\<lparr>pHashTable := t\<rparr>" "put_scene a s (L\<lparr>actionLists := f\<rparr>) = (put_scene a s L)\<lparr>actionLists := f\<rparr>"
  by (simp_all add: put_scene_def case_prod_unfold if_distrib [of fst] cong: if_cong)

lemma get_scene_put: "get_scene L a = Some s \<Longrightarrow> get_scene (put_scene a s' L) a = Some s'"
  by (simp add: get_put_scene)

lemma upd_logic_same [simp]:
  "pstAction (upd_logic lg f s) = pstAction s" "pstPanel (upd_logic lg f s) = pstPanel s" "panelFreed (upd_logic lg f s) = panelFreed s"
  "acSceneId (upd_logic lg f s) = acSceneId s" "cManualTriggerFlag (upd_logic lg f s) = cManualTriggerFlag s"
  by (cases lg; simp add: upd_logic_def)+

lemma get_upd_logic: "get_logic lg' (upd_logic lg f s) = (if lg' = lg then f (get_logic lg s) else get_logic lg' s)"
  by (cases lg; cases lg') (simp_all add: get_logic_def upd_logic_def)

text \<open>A scene is complete when its action list exists and its panel list has not been freed.\<close>

definition scene_alive :: "scene_list \<Rightarrow> ptr \<Rightarrow> scene_info \<Rightarrow> bool" where
  "scene_alive L a s \<longleftrightarrow> get_scene L a = Some s \<and> actionLists L (pstAction s) \<noteq> None \<and> \<not> panelFreed s"

text \<open>A step of the release: the scene has become \<open>s'\<close>, the records under \<open>ks\<close> have left the index.\<close>

definition emptied :: "ptr \<Rightarrow> string list \<Rightarrow> scene_info \<Rightarrow> scene_info \<Rightarrow> scene_list \<Rightarrow> scene_list \<Rightarrow> bool" where
  "emptied a ks s s' L L' \<longleftrightarrow> get_scene L a = Some s \<and> acSceneId s' = acSceneId s \<and>
     (\<exists>t. L' = (put_scene a s' L)\<lparr>pHashTable := t\<rparr> \<and> cleared (acSceneId s) ks (pHashTable L) t)"

lemma emptied_next: "emptied a ks s s' L L' \<Longrightarrow> get_scene L' a = Some s' \<and> ph_inv (pHashTable L') \<and> actionLists L' = actionLists L"
  by (auto simp: emptied_def get_scene_put cleared_def)

lemma emptied_trans: "emptied a ks s s1 L L1 \<Longrightarrow> emptied a ks' s1 s2 L1 L2 \<Longrightarrow> emptied a (ks @ ks') s s2 L L2"
  using cleared_trans by (fastforce simp: emptied_def put_put_scene)

definition no_conds :: "'c cond_list \<Rightarrow> 'c cond_list" where
  "no_conds l = l\<lparr>iCount := 0, uiCondSetTrue := 0, sets := []\<rparr>"

lemma cond_clear_result:
  assumes "get_scene L a = Some s" "ph_inv (pHashTable L)"
  shows "\<exists>L' calls. cond_clear_scene fget fupd lg key del_db f a L = Some (NoErr, L', calls) \<and>
    emptied a (map key (conds_of (fget (get_logic lg s)))) s (upd_logic lg (fupd (\<lambda>_. no_conds (fget (get_logic lg s)))) s) L L'"
proof -
  let ?ks = "map key (conds_of (fget (get_logic lg s)))"
  obtain t where "clear_index (acSceneId s) ?ks (pHashTable L) = Some t" "cleared (acSceneId s) ?ks (pHashTable L) t"
    using clear_index_cleared [OF assms(2)] by blast
  with assms(1) show ?thesis by (auto simp: cond_clear_scene_def emptied_def no_conds_def Let_def)
qed

lemma event_or_clear_result:
  assumes "get_scene L a = Some s" "ph_inv (pHashTable L)"
  shows "\<exists>L' calls. scene_event_or_cond_clear db f a L = Some (NoErr, L', calls) \<and>
    emptied a (map event_key (conds_of (pstEventCondList (stOrCond s)))) s (upd_logic Or_Logic (pstEventCondList_update (\<lambda>_. no_conds (pstEventCondList (stOrCond s)))) s) L L'"
proof -
  obtain L' calls where r: "cond_clear_scene pstEventCondList pstEventCondList_update Or_Logic event_key (event_cond_del_db db) f a L = Some (NoErr, L', calls)"
    "emptied a (map event_key (conds_of (pstEventCondList (get_logic Or_Logic s)))) s
      (upd_logic Or_Logic (pstEventCondList_update (\<lambda>_. no_conds (pstEventCondList (get_logic Or_Logic s)))) s) L L'"
    using cond_clear_result [OF assms] by blast
  with emptied_next [OF r(2)] show ?thesis by (simp add: scene_event_or_cond_clear_def get_logic_def)
qed

lemma bind_clear_result:
  assumes "get_scene L a = Some s" "ph_inv (pHashTable L)" "\<not> panelFreed s"
  shows "\<exists>L' calls. scene_bind_clear db f a L = Some (NoErr, L', calls) \<and>
    emptied a (map panel_key (map snd (pstPanel s))) s (s\<lparr>pstPanel := [], panelFreed := pstPanel s \<noteq> []\<rparr>) L L'"
proof -
  obtain t where "clear_index (acSceneId s) (map panel_key (map snd (pstPanel s))) (pHashTable L) = Some t"
    "cleared (acSceneId s) (map panel_key (map snd (pstPanel s))) (pHashTable L) t"
    using clear_index_cleared [OF assms(2)] by blast
  with assms(1,3) show ?thesis by (auto simp: scene_bind_clear_def clear_panels_index emptied_def)
qed

lemma emptied_actions: "emptied a ks s s' (L\<lparr>actionLists := f\<rparr>) L' \<Longrightarrow> emptied a ks s s' L (L'\<lparr>actionLists := actionLists L\<rparr>)"
proof -
  assume e: "emptied a ks s s' (L\<lparr>actionLists := f\<rparr>) L'"
  then obtain t where t: "L' = (put_scene a s' (L\<lparr>actionLists := f\<rparr>))\<lparr>pHashTable := t\<rparr>" "cleared (acSceneId s) ks (pHashTable L) t"
    by (auto simp: emptied_def)
  have "L'\<lparr>actionLists := actionLists L\<rparr> = (put_scene a s' L)\<lparr>pHashTable := t\<rparr>"
    unfolding t(1) by (cases L) (simp add: put_scene_def)
  with e t(2) show ?thesis unfolding emptied_def by auto
qed

text \<open>The four condition lists, one after the other.\<close>

lemma release_conds:
  assumes s: "get_scene L a = Some s" and inv: "ph_inv (pHashTable L)"
  shows "\<exists>L1 L2 L3 L4 c1 c2 c3 c4 s'. scene_time_cond_clear Or_Logic db 1 a L = Some (NoErr, L1, c1) \<and>
    scene_event_or_cond_clear db 1 a L1 = Some (NoErr, L2, c2) \<and> scene_time_cond_clear And_Logic db 1 a L2 = Some (NoErr, L3, c3) \<and>
    scene_event_and_cond_clear db 1 a L3 = Some (NoErr, L4, c4) \<and>
    emptied a (map time_key (conds_of (pstTimeCondList (stOrCond s))) @ map event_key (conds_of (pstEventCondList (stOrCond s))) @
     map time_key (conds_of (pstTimeCondList (stAndCond s))) @ map event_key (conds_of (pstEventCondList (stAndCond s)))) s s' L L4 \<and>
    pstAction s' = pstAction s \<and> pstPanel s' = pstPanel s \<and> panelFreed s' = panelFreed s"
proof -
  define s1 where "s1 = upd_logic Or_Logic (pstTimeCondList_update (\<lambda>_. no_conds (pstTimeCondList (get_logic Or_Logic s)))) s"
  define s2 where "s2 = upd_logic Or_Logic (pstEventCondList_update (\<lambda>_. no_conds (pstEventCondList (stOrCond s1)))) s1"
  define s3 where "s3 = upd_logic And_Logic (pstTimeCondList_update (\<lambda>_. no_conds (pstTimeCondList (get_logic And_Logic s2)))) s2"
  define s4 where "s4 = upd_logic And_Logic (pstEventCondList_update (\<lambda>_. no_conds (pstEventCondList (get_logic And_Logic s3)))) s3"
  obtain L1 c1 where r1: "scene_time_cond_clear Or_Logic db 1 a L = Some (NoErr, L1, c1)"
    "emptied a (map time_key (conds_of (pstTimeCondList (get_logic Or_Logic s)))) s s1 L L1"
    unfolding scene_time_cond_clear_def s1_def using cond_clear_result [OF s inv] by blast
  note e1 = emptied_next [OF r1(2)]
  obtain L2 c2 where r2: "scene_event_or_cond_clear db 1 a L1 = Some (NoErr, L2, c2)"
    "emptied a (map event_key (conds_of (pstEventCondList (stOrCond s1)))) s1 s2 L1 L2"
    unfolding s2_def using event_or_clear_result [of L1 a s1 db 1] e1 by blast
  note e2 = emptied_next [OF r2(2)]
  obtain L3 c3 where r3: "scene_time_cond_clear And_Logic db 1 a L2 = Some (NoErr, L3, c3)"
    "emptied a (map time_key (conds_of (pstTimeCondList (get_logic And_Logic s2)))) s2 s3 L2 L3"
    unfolding scene_time_cond_clear_def s3_def using cond_clear_result [of L2 a s2] e2 by blast
  note e3 = emptied_next [OF r3(2)]
  obtain L4 c4 where r4: "scene_event_and_cond_clear db 1 a L3 = Some (NoErr, L4, c4)"
    "emptied a (map event_key (conds_of (pstEventCondList (get_logic And_Logic s3)))) s3 s4 L3 L4"
    unfolding scene_event_and_cond_clear_def s4_def using cond_clear_result [of L3 a s3] e3 by blast
  have k: "pstEventCondList (stOrCond s1) = pstEventCondList (stOrCond s)" "pstTimeCondList (get_logic And_Logic s2) = pstTimeCondList (stAndCond s)"
    "pstEventCondList (get_logic And_Logic s3) = pstEventCondList (stAndCond s)" "pstTimeCondList (get_logic Or_Logic s) = pstTimeCondList (stOrCond s)"
    by (simp_all add: s1_def s2_def s3_def upd_logic_def get_logic_def)
  have "pstAction s4 = pstAction s" "pstPanel s4 = pstPanel s" "panelFreed s4 = panelFreed s" by (simp_all add: s4_def s3_def s2_def s1_def)
  with emptied_trans [OF r1(2) emptied_trans [OF r2(2) emptied_trans [OF r3(2) r4(2)]]] r1(1) r2(1) r3(1) r4(1) show ?thesis
    unfolding k by blast
qed

lemma scene_release_result:
  assumes live: "scene_alive L a s" and inv: "ph_inv (pHashTable L)"
  shows "\<exists>L' s' calls. scene_release db a L = Some (L'\<lparr>actionLists := (actionLists L)(pstAction s := None)\<rparr>, calls) \<and> emptied a (scene_keys s) s s' L L'"
proof -
  have s: "get_scene L a = Some s" using live by (simp add: scene_alive_def)
  obtain L1 L2 L3 L4 c1 c2 c3 c4 s4 where r: "scene_time_cond_clear Or_Logic db 1 a L = Some (NoErr, L1, c1)"
    "scene_event_or_cond_clear db 1 a L1 = Some (NoErr, L2, c2)" "scene_time_cond_clear And_Logic db 1 a L2 = Some (NoErr, L3, c3)"
    "scene_event_and_cond_clear db 1 a L3 = Some (NoErr, L4, c4)"
    "emptied a (map time_key (conds_of (pstTimeCondList (stOrCond s))) @ map event_key (conds_of (pstEventCondList (stOrCond s))) @
     map time_key (conds_of (pstTimeCondList (stAndCond s))) @ map event_key (conds_of (pstEventCondList (stAndCond s)))) s s4 L L4"
    "pstAction s4 = pstAction s" "pstPanel s4 = pstPanel s" "panelFreed s4 = panelFreed s"
    using release_conds [OF s inv, of db] by (elim exE conjE) (rule that)
  note e = emptied_next [OF r(5)]
  obtain l where l: "actionLists L4 (pstAction s4) = Some l" using live e r(6) by (auto simp: scene_alive_def)
  define f where "f = (actionLists L)(pstAction s := None)"
  have g6: "get_scene (L4\<lparr>actionLists := f\<rparr>) a = Some s4" "ph_inv (pHashTable (L4\<lparr>actionLists := f\<rparr>))" "\<not> panelFreed s4"
    using e live r(8) by (simp_all add: scene_alive_def)
  obtain L7 c7 s7 where r7: "scene_bind_clear db 1 a (L4\<lparr>actionLists := f\<rparr>) = Some (NoErr, L7, c7)"
    "emptied a (map panel_key (map snd (pstPanel s4))) s4 s7 (L4\<lparr>actionLists := f\<rparr>) L7"
    using bind_clear_result [OF g6] by blast
  have r5: "scene_action_clear db 1 a L4 = Some (NoErr, put_actions (pstAction s) (l\<lparr>actions := []\<rparr>) L4, concat (map (\<lambda>x. snd (action_list_del_db db l x)) (actions l)))"
    using e l r(6) by (simp add: scene_action_clear_def scene_actions_def)
  have e6: "(put_actions (pstAction s) x L4)\<lparr>actionLists := (actionLists (put_actions (pstAction s) x L4))(pstAction s := None)\<rparr> = L4\<lparr>actionLists := f\<rparr>" for x
    using e by (simp add: put_actions_def f_def)
  have g5: "get_scene (put_actions (pstAction s) x L4) a = Some s4" for x using e by (simp add: put_actions_def get_scene_def)
  have "scene_release db a L = Some (L7, c1 @ c2 @ c3 @ c4 @ concat (map (\<lambda>x. snd (action_list_del_db db l x)) (actions l)) @ c7)"
    using r(1-4,6) r5 g5 e6 r7(1) by (simp add: scene_release_def Let_def)
  moreover have "L7 = L7\<lparr>actionLists := actionLists L4\<rparr>\<lparr>actionLists := f\<rparr>" using emptied_next [OF r7(2)] by simp
  ultimately show ?thesis using emptied_trans [OF r(5) emptied_actions [OF r7(2)]] r(7) unfolding f_def scene_keys_def append_assoc by metis
qed

section \<open>Properties of deleting a scene\<close>

text \<open>The index has no more records of a scene than the conditions and panels that the scene has.\<close>

definition accounted :: "ptr_hash_table \<Rightarrow> scene_info \<Rightarrow> bool" where
  "accounted t s \<longleftrightarrow> (\<forall>k. length (filter (of_id (acSceneId s)) (nodes t k)) \<le> count_list (scene_keys s) k)"

lemma cleared_all:
  assumes "cleared (acSceneId s) (scene_keys s) t t'" "accounted t s"
  shows "nodes t' k = filter (\<lambda>n. \<not> of_id (acSceneId s) n) (nodes t k)"
proof -
  have "filter (of_id (acSceneId s)) (nodes t' k) = []" using assms by (simp add: cleared_def accounted_def)
  then have "filter (\<lambda>n. \<not> of_id (acSceneId s) n) (nodes t' k) = nodes t' k" by (auto simp: filter_empty_conv filter_id_conv)
  then show ?thesis using assms(1) by (simp add: cleared_def)
qed

text \<open>C18. Deleting a scene that is found: it leaves the list, no record of it stays in the index, its action list is
  destroyed, its row is deleted last; the other scenes, the records of other identifiers and the other action
  lists are as before. The queue is not looked at.\<close>

theorem scene_list_del_complete:
  assumes "scene_find True ident L = Some (a, s)" "scene_alive L a s" "ph_inv (pHashTable L)"
    "accounted (pHashTable L) s" "scene_list_del_db db L (strncpy ident INDEX_MAX_LEN) = (NoErr, row)"
  shows "\<exists>L' calls. scene_list_del True db ident L = Some (NoErr, L', calls @ row) \<and>
    scenes L' = filter (\<lambda>(b, _). b \<noteq> a) (scenes L) \<and> ph_inv (pHashTable L') \<and>
    nodes (pHashTable L') = (\<lambda>k. filter (\<lambda>n. \<not> of_id (acSceneId s) n) (nodes (pHashTable L) k)) \<and>
    actionLists L' = (actionLists L)(pstAction s := None) \<and> pstExecQueue L' = pstExecQueue L"
proof -
  obtain L1 s' calls where r: "scene_release db a L = Some (L1\<lparr>actionLists := (actionLists L)(pstAction s := None)\<rparr>, calls)"
    "emptied a (scene_keys s) s s' L L1"
    using scene_release_result [OF assms(2,3)] by blast
  obtain t where t: "L1 = (put_scene a s' L)\<lparr>pHashTable := t\<rparr>" "cleared (acSceneId s) (scene_keys s) (pHashTable L) t"
    using r(2) by (auto simp: emptied_def)
  have f: "filter (\<lambda>(b, _). b \<noteq> a) (map (\<lambda>(b, t). if b = a then (b, s') else (b, t)) xs) = filter (\<lambda>(b, _). b \<noteq> a) xs" for xs
    by (induction xs) auto
  have "scene_list_del_db db (L'\<lparr>scenes := x\<rparr>) i = scene_list_del_db db L i" if "sl_ucInitFlag L' = sl_ucInitFlag L" for L' x i
    using that by (simp add: scene_list_del_db_def)
  then have "scene_list_del True db ident L = Some (NoErr, (L1\<lparr>actionLists := (actionLists L)(pstAction s := None),
      scenes := filter (\<lambda>(b, _). b \<noteq> a) (scenes L)\<rparr>), calls @ row)"
    using r(1) assms(1,5) f by (simp add: scene_list_del_def Let_def t(1) put_scene_def)
  moreover have "nodes t = (\<lambda>k. filter (\<lambda>n. \<not> of_id (acSceneId s) n) (nodes (pHashTable L) k))"
    using cleared_all [OF t(2) assms(4)] by auto
  ultimately show ?thesis using t by (simp add: cleared_def)
qed

text \<open>A scene whose execution is pending can be deleted: the entry stays in the queue, and the action list that it
  points to no longer exists.\<close>

theorem scene_list_del_leaves_pending:
  assumes "scene_alive L a s" "ph_inv (pHashTable L)" "scene_find True ident L = Some (a, s)" "mem (length (pstExecQueue L))"
  shows "\<exists>L1 r L2 calls q. scene_list_exec mem now s L = (NoErr, L1) \<and> scene_list_del True db ident L1 = Some (r, L2, calls) \<and>
    q \<in> set (pstExecQueue L2) \<and> q_pstAction q = pstAction s \<and> actionLists L2 (q_pstAction q) = None"
proof -
  define q where "q = \<lparr>iExecDelayed = atoi (acExecDelayed s), iTime = now, q_acSceneId = acSceneId s, q_pstAction = pstAction s\<rparr>"
  define L1 where "L1 = L\<lparr>pstExecQueue := pstExecQueue L @ [q]\<rparr>"
  have l: "scene_alive L1 a s" "ph_inv (pHashTable L1)" using assms(1,2) by (simp_all add: L1_def scene_alive_def get_scene_def)
  have f: "scene_find True ident L1 = Some (a, s)" using assms(3) by (simp add: L1_def scene_find_def)
  obtain L2 s' calls where r: "scene_release db a L1 = Some (L2\<lparr>actionLists := (actionLists L1)(pstAction s := None)\<rparr>, calls)"
    "emptied a (scene_keys s) s s' L1 L2"
    using scene_release_result [OF l] by blast
  have "pstExecQueue L2 = pstExecQueue L1" using r(2) by (auto simp: emptied_def)
  moreover have "scene_list_exec mem now s L = (NoErr, L1)" using assms(4) by (simp add: scene_list_exec_def L1_def q_def)
  moreover have "\<exists>r L3 calls. scene_list_del True db ident L1 = Some (r, L3, calls) \<and> pstExecQueue L3 = pstExecQueue L2 \<and> actionLists L3 (pstAction s) = None"
    using f r(1) by (simp add: scene_list_del_def Let_def case_prod_unfold)
  moreover have "q \<in> set (pstExecQueue L1)" "q_pstAction q = pstAction s" by (simp_all add: L1_def q_def)
  ultimately show ?thesis by metis
qed

text \<open>The list of the example, with an action list for its scene and an index without records.\<close>

definition alive_example :: "ptr_hash_table \<Rightarrow> scene_list" where
  "alive_example t = (scenes_example scene_example)\<lparr>pHashTable := t, actionLists := [pstAction scene_example \<mapsto> \<lparr>al_acId = ''s1'', al_ucInitFlag = 0, actions = []\<rparr>]\<rparr>"

lemma alive_example: "scene_alive (alive_example t) 1 scene_example" "scene_find True ''s1'' (alive_example t) = Some (1, scene_example)" "pHashTable (alive_example t) = t"
  by (simp_all add: scene_alive_def alive_example_def get_scene_def scenes_example_def scene_find_def scene_compare_def scene_example_def INDEX_MAX_LEN_def)

lemma alive_example_indexed:
  obtains t where "ph_inv t" "accounted t scene_example" "nodes t (event_key event_example) = [event_ptr]" "ptr_hash_find t (Some (event_key event_example)) (Some ''s1'') = Some (Some event_ptr)"
proof -
  obtain t where t: "ph_inv t" "nodes t = (\<lambda>k. [])(event_key event_example := [event_ptr])"
    "ptr_hash_find t (Some (event_key event_example)) (Some ''s1'') = Some (Some event_ptr)"
    by (rule example_table_with [of "event_key event_example" event_ptr "''s1''"]) (simp_all add: key_fits_all event_ptr_def INDEX_MAX_LEN_def)
  have "scene_keys scene_example = [event_key event_example]"
    by (simp add: scene_keys_def scene_example_def empty_list_def event_list_example_def conds_of_def)
  then have "accounted t scene_example" using t(2) by (simp add: accounted_def)
  with t that [of t] show thesis by simp
qed

theorem scene_list_del_complete_witness:
  "\<exists>t L' calls. ptr_hash_find t (Some (event_key event_example)) (Some ''s1'') = Some (Some event_ptr) \<and>
     scene_list_del True (\<lambda>q. NoErr) ''s1'' (alive_example t) = Some (NoErr, L', calls) \<and> scenes L' = [] \<and>
     nodes (pHashTable L') (event_key event_example) = []"
proof -
  obtain t where t: "ph_inv t" "accounted t scene_example" "nodes t (event_key event_example) = [event_ptr]" "ptr_hash_find t (Some (event_key event_example)) (Some ''s1'') = Some (Some event_ptr)"
    by (rule alive_example_indexed)
  have h: "ph_inv (pHashTable (alive_example t))" "accounted (pHashTable (alive_example t)) scene_example" using t by (simp_all add: alive_example)
  have d: "scene_list_del_db (\<lambda>q. NoErr) L i = (NoErr, snd (scene_list_del_db (\<lambda>q. NoErr) L i))" for L i
    by (simp add: scene_list_del_db_def db_write_def)
  have n: "filter (\<lambda>n. \<not> of_id (acSceneId scene_example) n) (nodes t (event_key event_example)) = []"
    using t(3) by (simp add: of_id_def event_ptr_def scene_example_def strncmp_eq_0)
  from scene_list_del_complete [OF alive_example(2,1) h d] t(4) n show ?thesis
    by (auto simp: alive_example) (auto simp: alive_example_def scenes_example_def)
qed

theorem scene_list_del_leaves_pending_witness:
  "\<exists>t L1 r L2 calls q. scene_list_exec (\<lambda>n. True) 100 scene_example (alive_example t) = (NoErr, L1) \<and>
     scene_list_del True (\<lambda>q. NoErr) ''s1'' L1 = Some (r, L2, calls) \<and> q \<in> set (pstExecQueue L2) \<and> actionLists L2 (q_pstAction q) = None"
proof -
  obtain t where "ph_inv t" by (rule example_table)
  then have "ph_inv (pHashTable (alive_example t))" by (simp add: alive_example)
  from scene_list_del_leaves_pending [OF alive_example(1) this alive_example(2), of "\<lambda>n. True" 100 "\<lambda>q. NoErr"] show ?thesis by blast
qed

section \<open>Properties of adding and changing scenes\<close>

text \<open>The addresses of a new scene: all allocations succeed, and the blocks are different from each other and from
  those in use.\<close>

definition scene_mem_ok :: "scene_mem \<Rightarrow> scene_list \<Rightarrow> bool" where
  "scene_mem_ok mem L \<longleftrightarrow> NULL \<notin> {m_node mem, m_time_or mem, m_event_or mem, m_time_and mem, m_event_and mem, m_action mem} \<and>
     m_time_or mem \<noteq> m_time_and mem \<and> m_event_or mem \<noteq> m_event_and mem \<and> m_node mem \<notin> set (map fst (scenes L))"

lemma fresh_list_ok:
  assumes "fresh_list p i (if any then ''Or'' else ''And'') kind = Some l"
  shows "list_ok any l (\<not> any)" "cl_addr l = p" "sets l = []" "iCount l = 0"
  using assms by (auto simp: fresh_list_def new_cond_list_def list_ok_def cl_wf_def conds_of_def list_spec_def junction_def list_size_def cond_size_def split: if_splits)

lemma new_scene_ok:
  assumes "fresh_list p1 i ''Or'' k1 = Some lt1" "fresh_list p2 i ''Or'' k2 = Some le1" "fresh_list p3 i ''And'' k3 = Some lt2" "fresh_list p4 i ''And'' k4 = Some le2"
    "p1 \<noteq> p3" "p2 \<noteq> p4"
  shows "scene_ok (new_scene info lt1 le1 lt2 le2 act)" "scene_keys (new_scene info lt1 le1 lt2 le2 act) = []"
  using assms fresh_list_ok [of p1 i True k1 lt1] fresh_list_ok [of p2 i True k2 le1] fresh_list_ok [of p3 i False k3 lt2] fresh_list_ok [of p4 i False k4 le2]
  by (simp_all add: scene_ok_def logic_ok_def new_scene_def copy_info_def scene_truth_def logic_count_def scene_keys_def conds_of_def)

lemma new_scene_added:
  assumes "scenes_ok L" "scene_mem_ok mem L"
  shows "\<exists>L' s. scene_list_add mem db info L =
      Some (if fst (scene_list_add_db db L s) = NoErr then m_node mem else NULL, L', snd (scene_list_add_db db L s)) \<and>
    scenes L' = (m_node mem, s) # scenes L \<and> scenes_ok L' \<and> scene_alive L' (m_node mem) s \<and> scene_keys s = [] \<and>
    scene_list_get True (acSceneId info) L' = m_node mem \<and> acSceneId s = strncpy (acSceneId info) INDEX_MAX_LEN \<and>
    s = copy_info info s \<and> actionLists L' (pstAction s) = Some \<lparr>al_acId = acSceneId s, al_ucInitFlag = 0, actions = []\<rparr> \<and>
    pHashTable L' = pHashTable L \<and> pstExecQueue L' = pstExecQueue L"
proof -
  let ?i = "acSceneId info"
  obtain lt1 :: "time_cond cond_list" where l1: "fresh_list (m_time_or mem) ?i ''Or'' ''Time'' = Some lt1" using assms(2) by (simp add: fresh_list_def new_cond_list_def scene_mem_ok_def)
  obtain le1 :: "event_cond cond_list" where l2: "fresh_list (m_event_or mem) ?i ''Or'' ''Event'' = Some le1" using assms(2) by (simp add: fresh_list_def new_cond_list_def scene_mem_ok_def)
  obtain lt2 :: "time_cond cond_list" where l3: "fresh_list (m_time_and mem) ?i ''And'' ''Time'' = Some lt2" using assms(2) by (simp add: fresh_list_def new_cond_list_def scene_mem_ok_def)
  obtain le2 :: "event_cond cond_list" where l4: "fresh_list (m_event_and mem) ?i ''And'' ''Event'' = Some le2" using assms(2) by (simp add: fresh_list_def new_cond_list_def scene_mem_ok_def)
  define s where "s = new_scene info lt1 le1 lt2 le2 (m_action mem)"
  define l where "l = \<lparr>al_acId = strncpy ?i INDEX_MAX_LEN, al_ucInitFlag = 0, actions = []\<rparr>"
  define L' where "L' = L\<lparr>scenes := (m_node mem, s) # scenes L, actionLists := (actionLists L)(m_action mem \<mapsto> l)\<rparr>"
  have mem: "m_node mem \<noteq> NULL" "m_action mem \<noteq> NULL" "m_time_or mem \<noteq> m_time_and mem" "m_event_or mem \<noteq> m_event_and mem" "m_node mem \<notin> set (map fst (scenes L))"
    using assms(2) by (auto simp: scene_mem_ok_def)
  note ok = new_scene_ok [OF l1 l2 l3 l4 mem(3,4), of info "m_action mem", folded s_def]
  have d: "scene_list_add_db db L' s = scene_list_add_db db L s" by (simp add: scene_list_add_db_def L'_def)
  have e: "scene_list_add mem db info L = Some (if fst (scene_list_add_db db L s) = NoErr then m_node mem else NULL, L', snd (scene_list_add_db db L s))"
    using mem l1 l2 l3 l4 d by (simp add: scene_list_add_def new_action_list_def s_def [symmetric] l_def [symmetric] L'_def [symmetric] case_prod_unfold Let_def)
  have f: "acSceneId s = strncpy ?i INDEX_MAX_LEN" "pstAction s = m_action mem" "\<not> panelFreed s" "s = copy_info info s"
    by (simp_all add: s_def new_scene_def copy_info_def)
  have "scenes_ok L'" using assms(1) ok(1) mem(5) by (simp add: scenes_ok_def L'_def)
  moreover have "scene_alive L' (m_node mem) s" "actionLists L' (pstAction s) = Some \<lparr>al_acId = acSceneId s, al_ucInitFlag = 0, actions = []\<rparr>"
    using f by (simp_all add: scene_alive_def L'_def get_scene_def l_def)
  moreover have "scene_list_get True ?i L' = m_node mem" by (simp add: scene_list_get_def scene_find_def scene_compare_def L'_def f(1) strncmp_eq_0)
  ultimately show ?thesis using e ok(2) f(1,4) by (intro exI [of _ L'] exI [of _ s]) (simp add: L'_def)
qed

text \<open>C19. Adding a scene: with all allocations successful the new scene is the first of the list, has no conditions and
  no index records of its own, satisfies the invariant, and is what a search for its identifier finds; its
  fields are those given, cut to their buffers. When the data base refuses the row, the result is a null
  pointer, but the scene is in the list all the same.\<close>

theorem scene_list_add_result:
  assumes "scenes_ok L" "scene_mem_ok mem L"
  shows "\<exists>L' s. scene_list_add mem db info L =
      Some (if fst (scene_list_add_db db L s) = NoErr then m_node mem else NULL, L', snd (scene_list_add_db db L s)) \<and>
    scenes L' = (m_node mem, s) # scenes L \<and> scenes_ok L' \<and> scene_alive L' (m_node mem) s \<and> scene_keys s = [] \<and>
    scene_list_get True (acSceneId info) L' = m_node mem \<and> acSceneId s = strncpy (acSceneId info) INDEX_MAX_LEN \<and>
    s = copy_info info s \<and> actionLists L' (pstAction s) = Some \<lparr>al_acId = acSceneId s, al_ucInitFlag = 0, actions = []\<rparr> \<and>
    pHashTable L' = pHashTable L \<and> pstExecQueue L' = pstExecQueue L"
  by (rule new_scene_added [OF assms])

definition scene_mem_example :: scene_mem where
  "scene_mem_example = \<lparr>m_node = 40, m_time_or = 41, m_event_or = 42, m_time_and = 43, m_event_and = 44, m_action = 45\<rparr>"

theorem scene_list_add_result_witness:
  "\<exists>L' L2 s s2 c c2. scene_list_add scene_mem_example (\<lambda>q. NoErr) (scene_example\<lparr>acSceneId := ''s2''\<rparr>) (scenes_example scene_example) = Some (40, L', c) \<and>
     scenes L' = [(40, s), (1, scene_example)] \<and> scene_list_get True ''s2'' L' = 40 \<and>
     scene_list_add scene_mem_example (\<lambda>q. SceneAddErr) (scene_example\<lparr>acSceneId := ''s2''\<rparr>) (scenes_example scene_example) = Some (NULL, L2, c2) \<and>
     scenes L2 = [(40, s2), (1, scene_example)]"
proof -
  let ?i = "scene_example\<lparr>acSceneId := ''s2''\<rparr>" and ?L = "scenes_example scene_example"
  have m: "scene_mem_ok scene_mem_example ?L" by (simp add: scene_mem_ok_def scene_mem_example_def scenes_example_def)
  have n: "m_node scene_mem_example = 40" "scenes ?L = [(1, scene_example)]" "acSceneId ?i = ''s2''" by (simp_all add: scene_mem_example_def scenes_example_def)
  have d: "fst (scene_list_add_db (\<lambda>q. NoErr) ?L s) = NoErr" for s by (simp add: scene_list_add_db_def db_write_def)
  have f: "fst (scene_list_add_db (\<lambda>q. SceneAddErr) ?L s) \<noteq> NoErr" for s by (simp add: scene_list_add_db_def db_write_def scenes_example_def status_defs)
  note r = scene_list_add_result [OF scenes_example_ok [OF scene_example_ok] m, where info = ?i, unfolded n]
  from r [of "\<lambda>q. NoErr"] r [of "\<lambda>q. SceneAddErr"] show ?thesis unfolding if_P [OF d] if_not_P [OF f] by blast
qed

text \<open>Changing a scene that is found replaces its texts by those given and nothing else; the row sent to the data
  base has the values that the scene now has.\<close>

theorem scene_list_set_result:
  assumes "scenes_ok L" "scene_find True (acSceneId info) L = Some (a, s)" "acSceneId s = strncpy (acSceneId info) INDEX_MAX_LEN"
  shows "\<exists>L' r s'. scene_list_set True db info L = (r, L', snd (scene_list_set_db db L s')) \<and>
    (r = NoErr \<longleftrightarrow> fst (scene_list_set_db db L s') = NoErr) \<and> get_scene L' a = Some s' \<and> scenes_ok L' \<and>
    s' = copy_info info s \<and> s' = s\<lparr>acSceneName := acSceneName s', acSceneEnable := acSceneEnable s', acExecDelayed := acExecDelayed s', acUpdateTime := acUpdateTime s', acNote := acNote s'\<rparr> \<and>
    (\<forall>b. b \<noteq> a \<longrightarrow> get_scene L' b = get_scene L b)"
proof -
  define s' where "s' = copy_info info s"
  have "(a, s) \<in> set (scenes L)" using assms(2) nth_mem by (fastforce simp: scene_find_def find_Some_iff)
  then have g: "get_scene L a = Some s" using assms(1) by (simp add: get_scene_def scenes_ok_def)
  have ok: "scene_ok s'" using get_scene_ok [OF assms(1) g] by (simp add: s'_def copy_info_def scene_ok_def scene_truth_def)
  have d: "scene_list_set_db db (put_scene a s' L) ((copy_info info info)\<lparr>acSceneId := strncpy (acSceneId info) INDEX_MAX_LEN\<rparr>) = scene_list_set_db db L s'"
    using assms(3) by (simp add: scene_list_set_db_def s'_def copy_info_def)
  have "scene_list_set True db info L = (if fst (scene_list_set_db db L s') \<noteq> NoErr then SceneSetErr else NoErr, put_scene a s' L, snd (scene_list_set_db db L s'))"
    using assms(2) d by (simp add: scene_list_set_def s'_def [symmetric] case_prod_unfold Let_def)
  moreover have "SceneSetErr \<noteq> NoErr" by (simp add: status_defs)
  moreover have "get_scene (put_scene a s' L) b = (if b = a then Some s' else get_scene L b)" for b
    using g by (simp add: get_put_scene)
  ultimately show ?thesis using put_scene_ok [OF assms(1) ok] by (simp add: s'_def copy_info_def)
qed

theorem scene_list_set_result_witness:
  "\<exists>L' r s'. scene_list_set True (\<lambda>q. NoErr) (scene_example\<lparr>acSceneName := ''night''\<rparr>) (scenes_example scene_example) = (r, L', snd (scene_list_set_db (\<lambda>q. NoErr) (scenes_example scene_example) s')) \<and>
     get_scene L' 1 = Some s' \<and> s' = scene_example\<lparr>acSceneName := ''night''\<rparr>"
proof -
  let ?i = "scene_example\<lparr>acSceneName := ''night''\<rparr>"
  have f: "scene_find True (acSceneId ?i) (scenes_example scene_example) = Some (1, scene_example)"
    by (simp add: scenes_example_def scene_find_def scene_compare_def scene_example_def INDEX_MAX_LEN_def)
  have i: "acSceneId scene_example = strncpy (acSceneId ?i) INDEX_MAX_LEN" by (simp add: scene_example_def INDEX_MAX_LEN_def)
  have c: "copy_info ?i scene_example = ?i"
    by (simp add: copy_info_def scene_example_def NAME_MAX_LEN_def STATE_MAX_LEN_def DELAYED_MAX_LEN_def TIME_MAX_LEN_def NOTE_MAX_LEN_def)
  from scene_list_set_result [OF scenes_example_ok [OF scene_example_ok] f i, of "\<lambda>q. NoErr"] c show ?thesis by metis
qed

section \<open>Clearing the list\<close>

text \<open>All scenes are complete, with identifiers and action lists of their own, and the index has no more records of them
  than they have conditions and panels.\<close>

definition list_alive :: "scene_list \<Rightarrow> (ptr \<times> scene_info) list \<Rightarrow> bool" where
  "list_alive L ss \<longleftrightarrow> (\<forall>(a, s) \<in> set ss. scene_alive L a s \<and> accounted (pHashTable L) s) \<and> distinct (map fst ss) \<and>
     distinct (map (take INDEX_MAX_LEN \<circ> acSceneId \<circ> snd) ss) \<and> distinct (map (pstAction \<circ> snd) ss)"

definition gone :: "scene_info list \<Rightarrow> ptr_info \<Rightarrow> bool" where
  "gone ss n \<longleftrightarrow> (\<exists>s \<in> set ss. of_id (acSceneId s) n)"

lemma of_id_other: "take INDEX_MAX_LEN i \<noteq> take INDEX_MAX_LEN j \<Longrightarrow> filter (of_id j) (filter (\<lambda>n. \<not> of_id i n) ns) = filter (of_id j) ns"
  by (induction ns) (auto simp: of_id_def strncmp_eq_0)

lemma list_alive_step:
  assumes "list_alive L ((a, s) # ss)" "emptied a (scene_keys s) s s' L L1" "L2 = L1\<lparr>actionLists := (actionLists L)(pstAction s := None)\<rparr>"
  shows "list_alive L2 ss" "nodes (pHashTable L2) k = filter (\<lambda>n. \<not> of_id (acSceneId s) n) (nodes (pHashTable L) k)"
proof -
  obtain t where t: "L1 = (put_scene a s' L)\<lparr>pHashTable := t\<rparr>" "cleared (acSceneId s) (scene_keys s) (pHashTable L) t" "get_scene L a = Some s"
    using assms(2) by (auto simp: emptied_def)
  have n: "nodes (pHashTable L2) k = filter (\<lambda>n. \<not> of_id (acSceneId s) n) (nodes (pHashTable L) k)" for k
    using cleared_all [OF t(2)] assms(1,3) t(1) by (simp add: list_alive_def)
  show "nodes (pHashTable L2) k = filter (\<lambda>n. \<not> of_id (acSceneId s) n) (nodes (pHashTable L) k)" by (rule n)
  have "scene_alive L2 b u \<and> accounted (pHashTable L2) u" if u: "(b, u) \<in> set ss" for b u
  proof -
    have d: "b \<noteq> a" "take INDEX_MAX_LEN (acSceneId s) \<noteq> take INDEX_MAX_LEN (acSceneId u)" "pstAction u \<noteq> pstAction s"
      using assms(1) u by (auto simp: list_alive_def rev_image_eqI)
    have "scene_alive L b u" "accounted (pHashTable L) u" using assms(1) u by (auto simp: list_alive_def)
    moreover have "filter (of_id (acSceneId u)) (nodes (pHashTable L2) k) = filter (of_id (acSceneId u)) (nodes (pHashTable L) k)" for k
      by (simp only: n of_id_other [OF d(2)])
    ultimately show ?thesis using d(1,3) t(3) by (simp add: scene_alive_def accounted_def) (simp add: assms(3) t(1) get_put_scene)
  qed
  then show "list_alive L2 ss" using assms(1) by (auto simp: list_alive_def)
qed

lemma release_all_result:
  assumes "list_alive L ss" "ph_inv (pHashTable L)"
  shows "\<exists>L' calls. release_all db f ss L = Some (L', calls) \<and> ph_inv (pHashTable L') \<and> pstExecQueue L' = pstExecQueue L \<and>
    nodes (pHashTable L') = (\<lambda>k. filter (\<lambda>n. \<not> gone (map snd ss) n) (nodes (pHashTable L) k)) \<and>
    (\<forall>p. actionLists L' p = (if p \<in> (pstAction \<circ> snd) ` set ss then None else actionLists L p))"
  using assms
proof (induction ss arbitrary: L)
  case (Cons x ss)
  obtain a s where x: "x = (a, s)" by (cases x)
  have l: "scene_alive L a s" using Cons.prems(1) by (simp add: list_alive_def x)
  obtain L1 s' c1 where r: "scene_release db a L = Some (L1\<lparr>actionLists := (actionLists L)(pstAction s := None)\<rparr>, c1)" "emptied a (scene_keys s) s s' L L1"
    using scene_release_result [OF l Cons.prems(2)] by blast
  define L2 where "L2 = L1\<lparr>actionLists := (actionLists L)(pstAction s := None)\<rparr>"
  note st = list_alive_step [OF Cons.prems(1) [unfolded x] r(2) L2_def]
  have "ph_inv (pHashTable L2)" "pstExecQueue L2 = pstExecQueue L" using r(2) by (auto simp: emptied_def cleared_def L2_def)
  with Cons.IH [OF st(1)] obtain L' calls where I: "release_all db f ss L2 = Some (L', calls)" "ph_inv (pHashTable L')" "pstExecQueue L' = pstExecQueue L"
    "nodes (pHashTable L') = (\<lambda>k. filter (\<lambda>n. \<not> gone (map snd ss) n) (nodes (pHashTable L2) k))"
    "\<forall>p. actionLists L' p = (if p \<in> (pstAction \<circ> snd) ` set ss then None else actionLists L2 p)" by metis
  have "nodes (pHashTable L') = (\<lambda>k. filter (\<lambda>n. \<not> gone (map snd (x # ss)) n) (nodes (pHashTable L) k))"
    using I(4) st(2) by (auto simp: x gone_def intro!: filter_cong)
  moreover have "\<exists>c. release_all db f (x # ss) L = Some (L', c)" using r(1) I(1) by (simp add: x Let_def L2_def)
  moreover have "\<forall>p. actionLists L' p = (if p \<in> (pstAction \<circ> snd) ` set (x # ss) then None else actionLists L p)"
    using I(5) by (simp add: x L2_def)
  ultimately show ?case using I(2,3) by blast
qed (simp add: gone_def)

text \<open>Clearing the list of scenes that are all complete: no scene, no action list of a scene and no record of a scene
  in the index is left. Only the queue of pending executions is as it was.\<close>

theorem scene_list_clear_result:
  assumes "list_alive L (scenes L)" "ph_inv (pHashTable L)"
  shows "\<exists>L' calls. scene_list_clear db iClearDbFlag L = Some (NoErr, L', calls) \<and> scenes L' = [] \<and> ph_inv (pHashTable L') \<and>
    nodes (pHashTable L') = (\<lambda>k. filter (\<lambda>n. \<not> gone (map snd (scenes L)) n) (nodes (pHashTable L) k)) \<and>
    (\<forall>p. actionLists L' p = (if p \<in> (pstAction \<circ> snd) ` set (scenes L) then None else actionLists L p)) \<and> pstExecQueue L' = pstExecQueue L"
proof -
  obtain L' calls where "release_all db iClearDbFlag (scenes L) L = Some (L', calls)" "ph_inv (pHashTable L')" "pstExecQueue L' = pstExecQueue L"
    "nodes (pHashTable L') = (\<lambda>k. filter (\<lambda>n. \<not> gone (map snd (scenes L)) n) (nodes (pHashTable L) k))"
    "\<forall>p. actionLists L' p = (if p \<in> (pstAction \<circ> snd) ` set (scenes L) then None else actionLists L p)"
    using release_all_result [OF assms, of db iClearDbFlag] by blast
  moreover from this(1) have "scene_list_clear db iClearDbFlag L = Some (NoErr, L'\<lparr>scenes := []\<rparr>, calls)" by (simp add: scene_list_clear_def)
  ultimately show ?thesis by (intro exI [of _ "L'\<lparr>scenes := []\<rparr>"] exI [of _ calls]) simp
qed

theorem scene_list_clear_result_witness:
  "\<exists>t L' calls. nodes t (event_key event_example) = [event_ptr] \<and> scene_list_clear (\<lambda>q. NoErr) 1 (alive_example t) = Some (NoErr, L', calls) \<and>
     scenes L' = [] \<and> nodes (pHashTable L') (event_key event_example) = []"
proof -
  obtain t where t: "ph_inv t" "accounted t scene_example" "nodes t (event_key event_example) = [event_ptr]" by (rule alive_example_indexed)
  have s: "scenes (alive_example t) = [(1, scene_example)]" by (simp add: alive_example_def scenes_example_def)
  have l: "list_alive (alive_example t) (scenes (alive_example t))" using t(2) alive_example by (simp add: s list_alive_def)
  have g: "gone (map snd (scenes (alive_example t))) event_ptr" by (simp add: s gone_def of_id_def event_ptr_def scene_example_def strncmp_eq_0)
  from scene_list_clear_result [OF l, of "\<lambda>q. NoErr" 1] t(1,3) g show ?thesis by (auto simp: alive_example(3))
qed

end
