(* ===== verification/Sine_Table.thy ===== *)
theory Sine_Table
  imports Complex_Main
begin

text \<open>
  The table of RFC 1321: entry \<open>i\<close> is the integer part of \<open>4294967296\<close> times the absolute value of the sine of \<open>i\<close> (in radians),
  for \<open>i\<close> from 1 to 64. The entries are computed from integer approximations of the sine and the cosine, scaled by
  \<open>2 ^ 128\<close>, with the addition theorems and a bound of the error; the approximation for \<open>1\<close> is the Maclaurin sum.
  Theory \<open>Md5\<close> compares the constants of the code with this table.
\<close>

definition sine_entry :: "nat \<Rightarrow> int" where
  "sine_entry i = \<lfloor>4294967296 * \<bar>sin (real i)\<bar>\<rfloor>"

definition scale :: int where "scale = 2 ^ 128"
definition sin_1 :: int where "sin_1 = 286337738405724074564845076175058320435"
definition cos_1 :: int where "cos_1 = 183855347493651442427684920285310598442"

section \<open>Approximations\<close>

text \<open>\<open>s\<close> and \<open>c\<close> are the scaled sine and cosine of \<open>x\<close>, up to the error \<open>e\<close>.\<close>

definition near :: "real \<Rightarrow> int \<times> int \<times> int \<Rightarrow> bool" where
  "near x t = (case t of (s, c, e) \<Rightarrow> \<bar>sin x * of_int scale - of_int s\<bar> \<le> of_int e \<and> \<bar>cos x * of_int scale - of_int c\<bar> \<le> of_int e)"

definition next_near :: "int \<times> int \<times> int \<Rightarrow> int \<times> int \<times> int" where
  "next_near t = (case t of (s, c, e) \<Rightarrow> ((s * cos_1 + c * sin_1) div scale, (c * cos_1 - s * sin_1) div scale, 2 * e + 3))"

lemma cos_bound: "\<bar>cos x - (\<Sum>m<n. cos_coeff m * x ^ m)\<bar> \<le> inverse (fact n) * \<bar>x :: real\<bar> ^ n"
proof -
  from Maclaurin_cos_expansion [of x n] obtain t where
    t: "cos x = (\<Sum>m<n. cos_coeff m * x ^ m) + (cos (t + 1/2 * real n * pi) / fact n) * x ^ n" by fast
  have "\<bar>c / fact n * x ^ n\<bar> \<le> inverse (fact n) * \<bar>x\<bar> ^ n" if "\<bar>c\<bar> \<le> 1" for c
    using mult_right_mono [OF that, of "inverse (fact n) * \<bar>x\<bar> ^ n"] by (simp add: abs_mult power_abs divide_inverse mult.assoc)
  from this [OF abs_cos_le_one] show ?thesis unfolding t add_diff_cancel_left' .
qed

lemma scaled_near:
  fixes x y d M k :: real
  assumes "\<bar>x - y\<bar> \<le> d" "\<bar>y * M - k\<bar> \<le> 3 / 4" "d * M \<le> 1 / 4" "0 \<le> M"
  shows "\<bar>x * M - k\<bar> \<le> 1"
proof -
  have "\<bar>x * M - y * M\<bar> = \<bar>x - y\<bar> * M" using assms(4) by (simp add: abs_mult flip: left_diff_distrib)
  also have "\<dots> \<le> d * M" using assms(1,4) by (rule mult_right_mono)
  finally show ?thesis using assms(2,3) by linarith
qed

lemma sin_1_sum: "\<bar>(\<Sum>m<36. sin_coeff m) * of_int scale - of_int sin_1\<bar> \<le> (3 / 4 :: real)"
  by (simp add: lessThan_nat_numeral sin_coeff_def fact_numeral scale_def sin_1_def)

lemma cos_1_sum: "\<bar>(\<Sum>m<36. cos_coeff m) * of_int scale - of_int cos_1\<bar> \<le> (3 / 4 :: real)"
  by (simp add: lessThan_nat_numeral cos_coeff_def fact_numeral scale_def cos_1_def)

lemma near_1: "near 1 (sin_1, cos_1, 1)"
proof -
  have s: "\<bar>sin 1 - (\<Sum>m<36. sin_coeff m)\<bar> \<le> inverse (fact 36 :: real)"
    using Maclaurin_sin_bound [of 1 36] by (simp only: power_one mult_1_right abs_one)
  have c: "\<bar>cos 1 - (\<Sum>m<36. cos_coeff m)\<bar> \<le> inverse (fact 36 :: real)"
    using cos_bound [of 1 36] by (simp only: power_one mult_1_right abs_one)
  have f: "inverse (fact 36) * of_int scale \<le> (1 / 4 :: real)" by (simp add: fact_numeral scale_def)
  have M: "0 \<le> (of_int scale :: real)" by (simp add: scale_def)
  show ?thesis using scaled_near [OF s sin_1_sum f M] scaled_near [OF c cos_1_sum f M] unfolding near_def by (simp only: prod.case of_int_1)
qed

lemma product_bound: "z = u + v \<Longrightarrow> \<bar>u\<bar> \<le> p * 1 \<Longrightarrow> \<bar>v\<bar> \<le> q * 1 \<Longrightarrow> \<bar>z\<bar> \<le> q + (p :: real)"
  by (simp add: abs_le_iff)

text \<open>A product of two approximations.\<close>

lemma product_near:
  fixes x y M :: real
  assumes "\<bar>x * M - a\<bar> \<le> e" "\<bar>y * M - b\<bar> \<le> 1" "\<bar>x\<bar> \<le> 1" "\<bar>b\<bar> \<le> M" "0 < M"
  shows "\<bar>x * y * M - a * b / M\<bar> \<le> e + 1"
proof -
  have "x * y * M - a * b / M = x * (y * M - b) + (x * M - a) * (b / M)" using assms(5) by (simp add: field_simps)
  moreover have "\<bar>x * (y * M - b)\<bar> \<le> 1 * 1" unfolding abs_mult using assms(2,3) by (intro mult_mono) simp_all
  moreover have "\<bar>(x * M - a) * (b / M)\<bar> \<le> e * 1" unfolding abs_mult using assms by (intro mult_mono) (simp_all add: divide_simps)
  ultimately show ?thesis by (rule product_bound)
qed

lemma sum_near: "\<bar>x - a\<bar> \<le> d \<Longrightarrow> \<bar>y - b\<bar> \<le> e \<Longrightarrow> \<bar>(x + y) - (a + b)\<bar> \<le> d + (e :: real)"
  "\<bar>x - a\<bar> \<le> d \<Longrightarrow> \<bar>y - b\<bar> \<le> e \<Longrightarrow> \<bar>(x - y) - (a - b)\<bar> \<le> d + (e :: real)"
  "\<bar>x - a\<bar> \<le> d \<Longrightarrow> \<bar>b - a\<bar> \<le> 1 \<Longrightarrow> \<bar>x - b\<bar> \<le> d + (1 :: real)"
  by (simp_all add: abs_le_iff)

lemma div_near: "\<bar>of_int (k div m) - of_int k / (of_int m :: real)\<bar> \<le> 1"
  using floor_correct [of "of_int k / (of_int m :: real)"] by (simp add: floor_divide_of_int_eq abs_le_iff)

lemma near_next:
  assumes "near x t"
  shows "near (x + 1) (next_near t)"
proof -
  obtain s c e where t: "t = (s, c, e)" by (cases t)
  let ?M = "of_int scale :: real"
  have M: "0 < ?M" by (simp add: scale_def)
  have x: "\<bar>sin x * ?M - of_int s\<bar> \<le> of_int e" "\<bar>cos x * ?M - of_int c\<bar> \<le> of_int e" using assms by (simp_all add: near_def t)
  have o: "\<bar>sin 1 * ?M - of_int sin_1\<bar> \<le> 1" "\<bar>cos 1 * ?M - of_int cos_1\<bar> \<le> 1" using near_1 by (simp_all add: near_def)
  have b: "\<bar>of_int sin_1\<bar> \<le> ?M" "\<bar>of_int cos_1\<bar> \<le> ?M" by (simp_all add: scale_def sin_1_def cos_1_def)
  note p = product_near [OF _ _ _ _ M]
  have 1: "\<bar>sin (x + 1) * ?M - of_int (s * cos_1 + c * sin_1) / ?M\<bar> \<le> 2 * of_int e + 2"
    using sum_near(1) [OF p [OF x(1) o(2) abs_sin_le_one b(2)] p [OF x(2) o(1) abs_cos_le_one b(1)]]
    by (simp add: sin_add distrib_right add_divide_distrib)
  have 2: "\<bar>cos (x + 1) * ?M - of_int (c * cos_1 - s * sin_1) / ?M\<bar> \<le> 2 * of_int e + 2"
    using sum_near(2) [OF p [OF x(2) o(2) abs_cos_le_one b(2)] p [OF x(1) o(1) abs_sin_le_one b(1)]]
    by (simp add: cos_add left_diff_distrib diff_divide_distrib)
  from sum_near(3) [OF 1 div_near] sum_near(3) [OF 2 div_near] show ?thesis by (simp add: near_def next_near_def t)
qed

section \<open>Reading off the entries\<close>

definition entry_at :: "int \<times> int \<times> int \<Rightarrow> int \<Rightarrow> bool" where
  "entry_at t k = (case t of (s, c, e) \<Rightarrow> k * 2 ^ 96 + e \<le> \<bar>s\<bar> \<and> \<bar>s\<bar> + e < (k + 1) * 2 ^ 96)"

fun entries_from :: "int \<times> int \<times> int \<Rightarrow> int list \<Rightarrow> bool" where
  "entries_from t [] = True"
| "entries_from t (k # ks) = (entry_at t k \<and> entries_from (next_near t) ks)"

lemma entry_near:
  assumes "near (real i) t" "entry_at t k"
  shows "sine_entry i = k"
proof -
  obtain s c e where t: "t = (s, c, e)" by (cases t)
  let ?M = "of_int scale :: real"
  have M: "?M = 4294967296 * 2 ^ 96" "0 < ?M" by (simp_all add: scale_def)
  have "\<bar>sin (real i) * ?M - of_int s\<bar> \<le> of_int e" using assms(1) by (simp add: near_def t)
  then have "\<bar>\<bar>sin (real i)\<bar> * ?M - \<bar>of_int s\<bar>\<bar> \<le> of_int e" using M(2) abs_triangle_ineq3 [of "sin (real i) * ?M" "of_int s"]
    by (simp add: abs_mult)
  moreover have "of_int (k * 2 ^ 96 + e) \<le> (of_int \<bar>s\<bar> :: real)" "of_int (\<bar>s\<bar> + e) < (of_int ((k + 1) * 2 ^ 96) :: real)"
    using assms(2) unfolding entry_at_def t of_int_le_iff of_int_less_iff by simp_all
  ultimately have "of_int k * 2 ^ 96 \<le> 4294967296 * \<bar>sin (real i)\<bar> * 2 ^ 96" "4294967296 * \<bar>sin (real i)\<bar> * 2 ^ 96 < (of_int k + 1) * (2 :: real) ^ 96"
    unfolding M(1) by simp_all
  then show ?thesis unfolding sine_entry_def by (intro floor_unique) simp_all
qed

lemma entries_near: "near (real i) t \<Longrightarrow> entries_from t ks \<Longrightarrow> map sine_entry [i..<i + length ks] = ks"
proof (induction t ks arbitrary: i rule: entries_from.induct)
  case (2 t k ks)
  have "near (real (Suc i)) (next_near t)" using near_next [OF "2.prems"(1)] by (simp add: add.commute)
  from "2.IH" [OF this] "2.prems"(2) have "map sine_entry [Suc i..<Suc i + length ks] = ks" by simp
  moreover have "sine_entry i = k" using entry_near "2.prems" by simp
  moreover have "[i..<i + length (k # ks)] = i # [Suc i..<Suc i + length ks]" by (subst upt_conv_Cons) simp_all
  ultimately show ?case by (simp only: list.map)
qed simp

definition sine_table :: "int list" where
  "sine_table = [3614090360, 3905402710, 606105819, 3250441966, 4118548399, 1200080426, 2821735955, 4249261313,
     1770035416, 2336552879, 4294925233, 2304563134, 1804603682, 4254626195, 2792965006, 1236535329,
     4129170786, 3225465664, 643717713, 3921069994, 3593408605, 38016083, 3634488961, 3889429448,
     568446438, 3275163606, 4107603335, 1163531501, 2850285829, 4243563512, 1735328473, 2368359562,
     4294588738, 2272392833, 1839030562, 4259657740, 2763975236, 1272893353, 4139469664, 3200236656,
     681279174, 3936430074, 3572445317, 76029189, 3654602809, 3873151461, 530742520, 3299628645,
     4096336452, 1126891415, 2878612391, 4237533241, 1700485571, 2399980690, 4293915773, 2240044497,
     1873313359, 4264355552, 2734768916, 1309151649, 4149444226, 3174756917, 718787259, 3951481745]"

lemma sine_table_check: "entries_from (sin_1, cos_1, 1) sine_table"
  by code_simp

text \<open>The table is the one of the sine.\<close>

lemma sine_entries: "map sine_entry [1..<65] = sine_table"
proof -
  have "length sine_table = 64" by (simp add: sine_table_def)
  with entries_near [of 1 "(sin_1, cos_1, 1)" sine_table, OF _ sine_table_check] near_1 show ?thesis by (simp only: of_nat_1) simp
qed

end
