(* ===== verification/Md5.thy ===== *)
theory Md5
  imports Honyar_Prelude Sine_Table
begin

text \<open>
  The message digest of \<open>hylink/hytoolsdk/src/misc/misc_api.c\<close>: \<open>MD5Init\<close>, \<open>MD5Update\<close>, \<open>MD5Final\<close> and their
  helpers, and the two entry points for data in memory and for a file. The code works on a stream: it
  keeps the bytes that do not fill a block in a buffer, and the number of bits in two 32-bit words. The
  specification (\<open>md5_spec\<close>, the algorithm of RFC 1321, written down from the RFC and with none of the code's
  definitions) works on the whole message: it appends the padding and the length, and applies the 64 operations to each
  block, with the constants taken from the sine. The main result is that the stream computes the
  specification, however the data is cut into pieces; tables, rotation, byte order and padding of the code are part of it.

  A byte is an 8-bit word, arithmetic on 32-bit words wraps. The length of a piece is an \<open>unsigned int\<close>; the
  bound of the block loop is computed as \<open>i + 64\<close>, which wraps for a piece of \<open>2 ^ 32 - 64\<close> bytes or more.
  The results of \<open>read\<close> are a list, a failure is \<open>None\<close>, and behind its end \<open>read\<close> returns \<open>0\<close> bytes.
\<close>

section \<open>Compression of a block\<close>

type_synonym md5_state = "u32 \<times> u32 \<times> u32 \<times> u32"

definition F_fun :: "u32 \<Rightarrow> u32 \<Rightarrow> u32 \<Rightarrow> u32" where "F_fun x y z = (x AND y) OR (NOT x AND z)"
definition G_fun :: "u32 \<Rightarrow> u32 \<Rightarrow> u32 \<Rightarrow> u32" where "G_fun x y z = (x AND z) OR (y AND NOT z)"
definition H_fun :: "u32 \<Rightarrow> u32 \<Rightarrow> u32 \<Rightarrow> u32" where "H_fun x y z = x XOR y XOR z"
definition I_fun :: "u32 \<Rightarrow> u32 \<Rightarrow> u32 \<Rightarrow> u32" where "I_fun x y z = y XOR (x OR NOT z)"

definition ROTATE_LEFT :: "u32 \<Rightarrow> nat \<Rightarrow> u32" where
  "ROTATE_LEFT x n = push_bit n x OR drop_bit (32 - n) x"

text \<open>One of the macros \<open>FF\<close>, \<open>GG\<close>, \<open>HH\<close>, \<open>II\<close>, applied to the four registers in the order of the call. Each
  call names the registers one place further to the right, so the step returns them rotated.\<close>

definition md5_step :: "(u32 \<Rightarrow> u32 \<Rightarrow> u32 \<Rightarrow> u32) \<Rightarrow> u32 list \<Rightarrow> nat \<times> nat \<times> u32 \<Rightarrow> md5_state \<Rightarrow> md5_state" where
  "md5_step f x k st = (case (k, st) of ((i, s, ac), (a, b, c, d)) \<Rightarrow>
     (d, ROTATE_LEFT (a + (f b c d + x ! i + ac)) s + b, b, c))"

text \<open>Index of the message word, rotation and constant of each call.\<close>

definition round1 :: "(nat \<times> nat \<times> u32) list" where
  "round1 = [(0, 7, 0xd76aa478), (1, 12, 0xe8c7b756), (2, 17, 0x242070db), (3, 22, 0xc1bdceee),
     (4, 7, 0xf57c0faf), (5, 12, 0x4787c62a), (6, 17, 0xa8304613), (7, 22, 0xfd469501),
     (8, 7, 0x698098d8), (9, 12, 0x8b44f7af), (10, 17, 0xffff5bb1), (11, 22, 0x895cd7be),
     (12, 7, 0x6b901122), (13, 12, 0xfd987193), (14, 17, 0xa679438e), (15, 22, 0x49b40821)]"

definition round2 :: "(nat \<times> nat \<times> u32) list" where
  "round2 = [(1, 5, 0xf61e2562), (6, 9, 0xc040b340), (11, 14, 0x265e5a51), (0, 20, 0xe9b6c7aa),
     (5, 5, 0xd62f105d), (10, 9, 0x2441453), (15, 14, 0xd8a1e681), (4, 20, 0xe7d3fbc8),
     (9, 5, 0x21e1cde6), (14, 9, 0xc33707d6), (3, 14, 0xf4d50d87), (8, 20, 0x455a14ed),
     (13, 5, 0xa9e3e905), (2, 9, 0xfcefa3f8), (7, 14, 0x676f02d9), (12, 20, 0x8d2a4c8a)]"

definition round3 :: "(nat \<times> nat \<times> u32) list" where
  "round3 = [(5, 4, 0xfffa3942), (8, 11, 0x8771f681), (11, 16, 0x6d9d6122), (14, 23, 0xfde5380c),
     (1, 4, 0xa4beea44), (4, 11, 0x4bdecfa9), (7, 16, 0xf6bb4b60), (10, 23, 0xbebfbc70),
     (13, 4, 0x289b7ec6), (0, 11, 0xeaa127fa), (3, 16, 0xd4ef3085), (6, 23, 0x4881d05),
     (9, 4, 0xd9d4d039), (12, 11, 0xe6db99e5), (15, 16, 0x1fa27cf8), (2, 23, 0xc4ac5665)]"

definition round4 :: "(nat \<times> nat \<times> u32) list" where
  "round4 = [(0, 6, 0xf4292244), (7, 10, 0x432aff97), (14, 15, 0xab9423a7), (5, 21, 0xfc93a039),
     (12, 6, 0x655b59c3), (3, 10, 0x8f0ccc92), (10, 15, 0xffeff47d), (1, 21, 0x85845dd1),
     (8, 6, 0x6fa87e4f), (15, 10, 0xfe2ce6e0), (6, 15, 0xa3014314), (13, 21, 0x4e0811a1),
     (4, 6, 0xf7537e82), (11, 10, 0xbd3af235), (2, 15, 0x2ad7d2bb), (9, 21, 0xeb86d391)]"

fun MD5Decode :: "u8 list \<Rightarrow> u32 list" where
  "MD5Decode (p # q # r # s # ds) =
     (ucast p OR push_bit 8 (ucast q) OR push_bit 16 (ucast r) OR push_bit 24 (ucast s)) # MD5Decode ds"
| "MD5Decode ds = []"

definition MD5Transform :: "md5_state \<Rightarrow> u8 list \<Rightarrow> md5_state" where
  "MD5Transform state block =
     (let x = MD5Decode (take 64 block);
          (a, b, c, d) = fold (md5_step I_fun x) round4 (fold (md5_step H_fun x) round3
            (fold (md5_step G_fun x) round2 (fold (md5_step F_fun x) round1 state)));
          (s0, s1, s2, s3) = state in
      (s0 + a, s1 + b, s2 + c, s3 + d))"

section \<open>The stream\<close>

record MD5_CTX =
  count0 :: u32
  count1 :: u32
  state :: md5_state
  buffer :: "u8 list"

definition PADDING :: "u8 list" where
  "PADDING = 0x80 # replicate 63 0"

text \<open>\<open>junk\<close> is the content of the buffer, which is not initialised.\<close>

definition MD5Init :: "u8 list \<Rightarrow> MD5_CTX" where
  "MD5Init junk = \<lparr>count0 = 0, count1 = 0, state = (0x67452301, 0xEFCDAB89, 0x98BADCFE, 0x10325476), buffer = junk\<rparr>"

text \<open>The loop over the whole blocks: the state after them and the bytes that are left.\<close>

function md5_loop :: "md5_state \<Rightarrow> u8 list \<Rightarrow> md5_state \<times> u8 list" where
  "md5_loop st input = (if 64 \<le> length input then md5_loop (MD5Transform st (take 64 input)) (drop 64 input) else (st, input))"
  by auto
termination by (relation "measure (\<lambda>(st, input). length input)") auto

declare md5_loop.simps [simp del]

definition overwrite :: "nat \<Rightarrow> 'a list \<Rightarrow> 'a list \<Rightarrow> 'a list" where
  "overwrite i ds buf = take i buf @ ds @ drop (i + length ds) buf"

definition MD5Update :: "MD5_CTX \<Rightarrow> u8 list \<Rightarrow> MD5_CTX" where
  "MD5Update context input =
     (let inputlen = (of_nat (length input) :: u32);
          index = unat (drop_bit 3 (count0 context) AND 0x3F);
          partlen = 64 - index;
          c0 = count0 context + push_bit 3 inputlen;
          c1 = (if c0 < push_bit 3 inputlen then count1 context + 1 else count1 context) + drop_bit 29 inputlen in
      if length input \<ge> partlen then
        let buf = overwrite index (take partlen input) (buffer context);
            (st, rest) = md5_loop (MD5Transform (state context) buf) (drop partlen input) in
        \<lparr>count0 = c0, count1 = c1, state = st, buffer = overwrite 0 rest buf\<rparr>
      else \<lparr>count0 = c0, count1 = c1, state = state context, buffer = overwrite index input (buffer context)\<rparr>)"

fun MD5Encode :: "u32 list \<Rightarrow> u8 list" where
  "MD5Encode [] = []"
| "MD5Encode (w # ws) = [ucast (w AND 0xFF), ucast (drop_bit 8 w AND 0xFF), ucast (drop_bit 16 w AND 0xFF),
     ucast (drop_bit 24 w AND 0xFF)] @ MD5Encode ws"

definition MD5Final :: "MD5_CTX \<Rightarrow> u8 list" where
  "MD5Final context =
     (let index = unat (drop_bit 3 (count0 context) AND 0x3F);
          padlen = (if index < 56 then 56 - index else 120 - index);
          bits = MD5Encode [count0 context, count1 context];
          context1 = MD5Update context (take padlen PADDING);
          (s0, s1, s2, s3) = state (MD5Update context1 bits) in
      MD5Encode [s0, s1, s2, s3])"

definition hex_digit :: "u8 \<Rightarrow> char" where
  "hex_digit n = ''0123456789abcdef'' ! unat n"

text \<open>The text that \<open>%02x\<close> prints for each byte.\<close>

definition hex_text :: "u8 list \<Rightarrow> string" where
  "hex_text ds = concat (map (\<lambda>d. [hex_digit (drop_bit 4 d), hex_digit (d AND 0xF)]) ds)"

definition MD5_Bin :: "u8 list \<Rightarrow> u8 list \<Rightarrow> string" where
  "MD5_Bin junk pucData = hex_text (MD5Final (MD5Update (MD5Init junk) pucData))"

fun md5_file_loop :: "MD5_CTX \<Rightarrow> u8 list option list \<Rightarrow> MD5_CTX option" where
  "md5_file_loop context [] = Some (MD5Update context [])"
| "md5_file_loop context (None # rs) = None"
| "md5_file_loop context (Some acData # rs) =
     (let context1 = MD5Update context acData in
      if length acData < 4096 then Some context1 else md5_file_loop context1 rs)"

text \<open>\<open>None\<close> is the return value \<open>-1\<close>.\<close>

definition MD5_File :: "u8 list \<Rightarrow> u8 list option list option \<Rightarrow> string option" where
  "MD5_File junk file = (case file of None \<Rightarrow> None
     | Some rs \<Rightarrow> map_option (\<lambda>context. hex_text (MD5Final context)) (md5_file_loop (MD5Init junk) rs))"

section \<open>Specification\<close>

text \<open>The algorithm of RFC 1321, section 3, on the whole message and without any of the definitions above. Bytes are joined to words
  and words split into bytes as numbers in base 256, low byte first; the 64 operations are numbered, and the
  message word, the rotation and the constant of an operation are given by its number; the constants are those of the
  sine (theory \<open>Sine_Table\<close>).\<close>

definition rfc_word :: "u8 list \<Rightarrow> nat \<Rightarrow> u32" where
  "rfc_word block j = of_nat (\<Sum>i<4. unat (block ! (4 * j + i)) * 256 ^ i)"

definition rfc_bytes :: "u32 \<Rightarrow> u8 list" where
  "rfc_bytes w = map (\<lambda>i. of_nat (unat w div 256 ^ i mod 256)) [0..<4]"

definition rfc_fun :: "nat \<Rightarrow> u32 \<Rightarrow> u32 \<Rightarrow> u32 \<Rightarrow> u32" where
  "rfc_fun n x y z = (if n < 16 then (x AND y) OR (NOT x AND z) else if n < 32 then (x AND z) OR (y AND NOT z)
     else if n < 48 then x XOR y XOR z else y XOR (x OR NOT z))"

definition rfc_index :: "nat \<Rightarrow> nat" where
  "rfc_index n = (if n < 16 then n else if n < 32 then 5 * n + 1 else if n < 48 then 3 * n + 5 else 7 * n) mod 16"

definition rfc_shift :: "nat \<Rightarrow> nat" where
  "rfc_shift n = [[7, 12, 17, 22], [5, 9, 14, 20], [4, 11, 16, 23], [6, 10, 15, 21]] ! (n div 16) ! (n mod 4)"

definition rfc_op :: "u8 list \<Rightarrow> nat \<Rightarrow> md5_state \<Rightarrow> md5_state" where
  "rfc_op block n st = (case st of (a, b, c, d) \<Rightarrow>
     (d, b + word_rotl (rfc_shift n) (a + rfc_fun n b c d + rfc_word block (rfc_index n) + of_int (sine_entry (n + 1))), b, c))"

definition rfc_block :: "u8 list \<Rightarrow> md5_state \<Rightarrow> md5_state" where
  "rfc_block block st = (case (st, fold (rfc_op block) [0..<64] st) of
     ((a0, b0, c0, d0), (a, b, c, d)) \<Rightarrow> (a0 + a, b0 + b, c0 + c, d0 + d))"

definition chunks :: "u8 list \<Rightarrow> u8 list list" where
  "chunks ds = map (\<lambda>i. take 64 (drop (64 * i) ds)) [0..<length ds div 64]"

text \<open>The padding of a message of \<open>n\<close> bytes: a one bit, zeros up to 8 bytes before the end of a block, and the number of
  bits in 8 bytes, low byte first, modulo \<open>2 ^ 64\<close>.\<close>

definition rfc_padding :: "nat \<Rightarrow> u8 list" where
  "rfc_padding n = 0x80 # replicate ((119 - n mod 64) mod 64) 0 @ map (\<lambda>i. of_nat (8 * n div 256 ^ i mod 256)) [0..<8]"

definition md5_spec :: "u8 list \<Rightarrow> u8 list" where
  "md5_spec ds = (case fold rfc_block (chunks (ds @ rfc_padding (length ds))) (0x67452301, 0xEFCDAB89, 0x98BADCFE, 0x10325476) of
     (a, b, c, d) \<Rightarrow> rfc_bytes a @ rfc_bytes b @ rfc_bytes c @ rfc_bytes d)"

section \<open>The compression is that of the specification\<close>

lemma rotate_left:
  assumes "0 < n" "n < 32"
  shows "ROTATE_LEFT x n = word_rotl n x"
proof (rule bit_word_eqI)
  fix m
  assume "m < LENGTH(32)"
  then have m: "m < 32" by simp
  define k where "k = 32 - n"
  have r: "bit (word_rotl n x) m \<longleftrightarrow> bit x ((m + k) mod 32)" using assms m unfolding bit_word_rotl_iff k_def by simp
  have l: "bit (ROTATE_LEFT x n) m \<longleftrightarrow> (n \<le> m \<and> bit x (m - n)) \<or> bit x (k + m)"
    using m by (auto simp: ROTATE_LEFT_def k_def bit_or_iff bit_push_bit_iff bit_drop_bit_eq)
  show "bit (ROTATE_LEFT x n) m = bit (word_rotl n x) m"
  proof (cases "n \<le> m")
    case True
    then have "(m + k) mod 32 = m - n" "\<not> bit x (k + m)" using assms m by (auto simp: k_def mod_if dest: bit_imp_le_length)
    then show ?thesis unfolding r l using True by simp
  next
    case False
    then have "(m + k) mod 32 = k + m" using assms m by (auto simp: k_def mod_if)
    then show ?thesis unfolding r l using False by simp
  qed
qed

lemma byte_or: "ucast (p :: u8) OR push_bit 8 w = ucast p + (push_bit 8 w :: u32)"
proof -
  have "ucast p AND push_bit 8 w = (0 :: u32)" by (rule bit_word_eqI) (auto simp: bit_simps dest: bit_imp_le_length)
  then show ?thesis by (simp add: disjunctive_add_eq_or)
qed

lemma decode_word:
  "ucast p OR push_bit 8 (ucast q) OR push_bit 16 (ucast r) OR push_bit 24 (ucast s) =
     (of_nat (unat p + unat q * 256 + unat r * 65536 + unat s * 16777216) :: u32)" for p q r s :: u8
proof -
  have "ucast p OR push_bit 8 (ucast q) OR push_bit 16 (ucast r) OR push_bit 24 (ucast s) =
      (ucast p OR push_bit 8 (ucast q OR push_bit 8 (ucast r OR push_bit 8 (ucast s))) :: u32)"
    by (simp add: push_bit_or or.assoc)
  also have "\<dots> = ucast p + push_bit 8 (ucast q + push_bit 8 (ucast r + push_bit 8 (ucast s)))" by (simp only: byte_or)
  finally show ?thesis by (simp add: push_bit_eq_mult algebra_simps)
qed

lemma rfc_word_0: "rfc_word (p # q # r # s # es) 0 = of_nat (unat p + unat q * 256 + unat r * 65536 + unat s * 16777216)"
proof -
  have "{..<4 :: nat} = {0, 1, 2, 3}" by auto
  then show ?thesis by (simp add: rfc_word_def numeral_2_eq_2 numeral_3_eq_3)
qed

lemma rfc_word_Suc: "rfc_word (p # q # r # s # es) (Suc j) = rfc_word es j"
proof -
  have "(p # q # r # s # es) ! (4 * Suc j + i) = es ! (4 * j + i)" for i by (simp add: numeral_eq_Suc)
  then show ?thesis by (simp only: rfc_word_def)
qed

lemma decode_words: "length ds = 4 * n \<Longrightarrow> MD5Decode ds = map (rfc_word ds) [0..<n]"
proof (induction n arbitrary: ds)
  case (Suc n)
  then obtain p q r s es where ds: "ds = p # q # r # s # es" "length es = 4 * n"
    by (auto simp: length_Suc_conv numeral_eq_Suc)
  have "map (rfc_word ds) [0..<Suc n] = rfc_word ds 0 # map (\<lambda>j. rfc_word ds (Suc j)) [0..<n]"
    by (simp add: upt_conv_Cons map_Suc_upt [symmetric] o_def del: upt_Suc)
  then show ?case using Suc.IH [OF ds(2)] unfolding ds(1) MD5Decode.simps decode_word rfc_word_0 rfc_word_Suc by simp
qed simp

lemma encode_word:
  "[ucast (w AND 0xFF), ucast (drop_bit 8 w AND 0xFF), ucast (drop_bit 16 w AND 0xFF), ucast (drop_bit 24 w AND 0xFF)] = rfc_bytes w"
  for w :: u32
proof -
  have m: "(0xFF :: u32) = mask 8" by code_simp
  have "ucast (drop_bit n w AND mask 8) = (of_nat (unat w div 2 ^ n mod 256) :: u8)" for n
  proof (rule word_unat_eq_iff [THEN iffD2])
    show "unat (ucast (drop_bit n w AND mask 8) :: u8) = unat (of_nat (unat w div 2 ^ n mod 256) :: u8)"
      using unsigned_less [of w, where ?'a = nat]
      by (simp add: unsigned_ucast_eq unsigned_take_bit_eq unsigned_drop_bit_eq unsigned_of_nat take_bit_nat_def drop_bit_nat_def flip: take_bit_eq_mask)
  qed
  note b = this
  have "[0..<4] = [0, 1, 2, 3 :: nat]" by (simp add: upt_rec)
  with b [of 0] b [of 8] b [of 16] b [of 24] show ?thesis unfolding m rfc_bytes_def by simp
qed

lemma encode_words: "MD5Encode ws = concat (map rfc_bytes ws)"
  by (induction ws) (simp_all only: MD5Encode.simps encode_word list.map concat.simps)

text \<open>The tables of the code are those of the specification.\<close>

definition rfc_call :: "nat \<Rightarrow> nat \<times> nat \<times> u32" where
  "rfc_call n = (rfc_index n, rfc_shift n, of_int (sine_entry (n + 1)))"

lemma sine_at: "n < 64 \<Longrightarrow> sine_entry (n + 1) = sine_table ! n"
  unfolding sine_entries [symmetric] by (simp del: upt_conv_Cons)

lemma rounds: "round1 = map rfc_call [0..<16]" "round2 = map rfc_call [16..<32]" "round3 = map rfc_call [32..<48]" "round4 = map rfc_call [48..<64]"
proof -
  have tab: "map rfc_call [m..<n] = map (\<lambda>n. (rfc_index n, rfc_shift n, of_int (sine_table ! n))) [m..<n]" if "n \<le> 64" for m n
    using that sine_at by (intro map_cong) (simp_all add: rfc_call_def)
  have t: "map rfc_call [0..<16] = map (\<lambda>n. (rfc_index n, rfc_shift n, of_int (sine_table ! n))) [0..<16]"
    "map rfc_call [16..<32] = map (\<lambda>n. (rfc_index n, rfc_shift n, of_int (sine_table ! n))) [16..<32]"
    "map rfc_call [32..<48] = map (\<lambda>n. (rfc_index n, rfc_shift n, of_int (sine_table ! n))) [32..<48]"
    "map rfc_call [48..<64] = map (\<lambda>n. (rfc_index n, rfc_shift n, of_int (sine_table ! n))) [48..<64]"
    by (rule tab, simp)+
  show "round1 = map rfc_call [0..<16]" "round2 = map rfc_call [16..<32]" "round3 = map rfc_call [32..<48]" "round4 = map rfc_call [48..<64]"
    unfolding t by code_simp+
qed

text \<open>A group of 16 operations, and the whole block.\<close>

lemma call_op:
  assumes "length block = 64" "n < 64" "f = rfc_fun n"
  shows "md5_step f (map (rfc_word block) [0..<16]) (rfc_call n) st = rfc_op block n st"
proof -
  have i: "rfc_index n < 16" by (simp add: rfc_index_def)
  have "n div 16 \<in> {0, 1, 2, 3}" "n mod 4 \<in> {0, 1, 2, 3}" using assms(2) by auto
  then have s: "0 < rfc_shift n" "rfc_shift n < 32" by (auto simp: rfc_shift_def numeral_2_eq_2 numeral_3_eq_3)
  show ?thesis using i assms(3)
    by (cases st) (simp add: md5_step_def rfc_call_def rfc_op_def rotate_left [OF s] add_ac)
qed

lemma calls_ops:
  assumes "length block = 64" "\<forall>n \<in> set ns. n < 64 \<and> f = rfc_fun n"
  shows "fold (md5_step f (map (rfc_word block) [0..<16])) (map rfc_call ns) st = fold (rfc_op block) ns st"
  using assms(2) by (induction ns arbitrary: st) (simp_all add: call_op [OF assms(1)])

lemma transform_block:
  assumes "length block = 64"
  shows "MD5Transform st block = rfc_block block st"
proof -
  have x: "MD5Decode (take 64 block) = map (rfc_word block) [0..<16]" using decode_words [of block 16] assms by simp
  have f: "n < 16 \<Longrightarrow> F_fun = rfc_fun n" "16 \<le> n \<and> n < 32 \<Longrightarrow> G_fun = rfc_fun n" "32 \<le> n \<and> n < 48 \<Longrightarrow> H_fun = rfc_fun n" "48 \<le> n \<Longrightarrow> I_fun = rfc_fun n" for n
    by (auto simp: fun_eq_iff rfc_fun_def F_fun_def G_fun_def H_fun_def I_fun_def)
  have 1: "\<forall>n \<in> set [0..<16]. n < 64 \<and> F_fun = rfc_fun n" and 2: "\<forall>n \<in> set [16..<32]. n < 64 \<and> G_fun = rfc_fun n"
    and 3: "\<forall>n \<in> set [32..<48]. n < 64 \<and> H_fun = rfc_fun n" and 4: "\<forall>n \<in> set [48..<64]. n < 64 \<and> I_fun = rfc_fun n"
    using f by auto
  have u: "[0..<64] = [0..<16] @ [16..<32] @ [32..<48] @ [48..<64]" by code_simp
  show ?thesis
    unfolding MD5Transform_def rfc_block_def x Let_def rounds u fold_append comp_apply calls_ops [OF assms 1] calls_ops [OF assms 2]
      calls_ops [OF assms 3] calls_ops [OF assms 4]
    by (simp split: prod.split)
qed

section \<open>Blocks\<close>

text \<open>The compression of the whole blocks of a message.\<close>

definition md5_hash :: "u8 list \<Rightarrow> md5_state \<Rightarrow> md5_state" where
  "md5_hash ds st = fold (\<lambda>b s. MD5Transform s b) (chunks ds) st"

lemma length_chunk: "b \<in> set (chunks ds) \<Longrightarrow> length b = 64"
proof -
  assume "b \<in> set (chunks ds)"
  then obtain i where "i < length ds div 64" "b = take 64 (drop (64 * i) ds)" by (auto simp: chunks_def)
  moreover from this have "64 * i + 64 \<le> length ds" by linarith
  ultimately show "length b = 64" by simp
qed

lemma md5_hash_spec: "md5_hash ds st = fold rfc_block (chunks ds) st"
  unfolding md5_hash_def by (rule fold_cong) (simp_all add: transform_block length_chunk)

lemma chunks_append_whole:
  assumes "64 dvd length us"
  shows "chunks (us @ vs) = chunks us @ chunks vs"
proof -
  obtain q where q: "length us = 64 * q" using assms by (auto elim: dvdE)
  have l: "length (us @ vs) div 64 = q + length vs div 64" using q by simp
  have "take 64 (drop (64 * i) (us @ vs)) = take 64 (drop (64 * i) us)" if "i < q" for i
    using that q by simp
  moreover have "map (\<lambda>i. take 64 (drop (64 * i) (us @ vs))) [q..<q + length vs div 64] = chunks vs"
    using q by (intro nth_equalityI) (simp_all add: chunks_def algebra_simps)
  ultimately show ?thesis
    unfolding chunks_def [of "us @ vs"] l upt_add_eq_append [of 0 q, simplified]
    by (simp add: chunks_def [of us] q)
qed

lemma chunks_single: "length us = 64 \<Longrightarrow> chunks us = [us]"
  by (simp add: chunks_def)

lemma chunks_short [simp]: "length us < 64 \<Longrightarrow> chunks us = []"
  by (simp add: chunks_def)

text \<open>The bytes that do not fill a block.\<close>

definition rest_of :: "u8 list \<Rightarrow> u8 list" where
  "rest_of ds = drop (64 * (length ds div 64)) ds"

lemma length_rest_of [simp]: "length (rest_of ds) = length ds mod 64"
  by (simp add: rest_of_def minus_mult_div_eq_mod)

lemma chunks_append: "chunks (ds @ es) = chunks ds @ chunks (rest_of ds @ es)"
proof -
  let ?q = "64 * (length ds div 64)"
  have q: "length (take ?q ds) = ?q" by simp
  have ds: "ds = take ?q ds @ rest_of ds" by (simp add: rest_of_def)
  have "chunks ds = chunks (take ?q ds) @ chunks (rest_of ds)"
    using chunks_append_whole [of "take ?q ds" "rest_of ds"] q ds by (metis dvd_triv_left)
  then have "chunks ds = chunks (take ?q ds)" by simp
  moreover have "chunks (ds @ es) = chunks (take ?q ds) @ chunks (rest_of ds @ es)"
    using chunks_append_whole [of "take ?q ds" "rest_of ds @ es"] q ds by (metis append.assoc dvd_triv_left)
  ultimately show ?thesis by simp
qed

lemma rest_of_whole:
  assumes "64 dvd length us"
  shows "rest_of (us @ vs) = rest_of vs"
proof -
  obtain q where q: "length us = 64 * q" using assms by (auto elim: dvdE)
  then have "length (us @ vs) div 64 = q + length vs div 64" by simp
  then show ?thesis using q by (simp add: rest_of_def algebra_simps)
qed

lemma rest_of_append: "rest_of (ds @ es) = rest_of (rest_of ds @ es)"
proof -
  let ?q = "64 * (length ds div 64)"
  have ds: "ds = take ?q ds @ rest_of ds" by (simp add: rest_of_def)
  have "64 dvd length (take ?q ds)" by simp
  from rest_of_whole [OF this, of "rest_of ds @ es"] ds show ?thesis by (metis append.assoc)
qed

lemma md5_hash_append: "md5_hash (ds @ es) st = md5_hash (rest_of ds @ es) (md5_hash ds st)"
  by (simp add: md5_hash_def chunks_append [of ds es])

lemma md5_loop_result: "md5_loop st ds = (md5_hash ds st, rest_of ds)"
proof (induction st ds rule: md5_loop.induct)
  case (1 st ds)
  show ?case
  proof (cases "64 \<le> length ds")
    case True
    have l: "length (take 64 ds) = 64" using True by simp
    have "rest_of (take 64 ds) = []" using l by (simp add: rest_of_def)
    with chunks_append [of "take 64 ds" "drop 64 ds"] have "chunks ds = take 64 ds # chunks (drop 64 ds)"
      using chunks_single [OF l] by simp
    moreover have "rest_of ds = rest_of (drop 64 ds)"
      using rest_of_append [of "take 64 ds" "drop 64 ds"] \<open>rest_of (take 64 ds) = []\<close> by simp
    ultimately show ?thesis using 1 True by (simp add: md5_loop.simps [of st] md5_hash_def)
  next
    case False
    then show ?thesis by (simp add: md5_loop.simps [of st] md5_hash_def rest_of_def)
  qed
qed

section \<open>Counter\<close>

lemma md5_index: "unat (drop_bit 3 (of_nat (8 * n) :: u32) AND 0x3F) = n mod 64"
proof -
  have m: "(0x3F :: u32) = mask 6" by code_simp
  have "unat (drop_bit 3 (of_nat k :: u32) AND mask 6) = (k mod 2 ^ 32 div 8) mod 64" for k
    by (simp add: unsigned_take_bit_eq unsigned_drop_bit_eq unsigned_of_nat take_bit_nat_def drop_bit_nat_def flip: take_bit_eq_mask)
  then have "unat (drop_bit 3 (of_nat (8 * n) :: u32) AND mask 6) = (8 * n mod 2 ^ 32 div 8) mod 64" by blast
  also have "8 * n mod 2 ^ 32 div 8 = n mod 2 ^ 29" using div_mult2_eq mult_mod_right [of 8 n "2 ^ 29"] by simp
  also have "n mod 2 ^ 29 mod 64 = n mod 64" by (simp add: mod_mod_cancel)
  finally show ?thesis unfolding m .
qed

lemma sum_carry:
  fixes a b W :: nat
  assumes "0 < W"
  shows "(a + b) div W = a div W + b div W + (if (a + b) mod W < b mod W then 1 else 0)"
proof -
  have "(a + b) div W = a div W + b div W + (a mod W + b mod W) div W" by (rule div_add1_eq)
  moreover have "a mod W < W" "b mod W < W" using assms by simp_all
  moreover have "(a mod W + b mod W) div W = (if (a + b) mod W < b mod W then 1 else 0)"
  proof (cases "a mod W + b mod W < W")
    case True
    then have "(a + b) mod W = a mod W + b mod W" using mod_add_eq [of a W b] by simp
    then show ?thesis using True by simp
  next
    case False
    moreover have "(x + y) div W = 1" if "x < W" "y < W" "\<not> x + y < W" for x y
      using that by (intro div_nat_eqI) simp_all
    ultimately have "(a mod W + b mod W) div W = 1" using \<open>a mod W < W\<close> \<open>b mod W < W\<close> by blast
    moreover have "(x + y) mod W = x + y - W" if "x < W" "y < W" "\<not> x + y < W" for x y
      using that by (simp add: le_mod_geq)
    then have "(a mod W + b mod W) mod W = a mod W + b mod W - W" using False \<open>a mod W < W\<close> \<open>b mod W < W\<close> by blast
    then have "(a + b) mod W = a mod W + b mod W - W" using mod_add_eq [of a W b] by simp
    then have "(a + b) mod W < b mod W" using False \<open>a mod W < W\<close> by linarith
    ultimately show ?thesis by simp
  qed
  ultimately show ?thesis by simp
qed

text \<open>The two words hold the number of bits of \<open>n\<close> bytes.\<close>

definition md5_counter :: "u32 \<Rightarrow> u32 \<Rightarrow> nat \<Rightarrow> bool" where
  "md5_counter c0 c1 n \<longleftrightarrow> c0 = of_nat (8 * n) \<and> c1 = of_nat (8 * n div 2 ^ 32)"

lemma md5_counter_add:
  assumes "md5_counter c0 c1 n" "m < 2 ^ 32" "d0 = c0 + push_bit 3 (of_nat m)"
    "d1 = (if d0 < push_bit 3 (of_nat m) then c1 + 1 else c1) + drop_bit 29 (of_nat m)"
  shows "md5_counter d0 d1 (n + m)"
proof -
  have p: "push_bit 3 (of_nat m :: u32) = of_nat (8 * m)" by (simp add: push_bit_eq_mult)
  have c: "d0 = of_nat (8 * n + 8 * m)" using assms(1,3) by (simp add: p md5_counter_def)
  have u: "unat (of_nat k :: u32) = k mod 2 ^ 32" for k by (simp add: unsigned_of_nat take_bit_nat_def)
  have l: "d0 < push_bit 3 (of_nat m) \<longleftrightarrow> (8 * n + 8 * m) mod 2 ^ 32 < 8 * m mod 2 ^ 32"
    unfolding c p word_less_nat_alt u by simp
  have "drop_bit 29 (of_nat m :: u32) = of_nat (8 * m div 2 ^ 32)"
    using assms(2) unfolding word_unat_eq_iff unsigned_drop_bit_eq u by (simp add: drop_bit_nat_def take_bit_nat_eq_self)
  moreover have "(if q then of_nat a + 1 else of_nat a) + of_nat b = (of_nat (a + b + (if q then 1 else 0)) :: u32)" for q a b
    by simp
  ultimately have "d1 = of_nat ((8 * n + 8 * m) div 2 ^ 32)"
    using assms(1) sum_carry [of "2 ^ 32" "8 * n" "8 * m"] unfolding assms(4) l md5_counter_def by (metis zero_less_numeral zero_less_power)
  with c show ?thesis by (simp add: md5_counter_def distrib_left)
qed

section \<open>The stream computes the specification\<close>

definition md5_init :: md5_state where
  "md5_init = (0x67452301, 0xEFCDAB89, 0x98BADCFE, 0x10325476)"

text \<open>The context after the bytes \<open>ds\<close>.\<close>

definition md5_inv :: "MD5_CTX \<Rightarrow> u8 list \<Rightarrow> bool" where
  "md5_inv ctx ds \<longleftrightarrow> length (buffer ctx) = 64 \<and> md5_counter (count0 ctx) (count1 ctx) (length ds) \<and>
     state ctx = md5_hash ds md5_init \<and> take (length (rest_of ds)) (buffer ctx) = rest_of ds"

lemma md5_inv_init: "length junk = 64 \<Longrightarrow> md5_inv (MD5Init junk) []"
  by (simp add: md5_inv_def MD5Init_def md5_hash_def md5_init_def rest_of_def md5_counter_def)

lemma md5_inv_index: "md5_inv ctx ds \<Longrightarrow> unat (drop_bit 3 (count0 ctx) AND 0x3F) = length (rest_of ds)"
  using md5_index [of "length ds"] by (simp add: md5_inv_def md5_counter_def)

lemma md5_update_counter:
  assumes "md5_inv ctx ds" "length es < 2 ^ 32"
  shows "md5_counter (count0 (MD5Update ctx es)) (count1 (MD5Update ctx es)) (length (ds @ es))"
proof -
  have "count0 (MD5Update ctx es) = count0 ctx + push_bit 3 (of_nat (length es))"
    by (simp add: MD5Update_def Let_def split: prod.split)
  moreover have "count1 (MD5Update ctx es) = (if count0 ctx + push_bit 3 (of_nat (length es)) < push_bit 3 (of_nat (length es))
      then count1 ctx + 1 else count1 ctx) + drop_bit 29 (of_nat (length es))"
    by (simp add: MD5Update_def Let_def split: prod.split)
  ultimately show ?thesis using md5_counter_add [OF _ assms(2)] assms(1) unfolding md5_inv_def length_append by metis
qed

lemma length_overwrite: "i + length ds \<le> length buf \<Longrightarrow> length (overwrite i ds buf) = length buf"
  by (simp add: overwrite_def)

text \<open>Filling the buffer completes a block.\<close>

lemma rest_of_whole_block: "length b = 64 \<Longrightarrow> rest_of b = []"
  by (simp add: rest_of_def)

lemma md5_block:
  assumes "length (rest_of ds @ es1) = 64"
  shows "md5_hash (ds @ es1 @ es2) st = md5_hash es2 (MD5Transform (md5_hash ds st) (rest_of ds @ es1))"
    "rest_of (ds @ es1 @ es2) = rest_of es2"
proof -
  let ?b = "rest_of ds @ es1"
  have e: "rest_of ds @ es1 @ es2 = ?b @ es2" by simp
  have "chunks (?b @ es2) = [?b] @ chunks es2"
    using chunks_append [of ?b es2] chunks_single [OF assms] rest_of_whole_block [OF assms] by simp
  then show "md5_hash (ds @ es1 @ es2) st = md5_hash es2 (MD5Transform (md5_hash ds st) ?b)"
    unfolding md5_hash_append [of ds "es1 @ es2"] e by (simp add: md5_hash_def)
  show "rest_of (ds @ es1 @ es2) = rest_of es2"
    unfolding rest_of_append [of ds "es1 @ es2"] e using rest_of_append [of ?b es2] rest_of_whole_block [OF assms] by simp
qed

lemma md5_short:
  assumes "length (rest_of ds @ es) < 64"
  shows "md5_hash (ds @ es) st = md5_hash ds st" "rest_of (ds @ es) = rest_of ds @ es"
proof -
  have "md5_hash (rest_of ds @ es) st1 = st1" for st1 using assms by (simp add: md5_hash_def del: length_append)
  then show "md5_hash (ds @ es) st = md5_hash ds st" by (simp add: md5_hash_append [of ds es])
  show "rest_of (ds @ es) = rest_of ds @ es" unfolding rest_of_append [of ds es] rest_of_def [of "rest_of ds @ es"] using assms by simp
qed

lemma md5_update_inv:
  assumes inv: "md5_inv ctx ds" and len: "length es < 2 ^ 32"
  shows "md5_inv (MD5Update ctx es) (ds @ es)"
proof -
  define k where "k = length (rest_of ds)"
  have k: "k < 64" by (simp add: k_def)
  note i = md5_inv_index [OF inv, folded k_def]
  have b: "length (buffer ctx) = 64" "take k (buffer ctx) = rest_of ds" "state ctx = md5_hash ds md5_init"
    using inv by (simp_all add: md5_inv_def k_def)
  note c = md5_update_counter [OF inv len]
  show ?thesis
  proof (cases "64 - k \<le> length es")
    case True
    let ?a = "take (64 - k) es" and ?r = "drop (64 - k) es"
    have lb: "length (rest_of ds @ ?a) = 64" using True k by (simp add: k_def)
    have buf: "overwrite k ?a (buffer ctx) = rest_of ds @ ?a" using b(1,2) True k by (simp add: overwrite_def)
    have u: "state (MD5Update ctx es) = md5_hash ?r (MD5Transform (state ctx) (rest_of ds @ ?a))"
      "buffer (MD5Update ctx es) = overwrite 0 (rest_of ?r) (rest_of ds @ ?a)"
      using True i buf by (simp_all add: MD5Update_def Let_def md5_loop_result)
    have "length (rest_of ?r) \<le> 64" by (simp add: less_imp_le)
    then have "length (buffer (MD5Update ctx es)) = 64" unfolding u(2) using lb by (subst length_overwrite) simp_all
    moreover have "take (length (rest_of ?r)) (buffer (MD5Update ctx es)) = rest_of ?r" unfolding u(2) by (simp add: overwrite_def)
    ultimately show ?thesis using c u(1) b(3) md5_block [OF lb, of ?r] by (simp add: md5_inv_def)
  next
    case False
    have l: "length (rest_of ds @ es) < 64" using False k by (simp add: k_def)
    have u: "state (MD5Update ctx es) = state ctx" "buffer (MD5Update ctx es) = overwrite k es (buffer ctx)"
      using False i by (simp_all add: MD5Update_def Let_def)
    have "take (length (rest_of ds @ es)) (overwrite k es (buffer ctx)) = rest_of ds @ es"
      using b(1,2) k by (simp add: overwrite_def k_def)
    moreover have "length (overwrite k es (buffer ctx)) = 64" using False b(1) by (subst length_overwrite) simp_all
    ultimately show ?thesis using c u b(3) md5_short [OF l] by (simp add: md5_inv_def)
  qed
qed

lemma length_encode [simp]: "length (MD5Encode ws) = 4 * length ws"
  by (induction ws) simp_all

text \<open>The two words of the counter are the eight bytes of the padding.\<close>

lemma counter_bytes: "MD5Encode [of_nat k, of_nat (k div 2 ^ 32)] = map (\<lambda>i. of_nat (k div 256 ^ i mod 256)) [0..<8]"
proof -
  have w: "unat (of_nat m :: u32) = m mod 2 ^ 32" for m by (simp add: unsigned_of_nat take_bit_nat_def)
  have d: "m mod 2 ^ 32 div 256 ^ i mod 256 = m div 256 ^ i mod 256" if "i < 4" for m i :: nat
  proof -
    have p: "(2 :: nat) ^ 32 = 256 ^ i * 256 ^ (4 - i)" using that by (simp flip: power_add)
    have "256 dvd (256 :: nat) ^ (4 - i)" using that by (intro dvd_power) simp
    then show ?thesis unfolding p mod_mult2_eq by (simp add: mod_mod_cancel)
  qed
  have b: "rfc_bytes (of_nat m) = map (\<lambda>i. of_nat (m div 256 ^ i mod 256)) [0..<4]" for m
    unfolding rfc_bytes_def w by (rule map_cong) (simp_all only: d set_upt atLeastLessThan_iff)
  have e: "k div 2 ^ 32 div 256 ^ i = k div 256 ^ (i + 4)" for i by (simp add: div_mult2_eq [symmetric] power_add mult.commute)
  have "[0..<8] = [0..<4] @ map (\<lambda>i. i + 4) [0..<4]" by code_simp
  then show ?thesis by (simp only: encode_words list.map concat.simps b e map_append map_map comp_def append_Nil2)
qed

lemma md5_final_spec:
  assumes "md5_inv ctx ds"
  shows "MD5Final ctx = md5_spec ds"
proof -
  define k where "k = length (rest_of ds)"
  have k: "k < 64" "k = length ds mod 64" by (simp_all add: k_def)
  define pad where "pad = take (if k < 56 then 56 - k else 120 - k) PADDING"
  define bits where "bits = MD5Encode [count0 ctx, count1 ctx]"
  have pad: "pad = 0x80 # replicate ((119 - k) mod 64) 0"
    unfolding pad_def PADDING_def using k(1) by (cases "k < 56") (auto simp: take_Cons' min_def mod_if)
  have bits: "bits = MD5Encode [of_nat (8 * length ds), of_nat (8 * length ds div 2 ^ 32)]"
    using assms unfolding bits_def md5_inv_def md5_counter_def by simp
  have p: "rfc_padding (length ds) = pad @ bits" unfolding rfc_padding_def pad bits counter_bytes k(2) by simp
  have "length pad < 2 ^ 32" by (simp add: pad)
  from md5_update_inv [OF assms this] have "md5_inv (MD5Update ctx pad) (ds @ pad)" .
  from md5_update_inv [OF this, of bits] have "state (MD5Update (MD5Update ctx pad) bits) = md5_hash ((ds @ pad) @ bits) md5_init"
    by (simp add: md5_inv_def bits)
  then show ?thesis
    unfolding MD5Final_def Let_def md5_inv_index [OF assms, folded k_def] pad_def [symmetric] bits_def [symmetric] md5_spec_def p
    by (simp add: md5_init_def md5_hash_spec encode_words split: prod.split)
qed

lemma md5_updates_inv:
  assumes "md5_inv ctx ds" "\<forall>es \<in> set ess. length es < 2 ^ 32"
  shows "md5_inv (foldl MD5Update ctx ess) (ds @ concat ess)"
  using assms
proof (induction ess arbitrary: ctx ds)
  case (Cons es ess)
  from md5_update_inv [OF Cons.prems(1), of es] Cons.prems(2) Cons.IH [of "MD5Update ctx es" "ds @ es"] show ?case by simp
qed simp

section \<open>Properties\<close>

text \<open>C27. The code computes MD5: however the message is cut into pieces, and whatever the buffer holds at the start, the digest of the
  stream is the one that RFC 1321 defines for the whole message, with its padding, its byte order, its 64
  operations per block and its constants, the integer parts of \<open>2 ^ 32\<close> times the absolute sine of 1 to 64. A piece is
  shorter than \<open>2 ^ 32 - 64\<close> bytes, the bound up to which the loop counter does not wrap.\<close>

theorem md5_stream_correct:
  assumes "length junk = 64" "\<forall>es \<in> set ess. length es < 2 ^ 32 - 64"
  shows "MD5Final (foldl MD5Update (MD5Init junk) ess) = md5_spec (concat ess)"
proof -
  have "\<forall>es \<in> set ess. length es < 2 ^ 32" using assms(2) by fastforce
  from md5_updates_inv [OF md5_inv_init [OF assms(1)] this] show ?thesis by (simp add: md5_final_spec)
qed

theorem md5_stream_correct_witness:
  "md5_spec [0x61, 0x62, 0x63] = [0x90, 0x01, 0x50, 0x98, 0x3c, 0xd2, 0x4f, 0xb0, 0xd6, 0x96, 0x3f, 0x7d, 0x28, 0xe1, 0x7f, 0x72]"
proof -
  have "MD5Final (foldl MD5Update (MD5Init (replicate 64 7)) [[0x61, 0x62], [], [0x63]]) =
      [0x90, 0x01, 0x50, 0x98, 0x3c, 0xd2, 0x4f, 0xb0, 0xd6, 0x96, 0x3f, 0x7d, 0x28, 0xe1, 0x7f, 0x72]" by code_simp
  with md5_stream_correct [of "replicate 64 7" "[[0x61, 0x62], [], [0x63]]"] show ?thesis by simp
qed

text \<open>The pieces in which a file is read.\<close>

function file_reads :: "u8 list \<Rightarrow> u8 list option list" where
  "file_reads ds = (if length ds < 4096 then [Some ds] else Some (take 4096 ds) # file_reads (drop 4096 ds))"
  by auto
termination by (relation "measure length") auto

declare file_reads.simps [simp del]

lemma md5_file_loop_result:
  "md5_inv ctx es \<Longrightarrow> \<exists>ctx'. md5_file_loop ctx (file_reads ds) = Some ctx' \<and> md5_inv ctx' (es @ ds)"
proof (induction ds arbitrary: ctx es rule: file_reads.induct)
  case (1 ds)
  show ?case
  proof (cases "length ds < 4096")
    case True
    then show ?thesis using md5_update_inv [OF 1(2), of ds] by (simp add: file_reads.simps [of ds])
  next
    case False
    have "md5_inv (MD5Update ctx (take 4096 ds)) (es @ take 4096 ds)" using md5_update_inv [OF 1(2)] by simp
    from 1(1) [OF False this] False show ?thesis by (simp add: file_reads.simps [of ds])
  qed
qed

text \<open>The digest of a file that is read to its end is the digest of its contents, the same text that
  \<open>MD5_Bin\<close> returns for the contents in memory; a read error is reported as an error and no digest.\<close>

theorem md5_file_is_md5_bin:
  assumes "length junk = 64" "length junk2 = 64" "length ds < 2 ^ 32 - 64"
  shows "MD5_File junk (Some (file_reads ds)) = Some (MD5_Bin junk2 ds) \<and> MD5_Bin junk2 ds = hex_text (md5_spec ds) \<and>
    MD5_File junk (Some (map Some (replicate n (replicate 4096 b)) @ [None])) = None"
proof -
  from md5_file_loop_result [OF md5_inv_init [OF assms(1)], of ds] obtain ctx where
    c: "md5_file_loop (MD5Init junk) (file_reads ds) = Some ctx" "md5_inv ctx ds" by auto
  have "MD5_Bin junk2 ds = hex_text (md5_spec ds)"
    using md5_update_inv [OF md5_inv_init [OF assms(2)], of ds] assms(3) by (simp add: MD5_Bin_def md5_final_spec)
  moreover have "md5_file_loop ctx (map Some (replicate n (replicate 4096 b)) @ [None]) = None" for ctx
    by (induction n arbitrary: ctx) simp_all
  ultimately show ?thesis using c md5_final_spec [OF c(2)] by (simp add: MD5_File_def)
qed

theorem md5_file_is_md5_bin_witness:
  "MD5_File (replicate 64 0) (Some (file_reads (replicate 5000 1))) = Some (MD5_Bin (replicate 64 9) (replicate 5000 1))"
  using md5_file_is_md5_bin [of "replicate 64 0" "replicate 64 9" "replicate 5000 1"] by simp

text \<open>The digest of the empty message is the one that RFC 1321 gives as its first test value.\<close>

theorem md5_empty_test_vector: "MD5_Bin (replicate 64 0) [] = ''d41d8cd98f00b204e9800998ecf8427e''"
  by code_simp

end
