(* ===== verification/Scene_Run.thy ===== *)
theory Scene_Run
  imports Scene_Index
begin

text \<open>
  The engine with its tasks interleaved: device reports, the thread \<open>scene_cond\<close>, the thread \<open>scene_exec\<close> and activations by hand, over the
  definitions of theory \<open>Scene_Exec\<close>. A task is not atomic: it is a sequence of steps, one per condition, panel or queue entry, between which the
  other tasks may run. The theory shows that an uninterrupted handler or pass is such a sequence, that every step keeps
  the scenes consistent and in their places, and that what a task has still to visit stays valid whatever the others do.
\<close>

section \<open>The running engine\<close>

text \<open>The tasks of the engine run interleaved: device reports are handled, the thread \<open>scene_cond\<close> checks the time conditions, the thread
  \<open>scene_exec\<close> works off the queue, and scenes are activated by hand. The event handlers take no lock, and \<open>scene_exec\<close> holds
  \<open>scene_lock\<close> only while it runs the actions of one entry, so that a task is not atomic. The steps here are the smallest units after which
  the scenes are in a consistent state: the evaluation of one condition with the propagation of its truth, the handling of one
  panel, and one entry of the queue. Any number of reports and checks may be under way at once, and between two steps of one of them the
  others may make any number of steps; no lock is assumed. What is assumed is that one such step is not interrupted by another
  one, which the code does not ensure for the event handlers.

  A report that is being handled has the conditions (or panels) that are still to be visited; a check has the time conditions of the
  current list and the lists that are still to be visited.\<close>

datatype task =
    Event_Task event "ptr_info list"
  | Panel_Task "ptr_info list"
  | Check_Task "ptr_info list" "(logic \<times> ptr) list"

text \<open>\<open>cursor\<close>: the position of the execution thread in the queue, when it makes a pass.\<close>

record engine =
  eng :: scene_list
  tasks :: "task list"
  cursor :: "nat option"

inductive task_step :: "task \<Rightarrow> scene_list \<Rightarrow> task \<Rightarrow> scene_list \<Rightarrow> bool" where
  event: "event_cond_one rnd db mem smem now e p L = Some (st, L', calls) \<Longrightarrow>
    task_step (Event_Task e (p # ps)) L (Event_Task e (if st = NoErr then ps else [])) L'"
| panel: "event_panels mem now [p] L = Some (st, L', calls) \<Longrightarrow> task_step (Panel_Task (p # ps)) L (Panel_Task ps) L'"
| visit: "get_scene L a = Some s \<Longrightarrow>
    task_step (Check_Task [] ((lg, a) # ls)) L (Check_Task (cond_ptrs a s (pstTimeCondList (get_logic lg s))) ls) L"
| check: "time_cond_one mem tm now p L = Some L' \<Longrightarrow> task_step (Check_Task (p # ps) ls) L (Check_Task ps ls) L'"

text \<open>The lists that a check visits: for each scene that of any and that of all conditions.\<close>

definition check_lists :: "scene_list \<Rightarrow> (logic \<times> ptr) list" where
  "check_lists L = concat (map (\<lambda>(a, s). [(Or_Logic, a), (And_Logic, a)]) (scenes L))"

definition cond_key :: "event \<Rightarrow> string" where
  "cond_key e = snprintf KEY_MAX_LEN (ev_acDevId e @ ev_acKey e @ ''cond'')"

definition bind_key :: "event \<Rightarrow> string" where
  "bind_key e = snprintf KEY_MAX_LEN (ev_acDevId e @ ev_acKey e @ ev_acValue e @ ''scene_bind'')"

text \<open>The steps. A report is looked up in the index (\<open>report_conds\<close>, \<open>report_panels\<close>) and becomes a task; so does the check of each
  minute; a task goes on by one step; the execution thread sends what the synchronisation has to send, starts a pass, handles one entry,
  and may end the pass at any entry. The label is what the step executes.\<close>

inductive engine_step :: "engine \<Rightarrow> exec_step list \<Rightarrow> engine \<Rightarrow> bool" where
  report_conds: "ptr_hash_find_all (pHashTable (eng S)) (Some (cond_key e)) = h \<Longrightarrow> h \<noteq> NULL \<Longrightarrow> chain_of (pHashTable (eng S)) h = Some ps \<Longrightarrow>
    engine_step S [] (S\<lparr>tasks := tasks S @ [Event_Task e ps]\<rparr>)"
| report_panels: "ptr_hash_find_all (pHashTable (eng S)) (Some (cond_key e)) = NULL \<Longrightarrow> ptr_hash_find_all (pHashTable (eng S)) (Some (bind_key e)) = h \<Longrightarrow>
    h \<noteq> NULL \<Longrightarrow> chain_of (pHashTable (eng S)) h = Some ps \<Longrightarrow> engine_step S [] (S\<lparr>tasks := tasks S @ [Panel_Task ps]\<rparr>)"
| minute: "engine_step S [] (S\<lparr>tasks := tasks S @ [Check_Task [] (check_lists (eng S))]\<rparr>)"
| work: "i < length (tasks S) \<Longrightarrow> task_step (tasks S ! i) (eng S) t L \<Longrightarrow> engine_step S [] (S\<lparr>eng := L, tasks := (tasks S)[i := t]\<rparr>)"
| active: "get_scene (eng S) a = Some s \<Longrightarrow> engine_step S [] (S\<lparr>eng := snd (scene_list_active mem now s (eng S))\<rparr>)"
| sync: "scene_sync_event_req_exec smem send now (syncList (eng S)) = Some (r, g, msgs) \<Longrightarrow> engine_step S [] (S\<lparr>eng := (eng S)\<lparr>syncList := g\<rparr>\<rparr>)"
| pass: "cursor S = None \<Longrightarrow> engine_step S [] (S\<lparr>cursor := Some 0\<rparr>)"
| entry: "cursor S = Some i \<Longrightarrow> i < length (pstExecQueue (eng S)) \<Longrightarrow>
    exec_one now (pSceneReportHandler (eng S) \<noteq> NULL) i (pstExecQueue (eng S)) = (i', Q, xs) \<Longrightarrow>
    engine_step S xs (S\<lparr>eng := (eng S)\<lparr>pstExecQueue := Q\<rparr>, cursor := Some i'\<rparr>)"
| pass_end: "cursor S = Some i \<Longrightarrow> engine_step S [] (S\<lparr>cursor := None\<rparr>)"

inductive engine_run :: "engine \<Rightarrow> exec_step list \<Rightarrow> engine \<Rightarrow> bool" where
  stop: "engine_run S [] S"
| step: "engine_step S xs S1 \<Longrightarrow> engine_run S1 ys S2 \<Longrightarrow> engine_run S (xs @ ys) S2"

lemma engine_run_trans: "engine_run S xs S1 \<Longrightarrow> engine_run S1 ys S2 \<Longrightarrow> engine_run S (xs @ ys) S2"
  by (induction rule: engine_run.induct) (auto simp: append_assoc intro: engine_run.step)

lemma engine_run_step: "engine_step S xs S1 \<Longrightarrow> engine_run S xs S1"
  using engine_run.step [OF _ engine_run.stop] by fastforce

section \<open>Uninterrupted handlers\<close>

text \<open>A handler, a check and a pass that nothing interrupts are sequences of these steps.\<close>

lemma work_last:
  assumes "task_step t L t' L'"
  shows "engine_step (S\<lparr>eng := L, tasks := ts @ [t]\<rparr>) [] (S\<lparr>eng := L', tasks := ts @ [t']\<rparr>)"
  using engine_step.work [of "length ts" "S\<lparr>eng := L, tasks := ts @ [t]\<rparr>" t' L'] assms by simp

lemma event_conds_run:
  "event_conds rnd db mem smem now e ps L = Some (st, L', calls) \<Longrightarrow>
     engine_run (S\<lparr>eng := L, tasks := ts @ [Event_Task e ps]\<rparr>) [] (S\<lparr>eng := L', tasks := ts @ [Event_Task e []]\<rparr>)"
proof (induction ps arbitrary: L st calls)
  case Nil
  then show ?case by (simp add: engine_run.stop)
next
  case (Cons p ps)
  from Cons.prems obtain st1 L1 calls1 where o: "event_cond_one rnd db mem smem now e p L = Some (st1, L1, calls1)"
    by (auto split: Option.bind_splits)
  have
    w: "engine_run (S\<lparr>eng := L, tasks := ts @ [Event_Task e (p # ps)]\<rparr>) [] (S\<lparr>eng := L1, tasks := ts @ [Event_Task e (if st1 = NoErr then ps else [])]\<rparr>)"
    by (rule engine_run_step [OF work_last [OF task_step.event [OF o]]])
  show ?case
  proof (cases "st1 = NoErr")
    case True
    with Cons.prems o obtain calls2 where "event_conds rnd db mem smem now e ps L1 = Some (st, L', calls2)" by (auto split: Option.bind_splits)
    from engine_run_trans [OF w [unfolded if_P [OF True]] Cons.IH [OF this]] show ?thesis by simp
  next
    case False
    then show ?thesis using w Cons.prems o by simp
  qed
qed

lemma event_panels_cons:
  "event_panels mem now (p # ps) L = Some (st, L', calls) \<Longrightarrow>
     \<exists>L1. event_panels mem now [p] L = Some (NoErr, L1, []) \<and> event_panels mem now ps L1 = Some (st, L', calls)"
  by (auto split: Option.bind_splits)

lemma event_panels_run:
  "event_panels mem now ps L = Some (st, L', calls) \<Longrightarrow>
     engine_run (S\<lparr>eng := L, tasks := ts @ [Panel_Task ps]\<rparr>) [] (S\<lparr>eng := L', tasks := ts @ [Panel_Task []]\<rparr>)"
proof (induction ps arbitrary: L)
  case Nil
  then show ?case by (simp add: engine_run.stop)
next
  case (Cons p ps)
  from event_panels_cons [OF Cons.prems] obtain L1 where
    l: "event_panels mem now [p] L = Some (NoErr, L1, [])" "event_panels mem now ps L1 = Some (st, L', calls)" by blast
  from engine_run.step [OF work_last [OF task_step.panel [OF l(1)]] Cons.IH [OF l(2)]] show ?case by simp
qed

lemma event_run:
  assumes "scene_list_event rnd db mem smem now e (eng S) = Some (st, L', calls)"
  shows "\<exists>ts. engine_run S [] (S\<lparr>eng := L', tasks := ts\<rparr>)"
proof -
  let ?L = "eng S" and ?h = "ptr_hash_find_all (pHashTable (eng S)) (Some (cond_key e))"
    and ?b = "ptr_hash_find_all (pHashTable (eng S)) (Some (bind_key e))"
  have S: "S\<lparr>eng := ?L, tasks := ts\<rparr> = S\<lparr>tasks := ts\<rparr>" for ts by simp
  consider ps where "?h \<noteq> NULL" "chain_of (pHashTable ?L) ?h = Some ps" "event_conds rnd db mem smem now e ps ?L = Some (st, L', calls)"
    | ps where "?h = NULL" "?b \<noteq> NULL" "chain_of (pHashTable ?L) ?b = Some ps" "event_panels mem now ps ?L = Some (st, L', calls)"
    | "L' = ?L"
    using assms by (auto simp: scene_list_event_def Let_def cond_key_def bind_key_def split: if_splits Option.bind_splits)
  then show ?thesis
  proof cases
    case (1 ps)
    from engine_run.step [OF engine_step.report_conds [OF refl 1(1,2)] event_conds_run [OF 1(3), where S = S and ts = "tasks S", unfolded S]] show ?thesis by auto
  next
    case (2 ps)
    from engine_run.step [OF engine_step.report_panels [OF 2(1) refl 2(2,3)] event_panels_run [OF 2(4), where S = S and ts = "tasks S", unfolded S]] show ?thesis by auto
  next
    case 3
    have "S = S\<lparr>eng := L', tasks := tasks S\<rparr>" using 3 by simp
    then show ?thesis using engine_run.stop [of S] by metis
  qed
qed

lemma time_conds_run:
  "time_conds mem tm now ps L = Some L' \<Longrightarrow>
     engine_run (S\<lparr>eng := L, tasks := ts @ [Check_Task ps ls]\<rparr>) [] (S\<lparr>eng := L', tasks := ts @ [Check_Task [] ls]\<rparr>)"
proof (induction ps arbitrary: L)
  case Nil
  then show ?case by (simp add: engine_run.stop)
next
  case (Cons p ps)
  then obtain L1 where l: "time_cond_one mem tm now p L = Some L1" "time_conds mem tm now ps L1 = Some L'" by (auto split: Option.bind_splits)
  from engine_run.step [OF work_last [OF task_step.check [OF l(1)]] Cons.IH [OF l(2)]] show ?case by simp
qed

lemma list_run:
  assumes "get_scene L a = Some s" "time_conds mem tm now (cond_ptrs a s (pstTimeCondList (get_logic lg s))) L = Some L'"
  shows "engine_run (S\<lparr>eng := L, tasks := ts @ [Check_Task [] ((lg, a) # ls)]\<rparr>) [] (S\<lparr>eng := L', tasks := ts @ [Check_Task [] ls]\<rparr>)"
  using engine_run.step [OF work_last [OF task_step.visit [OF assms(1)]] time_conds_run [OF assms(2)]] by simp

lemma time_scenes_run:
  "time_scenes mem tm now as L = Some L' \<Longrightarrow>
     engine_run (S\<lparr>eng := L, tasks := ts @ [Check_Task [] (concat (map (\<lambda>a. [(Or_Logic, a), (And_Logic, a)]) as))]\<rparr>) []
       (S\<lparr>eng := L', tasks := ts @ [Check_Task [] []]\<rparr>)"
proof (induction as arbitrary: L)
  case Nil
  then show ?case by (simp add: engine_run.stop)
next
  case (Cons a as)
  then obtain s L1 s1 L2 where l: "get_scene L a = Some s" "time_conds mem tm now (cond_ptrs a s (pstTimeCondList (get_logic Or_Logic s))) L = Some L1"
      "get_scene L1 a = Some s1" "time_conds mem tm now (cond_ptrs a s1 (pstTimeCondList (get_logic And_Logic s1))) L1 = Some L2"
      "time_scenes mem tm now as L2 = Some L'"
    by (auto simp: get_logic_def split: Option.bind_splits)
  from engine_run_trans [OF engine_run_trans [OF list_run [OF l(1,2)] list_run [OF l(3,4)]] Cons.IH [OF l(5)]] show ?case by simp
qed

lemma cond_round_run:
  assumes "scene_cond_round mem tm now (t, eng S) = Some (t', L')"
  shows "\<exists>ts. engine_run S [] (S\<lparr>eng := L', tasks := ts\<rparr>)"
proof (cases "L' = eng S")
  case True
  have "S = S\<lparr>eng := L', tasks := tasks S\<rparr>" using True by simp
  then show ?thesis using engine_run.stop [of S] by metis
next
  case False
  with assms have l: "time_scenes mem tm now (map fst (scenes (eng S))) (eng S) = Some L'"
    by (auto simp: scene_cond_round_def scene_list_time_true_all_def split: if_splits Option.bind_splits)
  have "check_lists (eng S) = concat (map (\<lambda>a. [(Or_Logic, a), (And_Logic, a)]) (map fst (scenes (eng S))))"
    by (simp add: check_lists_def case_prod_unfold comp_def)
  with engine_run.step [OF engine_step.minute, of S] time_scenes_run [OF l, where S = S and ts = "tasks S"] show ?thesis by fastforce
qed

lemma exec_queue_run:
  assumes "exec_queue clock (pSceneReportHandler L \<noteq> NULL) n i Q = (rest, xs)"
  shows "\<exists>j. engine_run (S\<lparr>eng := L\<lparr>pstExecQueue := Q\<rparr>, cursor := Some i\<rparr>) xs (S\<lparr>eng := L\<lparr>pstExecQueue := rest\<rparr>, cursor := Some j\<rparr>)"
  using assms
proof (induction clock "pSceneReportHandler L \<noteq> NULL" n i Q arbitrary: rest xs rule: exec_queue.induct)
  case (1 clock n i Q)
  show ?case
  proof (cases "i < length Q")
    case False
    then show ?thesis using "1.prems" engine_run.stop by (subst (asm) exec_queue.simps) auto
  next
    case True
    obtain i1 Q1 ys where o: "exec_one (clock n) (pSceneReportHandler L \<noteq> NULL) i Q = (i1, Q1, ys)" by (cases "exec_one (clock n) (pSceneReportHandler L \<noteq> NULL) i Q")
    obtain rest1 zs where r: "exec_queue clock (pSceneReportHandler L \<noteq> NULL) (Suc n) i1 Q1 = (rest1, zs)" by fastforce
    have x: "rest = rest1" "xs = ys @ zs" using "1.prems" True o r by (subst (asm) exec_queue.simps; simp)+
    from "1.hyps" [OF True o [symmetric] refl refl r] obtain j where
      j: "engine_run (S\<lparr>eng := L\<lparr>pstExecQueue := Q1\<rparr>, cursor := Some i1\<rparr>) zs (S\<lparr>eng := L\<lparr>pstExecQueue := rest1\<rparr>, cursor := Some j\<rparr>)" by blast
    have "engine_step (S\<lparr>eng := L\<lparr>pstExecQueue := Q\<rparr>, cursor := Some i\<rparr>) ys (S\<lparr>eng := L\<lparr>pstExecQueue := Q1\<rparr>, cursor := Some i1\<rparr>)"
      using engine_step.entry [of "S\<lparr>eng := L\<lparr>pstExecQueue := Q\<rparr>, cursor := Some i\<rparr>" i "clock n" i1 Q1 ys] True o by simp
    from engine_run.step [OF this j] x show ?thesis by blast
  qed
qed

lemma exec_round_run:
  assumes "scene_exec_round smem send clock now (eng S) = Some (L', msgs, xs)" "cursor S = None"
  shows "engine_run S xs (S\<lparr>eng := L'\<rparr>)"
proof -
  obtain r g rest where g: "scene_sync_event_req_exec smem send now (syncList (eng S)) = Some (r, g, msgs)"
    "exec_queue clock (pSceneReportHandler (eng S) \<noteq> NULL) 0 0 (pstExecQueue (eng S)) = (rest, xs)" "L' = (eng S)\<lparr>syncList := g, pstExecQueue := rest\<rparr>"
    using assms(1) by (auto simp: scene_exec_round_def split: Option.bind_splits prod.splits)
  let ?L = "(eng S)\<lparr>syncList := g\<rparr>"
  have "exec_queue clock (pSceneReportHandler ?L \<noteq> NULL) 0 0 (pstExecQueue ?L) = (rest, xs)" using g(2) by simp
  from exec_queue_run [OF this, of S] obtain j where
    j: "engine_run (S\<lparr>eng := ?L, cursor := Some 0\<rparr>) xs (S\<lparr>eng := L', cursor := Some j\<rparr>)" using g(3) by auto
  have 1: "engine_step S [] (S\<lparr>eng := ?L\<rparr>)" by (rule engine_step.sync [OF g(1)])
  have 2: "engine_step (S\<lparr>eng := ?L\<rparr>) [] (S\<lparr>eng := ?L, cursor := Some 0\<rparr>)"
    using engine_step.pass [of "S\<lparr>eng := ?L\<rparr>"] assms(2) by simp
  have 3: "engine_step (S\<lparr>eng := L', cursor := Some j\<rparr>) [] (S\<lparr>eng := L'\<rparr>)"
    using engine_step.pass_end [of "S\<lparr>eng := L', cursor := Some j\<rparr>" j] assms(2) by (cases S) simp
  from engine_run_trans [OF engine_run.step [OF 1 engine_run.step [OF 2 j]] engine_run_step [OF 3]] show ?thesis by simp
qed

section \<open>The invariant\<close>

text \<open>Everything that waits in the queue was put there for a scene of the list.\<close>

definition queue_ok :: "scene_list \<Rightarrow> bool" where
  "queue_ok L \<longleftrightarrow> (\<forall>q \<in> set (pstExecQueue L). \<exists>s \<in> snd ` set (scenes L). entry_for q s)"

definition step_of :: "scene_list \<Rightarrow> exec_step \<Rightarrow> bool" where
  "step_of L x \<longleftrightarrow> (\<exists>s \<in> snd ` set (scenes L). x = Run_Actions (pstAction s) \<or> x = Report_Scene (acSceneId s))"

definition engine_ok :: "scene_list \<Rightarrow> bool" where
  "engine_ok L \<longleftrightarrow> scenes_ok L \<and> queue_ok L"

lemma same_scenes_fixed:
  assumes "same_scenes L L'" "s' \<in> snd ` set (scenes L')"
  shows "\<exists>s \<in> snd ` set (scenes L). same_static s s'"
proof -
  from assms(2) obtain a where "(a, s') \<in> set (scenes L')" by auto
  from same_scenes_back [OF assms(1) this] show ?thesis by force
qed

lemma same_scenes_forth:
  assumes "same_scenes L L'" "s \<in> snd ` set (scenes L)"
  shows "\<exists>s' \<in> snd ` set (scenes L'). same_static s s'"
proof -
  from assms(2) obtain i a where i: "i < length (scenes L)" "scenes L ! i = (a, s)" by (auto simp: in_set_conv_nth)
  with assms(1) have "snd (scenes L' ! i) \<in> snd ` set (scenes L')" "same_static s (snd (scenes L' ! i))"
    unfolding same_scenes_def list_all2_conv_all_nth by (auto simp: case_prod_beta)
  then show ?thesis by blast
qed

lemma step_of_same:
  assumes "same_scenes L L'" "step_of L' x"
  shows "step_of L x"
proof -
  have "pstAction s' = pstAction s \<and> acSceneId s' = acSceneId s" if "same_static s s'" for s s'
    using that by (cases s; cases s') (simp add: same_static_def)
  with assms same_scenes_fixed [OF assms(1)] show ?thesis unfolding step_of_def by metis
qed

lemma grown_engine:
  assumes "engine_ok L" "grown L L'"
  shows "engine_ok L' \<and> same_scenes L L' \<and> pHashTable L' = pHashTable L"
proof -
  have "\<exists>s' \<in> snd ` set (scenes L'). entry_for q s'" if "\<exists>s \<in> snd ` set (scenes L). entry_for q s" for q
    using that same_scenes_forth [of L L'] assms(2) entry_for_static unfolding grown_def by metis
  then show ?thesis using assms unfolding engine_ok_def queue_ok_def grown_def by auto
qed

lemma exec_one_steps:
  assumes "exec_one now rep i Q = (i', Q', xs)" "i < length Q" "\<forall>q \<in> set Q. \<exists>s \<in> snd ` set (scenes L). entry_for q s"
  shows "set Q' \<subseteq> set Q" "\<forall>x \<in> set xs. step_of L x"
proof -
  have "step_of L (Run_Actions (q_pstAction (Q ! i)))" "step_of L (Report_Scene (q_acSceneId (Q ! i)))"
    using nth_mem [OF assms(2)] assms(3) by (auto simp: step_of_def entry_for_def)
  then show "\<forall>x \<in> set xs. step_of L x" using assms(1) by (auto simp: exec_one_def run_steps_of_def split: if_splits)
  show "set Q' \<subseteq> set Q" using assms(1) by (auto simp: exec_one_def split: if_splits dest: in_set_takeD in_set_dropD)
qed

lemma time_cond_one_grown:
  assumes "scenes_ok L" "time_cond_one mem tm now p L = Some L'"
  shows "grown L L'"
proof -
  from assms(2) obtain s c where s: "get_scene L (pstScene p) = Some s" "cond_at pstTimeCondList p s = Some c"
    by (auto simp: time_cond_one_def split: Option.bind_splits)
  from time_conds_safe [OF assms(1) s(1), of "[p]" mem tm now] s(2) assms(2) show ?thesis by auto
qed

lemma task_step_grown: "task_step t L t' L' \<Longrightarrow> scenes_ok L \<Longrightarrow> grown L L'"
  by (induction rule: task_step.induct)
    (auto intro: event_cond_one_keeps event_panels_keeps grown_refl time_cond_one_grown simp del: event_panels.simps)

section \<open>Places of conditions\<close>

text \<open>The pointers that tasks hold lead to conditions, and no step of another task changes that.\<close>

definition has_place :: "'c list_get \<Rightarrow> scene_list \<Rightarrow> ptr_info \<Rightarrow> bool" where
  "has_place f L p \<longleftrightarrow> (\<exists>s. get_scene L (pstScene p) = Some s \<and> cond_truth f p s \<noteq> None)"

definition same_places :: "scene_info \<Rightarrow> scene_info \<Rightarrow> bool" where
  "same_places s s' \<longleftrightarrow> (\<forall>q. cond_truth pstEventCondList q s \<noteq> None \<longrightarrow> cond_truth pstEventCondList q s' \<noteq> None) \<and>
     (\<forall>q. cond_truth pstTimeCondList q s \<noteq> None \<longrightarrow> cond_truth pstTimeCondList q s' \<noteq> None)"

definition kept_places :: "scene_list \<Rightarrow> scene_list \<Rightarrow> bool" where
  "kept_places L L' \<longleftrightarrow> (\<forall>p. has_place pstEventCondList L p \<longrightarrow> has_place pstEventCondList L' p) \<and> (\<forall>p. has_place pstTimeCondList L p \<longrightarrow> has_place pstTimeCondList L' p) \<and>
     (\<forall>a. get_scene L a \<noteq> None \<longrightarrow> get_scene L' a \<noteq> None)"

lemma same_places_trans: "same_places s t \<Longrightarrow> same_places t u \<Longrightarrow> same_places s u"
  by (simp add: same_places_def)

lemma same_places_refl: "same_places s s"
  by (simp add: same_places_def)

lemma kept_places_refl: "kept_places L L"
  by (simp add: kept_places_def)

lemma kept_places_put:
  assumes "get_scene L a = Some s" "same_places s s'" "\<And>b. get_scene L' b = (if b = a then Some s' else get_scene L b)"
  shows "kept_places L L'"
  using assms by (auto simp: kept_places_def has_place_def same_places_def)

lemma truth_found: "cond_truth f p s \<noteq> None \<Longrightarrow> \<exists>c. cond_at f p s = Some c"
  by (auto simp: cond_truth_def cond_at_def split: Option.bind_splits)

lemma truth_set_places:
  assumes "truth_set pstEventCondList pstTimeCondList p b s s'"
  shows "same_places s s'"
  using assms by (simp add: truth_set_def same_places_def)

lemma store_places:
  assumes "scene_ok s" "cond_at pstEventCondList p s = Some c" "store_last_value db e p s = Some (st, s1, calls)"
  shows "same_places s s1"
proof -
  have "put_cond pstEventCondList pstEventCondList_update p (\<lambda>c. c\<lparr>acLastValue := strncpy (ev_acValue e) VALUE_MAX_LEN\<rparr>) s = Some s1"
    using assms(3) by (auto simp: store_last_value_def split: Option.bind_splits prod.splits)
  then show ?thesis using event_kind.put_cond_spec [OF assms(1,2), of "\<lambda>c. c\<lparr>acLastValue := strncpy (ev_acValue e) VALUE_MAX_LEN\<rparr>"]
    by (auto simp: same_places_def)
qed

lemma update_places:
  assumes "scene_ok s" "cond_at pstEventCondList p s = Some c" "scene_event_cond_true_update b p s = Some (s2, eff)"
  shows "same_places s s2"
proof -
  from event_update_result [OF assms(1,2), of b] obtain old s1 s3 where
    u: "truth_set pstEventCondList pstTimeCondList p b s s1"
      "if strstr (e_acTriggerType c) ''Every'' \<and> b
       then scene_event_cond_true_init False p s1 = Some s3 \<and> truth_set pstEventCondList pstTimeCondList p False s1 s3
       else s3 = s1"
      "scene_event_cond_true_update b p s = Some (s3, if b \<and> \<not> old \<and> scene_spec s1 then event_trigger p c else [])" by blast
  have "same_places s1 s3" using u(2) truth_set_places same_places_refl by (auto split: if_splits)
  with truth_set_places [OF u(1)] u(3) assms(3) show ?thesis using same_places_trans by auto
qed

lemma event_one_places:
  assumes "scenes_ok L" "event_cond_one rnd db mem smem now e p L = Some (st, L', calls)"
  shows "kept_places L L'"
proof -
  from assms(2) obtain s where s: "get_scene L (pstScene p) = Some s" by (auto simp: event_cond_one_def split: Option.bind_splits)
  note ok = get_scene_ok [OF assms(1) s]
  have g: "get_scene (put_scene (pstScene p) t L) b = (if b = pstScene p then Some t else get_scene L b)" for t b
    using s by (simp add: get_put_scene)
  consider "L' = L" | c s1 g1 where "cond_at pstEventCondList p s = Some c" "store_last_value db e p s = Some (st, s1, calls)"
      "L' = put_scene (pstScene p) s1 (L\<lparr>syncList := g1\<rparr>)"
    | c where "cond_at pstEventCondList p s = Some c" "local_cond rnd db mem now e p s c L = Some (st, L', calls)"
    using assms(2) s by (auto simp: event_cond_one_def sync_cond_def split: Option.bind_splits if_splits)
  then show ?thesis
  proof cases
    case 1
    then show ?thesis by (simp add: kept_places_refl)
  next
    case (2 c s1 g1)
    have "get_scene L' b = (if b = pstScene p then Some s1 else get_scene L b)" for b
      using g [of s1 b] by (simp add: 2(3) get_scene_def put_scene_def)
    then show ?thesis by (rule kept_places_put [OF s store_places [OF ok 2(1,2)]])
  next
    case (3 c)
    let ?ch = "strncmp (acLastValue c) (ev_acValue e) VALUE_MAX_LEN \<noteq> 0"
    from 3(2) obtain b where b: "scene_event_cond_is_true rnd c e = Some b" by (auto simp: local_cond_def split: Option.bind_splits)
    with 3(2) obtain st1 s1 calls1 where
      r: "(if ?ch then store_last_value db e p s else Some (NoErr, s, [])) = Some (st1, s1, calls1)"
        "if st1 \<noteq> NoErr then L' = put_scene (pstScene p) s1 L
         else \<exists>s2 eff. scene_event_cond_true_update b p s1 = Some (s2, eff) \<and>
           L' = apply_effects mem now s2 eff (put_scene (pstScene p) s2 (put_scene (pstScene p) s1 L))"
      unfolding local_cond_def by (cases "if ?ch then store_last_value db e p s else Some (NoErr, s, [])") (auto simp: Let_def split: Option.bind_splits if_splits)
    have s1: "same_places s s1" "scene_ok s1" "\<exists>c1. cond_at pstEventCondList p s1 = Some c1"
      using r(1) store_places [OF ok 3(1)] store_keeps [OF ok 3(1)] ok 3(1) same_places_refl by (auto split: if_splits)
    show ?thesis
    proof (cases "st1 = NoErr")
      case False
      then show ?thesis using r(2) kept_places_put [OF s s1(1) g] by simp
    next
      case True
      with r(2) obtain s2 eff where u: "scene_event_cond_true_update b p s1 = Some (s2, eff)"
        "L' = apply_effects mem now s2 eff (put_scene (pstScene p) s2 (put_scene (pstScene p) s1 L))" by auto
      have "get_scene L' b = (if b = pstScene p then Some s2 else get_scene L b)" for b using s by (simp add: u(2) get_put_scene)
      moreover have "same_places s s2" using s1 update_places [OF s1(2) _ u(1)] same_places_trans by blast
      ultimately show ?thesis using kept_places_put [OF s] by blast
    qed
  qed
qed

text \<open>The evaluation of a time condition is always defined.\<close>

lemma time_one_places:
  assumes "scenes_ok L" "has_place pstTimeCondList L p"
  shows "\<exists>L'. time_cond_one mem tm now p L = Some L' \<and> kept_places L L'"
proof -
  from assms(2) obtain s where s: "get_scene L (pstScene p) = Some s" "cond_truth pstTimeCondList p s \<noteq> None" by (auto simp: has_place_def)
  obtain c where c: "cond_at pstTimeCondList p s = Some c" using truth_found [OF s(2)] by blast
  obtain b c' where e: "scene_time_cond_is_true tm c = (b, c')" by fastforce
  from time_kind.put_cond_spec [OF get_scene_ok [OF assms(1) s(1)] c, of "\<lambda>_. c'"] obtain s1 where
    a: "put_cond pstTimeCondList pstTimeCondList_update p (\<lambda>_. c') s = Some s1" "scene_ok s1" "cond_at pstTimeCondList p s1 = Some c'" "same_places s s1"
    by (auto simp: same_places_def)
  from time_update_result [OF a(2,3), of b] obtain s2 eff where
    u: "scene_time_cond_true_update b p s1 = Some (s2, eff)" "same_places s1 s2" unfolding same_places_def Let_def by auto
  have "time_cond_one mem tm now p L = Some (apply_effects mem now s2 eff (put_scene (pstScene p) s2 L))"
    using s(1) c e a(1) u(1) by (simp add: time_cond_one_def)
  moreover have "get_scene (apply_effects mem now s2 eff (put_scene (pstScene p) s2 L)) b = (if b = pstScene p then Some s2 else get_scene L b)" for b
    using s(1) by (simp add: get_put_scene)
  ultimately show ?thesis using kept_places_put [OF s(1) same_places_trans [OF a(4) u(2)]] by blast
qed

lemma same_scene_places: "scenes L' = scenes L \<Longrightarrow> kept_places L L'"
  by (simp add: kept_places_def has_place_def get_scene_def)

lemma active_scenes: "scenes (snd (scene_list_active mem now s L)) = scenes L"
  by (simp add: scene_list_active_def scene_list_exec_def)

lemma panel_places: "event_panels mem now [p] L = Some (st, L', calls) \<Longrightarrow> kept_places L L'"
  by (rule same_scene_places) (auto simp: active_scenes split: Option.bind_splits)

lemma check_ptrs_places:
  assumes "scenes_ok L" "get_scene L a = Some s" "p \<in> set (cond_ptrs a s (pstTimeCondList (get_logic lg s)))"
  shows "has_place pstTimeCondList L p"
proof -
  note ok = get_scene_ok [OF assms(1,2)]
  have "pstTimeCondList (get_logic lg s) = pstTimeCondList (stOrCond s) \<or> pstTimeCondList (get_logic lg s) = pstTimeCondList (stAndCond s)"
    by (cases lg) (simp_all add: get_logic_def)
  from cond_ptrs_valid [OF ok this assms(3)] obtain c where c: "pstScene p = a" "cond_at pstTimeCondList p s = Some c" by blast
  from time_update_result [OF ok c(2), of True] have "cond_truth pstTimeCondList p s \<noteq> None" by auto
  with c(1) assms(2) show ?thesis by (simp add: has_place_def)
qed

definition same_engine :: "scene_list \<Rightarrow> scene_list \<Rightarrow> bool" where
  "same_engine L L' \<longleftrightarrow> engine_ok L' \<and> same_scenes L L' \<and> pHashTable L' = pHashTable L"

lemma same_engine_refl: "engine_ok L \<Longrightarrow> same_engine L L"
  by (simp add: same_engine_def)

lemma exec_one_engine:
  assumes "engine_ok L" "exec_one now rep i (pstExecQueue L) = (i', Q, xs)" "i < length (pstExecQueue L)"
  shows "same_engine L (L\<lparr>pstExecQueue := Q\<rparr>) \<and> (\<forall>x \<in> set xs. step_of L x)"
proof -
  have q: "\<forall>q \<in> set (pstExecQueue L). \<exists>s \<in> snd ` set (scenes L). entry_for q s" using assms(1) by (simp add: engine_ok_def queue_ok_def)
  from exec_one_steps [OF assms(2,3) q] q assms(1) show ?thesis
    by (auto simp: same_engine_def engine_ok_def queue_ok_def scenes_ok_def same_scenes_def intro: list_all2_refl)
qed

lemma engine_step_ok:
  assumes "engine_step S xs S'" "engine_ok (eng S)"
  shows "same_engine (eng S) (eng S') \<and> (\<forall>x \<in> set xs. step_of (eng S) x)"
  using assms(1)
proof cases
  case (work i t L)
  then show ?thesis using grown_engine [OF assms(2) task_step_grown] assms(2) by (auto simp: engine_ok_def same_engine_def)
next
  case (active a s mem now)
  then show ?thesis using grown_engine [OF assms(2) active_keeps] assms(2) by (auto simp: engine_ok_def same_engine_def)
next
  case (sync smem send now r g msgs)
  then show ?thesis using assms(2) by (auto simp: same_engine_def engine_ok_def queue_ok_def scenes_ok_def same_scenes_def intro: list_all2_refl)
next
  case (entry i now i' Q)
  then show ?thesis using exec_one_engine [OF assms(2)] by auto
qed (use assms(2) same_engine_refl in auto)

lemma engine_run_ok:
  assumes "engine_run S xs S'" "engine_ok (eng S)"
  shows "same_engine (eng S) (eng S') \<and> (\<forall>x \<in> set xs. step_of (eng S) x)"
  using assms
proof (induction rule: engine_run.induct)
  case (stop S)
  then show ?case by (simp add: same_engine_refl)
next
  case (step S xs S1 ys S2)
  note s = engine_step_ok [OF step.hyps(1) step.prems]
  then have "engine_ok (eng S1)" "same_scenes (eng S) (eng S1)" by (simp_all add: same_engine_def)
  with s step.IH same_scenes_trans [of "eng S" "eng S1" "eng S2"] step_of_same [of "eng S" "eng S1"] show ?case
    by (auto simp: same_engine_def)
qed


section \<open>Tasks stay valid\<close>

text \<open>What a task still has to visit exists: the conditions of a report, the conditions and scenes of a check.\<close>

fun task_ok :: "scene_list \<Rightarrow> task \<Rightarrow> bool" where
  "task_ok L (Event_Task e ps) = list_all (has_place pstEventCondList L) ps"
| "task_ok L (Panel_Task ps) = True"
| "task_ok L (Check_Task ps ls) = (list_all (has_place pstTimeCondList L) ps \<and> list_all (\<lambda>(lg, a). get_scene L a \<noteq> None) ls)"

text \<open>The index leads to conditions.\<close>

definition index_valid :: "scene_list \<Rightarrow> bool" where
  "index_valid L \<longleftrightarrow> (\<forall>e ps. chain_of (pHashTable L) (ptr_hash_find_all (pHashTable L) (Some (cond_key e))) = Some ps \<longrightarrow> list_all (has_place pstEventCondList L) ps)"

definition engine_valid :: "engine \<Rightarrow> bool" where
  "engine_valid S \<longleftrightarrow> engine_ok (eng S) \<and> index_valid (eng S) \<and> list_all (task_ok (eng S)) (tasks S)"

lemma task_kept: "kept_places L L' \<Longrightarrow> task_ok L t \<Longrightarrow> task_ok L' t"
  by (cases t) (auto simp: kept_places_def list_all_iff)

lemma index_kept: "kept_places L L' \<Longrightarrow> pHashTable L' = pHashTable L \<Longrightarrow> index_valid L \<Longrightarrow> index_valid L'"
  by (auto simp: index_valid_def kept_places_def list_all_iff)

lemma valid_change:
  assumes "engine_valid S" "kept_places (eng S) L" "same_engine (eng S) L" "list_all (task_ok L) ts"
  shows "engine_valid (S\<lparr>eng := L, tasks := ts\<rparr>)"
  using assms index_kept [OF assms(2)] by (simp add: engine_valid_def same_engine_def)

lemma valid_eng:
  assumes "engine_valid S" "kept_places (eng S) L" "same_engine (eng S) L"
  shows "engine_valid (S\<lparr>eng := L\<rparr>)"
  using valid_change [OF assms, of "tasks S"] task_kept [OF assms(2)] assms(1) by (auto simp: engine_valid_def list_all_iff)

lemma task_step_valid:
  assumes "task_step t L t' L'" "scenes_ok L" "task_ok L t"
  shows "kept_places L L' \<and> task_ok L' t'"
  using assms
proof (induction rule: task_step.induct)
  case (event rnd db mem smem now e p L st L' calls ps)
  then show ?case using event_one_places [OF event(2,1)] task_kept [of L L' "Event_Task e ps"] by auto
next
  case (panel mem now p L st L' calls ps)
  then show ?case using panel_places by fastforce
next
  case (visit L a s lg ls)
  then show ?case using check_ptrs_places [OF visit(2,1)] by (auto simp: list_all_iff kept_places_refl)
next
  case (check mem tm now p L L' ps ls)
  then show ?case using time_one_places [OF check(2), of p mem tm now] task_kept [of L L' "Check_Task ps ls"] by auto
qed

lemma check_lists_ok: "scenes_ok L \<Longrightarrow> task_ok L (Check_Task [] (check_lists L))"
  by (force simp: check_lists_def list_all_iff get_scene_def map_of_eq_None_iff)

lemma engine_step_valid:
  assumes "engine_step S xs S'" "engine_valid S"
  shows "engine_valid S'"
proof -
  have ok: "engine_ok (eng S)" "scenes_ok (eng S)" using assms(2) by (simp_all add: engine_valid_def engine_ok_def)
  have same: "same_engine (eng S) (eng S')" using engine_step_ok [OF assms(1) ok(1)] by simp
  show ?thesis using assms(1)
  proof cases
    case (report_conds e h ps)
    then show ?thesis using assms(2) by (auto simp: engine_valid_def index_valid_def)
  next
    case (report_panels e h ps)
    then show ?thesis using assms(2) by (simp add: engine_valid_def)
  next
    case minute
    then show ?thesis using assms(2) check_lists_ok [OF ok(2)] by (simp add: engine_valid_def)
  next
    case (work i t L)
    have "task_ok (eng S) (tasks S ! i)" using assms(2) work(3) by (simp add: engine_valid_def list_all_length)
    from task_step_valid [OF work(4) ok(2) this] have k: "kept_places (eng S) L" "task_ok L t" by simp_all
    have "list_all (task_ok L) ((tasks S)[i := t])"
      using assms(2) task_kept [OF k(1)] k(2) set_update_subset_insert [of "tasks S" i t] by (auto simp: engine_valid_def list_all_iff)
    then show ?thesis using valid_change [OF assms(2) k(1)] same work(2) by simp
  next
    case (active a s mem now)
    then show ?thesis using valid_eng [OF assms(2) same_scene_places] active_scenes same by simp
  next
    case (sync smem send now r g msgs)
    then show ?thesis using valid_eng [OF assms(2) same_scene_places] same by simp
  next
    case (entry i now i' Q)
    then have "engine_valid (S\<lparr>eng := eng S'\<rparr>)" using valid_eng [OF assms(2) same_scene_places] same by simp
    then show ?thesis using entry by (simp add: engine_valid_def)
  qed (use assms(2) in \<open>simp_all add: engine_valid_def\<close>)
qed

lemma engine_run_valid: "engine_run S xs S' \<Longrightarrow> engine_valid S \<Longrightarrow> engine_valid S'"
  by (induction rule: engine_run.induct) (auto intro: engine_step_valid)

text \<open>A check that is under way can always go on, and a report that is being handled still has its conditions.\<close>

lemma check_goes_on:
  assumes "engine_valid S" "Check_Task ps ls \<in> set (tasks S)"
  shows "p \<in> set ps \<Longrightarrow> time_cond_one mem tm now p (eng S) \<noteq> None" "(lg, a) \<in> set ls \<Longrightarrow> get_scene (eng S) a \<noteq> None"
proof -
  have "task_ok (eng S) (Check_Task ps ls)" using assms unfolding engine_valid_def list_all_iff by blast
  moreover have "scenes_ok (eng S)" using assms(1) by (simp add: engine_valid_def engine_ok_def)
  ultimately show "p \<in> set ps \<Longrightarrow> time_cond_one mem tm now p (eng S) \<noteq> None" "(lg, a) \<in> set ls \<Longrightarrow> get_scene (eng S) a \<noteq> None"
    using time_one_places [of "eng S" p mem tm now] by (auto simp: list_all_iff)
qed

lemma report_goes_on:
  assumes "engine_valid S" "Event_Task e ps \<in> set (tasks S)" "p \<in> set ps"
  shows "cond_of (eng S) p \<noteq> None"
proof -
  have "has_place pstEventCondList (eng S) p" using assms by (auto simp: engine_valid_def list_all_iff)
  then show ?thesis using truth_found by (fastforce simp: has_place_def cond_of_def)
qed

end
