(* ===== verification/Json_Value.thy ===== *)
theory Json_Value
  imports Complex_Main Action_List
begin

text \<open>
  JSON values and the functions of \<open>hylink/hytoolsdk/src/cjson/cjson.c\<close> that the scene protocol uses to take them apart
  and to build them. A \<open>cJSON\<close> node is a value of the type \<open>json\<close>; an array or object has its children as a list,
  in order. Names of an object are compared without regard to case. Numbers are rational: of the double
  arithmetic only the formats \<open>%e\<close> and \<open>%f\<close> remain, which are the two components of a parameter. Texts are parsed
  and printed by functions that are parameters where they are used.
\<close>

section \<open>Values\<close>

datatype json = JNull | JBool bool | JNumber rat | JString string | JArray "json list" | JObject "(string \<times> json) list"

fun children :: "json \<Rightarrow> json list" where
  "children (JArray xs) = xs"
| "children (JObject kvs) = map snd kvs"
| "children x = []"

definition cJSON_GetArraySize :: "json \<Rightarrow> nat" where
  "cJSON_GetArraySize j = length (children j)"

definition cJSON_GetArrayItem :: "json \<Rightarrow> int \<Rightarrow> json option" where
  "cJSON_GetArrayItem j i = (if i < 0 then None else if nat i < length (children j) then Some (children j ! nat i) else None)"

definition case_insensitive_strcmp :: "string \<Rightarrow> string \<Rightarrow> int" where
  "case_insensitive_strcmp a b = strcmp (map to_lower a) (map to_lower b)"

text \<open>The elements of an array have no names.\<close>

definition cJSON_GetObjectItem :: "json \<Rightarrow> string \<Rightarrow> json option" where
  "cJSON_GetObjectItem j name = (case j of
     JObject kvs \<Rightarrow> map_option snd (List.find (\<lambda>(k, v). case_insensitive_strcmp name k = 0) kvs)
   | _ \<Rightarrow> None)"

definition cJSON_AddItemToArray :: "json \<Rightarrow> json \<Rightarrow> json" where
  "cJSON_AddItemToArray j x = (case j of JArray xs \<Rightarrow> JArray (xs @ [x]) | _ \<Rightarrow> j)"

definition cJSON_AddItemToObject :: "string \<Rightarrow> json \<Rightarrow> json \<Rightarrow> json" where
  "cJSON_AddItemToObject k x j = (case j of JObject kvs \<Rightarrow> JObject (kvs @ [(k, x)]) | _ \<Rightarrow> j)"

definition cJSON_AddStringToObject :: "string \<Rightarrow> string \<Rightarrow> json \<Rightarrow> json" where
  "cJSON_AddStringToObject k v j = cJSON_AddItemToObject k (JString v) j"

section \<open>Numbers as text\<close>

definition digit :: "nat \<Rightarrow> char" where
  "digit d = char_of (48 + d)"

fun dec_nat :: "nat \<Rightarrow> string" where
  "dec_nat n = (if n < 10 then [digit n] else dec_nat (n div 10) @ [digit (n mod 10)])"

declare dec_nat.simps [simp del]

definition dec_int :: "int \<Rightarrow> string" where
  "dec_int i = (if i < 0 then CHR ''-'' # dec_nat (nat (- i)) else dec_nat (nat i))"

definition INT_MAX :: int where "INT_MAX = 2147483647"
definition INT_MIN :: int where "INT_MIN = -2147483648"
definition DBL_EPSILON :: rat where "DBL_EPSILON = 1 / 2 ^ 52"

definition valueint :: "rat \<Rightarrow> int" where
  "valueint d = (if d \<ge> of_int INT_MAX then INT_MAX else if d \<le> of_int INT_MIN then INT_MIN
     else if d \<ge> 0 then \<lfloor>d\<rfloor> else \<lceil>d\<rceil>)"

type_synonym formats = "(rat \<Rightarrow> string) \<times> (rat \<Rightarrow> string)"

definition number_text :: "formats \<Rightarrow> rat \<Rightarrow> string" where
  "number_text fmt d =
     (if d = 0 then dec_int 0
      else if \<bar>of_int (valueint d) - d\<bar> \<le> DBL_EPSILON \<and> d \<le> of_int INT_MAX \<and> d \<ge> of_int INT_MIN then dec_int (valueint d)
      else if \<bar>of_int \<lfloor>d\<rfloor> - d\<bar> \<le> DBL_EPSILON \<and> \<bar>d\<bar> < 10 ^ 60 then dec_int \<lfloor>d\<rfloor>
      else if \<bar>d\<bar> < 1 / 10 ^ 6 \<or> \<bar>d\<bar> > 10 ^ 9 then fst fmt d else snd fmt d)"

section \<open>Reading values\<close>

text \<open>The results are the status and the new contents of the buffer.\<close>

definition JSON_str_value_get :: "nat \<Rightarrow> string \<Rightarrow> json \<Rightarrow> status \<times> string" where
  "JSON_str_value_get iValueLen old j = (case j of JString s \<Rightarrow> (0, strncpy s iValueLen) | _ \<Rightarrow> (-1, old))"

definition JSON_number_value_get :: "formats \<Rightarrow> nat \<Rightarrow> string \<Rightarrow> json \<Rightarrow> status \<times> string" where
  "JSON_number_value_get fmt iValueLen old j = (case j of JNumber d \<Rightarrow> (0, snprintf iValueLen (number_text fmt d)) | _ \<Rightarrow> (-1, old))"

definition JSON_bool_value_get :: "nat \<Rightarrow> string \<Rightarrow> json \<Rightarrow> status \<times> string" where
  "JSON_bool_value_get iValueLen old j = (case j of JBool b \<Rightarrow> (0, snprintf iValueLen (dec_int (if b then 1 else 0))) | _ \<Rightarrow> (-1, old))"

text \<open>The value of a name into a buffer, as all callers of the protocol use it: with a buffer and without a place for an
  array or object, for which the result is \<open>-1\<close>. A null value succeeds and leaves the buffer as it is.\<close>

definition JSON_value_get :: "formats \<Rightarrow> string \<Rightarrow> nat \<Rightarrow> string \<Rightarrow> json \<Rightarrow> status \<times> string" where
  "JSON_value_get fmt pcKey iValueLen old pstData = (case cJSON_GetObjectItem pstData pcKey of
     None \<Rightarrow> (-1, old)
   | Some item \<Rightarrow> (case item of
       JBool b \<Rightarrow> JSON_bool_value_get iValueLen old item
     | JNull \<Rightarrow> (0, old)
     | JNumber d \<Rightarrow> JSON_number_value_get fmt iValueLen old item
     | JString s \<Rightarrow> JSON_str_value_get iValueLen old item
     | JArray xs \<Rightarrow> (-1, old)
     | JObject kvs \<Rightarrow> (-1, old)))"

text \<open>The same function without a buffer, with a place for an array or object: status and the node.\<close>

definition JSON_node_get :: "string \<Rightarrow> json \<Rightarrow> status \<times> json option" where
  "JSON_node_get pcKey pstData = (case cJSON_GetObjectItem pstData pcKey of
     None \<Rightarrow> (-1, None)
   | Some item \<Rightarrow> (case item of
       JNull \<Rightarrow> (0, None)
     | JArray xs \<Rightarrow> (0, Some item)
     | JObject kvs \<Rightarrow> (0, Some item)
     | _ \<Rightarrow> (-1, None)))"

section \<open>Lemmas\<close>

lemma get_object_item_Nil [simp]: "cJSON_GetObjectItem (JObject []) k = None"
  by (simp add: cJSON_GetObjectItem_def)

lemma get_object_item_Cons [simp]:
  "cJSON_GetObjectItem (JObject ((k, v) # kvs)) name = (if map to_lower name = map to_lower k then Some v else cJSON_GetObjectItem (JObject kvs) name)"
  by (simp add: cJSON_GetObjectItem_def case_insensitive_strcmp_def)

text \<open>Reading gives a status that is never positive, and a text that fits the buffer.\<close>

lemma value_get_status: "fst (JSON_value_get fmt k n old j) = 0 \<or> fst (JSON_value_get fmt k n old j) = -1"
  by (auto simp: JSON_value_get_def JSON_bool_value_get_def JSON_number_value_get_def JSON_str_value_get_def split: option.splits json.splits)

lemma value_get_fits:
  assumes "length old \<le> n" "0 < n"
  shows "length (snd (JSON_value_get fmt k n old j)) \<le> n"
  using assms by (auto simp: JSON_value_get_def JSON_bool_value_get_def JSON_number_value_get_def JSON_str_value_get_def strncpy_def snprintf_def
      split: option.splits json.splits)

lemma value_get_string: "cJSON_GetObjectItem j k = Some (JString s) \<Longrightarrow> JSON_value_get fmt k n old j = (0, strncpy s n)"
  by (simp add: JSON_value_get_def JSON_str_value_get_def)

lemma value_get_none: "cJSON_GetObjectItem j k = None \<Longrightarrow> JSON_value_get fmt k n old j = (-1, old)"
  by (simp add: JSON_value_get_def)

end
