(* ===== verification/Scene_Load.thy ===== *)
theory Scene_Load
  imports Scene_Manage
begin

text \<open>
  Loading and synchronising: the readers of data base rows in \<open>hylink/src/local_scene/scene_list.c\<close> and \<open>condition_list.c\<close>,
  \<open>scene_list_init\<close>, which loads everything at the start, and the functions \<open>\_init\<close> and \<open>\_sync\<close> for scenes, panels and
  the four condition lists.

  A \<open>\_sync\<close> function brings a list in line with an array. An empty list gets all entries of the array; otherwise each
  element of the list is searched in the array, changed when it differs, and meant to be deleted when it is
  not there; then the entries that were not found are added. For the deletion the code uses the loop counter
  after the search, which is one behind the entries. The walk over a list that changes is modelled as a walk
  over the addresses it had: an element that is gone is passed over, as its predecessor no longer leads to
  it, and if the current element is gone the code reads freed memory. (A condition that is added during the
  walk equals its entry, so that visiting it has no effect.)

  Results of queries are parameters: the status and the rows.
\<close>

section \<open>Rows\<close>

type_synonym rows = "status \<times> string list list"

definition SCENE_MAX_NUM :: nat where "SCENE_MAX_NUM = 256"

definition zero_time :: time_cond where
  "zero_time = \<lparr>acTimeKey = [], t_acTriggerType = [], acTriggerInterval = [], iTriggerInterval = 0, acStartHour = [], acStartMinu = [],
     acEndHour = [], acEndMinu = [], acWeek = [], acRepeat = [], acLose = []\<rparr>"

definition zero_event :: "string \<Rightarrow> string \<Rightarrow> event_cond" where
  "zero_event d k = \<lparr>e_acDevId = d, e_acKey = k, e_acTriggerType = [], acContinueTime = [], e_acValue = [], acActive = [], acLastValue = []\<rparr>"

definition zero_list :: "'c cond_list" where
  "zero_list = \<lparr>cl_addr = NULL, stCondInfo = \<lparr>ci_acId = [], acLogic = [], acCondType = []\<rparr>, ucInitFlag = 0, iCount = 0, uiCondSetTrue = 0, sets = []\<rparr>"

definition zero_scene :: scene_info where
  "zero_scene = \<lparr>acSceneId = [], acSceneName = [], cManualTriggerFlag = 0, acSceneEnable = [], acExecDelayed = [], acUpdateTime = [], acNote = [],
     ucSceneCondTrue = False, pstPanel = [], panelFreed = False,
     stOrCond = \<lparr>ucCondListTrue = 0, pstTimeCondList = zero_list, pstEventCondList = zero_list\<rparr>,
     stAndCond = \<lparr>ucCondListTrue = 0, pstTimeCondList = zero_list, pstEventCondList = zero_list\<rparr>, pstAction = NULL\<rparr>"

definition zero_panel :: scene_panel where
  "zero_panel = \<lparr>sp_acDevId = [], sp_acKey = [], sp_acValue = [], sp_acEnable = []\<rparr>"

definition row_time :: "string list \<Rightarrow> time_cond" where
  "row_time r = \<lparr>acTimeKey = strncpy (r ! 0) KEY_MAX_LEN, t_acTriggerType = strncpy (r ! 1) TRIGGER_TYPE_MAX_LEN,
     acTriggerInterval = strncpy (r ! 2) TRIGGER_INTERVAL_MAX_LEN, iTriggerInterval = 0, acStartHour = strncpy (r ! 3) HOUR_MAX_LEN,
     acStartMinu = strncpy (r ! 4) MINU_MAX_LEN, acEndHour = strncpy (r ! 5) HOUR_MAX_LEN, acEndMinu = strncpy (r ! 6) MINU_MAX_LEN,
     acWeek = strncpy (r ! 7) WEEK_MAX_LEN, acRepeat = strncpy (r ! 8) STATE_MAX_LEN, acLose = strncpy (r ! 9) STATE_MAX_LEN\<rparr>"

text \<open>The last value is copied with the length of another column.\<close>

definition row_event :: "string list \<Rightarrow> event_cond" where
  "row_event r = \<lparr>e_acDevId = strncpy (r ! 2) DEV_ID_MAX_LEN, e_acKey = strncpy (r ! 3) KEY_MAX_LEN,
     e_acTriggerType = strncpy (r ! 0) TRIGGER_TYPE_MAX_LEN, acContinueTime = strncpy (r ! 1) CONTINUE_TIME_MAX_LEN,
     e_acValue = strncpy (r ! 4) VALUE_MAX_LEN, acActive = strncpy (r ! 5) ACTIVE_MAX_LEN, acLastValue = strncpy (r ! 6) ACTIVE_MAX_LEN\<rparr>"

definition row_scene :: "string list \<Rightarrow> scene_info" where
  "row_scene r = zero_scene\<lparr>acSceneId := strncpy (r ! 0) INDEX_MAX_LEN, acSceneName := strncpy (r ! 1) NAME_MAX_LEN,
     acSceneEnable := strncpy (r ! 2) STATE_MAX_LEN, acExecDelayed := strncpy (r ! 3) DELAYED_MAX_LEN,
     acUpdateTime := strncpy (r ! 4) TIME_MAX_LEN, acNote := strncpy (r ! 5) NOTE_MAX_LEN\<rparr>"

definition row_panel :: "string list \<Rightarrow> scene_panel" where
  "row_panel r = \<lparr>sp_acDevId = strncpy (r ! 0) INDEX_MAX_LEN, sp_acKey = strncpy (r ! 1) NAME_MAX_LEN,
     sp_acValue = strncpy (r ! 2) VALUE_MAX_LEN, sp_acEnable = strncpy (r ! 3) STATE_MAX_LEN\<rparr>"

definition time_cond_get_list_db :: "bool \<Rightarrow> rows \<Rightarrow> nat \<Rightarrow> (status \<times> time_cond list) option" where
  "time_cond_get_list_db = get_list_db row_time zero_time COND_MAX_NUM"

definition event_cond_get_list_db :: "bool \<Rightarrow> rows \<Rightarrow> nat \<Rightarrow> (status \<times> event_cond list) option" where
  "event_cond_get_list_db = get_list_db row_event (zero_event [] []) COND_MAX_NUM"

definition scene_list_get_list_db :: "bool \<Rightarrow> rows \<Rightarrow> nat \<Rightarrow> (status \<times> scene_info list) option" where
  "scene_list_get_list_db = get_list_db row_scene zero_scene SCENE_MAX_NUM"

definition scene_bind_get_list_db :: "bool \<Rightarrow> rows \<Rightarrow> nat \<Rightarrow> (status \<times> scene_panel list) option" where
  "scene_bind_get_list_db = get_list_db row_panel zero_panel SCENE_BIND_MAX_NUM"

text \<open>The readers of a single row fill in what the key of their argument does not have.\<close>

definition get_db :: "rows \<Rightarrow> (string list \<Rightarrow> 'a \<Rightarrow> 'a) \<Rightarrow> 'a \<Rightarrow> status \<times> 'a" where
  "get_db rows f c = (if fst rows \<noteq> NoErr then (SceneGetErr, c) else case snd rows of [] \<Rightarrow> (NotFoundErr, c) | r # _ \<Rightarrow> (NoErr, f r c))"

definition time_cond_get_db :: "rows \<Rightarrow> time_cond \<Rightarrow> status \<times> time_cond" where
  "time_cond_get_db rows = get_db rows (\<lambda>r c. c\<lparr>t_acTriggerType := strncpy (r ! 0) TRIGGER_TYPE_MAX_LEN,
     acTriggerInterval := strncpy (r ! 1) TRIGGER_INTERVAL_MAX_LEN, acStartHour := strncpy (r ! 2) HOUR_MAX_LEN, acStartMinu := strncpy (r ! 3) MINU_MAX_LEN,
     acEndHour := strncpy (r ! 4) HOUR_MAX_LEN, acEndMinu := strncpy (r ! 5) MINU_MAX_LEN, acWeek := strncpy (r ! 6) WEEK_MAX_LEN,
     acRepeat := strncpy (r ! 7) STATE_MAX_LEN, acLose := strncpy (r ! 8) STATE_MAX_LEN\<rparr>)"

definition event_cond_get_db :: "rows \<Rightarrow> event_cond \<Rightarrow> status \<times> event_cond" where
  "event_cond_get_db rows = get_db rows (\<lambda>r c. c\<lparr>e_acTriggerType := strncpy (r ! 0) TRIGGER_TYPE_MAX_LEN,
     acContinueTime := strncpy (r ! 1) CONTINUE_TIME_MAX_LEN, e_acValue := strncpy (r ! 2) KEY_MAX_LEN,
     acActive := strncpy (r ! 3) ACTIVE_MAX_LEN, acLastValue := strncpy (r ! 4) KEY_MAX_LEN\<rparr>)"

definition scene_list_get_db :: "rows \<Rightarrow> scene_info \<Rightarrow> status \<times> scene_info" where
  "scene_list_get_db rows = get_db rows (\<lambda>r s. s\<lparr>acSceneName := strncpy (r ! 0) NAME_MAX_LEN, acSceneEnable := strncpy (r ! 1) STATE_MAX_LEN,
     acExecDelayed := strncpy (r ! 2) DELAYED_MAX_LEN, acUpdateTime := strncpy (r ! 3) TIME_MAX_LEN, acNote := strncpy (r ! 4) NOTE_MAX_LEN\<rparr>)"

text \<open>For a panel the enable state is copied with the length of a name, which is beyond the end of the struct.\<close>

definition scene_bind_get_db :: "rows \<Rightarrow> scene_panel \<Rightarrow> (status \<times> scene_panel) option" where
  "scene_bind_get_db rows pn = (if fst rows \<noteq> NoErr then Some (SceneGetErr, pn) else if snd rows = [] then Some (NotFoundErr, pn) else None)"

section \<open>Synchronisation with an array\<close>

text \<open>What the functions differ in: the element at an address, whether an entry has its key, whether it differs, changing
  (entry number, address, entry), deleting, adding, whether an entry needs no adding, clearing the list.\<close>

record ('k, 'c) sync_ops =
  so_look :: "scene_list \<Rightarrow> 'k \<Rightarrow> 'c option"
  so_same :: "'c \<Rightarrow> 'c \<Rightarrow> bool"
  so_changed :: "'c \<Rightarrow> 'c \<Rightarrow> bool"
  so_put :: "nat \<Rightarrow> 'k \<Rightarrow> 'c \<Rightarrow> scene_list \<Rightarrow> op_result"
  so_del :: "nat \<Rightarrow> 'c \<Rightarrow> scene_list \<Rightarrow> op_result"
  so_add :: "nat \<Rightarrow> 'c \<Rightarrow> scene_list \<Rightarrow> op_result"
  so_skip :: "nat set \<Rightarrow> 'c \<Rightarrow> nat \<Rightarrow> scene_list \<Rightarrow> bool option"
  so_clear :: "scene_list \<Rightarrow> op_result"

fun sync_walk :: "('k, 'c) sync_ops \<Rightarrow> 'c list \<Rightarrow> nat \<Rightarrow> 'k list \<Rightarrow> scene_list \<Rightarrow> (nat set \<times> scene_list \<times> db_calls) option" where
  "sync_walk ops arr cnt [] L = Some ({}, L, [])"
| "sync_walk ops arr cnt (x # xs) L = (case so_look ops L x of
     None \<Rightarrow> sync_walk ops arr cnt xs L
   | Some c \<Rightarrow> (case List.find (\<lambda>i. so_same ops c (arr ! i)) [0..<cnt] of
       Some i \<Rightarrow> do {
         (r, L1, c1) \<leftarrow> (if so_changed ops c (arr ! i) then so_put ops i x (arr ! i) L else Some (NoErr, L, []));
         (found, L2, c2) \<leftarrow> sync_walk ops arr cnt xs L1;
         Some (insert i found, L2, c1 @ c2)
       }
     | None \<Rightarrow> if length arr \<le> cnt then None else do {
         (r, L1, c1) \<leftarrow> so_del ops cnt (arr ! cnt) L;
         c' \<leftarrow> so_look ops L1 x;
         (found, L2, c2) \<leftarrow> sync_walk ops arr cnt xs L1;
         Some (found, L2, c1 @ c2)
       }))"

fun sync_add :: "(nat \<Rightarrow> scene_list \<Rightarrow> bool option) \<Rightarrow> (nat \<Rightarrow> 'c \<Rightarrow> scene_list \<Rightarrow> op_result) \<Rightarrow> 'c list \<Rightarrow> nat list \<Rightarrow> scene_list \<Rightarrow>
    (scene_list \<times> db_calls) option" where
  "sync_add skip add arr [] L = Some (L, [])"
| "sync_add skip add arr (i # is) L = do {
     b \<leftarrow> skip i L;
     (r, L1, c1) \<leftarrow> (if b then Some (NoErr, L, []) else add i (arr ! i) L);
     (L2, c2) \<leftarrow> sync_add skip add arr is L1;
     Some (L2, c1 @ c2)
   }"

text \<open>\<open>m\<close>: the array of flags is allocated; \<open>xs\<close>: the addresses of the elements.\<close>

definition array_sync :: "('k, 'c) sync_ops \<Rightarrow> bool \<Rightarrow> bool \<Rightarrow> 'k list \<Rightarrow> 'c list \<Rightarrow> nat \<Rightarrow> scene_list \<Rightarrow> op_result" where
  "array_sync ops none m xs arr cnt L =
     (if none then do { (L1, calls) \<leftarrow> sync_add (\<lambda>i L. Some False) (so_add ops) arr [0..<cnt] L; Some (NoErr, L1, calls) }
      else if cnt = 0 then do { (r, L1, calls) \<leftarrow> so_clear ops L; Some (NoErr, L1, calls) }
      else if \<not> m then Some (HeapReqErr, L, [])
      else do {
        (found, L1, c1) \<leftarrow> sync_walk ops arr cnt xs L;
        (L2, c2) \<leftarrow> sync_add (\<lambda>i. so_skip ops found (arr ! i) i) (so_add ops) arr [0..<cnt] L1;
        Some (NoErr, L2, c1 @ c2)
      })"

definition was_found :: "nat set \<Rightarrow> 'c \<Rightarrow> nat \<Rightarrow> scene_list \<Rightarrow> bool option" where
  "was_found found e i L = Some (i \<in> found)"

section \<open>Condition lists\<close>

definition cond_look :: "'c list_get \<Rightarrow> logic \<Rightarrow> ptr \<Rightarrow> scene_list \<Rightarrow> ptr \<times> ptr \<Rightarrow> 'c option" where
  "cond_look fget lg a L x = do {
     s \<leftarrow> get_scene L a; t \<leftarrow> get_set (fget (get_logic lg s)) (fst x); n \<leftarrow> get_cond t (snd x); Some (stCond n) }"

definition cond_keys :: "'c cond_list \<Rightarrow> (ptr \<times> ptr) list" where
  "cond_keys l = concat (map (\<lambda>t. map (\<lambda>n. (sn_addr t, cn_addr n)) (pstCond t)) (sets l))"

definition time_same :: "time_cond \<Rightarrow> time_cond \<Rightarrow> bool" where
  "time_same c e \<longleftrightarrow> strncmp (acTimeKey c) (acTimeKey e) KEY_MAX_LEN = 0"

definition time_changed :: "time_cond \<Rightarrow> time_cond \<Rightarrow> bool" where
  "time_changed c e \<longleftrightarrow> strncmp (t_acTriggerType c) (t_acTriggerType e) HOUR_MAX_LEN \<noteq> 0 \<or>
     strncmp (acTriggerInterval c) (acTriggerInterval e) HOUR_MAX_LEN \<noteq> 0 \<or> strncmp (acStartHour c) (acStartHour e) HOUR_MAX_LEN \<noteq> 0 \<or>
     strncmp (acStartMinu c) (acStartMinu e) MINU_MAX_LEN \<noteq> 0 \<or> strncmp (acEndHour c) (acEndHour e) HOUR_MAX_LEN \<noteq> 0 \<or>
     strncmp (acEndMinu c) (acEndMinu e) MINU_MAX_LEN \<noteq> 0 \<or> strncmp (acWeek c) (acWeek e) WEEK_MAX_LEN \<noteq> 0 \<or>
     strncmp (acRepeat c) (acRepeat e) STATE_MAX_LEN \<noteq> 0 \<or> strncmp (acLose c) (acLose e) STATE_MAX_LEN \<noteq> 0"

definition event_same :: "event_cond \<Rightarrow> event_cond \<Rightarrow> bool" where
  "event_same c e \<longleftrightarrow> strncmp (e_acDevId c) (e_acDevId e) DEV_ID_MAX_LEN = 0 \<and> strncmp (e_acKey c) (e_acKey e) KEY_MAX_LEN = 0"

definition event_changed :: "event_cond \<Rightarrow> event_cond \<Rightarrow> bool" where
  "event_changed c e \<longleftrightarrow> strncmp (e_acTriggerType c) (e_acTriggerType e) VALUE_MAX_LEN \<noteq> 0 \<or>
     strncmp (acContinueTime c) (acContinueTime e) VALUE_MAX_LEN \<noteq> 0 \<or> strncmp (e_acValue c) (e_acValue e) VALUE_MAX_LEN \<noteq> 0 \<or>
     strncmp (acActive c) (acActive e) ACTIVE_MAX_LEN \<noteq> 0 \<or> strncmp (acLastValue c) (acLastValue e) ACTIVE_MAX_LEN \<noteq> 0"

text \<open>\<open>al i\<close>: the memory for the condition of entry \<open>i\<close>.\<close>

definition time_ops :: "(nat \<Rightarrow> cond_mem) \<Rightarrow> (db_stmt \<Rightarrow> status) \<Rightarrow> logic \<Rightarrow> ptr \<Rightarrow> (ptr \<times> ptr, time_cond) sync_ops" where
  "time_ops al db lg a =
     (let add = (case lg of Or_Logic \<Rightarrow> scene_time_or_cond_add | And_Logic \<Rightarrow> scene_time_and_cond_add);
          del = (case lg of Or_Logic \<Rightarrow> scene_time_or_cond_del | And_Logic \<Rightarrow> scene_time_and_cond_del) in
      \<lparr>so_look = cond_look pstTimeCondList lg a, so_same = time_same, so_changed = time_changed,
       so_put = (\<lambda>i x c. add (al i) db a c), so_del = (\<lambda>i c. del db a c), so_add = (\<lambda>i c. add (al i) db a c), so_skip = was_found,
       so_clear = scene_time_cond_clear lg db 1 a\<rparr>)"

text \<open>In the list of any, the manual trigger is not an element; its entry is added unless the scene has the flag.\<close>

definition manual_skip :: "ptr \<Rightarrow> nat set \<Rightarrow> event_cond \<Rightarrow> nat \<Rightarrow> scene_list \<Rightarrow> bool option" where
  "manual_skip a found e i L = (if strncmp (e_acKey e) ''Manual'' KEY_MAX_LEN = 0
     then map_option (\<lambda>s. cManualTriggerFlag s \<noteq> 0) (get_scene L a) else was_found found e i L)"

definition event_ops :: "(rat \<Rightarrow> rat) \<Rightarrow> (nat \<Rightarrow> cond_mem) \<Rightarrow> (db_stmt \<Rightarrow> status) \<Rightarrow> logic \<Rightarrow> ptr \<Rightarrow> (ptr \<times> ptr, event_cond) sync_ops" where
  "event_ops rnd al db lg a =
     (let add = (case lg of Or_Logic \<Rightarrow> scene_event_or_cond_add | And_Logic \<Rightarrow> scene_event_and_cond_add) rnd;
          del = (case lg of Or_Logic \<Rightarrow> scene_event_or_cond_del | And_Logic \<Rightarrow> scene_event_and_cond_del) in
      \<lparr>so_look = cond_look pstEventCondList lg a, so_same = event_same, so_changed = event_changed,
       so_put = (\<lambda>i x c. add (al i) db a c), so_del = (\<lambda>i c. del db a c), so_add = (\<lambda>i c. add (al i) db a c),
       so_skip = (case lg of Or_Logic \<Rightarrow> manual_skip a | And_Logic \<Rightarrow> was_found),
       so_clear = (case lg of Or_Logic \<Rightarrow> scene_event_or_cond_clear db 1 a | And_Logic \<Rightarrow> scene_event_and_cond_clear db 1 a)\<rparr>)"

definition scene_time_cond_sync :: "bool \<Rightarrow> (nat \<Rightarrow> cond_mem) \<Rightarrow> (db_stmt \<Rightarrow> status) \<Rightarrow> logic \<Rightarrow> ptr \<Rightarrow> time_cond list \<Rightarrow> nat \<Rightarrow> scene_list \<Rightarrow> op_result" where
  "scene_time_cond_sync m al db lg a arr cnt L = do {
     s \<leftarrow> get_scene L a;
     let l = pstTimeCondList (get_logic lg s);
     array_sync (time_ops al db lg a) (list_size l = 0) m (cond_keys l) arr cnt L
   }"

definition scene_event_cond_sync :: "(rat \<Rightarrow> rat) \<Rightarrow> bool \<Rightarrow> (nat \<Rightarrow> cond_mem) \<Rightarrow> (db_stmt \<Rightarrow> status) \<Rightarrow> logic \<Rightarrow> ptr \<Rightarrow> event_cond list \<Rightarrow> nat \<Rightarrow> scene_list \<Rightarrow> op_result" where
  "scene_event_cond_sync rnd m al db lg a arr cnt L = do {
     s \<leftarrow> get_scene L a;
     let l = pstEventCondList (get_logic lg s);
     array_sync (event_ops rnd al db lg a) (list_size l = 0) m (cond_keys l) arr cnt L
   }"

text \<open>Loading: while the flag of the list is set, nothing is written to the data base.\<close>

definition list_flag :: "'c list_upd \<Rightarrow> logic \<Rightarrow> u8 \<Rightarrow> ptr \<Rightarrow> scene_list \<Rightarrow> scene_list option" where
  "list_flag fupd lg v a L = do { s \<leftarrow> get_scene L a; Some (put_scene a (upd_logic lg (fupd (\<lambda>l. l\<lparr>ucInitFlag := v\<rparr>)) s) L) }"

definition scene_time_cond_init :: "bool \<times> bool \<times> bool \<Rightarrow> (nat \<Rightarrow> cond_mem) \<Rightarrow> (db_stmt \<Rightarrow> status) \<Rightarrow> rows \<Rightarrow> logic \<Rightarrow> ptr \<Rightarrow> scene_list \<Rightarrow> op_result" where
  "scene_time_cond_init mem al db rows lg a L = (case mem of (m1, m2, m3) \<Rightarrow>
     if \<not> m1 then Some (HeapReqErr, L, [])
     else do {
       L1 \<leftarrow> list_flag pstTimeCondList_update lg 1 a L;
       (r, entries) \<leftarrow> time_cond_get_list_db m2 rows COND_MAX_NUM;
       (iRet, L2, calls) \<leftarrow> scene_time_cond_sync m3 al db lg a (zero_fill COND_MAX_NUM zero_time entries) (length entries) L1;
       L3 \<leftarrow> list_flag pstTimeCondList_update lg 0 a L2;
       Some (iRet, L3, calls)
     })"

definition scene_event_cond_init :: "(rat \<Rightarrow> rat) \<Rightarrow> bool \<times> bool \<times> bool \<Rightarrow> (nat \<Rightarrow> cond_mem) \<Rightarrow> (db_stmt \<Rightarrow> status) \<Rightarrow> rows \<Rightarrow> logic \<Rightarrow> ptr \<Rightarrow> scene_list \<Rightarrow> op_result" where
  "scene_event_cond_init rnd mem al db rows lg a L = (case mem of (m1, m2, m3) \<Rightarrow>
     if \<not> m1 then Some (HeapReqErr, L, [])
     else do {
       L1 \<leftarrow> list_flag pstEventCondList_update lg 1 a L;
       (r, entries) \<leftarrow> event_cond_get_list_db m2 rows COND_MAX_NUM;
       (iRet, L2, calls) \<leftarrow> scene_event_cond_sync rnd m3 al db lg a (zero_fill COND_MAX_NUM (zero_event [] []) entries) (length entries) L1;
       L3 \<leftarrow> list_flag pstEventCondList_update lg 0 a L2;
       Some (iRet, L3, calls)
     })"

section \<open>Panels\<close>

definition panel_same :: "scene_panel \<Rightarrow> scene_panel \<Rightarrow> bool" where
  "panel_same q e \<longleftrightarrow> strncmp (sp_acDevId q) (sp_acDevId e) DEV_ID_MAX_LEN = 0 \<and> strncmp (sp_acKey q) (sp_acKey e) KEY_MAX_LEN = 0 \<and>
     strncmp (sp_acValue q) (sp_acValue e) VALUE_MAX_LEN = 0"

type_synonym panel_mem = "bool \<times> ptr \<times> (nat \<Rightarrow> bool) \<times> ptr"

definition panel_ops :: "(nat \<Rightarrow> panel_mem) \<Rightarrow> (db_stmt \<Rightarrow> status) \<Rightarrow> ptr \<Rightarrow> (ptr, scene_panel) sync_ops" where
  "panel_ops al db a = \<lparr>so_look = (\<lambda>L x. get_scene L a \<bind> (\<lambda>s. map_of (pstPanel s) x)), so_same = panel_same, so_changed = (\<lambda>q e. False),
     so_put = (\<lambda>i x e L. Some (NoErr, L, [])), so_del = (\<lambda>i. scene_unbind db a),
     so_add = (\<lambda>i e. case al i of (m, pNew, b, head) \<Rightarrow> scene_bind m pNew b head db a e), so_skip = was_found, so_clear = scene_bind_clear db 1 a\<rparr>"

definition scene_bind_sync :: "bool \<Rightarrow> (nat \<Rightarrow> panel_mem) \<Rightarrow> (db_stmt \<Rightarrow> status) \<Rightarrow> ptr \<Rightarrow> scene_panel list \<Rightarrow> nat \<Rightarrow> scene_list \<Rightarrow> op_result" where
  "scene_bind_sync m al db a arr cnt L = do {
     s \<leftarrow> get_scene L a;
     if panelFreed s then None else array_sync (panel_ops al db a) (pstPanel s = []) m (map fst (pstPanel s)) arr cnt L
   }"

definition scene_bind_init :: "bool \<times> bool \<times> bool \<Rightarrow> (nat \<Rightarrow> panel_mem) \<Rightarrow> (db_stmt \<Rightarrow> status) \<Rightarrow> rows \<Rightarrow> ptr \<Rightarrow> scene_list \<Rightarrow> op_result" where
  "scene_bind_init mem al db rows a L = (case mem of (m1, m2, m3) \<Rightarrow>
     if \<not> m1 then Some (HeapReqErr, L, [])
     else do {
       (r, entries) \<leftarrow> scene_bind_get_list_db m2 rows SCENE_BIND_MAX_NUM;
       scene_bind_sync m3 al db a (zero_fill SCENE_BIND_MAX_NUM zero_panel entries) (length entries) L
     })"

section \<open>Scenes\<close>

definition scene_same :: "scene_info \<Rightarrow> scene_info \<Rightarrow> bool" where
  "scene_same s e \<longleftrightarrow> strncmp (acSceneId s) (acSceneId e) INDEX_MAX_LEN = 0"

definition scene_changed :: "scene_info \<Rightarrow> scene_info \<Rightarrow> bool" where
  "scene_changed s e \<longleftrightarrow> strncmp (acSceneName s) (acSceneName e) NAME_MAX_LEN \<noteq> 0 \<or> strncmp (acSceneEnable s) (acSceneEnable e) STATE_MAX_LEN \<noteq> 0 \<or>
     strncmp (acExecDelayed s) (acExecDelayed e) DELAYED_MAX_LEN \<noteq> 0 \<or> strncmp (acUpdateTime s) (acUpdateTime e) TIME_MAX_LEN \<noteq> 0 \<or>
     strncmp (acNote s) (acNote e) NOTE_MAX_LEN \<noteq> 0"

text \<open>The texts are copied into the element, the note with the length \<open>NOT_WITHIN\<close>, which is 0, and then set through the
  list, which sends them to the data base.\<close>

definition scene_put :: "bool \<Rightarrow> (db_stmt \<Rightarrow> status) \<Rightarrow> ptr \<Rightarrow> scene_info \<Rightarrow> scene_list \<Rightarrow> op_result" where
  "scene_put m db x e L = do {
     s \<leftarrow> get_scene L x;
     let s1 = (copy_info e s)\<lparr>acNote := acNote s\<rparr>;
     let (r, L1, calls) = scene_list_set m db e (put_scene x s1 L);
     Some (r, L1, calls)
   }"

definition scene_ops :: "(nat \<Rightarrow> bool \<times> scene_mem) \<Rightarrow> (db_stmt \<Rightarrow> status) \<Rightarrow> (ptr, scene_info) sync_ops" where
  "scene_ops al db = \<lparr>so_look = get_scene, so_same = scene_same, so_changed = scene_changed, so_put = (\<lambda>i. scene_put (fst (al i)) db),
     so_del = (\<lambda>i e. scene_list_del (fst (al i)) db (acSceneId e)),
     so_add = (\<lambda>i e L. do { (p, L1, calls) \<leftarrow> scene_list_add (snd (al i)) db e L; Some (NoErr, L1, calls) }),
     so_skip = was_found, so_clear = scene_list_clear db 1\<rparr>"

definition scene_list_sync :: "bool \<Rightarrow> (nat \<Rightarrow> bool \<times> scene_mem) \<Rightarrow> (db_stmt \<Rightarrow> status) \<Rightarrow> scene_info list \<Rightarrow> nat \<Rightarrow> scene_list \<Rightarrow> op_result" where
  "scene_list_sync m al db arr cnt L = array_sync (scene_ops al db) (scenes L = []) m (map fst (scenes L)) arr cnt L"

text \<open>The tables that cannot be read are created.\<close>

definition table_columns :: "(string \<times> string list) list" where
  "table_columns = [
     (DB_TABLE_NAME_SCENE, [''id'', ''scene_name'', ''scene_enable'', ''exec_delayed'', ''update_time'', ''scene_note'']),
     (DB_TABLE_NAME_COND, [''id'', ''logic'', ''cond_type'', ''trigger_type'', ''continue_time'', ''trigger_interval'', ''time_key'', ''start_hour'',
        ''start_minu'', ''end_hour'', ''end_minu'', ''week'', ''repeat'', ''time_lose'', ''dev_id'', ''key'', ''value'', ''active'', ''last_value'']),
     (DB_TABLE_NAME_ACTION, [''id'', ''action_id'', ''dev_id'', ''key'', ''value_coding'', ''value'']),
     (DB_TABLE_NAME_BIND_SCENE, [''id'', ''dev_id'', ''key'', ''value'', ''enable''])]"

definition scene_list_table_db :: "bool \<Rightarrow> (string \<Rightarrow> status) \<Rightarrow> (db_stmt \<Rightarrow> status) \<Rightarrow> status \<times> db_calls" where
  "scene_list_table_db m qu db = (if \<not> m then (-1, [])
     else let calls = map (\<lambda>(t, cs). Db_Create t cs) (filter (\<lambda>(t, cs). qu t \<noteq> NoErr) table_columns) in
       (if qu DB_TABLE_NAME_BIND_SCENE \<noteq> NoErr \<and> db (last calls) \<noteq> NoErr then SceneAddErr else NoErr, calls))"

section \<open>Loading everything\<close>

text \<open>What the start takes from outside: the status of the tables, the rows of each query, and the allocations, for the
  lists of each scene by its address.\<close>

record load_env =
  ld_rnd :: "rat \<Rightarrow> rat"
  ld_db :: "db_stmt \<Rightarrow> status"
  ld_table :: "string \<Rightarrow> status"
  ld_scenes :: rows
  ld_conds :: "cond_info \<Rightarrow> rows"
  ld_actions :: "string \<Rightarrow> rows"
  ld_panels :: "string \<Rightarrow> rows"
  ld_tables_mem :: bool
  ld_scenes_mem :: "bool \<times> bool \<times> bool"
  ld_scene_mem :: "nat \<Rightarrow> bool \<times> scene_mem"
  ld_list_mem :: "ptr \<Rightarrow> bool \<times> bool \<times> bool"
  ld_cond_mem :: "ptr \<Rightarrow> nat \<Rightarrow> cond_mem"
  ld_action_mem :: "ptr \<Rightarrow> nat \<Rightarrow> bool \<times> bool \<times> bool"
  ld_panel_mem :: "ptr \<Rightarrow> nat \<Rightarrow> panel_mem"

definition time_load :: "load_env \<Rightarrow> logic \<Rightarrow> ptr \<Rightarrow> scene_list \<Rightarrow> op_result" where
  "time_load E lg a L = do {
     s \<leftarrow> get_scene L a;
     let l = pstTimeCondList (get_logic lg s);
     scene_time_cond_init (ld_list_mem E (cl_addr l)) (ld_cond_mem E (cl_addr l)) (ld_db E) (ld_conds E (stCondInfo l)) lg a L
   }"

definition event_load :: "load_env \<Rightarrow> logic \<Rightarrow> ptr \<Rightarrow> scene_list \<Rightarrow> op_result" where
  "event_load E lg a L = do {
     s \<leftarrow> get_scene L a;
     let l = pstEventCondList (get_logic lg s);
     scene_event_cond_init (ld_rnd E) (ld_list_mem E (cl_addr l)) (ld_cond_mem E (cl_addr l)) (ld_db E) (ld_conds E (stCondInfo l)) lg a L
   }"

definition action_load :: "load_env \<Rightarrow> ptr \<Rightarrow> scene_list \<Rightarrow> op_result" where
  "action_load E a L = do {
     (b, l) \<leftarrow> scene_actions a L;
     (r, l1, calls) \<leftarrow> action_list_init (ld_list_mem E b) (ld_action_mem E b) (ld_db E) (ld_actions E (al_acId l)) l;
     Some (r, put_actions b l1 L, calls)
   }"

definition panel_load :: "load_env \<Rightarrow> ptr \<Rightarrow> scene_list \<Rightarrow> op_result" where
  "panel_load E a L = do {
     s \<leftarrow> get_scene L a;
     scene_bind_init (ld_list_mem E a) (ld_panel_mem E a) (ld_db E) (ld_panels E (acSceneId s)) a L
   }"

definition and_then :: "op_result \<Rightarrow> (scene_list \<Rightarrow> op_result) \<Rightarrow> op_result" where
  "and_then x f = do { (r1, L1, c1) \<leftarrow> x; (r2, L2, c2) \<leftarrow> f L1; Some (NoErr, L2, c1 @ c2) }"

definition scene_load :: "load_env \<Rightarrow> ptr \<Rightarrow> scene_list \<Rightarrow> op_result" where
  "scene_load E a L = and_then (and_then (and_then (and_then (and_then (time_load E Or_Logic a L) (event_load E Or_Logic a))
     (time_load E And_Logic a)) (event_load E And_Logic a)) (action_load E a)) (panel_load E a)"

fun load_scenes :: "load_env \<Rightarrow> ptr list \<Rightarrow> scene_list \<Rightarrow> op_result" where
  "load_scenes E [] L = Some (NoErr, L, [])"
| "load_scenes E (a # as) L = and_then (scene_load E a L) (load_scenes E as)"

definition scene_list_init :: "load_env \<Rightarrow> scene_list \<Rightarrow> op_result" where
  "scene_list_init E L = (case ld_scenes_mem E of (m1, m2, m3) \<Rightarrow> do {
     let L0 = L\<lparr>sl_ucInitFlag := 1\<rparr>;
     let c0 = snd (scene_list_table_db (ld_tables_mem E) (ld_table E) (ld_db E));
     if \<not> m1 then Some (HeapReqErr, L\<lparr>sl_ucInitFlag := 0\<rparr>, c0)
     else do {
       (r, entries) \<leftarrow> scene_list_get_list_db m2 (ld_scenes E) SCENE_MAX_NUM;
       (iRet, L1, c1) \<leftarrow> scene_list_sync m3 (ld_scene_mem E) (ld_db E) (zero_fill SCENE_MAX_NUM zero_scene entries) (length entries) L0;
       (r2, L2, c2) \<leftarrow> (if iRet \<noteq> NoErr then Some (NoErr, L1, []) else load_scenes E (map fst (scenes L1)) L1);
       Some (iRet, L2\<lparr>sl_ucInitFlag := 0\<rparr>, c0 @ c1 @ c2)
     }
   })"

text \<open>The constructor; the list starts without scenes, with an empty index and queue. \<open>m\<close>: class, base list, mutex, queue
  and the two threads.\<close>

definition new_scene_list :: "bool \<times> bool \<times> bool \<times> bool \<times> bool \<times> bool \<Rightarrow> bool \<times> (nat \<Rightarrow> bool) \<Rightarrow> scene_list option" where
  "new_scene_list m h = (case m of (m1, m2, m3, m4, t1, t2) \<Rightarrow>
     if m1 \<and> m2 \<and> m3 then case new_ptr_hash_table (fst h) (snd h) of
       None \<Rightarrow> None
     | Some t \<Rightarrow> if m4 \<and> t1 \<and> t2 then Some \<lparr>scenes = [], pHashTable = t, pstExecQueue = [], pSceneReportHandler = NULL, syncList = None,
           timerReqs = [], sl_ucInitFlag = 0, actionLists = Map.empty\<rparr> else None
     else None)"

text \<open>The destructor frees the index first and clears the list of scenes afterwards. Clearing a scene that has conditions or
  panels looks their records up in the index, which is no longer there.\<close>

definition destroy_scene_list :: "(db_stmt \<Rightarrow> status) \<Rightarrow> scene_list \<Rightarrow> (status \<times> db_calls) option" where
  "destroy_scene_list db L =
     (if list_ex (\<lambda>(a, s). scene_keys s \<noteq> []) (scenes L) then None
      else do { (r, L1, calls) \<leftarrow> scene_list_clear db 0 L; Some (0, calls) })"

section \<open>Adding the entries of an array\<close>

text \<open>Memory for the entries in \<open>I\<close>: nothing in use, and nothing given out twice.\<close>

definition mem_fresh :: "(nat \<Rightarrow> cond_mem) \<Rightarrow> nat set \<Rightarrow> 'c cond_list \<Rightarrow> ptr_hash_table \<Rightarrow> bool" where
  "mem_fresh al I l t \<longleftrightarrow> (\<forall>i \<in> I. mem_ok (al i) l t) \<and> inj_on (\<lambda>i. fst (snd (al i))) I \<and> inj_on (\<lambda>i. fst (snd (snd (al i)))) I \<and>
     inj_on (\<lambda>i. snd (snd (snd (snd (al i))))) I"

lemma mem_fresh_step:
  assumes "mem_fresh al (insert i I) l t" "i \<notin> I" "al i = (m, ps, pc, b, head)" "list_grown ps pc c l l'" "dom (chain_of t') \<subseteq> insert head (dom (chain_of t))"
  shows "mem_fresh al I l' t'"
proof -
  have "mem_ok (al j) l' t'" if "j \<in> I" for j
  proof -
    have j: "j \<noteq> i" using that assms(2) by auto
    obtain m2 ps2 pc2 b2 head2 where a: "al j = (m2, ps2, pc2, b2, head2)" by (metis prod.exhaust)
    have "ps2 \<noteq> ps" "pc2 \<noteq> pc" "head2 \<noteq> head" using assms(1,3) that j a by (force simp: mem_fresh_def inj_on_def)+
    moreover have "mem_ok (m2, ps2, pc2, b2, head2) l t" using assms(1) that a by (metis insertI2 mem_fresh_def)
    moreover have "ps2 \<notin> set_addrs l'" "pc2 \<notin> cond_addrs l'" "chain_of t' head2 = None"
      using calculation assms(4,5) by (auto simp: mem_ok_def list_grown_def)
    ultimately show ?thesis unfolding a mem_ok_def prod.case by blast
  qed
  with assms(1) show ?thesis by (simp add: mem_fresh_def)
qed

lemma index_free_nodes: "ph_inv t \<Longrightarrow> ph_inv t' \<Longrightarrow> nodes t' key = nodes t key \<Longrightarrow> index_free t' key ident = index_free t key ident"
  by (simp add: index_free_def ptr_hash_find_refines)

text \<open>The scene after loading the entries \<open>is\<close> of \<open>arr\<close>: the list has them besides what it had, each with its first
  truth and a record in the index; conditions there were and the other lists are as before.\<close>

definition loaded :: "'c list_get \<Rightarrow> 'd list_get \<Rightarrow> logic \<Rightarrow> ('c \<Rightarrow> string) \<Rightarrow> ('c \<times> bool) list \<Rightarrow> ptr \<Rightarrow> scene_info \<Rightarrow> scene_info \<Rightarrow> ptr_hash_table \<Rightarrow> ptr_hash_table \<Rightarrow> bool" where
  "loaded fget oget lg key cs a s s' t t' \<longleftrightarrow> same_static s s' \<and> ph_inv t' \<and>
     mset (conds_of (fget (get_logic lg s'))) = mset (conds_of (fget (get_logic lg s))) + mset (map fst cs) \<and>
     cl_addr (fget (get_logic lg s')) = cl_addr (fget (get_logic lg s)) \<and>
     stCondInfo (fget (get_logic lg s')) = stCondInfo (fget (get_logic lg s)) \<and> ucInitFlag (fget (get_logic lg s')) = ucInitFlag (fget (get_logic lg s)) \<and>
     (\<forall>lg2. lg2 \<noteq> lg \<longrightarrow> bare_list (fget (get_logic lg2 s')) = bare_list (fget (get_logic lg2 s))) \<and> (\<forall>lg2. oget (get_logic lg2 s') = oget (get_logic lg2 s)) \<and>
     (\<forall>q. cond_at fget q s \<noteq> None \<longrightarrow> cond_at fget q s' = cond_at fget q s \<and> cond_truth fget q s' = cond_truth fget q s) \<and>
     (\<forall>(c, b) \<in> set cs. \<exists>p. nodes t' (key c) = p # nodes t (key c) \<and> pstScene p = a \<and> cond_at fget p s' = Some c \<and> cond_truth fget p s' = Some b) \<and>
     (\<forall>x. x \<notin> key ` fst ` set cs \<longrightarrow> nodes t' x = nodes t x)"

lemma one_scene_trans: "one_scene a s1 L L1 \<Longrightarrow> one_scene a s2 L1 L2 \<Longrightarrow> one_scene a s2 L L2"
proof -
  assume a: "one_scene a s1 L L1" "one_scene a s2 L1 L2"
  have "L2 = (put_scene a s2 L1)\<lparr>pHashTable := pHashTable L2\<rparr>" using a(2) by (simp add: one_scene_def)
  also have "put_scene a s2 L1 = put_scene a s2 ((put_scene a s1 L)\<lparr>pHashTable := pHashTable L1\<rparr>)"
    using arg_cong [OF a(1) [unfolded one_scene_def], of "put_scene a s2"] .
  finally show ?thesis by (simp add: one_scene_def put_scene_table put_put_scene)
qed

text \<open>What adding a condition has in common for the lists: while the list loads (nothing is written), a condition whose key
  the index does not have yet is stored with its first truth, as long as the list has less than \<open>room\<close> conditions.\<close>

locale cond_loader = cond_kind fget fupd k oget j
  for fget :: "'c list_get" and fupd :: "'c list_upd" and k :: nat and oget :: "'d list_get" and j :: nat +
  fixes lg :: logic and key :: "'c \<Rightarrow> string" and add :: "cond_mem \<Rightarrow> ptr \<Rightarrow> 'c \<Rightarrow> scene_list \<Rightarrow> op_result" and first :: "'c \<Rightarrow> bool \<Rightarrow> bool" and room :: nat
  assumes add_new: "scenes_ok L \<Longrightarrow> get_scene L a = Some s \<Longrightarrow> ph_inv (pHashTable L) \<Longrightarrow> index_free (pHashTable L) (key c) (acSceneId s) \<Longrightarrow>
      mem_ok mem (fget (get_logic lg s)) (pHashTable L) \<Longrightarrow> iCount (fget (get_logic lg s)) < int room \<Longrightarrow> ucInitFlag (fget (get_logic lg s)) = 1 \<Longrightarrow> first c b \<Longrightarrow>
    \<exists>L' p s'. add mem a c L = Some (NoErr, L', []) \<and> scenes_ok L' \<and> get_scene L' a = Some s' \<and> cond_added fget oget p c b s s' \<and>
      cond_stored fget oget lg mem c p s s' (pHashTable L) (pHashTable L') \<and> one_scene a s' L L' \<and> pstScene p = a \<and>
      index_put (key c) p (pHashTable L) (pHashTable L')"
    and flag_ok: "scene_ok (upd_logic lg (fupd (\<lambda>l. l\<lparr>ucInitFlag := v\<rparr>)) s') \<longleftrightarrow> scene_ok s'"
begin

lemma new_record:
  assumes "scene_ok s" "cond_stored fget oget lg mem c p s s' t t'" "mem_ok mem (fget (get_logic lg s)) t"
  shows "cond_at fget p s = None"
proof -
  let ?l = "fget (get_logic lg s)"
  obtain m ps pc b head where m: "mem = (m, ps, pc, b, head)" by (metis prod.exhaust)
  have p: "pstCondList p = cl_addr ?l" "pCondNode p = pc" "pc \<notin> cond_addrs ?l" using assms(2,3) m by (simp_all add: cond_stored_def mem_ok_def)
  have "get_cond u pc = None" if "get_set ?l (pCondSetNode p) = Some u" for u
    using that p(3) by (force simp: get_set_def get_cond_def find_None_iff find_Some_iff cond_addrs_def)
  then show ?thesis using logic_list(1) [OF assms(1) refl, of lg] p by (auto simp: cond_at_def split: Option.bind_split)
qed

lemma loaded_nil: "ph_inv t \<Longrightarrow> loaded fget oget lg key [] a s s t t"
  by (simp add: loaded_def)

lemma loaded_step:
  assumes "scene_ok s" "cond_added fget oget p c b s s1" "cond_stored fget oget lg mem c p s s1 t t1" "mem_ok mem (fget (get_logic lg s)) t"
    "pstScene p = a" "index_put (key c) p t t1" "loaded fget oget lg key cs a s1 s' t1 t'" "key c \<notin> key ` fst ` set cs"
  shows "loaded fget oget lg key ((c, b) # cs) a s s' t t'"
proof -
  obtain m ps pc al head where m: "mem = (m, ps, pc, al, head)" by (metis prod.exhaust)
  note A = assms(2) [unfolded cond_added_def] and S = assms(3) [unfolded cond_stored_def m prod.case list_grown_def] and R = assms(7) [unfolded loaded_def]
  have n: "cond_at fget p s = None" by (rule new_record [OF assms(1,3,4)])
  have keep: "cond_at fget q s' = cond_at fget q s \<and> cond_truth fget q s' = cond_truth fget q s" if "cond_at fget q s \<noteq> None" for q
  proof -
    have "\<not> same_cond q p" using that n by (auto simp: same_cond_def cond_at_def)
    then have "cond_truth fget q s1 = cond_truth fget q s" "cond_at fget q s1 = cond_at fget q s" using A by blast+
    with R that show ?thesis by metis
  qed
  have "nodes t' (key c) = p # nodes t (key c)" "cond_at fget p s' = Some c" "cond_truth fget p s' = Some b"
    using R A assms(6,8) by (auto simp: index_put_def)
  moreover have "nodes t1 x = nodes t x" if "x \<noteq> key c" for x using that assms(6) by (simp add: index_put_def)
  moreover have "same_static s s'" using A R same_static_trans by blast
  moreover have "\<exists>q. nodes t' (key x) = q # nodes t (key x) \<and> pstScene q = a \<and> cond_at fget q s' = Some x \<and> cond_truth fget q s' = Some y"
    if "(x, y) \<in> set cs" for x y
  proof -
    have "key x \<noteq> key c" using that assms(8) by (metis fst_conv image_eqI)
    then have "nodes t1 (key x) = nodes t (key x)" using assms(6) by (simp add: index_put_def)
    with R that show ?thesis by fastforce
  qed
  ultimately show ?thesis unfolding loaded_def using R S assms(5,8) keep by (auto simp: image_iff)
qed

lemma load_entries:
  assumes "scenes_ok L" "get_scene L a = Some s" "ph_inv (pHashTable L)" "ucInitFlag (fget (get_logic lg s)) = 1"
    "distinct is" "\<forall>i \<in> set is. index_free (pHashTable L) (key (arr ! i)) (acSceneId s) \<and> first (arr ! i) (b i)" "inj_on (\<lambda>i. key (arr ! i)) (set is)"
    "mem_fresh al (set is) (fget (get_logic lg s)) (pHashTable L)" "iCount (fget (get_logic lg s)) + int (length is) \<le> int room"
  shows "\<exists>L' s'. sync_add (\<lambda>i L. Some False) (\<lambda>i c. add (al i) a c) arr is L = Some (L', []) \<and> scenes_ok L' \<and> get_scene L' a = Some s' \<and>
    one_scene a s' L L' \<and> loaded fget oget lg key (map (\<lambda>i. (arr ! i, b i)) is) a s s' (pHashTable L) (pHashTable L')"
  using assms
proof (induction "is" arbitrary: L s)
  case Nil
  have "put_scene a s L = L" using Nil.prems(1,2) by (cases L) (auto simp: put_scene_def get_scene_def scenes_ok_def intro!: map_idI intro: eq_key_imp_eq_value)
  then have "one_scene a s L L" by (simp add: one_scene_def)
  with Nil.prems loaded_nil show ?case by simp
next
  case (Cons i "is")
  let ?l = "fget (get_logic lg s)"
  have m: "mem_ok (al i) ?l (pHashTable L)" using Cons.prems(8) by (simp add: mem_fresh_def)
  have c: "iCount ?l < int room" using Cons.prems(9) by simp
  obtain L1 p s1 where A: "add (al i) a (arr ! i) L = Some (NoErr, L1, [])" "scenes_ok L1" "get_scene L1 a = Some s1" "cond_added fget oget p (arr ! i) (b i) s s1"
    "cond_stored fget oget lg (al i) (arr ! i) p s s1 (pHashTable L) (pHashTable L1)" "one_scene a s1 L L1" "pstScene p = a" "index_put (key (arr ! i)) p (pHashTable L) (pHashTable L1)"
    using add_new [OF Cons.prems(1-3) _ m c Cons.prems(4), of "arr ! i" "b i"] Cons.prems(6) by auto
  obtain mm ps pc al' head where al: "al i = (mm, ps, pc, al', head)" by (metis prod.exhaust)
  have S: "list_grown ps pc (arr ! i) ?l (fget (get_logic lg s1))" "dom (chain_of (pHashTable L1)) \<subseteq> insert head (dom (chain_of (pHashTable L)))"
    using A(5) al by (simp_all add: cond_stored_def)
  have f: "mem_fresh al (set is) (fget (get_logic lg s1)) (pHashTable L1)"
    using Cons.prems(5,8) by (intro mem_fresh_step [where al = al and i = i, OF _ _ al S]) simp_all
  have id: "acSceneId s1 = acSceneId s" using A(4) by (cases s; cases s1) (simp add: cond_added_def same_static_def)
  have fr: "\<forall>x \<in> set is. index_free (pHashTable L1) (key (arr ! x)) (acSceneId s1) \<and> first (arr ! x) (b x)"
    using Cons.prems(3,5-7) A(8) index_free_nodes [of "pHashTable L" "pHashTable L1"] id by (auto simp: index_put_def inj_on_def)
  from Cons.IH [OF A(2,3) _ _ _ fr _ f] A(8) S(1) Cons.prems(4,5,7,9)
  obtain L' s' where R: "sync_add (\<lambda>i L. Some False) (\<lambda>i c. add (al i) a c) arr is L1 = Some (L', [])" "scenes_ok L'" "get_scene L' a = Some s'"
    "one_scene a s' L1 L'" "loaded fget oget lg key (map (\<lambda>i. (arr ! i, b i)) is) a s1 s' (pHashTable L1) (pHashTable L')"
    by (auto simp: index_put_def list_grown_def inj_on_def)
  have "one_scene a s' L L'" using A(6) R(4) by (rule one_scene_trans)
  moreover have "key (arr ! i) \<notin> key ` fst ` set (map (\<lambda>i. (arr ! i, b i)) is)" using Cons.prems(5,7) by (auto simp: inj_on_def)
  from loaded_step [OF get_scene_ok [OF Cons.prems(1,2)] A(4,5) m A(7,8) R(5) this]
  have "loaded fget oget lg key (map (\<lambda>i. (arr ! i, b i)) (i # is)) a s s' (pHashTable L) (pHashTable L')" by simp
  ultimately show ?case using A(1) R(1-3) by auto
qed

end

text \<open>The flag of the list is on while its entries are added.\<close>

context cond_loader
begin

lemma flag_list:
  "fget (get_logic lg2 (upd_logic lg (fupd (\<lambda>l. l\<lparr>ucInitFlag := v\<rparr>)) s)) = (if lg2 = lg then (fget (get_logic lg s))\<lparr>ucInitFlag := v\<rparr> else fget (get_logic lg2 s))"
  "oget (get_logic lg2 (upd_logic lg (fupd (\<lambda>l. l\<lparr>ucInitFlag := v\<rparr>)) s)) = oget (get_logic lg2 s)"
  by (cases lg; cases lg2; simp add: upd_logic_def get_logic_def kind_simps)+

lemma flag_conds:
  "cond_at fget q (upd_logic lg (fupd (\<lambda>l. l\<lparr>ucInitFlag := v\<rparr>)) s) = cond_at fget q s"
  "cond_truth fget q (upd_logic lg (fupd (\<lambda>l. l\<lparr>ucInitFlag := v\<rparr>)) s) = cond_truth fget q s"
  by (cases lg; auto simp: cond_at_def cond_truth_def find_list_def upd_logic_def kind_simps get_set_def)+

lemma flag_static: "same_static s (upd_logic lg f s)"
  by (cases lg) (simp_all add: upd_logic_def same_static_def)

lemma flag_one_scene: "list_flag fupd lg v a L = Some L' \<Longrightarrow> get_scene L a = Some s \<Longrightarrow> one_scene a (upd_logic lg (fupd (\<lambda>l. l\<lparr>ucInitFlag := v\<rparr>)) s) L L'"
  by (auto simp: list_flag_def one_scene_def put_scene_def)

lemma flag_mem: "mem_fresh al I (l\<lparr>ucInitFlag := v\<rparr>) t = mem_fresh al I l t"
  by (simp add: mem_fresh_def mem_ok_def set_addrs_def cond_addrs_def)

lemma flag_fields:
  "conds_of (l\<lparr>ucInitFlag := v\<rparr>) = conds_of l" "ucInitFlag l = v \<Longrightarrow> l\<lparr>ucInitFlag := v\<rparr> = l"
  by (simp_all add: conds_of_def)

lemma flag_loaded:
  assumes "loaded fget oget lg key cs a (upd_logic lg (fupd (\<lambda>l. l\<lparr>ucInitFlag := 1\<rparr>)) s) s' t t'" "ucInitFlag (fget (get_logic lg s)) = 0"
  shows "loaded fget oget lg key cs a s (upd_logic lg (fupd (\<lambda>l. l\<lparr>ucInitFlag := 0\<rparr>)) s') t t'"
proof -
  let ?s1 = "upd_logic lg (fupd (\<lambda>l. l\<lparr>ucInitFlag := 1\<rparr>)) s" and ?s2 = "upd_logic lg (fupd (\<lambda>l. l\<lparr>ucInitFlag := 0\<rparr>)) s'"
  have "same_static s ?s1" "same_static s' ?s2" by (rule flag_static)+
  moreover have "same_static ?s1 s'" using assms(1) by (simp add: loaded_def)
  ultimately have "same_static s ?s2" using same_static_trans by blast
  then show ?thesis using assms unfolding loaded_def flag_conds by (simp add: flag_list flag_fields)
qed

lemma load_flagged:
  assumes "scenes_ok L" "get_scene L a = Some s" "ph_inv (pHashTable L)" "ucInitFlag (fget (get_logic lg s)) = 0" "distinct (map key cs)"
    "\<forall>c \<in> set cs. index_free (pHashTable L) (key c) (acSceneId s) \<and> first c (b c)"
    "mem_fresh al {0..<length cs} (fget (get_logic lg s)) (pHashTable L)" "iCount (fget (get_logic lg s)) + int (length cs) \<le> int room"
  shows "\<exists>L1 L2 L3 s'. list_flag fupd lg 1 a L = Some L1 \<and> get_scene L1 a = Some (upd_logic lg (fupd (\<lambda>l. l\<lparr>ucInitFlag := 1\<rparr>)) s) \<and>
    sync_add (\<lambda>i L. Some False) (\<lambda>i c. add (al i) a c) (zero_fill n z cs) [0..<length cs] L1 = Some (L2, []) \<and> list_flag fupd lg 0 a L2 = Some L3 \<and>
    scenes_ok L3 \<and> get_scene L3 a = Some s' \<and> one_scene a s' L L3 \<and> loaded fget oget lg key (map (\<lambda>c. (c, b c)) cs) a s s' (pHashTable L) (pHashTable L3)"
proof -
  let ?F = "\<lambda>v. upd_logic lg (fupd (\<lambda>l. l\<lparr>ucInitFlag := v\<rparr>))" and ?arr = "zero_fill n z cs"
  define L1 where "L1 = put_scene a (?F 1 s) L"
  have 1: "list_flag fupd lg 1 a L = Some L1" using assms(2) by (simp add: list_flag_def L1_def)
  note o1 = flag_one_scene [OF 1 assms(2)]
  have ok1: "scene_ok (?F 1 s)" using flag_ok get_scene_ok [OF assms(1,2)] by simp
  have g1: "get_scene L1 a = Some (?F 1 s)" "scenes_ok L1" "pHashTable L1 = pHashTable L"
    using one_scene_get [OF _ o1] assms(2) one_scene_ok [OF assms(1) ok1 o1] by (simp_all add: L1_def put_scene_def)
  have nth: "map ((!) ?arr) [0..<length cs] = cs" by (rule nth_zero_fill)
  have el: "?arr ! i = cs ! i" if "i < length cs" for i using that by (simp add: zero_fill_def nth_append)
  have fl: "fget (get_logic lg (?F 1 s)) = (fget (get_logic lg s))\<lparr>ucInitFlag := 1\<rparr>" by (simp add: flag_list)
  have id: "acSceneId (?F 1 s) = acSceneId s" by (cases lg) (simp_all add: upd_logic_def)
  have i1: "\<forall>i \<in> set [0..<length cs]. index_free (pHashTable L1) (key (?arr ! i)) (acSceneId (?F 1 s)) \<and> first (?arr ! i) (b (?arr ! i))"
    using assms(6) el id g1(3) by simp
  have i2: "inj_on (\<lambda>i. key (?arr ! i)) (set [0..<length cs])" using assms(5) el by (auto simp: inj_on_def distinct_conv_nth) metis
  have i3: "mem_fresh al (set [0..<length cs]) (fget (get_logic lg (?F 1 s))) (pHashTable L1)" using assms(7) by (simp add: fl flag_mem g1(3))
  obtain L2 s2 where 2: "sync_add (\<lambda>i L. Some False) (\<lambda>i c. add (al i) a c) ?arr [0..<length cs] L1 = Some (L2, [])" "scenes_ok L2" "get_scene L2 a = Some s2"
    "one_scene a s2 L1 L2" "loaded fget oget lg key (map (\<lambda>i. (?arr ! i, b (?arr ! i))) [0..<length cs]) a (?F 1 s) s2 (pHashTable L1) (pHashTable L2)"
    using load_entries [OF g1(2,1) _ _ _ i1 i2 i3] assms(3,8) g1(3) fl by auto
  have m: "map (\<lambda>i. (?arr ! i, b (?arr ! i))) [0..<length cs] = map (\<lambda>c. (c, b c)) cs"
    using arg_cong [OF nth, of "map (\<lambda>c. (c, b c))"] by (simp add: comp_def)
  define L3 where "L3 = put_scene a (?F 0 s2) L2"
  have 3: "list_flag fupd lg 0 a L2 = Some L3" using 2(3) by (simp add: list_flag_def L3_def)
  note o3 = flag_one_scene [OF 3 2(3)]
  have "scenes_ok L3" "get_scene L3 a = Some (?F 0 s2)" "pHashTable L3 = pHashTable L2"
    using one_scene_ok [OF 2(2) _ o3] flag_ok get_scene_ok [OF 2(2,3)] one_scene_get [OF _ o3] 2(3) by (simp_all add: L3_def put_scene_def)
  moreover have "one_scene a (?F 0 s2) L L3" using one_scene_trans [OF one_scene_trans [OF o1 2(4)] o3] .
  ultimately show ?thesis using 1 g1(1,3) 2(1) 3 flag_loaded [OF 2(5) assms(4)] m by auto
qed

end

section \<open>The loaders of the condition lists\<close>

lemma flag_scene_ok:
  "scene_ok (upd_logic lg (pstTimeCondList_update (\<lambda>l. l\<lparr>ucInitFlag := v\<rparr>)) s) \<longleftrightarrow> scene_ok s"
  "scene_ok (upd_logic lg (pstEventCondList_update (\<lambda>l. l\<lparr>ucInitFlag := v\<rparr>)) s) \<longleftrightarrow> scene_ok s"
  by (cases lg; simp add: upd_logic_def scene_ok_def logic_ok_def list_ok_def list_spec_def cl_wf_def conds_of_def scene_truth_def logic_count_def)+

lemma loading_writes_nothing: "ucInitFlag l = 1 \<Longrightarrow> time_cond_add_db db l c = (NoErr, [])" "ucInitFlag l' = 1 \<Longrightarrow> event_cond_add_db db l' e = (NoErr, [])"
  by (simp_all add: time_cond_add_db_def event_cond_add_db_def db_send_def db_write_def)

lemma small_list_room:
  assumes "cl_wf l" "iCount l < 32" "sets l \<noteq> []"
  shows "\<exists>t \<in> set (sets l). ucCondCount t < 32"
proof -
  obtain t ss where t: "sets l = t # ss" using assms(3) by (cases "sets l") auto
  have "int (length (conds_of l)) < 32" using assms(1,2) by (simp add: cl_wf_def)
  then have "length (set_conds t) < 32" using t by (simp add: conds_of_sets)
  then show ?thesis using assms(1) t by (auto simp: cl_wf_def set_wf_def set_conds_def)
qed

interpretation time_loader: cond_loader pstTimeCondList pstTimeCondList_update 0 pstEventCondList 1 lg time_key
  "\<lambda>mem a c L. (case lg of Or_Logic \<Rightarrow> scene_time_or_cond_add | And_Logic \<Rightarrow> scene_time_and_cond_add) mem db a c L" "\<lambda>c b. \<not> b" 1024 for lg db
proof (unfold_locales, goal_cases)
  case (1 L a s c mem b)
  from time_cond_added [OF 1(1-5) _ loading_writes_nothing(1) [OF 1(7)], of db] 1(6,8) show ?case by (cases b) auto
qed (rule flag_scene_ok)

interpretation event_loader: cond_loader pstEventCondList pstEventCondList_update 1 pstTimeCondList 0 Or_Logic event_key
  "\<lambda>mem a c L. scene_event_or_cond_add rnd mem db a c L" "\<lambda>c b. e_acKey c \<noteq> ''Manual'' \<and> event_cond_start rnd c = Some b" 32 for rnd db
proof (unfold_locales, goal_cases)
  case (1 L a s c mem b)
  let ?l = "pstEventCondList (get_logic Or_Logic s)"
  have wf: "cl_wf ?l" using event_kind.logic_list(3) [OF get_scene_ok [OF 1(1,2)] refl, of Or_Logic] by (simp add: list_ok_def)
  have r: "(Or_Logic = Or_Logic \<and> sets ?l = []) \<or> (\<exists>t \<in> set (sets ?l). ucCondCount t < 32)" using small_list_room [OF wf] 1(6) by auto
  have e: "e_acKey c \<noteq> ''Manual''" "event_cond_start rnd c = Some b" using 1(8) by simp_all
  from event_cond_added [OF 1(1-5) _ loading_writes_nothing(2) [OF 1(7)] e r, of db] 1(6) show ?case by auto
qed (rule flag_scene_ok)

section \<open>A restart restores the conditions\<close>

text \<open>The row of a condition, in the order in which it is read, and the conditions whose texts fit the columns.\<close>

definition time_row :: "time_cond \<Rightarrow> string list" where
  "time_row c = [acTimeKey c, t_acTriggerType c, acTriggerInterval c, acStartHour c, acStartMinu c, acEndHour c, acEndMinu c, acWeek c, acRepeat c, acLose c]"

definition time_storable :: "time_cond \<Rightarrow> bool" where
  "time_storable c \<longleftrightarrow> acTimeKey c \<noteq> [] \<and> length (acTimeKey c) \<le> KEY_MAX_LEN \<and> length (t_acTriggerType c) \<le> TRIGGER_TYPE_MAX_LEN \<and>
     length (acTriggerInterval c) \<le> TRIGGER_INTERVAL_MAX_LEN \<and> length (acStartHour c) \<le> HOUR_MAX_LEN \<and> length (acStartMinu c) \<le> MINU_MAX_LEN \<and>
     length (acEndHour c) \<le> HOUR_MAX_LEN \<and> length (acEndMinu c) \<le> MINU_MAX_LEN \<and> length (acWeek c) \<le> WEEK_MAX_LEN \<and>
     length (acRepeat c) \<le> STATE_MAX_LEN \<and> length (acLose c) \<le> STATE_MAX_LEN \<and> iTriggerInterval c = 0"

definition event_row :: "event_cond \<Rightarrow> string list" where
  "event_row c = [e_acTriggerType c, acContinueTime c, e_acDevId c, e_acKey c, e_acValue c, acActive c, acLastValue c]"

definition event_storable :: "event_cond \<Rightarrow> bool" where
  "event_storable c \<longleftrightarrow> e_acTriggerType c \<noteq> [] \<and> length (e_acTriggerType c) \<le> TRIGGER_TYPE_MAX_LEN \<and> length (acContinueTime c) \<le> CONTINUE_TIME_MAX_LEN \<and>
     length (e_acDevId c) \<le> DEV_ID_MAX_LEN \<and> length (e_acKey c) \<le> KEY_MAX_LEN \<and> length (e_acValue c) \<le> VALUE_MAX_LEN \<and>
     length (acActive c) \<le> ACTIVE_MAX_LEN \<and> length (acLastValue c) \<le> ACTIVE_MAX_LEN"

lemma row_storable: "time_storable c \<Longrightarrow> row_time (time_row c) = c" "event_storable e \<Longrightarrow> row_event (event_row e) = e"
  by (simp_all add: time_storable_def event_storable_def row_time_def row_event_def time_row_def event_row_def)

lemma rows_storable:
  "\<forall>c \<in> set cs. time_storable c \<Longrightarrow> length cs \<le> COND_MAX_NUM \<Longrightarrow> time_cond_get_list_db True (NoErr, map time_row cs) COND_MAX_NUM = Some (NoErr, cs)"
  "\<forall>e \<in> set es. event_storable e \<Longrightarrow> length es \<le> COND_MAX_NUM \<Longrightarrow> event_cond_get_list_db True (NoErr, map event_row es) COND_MAX_NUM = Some (NoErr, es)"
proof -
  assume a: "\<forall>c \<in> set cs. time_storable c" "length cs \<le> COND_MAX_NUM"
  have "\<forall>r \<in> set (map time_row cs). r ! 0 \<noteq> []" using a(1) by (auto simp: time_storable_def time_row_def)
  moreover have "map (row_time \<circ> time_row) cs = cs" using a(1) row_storable(1) by (simp add: map_idI)
  ultimately show "time_cond_get_list_db True (NoErr, map time_row cs) COND_MAX_NUM = Some (NoErr, cs)"
    using a(2) by (simp add: time_cond_get_list_db_def get_list_db_all)
next
  assume a: "\<forall>e \<in> set es. event_storable e" "length es \<le> COND_MAX_NUM"
  have "\<forall>r \<in> set (map event_row es). r ! 0 \<noteq> []" using a(1) by (auto simp: event_storable_def event_row_def)
  moreover have "map (row_event \<circ> event_row) es = es" using a(1) row_storable(2) by (simp add: map_idI)
  ultimately show "event_cond_get_list_db True (NoErr, map event_row es) COND_MAX_NUM = Some (NoErr, es)"
    using a(2) by (simp add: event_cond_get_list_db_def get_list_db_all)
qed

text \<open>C35. A restart restores the time conditions of a list, up to the 128 that are read: loading their rows into an empty list
  stores exactly them, each reachable through the index and false, without any write to the data base. The
  scene stays consistent and nothing else changes.\<close>

theorem scene_time_cond_init_restores:
  assumes "scenes_ok L" "get_scene L a = Some s" "sets (pstTimeCondList (get_logic lg s)) = []" "ucInitFlag (pstTimeCondList (get_logic lg s)) = 0"
    "ph_inv (pHashTable L)" "length cs \<le> COND_MAX_NUM" "distinct (map time_key cs)"
    "\<forall>c \<in> set cs. time_storable c \<and> index_free (pHashTable L) (time_key c) (acSceneId s)" "mem_fresh al {0..<length cs} (pstTimeCondList (get_logic lg s)) (pHashTable L)"
  shows "\<exists>L' s'. scene_time_cond_init (True, True, True) al db (NoErr, map time_row cs) lg a L = Some (NoErr, L', []) \<and> scenes_ok L' \<and>
    get_scene L' a = Some s' \<and> same_static s s' \<and> mset (conds_of (pstTimeCondList (get_logic lg s'))) = mset cs \<and>
    (\<forall>c \<in> set cs. \<exists>p. nodes (pHashTable L') (time_key c) = p # nodes (pHashTable L) (time_key c) \<and> pstScene p = a \<and>
      cond_at pstTimeCondList p s' = Some c \<and> cond_truth pstTimeCondList p s' = Some False) \<and>
    (\<forall>b. b \<noteq> a \<longrightarrow> get_scene L' b = get_scene L b) \<and> pstExecQueue L' = pstExecQueue L"
proof -
  let ?l = "pstTimeCondList (get_logic lg s)" and ?s1 = "upd_logic lg (pstTimeCondList_update (\<lambda>l. l\<lparr>ucInitFlag := 1\<rparr>)) s"
  have "cl_wf ?l" using time_kind.logic_list(3) [OF get_scene_ok [OF assms(1,2)] refl, of lg] by (simp add: list_ok_def)
  then have c: "iCount ?l + int (length cs) \<le> int 1024" "conds_of ?l = []" using assms(3,6) by (simp_all add: cl_wf_def conds_of_def COND_MAX_NUM_def)
  have i: "\<forall>c \<in> set cs. index_free (pHashTable L) (time_key c) (acSceneId s) \<and> \<not> False" using assms(8) by simp
  from time_loader.load_flagged [OF assms(1,2,5,4,7) i assms(9) c(1), of db COND_MAX_NUM zero_time]
  obtain L1 L2 L3 s' where R: "list_flag pstTimeCondList_update lg 1 a L = Some L1" "get_scene L1 a = Some ?s1"
    "sync_add (\<lambda>i L. Some False) (\<lambda>i c L. (case lg of Or_Logic \<Rightarrow> scene_time_or_cond_add | And_Logic \<Rightarrow> scene_time_and_cond_add) (al i) db a c L)
       (zero_fill COND_MAX_NUM zero_time cs) [0..<length cs] L1 = Some (L2, [])" "list_flag pstTimeCondList_update lg 0 a L2 = Some L3"
    "scenes_ok L3" "get_scene L3 a = Some s'" "one_scene a s' L L3"
    "loaded pstTimeCondList pstEventCondList lg time_key (map (\<lambda>c. (c, False)) cs) a s s' (pHashTable L) (pHashTable L3)" by blast
  have z: "list_size (pstTimeCondList (get_logic lg ?s1)) = 0" using assms(3) by (simp add: time_loader.flag_list list_size_def)
  have "scene_time_cond_init (True, True, True) al db (NoErr, map time_row cs) lg a L = Some (NoErr, L3, [])"
    using R(1-4) rows_storable(1) [OF _ assms(6)] assms(8) z by (simp add: scene_time_cond_init_def scene_time_cond_sync_def array_sync_def time_ops_def Let_def)
  moreover have "get_scene L3 b = get_scene L b" if "b \<noteq> a" for b using one_scene_get [OF _ R(7)] assms(2) that by simp
  moreover have "same_static s s'" "mset (conds_of (pstTimeCondList (get_logic lg s'))) = mset cs"
    "\<forall>c \<in> set cs. \<exists>p. nodes (pHashTable L3) (time_key c) = p # nodes (pHashTable L) (time_key c) \<and> pstScene p = a \<and>
      cond_at pstTimeCondList p s' = Some c \<and> cond_truth pstTimeCondList p s' = Some False"
    using R(8) c(2) by (auto simp: loaded_def comp_def)
  ultimately show ?thesis using R(5,6) one_scene_parts(2) [OF R(7)] by blast
qed

lemma example_fresh:
  "chain_of t = Map.empty \<Longrightarrow> sets l = [] \<Longrightarrow> mem_fresh (\<lambda>i. (True, 20 + i, 40 + i, \<lambda>k. True, 60 + i)) I l t"
  by (auto simp: mem_fresh_def mem_ok_def set_addrs_def cond_addrs_def inj_on_def)

theorem scene_time_cond_init_restores_witness:
  "\<exists>t L' s'. new_ptr_hash_table True (\<lambda>i. True) = Some t \<and>
     scene_time_cond_init (True, True, True) (\<lambda>i. (True, 20 + i, 40 + i, \<lambda>k. True, 60 + i)) (\<lambda>q. NoErr)
       (NoErr, [time_row time_example, time_row (time_example\<lparr>acTimeKey := ''t2''\<rparr>)]) Or_Logic 1 ((scenes_example scene_example)\<lparr>pHashTable := t\<rparr>) =
       Some (NoErr, L', []) \<and>
     get_scene L' 1 = Some s' \<and> mset (conds_of (pstTimeCondList (stOrCond s'))) = {#time_example, time_example\<lparr>acTimeKey := ''t2''\<rparr>#}"
proof -
  let ?cs = "[time_example, time_example\<lparr>acTimeKey := ''t2''\<rparr>]"
  obtain t where t: "new_ptr_hash_table True (\<lambda>i. True) = Some t" "ph_inv t" "nodes t = (\<lambda>k. [])" "chain_of t = Map.empty" by (rule example_table)
  let ?L = "(scenes_example scene_example)\<lparr>pHashTable := t\<rparr>"
  have L: "scenes_ok ?L" using scenes_example_ok [OF scene_example_ok] by (simp add: scenes_ok_def)
  have g: "get_scene ?L 1 = Some scene_example" by (simp add: get_scene_def scenes_example_def)
  have l: "sets (pstTimeCondList (get_logic Or_Logic scene_example)) = []" "ucInitFlag (pstTimeCondList (get_logic Or_Logic scene_example)) = 0"
    by (simp_all add: get_logic_def scene_example_def empty_list_def)
  have c: "length ?cs \<le> COND_MAX_NUM" "distinct (map time_key ?cs)" "\<forall>c \<in> set ?cs. time_storable c"
    by (simp_all add: COND_MAX_NUM_def time_key_def time_storable_def time_example_def len_defs snprintf_def PRT_HASH_TYPE_COND_def)
  have i: "\<forall>c \<in> set ?cs. time_storable c \<and> index_free (pHashTable ?L) (time_key c) (acSceneId scene_example)"
    using empty_index_free t(2,3) c(3) by simp
  from scene_time_cond_init_restores [OF L g l _ c(1,2) i example_fresh, of "\<lambda>q. NoErr"] t l(1)
  show ?thesis by (auto simp: get_logic_def)
qed

text \<open>A restart restores the event conditions of which one must hold, too: loading the rows of up to 32 of them into an
  empty list stores exactly them, each reachable through the index and with the truth that its stored last value
  gives it, without any write. The scene stays consistent and nothing else changes.\<close>

theorem scene_event_cond_init_restores:
  assumes "scenes_ok L" "get_scene L a = Some s" "sets (pstEventCondList (stOrCond s)) = []" "ucInitFlag (pstEventCondList (stOrCond s)) = 0"
    "ph_inv (pHashTable L)" "length cs \<le> 32" "distinct (map event_key cs)"
    "\<forall>c \<in> set cs. event_storable c \<and> index_free (pHashTable L) (event_key c) (acSceneId s) \<and> e_acKey c \<noteq> ''Manual'' \<and> event_cond_start rnd c = Some (b c)"
    "mem_fresh al {0..<length cs} (pstEventCondList (stOrCond s)) (pHashTable L)"
  shows "\<exists>L' s'. scene_event_cond_init rnd (True, True, True) al db (NoErr, map event_row cs) Or_Logic a L = Some (NoErr, L', []) \<and> scenes_ok L' \<and>
    get_scene L' a = Some s' \<and> same_static s s' \<and> mset (conds_of (pstEventCondList (stOrCond s'))) = mset cs \<and>
    (\<forall>c \<in> set cs. \<exists>p. nodes (pHashTable L') (event_key c) = p # nodes (pHashTable L) (event_key c) \<and> pstScene p = a \<and>
      cond_at pstEventCondList p s' = Some c \<and> cond_truth pstEventCondList p s' = Some (b c)) \<and>
    (\<forall>x. x \<noteq> a \<longrightarrow> get_scene L' x = get_scene L x) \<and> pstExecQueue L' = pstExecQueue L"
proof -
  let ?l = "pstEventCondList (get_logic Or_Logic s)" and ?s1 = "upd_logic Or_Logic (pstEventCondList_update (\<lambda>l. l\<lparr>ucInitFlag := 1\<rparr>)) s"
  have G: "get_logic Or_Logic x = stOrCond x" for x :: scene_info by (simp add: get_logic_def)
  have "cl_wf ?l" using event_kind.logic_list(3) [OF get_scene_ok [OF assms(1,2)] refl, of Or_Logic] by (simp add: list_ok_def)
  then have c: "iCount ?l + int (length cs) \<le> int 32" "conds_of ?l = []" using assms(3,6) by (simp_all add: cl_wf_def conds_of_def G)
  have i: "\<forall>c \<in> set cs. index_free (pHashTable L) (event_key c) (acSceneId s) \<and> e_acKey c \<noteq> ''Manual'' \<and> event_cond_start rnd c = Some (b c)"
    using assms(8) by simp
  have le: "length cs \<le> COND_MAX_NUM" using assms(6) by (simp add: COND_MAX_NUM_def)
  from event_loader.load_flagged [OF assms(1,2,5) assms(4) [folded G] assms(7) i assms(9) [folded G] c(1), of db COND_MAX_NUM "zero_event [] []"]
  obtain L1 L2 L3 s' where R: "list_flag pstEventCondList_update Or_Logic 1 a L = Some L1" "get_scene L1 a = Some ?s1"
    "sync_add (\<lambda>i L. Some False) (\<lambda>i c L. scene_event_or_cond_add rnd (al i) db a c L)
       (zero_fill COND_MAX_NUM (zero_event [] []) cs) [0..<length cs] L1 = Some (L2, [])" "list_flag pstEventCondList_update Or_Logic 0 a L2 = Some L3"
    "scenes_ok L3" "get_scene L3 a = Some s'" "one_scene a s' L L3"
    "loaded pstEventCondList pstTimeCondList Or_Logic event_key (map (\<lambda>c. (c, b c)) cs) a s s' (pHashTable L) (pHashTable L3)" by blast
  have z: "list_size (pstEventCondList (get_logic Or_Logic ?s1)) = 0" using assms(3) by (simp add: upd_logic_def list_size_def G)
  have "scene_event_cond_init rnd (True, True, True) al db (NoErr, map event_row cs) Or_Logic a L = Some (NoErr, L3, [])"
    using R(1-4) rows_storable(2) [OF _ le] assms(8) z by (simp add: scene_event_cond_init_def scene_event_cond_sync_def array_sync_def event_ops_def Let_def)
  moreover have "get_scene L3 x = get_scene L x" if "x \<noteq> a" for x using one_scene_get [OF _ R(7)] assms(2) that by simp
  moreover have "same_static s s'" "mset (conds_of (pstEventCondList (stOrCond s'))) = mset cs"
    "\<forall>c \<in> set cs. \<exists>p. nodes (pHashTable L3) (event_key c) = p # nodes (pHashTable L) (event_key c) \<and> pstScene p = a \<and>
      cond_at pstEventCondList p s' = Some c \<and> cond_truth pstEventCondList p s' = Some (b c)"
    using R(8) c(2) by (auto simp: loaded_def comp_def G)
  ultimately show ?thesis using R(5,6) one_scene_parts(2) [OF R(7)] by blast
qed

theorem scene_event_cond_init_restores_witness:
  "\<exists>t L' s' p. new_ptr_hash_table True (\<lambda>i. True) = Some t \<and>
     scene_event_cond_init id (True, True, True) (\<lambda>i. (True, 20 + i, 40 + i, \<lambda>k. True, 60 + i)) (\<lambda>q. NoErr)
       (NoErr, [event_row (event_example\<lparr>acLastValue := ''1''\<rparr>)]) Or_Logic 1 ((scenes_example scene_example)\<lparr>pHashTable := t\<rparr>) = Some (NoErr, L', []) \<and>
     get_scene L' 1 = Some s' \<and> conds_of (pstEventCondList (stOrCond s')) = [event_example\<lparr>acLastValue := ''1''\<rparr>] \<and>
     cond_truth pstEventCondList p s' = Some True"
proof -
  let ?c = "event_example\<lparr>acLastValue := ''1''\<rparr>"
  obtain t where t: "new_ptr_hash_table True (\<lambda>i. True) = Some t" "ph_inv t" "nodes t = (\<lambda>k. [])" "chain_of t = Map.empty" by (rule example_table)
  let ?L = "(scenes_example scene_example)\<lparr>pHashTable := t\<rparr>"
  have L: "scenes_ok ?L" using scenes_example_ok [OF scene_example_ok] by (simp add: scenes_ok_def)
  have g: "get_scene ?L 1 = Some scene_example" by (simp add: get_scene_def scenes_example_def)
  have l: "sets (pstEventCondList (stOrCond scene_example)) = []" "ucInitFlag (pstEventCondList (stOrCond scene_example)) = 0"
    by (simp_all add: scene_example_def empty_list_def)
  have c: "event_storable ?c" "e_acKey ?c \<noteq> ''Manual''" by (simp_all add: event_storable_def event_example_def len_defs)
  have b: "event_cond_start id ?c = Some True"
    by (simp add: event_cond_start_def scene_event_cond_is_true_def active_is_def strncmp_eq_0_lit len_defs event_example_def is_digit_def)
  have i: "\<forall>c \<in> set [?c]. event_storable c \<and> index_free (pHashTable ?L) (event_key c) (acSceneId scene_example) \<and> e_acKey c \<noteq> ''Manual'' \<and>
      event_cond_start id c = Some ((\<lambda>x. True) c)"
    using empty_index_free t(2,3) c b by simp
  from scene_event_cond_init_restores [OF L g l _ _ _ i example_fresh, of "\<lambda>q. NoErr"] t l(1)
  show ?thesis by auto
qed

section \<open>A restart restores the scenes\<close>

definition scene_texts :: "scene_info \<Rightarrow> string list" where
  "scene_texts s = [acSceneId s, acSceneName s, acSceneEnable s, acExecDelayed s, acUpdateTime s, acNote s]"

text \<open>The columns of a row fit the buffers, and the identifier is not empty.\<close>

definition scene_row :: "string list \<Rightarrow> bool" where
  "scene_row r \<longleftrightarrow> length r = 6 \<and> r ! 0 \<noteq> [] \<and>
     list_all2 (\<lambda>v n. length v \<le> n) r [INDEX_MAX_LEN, NAME_MAX_LEN, STATE_MAX_LEN, DELAYED_MAX_LEN, TIME_MAX_LEN, NOTE_MAX_LEN]"

lemma row_scene_texts: "scene_row r \<Longrightarrow> scene_texts (row_scene r) = r"
  by (auto simp: scene_row_def scene_texts_def row_scene_def list_all2_Cons2 length_Suc_conv numeral_eq_Suc)

lemma new_scene_texts:
  "s = copy_info info s \<Longrightarrow> acSceneId s = strncpy (acSceneId info) INDEX_MAX_LEN \<Longrightarrow> scene_row (scene_texts info) \<Longrightarrow> scene_texts s = scene_texts info"
  by (drule arg_cong [of _ _ scene_texts]) (simp add: scene_texts_def scene_row_def copy_info_def)

lemma scene_list_add_flag: "scene_list_add mem db info L = Some (p, L1, calls) \<Longrightarrow> sl_ucInitFlag L1 = sl_ucInitFlag L"
  by (auto simp: scene_list_add_def Let_def case_prod_unfold split: if_splits option.splits Option.bind_splits)

lemma add_scenes:
  assumes "scenes_ok L" "sl_ucInitFlag L = 1" "distinct is" "\<forall>i \<in> set is. scene_mem_ok (snd (al i)) L \<and> scene_row (scene_texts (arr ! i))"
    "inj_on (\<lambda>i. m_node (snd (al i))) (set is)"
  shows "\<exists>L' new. sync_add (\<lambda>i L. Some False) (so_add (scene_ops al db)) arr is L = Some (L', []) \<and> scenes L' = new @ scenes L \<and> scenes_ok L' \<and>
    map (scene_texts \<circ> snd) new = rev (map (\<lambda>i. scene_texts (arr ! i)) is) \<and> (\<forall>x \<in> set new. scene_keys (snd x) = []) \<and> pHashTable L' = pHashTable L"
  using assms
proof (induction "is" arbitrary: L)
  case (Cons i js)
  obtain L1 s where A: "scene_list_add (snd (al i)) db (arr ! i) L = Some (if fst (scene_list_add_db db L s) = NoErr then m_node (snd (al i)) else NULL, L1, snd (scene_list_add_db db L s))"
    "scenes L1 = (m_node (snd (al i)), s) # scenes L" "scenes_ok L1" "scene_keys s = []" "s = copy_info (arr ! i) s"
    "acSceneId s = strncpy (acSceneId (arr ! i)) INDEX_MAX_LEN" "pHashTable L1 = pHashTable L" "sl_ucInitFlag L1 = sl_ucInitFlag L"
    using new_scene_added [OF Cons.prems(1), of "snd (al i)" db "arr ! i"] Cons.prems(4) scene_list_add_flag by fastforce
  have w: "snd (scene_list_add_db db L s) = []" using Cons.prems(2) by (simp add: scene_list_add_db_def db_write_def)
  have m: "\<forall>k \<in> set js. scene_mem_ok (snd (al k)) L1 \<and> scene_row (scene_texts (arr ! k))"
    using Cons.prems(3-5) A(2) by (auto simp: scene_mem_ok_def inj_on_def)
  obtain L' new where B: "sync_add (\<lambda>i L. Some False) (so_add (scene_ops al db)) arr js L1 = Some (L', [])" "scenes L' = new @ scenes L1" "scenes_ok L'"
    "map (scene_texts \<circ> snd) new = rev (map (\<lambda>i. scene_texts (arr ! i)) js)" "\<forall>x \<in> set new. scene_keys (snd x) = []" "pHashTable L' = pHashTable L1"
    using Cons.IH [OF A(3) _ _ m inj_on_subset [OF Cons.prems(5)]] Cons.prems(2,3) A(8) by fastforce
  have t: "scene_texts s = scene_texts (arr ! i)" using new_scene_texts [OF A(5,6)] Cons.prems(4) by simp
  have "sync_add (\<lambda>i L. Some False) (so_add (scene_ops al db)) arr (i # js) L = Some (L', [])" using A(1) B(1) w by (simp add: scene_ops_def)
  with A(2,4,7) B t show ?case by (intro exI [of _ L'] exI [of _ "new @ [(m_node (snd (al i)), s)]"]) (auto simp: comp_def)
qed simp

text \<open>C36. A restart restores the scenes, up to the 256 that are read, with all their texts and in the order they had: from the rows in the
  order in which they were written to the list with the newest scene first. Nothing is written, and the scenes satisfy
  their invariant and start without conditions and panels.\<close>

theorem scene_list_sync_restores:
  assumes "scenes L = []" "sl_ucInitFlag L = 1" "length rs \<le> SCENE_MAX_NUM" "\<forall>r \<in> set rs. scene_row r"
    "\<forall>i < length rs. scene_mem_ok (snd (al i)) L" "inj_on (\<lambda>i. m_node (snd (al i))) {0..<length rs}"
  shows "\<exists>arr L'. scene_list_get_list_db True (NoErr, rs) SCENE_MAX_NUM = Some (NoErr, arr) \<and>
    scene_list_sync m al db (zero_fill SCENE_MAX_NUM zero_scene arr) (length arr) L = Some (NoErr, L', []) \<and> scenes_ok L' \<and>
    map (scene_texts \<circ> snd) (scenes L') = rev rs \<and> (\<forall>x \<in> set (scenes L'). scene_keys (snd x) = []) \<and> pHashTable L' = pHashTable L"
proof -
  let ?arr = "map row_scene rs" and ?z = "zero_fill SCENE_MAX_NUM zero_scene (map row_scene rs)"
  have rd: "scene_list_get_list_db True (NoErr, rs) SCENE_MAX_NUM = Some (NoErr, ?arr)"
    using assms(3,4) by (simp add: scene_list_get_list_db_def get_list_db_all scene_row_def)
  have z: "?z ! i = row_scene (rs ! i)" if "i < length rs" for i using that by (simp add: zero_fill_def nth_append)
  have ts: "scene_texts (?z ! i) = rs ! i" "scene_row (rs ! i)" if "i < length rs" for i
    using that z row_scene_texts assms(4) by simp_all
  have ok: "scenes_ok L" using assms(1) by (simp add: scenes_ok_def)
  have m: "\<forall>i \<in> set [0..<length rs]. scene_mem_ok (snd (al i)) L \<and> scene_row (scene_texts (?z ! i))" using assms(5) ts by simp
  have "map (\<lambda>i. scene_texts (?z ! i)) [0..<length rs] = rs" using ts by (auto intro!: nth_equalityI)
  with add_scenes [OF ok assms(2) _ m, of db] assms(1,6) obtain L' where
    "sync_add (\<lambda>i L. Some False) (so_add (scene_ops al db)) ?z [0..<length rs] L = Some (L', [])" "scenes_ok L'"
    "map (scene_texts \<circ> snd) (scenes L') = rev rs" "\<forall>x \<in> set (scenes L'). scene_keys (snd x) = []" "pHashTable L' = pHashTable L" by auto
  with rd assms(1) show ?thesis by (auto simp: scene_list_sync_def array_sync_def)
qed

theorem scene_list_sync_restores_witness:
  "\<exists>arr L'. scene_list_get_list_db True (NoErr, [[''s1'', ''day'', ''1'', ''0'', [], []], [''s2'', ''night'', ''0'', ''5'', ''t'', ''n'']]) SCENE_MAX_NUM = Some (NoErr, arr) \<and>
     scene_list_sync True (\<lambda>i. (True, scene_mem_example\<lparr>m_node := 100 + i\<rparr>)) (\<lambda>q. NoErr) (zero_fill SCENE_MAX_NUM zero_scene arr) (length arr)
       ((scenes_example scene_example)\<lparr>scenes := [], sl_ucInitFlag := 1\<rparr>) = Some (NoErr, L', []) \<and>
     map (acSceneId \<circ> snd) (scenes L') = [''s2'', ''s1'']"
proof -
  let ?rs = "[[''s1'', ''day'', ''1'', ''0'', [], []], [''s2'', ''night'', ''0'', ''5'', ''t'', ''n'']]"
  let ?L = "(scenes_example scene_example)\<lparr>scenes := [], sl_ucInitFlag := 1\<rparr>" and ?al = "\<lambda>i. (True, scene_mem_example\<lparr>m_node := 100 + i\<rparr>)"
  have r: "\<forall>r \<in> set ?rs. scene_row r" "length ?rs \<le> SCENE_MAX_NUM"
    by (simp_all add: scene_row_def len_defs NAME_MAX_LEN_def DELAYED_MAX_LEN_def TIME_MAX_LEN_def NOTE_MAX_LEN_def SCENE_MAX_NUM_def)
  have m: "\<forall>i < length ?rs. scene_mem_ok (snd (?al i)) ?L" by (simp add: scene_mem_ok_def scene_mem_example_def)
  from scene_list_sync_restores [OF _ _ r(2,1) m, of True "\<lambda>q. NoErr"] obtain arr L' where
    R: "scene_list_get_list_db True (NoErr, ?rs) SCENE_MAX_NUM = Some (NoErr, arr)"
      "scene_list_sync True ?al (\<lambda>q. NoErr) (zero_fill SCENE_MAX_NUM zero_scene arr) (length arr) ?L = Some (NoErr, L', [])"
      "map (scene_texts \<circ> snd) (scenes L') = rev ?rs" by (auto simp: inj_on_def)
  have "map (acSceneId \<circ> snd) (scenes L') = map (\<lambda>r. r ! 0) (map (scene_texts \<circ> snd) (scenes L'))" by (simp add: scene_texts_def)
  with R show ?thesis by auto
qed

end
