(* ===== verification/Scene_Protocol.thy ===== *)
theory Scene_Protocol
  imports Json_Value Scene_Load
begin

text \<open>
  The scene protocol: \<open>hylink/src/local_scene/scene.c\<close>. A request is a JSON object with an array \<open>Data\<close> of operations; each
  names a scene and an operation on it, its conditions, actions or panels. The handlers \<open>hyScene_Add\<close> to
  \<open>hyScene_Get_Action\<close> read the fields and call the scene list (theories \<open>Scene_Index\<close>, \<open>Scene_Manage\<close>);
  \<open>hyScene_Dispatch\<close> runs the operations of a request in three passes and collects the answers; \<open>scene_query\<close> and
  \<open>scene_event\<close> are the entry points for requests and for device reports.

  The global \<open>g_pstSceneList\<close> is the state. The lock calls are not modelled: a request is one step. What a handler
  takes from outside (clock, data base, results of allocations) is a record, one per operation of a request.
  \<open>strncpy\<close> fills its length with zeros: where the code gives it more than the size of a field, the zeros fall on
  the next fields of the same struct, which are still empty at that time, so that they have no effect; a text
  that does not fit its own field, and a write beyond the end of the struct, have no defined result.
\<close>

section \<open>Codes and sizes\<close>

definition GeneralErr :: status where "GeneralErr = -1"
definition JsonFormatErr :: status where "JsonFormatErr = -283"
definition JsonValueErr :: status where "JsonValueErr = -286"
definition OPERATION_MAX_LEN :: nat where "OPERATION_MAX_LEN = 16"
definition COMMAND_MAX_LEN :: nat where "COMMAND_MAX_LEN = 16"

lemmas json_status_defs = GeneralErr_def JsonFormatErr_def JsonValueErr_def

section \<open>What a request takes from outside\<close>

text \<open>Results of allocations: search nodes, the parts of a new scene, panel, condition or action, the arrays and JSON
  objects of an answer, queue entries and synchronisation nodes.\<close>

record op_mem =
  om_find :: bool
  om_set :: bool
  om_scene :: scene_mem
  om_panel :: "bool \<times> ptr \<times> (nat \<Rightarrow> bool) \<times> ptr"
  om_cond :: cond_mem
  om_action :: "bool \<times> bool \<times> bool"
  om_node :: bool
  om_array :: bool
  om_list :: bool
  om_obj :: "nat \<Rightarrow> bool"
  om_queue :: "nat \<Rightarrow> bool"
  om_sync :: "bool \<times> bool"
  om_unreg :: "bool \<times> bool \<times> bool"

record request_env =
  en_fmt :: formats
  en_rnd :: "rat \<Rightarrow> rat"
  en_db :: "db_stmt \<Rightarrow> status"
  en_now :: int
  en_mem :: op_mem

section \<open>Reading fields\<close>

text \<open>A field read into a buffer with the contents \<open>old\<close>; a field that must be there; a field with a default.\<close>

definition jget :: "request_env \<Rightarrow> string \<Rightarrow> nat \<Rightarrow> string \<Rightarrow> json \<Rightarrow> status \<times> string" where
  "jget E k n old j = JSON_value_get (en_fmt E) k n old j"

definition need :: "request_env \<Rightarrow> string \<Rightarrow> nat \<Rightarrow> string \<Rightarrow> json \<Rightarrow> string option" where
  "need E k n old j = (let (r, v) = jget E k n old j in if r \<noteq> NoErr then None else Some v)"

definition field_or :: "request_env \<Rightarrow> string \<Rightarrow> nat \<Rightarrow> string \<Rightarrow> string \<Rightarrow> json \<Rightarrow> string" where
  "field_or E k n old d j = (let (r, v) = jget E k n old j in if r \<noteq> NoErr then d else v)"

text \<open>A field read with a length beyond the array of \<open>sz\<close> bytes that holds it; \<open>room\<close> is the distance to the end of the
  struct.\<close>

definition wide_get :: "request_env \<Rightarrow> string \<Rightarrow> nat \<Rightarrow> nat \<Rightarrow> nat \<Rightarrow> string \<Rightarrow> json \<Rightarrow> string option" where
  "wide_get E k n sz room d j = (let (r, v) = jget E k n [] j in
     if r \<noteq> NoErr then Some d
     else case cJSON_GetObjectItem j k of
       Some (JString s) \<Rightarrow> if room < n \<or> sz < length s then None else Some v
     | _ \<Rightarrow> if sz \<le> length v then None else Some v)"

definition text_obj :: "(string \<times> string) list \<Rightarrow> json" where
  "text_obj kvs = foldl (\<lambda>j (k, v). cJSON_AddStringToObject k v j) (JObject []) kvs"

text \<open>Objects for an answer are created one by one; the first failure ends the answer.\<close>

fun emit :: "(nat \<Rightarrow> bool) \<Rightarrow> nat \<Rightarrow> json list \<Rightarrow> json list \<Rightarrow> status \<times> json list" where
  "emit al i [] acc = (NoErr, acc)"
| "emit al i (x # xs) acc = (if al i then emit al (Suc i) xs (acc @ [x]) else (GeneralErr, acc))"

definition answer :: "(nat \<Rightarrow> bool) \<Rightarrow> json \<Rightarrow> ('a \<Rightarrow> json) \<Rightarrow> 'a list \<Rightarrow> status \<times> json list" where
  "answer al none f xs = emit al 0 (if xs = [] then [none] else map f xs) []"

section \<open>Scenes\<close>

definition request_scene :: "string \<Rightarrow> string \<Rightarrow> string \<Rightarrow> string \<Rightarrow> string \<Rightarrow> string \<Rightarrow> scene_info" where
  "request_scene ident name enable dly uptime note = \<lparr>acSceneId = ident, acSceneName = name, cManualTriggerFlag = 0, acSceneEnable = enable,
     acExecDelayed = dly, acUpdateTime = uptime, acNote = note, ucSceneCondTrue = False, pstPanel = [], panelFreed = False,
     stOrCond = \<lparr>ucCondListTrue = 0, pstTimeCondList = zero_list, pstEventCondList = zero_list\<rparr>,
     stAndCond = \<lparr>ucCondListTrue = 0, pstTimeCondList = zero_list, pstEventCondList = zero_list\<rparr>, pstAction = NULL\<rparr>"

definition hyScene_Add :: "request_env \<Rightarrow> json \<Rightarrow> scene_list \<Rightarrow> op_result" where
  "hyScene_Add E j L = (case need E ''Id'' INDEX_MAX_LEN [] j of
     None \<Rightarrow> Some (JsonFormatErr, L, [])
   | Some ident \<Rightarrow> (case scene_find (om_find (en_mem E)) ident L of
       Some (a, s) \<Rightarrow>
         (let stScene = request_scene ident
                (field_or E ''Name'' NAME_MAX_LEN [] (strncpy (acSceneName s) NAME_MAX_LEN) j)
                (field_or E ''Enable'' STATE_MAX_LEN [] (strncpy (acSceneEnable s) STATE_MAX_LEN) j)
                (field_or E ''ExecDelayed'' DELAYED_MAX_LEN [] (strncpy (acExecDelayed s) DELAYED_MAX_LEN) j)
                (field_or E ''UpdateTime'' TIME_MAX_LEN [] (strncpy (acUpdateTime s) TIME_MAX_LEN) j)
                (field_or E ''Note'' NOTE_MAX_LEN [] (strncpy (acNote s) NOTE_MAX_LEN) j);
              (iRet, L1, calls) = scene_list_set (om_set (en_mem E)) (en_db E) stScene L in
          Some (if iRet \<noteq> NoErr then SceneSetErr else iRet, L1, calls))
     | None \<Rightarrow> do {
         let stScene = request_scene ident
           (field_or E ''Name'' NAME_MAX_LEN [] ''0'' j) (field_or E ''Enable'' STATE_MAX_LEN [] ''1'' j)
           (field_or E ''ExecDelayed'' DELAYED_MAX_LEN [] ''0'' j) (field_or E ''UpdateTime'' TIME_MAX_LEN [] ''0'' j)
           (field_or E ''Note'' NOTE_MAX_LEN [] ''0'' j);
         (p, L1, calls) \<leftarrow> scene_list_add (om_scene (en_mem E)) (en_db E) stScene L;
         Some (if p = NULL then GeneralErr else 0, L1, calls)
       }))"

definition hyScene_Del :: "request_env \<Rightarrow> json \<Rightarrow> scene_list \<Rightarrow> op_result" where
  "hyScene_Del E j L = (case need E ''Id'' INDEX_MAX_LEN [] j of
     None \<Rightarrow> Some (JsonFormatErr, L, [])
   | Some ident \<Rightarrow> if strncmp ident ''All'' INDEX_MAX_LEN = 0 then scene_list_clear (en_db E) 1 L
                   else scene_list_del (om_find (en_mem E)) (en_db E) ident L)"

definition scene_json :: "scene_info \<Rightarrow> json" where
  "scene_json s = text_obj [(''Op'', ''GetScene''), (''Id'', acSceneId s), (''Name'', acSceneName s), (''Enable'', acSceneEnable s),
     (''ExecDelayed'', acExecDelayed s), (''UpdateTime'', acUpdateTime s), (''Note'', acNote s)]"

definition hyScene_Get :: "request_env \<Rightarrow> scene_list \<Rightarrow> status \<times> json list" where
  "hyScene_Get E L = (if \<not> om_array (en_mem E) then (HeapReqErr, [])
     else answer (om_obj (en_mem E)) (text_obj [(''Op'', ''GetScene''), (''Id'', ''none'')]) scene_json (snd (scene_list_get_list SCENE_MAX_NUM L)))"

text \<open>Execution on request. The enable state can be changed by the request; the copies of the other fields are made with
  the wrong lengths.\<close>

definition hyScene_Exec :: "request_env \<Rightarrow> json \<Rightarrow> scene_list \<Rightarrow> op_result" where
  "hyScene_Exec E j L = (case need E ''Id'' INDEX_MAX_LEN [] j of
     None \<Rightarrow> Some (JsonFormatErr, L, [])
   | Some ident \<Rightarrow> (case scene_find (om_find (en_mem E)) ident L of
       None \<Rightarrow> Some (NotFoundErr, L, [])
     | Some (a, s) \<Rightarrow> do {
         let enable = need E ''Enable'' STATE_MAX_LEN [] j;
         let (iRet, L1, calls) = (case enable of
             None \<Rightarrow> (NoErr, L, [])
           | Some v \<Rightarrow> if strncmp (acSceneEnable s) v STATE_MAX_LEN \<noteq> 0
               then scene_list_set (om_set (en_mem E)) (en_db E) (request_scene ident (strncpy (acSceneName s) INDEX_MAX_LEN) v
                      (strncpy (acExecDelayed s) STATE_MAX_LEN) (strncpy (acUpdateTime s) TIME_MAX_LEN) (strncpy (acNote s) NOTE_MAX_LEN)) L
               else (NoErr, L, []));
         if iRet \<noteq> NoErr then Some (GeneralErr, L1, calls)
         else if strncmp (case enable of None \<Rightarrow> strncpy (acSceneEnable s) STATE_MAX_LEN | Some v \<Rightarrow> v) ''1'' STATE_MAX_LEN = 0 then do {
           s1 \<leftarrow> get_scene L1 a;
           let (r, L2) = scene_list_active (om_queue (en_mem E)) (en_now E) s1 L1;
           Some (r, L2, calls)
         } else Some (NoErr, L1, calls)
       }))"

section \<open>Panels\<close>

definition hyScene_Bind :: "request_env \<Rightarrow> json \<Rightarrow> scene_list \<Rightarrow> op_result" where
  "hyScene_Bind E j L = (case need E ''Id'' INDEX_MAX_LEN [] j of
     None \<Rightarrow> Some (JsonFormatErr, L, [])
   | Some ident \<Rightarrow> (case scene_find (om_find (en_mem E)) ident L of
       None \<Rightarrow> Some (NotFoundErr, L, [])
     | Some (a, s) \<Rightarrow>
         (case (need E ''DevId'' DEV_ID_MAX_LEN [] j, need E ''Key'' KEY_MAX_LEN [] j, need E ''Value'' VALUE_MAX_LEN [] j) of
            (Some d, Some k, Some v) \<Rightarrow> (case om_panel (en_mem E) of (m, pNew, al, head) \<Rightarrow>
              scene_bind m pNew al head (en_db E) a \<lparr>sp_acDevId = d, sp_acKey = k, sp_acValue = v, sp_acEnable = ''1''\<rparr> L)
          | _ \<Rightarrow> Some (JsonFormatErr, L, []))))"

definition hyScene_Unbind :: "request_env \<Rightarrow> json \<Rightarrow> scene_list \<Rightarrow> op_result" where
  "hyScene_Unbind E j L = (case need E ''Id'' INDEX_MAX_LEN [] j of
     None \<Rightarrow> Some (JsonFormatErr, L, [])
   | Some ident \<Rightarrow> (case scene_find (om_find (en_mem E)) ident L of
       None \<Rightarrow> Some (NotFoundErr, L, [])
     | Some (a, s) \<Rightarrow> (case need E ''DevId'' DEV_ID_MAX_LEN [] j of
         None \<Rightarrow> Some (JsonFormatErr, L, [])
       | Some d \<Rightarrow> if strncmp d ''All'' DEV_ID_MAX_LEN = 0 then scene_bind_clear (en_db E) 1 a L
           else (case need E ''Key'' KEY_MAX_LEN [] j of
             None \<Rightarrow> Some (JsonFormatErr, L, [])
           | Some k \<Rightarrow> scene_unbind (en_db E) a
               \<lparr>sp_acDevId = d, sp_acKey = k, sp_acValue = snd (jget E ''Value'' VALUE_MAX_LEN [] j), sp_acEnable = []\<rparr> L))))"

definition panel_json :: "scene_info \<Rightarrow> scene_panel \<Rightarrow> json" where
  "panel_json s pn = text_obj [(''Op'', ''GetBindScene''), (''Id'', acSceneId s), (''DevId'', sp_acDevId pn), (''Key'', sp_acKey pn), (''Value'', sp_acValue pn)]"

definition hyScene_Get_Bind :: "request_env \<Rightarrow> json \<Rightarrow> scene_list \<Rightarrow> (status \<times> json list) option" where
  "hyScene_Get_Bind E j L = (if \<not> om_array (en_mem E) then Some (HeapReqErr, [])
     else case need E ''Id'' INDEX_MAX_LEN [] j of
       None \<Rightarrow> Some (JsonFormatErr, [])
     | Some ident \<Rightarrow> (case scene_find (om_find (en_mem E)) ident L of
         None \<Rightarrow> Some (NotFoundErr, [])
       | Some (a, s) \<Rightarrow> do {
           (iRet, pns) \<leftarrow> scene_bind_get_list a SCENE_BIND_MAX_NUM L;
           if iRet \<noteq> NoErr then Some (iRet, [])
           else Some (answer (om_obj (en_mem E)) (text_obj [(''Op'', ''GetBindScene''), (''Id'', acSceneId s), (''DevId'', ''none'')]) (panel_json s) pns)
         }))"

section \<open>Conditions\<close>

text \<open>The time condition of a request. Trigger type and interval are read with the length \<open>KEY_MAX_LEN\<close> of 128 bytes. From the
  start of \<open>acTriggerInterval\<close> the struct has only 124 bytes, so that an interval given as text is written
  beyond it.\<close>

definition time_cond_of :: "request_env \<Rightarrow> json \<Rightarrow> time_cond option option" where
  "time_cond_of E j = (case need E ''TimeKey'' KEY_MAX_LEN [] j of
     None \<Rightarrow> Some None
   | Some k \<Rightarrow> do {
       ty \<leftarrow> wide_get E ''TriggerType'' KEY_MAX_LEN TRIGGER_TYPE_MAX_LEN (TRIGGER_TYPE_MAX_LEN + 124) ''InstantOnce'' j;
       iv \<leftarrow> wide_get E ''TriggerInterval'' KEY_MAX_LEN TRIGGER_INTERVAL_MAX_LEN 124 ''1'' j;
       Some (do {
         sh \<leftarrow> need E ''StartHour'' HOUR_MAX_LEN [] j;
         sm \<leftarrow> need E ''StartMinu'' MINU_MAX_LEN [] j;
         eh \<leftarrow> need E ''EndHour'' HOUR_MAX_LEN [] j;
         em \<leftarrow> need E ''EndMinu'' MINU_MAX_LEN [] j;
         w \<leftarrow> need E ''Week'' WEEK_MAX_LEN [] j;
         r \<leftarrow> need E ''Repeat'' STATE_MAX_LEN [] j;
         Some \<lparr>acTimeKey = k, t_acTriggerType = ty, acTriggerInterval = iv, iTriggerInterval = 0, acStartHour = sh, acStartMinu = sm,
           acEndHour = eh, acEndMinu = em, acWeek = w, acRepeat = r, acLose = ''0''\<rparr>
       })
     })"

text \<open>The event condition of a request: what the scene already has for the device and key, with the fields of the request
  put over it. The first component is the status of the search.\<close>

definition event_cond_of :: "request_env \<Rightarrow> ptr \<Rightarrow> json \<Rightarrow> scene_list \<Rightarrow> (status \<times> event_cond) option option" where
  "event_cond_of E a j L = (case (need E ''DevId'' DEV_ID_MAX_LEN [] j, need E ''Key'' KEY_MAX_LEN [] j) of
     (Some d, Some k) \<Rightarrow> do {
       (iRet, c) \<leftarrow> scene_event_cond_get a (zero_event d k) L;
       Some (do {
         v \<leftarrow> need E ''Value'' VALUE_MAX_LEN (e_acValue c) j;
         act \<leftarrow> need E ''Active'' ACTIVE_MAX_LEN (acActive c) j;
         Some (iRet, c\<lparr>e_acValue := v, e_acTriggerType := field_or E ''TriggerType'' TRIGGER_TYPE_MAX_LEN (e_acTriggerType c) ''InstantOnce'' j,
           acContinueTime := field_or E ''ContinueTime'' CONTINUE_TIME_MAX_LEN (acContinueTime c) ''0'' j, acActive := act\<rparr>)
       })
     }
   | _ \<Rightarrow> Some None)"

definition logic_is :: "string \<Rightarrow> string \<Rightarrow> bool" where
  "logic_is l v \<longleftrightarrow> strncmp l v LOGIC_MAX_LEN = 0"

definition type_is :: "string \<Rightarrow> string \<Rightarrow> bool" where
  "type_is t v \<longleftrightarrow> strncmp t v TYPE_MAX_LEN = 0"

definition hyScene_Add_Cond :: "request_env \<Rightarrow> json \<Rightarrow> scene_list \<Rightarrow> op_result" where
  "hyScene_Add_Cond E j L = (case need E ''Id'' INDEX_MAX_LEN [] j of
     None \<Rightarrow> Some (JsonFormatErr, L, [])
   | Some ident \<Rightarrow> (case scene_find (om_find (en_mem E)) ident L of
       None \<Rightarrow> Some (NotFoundErr, L, [])
     | Some (a, s) \<Rightarrow> (case (need E ''Logic'' LOGIC_MAX_LEN [] j, need E ''CondType'' TYPE_MAX_LEN [] j) of
         (Some lg, Some ct) \<Rightarrow>
           if type_is ct ''Time'' then do {
             r \<leftarrow> time_cond_of E j;
             case r of None \<Rightarrow> Some (JsonFormatErr, L, [])
             | Some c \<Rightarrow>
                 if logic_is lg ''Or'' then scene_time_or_cond_add (om_cond (en_mem E)) (en_db E) a c L
                 else if logic_is lg ''And'' then scene_time_and_cond_add (om_cond (en_mem E)) (en_db E) a c L
                 else Some (0, L, [])
           } else if type_is ct ''Event'' then do {
             r \<leftarrow> event_cond_of E a j L;
             case r of None \<Rightarrow> Some (JsonFormatErr, L, [])
             | Some (iRet, c) \<Rightarrow>
                 if logic_is lg ''Or'' then scene_event_or_cond_add (en_rnd E) (om_cond (en_mem E)) (en_db E) a c L
                 else if logic_is lg ''And'' then scene_event_and_cond_add (en_rnd E) (om_cond (en_mem E)) (en_db E) a c L
                 else Some (iRet, L, [])
           } else Some (0, L, [])
       | _ \<Rightarrow> Some (JsonFormatErr, L, []))))"

text \<open>Deletion: of one condition, of all of a type, of all of a logic, or of all. For an event condition the key is not
  read, so that the key given to the scene list is empty.\<close>

definition time_clear :: "request_env \<Rightarrow> logic \<Rightarrow> ptr \<Rightarrow> scene_list \<Rightarrow> op_result" where
  "time_clear E lg a L = scene_time_cond_clear lg (en_db E) 1 a L"

definition event_clear :: "request_env \<Rightarrow> logic \<Rightarrow> ptr \<Rightarrow> scene_list \<Rightarrow> op_result" where
  "event_clear E lg a L = (case lg of Or_Logic \<Rightarrow> scene_event_or_cond_clear (en_db E) 1 a L | And_Logic \<Rightarrow> scene_event_and_cond_clear (en_db E) 1 a L)"

definition then_op :: "op_result \<Rightarrow> (scene_list \<Rightarrow> op_result) \<Rightarrow> op_result" where
  "then_op x f = do { (r1, L1, c1) \<leftarrow> x; (r2, L2, c2) \<leftarrow> f L1; Some (r1 + r2, L2, c1 @ c2) }"

definition logic_clear :: "request_env \<Rightarrow> logic \<Rightarrow> ptr \<Rightarrow> scene_list \<Rightarrow> op_result" where
  "logic_clear E lg a L = then_op (time_clear E lg a L) (event_clear E lg a)"

definition del_cond :: "request_env \<Rightarrow> logic \<Rightarrow> string \<Rightarrow> ptr \<Rightarrow> json \<Rightarrow> scene_list \<Rightarrow> op_result" where
  "del_cond E lg ct a j L =
     (if type_is ct ''Time'' then (case need E ''TimeKey'' KEY_MAX_LEN [] j of
        None \<Rightarrow> Some (JsonFormatErr, L, [])
      | Some k \<Rightarrow> if type_is k ''All'' then time_clear E lg a L
          else (case lg of Or_Logic \<Rightarrow> scene_time_or_cond_del | And_Logic \<Rightarrow> scene_time_and_cond_del) (en_db E) a
            \<lparr>acTimeKey = k, t_acTriggerType = [], acTriggerInterval = [], iTriggerInterval = 0, acStartHour = [], acStartMinu = [],
             acEndHour = [], acEndMinu = [], acWeek = [], acRepeat = [], acLose = []\<rparr> L)
      else if type_is ct ''Event'' then (case need E ''DevId'' DEV_ID_MAX_LEN [] j of
        None \<Rightarrow> Some (JsonFormatErr, L, [])
      | Some d \<Rightarrow> if strncmp d ''All'' DEV_ID_MAX_LEN = 0 then event_clear E lg a L
          else (case lg of Or_Logic \<Rightarrow> scene_event_or_cond_del | And_Logic \<Rightarrow> scene_event_and_cond_del) (en_db E) a (zero_event d []) L)
      else if type_is ct ''All'' then logic_clear E lg a L
      else Some (0, L, []))"

definition hyScene_Del_Cond :: "request_env \<Rightarrow> json \<Rightarrow> scene_list \<Rightarrow> op_result" where
  "hyScene_Del_Cond E j L = (case need E ''Id'' INDEX_MAX_LEN [] j of
     None \<Rightarrow> Some (JsonFormatErr, L, [])
   | Some ident \<Rightarrow> (case scene_find (om_find (en_mem E)) ident L of
       None \<Rightarrow> Some (NotFoundErr, L, [])
     | Some (a, s) \<Rightarrow> (case need E ''Logic'' LOGIC_MAX_LEN [] j of
         None \<Rightarrow> Some (JsonFormatErr, L, [])
       | Some lg \<Rightarrow>
           if logic_is lg ''All'' then then_op (logic_clear E Or_Logic a L) (logic_clear E And_Logic a)
           else (case need E ''CondType'' TYPE_MAX_LEN [] j of
             None \<Rightarrow> Some (JsonFormatErr, L, [])
           | Some ct \<Rightarrow> if logic_is lg ''Or'' then del_cond E Or_Logic ct a j L
               else if logic_is lg ''And'' then del_cond E And_Logic ct a j L else Some (0, L, [])))))"

text \<open>The conditions of a logic and type. The name of the operation in the answer is that of reading scenes. For a logic
  that is neither of the two the arrays stay empty and the count what it was, the size of the array. The
  manual trigger is put behind the event conditions, where the array may have no room.\<close>

definition cond_head :: "string \<Rightarrow> string \<Rightarrow> string \<Rightarrow> (string \<times> string) list" where
  "cond_head ident lg ct = [(''Op'', ''GetScene''), (''Id'', ident), (''Logic'', lg), (''CondType'', ct)]"

definition time_cond_json :: "string \<Rightarrow> string \<Rightarrow> string \<Rightarrow> time_cond \<Rightarrow> json" where
  "time_cond_json ident lg ct c = text_obj (cond_head ident lg ct @ [(''TimeKey'', acTimeKey c), (''TriggerType'', t_acTriggerType c),
     (''TriggerInterval'', acTriggerInterval c), (''StartHour'', acStartHour c), (''StartMinu'', acStartMinu c), (''EndHour'', acEndHour c),
     (''EndMinu'', acEndMinu c), (''Week'', acWeek c), (''Repeat'', acRepeat c)])"

definition event_cond_json :: "string \<Rightarrow> string \<Rightarrow> string \<Rightarrow> event_cond \<Rightarrow> json" where
  "event_cond_json ident lg ct c = text_obj (cond_head ident lg ct @ [(''TriggerType'', e_acTriggerType c), (''ContinueTime'', acContinueTime c),
     (''DevId'', e_acDevId c), (''Key'', e_acKey c), (''Value'', e_acValue c), (''Active'', acActive c)])"

definition manual_shown :: event_cond where
  "manual_shown = \<lparr>e_acDevId = ''0000000000000000'', e_acKey = ''Manual'', e_acTriggerType = ''InstantOnce'', acContinueTime = ''0'',
     e_acValue = ''0'', acActive = ''Equ'', acLastValue = []\<rparr>"

definition time_conds_of :: "string \<Rightarrow> ptr \<Rightarrow> scene_list \<Rightarrow> time_cond list option" where
  "time_conds_of lg a L = (if logic_is lg ''Or'' then map_option snd (scene_time_cond_get_list Or_Logic a COND_MAX_NUM L)
     else if logic_is lg ''And'' then map_option snd (scene_time_cond_get_list And_Logic a COND_MAX_NUM L)
     else Some (replicate COND_MAX_NUM zero_time))"

definition event_conds_of :: "string \<Rightarrow> ptr \<Rightarrow> scene_list \<Rightarrow> event_cond list option" where
  "event_conds_of lg a L = (if logic_is lg ''Or'' then map_option snd (scene_event_cond_get_list Or_Logic a COND_MAX_NUM L)
     else if logic_is lg ''And'' then map_option snd (scene_event_cond_get_list And_Logic a COND_MAX_NUM L)
     else Some (replicate COND_MAX_NUM (zero_event [] [])))"

definition hyScene_Get_Cond :: "request_env \<Rightarrow> json \<Rightarrow> scene_list \<Rightarrow> (status \<times> json list) option" where
  "hyScene_Get_Cond E j L = (case need E ''Id'' INDEX_MAX_LEN [] j of
     None \<Rightarrow> Some (JsonFormatErr, [])
   | Some ident \<Rightarrow> (case scene_find (om_find (en_mem E)) ident L of
       None \<Rightarrow> Some (NotFoundErr, [])
     | Some (a, s) \<Rightarrow> (case (need E ''Logic'' LOGIC_MAX_LEN [] j, need E ''CondType'' TYPE_MAX_LEN [] j) of
         (Some lg, Some ct) \<Rightarrow>
           if type_is ct ''Time'' then
             (if \<not> om_array (en_mem E) then Some (HeapReqErr, []) else do {
                cs \<leftarrow> time_conds_of lg a L;
                Some (answer (om_obj (en_mem E)) (text_obj (cond_head ident lg ct @ [(''TimeKey'', ''none'')])) (time_cond_json ident lg ct) cs)
              })
           else if type_is ct ''Event'' then
             (if \<not> om_array (en_mem E) then Some (HeapReqErr, []) else do {
                cs \<leftarrow> event_conds_of lg a L;
                cs1 \<leftarrow> (if cManualTriggerFlag s = 1 then if COND_MAX_NUM \<le> length cs then None else Some (cs @ [manual_shown]) else Some cs);
                Some (answer (om_obj (en_mem E)) (text_obj (cond_head ident lg ct @ [(''DevId'', ''none'')])) (event_cond_json ident lg ct) cs1)
              })
           else Some (JsonValueErr, [])
       | _ \<Rightarrow> Some (JsonFormatErr, []))))"

section \<open>Actions\<close>

definition hyScene_Add_Action :: "request_env \<Rightarrow> json \<Rightarrow> scene_list \<Rightarrow> op_result" where
  "hyScene_Add_Action E j L = (case need E ''Id'' INDEX_MAX_LEN [] j of
     None \<Rightarrow> Some (JsonFormatErr, L, [])
   | Some ident \<Rightarrow> (case scene_find (om_find (en_mem E)) ident L of
       None \<Rightarrow> Some (NotFoundErr, L, [])
     | Some (a, s) \<Rightarrow>
         (case (need E ''DevId'' DEV_ID_MAX_LEN [] j, need E ''Key'' KEY_MAX_LEN [] j, need E ''Value'' VALUE_MAX_LEN [] j) of
            (Some d, Some k, Some v) \<Rightarrow> scene_action_add (om_action (en_mem E)) (en_db E) a
              \<lparr>acActionId = field_or E ''ActionId'' ACTION_ID_MAX_LEN [] ''0'' j, a_acDevId = d, a_acKey = k,
               acValueCoding = field_or E ''ValueCoding'' VALUE_CODING_MAX_LEN [] ''Original'' j, a_acValue = v, acResult = []\<rparr> L
          | _ \<Rightarrow> Some (JsonFormatErr, L, []))))"

definition hyScene_Del_Action :: "request_env \<Rightarrow> json \<Rightarrow> scene_list \<Rightarrow> op_result" where
  "hyScene_Del_Action E j L = (case need E ''Id'' INDEX_MAX_LEN [] j of
     None \<Rightarrow> Some (JsonFormatErr, L, [])
   | Some ident \<Rightarrow> (case scene_find (om_find (en_mem E)) ident L of
       None \<Rightarrow> Some (NotFoundErr, L, [])
     | Some (a, s) \<Rightarrow> (case need E ''DevId'' DEV_ID_MAX_LEN [] j of
         None \<Rightarrow> Some (JsonFormatErr, L, [])
       | Some d \<Rightarrow> if strncmp d ''All'' DEV_ID_MAX_LEN = 0 then scene_action_clear (en_db E) 1 a L
           else (case need E ''Key'' KEY_MAX_LEN [] j of
             None \<Rightarrow> Some (JsonFormatErr, L, [])
           | Some k \<Rightarrow> scene_action_del (om_node (en_mem E)) (en_db E) a
               (zero_action\<lparr>acActionId := field_or E ''ActionId'' ACTION_ID_MAX_LEN [] ''0'' j, a_acDevId := d, a_acKey := k\<rparr>) L))))"

definition action_json :: "scene_info \<Rightarrow> action_info \<Rightarrow> json" where
  "action_json s x = text_obj [(''Op'', ''GetAction''), (''Id'', acSceneId s), (''ActionId'', acActionId x), (''DevId'', a_acDevId x),
     (''Key'', a_acKey x), (''ValueCoding'', acValueCoding x), (''Value'', a_acValue x)]"

definition hyScene_Get_Action :: "request_env \<Rightarrow> json \<Rightarrow> scene_list \<Rightarrow> (status \<times> json list) option" where
  "hyScene_Get_Action E j L = (if \<not> om_array (en_mem E) then Some (HeapReqErr, [])
     else case need E ''Id'' INDEX_MAX_LEN [] j of
       None \<Rightarrow> Some (JsonFormatErr, [])
     | Some ident \<Rightarrow> (case scene_find (om_find (en_mem E)) ident L of
         None \<Rightarrow> Some (NotFoundErr, [])
       | Some (a, s) \<Rightarrow> do {
           (iRet, xs) \<leftarrow> scene_action_get_list a ACTION_MAX_NUM L;
           if iRet \<noteq> NoErr then Some (iRet, [])
           else Some (answer (om_obj (en_mem E)) (text_obj [(''Op'', ''GetAction''), (''Id'', acSceneId s), (''DevId'', ''none'')]) (action_json s) xs)
         }))"

section \<open>Requests\<close>

text \<open>The state of the dispatcher: the buffer with the name of the operation, which keeps its contents when the name is a
  null value; the status so far; the number of operations done, which selects their environment; the scene
  list, the statements sent and the answers.\<close>

record dispatch =
  d_op :: string
  d_ret :: status
  d_n :: nat
  d_list :: scene_list
  d_calls :: db_calls
  d_out :: "json list"

definition op_is :: "string \<Rightarrow> string \<Rightarrow> bool" where
  "op_is acOp v \<longleftrightarrow> strncmp acOp v OPERATION_MAX_LEN = 0"

definition done_op :: "dispatch \<Rightarrow> op_result \<Rightarrow> (bool \<times> dispatch) option" where
  "done_op d x = do { (r, L1, calls) \<leftarrow> x;
     Some (True, d\<lparr>d_ret := d_ret d + r, d_n := Suc (d_n d), d_list := L1, d_calls := d_calls d @ calls\<rparr>) }"

text \<open>An operation that reads: without memory for its array the status is set, and the operation stays in the request.\<close>

definition done_get :: "request_env \<Rightarrow> dispatch \<Rightarrow> (status \<times> json list) option \<Rightarrow> (bool \<times> dispatch) option" where
  "done_get E d x = (if \<not> om_list (en_mem E) then Some (False, d\<lparr>d_ret := GeneralErr, d_n := Suc (d_n d)\<rparr>)
     else do { (r, js) \<leftarrow> x; Some (True, d\<lparr>d_ret := d_ret d + r, d_n := Suc (d_n d), d_out := d_out d @ js\<rparr>) })"

text \<open>The three passes over the operations: scenes; conditions, actions and panels; execution.\<close>

definition scene_item :: "(nat \<Rightarrow> request_env) \<Rightarrow> dispatch \<Rightarrow> json \<Rightarrow> (bool \<times> dispatch) option" where
  "scene_item Es d j = (let E = Es (d_n d); (r, acOp) = jget E ''Op'' OPERATION_MAX_LEN (d_op d) j; d1 = d\<lparr>d_op := acOp\<rparr> in
     if r \<noteq> NoErr then Some (False, d1\<lparr>d_ret := JsonFormatErr\<rparr>)
     else if op_is acOp ''AddScene'' then done_op d1 (hyScene_Add E j (d_list d))
     else if op_is acOp ''DelScene'' then done_op d1 (hyScene_Del E j (d_list d))
     else if op_is acOp ''GetScene'' then done_get E d1 (Some (hyScene_Get E (d_list d)))
     else Some (False, d1))"

definition other_item :: "(nat \<Rightarrow> request_env) \<Rightarrow> dispatch \<Rightarrow> json \<Rightarrow> (bool \<times> dispatch) option" where
  "other_item Es d j = (let E = Es (d_n d); (r, acOp) = jget E ''Op'' OPERATION_MAX_LEN (d_op d) j; d1 = d\<lparr>d_op := acOp\<rparr> in
     if r \<noteq> NoErr then Some (False, d1)
     else if op_is acOp ''AddAction'' then done_op d1 (hyScene_Add_Action E j (d_list d))
     else if op_is acOp ''DelAction'' then done_op d1 (hyScene_Del_Action E j (d_list d))
     else if op_is acOp ''GetAction'' then done_get E d1 (hyScene_Get_Action E j (d_list d))
     else if op_is acOp ''AddCond'' then done_op d1 (hyScene_Add_Cond E j (d_list d))
     else if op_is acOp ''DelCond'' then done_op d1 (hyScene_Del_Cond E j (d_list d))
     else if op_is acOp ''GetCond'' then done_get E d1 (hyScene_Get_Cond E j (d_list d))
     else if op_is acOp ''BindScene'' then done_op d1 (hyScene_Bind E j (d_list d))
     else if op_is acOp ''UnbindScene'' then done_op d1 (hyScene_Unbind E j (d_list d))
     else if op_is acOp ''GetBindScene'' then done_get E d1 (hyScene_Get_Bind E j (d_list d))
     else Some (False, d1))"

definition exec_item :: "(nat \<Rightarrow> request_env) \<Rightarrow> dispatch \<Rightarrow> json \<Rightarrow> (bool \<times> dispatch) option" where
  "exec_item Es d j = (let E = Es (d_n d); (r, acOp) = jget E ''Op'' OPERATION_MAX_LEN (d_op d) j; d1 = d\<lparr>d_op := acOp\<rparr> in
     if r \<noteq> NoErr then Some (False, d1)
     else if op_is acOp ''ExecScene'' then do { (h, d2) \<leftarrow> done_op d1 (hyScene_Exec E j (d_list d)); Some (False, d2) }
     else Some (False, d1))"

text \<open>A pass: an operation that is done leaves the array, and the counter is set back for it.\<close>

fun item_loop :: "(dispatch \<Rightarrow> json \<Rightarrow> (bool \<times> dispatch) option) \<Rightarrow> json list \<Rightarrow> dispatch \<Rightarrow> (json list \<times> dispatch) option" where
  "item_loop f [] d = Some ([], d)"
| "item_loop f (j # js) d = do {
     (h, d1) \<leftarrow> f d j;
     (rest, d2) \<leftarrow> item_loop f js d1;
     Some (if h then rest else j # rest, d2)
   }"

definition start_dispatch :: "scene_list \<Rightarrow> dispatch" where
  "start_dispatch L = \<lparr>d_op = [], d_ret = 0, d_n = 0, d_list = L, d_calls = [], d_out = []\<rparr>"

definition hyScene_Dispatch :: "(nat \<Rightarrow> request_env) \<Rightarrow> json list \<Rightarrow> scene_list \<Rightarrow> dispatch option" where
  "hyScene_Dispatch Es js L = do {
     (js1, d1) \<leftarrow> item_loop (scene_item Es) js (start_dispatch L);
     (js2, d2) \<leftarrow> item_loop (other_item Es) js1 d1;
     (js3, d3) \<leftarrow> item_loop (exec_item Es) js2 d2;
     Some d3
   }"

definition hyScene_Report :: "json list \<Rightarrow> json" where
  "hyScene_Report js = cJSON_AddItemToObject ''Data'' (JArray js)
     (text_obj [(''Command'', ''Report''), (''FrameNumber'', ''00''), (''Type'', ''LocalScene'')])"

text \<open>\<open>pr\<close>: parser and printer; \<open>m1\<close>: the array of the answers can be allocated (its length is taken without a test), \<open>m2\<close>:
  the object of the report; \<open>outp\<close>: both places for the result are given. The result has the text in the buffer
  and its length.\<close>

definition scene_query :: "(string \<Rightarrow> json option) \<times> (json \<Rightarrow> string) \<Rightarrow> bool \<Rightarrow> bool \<Rightarrow> (nat \<Rightarrow> request_env) \<Rightarrow> string \<Rightarrow> bool \<Rightarrow> nat \<Rightarrow>
    scene_list option \<Rightarrow> (status \<times> scene_list option \<times> db_calls \<times> (string \<times> nat) option) option" where
  "scene_query pr m1 m2 Es inputBuff outp outSize G = (case G of
     None \<Rightarrow> Some (GeneralErr, G, [], None)
   | Some L \<Rightarrow> (case fst pr inputBuff of
       None \<Rightarrow> Some (JsonFormatErr, G, [], None)
     | Some j \<Rightarrow> (case (need (Es 0) ''Type'' TYPE_MAX_LEN [] j, need (Es 0) ''Command'' COMMAND_MAX_LEN [] j, JSON_node_get ''Data'' j) of
         (Some ty, Some cmd, (r, Some (JArray js))) \<Rightarrow>
           if \<not> type_is ty ''LocalScene'' \<or> strncmp cmd ''Dispatch'' COMMAND_MAX_LEN \<noteq> 0 then Some (JsonFormatErr, G, [], None)
           else do {
             d \<leftarrow> hyScene_Dispatch Es js L;
             if \<not> m1 then None
             else if d_ret d = NoErr \<and> d_out d \<noteq> [] then
               (if \<not> m2 then Some (GeneralErr, Some (d_list d), d_calls d, None)
                else let pstr = snd pr (hyScene_Report (d_out d)) in
                  Some (NoErr, Some (d_list d), d_calls d,
                    if outp then Some (strncpy pstr outSize, if length pstr > outSize then outSize else length pstr) else None))
             else Some (d_ret d, Some (d_list d), d_calls d, None)
           }
       | _ \<Rightarrow> Some (JsonFormatErr, G, [], None))))"

section \<open>Device reports\<close>

definition event_of :: "request_env \<Rightarrow> json \<Rightarrow> event option" where
  "event_of E j = do {
     d \<leftarrow> need E ''DeviceId'' DEV_ID_MAX_LEN [] j;
     k \<leftarrow> need E ''Key'' KEY_MAX_LEN [] j;
     v \<leftarrow> need E ''Value'' VALUE_MAX_LEN [] j;
     Some \<lparr>ev_acDevId = d, ev_acKey = k, ev_acValue = v\<rparr>
   }"

fun event_items :: "(nat \<Rightarrow> request_env) \<Rightarrow> nat \<Rightarrow> json list \<Rightarrow> scene_list \<Rightarrow> (scene_list \<times> db_calls) option" where
  "event_items Es n [] L = Some (L, [])"
| "event_items Es n (j # js) L = (case event_of (Es n) j of
     None \<Rightarrow> event_items Es (Suc n) js L
   | Some e \<Rightarrow> do {
       (r, L1, c1) \<leftarrow> scene_list_event (en_rnd (Es n)) (en_db (Es n)) (om_queue (en_mem (Es n))) (om_sync (en_mem (Es n))) (en_now (Es n)) e L;
       (L2, c2) \<leftarrow> event_items Es (Suc n) js L1;
       Some (L2, c1 @ c2)
     })"

fun unregister_items :: "(nat \<Rightarrow> request_env) \<Rightarrow> nat \<Rightarrow> json list \<Rightarrow> scene_list \<Rightarrow> (scene_list \<times> db_calls) option" where
  "unregister_items Es n [] L = Some (L, [])"
| "unregister_items Es n (j # js) L = (case need (Es n) ''DeviceId'' DEV_ID_MAX_LEN [] j of
     None \<Rightarrow> unregister_items Es (Suc n) js L
   | Some d \<Rightarrow> (case om_unreg (en_mem (Es n)) of (m1, m2, m3) \<Rightarrow> do {
       (r, L1, c1) \<leftarrow> scene_list_dev_unregister m1 m2 m3 (en_db (Es n)) d L;
       (L2, c2) \<leftarrow> unregister_items Es (Suc n) js L1;
       Some (L2, c1 @ c2)
     }))"

definition data_items :: "((nat \<Rightarrow> request_env) \<Rightarrow> nat \<Rightarrow> json list \<Rightarrow> scene_list \<Rightarrow> (scene_list \<times> db_calls) option) \<Rightarrow>
    (nat \<Rightarrow> request_env) \<Rightarrow> json \<Rightarrow> scene_list \<Rightarrow> op_result" where
  "data_items f Es j L = (case JSON_node_get ''Data'' j of
     (r, Some (JArray js)) \<Rightarrow> do { (L1, calls) \<leftarrow> f Es 0 js L; Some (NoErr, L1, calls) }
   | _ \<Rightarrow> Some (JsonFormatErr, L, []))"

text \<open>\<open>check\<close> is the test of the text before it is parsed.\<close>

definition scene_event :: "(string \<Rightarrow> bool) \<Rightarrow> (string \<Rightarrow> json option) \<Rightarrow> (nat \<Rightarrow> request_env) \<Rightarrow> string \<Rightarrow> scene_list option \<Rightarrow>
    (status \<times> scene_list option \<times> db_calls) option" where
  "scene_event check parse Es inputBuff G = (case G of
     None \<Rightarrow> Some (GeneralErr, G, [])
   | Some L \<Rightarrow>
       if \<not> check inputBuff then Some (JsonFormatErr, G, [])
       else (case parse inputBuff of
         None \<Rightarrow> Some (JsonFormatErr, G, [])
       | Some j \<Rightarrow> (case need (Es 0) ''Type'' TYPE_MAX_LEN [] j of
           None \<Rightarrow> Some (JsonFormatErr, G, [])
         | Some ty \<Rightarrow> do {
             (r, L1, calls) \<leftarrow>
               (if type_is ty ''Attribute'' \<or> type_is ty ''Event'' then data_items event_items Es j L
                else if type_is ty ''UnRegister'' then data_items unregister_items Es j L
                else if type_is ty ''ReFactory'' then do { (r, L1, calls) \<leftarrow> scene_list_clear (en_db (Es 0)) 1 L; Some (NoErr, L1, calls) }
                else Some (NoErr, L, []));
             Some (r, Some L1, calls)
           })))"

definition scene_event2 :: "request_env \<Rightarrow> string \<Rightarrow> string \<Rightarrow> string \<Rightarrow> scene_list option \<Rightarrow> (status \<times> scene_list option \<times> db_calls) option" where
  "scene_event2 E devId key val G = (case G of
     None \<Rightarrow> Some (GeneralErr, G, [])
   | Some L \<Rightarrow> do {
       (r, L1, calls) \<leftarrow> scene_list_event (en_rnd E) (en_db E) (om_queue (en_mem E)) (om_sync (en_mem E)) (en_now E)
         \<lparr>ev_acDevId = strncpy devId DEV_ID_MAX_LEN, ev_acKey = strncpy key KEY_MAX_LEN, ev_acValue = strncpy val VALUE_MAX_LEN\<rparr> L;
       Some (r, Some L1, calls)
     })"

text \<open>Deleting all scenes, one by one, by the identifiers of a copy of the list.\<close>

fun clean_loop :: "(nat \<Rightarrow> request_env) \<Rightarrow> nat \<Rightarrow> scene_info list \<Rightarrow> scene_list \<Rightarrow> op_result" where
  "clean_loop Es n [] L = Some (0, L, [])"
| "clean_loop Es n (s # ss) L = then_op (scene_list_del (om_find (en_mem (Es n))) (en_db (Es n)) (acSceneId s) L) (clean_loop Es (Suc n) ss)"

definition scene_clean :: "(nat \<Rightarrow> request_env) \<Rightarrow> scene_list option \<Rightarrow> (status \<times> scene_list option \<times> db_calls) option" where
  "scene_clean Es G = (case G of
     None \<Rightarrow> Some (GeneralErr, G, [])
   | Some L \<Rightarrow>
       if \<not> om_array (en_mem (Es 0)) then Some (HeapReqErr, G, [])
       else do { (r, L1, calls) \<leftarrow> clean_loop Es 0 (snd (scene_list_get_list SCENE_MAX_NUM L)) L; Some (r, Some L1, calls) })"

section \<open>Start and end\<close>

definition DBOpenErr :: status where "DBOpenErr = -265"

text \<open>\<open>dbs\<close>: the queue of the opened data base, if any; \<open>m\<close>, \<open>h\<close>: the allocations of the list of scenes and its index; \<open>cm i\<close>: the allocation
  in the \<open>i\<close>th step that brings an older data base up to date; \<open>E d\<close>: what the rest of the start takes from outside, when
  the data base has the contents \<open>d\<close>. The status of loading is not looked at.\<close>

definition scene_init :: "db_stmt list option \<Rightarrow> bool \<times> bool \<times> bool \<times> bool \<times> bool \<times> bool \<Rightarrow> bool \<times> (nat \<Rightarrow> bool) \<Rightarrow> (nat \<Rightarrow> bool) \<Rightarrow>
    ('d \<Rightarrow> string \<Rightarrow> string \<Rightarrow> status) \<Rightarrow> 'd sqlite \<Rightarrow> ('d \<Rightarrow> load_env) \<Rightarrow> 'd \<Rightarrow> (status \<times> scene_list option \<times> 'd \<times> db_calls) option" where
  "scene_init dbs m h cm qu ex E d = (case dbs of
     None \<Rightarrow> Some (DBOpenErr, None, d, [])
   | Some Q \<Rightarrow> (case new_scene_list m h of
       None \<Rightarrow> Some (GeneralErr, None, d, [])
     | Some L \<Rightarrow> do {
         (r0, d0) \<leftarrow> db_compatibility (cm 0) qu ex 0 d;
         (r1, d1) \<leftarrow> db_compatibility (cm 1) qu ex 1 d0;
         (r2, d2) \<leftarrow> db_compatibility (cm 2) qu ex 2 d1;
         (r3, d3) \<leftarrow> db_compatibility (cm 3) qu ex 3 d2;
         (r, L1, calls) \<leftarrow> scene_list_init (E d3) L;
         Some (NoErr, Some L1, d3, calls)
       }))"

definition scene_destroy :: "(db_stmt \<Rightarrow> status) \<Rightarrow> scene_list option \<Rightarrow> (status \<times> db_calls) option" where
  "scene_destroy db G = (case G of None \<Rightarrow> Some (GeneralErr, []) | Some L \<Rightarrow> destroy_scene_list db L)"

definition scene_report_register :: "ptr \<Rightarrow> scene_list option \<Rightarrow> status \<times> scene_list option" where
  "scene_report_register funName G = (case G of None \<Rightarrow> (GeneralErr, None)
     | Some L \<Rightarrow> (let (r, L1) = scene_report_reg funName L in (r, Some L1)))"

section \<open>Messages to the gateway\<close>

text \<open>The report of an executed scene, and the command that synchronises a device: the values whose texts are sent.\<close>

definition scene_exec_report :: "string \<Rightarrow> json" where
  "scene_exec_report pcSeneId = cJSON_AddItemToObject ''Data'' (cJSON_AddItemToArray (JArray []) (text_obj [(''Op'', ''ExecScene''), (''Id'', pcSeneId)]))
     (text_obj [(''Command'', ''Report''), (''FrameNumber'', ''00''), (''Type'', ''LocalScene'')])"

definition sync_ctrl_dispatch :: "string \<Rightarrow> string \<Rightarrow> string \<Rightarrow> json" where
  "sync_ctrl_dispatch pcDevId pcKey pcValue =
     cJSON_AddItemToObject ''Data'' (cJSON_AddItemToArray (JArray []) (text_obj [(''DeviceId'', pcDevId), (''Key'', pcKey), (''Value'', pcValue)]))
       (text_obj [(''Command'', ''Dispatch''), (''FrameNumber'', ''00''), (''Type'', ''Ctrl'')])"

section \<open>The order of a request\<close>

text \<open>What a request means: its operations in the order of their kind (scenes; conditions, actions and panels; execution),
  operations of the same kind in the order in which they were sent, each executed once.\<close>

definition named :: "json \<Rightarrow> bool" where
  "named j \<longleftrightarrow> (\<exists>v. cJSON_GetObjectItem j ''Op'' = Some (JString v))"

definition op_name :: "json \<Rightarrow> string" where
  "op_name j = (case cJSON_GetObjectItem j ''Op'' of Some (JString v) \<Rightarrow> strncpy v OPERATION_MAX_LEN | _ \<Rightarrow> [])"

definition op_kind :: "json \<Rightarrow> nat" where
  "op_kind j = (if op_name j \<in> {''AddScene'', ''DelScene'', ''GetScene''} then 0
     else if op_name j \<in> {''AddAction'', ''DelAction'', ''GetAction'', ''AddCond'', ''DelCond'', ''GetCond'', ''BindScene'', ''UnbindScene'', ''GetBindScene''} then 1
     else if op_name j = ''ExecScene'' then 2 else 3)"

definition item_of :: "nat \<Rightarrow> (nat \<Rightarrow> request_env) \<Rightarrow> dispatch \<Rightarrow> json \<Rightarrow> (bool \<times> dispatch) option" where
  "item_of k = (if k = 0 then scene_item else if k = 1 then other_item else exec_item)"

fun run_request :: "(nat \<Rightarrow> request_env) \<Rightarrow> json list \<Rightarrow> dispatch \<Rightarrow> dispatch option" where
  "run_request Es [] d = Some d"
| "run_request Es (j # js) d = do { (h, d1) \<leftarrow> item_of (op_kind j) Es d j; run_request Es js d1 }"

text \<open>The buffer for the name does not matter.\<close>

definition erase :: "dispatch \<Rightarrow> dispatch" where
  "erase d = d\<lparr>d_op := []\<rparr>"

lemma op_is_lit: "length v < 16 \<Longrightarrow> op_is n v \<longleftrightarrow> n = v"
  by (simp add: op_is_def OPERATION_MAX_LEN_def strncmp_eq_0_lit)

lemma jget_op: "named j \<Longrightarrow> jget E ''Op'' OPERATION_MAX_LEN old j = (0, op_name j)"
  by (auto simp: named_def jget_def op_name_def value_get_string)

lemma erase_simps [simp]: "erase (d\<lparr>d_op := x\<rparr>) = erase d" "d_n (erase d) = d_n d" "d_list (erase d) = d_list d" "erase (erase d) = erase d"
  by (simp_all add: erase_def)

lemma erase_more: "erase d = erase d' \<Longrightarrow> d_n d = d_n d' \<and> d_list d = d_list d' \<and> d\<lparr>d_op := x\<rparr> = d'\<lparr>d_op := x\<rparr>"
  by (cases d; cases d') (simp add: erase_def)

lemma item_erase: "named j \<Longrightarrow> erase d = erase d' \<Longrightarrow> item_of k Es d j = item_of k Es d' j"
  using erase_more [of d d' "op_name j"] by (simp add: item_of_def scene_item_def other_item_def exec_item_def jget_op Let_def)

lemma item_skip: "named j \<Longrightarrow> op_kind j \<noteq> k \<Longrightarrow> k < 3 \<Longrightarrow> item_of k Es d j = Some (False, d\<lparr>d_op := op_name j\<rparr>)"
  by (auto simp: item_of_def scene_item_def other_item_def exec_item_def jget_op op_is_lit op_kind_def NoErr_def split: if_splits)

lemma request_erase: "\<forall>j \<in> set js. named j \<Longrightarrow> erase d = erase d' \<Longrightarrow> map_option erase (run_request Es js d) = map_option erase (run_request Es js d')"
proof (cases js)
  case (Cons j js')
  assume "\<forall>j \<in> set js. named j" "erase d = erase d'"
  with item_erase [of j d d'] Cons show ?thesis by simp
qed simp

text \<open>One pass does the operations of its kind and keeps the others.\<close>

lemma item_loop_pass:
  assumes "\<forall>j \<in> set js. named j" "k < 3"
  shows "(case item_loop (item_of k Es) js d of None \<Rightarrow> run_request Es (filter (\<lambda>j. op_kind j = k) js) d = None
    | Some (rest, d') \<Rightarrow> map_option erase (run_request Es (filter (\<lambda>j. op_kind j = k) js) d) = Some (erase d') \<and>
        filter (\<lambda>j. op_kind j \<noteq> k) rest = filter (\<lambda>j. op_kind j \<noteq> k) js \<and> set rest \<subseteq> set js)"
  using assms(1)
proof (induction js arbitrary: d)
  case (Cons j js)
  show ?case
  proof (cases "op_kind j = k")
    case True
    show ?thesis
    proof (cases "item_of k Es d j")
      case (Some r)
      obtain h d1 where r: "r = (h, d1)" by (cases r)
      have "\<forall>j \<in> set js. named j" using Cons.prems by simp
      from Cons.IH [OF this, of d1] show ?thesis
        using Some True r by (cases "item_loop (item_of k Es) js d1") (auto split: if_splits)
    qed (use True in simp)
  next
    case False
    let ?d = "d\<lparr>d_op := op_name j\<rparr>"
    have e: "map_option erase (run_request Es xs ?d) = map_option erase (run_request Es xs d)" if "set xs \<subseteq> set js" for xs
      using that Cons.prems by (intro request_erase) auto
    have "item_of k Es d j = Some (False, ?d)" using item_skip False assms(2) Cons.prems by simp
    moreover have "set (filter (\<lambda>j. op_kind j = k) js) \<subseteq> set js" by auto
    ultimately show ?thesis using Cons.IH [of ?d] Cons.prems False e [of "filter (\<lambda>j. op_kind j = k) js"]
      by (auto split: option.splits prod.splits)
  qed
qed simp

lemma run_request_append: "run_request Es (xs @ ys) d = run_request Es xs d \<bind> run_request Es ys"
  by (induction xs arbitrary: d) (auto split: Option.bind_split)

lemma run_request_unknown:
  assumes "\<forall>j \<in> set js. named j \<and> op_kind j = 3"
  shows "map_option erase (run_request Es js d) = Some (erase d)"
  using assms
proof (induction js arbitrary: d)
  case (Cons j js)
  then have "item_of (op_kind j) Es d j = Some (False, d\<lparr>d_op := op_name j\<rparr>)"
    using item_skip [of j 2 Es d] by (simp add: item_of_def)
  then show ?case using Cons.IH [of "d\<lparr>d_op := op_name j\<rparr>"] Cons.prems by simp
qed simp

lemma pass_result:
  assumes "\<forall>j \<in> set js. named j" "k < 3" "erase d = erase d0"
  shows "(case item_loop (item_of k Es) js d of None \<Rightarrow> run_request Es (filter (\<lambda>j. op_kind j = k) js) d0 = None
    | Some (rest, d') \<Rightarrow> \<exists>d1. run_request Es (filter (\<lambda>j. op_kind j = k) js) d0 = Some d1 \<and> erase d1 = erase d' \<and>
        (\<forall>j \<in> set rest. named j) \<and> (\<forall>i. i \<noteq> k \<longrightarrow> filter (\<lambda>j. op_kind j = i) rest = filter (\<lambda>j. op_kind j = i) js))"
proof -
  let ?f = "filter (\<lambda>j. op_kind j = k) js"
  have e: "map_option erase (run_request Es ?f d) = map_option erase (run_request Es ?f d0)"
    using assms by (intro request_erase) auto
  have fl: "filter (\<lambda>j. op_kind j = i) ys = filter (\<lambda>j. op_kind j = i) (filter (\<lambda>j. op_kind j \<noteq> k) ys)" if "i \<noteq> k" for i ys
    unfolding filter_filter using that by (intro filter_cong) auto
  show ?thesis
  proof (cases "item_loop (item_of k Es) js d")
    case None
    then show ?thesis using item_loop_pass [OF assms(1,2), of Es d] e by simp
  next
    case (Some r)
    obtain rest d' where r: "r = (rest, d')" by (cases r)
    have p: "map_option erase (run_request Es ?f d) = Some (erase d')" "filter (\<lambda>j. op_kind j \<noteq> k) rest = filter (\<lambda>j. op_kind j \<noteq> k) js"
      "set rest \<subseteq> set js" using item_loop_pass [OF assms(1,2), of Es d] Some r by simp_all
    have q: "filter (\<lambda>j. op_kind j = i) rest = filter (\<lambda>j. op_kind j = i) js" if "i \<noteq> k" for i
      using fl [OF that, of rest] fl [OF that, of js] p(2) by simp
    have "\<exists>d1. run_request Es ?f d0 = Some d1 \<and> erase d1 = erase d'" using p(1) e by simp
    then show ?thesis using Some r q p(3) assms(1) by auto
  qed
qed

lemma op_kind_bound: "op_kind j \<in> {0, 1, 2, 3}"
  by (simp add: op_kind_def)

lemma sort_op_kind: "sort_key op_kind js = filter (\<lambda>j. op_kind j = 0) js @ filter (\<lambda>j. op_kind j = 1) js @ filter (\<lambda>j. op_kind j = 2) js @ filter (\<lambda>j. op_kind j = 3) js"
proof (rule properties_for_sort_key)
  let ?k = "\<lambda>i. filter (\<lambda>j. op_kind j = i) js"
  show "mset (?k 0 @ ?k 1 @ ?k 2 @ ?k 3) = mset js"
  proof (induction js)
    case (Cons j js)
    then show ?case using op_kind_bound [of j] by auto
  qed simp
  have f: "filter (\<lambda>x. i = op_kind x) (?k l) = (if i = l then ?k l else [])" for i l
    by (induction js) auto
  show "filter (\<lambda>x. op_kind k = op_kind x) (?k 0 @ ?k 1 @ ?k 2 @ ?k 3) = filter (\<lambda>x. op_kind k = op_kind x) js" for k
  proof -
    have "filter (\<lambda>x. op_kind k = op_kind x) js = ?k (op_kind k)" by (intro filter_cong) auto
    then show ?thesis using op_kind_bound [of k] unfolding filter_append f by fastforce
  qed
  have "sorted (map op_kind (?k i))" for i
  proof (induction js)
    case (Cons j js)
    then show ?case by auto
  qed simp
  then show "sorted (map op_kind (?k 0 @ ?k 1 @ ?k 2 @ ?k 3))" by (auto simp: sorted_append)
qed

text \<open>C3. A request whose operations are all named is executed as its operations sorted by kind, each once and in the order
  sent among those of its kind: the passes over the array, which drop operations while they run, give the
  same scene list, statements, answers and status.\<close>

theorem hyScene_Dispatch_order:
  assumes "\<forall>j \<in> set js. named j"
  shows "map_option erase (hyScene_Dispatch Es js L) = map_option erase (run_request Es (sort_key op_kind js) (start_dispatch L))"
proof -
  let ?k = "\<lambda>i. filter (\<lambda>j. op_kind j = i) js"
  have items: "item_of 0 = scene_item" "item_of 1 = other_item" "item_of 2 = exec_item" by (simp_all add: item_of_def)
  note p0 = pass_result [OF assms, of 0 "start_dispatch L" "start_dispatch L" Es, simplified items]
  show ?thesis
  proof (cases "item_loop (scene_item Es) js (start_dispatch L)")
    case None
    then show ?thesis using p0 by (simp add: hyScene_Dispatch_def sort_op_kind run_request_append)
  next
    case (Some r0)
    then obtain js1 d1 e1 where 1: "r0 = (js1, d1)" "run_request Es (?k 0) (start_dispatch L) = Some e1" "erase d1 = erase e1" "\<forall>j \<in> set js1. named j"
      "\<And>i. i \<noteq> 0 \<Longrightarrow> filter (\<lambda>j. op_kind j = i) js1 = ?k i" using p0 by (cases r0) auto
    note p1 = pass_result [OF 1(4) _ 1(3), of 1 Es, simplified items 1(5) [of 1, simplified]]
    show ?thesis
    proof (cases "item_loop (other_item Es) js1 d1")
      case None
      then show ?thesis using p1 Some 1 by (simp add: hyScene_Dispatch_def sort_op_kind run_request_append)
    next
      case (Some r1)
      then obtain js2 d2 e2 where 2: "r1 = (js2, d2)" "run_request Es (?k 1) e1 = Some e2" "erase d2 = erase e2" "\<forall>j \<in> set js2. named j"
        "filter (\<lambda>j. op_kind j = 2) js2 = ?k 2" using p1 1(5) by (cases r1) auto
      note p2 = pass_result [OF 2(4) _ 2(3), of 2 Es, simplified items 2(5)]
      show ?thesis
      proof (cases "item_loop (exec_item Es) js2 d2")
        case None
        then show ?thesis using p2 Some 1 2 \<open>item_loop (scene_item Es) js (start_dispatch L) = Some r0\<close>
          by (simp add: hyScene_Dispatch_def sort_op_kind run_request_append)
      next
        case (Some r2)
        then obtain js3 d3 e3 where 3: "r2 = (js3, d3)" "run_request Es (?k 2) e2 = Some e3" "erase d3 = erase e3" using p2 by (cases r2) auto
        obtain e4 where "run_request Es (?k 3) e3 = Some e4" "erase e4 = erase d3" using run_request_unknown [of "?k 3" Es e3] assms 3(3) by auto
        then show ?thesis using 1 2 3 Some \<open>item_loop (other_item Es) js1 d1 = Some r1\<close> \<open>item_loop (scene_item Es) js (start_dispatch L) = Some r0\<close>
          by (simp add: hyScene_Dispatch_def sort_op_kind run_request_append)
      qed
    qed
  qed
qed

lemma text_obj_map: "text_obj kvs = JObject (map (\<lambda>(k, v). (k, JString v)) kvs)"
proof -
  have "foldl (\<lambda>j (k, v). cJSON_AddStringToObject k v j) (JObject xs) kvs = JObject (xs @ map (\<lambda>(k, v). (k, JString v)) kvs)" for xs
    by (induction kvs arbitrary: xs) (auto simp: cJSON_AddStringToObject_def cJSON_AddItemToObject_def)
  then show ?thesis by (simp add: text_obj_def)
qed

definition exec_request :: "string \<Rightarrow> json" where
  "exec_request i = text_obj [(''Op'', ''ExecScene''), (''Id'', i)]"

definition add_request :: "string \<Rightarrow> string \<Rightarrow> json" where
  "add_request i n = text_obj [(''Op'', ''AddScene''), (''Id'', i), (''Name'', n)]"

text \<open>An environment in which everything succeeds.\<close>

definition env_example :: request_env where
  "env_example = \<lparr>en_fmt = (\<lambda>d. [], \<lambda>d. []), en_rnd = (\<lambda>d. d), en_db = (\<lambda>q. NoErr), en_now = 100,
     en_mem = \<lparr>om_find = True, om_set = True, om_scene = scene_mem_example, om_panel = (True, 20, \<lambda>i. True, 30), om_cond = (True, 20, 21, \<lambda>i. True, 22),
       om_action = (True, True, True), om_node = True, om_array = True, om_list = True, om_obj = (\<lambda>i. True), om_queue = (\<lambda>n. True),
       om_sync = (True, True), om_unreg = (True, True, True)\<rparr>\<rparr>"

theorem hyScene_Dispatch_order_witness:
  "map_option erase (hyScene_Dispatch (\<lambda>n. env_example) [exec_request ''s2'', add_request ''s2'' ''night''] (scenes_example scene_example)) =
     map_option erase (run_request (\<lambda>n. env_example) [add_request ''s2'' ''night'', exec_request ''s2''] (start_dispatch (scenes_example scene_example)))"
proof -
  have "\<forall>j \<in> set [exec_request ''s2'', add_request ''s2'' ''night'']. named j"
    by (simp add: exec_request_def add_request_def text_obj_map named_def)
  moreover have "sort_key op_kind [exec_request ''s2'', add_request ''s2'' ''night''] = [add_request ''s2'' ''night'', exec_request ''s2'']"
    by code_simp
  ultimately show ?thesis using hyScene_Dispatch_order [of "[exec_request ''s2'', add_request ''s2'' ''night'']" "\<lambda>n. env_example" "scenes_example scene_example"] by simp
qed

section \<open>Adding and reading scenes\<close>

lemma emit_all: "\<forall>i. al i \<Longrightarrow> emit al i xs acc = (NoErr, acc @ xs)"
  by (induction xs arbitrary: i acc) simp_all

lemma answer_all: "\<forall>i. al i \<Longrightarrow> xs \<noteq> [] \<Longrightarrow> answer al none f xs = (NoErr, map f xs)"
  by (simp add: answer_def emit_all)

lemma field_text: "cJSON_GetObjectItem j k = Some (JString v) \<Longrightarrow> length v \<le> n \<Longrightarrow> field_or E k n old d j = v"
  by (simp add: field_or_def jget_def value_get_string NoErr_def)

lemma need_text: "cJSON_GetObjectItem j k = Some (JString v) \<Longrightarrow> length v \<le> n \<Longrightarrow> need E k n old j = Some v"
  by (simp add: need_def jget_def value_get_string NoErr_def)

text \<open>The text of a request for a name, shorter than the field, so that the field is terminated. A text of the full length leaves
  no terminator, and what reads the field later runs on into the next one.\<close>

definition given :: "json \<Rightarrow> string \<Rightarrow> nat \<Rightarrow> string \<Rightarrow> bool" where
  "given j k n v \<longleftrightarrow> cJSON_GetObjectItem j k = Some (JString v) \<and> length v < n"

lemma given_texts: "given j k n v \<Longrightarrow> field_or E k n old d j = v" "given j k n v \<Longrightarrow> need E k n old j = Some v"
  by (simp_all add: given_def field_text need_text)

text \<open>The texts of a scene are terminated.\<close>

definition texts_short :: "scene_info \<Rightarrow> bool" where
  "texts_short s \<longleftrightarrow> length (acSceneId s) < INDEX_MAX_LEN \<and> length (acSceneName s) < NAME_MAX_LEN \<and> length (acSceneEnable s) < STATE_MAX_LEN \<and>
     length (acExecDelayed s) < DELAYED_MAX_LEN \<and> length (acUpdateTime s) < TIME_MAX_LEN \<and> length (acNote s) < NOTE_MAX_LEN"

text \<open>C25. Adding a scene and reading the scenes back, for texts that are shorter than the fields they are copied to: the answer starts
  with the new scene, with the fields of the request, and goes on with the scenes there were, and all scenes of the list have
  terminated texts again. A text that fills its field to the last byte is excluded: \<open>strncpy\<close> leaves no
  terminator, and the answer would go on with the next field.\<close>

theorem scene_add_get_roundtrip:
  assumes "scenes_ok L" "scene_find (om_find (en_mem E)) i L = None" "scene_mem_ok (om_scene (en_mem E)) L" "\<forall>q. en_db E q = NoErr"
    "given j ''Id'' INDEX_MAX_LEN i" "given j ''Name'' NAME_MAX_LEN n" "given j ''Enable'' STATE_MAX_LEN e" "given j ''ExecDelayed'' DELAYED_MAX_LEN x"
    "given j ''UpdateTime'' TIME_MAX_LEN u" "given j ''Note'' NOTE_MAX_LEN o'" "om_array (en_mem E2)" "\<forall>k. om_obj (en_mem E2) k" "length (scenes L) < SCENE_MAX_NUM"
    "\<forall>s \<in> snd ` set (scenes L). texts_short s"
  shows "\<exists>L' calls. hyScene_Add E j L = Some (NoErr, L', calls) \<and> (\<forall>s \<in> snd ` set (scenes L'). texts_short s) \<and>
    hyScene_Get E2 L' = (NoErr, text_obj [(''Op'', ''GetScene''), (''Id'', i), (''Name'', n), (''Enable'', e), (''ExecDelayed'', x), (''UpdateTime'', u), (''Note'', o')] #
      map (scene_json \<circ> snd) (scenes L))"
proof -
  define info where "info = request_scene i n e x u o'"
  obtain L' s where r: "scene_list_add (om_scene (en_mem E)) (en_db E) info L =
      Some (if fst (scene_list_add_db (en_db E) L s) = NoErr then m_node (om_scene (en_mem E)) else NULL, L', snd (scene_list_add_db (en_db E) L s))"
    "scenes L' = (m_node (om_scene (en_mem E)), s) # scenes L" "acSceneId s = strncpy (acSceneId info) INDEX_MAX_LEN" "s = copy_info info s"
    using new_scene_added [OF assms(1,3)] by metis
  have "fst (scene_list_add_db (en_db E) L s) = NoErr" using assms(4) by (simp add: scene_list_add_db_def db_write_def)
  moreover have "m_node (om_scene (en_mem E)) \<noteq> NULL" using assms(3) by (simp add: scene_mem_ok_def)
  ultimately have a: "hyScene_Add E j L = Some (NoErr, L', snd (scene_list_add_db (en_db E) L s))"
    using r(1) assms(2,5-10) by (simp add: hyScene_Add_def given_texts info_def NoErr_def)
  have f: "acSceneId s = i" "acSceneName s = n" "acSceneEnable s = e" "acExecDelayed s = x" "acUpdateTime s = u" "acNote s = o'"
    using r(3) arg_cong [OF r(4), of acSceneName] arg_cong [OF r(4), of acSceneEnable] arg_cong [OF r(4), of acExecDelayed]
      arg_cong [OF r(4), of acUpdateTime] arg_cong [OF r(4), of acNote] assms(5-10)
    by (simp_all add: copy_info_def info_def request_scene_def given_def)
  have "scene_list_get_list SCENE_MAX_NUM L' = (NoErr, s # map snd (scenes L))"
    using r(2) assms(13) by (simp add: scene_list_get_list_def)
  then have "hyScene_Get E2 L' = (NoErr, map scene_json (s # map snd (scenes L)))"
    using assms(11,12) by (simp add: hyScene_Get_def answer_all)
  moreover have "texts_short s" using f assms(5-10) by (simp add: texts_short_def given_def)
  then have "\<forall>s \<in> snd ` set (scenes L'). texts_short s" using r(2) assms(14) by simp
  ultimately show ?thesis using a f by (simp add: scene_json_def comp_def)
qed

definition full_add_request :: json where
  "full_add_request = text_obj [(''Op'', ''AddScene''), (''Id'', ''s2''), (''Name'', ''night''), (''Enable'', ''1''), (''ExecDelayed'', ''5''), (''UpdateTime'', ''0''), (''Note'', ''n'')]"

lemma given_literal:
  "given full_add_request ''Id'' INDEX_MAX_LEN ''s2''" "given full_add_request ''Name'' NAME_MAX_LEN ''night''" "given full_add_request ''Enable'' STATE_MAX_LEN ''1''"
  "given full_add_request ''ExecDelayed'' DELAYED_MAX_LEN ''5''" "given full_add_request ''UpdateTime'' TIME_MAX_LEN ''0''" "given full_add_request ''Note'' NOTE_MAX_LEN ''n''"
  unfolding given_def by code_simp+

theorem scene_add_get_roundtrip_witness:
  "\<exists>L' calls. hyScene_Add env_example full_add_request (scenes_example scene_example) = Some (NoErr, L', calls) \<and>
     hyScene_Get env_example L' = (NoErr, [text_obj [(''Op'', ''GetScene''), (''Id'', ''s2''), (''Name'', ''night''), (''Enable'', ''1''), (''ExecDelayed'', ''5''),
       (''UpdateTime'', ''0''), (''Note'', ''n'')], scene_json scene_example])"
proof -
  let ?L = "scenes_example scene_example"
  have f: "scene_find (om_find (en_mem env_example)) ''s2'' ?L = None"
    by (simp add: env_example_def scene_find_def scenes_example_def scene_compare_def scene_example_def INDEX_MAX_LEN_def)
  have m: "scene_mem_ok (om_scene (en_mem env_example)) ?L" by (simp add: scene_mem_ok_def scene_mem_example_def scenes_example_def env_example_def)
  have e: "\<forall>q. en_db env_example q = NoErr" "om_array (en_mem env_example)" "\<forall>k. om_obj (en_mem env_example) k" "length (scenes ?L) < SCENE_MAX_NUM"
    by (simp_all add: env_example_def scenes_example_def SCENE_MAX_NUM_def)
  have t: "\<forall>s \<in> snd ` set (scenes ?L). texts_short s" unfolding texts_short_def by code_simp
  from scene_add_get_roundtrip [OF scenes_example_ok [OF scene_example_ok] f m e(1) given_literal e(2-4) t] show ?thesis
    by (auto simp: scenes_example_def)
qed

section \<open>Conditions by request\<close>

lemma type_is_lit: "length v < 16 \<Longrightarrow> type_is t v \<longleftrightarrow> t = v"
  by (simp add: type_is_def TYPE_MAX_LEN_def strncmp_eq_0_lit)

lemma logic_is_lit: "length v < 8 \<Longrightarrow> logic_is t v \<longleftrightarrow> t = v"
  by (simp add: logic_is_def LOGIC_MAX_LEN_def strncmp_eq_0_lit)

lemma field_default: "cJSON_GetObjectItem j k = None \<Longrightarrow> field_or E k n old d j = d"
  by (simp add: field_or_def jget_def value_get_none NoErr_def)

lemma found_scene: "scenes_ok L \<Longrightarrow> scene_find m i L = Some (a, s) \<Longrightarrow> get_scene L a = Some s"
proof -
  assume a: "scenes_ok L" "scene_find m i L = Some (a, s)"
  then have "(a, s) \<in> set (scenes L)" using nth_mem by (fastforce simp: scene_find_def find_Some_iff split: if_splits)
  with a(1) show ?thesis by (simp add: get_scene_def scenes_ok_def)
qed

lemma same_static_enable: "same_static s s' \<Longrightarrow> acSceneEnable s' = acSceneEnable s"
  by (cases s; cases s') (simp add: same_static_def)

text \<open>C4. From a request to an execution: a request adds an event condition to the any-list of an enabled scene, and a device
  then reports a value for which the condition holds. The scene joins the queue of executions exactly when
  its conditions hold together, and nothing else does.\<close>

theorem add_cond_then_report_executes:
  assumes "scenes_ok L" "ph_inv (pHashTable L)" "scene_find (om_find (en_mem E)) i L = Some (a, s)" "acSceneEnable s \<noteq> ''0''"
    "given j ''Id'' INDEX_MAX_LEN i" "given j ''Logic'' LOGIC_MAX_LEN ''Or''" "given j ''CondType'' TYPE_MAX_LEN ''Event''"
    "given j ''DevId'' DEV_ID_MAX_LEN d" "given j ''Key'' KEY_MAX_LEN k" "given j ''Value'' VALUE_MAX_LEN v" "given j ''Active'' ACTIVE_MAX_LEN act"
    "cJSON_GetObjectItem j ''TriggerType'' = None" "cJSON_GetObjectItem j ''ContinueTime'' = None"
    "c = (zero_event d k)\<lparr>e_acValue := v, e_acTriggerType := ''InstantOnce'', acContinueTime := ''0'', acActive := act\<rparr>" "k \<noteq> ''Manual''"
    "nodes (pHashTable L) (event_key c) = []" "mem_ok (om_cond (en_mem E)) (pstEventCondList (stOrCond s)) (pHashTable L)"
    "iCount (pstEventCondList (stOrCond s)) \<noteq> 1024" "\<forall>q. en_db E q = NoErr"
    "sets (pstEventCondList (stOrCond s)) = [] \<or> (\<exists>t \<in> set (sets (pstEventCondList (stOrCond s))). ucCondCount t < 32)"
    "scene_event_cond_is_true (en_rnd E2) c \<lparr>ev_acDevId = d, ev_acKey = k, ev_acValue = w\<rparr> = Some True" "length w < VALUE_MAX_LEN"
    "en_db E2 = (\<lambda>q. NoErr)" "om_queue (en_mem E2) = (\<lambda>n. True)"
  shows "\<exists>L1 c1 L2 c2 s'. hyScene_Add_Cond E j L = Some (NoErr, L1, c1) \<and> pstExecQueue L1 = pstExecQueue L \<and>
    scene_event2 E2 d k w (Some L1) = Some (NoErr, Some L2, c2) \<and> get_scene L2 a = Some s' \<and> scene_ok s' \<and>
    pstExecQueue L2 = pstExecQueue L @ (if scene_spec s' then [entry_of (en_now E2) s] else [])"
proof -
  have g: "get_scene L a = Some s" by (rule found_scene [OF assms(1,3)])
  let ?l = "pstEventCondList (get_logic Or_Logic s)"
  have l: "?l = pstEventCondList (stOrCond s)" by (simp add: get_logic_def)
  have free: "index_free (pHashTable L) (event_key c) (acSceneId s)" using assms(2,16) by (rule empty_index_free)
  have ek: "event_key (zero_event d k) = event_key c" by (simp add: assms(14) event_key_def zero_event_def)
  obtain calls where db: "event_cond_add_db (en_db E) ?l c = (NoErr, calls)"
    using assms(19) by (cases "event_cond_add_db (en_db E) ?l c") (auto simp: event_cond_add_db_def db_send_def db_write_def split: if_splits)
  have st: "event_cond_start (en_rnd E) c = Some False" by (simp add: event_cond_start_def assms(14) zero_event_def)
  obtain L1 p s1 where A: "scene_event_or_cond_add (en_rnd E) (om_cond (en_mem E)) (en_db E) a c L = Some (NoErr, L1, calls)" "scenes_ok L1"
    "get_scene L1 a = Some s1" "cond_added pstEventCondList pstTimeCondList p c False s s1" "pstScene p = a" "index_put (event_key c) p (pHashTable L) (pHashTable L1)" "one_scene a s1 L L1"
    using event_cond_added [OF assms(1) g assms(2) free, of "om_cond (en_mem E)" Or_Logic "en_db E" calls "en_rnd E" False] assms(14,15,17,18,20) db st
    by (auto simp: l zero_event_def)
  have q: "pstExecQueue L1 = pstExecQueue L" by (rule one_scene_parts(2) [OF A(7)])
  have of: "event_cond_of E a j L = Some (Some (-1, c))"
    using g free assms(8-13) by (simp add: event_cond_of_def given_texts scene_event_cond_get_def index_free_def ek field_default) (simp add: assms(14) zero_event_def)
  have "hyScene_Add_Cond E j L = Some (NoErr, L1, calls)"
    using assms(3,5-7) of A(1) by (simp add: hyScene_Add_Cond_def given_texts type_is_lit logic_is_lit)
  moreover
  let ?e = "\<lparr>ev_acDevId = d, ev_acKey = k, ev_acValue = w\<rparr>"
  have key: "snprintf KEY_MAX_LEN (ev_acDevId ?e @ ev_acKey ?e @ ''cond'') = event_key c"
    by (simp add: event_key_def assms(14) zero_event_def PRT_HASH_TYPE_COND_def)
  have n: "ph_inv (pHashTable L1)" "nodes (pHashTable L1) (event_key c) = [p]" using A(6) assms(16) by (simp_all add: index_put_def)
  note h = find_all_nodes [OF n]
  have s1: "cond_at pstEventCondList p s1 = Some c" "cond_truth pstEventCondList p s1 = Some False" "same_static s s1" using A(4) by (simp_all add: cond_added_def)
  have en: "acSceneEnable s1 \<noteq> ''0''" "entry_of (en_now E2) s1 = entry_of (en_now E2) s"
    using same_static_enable [OF s1(3)] assms(4) entry_of_static [OF s1(3)] by simp_all
  have ty: "e_acTriggerType c = ''InstantOnce''" by (simp add: assms(14) zero_event_def)
  from event_triggers [OF A(2) _ h(1) h(2) _ s1(1) ty en(1) assms(21) s1(2), of "om_sync (en_mem E2)" "en_now E2"] key A(3,5)
  obtain L2 s2 c2 where "scene_list_event (en_rnd E2) (\<lambda>q. NoErr) (\<lambda>n. True) (om_sync (en_mem E2)) (en_now E2) ?e L1 = Some (NoErr, L2, c2)"
    "get_scene L2 a = Some s2" "scene_ok s2" "pstExecQueue L2 = pstExecQueue L1 @ (if scene_spec s2 then [entry_of (en_now E2) s1] else [])" by auto
  moreover have "strncpy d DEV_ID_MAX_LEN = d" "strncpy k KEY_MAX_LEN = k" "strncpy w VALUE_MAX_LEN = w" using assms(8,9,22) by (simp_all add: given_def)
  ultimately show ?thesis using q en(2) assms(23,24) by (simp add: scene_event2_def)
qed

definition cond_request :: "string \<Rightarrow> json" where
  "cond_request op = text_obj [(''Op'', op), (''Id'', ''s1''), (''Logic'', ''Or''), (''CondType'', ''Event''), (''DevId'', ''d1''), (''Key'', ''k''),
     (''Value'', ''1''), (''Active'', ''Equ'')]"

lemma cond_request_given:
  "given (cond_request op) ''Id'' INDEX_MAX_LEN ''s1''" "given (cond_request op) ''Logic'' LOGIC_MAX_LEN ''Or''" "given (cond_request op) ''CondType'' TYPE_MAX_LEN ''Event''"
  "given (cond_request op) ''DevId'' DEV_ID_MAX_LEN ''d1''" "given (cond_request op) ''Key'' KEY_MAX_LEN ''k''" "given (cond_request op) ''Value'' VALUE_MAX_LEN ''1''"
  "given (cond_request op) ''Active'' ACTIVE_MAX_LEN ''Equ''" "cJSON_GetObjectItem (cond_request op) ''TriggerType'' = None" "cJSON_GetObjectItem (cond_request op) ''ContinueTime'' = None"
  by (simp_all add: given_def cond_request_def text_obj_map len_defs TYPE_MAX_LEN_def to_lower_def)

lemma example_found: "scene_find (om_find (en_mem env_example)) ''s1'' ((scenes_example scene_example)\<lparr>pHashTable := t\<rparr>) = Some (1, scene_example)"
  by (simp add: env_example_def scene_find_def scenes_example_def scene_compare_def scene_example_def INDEX_MAX_LEN_def)

theorem add_cond_then_report_executes_witness:
  "\<exists>t L1 c1 L2 c2 s'. new_ptr_hash_table True (\<lambda>i. True) = Some t \<and>
     hyScene_Add_Cond env_example (cond_request ''AddCond'') ((scenes_example scene_example)\<lparr>pHashTable := t\<rparr>) = Some (NoErr, L1, c1) \<and>
     scene_event2 env_example ''d1'' ''k'' ''1'' (Some L1) = Some (NoErr, Some L2, c2) \<and>
     pstExecQueue L2 = (if scene_spec s' then [entry_of 100 scene_example] else []) \<and> get_scene L2 1 = Some s'"
proof -
  obtain t where t: "new_ptr_hash_table True (\<lambda>i. True) = Some t" "ph_inv t" "nodes t = (\<lambda>k. [])" "chain_of t = Map.empty" by (rule example_table)
  let ?L = "(scenes_example scene_example)\<lparr>pHashTable := t\<rparr>" and ?l = "pstEventCondList (stOrCond scene_example)"
  let ?c = "(zero_event ''d1'' ''k'')\<lparr>e_acValue := ''1'', e_acTriggerType := ''InstantOnce'', acContinueTime := ''0'', acActive := ''Equ''\<rparr>"
  have L: "scenes_ok ?L" "ph_inv (pHashTable ?L)" "nodes (pHashTable ?L) (event_key ?c) = []" using scenes_example_ok [OF scene_example_ok] t by (simp_all add: scenes_ok_def)
  have l: "?l = empty_list 7 ''Or'' ''Event''" "acSceneEnable scene_example \<noteq> ''0''" by (simp_all add: scene_example_def)
  have m: "mem_ok (om_cond (en_mem env_example)) ?l (pHashTable ?L)" "iCount ?l \<noteq> 1024" "sets ?l = [] \<or> (\<exists>t \<in> set (sets ?l). ucCondCount t < 32)"
    unfolding l by (simp_all add: mem_ok_def env_example_def empty_list_def set_addrs_def cond_addrs_def t(4))
  have e: "scene_event_cond_is_true (en_rnd env_example) ?c \<lparr>ev_acDevId = ''d1'', ev_acKey = ''k'', ev_acValue = ''1''\<rparr> = Some True"
    by (simp add: scene_event_cond_is_true_def active_is_def strncmp_eq_0_lit len_defs zero_event_def is_digit_def)
  have x: "\<forall>q. en_db env_example q = NoErr" "length ''1'' < VALUE_MAX_LEN" "en_db env_example = (\<lambda>q. NoErr)" "om_queue (en_mem env_example) = (\<lambda>n. True)"
    by (simp_all add: env_example_def len_defs)
  from add_cond_then_report_executes [OF L(1,2) example_found l(2) cond_request_given [of "''AddCond''"] refl _ L(3) m(1,2) x(1) m(3) e x(2-4)] t(1)
  show ?thesis by (auto simp: scenes_example_def env_example_def)
qed

text \<open>A single event condition cannot be deleted by request: the handler does not read the key, so that the search is for
  the device with an empty key. Unless the scene has an index record for that, the answer is that the
  condition does not exist, and the scene list and the data base stay as they are, whatever conditions the
  scene has for the device.\<close>

theorem delete_event_cond_ignores_key:
  assumes "scenes_ok L" "scene_find (om_find (en_mem E)) i L = Some (a, s)" "given j ''Id'' INDEX_MAX_LEN i" "given j ''Logic'' LOGIC_MAX_LEN lg" "lg \<in> {''Or'', ''And''}"
    "given j ''CondType'' TYPE_MAX_LEN ''Event''" "given j ''DevId'' DEV_ID_MAX_LEN d" "d \<noteq> ''All''" "index_free (pHashTable L) (event_key (zero_event d [])) (acSceneId s)"
  shows "hyScene_Del_Cond E j L = Some (NotFoundErr, L, [])"
proof -
  have g: "get_scene L a = Some s" by (rule found_scene [OF assms(1,2)])
  have d: "strncmp d ''All'' DEV_ID_MAX_LEN \<noteq> 0" using assms(8) by (simp add: DEV_ID_MAX_LEN_def strncmp_eq_0_lit)
  have k: "e_acKey (zero_event d []) = []" by (simp add: zero_event_def)
  show ?thesis using assms(2-7,9) g d k
    by (auto simp: hyScene_Del_Cond_def del_cond_def given_texts type_is_lit logic_is_lit scene_event_or_cond_del_def scene_event_and_cond_del_def
        cond_remove_def index_free_def strncmp_eq_0_lit KEY_MAX_LEN_def)
qed

theorem delete_event_cond_ignores_key_witness:
  "\<exists>t. ptr_hash_find t (Some (event_key event_example)) (Some ''s1'') = Some (Some event_ptr) \<and> cond_at pstEventCondList event_ptr scene_example = Some event_example \<and>
     (let L = (scenes_example scene_example)\<lparr>pHashTable := t\<rparr> in hyScene_Del_Cond env_example (cond_request ''DelCond'') L = Some (NotFoundErr, L, []))"
proof -
  obtain t where t: "ph_inv t" "nodes t = (\<lambda>k. [])(event_key event_example := [event_ptr])" "ptr_hash_find t (Some (event_key event_example)) (Some ''s1'') = Some (Some event_ptr)"
    by (rule example_table_with [of "event_key event_example" event_ptr "''s1''"]) (simp_all add: key_fits_all event_ptr_def INDEX_MAX_LEN_def)
  let ?L = "(scenes_example scene_example)\<lparr>pHashTable := t\<rparr>"
  have L: "scenes_ok ?L" using scenes_example_ok [OF scene_example_ok] by (simp add: scenes_ok_def)
  have "event_key (zero_event ''d1'' []) \<noteq> event_key event_example"
    by (simp add: event_key_def zero_event_def event_example_def snprintf_def len_defs PRT_HASH_TYPE_COND_def)
  then have f: "index_free (pHashTable ?L) (event_key (zero_event ''d1'' [])) (acSceneId scene_example)" using empty_index_free t(1,2) by simp
  from delete_event_cond_ignores_key [OF L example_found cond_request_given(1,2) _ cond_request_given(3,4) _ f] t(3) event_ptr_cond show ?thesis by auto
qed

end
