(* ===== verification/Hy_Link.thy ===== *)
theory Hy_Link
  imports Scene_Protocol "HOL-Library.AList"
begin

text \<open>
  The gateway program around the scene engine: \<open>hylink/src/hylink\<close> (messages, devices, adapter of the engine), \<open>database\<close> (the table of
  devices), \<open>hytool\<close> (join mode and the two servers) and \<open>libhytool/tool/commonFunc.c\<close>. Clients on one port speak for the cloud,
  clients on another for the ZigBee coordinator; a frame from one side is passed on to the other and then handled here:
  reports go to the scene engine, devices are registered and removed in memory and in a table, scene requests are
  executed, and the join mode is started and ended.

  What goes out is recorded in the order in which it is sent. The callbacks that \<open>frameCb.c\<close> keeps in tables are registered once at the
  start and are resolved to the functions they name. The hash of \<open>khash.h\<close> is an association list; the order in which it is
  walked through is a parameter. The table of devices has its rows in the order of their numbers; a statement that
  cannot be prepared has no effect. \<open>None\<close> stands for undefined behaviour, also for a text that does not fit the buffer
  it is copied to.
\<close>

section \<open>Helpers\<close>

fun valuestring :: "json \<Rightarrow> string option" where
  "valuestring (JString s) = Some s"
| "valuestring _ = None"

definition findStrIndex :: "string option \<Rightarrow> string list \<Rightarrow> int" where
  "findStrIndex key arr = (case key of None \<Rightarrow> -1
     | Some k \<Rightarrow> (case List.find (\<lambda>i. strcmp (arr ! i) k = 0) [0..<length arr] of None \<Rightarrow> -1 | Some i \<Rightarrow> int i))"

text \<open>The text of a field, copied to a buffer of \<open>sz\<close> bytes with the contents \<open>old\<close>.\<close>

definition getStrForJson :: "nat \<Rightarrow> json \<Rightarrow> string \<Rightarrow> string \<Rightarrow> string option" where
  "getStrForJson sz j src old = (case cJSON_GetObjectItem j src of
     None \<Rightarrow> Some old
   | Some obj \<Rightarrow> do { s \<leftarrow> valuestring obj; if length s < sz then Some s else None })"

definition getByteForJson :: "json \<Rightarrow> string \<Rightarrow> u8 \<Rightarrow> u8 option" where
  "getByteForJson j src old = (case cJSON_GetObjectItem j src of
     None \<Rightarrow> Some old
   | Some obj \<Rightarrow> do { s \<leftarrow> valuestring obj; Some (of_int (atoi s)) })"

text \<open>\<open>lmax\<close> is the largest \<open>long\<close>. Outside its range the variable of the caller is not set.\<close>

definition strToNum :: "int \<Rightarrow> string \<Rightarrow> int option" where
  "strToNum lmax s = (if atoi s > lmax \<or> atoi s < - lmax - 1 then None else Some (atoi s))"

section \<open>Devices in memory\<close>

record HylinkDev =
  DeviceId :: string
  ModelId :: string
  online :: u8

type_synonym hylink_map = "(string \<times> HylinkDev) list"

definition hylinkListSize :: "hylink_map \<Rightarrow> nat" where
  "hylinkListSize devs = length devs"

definition hylinkListAdd :: "bool \<Rightarrow> HylinkDev \<Rightarrow> hylink_map \<Rightarrow> hylink_map" where
  "hylinkListAdd ok d devs = (if ok then AList.update (DeviceId d) d devs else devs)"

definition hylinkListGet :: "string \<Rightarrow> hylink_map \<Rightarrow> HylinkDev option" where
  "hylinkListGet key devs = map_of devs key"

text \<open>Deleting a key that is not there reads behind the arrays of the hash.\<close>

definition hylinkListDel :: "string \<Rightarrow> hylink_map \<Rightarrow> hylink_map option" where
  "hylinkListDel key devs = (if map_of devs key = None then None else Some (AList.delete key devs))"

definition hylinkListEmpty :: "hylink_map \<Rightarrow> hylink_map" where
  "hylinkListEmpty devs = []"

definition addDevToHyList :: "bool \<times> bool \<Rightarrow> string \<Rightarrow> string \<Rightarrow> hylink_map \<Rightarrow> hylink_map option" where
  "addDevToHyList mem devId modelId devs = (if \<not> fst mem \<or> 33 \<le> length devId \<or> 33 \<le> length modelId then None
     else Some (hylinkListAdd (snd mem) \<lparr>DeviceId = devId, ModelId = modelId, online = 0\<rparr> devs))"

section \<open>The table of devices\<close>

type_synonym dev_table = "(string \<times> string) list"

definition insertDatabse :: "bool \<Rightarrow> string \<Rightarrow> string \<Rightarrow> dev_table \<Rightarrow> dev_table" where
  "insertDatabse ok devId modelId t = (if ok then filter (\<lambda>(k, v). k \<noteq> devId) t @ [(devId, modelId)] else t)"

definition deleteDatabse :: "bool \<Rightarrow> string \<Rightarrow> dev_table \<Rightarrow> dev_table" where
  "deleteDatabse ok devId t = (if ok then filter (\<lambda>(k, v). k \<noteq> devId) t else t)"

text \<open>The second statement of the reset names the table without quotes and is never accepted.\<close>

definition databseReset :: "bool \<Rightarrow> dev_table \<Rightarrow> int \<times> dev_table" where
  "databseReset ok t = (0, if ok then [] else t)"

fun selectDatabse :: "(string \<Rightarrow> string \<Rightarrow> 'a \<Rightarrow> 'a option) \<Rightarrow> dev_table \<Rightarrow> 'a \<Rightarrow> 'a option" where
  "selectDatabse addFunc [] x = Some x"
| "selectDatabse addFunc ((devid, modelid) # rows) x = addFunc devid modelid x \<bind> selectDatabse addFunc rows"

section \<open>Sending\<close>

datatype gw_msg = Zigbee_Write string | Hylink_Write string | Led_Line bool | Led_Flip

text \<open>The buffer has 1024 bytes; a zero follows the frame.\<close>

definition hylinkDispatch :: "string \<Rightarrow> int \<Rightarrow> gw_msg option" where
  "hylinkDispatch str dir = (if 1024 < length str + 3 then None
     else let buf = CHR 0x02 # str @ [CHR 0x03] in Some (if dir = 1 then Zigbee_Write buf else Hylink_Write buf))"

record HylinkSendData =
  sd_DeviceId :: string
  sd_ModelId :: string
  sd_Key :: string
  sd_Value :: string
  sd_Online :: string

record HylinkSend =
  hs_Command :: int
  hs_Type :: string
  hs_Data :: "HylinkSendData list"

definition zero_data :: HylinkSendData where
  "zero_data = \<lparr>sd_DeviceId = [], sd_ModelId = [], sd_Key = [], sd_Value = [], sd_Online = []\<rparr>"

definition send_item :: "HylinkSendData \<Rightarrow> json" where
  "send_item d = text_obj (filter (\<lambda>(k, v). v \<noteq> [])
     [(''DeviceId'', sd_DeviceId d), (''ModelId'', sd_ModelId d), (''Key'', sd_Key d), (''Value'', sd_Value d), (''Online'', sd_Online d)])"

definition send_json :: "HylinkSend \<Rightarrow> json" where
  "send_json s = (if hs_Command s = 2 then text_obj [(''Command'', ''BeatHeartResponse'')]
     else cJSON_AddItemToObject ''Data'' (JArray (map send_item (hs_Data s)))
       (text_obj [(''Command'', if hs_Command s = 1 then ''Dispatch'' else ''Report''), (''FrameNumber'', ''00''), (''Type'', hs_Type s)]))"

definition hylinkSendFunc :: "(json \<Rightarrow> string) \<Rightarrow> HylinkSend \<Rightarrow> gw_msg option" where
  "hylinkSendFunc pr s = hylinkDispatch (pr (send_json s)) (hs_Command s)"

definition hylinkReportHeart :: "(json \<Rightarrow> string) \<Rightarrow> gw_msg option" where
  "hylinkReportHeart pr = hylinkSendFunc pr \<lparr>hs_Command = 2, hs_Type = [], hs_Data = []\<rparr>"

definition hylinkNetAccess :: "(json \<Rightarrow> string) \<Rightarrow> nat \<Rightarrow> gw_msg option" where
  "hylinkNetAccess pr sec = hylinkSendFunc pr \<lparr>hs_Command = 1, hs_Type = ''Add'',
     hs_Data = [\<lparr>sd_DeviceId = ''0000000000000000'', sd_ModelId = ''000000'', sd_Key = ''Time'', sd_Value = dec_nat sec, sd_Online = []\<rparr>]\<rparr>"

section \<open>Join mode\<close>

text \<open>The two timers: whether the one of the light exists; whether the one of the join mode exists, is armed, and how many seconds it has left.
  The light timer fires every second. \<open>tm\<close>: whether the timers can be created.\<close>

record join_timers =
  led_timer_id :: bool
  net_access_timer_id :: "nat option option"

definition led_timer_open :: "bool \<Rightarrow> join_timers \<Rightarrow> int \<times> join_timers" where
  "led_timer_open ok T = (if led_timer_id T then (-1, T) else (0, T\<lparr>led_timer_id := ok\<rparr>))"

definition led_timer_close :: "join_timers \<Rightarrow> join_timers" where
  "led_timer_close T = T\<lparr>led_timer_id := False\<rparr>"

definition net_timer_set :: "nat \<Rightarrow> join_timers \<Rightarrow> int \<times> join_timers" where
  "net_timer_set sec T = (case net_access_timer_id T of None \<Rightarrow> (-1, T)
     | Some _ \<Rightarrow> (0, T\<lparr>net_access_timer_id := Some (if sec = 0 then None else Some sec)\<rparr>))"

definition net_timer_close :: "(json \<Rightarrow> string) \<Rightarrow> join_timers \<Rightarrow> (join_timers \<times> gw_msg list) option" where
  "net_timer_close pr T = do { m \<leftarrow> hylinkNetAccess pr 0; Some (led_timer_close T, [m, Led_Line True]) }"

definition net_access_timer :: "(json \<Rightarrow> string) \<Rightarrow> bool \<times> bool \<Rightarrow> nat \<Rightarrow> join_timers \<Rightarrow> (int \<times> join_timers \<times> gw_msg list) option" where
  "net_access_timer pr tm sec T =
     (let T1 = (if net_access_timer_id T = None then T\<lparr>net_access_timer_id := (if snd tm then Some None else None)\<rparr> else T) in
      if sec \<noteq> 0 then
        let sec1 = (if sec < 120 then 120 else sec); T2 = snd (led_timer_open (fst tm) T1); (r, T3) = net_timer_set sec1 T2 in Some (r, T3, [])
      else do { (T2, ms) \<leftarrow> net_timer_close pr (snd (net_timer_set 0 T1)); Some (0, T2, ms) })"

text \<open>One second: the light flips while its timer runs, and the join mode ends when its time is over.\<close>

definition join_second :: "(json \<Rightarrow> string) \<Rightarrow> join_timers \<Rightarrow> (join_timers \<times> gw_msg list) option" where
  "join_second pr T =
     (let flip = (if led_timer_id T then [Led_Flip] else []) in
      case net_access_timer_id T of
        Some (Some (Suc 0)) \<Rightarrow> do { (T1, ms) \<leftarrow> net_timer_close pr (T\<lparr>net_access_timer_id := Some None\<rparr>); Some (T1, flip @ ms) }
      | Some (Some (Suc n)) \<Rightarrow> Some (T\<lparr>net_access_timer_id := Some (Some n)\<rparr>, flip)
      | _ \<Rightarrow> Some (T, flip))"

section \<open>The gateway\<close>

record gateway =
  gw_devs :: hylink_map
  gw_table :: dev_table
  gw_scene :: "scene_list option"
  gw_timers :: join_timers
  gw_sent :: "gw_msg list"
  gw_calls :: db_calls
  zigbee_connecting_num :: nat

text \<open>What the handling of one message takes from outside. Texts are parsed and printed twice: by the library of this program and by the one
  of the scene engine, which also checks a text first. For element \<open>i\<close> of a message: whether memory, the place in the hash and
  the SQL statement are there, and what a request to the scene engine takes.\<close>

record gw_env =
  ge_parse :: "string \<Rightarrow> json option"
  ge_print :: "json \<Rightarrow> string"
  ge_check :: "string \<Rightarrow> bool"
  ge_scene_text :: "(string \<Rightarrow> json option) \<times> (json \<Rightarrow> string)"
  ge_scene_mem :: "nat \<Rightarrow> bool \<times> bool"
  ge_event :: "nat \<Rightarrow> request_env"
  ge_request :: "nat \<Rightarrow> nat \<Rightarrow> request_env"
  ge_order :: "hylink_map \<Rightarrow> hylink_map"
  ge_long_max :: int
  ge_char_signed :: bool
  ge_dev_mem :: "nat \<Rightarrow> bool \<times> bool"
  ge_sql :: "nat \<Rightarrow> bool"
  ge_timer :: "bool \<times> bool"

definition gw_send :: "gw_msg list \<Rightarrow> gateway \<Rightarrow> gateway" where
  "gw_send ms g = g\<lparr>gw_sent := gw_sent g @ ms\<rparr>"

section \<open>The adapter of the scene engine\<close>

definition scene_adapter_report :: "gw_env \<Rightarrow> string \<Rightarrow> gateway \<Rightarrow> (status \<times> gateway) option" where
  "scene_adapter_report E inputBuff g = do {
     (r, G, calls) \<leftarrow> scene_event (ge_check E) (fst (ge_scene_text E)) (ge_event E) inputBuff (gw_scene g);
     Some (r, g\<lparr>gw_scene := G, gw_calls := gw_calls g @ calls\<rparr>)
   }"

definition scene_adapter_cmd :: "gw_env \<Rightarrow> nat \<Rightarrow> string \<Rightarrow> gateway \<Rightarrow> (status \<times> gateway) option" where
  "scene_adapter_cmd E i inputBuff g = (case ge_scene_mem E i of (m1, m2) \<Rightarrow> do {
     (r, G, calls, out) \<leftarrow> scene_query (ge_scene_text E) m1 m2 (ge_request E i) inputBuff False 0 (gw_scene g);
     Some (r, g\<lparr>gw_scene := G, gw_calls := gw_calls g @ calls\<rparr>)
   })"

definition scene_adapter_reset :: "(nat \<Rightarrow> request_env) \<Rightarrow> gateway \<Rightarrow> (status \<times> gateway) option" where
  "scene_adapter_reset Es g = do {
     (r, G, calls) \<leftarrow> scene_clean Es (gw_scene g);
     Some (r, g\<lparr>gw_scene := G, gw_calls := gw_calls g @ calls\<rparr>)
   }"

text \<open>What a command of the scene engine becomes. A scene is to be executed when the command is \<open>LocalScene\<close>.\<close>

definition hylink_scene_send :: "gw_env \<Rightarrow> string \<Rightarrow> gateway \<Rightarrow> (int \<times> gateway) option" where
  "hylink_scene_send E pCmd g = (case ge_parse E pCmd of
     None \<Rightarrow> Some (-1, g)
   | Some json_root \<Rightarrow> (case cJSON_GetObjectItem json_root ''Command'' of
       None \<Rightarrow> Some (-1, g)
     | Some c \<Rightarrow> do {
         cmd \<leftarrow> valuestring c;
         if strcmp cmd ''LocalScene'' = 0 then do { (r, g1) \<leftarrow> scene_adapter_cmd E 0 pCmd g; Some (0, g1) }
         else do { m \<leftarrow> hylinkDispatch pCmd 1; Some (0, gw_send [m] g) }
       }))"

text \<open>The command that an action of a scene sends, as a value; the bytes of a transparent command are sent as they are.\<close>

fun action_cmd_json :: "action_cmd \<Rightarrow> json option" where
  "action_cmd_json (Cmd_Exec_Scene sceneId en) = Some (cJSON_AddItemToObject ''Data''
     (JArray [text_obj ([(''Op'', ''ExecScene''), (''Id'', sceneId)] @ (case en of None \<Rightarrow> [] | Some v \<Rightarrow> [(''Enable'', v)]))])
     (text_obj [(''Command'', ''Dispatch''), (''FrameNumber'', ''00''), (''Type'', ''LocalScene'')]))"
| "action_cmd_json (Cmd_Custom_Data bs) = None"
| "action_cmd_json (Cmd_Multicast groupId ty key val) = Some (cJSON_AddItemToObject ''Data''
     (JArray [text_obj [(''GroupId'', groupId), (''Key'', key), (''Type'', ty), (''Value'', val)]])
     (text_obj [(''Command'', ''Dispatch''), (''FrameNumber'', ''00''), (''Type'', ''Multicast'')]))"
| "action_cmd_json (Cmd_Ctrl devId key val) = Some (sync_ctrl_dispatch devId key val)"

section \<open>Handling messages\<close>

definition hylink_recv_type :: "string list" where
  "hylink_recv_type = [''Add'', ''Register'', ''UnRegister'', ''OnOff'', ''Delete'', ''DevsInfo'', ''LocalScene'']"

text \<open>The text of \<open>%d\<close> for a \<open>char\<close>, which is signed or not.\<close>

definition char_text :: "bool \<Rightarrow> u8 \<Rightarrow> string" where
  "char_text is_signed b = dec_int (if is_signed then sint b else uint b)"

definition dev_data :: "bool \<Rightarrow> HylinkDev \<Rightarrow> HylinkSendData option" where
  "dev_data is_signed d = (if length (DeviceId d) < 24 \<and> length (ModelId d) < 24 \<and> length (char_text is_signed (online d)) < 4
     then Some (zero_data\<lparr>sd_DeviceId := DeviceId d, sd_ModelId := ModelId d, sd_Online := char_text is_signed (online d)\<rparr>) else None)"

text \<open>The number of devices is kept in one byte, and the array for them has that size.\<close>

definition devs_info :: "gw_env \<Rightarrow> bool \<Rightarrow> hylink_map \<Rightarrow> gw_msg option" where
  "devs_info E commandDir devs = (if hylinkListSize devs mod 256 < hylinkListSize devs then None
     else do {
       ds \<leftarrow> those (map (\<lambda>(k, d). dev_data (ge_char_signed E) d) (ge_order E devs));
       hylinkSendFunc (ge_print E) \<lparr>hs_Command = (if commandDir then 0 else 1), hs_Type = ''DevsInfo'', hs_Data = ds\<rparr>
     })"

text \<open>One element of a message of a type; the first component tells whether the loop goes on.\<close>

definition recv_item :: "gw_env \<Rightarrow> json \<Rightarrow> bool \<Rightarrow> string \<Rightarrow> nat \<Rightarrow> json \<Rightarrow> string \<Rightarrow> gateway \<Rightarrow> (bool \<times> gateway) option" where
  "recv_item E json_root commandDir type i j hyDevId g =
     (if type = ''Add'' then (case (cJSON_GetObjectItem j ''Key'', cJSON_GetObjectItem j ''Value'') of
        (Some key, Some val) \<Rightarrow>
          if commandDir then do {
            s \<leftarrow> valuestring val;
            num \<leftarrow> strToNum (ge_long_max E) s;
            (r, T, ms) \<leftarrow> net_access_timer (ge_print E) (ge_timer E) (nat (num mod 256)) (gw_timers g);
            Some (True, gw_send ms (g\<lparr>gw_timers := T\<rparr>))
          } else Some (True, g)
      | _ \<Rightarrow> Some (False, g))
      else if type = ''Register'' then do {
        hyModelId \<leftarrow> getStrForJson 33 j ''ModelId'' [];
        devs \<leftarrow> addDevToHyList (ge_dev_mem E i) hyDevId hyModelId (gw_devs g);
        Some (True, g\<lparr>gw_devs := devs, gw_table := insertDatabse (ge_sql E i) hyDevId hyModelId (gw_table g)\<rparr>)
      }
      else if type = ''OnOff'' then (case hylinkListGet hyDevId (gw_devs g) of
        None \<Rightarrow> Some (True, g)
      | Some hyDev \<Rightarrow> do {
          b \<leftarrow> getByteForJson j ''Value'' (online hyDev);
          Some (True, g\<lparr>gw_devs := AList.update hyDevId (hyDev\<lparr>online := b\<rparr>) (gw_devs g)\<rparr>)
        })
      else if type = ''UnRegister'' \<or> type = ''Delete'' then (case hylinkListGet hyDevId (gw_devs g) of
        None \<Rightarrow> Some (True, g)
      | Some hyDev \<Rightarrow> do {
          devs \<leftarrow> hylinkListDel hyDevId (gw_devs g);
          Some (True, g\<lparr>gw_devs := devs, gw_table := deleteDatabse (ge_sql E i) hyDevId (gw_table g)\<rparr>)
        })
      else if type = ''DevsInfo'' then do { m \<leftarrow> devs_info E commandDir (gw_devs g); Some (True, gw_send [m] g) }
      else if type = ''LocalScene'' then do { (r, g1) \<leftarrow> scene_adapter_cmd E i (ge_print E json_root) g; Some (True, g1) }
      else Some (True, g))"

text \<open>The buffer \<open>hyDevId\<close> keeps its contents from one element to the next.\<close>

fun recv_loop :: "gw_env \<Rightarrow> json \<Rightarrow> bool \<Rightarrow> string \<Rightarrow> nat \<Rightarrow> json list \<Rightarrow> string \<Rightarrow> gateway \<Rightarrow> (int \<times> gateway) option" where
  "recv_loop E json_root commandDir type i [] hyDevId g = Some (0, g)"
| "recv_loop E json_root commandDir type i (j # js) hyDevId g = do {
     d \<leftarrow> getStrForJson 33 j ''DeviceId'' hyDevId;
     (ok, g1) \<leftarrow> recv_item E json_root commandDir type i j d g;
     if ok then recv_loop E json_root commandDir type (Suc i) js d g1 else Some (-1, g1)
   }"

definition hylinkRecvJson :: "gw_env \<Rightarrow> string \<Rightarrow> gateway \<Rightarrow> (int \<times> gateway) option" where
  "hylinkRecvJson E data g = (case ge_parse E data of
     None \<Rightarrow> Some (-1, g)
   | Some json_root \<Rightarrow> (case cJSON_GetObjectItem json_root ''Command'' of
       None \<Rightarrow> Some (-1, g)
     | Some c \<Rightarrow> do {
         cmd \<leftarrow> valuestring c;
         if strcmp ''TcpBeatHeart'' cmd = 0 then do { m \<leftarrow> hylinkReportHeart (ge_print E); Some (0, gw_send [m] g) }
         else do {
           (r, g1) \<leftarrow> (if strcmp ''Report'' cmd = 0 then scene_adapter_report E (ge_print E json_root) g else Some (0, g));
           let commandDir = (strcmp ''Dispatch'' cmd = 0);
           case cJSON_GetObjectItem json_root ''Type'' of
             None \<Rightarrow> Some (-1, g1)
           | Some ty \<Rightarrow>
               let type = findStrIndex (valuestring ty) hylink_recv_type in
               if type = -1 then Some (-1, g1)
               else (case cJSON_GetObjectItem json_root ''Data'' of
                   None \<Rightarrow> Some (-1, g1)
                 | Some d \<Rightarrow> recv_loop E json_root commandDir (hylink_recv_type ! nat type) 0 (children d) [] g1)
         }
       }))"

text \<open>Each byte 2 in the data starts a frame, whose text reaches to the next zero. \<open>Es n\<close> is for the \<open>n\<close>th frame.\<close>

fun hylinkRecvManage :: "(nat \<Rightarrow> gw_env) \<Rightarrow> nat \<Rightarrow> string \<Rightarrow> int \<Rightarrow> gateway \<Rightarrow> (int \<times> gateway) option" where
  "hylinkRecvManage Es n [] ret g = Some (ret, g)"
| "hylinkRecvManage Es n (c # cs) ret g =
     (if c = CHR 0x02 then do {
        (r, g1) \<leftarrow> hylinkRecvJson (Es n) (takeWhile (\<lambda>c. c \<noteq> CHR 0x00) cs) g;
        hylinkRecvManage Es (Suc n) cs r g1
      } else hylinkRecvManage Es n cs ret g)"

section \<open>The two sides\<close>

definition hylink_recv :: "(nat \<Rightarrow> gw_env) \<Rightarrow> string \<Rightarrow> gateway \<Rightarrow> gateway option" where
  "hylink_recv Es data g = map_option snd (hylinkRecvManage Es 0 data 0 (gw_send [Zigbee_Write data] g))"

definition zigbee_recv :: "(nat \<Rightarrow> gw_env) \<Rightarrow> string \<Rightarrow> gateway \<Rightarrow> gateway option" where
  "zigbee_recv Es data g = map_option snd (hylinkRecvManage Es 0 data 0 (gw_send [Hylink_Write data] g))"

definition zigbee_connect :: "gateway \<Rightarrow> gateway" where
  "zigbee_connect g = (let g1 = g\<lparr>zigbee_connecting_num := Suc (zigbee_connecting_num g)\<rparr> in
     if zigbee_connecting_num g1 = 1 then gw_send [Led_Line True] g1 else g1)"

definition zigbee_disconnect :: "gateway \<Rightarrow> gateway" where
  "zigbee_disconnect g = (if zigbee_connecting_num g > 0 then
     let g1 = g\<lparr>zigbee_connecting_num := zigbee_connecting_num g - 1\<rparr> in
     if zigbee_connecting_num g1 = 0 then gw_send [Led_Line False] g1 else g1 else g)"

definition gw_second :: "(json \<Rightarrow> string) \<Rightarrow> gateway \<Rightarrow> gateway option" where
  "gw_second pr g = do { (T, ms) \<leftarrow> join_second pr (gw_timers g); Some (gw_send ms (g\<lparr>gw_timers := T\<rparr>)) }"

section \<open>Start, reset and end\<close>

text \<open>\<open>handler\<close> is the address of the function that reports executed scenes; \<open>start\<close> is the start of the engine (\<open>scene_init\<close>), with its
  status, the list of scenes and the statements sent.\<close>

definition scene_adapter_open :: "ptr \<Rightarrow> (scene_list option \<Rightarrow> (status \<times> scene_list option \<times> db_calls) option) \<Rightarrow>
    scene_list option \<Rightarrow> (status \<times> scene_list option \<times> db_calls) option" where
  "scene_adapter_open handler start G = (let (r, G1) = scene_report_register handler G in start G1)"

definition hylinkOpen :: "(nat \<Rightarrow> bool \<times> bool) \<Rightarrow> ptr \<Rightarrow> (scene_list option \<Rightarrow> (status \<times> scene_list option \<times> db_calls) option) \<Rightarrow>
    dev_table \<Rightarrow> gateway option" where
  "hylinkOpen mem handler start t = do {
     (n, devs) \<leftarrow> selectDatabse (\<lambda>d m (n, devs). map_option (Pair (Suc n)) (addDevToHyList (mem n) d m devs)) t (0, []);
     (r, G, calls) \<leftarrow> scene_adapter_open handler start None;
     Some \<lparr>gw_devs = devs, gw_table = t, gw_scene = G, gw_timers = \<lparr>led_timer_id = False, net_access_timer_id = None\<rparr>,
       gw_sent = [], gw_calls = calls, zigbee_connecting_num = 0\<rparr>
   }"

definition hylinkClose :: "(db_stmt \<Rightarrow> status) \<Rightarrow> gateway \<Rightarrow> (int \<times> gateway) option" where
  "hylinkClose db g = do {
     (r, calls) \<leftarrow> scene_destroy db (gw_scene g);
     Some (0, g\<lparr>gw_devs := hylinkListEmpty (gw_devs g), gw_calls := gw_calls g @ calls\<rparr>)
   }"

text \<open>The timers are deleted and no longer fire. The program ends or the machine starts again after this.\<close>

definition hytoolClose :: "gateway \<Rightarrow> gateway" where
  "hytoolClose g = g\<lparr>gw_timers := \<lparr>led_timer_id = False, net_access_timer_id = None\<rparr>\<rparr>"

definition mainClose :: "(db_stmt \<Rightarrow> status) \<Rightarrow> gateway \<Rightarrow> (int \<times> gateway) option" where
  "mainClose db g = hylinkClose db (hytoolClose g)"

text \<open>The reset tells both sides, deletes scenes and devices, closes the program and starts the machine again.\<close>

definition systemReset :: "(json \<Rightarrow> string) \<Rightarrow> (nat \<Rightarrow> request_env) \<Rightarrow> bool \<Rightarrow> (db_stmt \<Rightarrow> status) \<Rightarrow> gateway \<Rightarrow> gateway option" where
  "systemReset pr Es ok db g = do {
     m1 \<leftarrow> hylinkSendFunc pr \<lparr>hs_Command = 0, hs_Type = ''ReFactory'', hs_Data = []\<rparr>;
     m2 \<leftarrow> hylinkSendFunc pr \<lparr>hs_Command = 1, hs_Type = ''ReFactory'', hs_Data = []\<rparr>;
     (r, g1) \<leftarrow> scene_adapter_reset Es (gw_send [m1, m2] g);
     (r2, g2) \<leftarrow> mainClose db (g1\<lparr>gw_table := snd (databseReset ok (gw_table g1))\<rparr>);
     Some g2
   }"

section \<open>Devices in memory and in the table\<close>

definition dev_models :: "hylink_map \<Rightarrow> string \<Rightarrow> string option" where
  "dev_models devs d = map_option ModelId (map_of devs d)"

definition row_fits :: "string \<times> string \<Rightarrow> bool" where
  "row_fits r \<longleftrightarrow> length (fst r) < 33 \<and> length (snd r) < 33"

definition registry_ok :: "hylink_map \<Rightarrow> dev_table \<Rightarrow> bool" where
  "registry_ok devs t \<longleftrightarrow> dev_models devs = map_of t \<and> distinct (map fst devs) \<and> distinct (map fst t) \<and> list_all row_fits t"

text \<open>Memory and the data base of the devices work.\<close>

definition healthy :: "gw_env \<Rightarrow> bool" where
  "healthy E \<longleftrightarrow> (\<forall>i. ge_dev_mem E i = (True, True) \<and> ge_sql E i)"

lemma dev_models_update [simp]: "dev_models (AList.update k d devs) = (dev_models devs)(k \<mapsto> ModelId d)"
  by (auto simp: dev_models_def update_conv)

lemma dev_models_Nil [simp]: "dev_models [] = Map.empty"
  by (simp add: dev_models_def fun_eq_iff)

lemma dev_models_delete [simp]: "dev_models (AList.delete k devs) = (dev_models devs)(k := None)"
  by (auto simp: dev_models_def delete_conv)

lemma map_of_without: "map_of (filter (\<lambda>(k, v). k \<noteq> d) t) = (map_of t)(d := None)"
  by (induction t) auto

lemma distinct_without: "distinct (map fst t) \<Longrightarrow> distinct (map fst (filter P t))"
  by (induction t) auto

lemma table_insert:
  assumes "distinct (map fst t)" "list_all row_fits t" "row_fits (d, m)"
  shows "map_of (insertDatabse True d m t) = (map_of t)(d \<mapsto> m)" "distinct (map fst (insertDatabse True d m t))" "list_all row_fits (insertDatabse True d m t)"
  using assms by (auto simp: insertDatabse_def map_of_without distinct_without list_all_iff map_add_def fun_eq_iff split: option.splits)

lemma table_delete:
  assumes "distinct (map fst t)" "list_all row_fits t"
  shows "map_of (deleteDatabse True d t) = (map_of t)(d := None)" "distinct (map fst (deleteDatabse True d t))" "list_all row_fits (deleteDatabse True d t)"
  using assms by (auto simp: deleteDatabse_def map_of_without distinct_without list_all_iff)

lemma register_ok:
  assumes "registry_ok devs t" "addDevToHyList (True, True) d m devs = Some devs'"
  shows "registry_ok devs' (insertDatabse True d m t)"
proof -
  have f: "row_fits (d, m)" "devs' = AList.update d \<lparr>DeviceId = d, ModelId = m, online = 0\<rparr> devs"
    using assms(2) by (auto simp: addDevToHyList_def row_fits_def hylinkListAdd_def split: if_splits)
  from assms(1) have t: "distinct (map fst t)" "list_all row_fits t" by (simp_all add: registry_ok_def)
  show ?thesis using assms(1) table_insert [OF t f(1)] unfolding registry_ok_def f(2) by (simp add: distinct_update)
qed

lemma unregister_ok: "registry_ok devs t \<Longrightarrow> hylinkListDel d devs = Some devs' \<Longrightarrow> registry_ok devs' (deleteDatabse True d t)"
  by (auto simp: registry_ok_def table_delete hylinkListDel_def distinct_delete split: if_splits)

lemma onoff_ok:
  assumes "registry_ok devs t" "map_of devs d = Some dev"
  shows "registry_ok (AList.update d (dev\<lparr>online := b\<rparr>) devs) t"
proof -
  have "(dev_models devs)(d \<mapsto> ModelId dev) = dev_models devs" using assms(2) by (auto simp: dev_models_def)
  then show ?thesis using assms(1) by (simp add: registry_ok_def distinct_update)
qed

text \<open>The engine, the timers and what is sent do not touch the devices.\<close>

definition same_registry :: "gateway \<Rightarrow> gateway \<Rightarrow> bool" where
  "same_registry g g' \<longleftrightarrow> gw_devs g' = gw_devs g \<and> gw_table g' = gw_table g"

lemma same_registry_send [simp]: "gw_devs (gw_send ms g) = gw_devs g" "gw_table (gw_send ms g) = gw_table g"
  by (simp_all add: gw_send_def)

lemma adapter_registry:
  "scene_adapter_cmd E i txt g = Some (r, g') \<Longrightarrow> same_registry g g'"
  "scene_adapter_report E txt g = Some (r, g') \<Longrightarrow> same_registry g g'"
  by (auto simp: scene_adapter_cmd_def scene_adapter_report_def same_registry_def split: prod.splits Option.bind_splits)

text \<open>One element of each type.\<close>

lemma recv_item_types:
  "recv_item E rt dir ''Register'' i j d g = do {
     m \<leftarrow> getStrForJson 33 j ''ModelId'' [];
     devs \<leftarrow> addDevToHyList (ge_dev_mem E i) d m (gw_devs g);
     Some (True, g\<lparr>gw_devs := devs, gw_table := insertDatabse (ge_sql E i) d m (gw_table g)\<rparr>) }"
  "recv_item E rt dir ''OnOff'' i j d g = (case hylinkListGet d (gw_devs g) of None \<Rightarrow> Some (True, g)
     | Some dev \<Rightarrow> do { b \<leftarrow> getByteForJson j ''Value'' (online dev); Some (True, g\<lparr>gw_devs := AList.update d (dev\<lparr>online := b\<rparr>) (gw_devs g)\<rparr>) })"
  "type = ''UnRegister'' \<or> type = ''Delete'' \<Longrightarrow> recv_item E rt dir type i j d g = (case hylinkListGet d (gw_devs g) of None \<Rightarrow> Some (True, g)
     | Some dev \<Rightarrow> do { devs \<leftarrow> hylinkListDel d (gw_devs g);
         Some (True, g\<lparr>gw_devs := devs, gw_table := deleteDatabse (ge_sql E i) d (gw_table g)\<rparr>) })"
  "recv_item E rt dir ''DevsInfo'' i j d g = do { m \<leftarrow> devs_info E dir (gw_devs g); Some (True, gw_send [m] g) }"
  "recv_item E rt dir ''LocalScene'' i j d g = do { (r, g1) \<leftarrow> scene_adapter_cmd E i (ge_print E rt) g; Some (True, g1) }"
  by (auto simp: recv_item_def)

lemma recv_add_same: "recv_item E rt dir ''Add'' i j d g = Some (b, g') \<Longrightarrow> same_registry g g'"
  by (auto simp: recv_item_def same_registry_def split: option.splits if_splits Option.bind_splits)

lemma recv_item_ok:
  assumes "healthy E" "registry_ok (gw_devs g) (gw_table g)" "recv_item E rt dir type i j d g = Some (b, g')"
  shows "registry_ok (gw_devs g') (gw_table g')"
proof -
  have h: "ge_dev_mem E i = (True, True)" "ge_sql E i" using assms(1) by (simp_all add: healthy_def)
  consider "type = ''Add''" | "type = ''Register''" | "type = ''OnOff''" | "type = ''UnRegister'' \<or> type = ''Delete''" | "type = ''DevsInfo''" | "type = ''LocalScene''"
    | "type \<noteq> ''Add''" "type \<noteq> ''Register''" "type \<noteq> ''OnOff''" "type \<noteq> ''UnRegister''" "type \<noteq> ''Delete''" "type \<noteq> ''DevsInfo''" "type \<noteq> ''LocalScene''"
    by satx
  then show ?thesis
  proof cases
    case 1
    then have "same_registry g g'" using recv_add_same assms(3) by blast
    then show ?thesis using assms(2) by (simp add: same_registry_def)
  next
    case 2
    with assms(3) h obtain m devs where "addDevToHyList (True, True) d m (gw_devs g) = Some devs"
      "g' = g\<lparr>gw_devs := devs, gw_table := insertDatabse True d m (gw_table g)\<rparr>" by (auto simp: recv_item_types split: Option.bind_splits)
    then show ?thesis using register_ok [OF assms(2)] by simp
  next
    case 3
    then show ?thesis using assms(2,3) onoff_ok [OF assms(2)] by (auto simp: recv_item_types hylinkListGet_def split: option.splits Option.bind_splits)
  next
    case 4
    then show ?thesis using assms(2,3) h unregister_ok [OF assms(2)] unfolding recv_item_types(3) [OF 4] by (auto split: option.splits Option.bind_splits)
  next
    case 5
    then show ?thesis using assms(2,3) by (auto simp: recv_item_types split: Option.bind_splits)
  next
    case 6
    then show ?thesis using assms(2,3) adapter_registry(1) by (auto simp: recv_item_types same_registry_def split: Option.bind_splits)
  next
    case 7
    then show ?thesis using assms(2,3) unfolding recv_item_def by simp
  qed
qed

lemma recv_loop_ok:
  "healthy E \<Longrightarrow> registry_ok (gw_devs g) (gw_table g) \<Longrightarrow> recv_loop E rt dir type i js d g = Some (r, g') \<Longrightarrow> registry_ok (gw_devs g') (gw_table g')"
proof (induction js arbitrary: i d g)
  case (Cons j js)
  from Cons.prems(3) obtain x ok g1 where g1: "recv_item E rt dir type i j x g = Some (ok, g1)"
    "(if ok then recv_loop E rt dir type (Suc i) js x g1 else Some (-1, g1)) = Some (r, g')" by (auto split: Option.bind_splits)
  note ok1 = recv_item_ok [OF Cons.prems(1,2) g1(1)]
  from g1(2) show ?case using Cons.IH [OF Cons.prems(1) ok1] ok1 by (auto split: if_splits)
qed simp

definition recv_body :: "gw_env \<Rightarrow> json \<Rightarrow> bool \<Rightarrow> gateway \<Rightarrow> (int \<times> gateway) option" where
  "recv_body E rt commandDir g1 = (case cJSON_GetObjectItem rt ''Type'' of
     None \<Rightarrow> Some (-1, g1)
   | Some ty \<Rightarrow>
       let type = findStrIndex (valuestring ty) hylink_recv_type in
       if type = -1 then Some (-1, g1)
       else (case cJSON_GetObjectItem rt ''Data'' of
           None \<Rightarrow> Some (-1, g1)
         | Some d \<Rightarrow> recv_loop E rt commandDir (hylink_recv_type ! nat type) 0 (children d) [] g1))"

lemma hylinkRecvJson_body:
  "ge_parse E data = Some rt \<Longrightarrow> cJSON_GetObjectItem rt ''Command'' = Some (JString cmd) \<Longrightarrow>
   hylinkRecvJson E data g =
     (if cmd = ''TcpBeatHeart'' then do { m \<leftarrow> hylinkReportHeart (ge_print E); Some (0, gw_send [m] g) }
      else do { (r, g1) \<leftarrow> (if cmd = ''Report'' then scene_adapter_report E (ge_print E rt) g else Some (0, g)); recv_body E rt (cmd = ''Dispatch'') g1 })"
  by (simp add: hylinkRecvJson_def recv_body_def Let_def eq_commute [of _ cmd])

lemma hylinkRecvJson_cases:
  assumes "hylinkRecvJson E data g = Some (r, g')"
  obtains "g' = g" | rt cmd where "ge_parse E data = Some rt" "cJSON_GetObjectItem rt ''Command'' = Some (JString cmd)"
proof (cases "ge_parse E data")
  case (Some rt)
  show thesis
  proof (cases "cJSON_GetObjectItem rt ''Command''")
    case (Some c)
    then show thesis using \<open>ge_parse E data = Some rt\<close> assms that(2) by (cases c) (auto simp: hylinkRecvJson_def)
  qed (use Some assms that(1) in \<open>auto simp: hylinkRecvJson_def\<close>)
qed (use assms that(1) in \<open>auto simp: hylinkRecvJson_def\<close>)

lemma recv_body_ok:
  "healthy E \<Longrightarrow> registry_ok (gw_devs g) (gw_table g) \<Longrightarrow> recv_body E rt dir g = Some (r, g') \<Longrightarrow> registry_ok (gw_devs g') (gw_table g')"
  unfolding recv_body_def Let_def by (auto split: option.splits if_splits dest: recv_loop_ok)

lemma hylinkRecvJson_ok:
  assumes "healthy E" "registry_ok (gw_devs g) (gw_table g)" "hylinkRecvJson E data g = Some (r, g')"
  shows "registry_ok (gw_devs g') (gw_table g')"
  using assms(3)
proof (cases rule: hylinkRecvJson_cases)
  case (2 rt cmd)
  have rep: "registry_ok (gw_devs g1) (gw_table g1)"
    if "(if cmd = ''Report'' then scene_adapter_report E (ge_print E rt) g else Some (0, g)) = Some (x, g1)" for x g1
    using that assms(2) adapter_registry(2) by (auto simp: same_registry_def split: if_splits)
  show ?thesis
  proof (cases "cmd = ''TcpBeatHeart''")
    case True
    then show ?thesis using assms(2,3) unfolding hylinkRecvJson_body [OF 2] by (auto split: Option.bind_splits)
  next
    case False
    with assms(3) obtain x g1 where "(if cmd = ''Report'' then scene_adapter_report E (ge_print E rt) g else Some (0, g)) = Some (x, g1)"
      "recv_body E rt (cmd = ''Dispatch'') g1 = Some (r, g')"
      unfolding hylinkRecvJson_body [OF 2] by (auto split: Option.bind_splits)
    with rep recv_body_ok [OF assms(1)] show ?thesis by blast
  qed
qed (simp add: assms(2))

lemma hylinkRecvManage_ok:
  "\<forall>n. healthy (Es n) \<Longrightarrow> registry_ok (gw_devs g) (gw_table g) \<Longrightarrow> hylinkRecvManage Es n data ret g = Some (r, g') \<Longrightarrow> registry_ok (gw_devs g') (gw_table g')"
proof (induction data arbitrary: n ret g)
  case (Cons c cs)
  show ?case
  proof (cases "c = CHR 0x02")
    case True
    with Cons.prems(3) obtain x g1 where g1: "hylinkRecvJson (Es n) (takeWhile (\<lambda>c. c \<noteq> CHR 0x00) cs) g = Some (x, g1)"
      "hylinkRecvManage Es (Suc n) cs x g1 = Some (r, g')" by (auto split: Option.bind_splits)
    have "healthy (Es n)" using Cons.prems(1) by blast
    from Cons.IH [OF Cons.prems(1) hylinkRecvJson_ok [OF this Cons.prems(2) g1(1)] g1(2)] show ?thesis .
  next
    case False
    then show ?thesis using Cons by simp
  qed
qed simp

text \<open>What can happen to the gateway, in any order: data from either side, coordinators that come and go, a second passes.\<close>

inductive gw_step :: "gateway \<Rightarrow> gateway \<Rightarrow> bool" where
  cloud: "\<forall>n. healthy (Es n) \<Longrightarrow> hylink_recv Es data g = Some g' \<Longrightarrow> gw_step g g'"
| coordinator: "\<forall>n. healthy (Es n) \<Longrightarrow> zigbee_recv Es data g = Some g' \<Longrightarrow> gw_step g g'"
| connect: "gw_step g (zigbee_connect g)"
| disconnect: "gw_step g (zigbee_disconnect g)"
| second: "gw_second pr g = Some g' \<Longrightarrow> gw_step g g'"

lemma gw_step_ok: "gw_step g g' \<Longrightarrow> registry_ok (gw_devs g) (gw_table g) \<Longrightarrow> registry_ok (gw_devs g') (gw_table g')"
proof (induction rule: gw_step.induct)
  case (cloud Es data g g')
  then show ?case using hylinkRecvManage_ok [OF cloud(1), of "gw_send [Zigbee_Write data] g"] by (auto simp: hylink_recv_def)
next
  case (coordinator Es data g g')
  then show ?case using hylinkRecvManage_ok [OF coordinator(1), of "gw_send [Hylink_Write data] g"] by (auto simp: zigbee_recv_def)
qed (auto simp: zigbee_connect_def zigbee_disconnect_def gw_second_def Let_def split: Option.bind_splits)

text \<open>Loading the devices at the start.\<close>

lemma update_new: "k \<notin> fst ` set xs \<Longrightarrow> AList.update k v xs = xs @ [(k, v)]"
  by (induction xs) auto

lemma load_devices:
  assumes "\<forall>n. mem n = (True, True)" "distinct (map fst t)" "list_all row_fits t" "fst ` set t \<inter> fst ` set devs = {}" "distinct (map fst devs)"
  shows "\<exists>n' devs'. selectDatabse (\<lambda>d m (n, devs). map_option (Pair (Suc n)) (addDevToHyList (mem n) d m devs)) t (n, devs) = Some (n', devs') \<and>
    dev_models devs' = dev_models devs ++ map_of t \<and> distinct (map fst devs') \<and> (\<forall>x \<in> set devs'. x \<in> set devs \<or> online (snd x) = 0)"
  using assms(2-5)
proof (induction t arbitrary: n devs)
  case (Cons r t)
  obtain d m where r: "r = (d, m)" by (cases r)
  let ?devs = "AList.update d \<lparr>DeviceId = d, ModelId = m, online = 0\<rparr> devs"
  have a: "addDevToHyList (mem n) d m devs = Some ?devs" using assms(1) Cons.prems(2) by (simp add: addDevToHyList_def hylinkListAdd_def row_fits_def r)
  have new: "d \<notin> fst ` set devs" using Cons.prems(3) by (auto simp: r)
  have "fst ` set t \<inter> fst ` set ?devs = {}" "distinct (map fst ?devs)"
    using Cons.prems by (auto simp: r dom_update distinct_update)
  moreover have "distinct (map fst t)" "list_all row_fits t" using Cons.prems(1,2) by simp_all
  ultimately obtain n' devs' where
    I: "selectDatabse (\<lambda>d m (n, devs). map_option (Pair (Suc n)) (addDevToHyList (mem n) d m devs)) t (Suc n, ?devs) = Some (n', devs')"
      "dev_models devs' = dev_models ?devs ++ map_of t" "distinct (map fst devs')" "\<forall>x \<in> set devs'. x \<in> set ?devs \<or> online (snd x) = 0"
    using Cons.IH by blast
  have "x \<in> set devs \<or> online (snd x) = 0" if "x \<in> set ?devs" for x using that update_new [OF new] by auto
  moreover have "dev_models ?devs ++ map_of t = dev_models devs ++ map_of (r # t)"
    using Cons.prems(1) map_of_eq_None_iff [of t d] by (auto simp: r map_add_def fun_eq_iff split: option.splits)
  moreover have "selectDatabse (\<lambda>d m (n, devs). map_option (Pair (Suc n)) (addDevToHyList (mem n) d m devs)) (r # t) (n, devs) = Some (n', devs')"
    using I(1) a by (simp add: r)
  ultimately show ?case using I(2-4) by metis
qed (auto simp: map_add_def)

text \<open>C6. The devices survive a restart. After the start with any table of devices, whatever arrives from both sides, in any
  order, with working memory and data base: the devices in memory are those of the table, with their models, and
  starting again with that table gives the same devices, each of them off line until it reports.\<close>

theorem devices_survive_restart:
  assumes "hylinkOpen mem handler start t = Some g0" "\<forall>n. mem n = (True, True)" "distinct (map fst t)" "list_all row_fits t" "gw_step\<^sup>*\<^sup>* g0 g"
    "start' None = Some (r, G, calls)"
  shows "dev_models (gw_devs g) = map_of (gw_table g) \<and>
    (\<exists>g'. hylinkOpen mem handler start' (gw_table g) = Some g' \<and> dev_models (gw_devs g') = dev_models (gw_devs g) \<and> gw_table g' = gw_table g \<and>
      (\<forall>x \<in> set (gw_devs g'). online (snd x) = 0))"
proof -
  let ?sel = "\<lambda>t. selectDatabse (\<lambda>d m (n, devs). map_option (Pair (Suc n)) (addDevToHyList (mem n) d m devs)) t (0, [])"
  have load: "\<exists>n devs. ?sel t = Some (n, devs) \<and> dev_models devs = map_of t \<and> distinct (map fst devs) \<and> (\<forall>x \<in> set devs. online (snd x) = 0)"
    if "distinct (map fst t)" "list_all row_fits t" for t
    using load_devices [OF assms(2) that, of "[]" 0] by simp
  have "registry_ok (gw_devs g0) (gw_table g0)"
    using assms(1,3,4) load [OF assms(3,4)] by (auto simp: hylinkOpen_def registry_ok_def split: Option.bind_splits)
  with assms(5) have ok: "registry_ok (gw_devs g) (gw_table g)" by (induction rule: rtranclp_induct) (auto simp: gw_step_ok)
  then obtain n devs where L: "?sel (gw_table g) = Some (n, devs)" "dev_models devs = map_of (gw_table g)" "\<forall>x \<in> set devs. online (snd x) = 0"
    using load [of "gw_table g"] unfolding registry_ok_def by blast
  have "scene_adapter_open handler start' None = Some (r, G, calls)"
    using assms(6) by (simp add: scene_adapter_open_def scene_report_register_def)
  with L ok show ?thesis by (simp add: hylinkOpen_def registry_ok_def)
qed

definition gw_env_example :: "json \<Rightarrow> gw_env" where
  "gw_env_example j = \<lparr>ge_parse = (\<lambda>s. Some j), ge_print = (\<lambda>j. ''{}''), ge_check = (\<lambda>s. True), ge_scene_text = (\<lambda>s. Some j, \<lambda>j. ''{}''),
     ge_scene_mem = (\<lambda>i. (True, True)), ge_event = (\<lambda>i. env_example), ge_request = (\<lambda>i k. env_example), ge_order = id, ge_long_max = 2147483647,
     ge_char_signed = False, ge_dev_mem = (\<lambda>i. (True, True)), ge_sql = (\<lambda>i. True), ge_timer = (True, True)\<rparr>"

definition register_example :: json where
  "register_example = JObject [(''Command'', JString ''Report''), (''Type'', JString ''Register''),
     (''Data'', JArray [JObject [(''DeviceId'', JString ''d1''), (''ModelId'', JString ''m1'')]])]"

definition gw_example :: gateway where
  "gw_example = \<lparr>gw_devs = [], gw_table = [], gw_scene = None, gw_timers = \<lparr>led_timer_id = False, net_access_timer_id = None\<rparr>,
     gw_sent = [], gw_calls = [], zigbee_connecting_num = 0\<rparr>"

lemma type_index: "findStrIndex (Some ''Register'') hylink_recv_type = 1" "findStrIndex (Some ''LocalScene'') hylink_recv_type = 6"
    "findStrIndex (Some ''Attribute'') hylink_recv_type = -1"
  by (simp_all add: findStrIndex_def hylink_recv_type_def upt_rec numeral_eq_Suc)

lemma register_step:
  "zigbee_recv (\<lambda>n. gw_env_example register_example) [CHR 0x02] gw_example =
     Some (gw_example\<lparr>gw_devs := [(''d1'', \<lparr>DeviceId = ''d1'', ModelId = ''m1'', online = 0\<rparr>)], gw_table := [(''d1'', ''m1'')], gw_sent := [Hylink_Write [CHR 0x02]]\<rparr>)"
proof -
  let ?E = "gw_env_example register_example" and ?g = "gw_send [Hylink_Write [CHR 0x02]] gw_example"
  have p: "ge_parse ?E [] = Some register_example" "cJSON_GetObjectItem register_example ''Command'' = Some (JString ''Report'')"
    by (simp_all add: gw_env_example_def register_example_def)
  have r: "scene_adapter_report ?E s ?g = Some (GeneralErr, ?g)" for s
    by (simp add: scene_adapter_report_def scene_event_def gw_example_def gw_send_def)
  have t: "hylink_recv_type ! Suc 0 = ''Register''" by (simp add: hylink_recv_type_def)
  have "recv_body ?E register_example False ?g = Some (0, gw_example\<lparr>gw_devs := [(''d1'', \<lparr>DeviceId = ''d1'', ModelId = ''m1'', online = 0\<rparr>)],
      gw_table := [(''d1'', ''m1'')], gw_sent := [Hylink_Write [CHR 0x02]]\<rparr>)"
    by (simp add: recv_body_def register_example_def to_lower_def type_index t recv_item_types getStrForJson_def addDevToHyList_def hylinkListAdd_def insertDatabse_def gw_env_example_def
        gw_example_def gw_send_def)
  with r show ?thesis by (simp add: zigbee_recv_def hylinkRecvJson_body [OF p])
qed

theorem devices_survive_restart_witness:
  "\<exists>g0 g g'. hylinkOpen (\<lambda>n. (True, True)) 7 (\<lambda>G. Some (NoErr, None, [])) [] = Some g0 \<and> gw_step\<^sup>*\<^sup>* g0 g \<and> gw_table g = [(''d1'', ''m1'')] \<and>
     hylinkOpen (\<lambda>n. (True, True)) 7 (\<lambda>G. Some (NoErr, None, [])) (gw_table g) = Some g' \<and> dev_models (gw_devs g') ''d1'' = Some ''m1''"
proof -
  let ?g = "gw_example\<lparr>gw_devs := [(''d1'', \<lparr>DeviceId = ''d1'', ModelId = ''m1'', online = 0\<rparr>)], gw_table := [(''d1'', ''m1'')], gw_sent := [Hylink_Write [CHR 0x02]]\<rparr>"
  have o: "hylinkOpen (\<lambda>n. (True, True)) 7 (\<lambda>G. Some (NoErr, None, [])) [] = Some gw_example"
    by (simp add: hylinkOpen_def gw_example_def scene_adapter_open_def scene_report_register_def)
  have "\<forall>n :: nat. healthy (gw_env_example register_example)" by (simp add: healthy_def gw_env_example_def)
  then have s: "gw_step\<^sup>*\<^sup>* gw_example ?g" using gw_step.coordinator [OF _ register_step] by blast
  from devices_survive_restart [OF o _ _ _ s, of "\<lambda>G. Some (NoErr, None, [])"] o s show ?thesis by auto
qed

section \<open>The join mode ends\<close>

fun join_seconds :: "(json \<Rightarrow> string) \<Rightarrow> nat \<Rightarrow> join_timers \<Rightarrow> (join_timers \<times> gw_msg list) option" where
  "join_seconds pr 0 T = Some (T, [])"
| "join_seconds pr (Suc n) T = do { (T1, ms) \<leftarrow> join_second pr T; (T2, ms2) \<leftarrow> join_seconds pr n T1; Some (T2, ms @ ms2) }"

definition flips :: "nat \<Rightarrow> join_timers \<Rightarrow> gw_msg list" where
  "flips n T = (if led_timer_id T then replicate n Led_Flip else [])"

lemma join_wait: "k < n \<Longrightarrow> net_access_timer_id T = Some (Some n) \<Longrightarrow> join_seconds pr k T = Some (T\<lparr>net_access_timer_id := Some (Some (n - k))\<rparr>, flips k T)"
proof (induction k arbitrary: T n)
  case (Suc k)
  obtain m where m: "n = Suc (Suc m)" using Suc.prems(1) by (cases n; cases "n - 1") auto
  have "join_second pr T = Some (T\<lparr>net_access_timer_id := Some (Some (Suc m))\<rparr>, flips 1 T)"
    using Suc.prems(2) by (simp add: join_second_def flips_def m)
  then show ?case using Suc.IH [of "Suc m" "T\<lparr>net_access_timer_id := Some (Some (Suc m))\<rparr>"] Suc.prems(1) by (simp add: m flips_def)
qed (cases T; simp add: flips_def)

lemma join_over:
  assumes "net_access_timer_id T = Some (Some n)" "0 < n" "hylinkNetAccess pr 0 = Some m"
  shows "join_seconds pr n T = Some (T\<lparr>led_timer_id := False, net_access_timer_id := Some None\<rparr>, flips n T @ [m, Led_Line True])"
  using assms
proof (induction n arbitrary: T)
  case (Suc k)
  show ?case
  proof (cases "k = 0")
    case True
    then show ?thesis using Suc.prems by (simp add: join_second_def net_timer_close_def led_timer_close_def flips_def)
  next
    case False
    then have "join_second pr T = Some (T\<lparr>net_access_timer_id := Some (Some k)\<rparr>, flips 1 T)"
      using Suc.prems(1) by (cases k) (simp_all add: join_second_def flips_def)
    then show ?thesis using Suc.IH [of "T\<lparr>net_access_timer_id := Some (Some k)\<rparr>"] Suc.prems(3) False by (simp add: flips_def)
  qed
qed simp

lemma led_timer_open_net [simp]: "net_access_timer_id (snd (led_timer_open ok T)) = net_access_timer_id T"
  by (simp add: led_timer_open_def)

lemma net_timer_set_armed: "net_access_timer_id T \<noteq> None \<Longrightarrow> 0 < sec \<Longrightarrow> net_timer_set sec T = (0, T\<lparr>net_access_timer_id := Some (Some sec)\<rparr>)"
  by (auto simp: net_timer_set_def)

text \<open>C8. The join mode ends by itself. A request for \<open>sec\<close> seconds, of which at least 120 are granted, sends nothing at first; the mode lasts
  exactly that long, and then the coordinator is told to close the network and the light to shine, and the light
  timer is gone. A request for 0 seconds ends it at once.\<close>

theorem join_mode_ends:
  assumes "net_access_timer_id T \<noteq> None \<or> snd tm" "hylinkNetAccess pr 0 = Some m"
  shows "\<exists>T1. net_access_timer pr tm sec T = Some (0, T1, if sec = 0 then [m, Led_Line True] else []) \<and>
    (if sec = 0 then \<not> led_timer_id T1 \<and> net_access_timer_id T1 = Some None
     else (\<forall>k < max 120 sec. join_seconds pr k T1 = Some (T1\<lparr>net_access_timer_id := Some (Some (max 120 sec - k))\<rparr>, flips k T1)) \<and>
       join_seconds pr (max 120 sec) T1 = Some (T1\<lparr>led_timer_id := False, net_access_timer_id := Some None\<rparr>, flips (max 120 sec) T1 @ [m, Led_Line True]))"
proof (cases "sec = 0")
  case True
  then show ?thesis using assms
    by (auto simp: net_access_timer_def net_timer_set_def net_timer_close_def led_timer_close_def Let_def split: option.splits)
next
  case False
  let ?n = "max 120 sec"
  obtain T1 where T1: "net_access_timer pr tm sec T = Some (0, T1, [])" "net_access_timer_id T1 = Some (Some ?n)"
  proof -
    define T0 where "T0 = (if net_access_timer_id T = None then T\<lparr>net_access_timer_id := (if snd tm then Some None else None)\<rparr> else T)"
    define n where "n = (if sec < 120 then 120 else sec)"
    have "net_access_timer_id (snd (led_timer_open (fst tm) T0)) \<noteq> None" "0 < n" "n = ?n" using assms(1) by (auto simp: T0_def n_def)
    with net_timer_set_armed [OF this(1,2)] False show thesis
      by (intro that [of "(snd (led_timer_open (fst tm) T0))\<lparr>net_access_timer_id := Some (Some n)\<rparr>"]) (simp_all add: net_access_timer_def T0_def [symmetric] n_def [symmetric])
  qed
  show ?thesis using T1 join_wait [OF _ T1(2)] join_over [OF T1(2) _ assms(2)] False by (intro exI [of _ T1]) auto
qed

theorem join_mode_ends_witness:
  "\<exists>T1 m ms. net_access_timer (\<lambda>j. ''{}'') (True, True) 60 \<lparr>led_timer_id = False, net_access_timer_id = None\<rparr> = Some (0, T1, []) \<and>
     join_seconds (\<lambda>j. ''{}'') 120 T1 = Some (\<lparr>led_timer_id = False, net_access_timer_id = Some None\<rparr>, ms @ [m, Led_Line True])"
proof -
  let ?T = "\<lparr>led_timer_id = False, net_access_timer_id = None\<rparr>"
  obtain m where m: "hylinkNetAccess (\<lambda>j. ''{}'') 0 = Some m" by (simp add: hylinkNetAccess_def hylinkSendFunc_def hylinkDispatch_def)
  from join_mode_ends [OF _ m, of ?T "(True, True)" 60] obtain T1 where
    T1: "net_access_timer (\<lambda>j. ''{}'') (True, True) 60 ?T = Some (0, T1, [])"
      "join_seconds (\<lambda>j. ''{}'') 120 T1 = Some (T1\<lparr>led_timer_id := False, net_access_timer_id := Some None\<rparr>, flips 120 T1 @ [m, Led_Line True])" by auto
  have "T1\<lparr>led_timer_id := False, net_access_timer_id := Some None\<rparr> = \<lparr>led_timer_id = False, net_access_timer_id = Some None\<rparr>" by (cases T1) simp
  with T1 show ?thesis by metis
qed

section \<open>Scenes that execute scenes\<close>

lemma action_cmd_dispatch: "action_cmd_json c = Some j \<Longrightarrow> cJSON_GetObjectItem j ''Command'' = Some (JString ''Dispatch'')"
  by (cases c) (auto simp: text_obj_map sync_ctrl_dispatch_def cJSON_AddItemToObject_def)

text \<open>Every command that an action sends as a message goes to the coordinator, the one that executes another scene too, which is meant for the
  engine itself: the adapter looks for \<open>LocalScene\<close> in the field \<open>Command\<close>, where the action puts \<open>Dispatch\<close>. The scenes stay as they
  are, and the action counts as done.\<close>

theorem scene_action_goes_to_zigbee:
  assumes "action_cmd_json c = Some j" "ge_parse E txt = Some j" "length txt \<le> 1021"
  shows "hylink_scene_send E txt g = Some (0, g\<lparr>gw_sent := gw_sent g @ [Zigbee_Write (CHR 0x02 # txt @ [CHR 0x03])]\<rparr>)"
  using action_cmd_dispatch [OF assms(1)] assms(2,3) by (simp add: hylink_scene_send_def hylinkDispatch_def gw_send_def)

theorem scene_action_goes_to_zigbee_witness:
  "\<exists>j E. action_cmd_json (Cmd_Exec_Scene ''s1'' None) = Some j \<and>
     hylink_scene_send E ''exec s1'' (gw_example\<lparr>gw_scene := Some (scenes_example scene_example)\<rparr>) =
       Some (0, gw_example\<lparr>gw_scene := Some (scenes_example scene_example), gw_sent := [Zigbee_Write (CHR 0x02 # ''exec s1'' @ [CHR 0x03])]\<rparr>)"
proof -
  obtain j where j: "action_cmd_json (Cmd_Exec_Scene ''s1'' None) = Some j" by simp
  have p: "ge_parse (gw_env_example j) ''exec s1'' = Some j" by (simp add: gw_env_example_def)
  from scene_action_goes_to_zigbee [OF j p, of "gw_example\<lparr>gw_scene := Some (scenes_example scene_example)\<rparr>"] j show ?thesis
    by (intro exI [of _ j] exI [of _ "gw_env_example j"]) (simp add: gw_example_def)
qed

section \<open>Requests to the scene engine\<close>

fun repeat_cmd :: "gw_env \<Rightarrow> string \<Rightarrow> nat \<Rightarrow> nat \<Rightarrow> gateway \<Rightarrow> gateway option" where
  "repeat_cmd E txt i 0 g = Some g"
| "repeat_cmd E txt i (Suc n) g = do { (r, g1) \<leftarrow> scene_adapter_cmd E i txt g; repeat_cmd E txt (Suc i) n g1 }"

lemma local_scene_loop:
  "\<forall>j \<in> set js. cJSON_GetObjectItem j ''DeviceId'' = None \<Longrightarrow>
   recv_loop E rt dir ''LocalScene'' i js d g = map_option (Pair 0) (repeat_cmd E (ge_print E rt) i (length js) g)"
  by (induction js arbitrary: i g) (auto simp: getStrForJson_def recv_item_types map_option_bind split: Option.bind_splits)

text \<open>C38. A request to the scene engine is executed once per operation in it: the whole message is handed over again for each element of its data,
  so that a request of \<open>n\<close> operations means \<open>n\<close> times all of them.\<close>

theorem local_scene_request_repeated:
  assumes "ge_parse E data = Some rt" "cJSON_GetObjectItem rt ''Command'' = Some (JString ''Dispatch'')"
    "cJSON_GetObjectItem rt ''Type'' = Some (JString ''LocalScene'')" "cJSON_GetObjectItem rt ''Data'' = Some (JArray js)"
    "\<forall>j \<in> set js. cJSON_GetObjectItem j ''DeviceId'' = None"
  shows "hylinkRecvJson E data g = map_option (Pair 0) (repeat_cmd E (ge_print E rt) 0 (length js) g)"
proof -
  have "hylink_recv_type ! 6 = ''LocalScene''" by (simp add: hylink_recv_type_def)
  then show ?thesis using assms(3,4) local_scene_loop [OF assms(5)]
    unfolding hylinkRecvJson_body [OF assms(1,2)] recv_body_def by (simp add: type_index)
qed

definition request_example :: json where
  "request_example = JObject [(''Command'', JString ''Dispatch''), (''Type'', JString ''LocalScene''),
     (''Data'', JArray [exec_request ''s1'', exec_request ''s2''])]"

theorem local_scene_request_repeated_witness:
  "hylinkRecvJson (gw_env_example request_example) [] gw_example =
     map_option (Pair 0) (repeat_cmd (gw_env_example request_example) ''{}'' 0 2 gw_example) \<and>
   repeat_cmd (gw_env_example request_example) ''{}'' 0 2 gw_example = Some gw_example"
proof -
  have p: "ge_parse (gw_env_example request_example) [] = Some request_example" "ge_print (gw_env_example request_example) j = ''{}''" for j
    by (simp_all add: gw_env_example_def)
  have f: "cJSON_GetObjectItem request_example ''Command'' = Some (JString ''Dispatch'')" "cJSON_GetObjectItem request_example ''Type'' = Some (JString ''LocalScene'')"
    "cJSON_GetObjectItem request_example ''Data'' = Some (JArray [exec_request ''s1'', exec_request ''s2''])"
    by (simp_all add: request_example_def to_lower_def)
  have d: "\<forall>j \<in> set [exec_request ''s1'', exec_request ''s2'']. cJSON_GetObjectItem j ''DeviceId'' = None"
    by (simp add: exec_request_def text_obj_map to_lower_def)
  have "scene_adapter_cmd (gw_env_example request_example) i tx gw_example = Some (GeneralErr, gw_example)" for i tx
    by (simp add: scene_adapter_cmd_def gw_env_example_def gw_example_def scene_query_def)
  then have "repeat_cmd (gw_env_example request_example) ''{}'' 0 2 gw_example = Some gw_example" by (simp add: numeral_eq_Suc)
  with local_scene_request_repeated [OF p(1) f d, of gw_example] p(2) show ?thesis by (simp add: numeral_2_eq_2 del: repeat_cmd.simps)
qed

section \<open>Reports of devices\<close>

lemma no_more_frames: "CHR 0x02 \<notin> set cs \<Longrightarrow> hylinkRecvManage Es n cs ret g = Some (ret, g)"
  by (induction cs) auto

lemma report_event:
  assumes "ge_check E txt" "fst (ge_scene_text E) txt = Some rt" "cJSON_GetObjectItem rt ''Type'' = Some (JString ''Attribute'')"
    "cJSON_GetObjectItem rt ''Data'' = Some (JArray [j])" "given j ''DeviceId'' DEV_ID_MAX_LEN d" "given j ''Key'' KEY_MAX_LEN k" "given j ''Value'' VALUE_MAX_LEN v"
    "scene_list_event (en_rnd (ge_event E 0)) (en_db (ge_event E 0)) (om_queue (en_mem (ge_event E 0))) (om_sync (en_mem (ge_event E 0))) (en_now (ge_event E 0))
       \<lparr>ev_acDevId = d, ev_acKey = k, ev_acValue = v\<rparr> L = Some (r, L', calls)" "gw_scene g = Some L"
  shows "scene_adapter_report E txt g = Some (NoErr, g\<lparr>gw_scene := Some L', gw_calls := gw_calls g @ calls\<rparr>)"
proof -
  have n: "JSON_node_get ''Data'' rt = (0, Some (JArray [j]))" using assms(4) by (simp add: JSON_node_get_def)
  have t: "need (ge_event E 0) ''Type'' TYPE_MAX_LEN [] rt = Some ''Attribute''" using assms(3) by (simp add: need_text TYPE_MAX_LEN_def)
  have e: "event_of (ge_event E 0) j = Some \<lparr>ev_acDevId = d, ev_acKey = k, ev_acValue = v\<rparr>" using assms(5-7) by (simp add: event_of_def given_texts)
  show ?thesis using assms(1,2,8,9) n t e by (simp add: scene_adapter_report_def scene_event_def data_items_def type_is_lit)
qed


definition report_json :: json where
  "report_json = JObject [(''Command'', JString ''Report''), (''Type'', JString ''Attribute''),
     (''Data'', JArray [text_obj [(''DeviceId'', ''d1''), (''Key'', ''k''), (''Value'', ''1'')]])]"

definition report_env :: gw_env where
  "report_env = (gw_env_example report_json)\<lparr>ge_event := (\<lambda>i. env_example\<lparr>en_rnd := id\<rparr>)\<rparr>"

lemma report_json_fields:
  "cJSON_GetObjectItem report_json ''Command'' = Some (JString ''Report'')" "cJSON_GetObjectItem report_json ''Type'' = Some (JString ''Attribute'')"
  "cJSON_GetObjectItem report_json ''Data'' = Some (JArray [text_obj [(''DeviceId'', ''d1''), (''Key'', ''k''), (''Value'', ''1'')]])"
  by (simp_all add: report_json_def to_lower_def)

lemma report_json_given:
  "given (text_obj [(''DeviceId'', ''d1''), (''Key'', ''k''), (''Value'', ''1'')]) ''DeviceId'' DEV_ID_MAX_LEN ''d1''"
  "given (text_obj [(''DeviceId'', ''d1''), (''Key'', ''k''), (''Value'', ''1'')]) ''Key'' KEY_MAX_LEN ''k''"
  "given (text_obj [(''DeviceId'', ''d1''), (''Key'', ''k''), (''Value'', ''1'')]) ''Value'' VALUE_MAX_LEN ''1''"
  unfolding given_def by code_simp+

lemma report_env_parts:
  "ge_parse report_env tx = Some report_json" "ge_check report_env tx" "fst (ge_scene_text report_env) tx = Some report_json"
  "en_db (ge_event report_env 0) = (\<lambda>q. NoErr)" "om_queue (en_mem (ge_event report_env 0)) = (\<lambda>n. True)"
  "en_rnd (ge_event report_env 0) = id" "en_now (ge_event report_env 0) = 100"
  by (simp_all add: report_env_def gw_env_example_def env_example_def)


section \<open>The factory reset\<close>

lemma list_alive_scenes:
  assumes "list_alive L ss" "\<forall>(b, u) \<in> set ss. b \<noteq> a"
  shows "list_alive (L\<lparr>scenes := filter (\<lambda>(b, _). b \<noteq> a) (scenes L)\<rparr>) ss"
proof -
  have "map_of (filter (\<lambda>(b, _). b \<noteq> a) xs) b = map_of xs b" if "b \<noteq> a" for b and xs :: "(ptr \<times> scene_info) list"
    using that by (induction xs) auto
  then show ?thesis using assms by (force simp: list_alive_def scene_alive_def get_scene_def)
qed

text \<open>Deleting the first scene by its identifier.\<close>

lemma scene_del_first:
  assumes "scenes L = (a, s) # ss" "list_alive L (scenes L)" "ph_inv (pHashTable L)"
  shows "\<exists>r L' calls. scene_list_del True db (acSceneId s) L = Some (r, L', calls) \<and> scenes L' = ss \<and> list_alive L' ss \<and> ph_inv (pHashTable L') \<and>
    sl_ucInitFlag L' = sl_ucInitFlag L \<and> nodes (pHashTable L') = (\<lambda>k. filter (\<lambda>n. \<not> of_id (acSceneId s) n) (nodes (pHashTable L) k)) \<and>
    (sl_ucInitFlag L \<noteq> 1 \<longrightarrow> Db_Delete DB_TABLE_NAME_SCENE [(''id'', strncpy (acSceneId s) INDEX_MAX_LEN)] \<in> set calls)"
proof -
  have f: "scene_find True (acSceneId s) L = Some (a, s)"
    by (simp add: scene_find_def assms(1) scene_compare_def strncmp_eq_0 strncpy_def)
  have al: "list_alive L ((a, s) # ss)" "scene_alive L a s" using assms(1,2) by (simp_all add: list_alive_def)
  obtain L1 s' c where r: "scene_release db a L = Some (L1\<lparr>actionLists := (actionLists L)(pstAction s := None)\<rparr>, c)" "emptied a (scene_keys s) s s' L L1"
    using scene_release_result [OF al(2) assms(3)] by blast
  define L2 where "L2 = L1\<lparr>actionLists := (actionLists L)(pstAction s := None)\<rparr>"
  note st = list_alive_step [OF al(1) r(2) L2_def]
  have o: "\<forall>(b, u) \<in> set ss. b \<noteq> a" using al(1) by (force simp: list_alive_def)
  obtain t where t: "L1 = (put_scene a s' L)\<lparr>pHashTable := t\<rparr>" "ph_inv t" using r(2) by (auto simp: emptied_def cleared_def)
  have ss: "filter (\<lambda>(b, _). b \<noteq> a) (scenes L2) = ss"
    using o by (auto simp: L2_def t(1) put_scene_def assms(1) filter_map o_def case_prod_unfold if_distrib [of fst] filter_id_conv map_idI cong: if_cong)
  define L3 where "L3 = L2\<lparr>scenes := ss\<rparr>"
  have "list_alive L3 ss" using list_alive_scenes [OF st(1) o] by (simp add: ss L3_def)
  moreover have "scene_list_del True db (acSceneId s) L = Some (if fst (scene_list_del_db db L3 (strncpy (acSceneId s) INDEX_MAX_LEN)) \<noteq> NoErr then SceneDelErr else NoErr, L3,
      c @ snd (scene_list_del_db db L3 (strncpy (acSceneId s) INDEX_MAX_LEN)))"
    using f r(1) ss by (simp add: scene_list_del_def L2_def [symmetric] L3_def case_prod_unfold Let_def)
  moreover have "sl_ucInitFlag L3 = sl_ucInitFlag L" "ph_inv (pHashTable L3)" "scenes L3 = ss" using t by (simp_all add: L3_def L2_def)
  moreover have "nodes (pHashTable L3) = (\<lambda>k. filter (\<lambda>n. \<not> of_id (acSceneId s) n) (nodes (pHashTable L) k))" using st(2) by (simp add: L3_def fun_eq_iff)
  ultimately show ?thesis by (auto simp: scene_list_del_db_def db_write_def)
qed

lemma clean_loop_all:
  assumes "list_alive L (scenes L)" "ph_inv (pHashTable L)" "\<forall>n. om_find (en_mem (Es n))"
  shows "\<exists>r L' calls. clean_loop Es n (map snd (scenes L)) L = Some (r, L', calls) \<and> scenes L' = [] \<and>
    nodes (pHashTable L') = (\<lambda>k. filter (\<lambda>n. \<not> gone (map snd (scenes L)) n) (nodes (pHashTable L) k)) \<and>
    (sl_ucInitFlag L \<noteq> 1 \<longrightarrow> (\<forall>s \<in> snd ` set (scenes L). Db_Delete DB_TABLE_NAME_SCENE [(''id'', strncpy (acSceneId s) INDEX_MAX_LEN)] \<in> set calls))"
  using assms(1,2)
proof (induction "scenes L" arbitrary: L n)
  case Nil
  then show ?case by (simp add: gone_def)
next
  case (Cons x ss)
  obtain a s where x: "x = (a, s)" by (cases x)
  with Cons.hyps(2) have sc: "scenes L = (a, s) # ss" by simp
  obtain r1 L1 c1 where 1: "scene_list_del True (en_db (Es n)) (acSceneId s) L = Some (r1, L1, c1)" "scenes L1 = ss" "list_alive L1 ss" "ph_inv (pHashTable L1)"
    "sl_ucInitFlag L1 = sl_ucInitFlag L" "nodes (pHashTable L1) = (\<lambda>k. filter (\<lambda>n. \<not> of_id (acSceneId s) n) (nodes (pHashTable L) k))"
    "sl_ucInitFlag L \<noteq> 1 \<longrightarrow> Db_Delete DB_TABLE_NAME_SCENE [(''id'', strncpy (acSceneId s) INDEX_MAX_LEN)] \<in> set c1"
    using scene_del_first [OF sc Cons.prems, of "en_db (Es n)"] by blast
  obtain r2 L2 c2 where 2: "clean_loop Es (Suc n) (map snd ss) L1 = Some (r2, L2, c2)" "scenes L2 = []"
    "nodes (pHashTable L2) = (\<lambda>k. filter (\<lambda>n. \<not> gone (map snd ss) n) (nodes (pHashTable L1) k))"
    "sl_ucInitFlag L1 \<noteq> 1 \<longrightarrow> (\<forall>s \<in> snd ` set ss. Db_Delete DB_TABLE_NAME_SCENE [(''id'', strncpy (acSceneId s) INDEX_MAX_LEN)] \<in> set c2)"
    using Cons.hyps(1) [OF 1(2) [symmetric], of "Suc n"] 1(2-4) by auto
  have "nodes (pHashTable L2) = (\<lambda>k. filter (\<lambda>n. \<not> gone (map snd (scenes L)) n) (nodes (pHashTable L) k))"
    using 2(3) 1(6) by (auto simp: sc gone_def fun_eq_iff intro!: filter_cong)
  moreover have "clean_loop Es n (map snd (scenes L)) L = Some (r1 + r2, L2, c1 @ c2)" using 1(1) 2(1) assms(3) by (simp add: sc then_op_def)
  ultimately show ?case using 2(2,4) 1(5,7) by (auto simp: sc)
qed

text \<open>C7. The factory reset leaves nothing behind: both sides are told first, the cloud before the coordinator; then every scene goes, with its
  records in the index and its row in the data base, the table of devices becomes empty, and the program closes with no
  device in memory and no timer.\<close>

theorem factory_reset_complete:
  assumes "gw_scene g = Some L" "list_alive L (scenes L)" "ph_inv (pHashTable L)" "length (scenes L) \<le> SCENE_MAX_NUM" "sl_ucInitFlag L = 0"
    "\<forall>n. om_find (en_mem (Es n))" "om_array (en_mem (Es 0))" "\<forall>c. length (pr (send_json \<lparr>hs_Command = c, hs_Type = ''ReFactory'', hs_Data = []\<rparr>)) \<le> 1021"
  shows "\<exists>g' L' m1 m2. systemReset pr Es True db g = Some g' \<and> gw_sent g' = gw_sent g @ [Hylink_Write m1, Zigbee_Write m2] \<and>
    gw_table g' = [] \<and> gw_devs g' = [] \<and> gw_timers g' = \<lparr>led_timer_id = False, net_access_timer_id = None\<rparr> \<and>
    gw_scene g' = Some L' \<and> scenes L' = [] \<and> (\<forall>k. \<forall>n \<in> set (nodes (pHashTable L') k). \<not> gone (map snd (scenes L)) n) \<and>
    (\<forall>s \<in> snd ` set (scenes L). Db_Delete DB_TABLE_NAME_SCENE [(''id'', strncpy (acSceneId s) INDEX_MAX_LEN)] \<in> set (gw_calls g'))"
proof -
  obtain r L' calls where C: "clean_loop Es 0 (map snd (scenes L)) L = Some (r, L', calls)" "scenes L' = []"
    "nodes (pHashTable L') = (\<lambda>k. filter (\<lambda>n. \<not> gone (map snd (scenes L)) n) (nodes (pHashTable L) k))"
    "\<forall>s \<in> snd ` set (scenes L). Db_Delete DB_TABLE_NAME_SCENE [(''id'', strncpy (acSceneId s) INDEX_MAX_LEN)] \<in> set calls"
    using clean_loop_all [OF assms(2,3,6), of 0] assms(5) by auto
  have l: "\<not> 1021 < length (pr (send_json \<lparr>hs_Command = c, hs_Type = ''ReFactory'', hs_Data = []\<rparr>))" for c using assms(8) by (simp add: not_less)
  have "scene_clean Es (Some L) = Some (r, Some L', calls)" using C(1) assms(4,7) by (simp add: scene_clean_def scene_list_get_list_def)
  moreover have "scene_destroy db (Some L') = Some (0, [])" using C(2) by (simp add: scene_destroy_def destroy_scene_list_def scene_list_clear_def)
  moreover obtain m1 m2 where "hylinkSendFunc pr \<lparr>hs_Command = 0, hs_Type = ''ReFactory'', hs_Data = []\<rparr> = Some (Hylink_Write m1)"
      "hylinkSendFunc pr \<lparr>hs_Command = 1, hs_Type = ''ReFactory'', hs_Data = []\<rparr> = Some (Zigbee_Write m2)"
    using l by (simp add: hylinkSendFunc_def hylinkDispatch_def)
  ultimately show ?thesis using assms(1) C(2-4)
    by (simp add: systemReset_def scene_adapter_reset_def gw_send_def mainClose_def hylinkClose_def hytoolClose_def databseReset_def hylinkListEmpty_def)
qed

theorem factory_reset_complete_witness:
  "\<exists>t g' L'. nodes t (event_key event_example) = [event_ptr] \<and>
     systemReset (\<lambda>j. ''{}'') (\<lambda>n. env_example) True (\<lambda>q. NoErr) (gw_example\<lparr>gw_table := [(''d1'', ''m1'')], gw_scene := Some (alive_example t)\<rparr>) = Some g' \<and>
     gw_table g' = [] \<and> gw_scene g' = Some L' \<and> scenes L' = [] \<and> event_ptr \<notin> set (nodes (pHashTable L') (event_key event_example)) \<and>
     Db_Delete DB_TABLE_NAME_SCENE [(''id'', ''s1'')] \<in> set (gw_calls g')"
proof -
  obtain t where t: "ph_inv t" "accounted t scene_example" "nodes t (event_key event_example) = [event_ptr]" by (rule alive_example_indexed)
  let ?L = "alive_example t" and ?g = "gw_example\<lparr>gw_table := [(''d1'', ''m1'')], gw_scene := Some (alive_example t)\<rparr>"
  have s: "scenes ?L = [(1, scene_example)]" "sl_ucInitFlag ?L = 0" by (simp_all add: alive_example_def scenes_example_def)
  have l: "list_alive ?L (scenes ?L)" "ph_inv (pHashTable ?L)" "length (scenes ?L) \<le> SCENE_MAX_NUM"
    using t(1,2) alive_example by (simp_all add: s list_alive_def SCENE_MAX_NUM_def)
  have g: "gone (map snd (scenes ?L)) event_ptr" by (simp add: s gone_def of_id_def event_ptr_def scene_example_def strncmp_eq_0)
  have i: "strncpy (acSceneId scene_example) INDEX_MAX_LEN = ''s1''" by (simp add: scene_example_def INDEX_MAX_LEN_def)
  have e: "\<forall>n :: nat. om_find (en_mem env_example)" "om_array (en_mem env_example)" by (simp_all add: env_example_def)
  have gs: "gw_scene ?g = Some ?L" by simp
  from factory_reset_complete [OF gs l s(2) e, of "\<lambda>j. ''{}''" "\<lambda>q. NoErr"] g i t(3) show ?thesis by (intro exI [of _ t]) (auto simp: s(1))
qed

section \<open>The list of devices\<close>

text \<open>A text for a value has at least this length: the quotes, brackets and colons are counted, the commas and escapes are not.\<close>

fun json_size :: "json \<Rightarrow> nat" where
  "json_size (JString s) = length s + 2"
| "json_size (JArray js) = 2 + sum_list (map json_size js)"
| "json_size (JObject kvs) = 2 + sum_list (map (\<lambda>(k, v). length k + 3 + json_size v) kvs)"
| "json_size j = 1"

lemma dec_int_text: "dec_int n \<noteq> []"
  by (simp add: dec_int_def dec_nat.simps [of "nat n"])

lemma dev_data_size:
  assumes "dev_data sg d = Some x" "16 \<le> length (DeviceId d)"
  shows "43 \<le> json_size (send_item x)"
proof -
  have "DeviceId d \<noteq> []" using assms(2) by auto
  moreover have "1 \<le> length (char_text sg (online d))" "char_text sg (online d) \<noteq> []" using dec_int_text by (auto simp: char_text_def Suc_le_eq)
  moreover from this(1) assms(2) have "17 \<le> length (DeviceId d) + length (char_text sg (online d))" by linarith
  ultimately show ?thesis using assms by (auto simp: dev_data_def send_item_def zero_data_def text_obj_map split: if_splits)
qed

lemma devs_data_size:
  "those (map (\<lambda>(k, d). dev_data sg d) devs) = Some ds \<Longrightarrow> \<forall>(k, d) \<in> set devs. 16 \<le> length (DeviceId d) \<Longrightarrow>
   43 * length devs \<le> sum_list (map (json_size \<circ> send_item) ds)"
proof (induction devs arbitrary: ds)
  case (Cons x devs)
  then obtain y ys where y: "dev_data sg (snd x) = Some y" "those (map (\<lambda>(k, d). dev_data sg d) devs) = Some ys" "ds = y # ys"
    by (auto split: option.splits prod.splits)
  have "16 \<le> length (DeviceId (snd x))" using Cons.prems(2) by (cases x) simp
  then have "43 \<le> json_size (send_item y)" using dev_data_size y(1) by blast
  moreover have "43 * length devs \<le> sum_list (map (json_size \<circ> send_item) ys)" using Cons.IH [OF y(2)] Cons.prems(2) by (simp add: o_def)
  ultimately show ?case by (simp add: y(3) o_def)
qed simp

lemma devs_info_too_long:
  assumes "\<forall>j. json_size j \<le> length (ge_print E j)" "mset (ge_order E devs) = mset devs" "23 \<le> length devs" "\<forall>(k, d) \<in> set devs. 16 \<le> length (DeviceId d)"
  shows "devs_info E dir devs = None"
proof (cases "those (map (\<lambda>(k, d). dev_data (ge_char_signed E) d) (ge_order E devs))")
  case (Some ds)
  let ?s = "\<lparr>hs_Command = (if dir then 0 else 1), hs_Type = ''DevsInfo'', hs_Data = ds\<rparr>"
  have "set (ge_order E devs) = set devs" "length (ge_order E devs) = length devs" using assms(2) mset_eq_setD mset_eq_length by blast+
  then have "43 * length devs \<le> sum_list (map (json_size \<circ> send_item) ds)" using devs_data_size [OF Some] assms(4) by simp
  then have "1021 < json_size (send_json ?s)" using assms(3) by (simp add: send_json_def text_obj_map cJSON_AddItemToObject_def)
  also have "\<dots> \<le> length (ge_print E (send_json ?s))" using assms(1) by blast
  finally show ?thesis using Some by (simp add: devs_info_def hylinkSendFunc_def hylinkDispatch_def)
qed (simp add: devs_info_def)

text \<open>C39. The list of devices does not fit: when the cloud asks for the devices and 23 or more are registered, with identifiers of 16 characters as
  the coordinator gives them, the answer overruns the buffer of 1024 bytes that it is sent from, in whatever order the
  devices are listed and however short their models are.\<close>

theorem devices_request_overflows:
  assumes "\<forall>j. json_size j \<le> length (ge_print E j)" "mset (ge_order E (gw_devs g)) = mset (gw_devs g)" "23 \<le> length (gw_devs g)"
    "\<forall>(k, d) \<in> set (gw_devs g). 16 \<le> length (DeviceId d)" "ge_parse E data = Some rt" "cJSON_GetObjectItem rt ''Command'' = Some (JString ''Dispatch'')"
    "cJSON_GetObjectItem rt ''Type'' = Some (JString ''DevsInfo'')" "cJSON_GetObjectItem rt ''Data'' = Some (JArray (j # js))"
  shows "hylinkRecvJson E data g = None"
proof -
  have "findStrIndex (Some ''DevsInfo'') hylink_recv_type = 5" "hylink_recv_type ! 5 = ''DevsInfo''"
    by (simp_all add: findStrIndex_def hylink_recv_type_def upt_rec numeral_eq_Suc)
  then show ?thesis using assms(7,8) devs_info_too_long [OF assms(1-4)]
    unfolding hylinkRecvJson_body [OF assms(5,6)] recv_body_def by (simp add: recv_item_types bind_eq_None_conv split: Option.bind_splits)
qed

definition devs_request :: json where
  "devs_request = JObject [(''Command'', JString ''Dispatch''), (''Type'', JString ''DevsInfo''), (''Data'', JArray [JObject []])]"

definition many_devs :: hylink_map where
  "many_devs = map (\<lambda>i. (dec_nat i @ ''00158d0001020304'', \<lparr>DeviceId = dec_nat i @ ''00158d0001020304'', ModelId = ''m'', online = 1\<rparr>)) [0..<23]"

theorem devices_request_overflows_witness:
  "hylinkRecvJson ((gw_env_example devs_request)\<lparr>ge_print := (\<lambda>j. replicate (json_size j) CHR ''x'')\<rparr>) [] (gw_example\<lparr>gw_devs := many_devs\<rparr>) = None"
proof -
  let ?E = "(gw_env_example devs_request)\<lparr>ge_print := (\<lambda>j. replicate (json_size j) CHR ''x'')\<rparr>" and ?g = "gw_example\<lparr>gw_devs := many_devs\<rparr>"
  have p: "\<forall>j. json_size j \<le> length (ge_print ?E j)" "mset (ge_order ?E (gw_devs ?g)) = mset (gw_devs ?g)" "ge_parse ?E [] = Some devs_request"
    by (simp_all add: gw_env_example_def)
  have d: "23 \<le> length (gw_devs ?g)" "\<forall>(k, d) \<in> set (gw_devs ?g). 16 \<le> length (DeviceId d)" by (auto simp: many_devs_def)
  have r: "cJSON_GetObjectItem devs_request ''Command'' = Some (JString ''Dispatch'')" "cJSON_GetObjectItem devs_request ''Type'' = Some (JString ''DevsInfo'')"
    "cJSON_GetObjectItem devs_request ''Data'' = Some (JArray [JObject []])" by (simp_all add: devs_request_def to_lower_def)
  show ?thesis by (rule devices_request_overflows [OF p(1,2) d p(3) r])
qed

end
