(* ===== verification/Hy_Start.thy ===== *)
theory Hy_Start
  imports Hy_Link
begin

text \<open>
  The start of the gateway with the start of the scene engine in it (\<open>hylinkOpen\<close>, \<open>scene_adapter_open\<close>, \<open>scene_init\<close>, \<open>scene_list_init\<close>).
  Loading works on the scenes, their action lists and the index only: it registers no handler, queues no execution and
  arms no timer. The operations that the synchronisation with the data base is built from share this law, which is
  stated as a locale and interpreted on the operations of condition lists, panels and scenes.
\<close>

section \<open>What loading does not touch\<close>

definition engine_rest :: "scene_list \<Rightarrow> ptr \<times> queue_node list \<times> sync_list \<times> (ptr_info \<times> int) list" where
  "engine_rest L = (pSceneReportHandler L, pstExecQueue L, syncList L, timerReqs L)"

definition keeps_rest :: "(scene_list \<Rightarrow> op_result) \<Rightarrow> bool" where
  "keeps_rest f \<longleftrightarrow> (\<forall>L r L' calls. f L = Some (r, L', calls) \<longrightarrow> engine_rest L' = engine_rest L)"

lemma keeps_restD: "keeps_rest f \<Longrightarrow> f L = Some (r, L', calls) \<Longrightarrow> engine_rest L' = engine_rest L"
  by (auto simp: keeps_rest_def)

lemma engine_rest_upd [simp]:
  "engine_rest (put_scene a s L) = engine_rest L" "engine_rest (put_actions b l L) = engine_rest L" "engine_rest (L\<lparr>pHashTable := t\<rparr>) = engine_rest L"
  "engine_rest (L\<lparr>actionLists := f\<rparr>) = engine_rest L" "engine_rest (L\<lparr>scenes := ss\<rparr>) = engine_rest L" "engine_rest (L\<lparr>sl_ucInitFlag := v\<rparr>) = engine_rest L"
  by (simp_all add: engine_rest_def put_scene_def put_actions_def)

lemma cond_put_rest:
  "time_cond_put mem db lg a c L = Some (r, L', p, calls) \<Longrightarrow> engine_rest L' = engine_rest L"
  "event_cond_put mem db lg a d L = Some (r, L', p, calls) \<Longrightarrow> engine_rest L' = engine_rest L"
  by (auto simp: time_cond_put_def event_cond_put_def cond_change_def cond_insert_def Let_def split: prod.splits Option.bind_splits option.splits if_splits)

lemma put_truth_rest: "put_truth f b p L = Some L' \<Longrightarrow> engine_rest L' = engine_rest L"
  by (auto simp: put_truth_def split: Option.bind_splits)

lemma time_cond_rest: "keeps_rest (scene_time_or_cond_add mem db a c)" "keeps_rest (scene_time_and_cond_add mem db a c)"
  by (auto simp: keeps_rest_def scene_time_or_cond_add_def scene_time_and_cond_add_def time_cond_add_scene_def
      split: Option.bind_splits if_splits dest!: cond_put_rest put_truth_rest)

lemma event_cond_rest: "keeps_rest (scene_event_or_cond_add rnd mem db a d)" "keeps_rest (scene_event_and_cond_add rnd mem db a d)"
  by (auto simp: keeps_rest_def scene_event_or_cond_add_def scene_event_and_cond_add_def Let_def
      split: prod.splits Option.bind_splits if_splits dest!: cond_put_rest put_truth_rest)

lemma cond_remove_rest: "cond_remove fget fupd k lg reset del key a L = Some (r, L', calls) \<Longrightarrow> engine_rest L' = engine_rest L"
  by (auto simp: cond_remove_def Let_def split: Option.bind_splits option.splits if_splits)

lemma cond_del_rest: "keeps_rest (scene_time_or_cond_del db a c)" "keeps_rest (scene_time_and_cond_del db a c)"
    "keeps_rest (scene_event_or_cond_del db a d)" "keeps_rest (scene_event_and_cond_del db a d)"
  by (auto simp: keeps_rest_def scene_time_or_cond_del_def scene_time_and_cond_del_def scene_event_or_cond_del_def scene_event_and_cond_del_def Let_def
      split: prod.splits Option.bind_splits if_splits dest!: cond_remove_rest)

lemma cond_clear_rest: "keeps_rest (scene_time_cond_clear lg db f a)" "keeps_rest (scene_event_or_cond_clear db f a)" "keeps_rest (scene_event_and_cond_clear db f a)"
  by (auto simp: keeps_rest_def scene_time_cond_clear_def scene_event_or_cond_clear_def scene_event_and_cond_clear_def cond_clear_scene_def Let_def
      split: Option.bind_splits)

lemma panel_rest: "keeps_rest (scene_bind m p al h db a pn)" "keeps_rest (scene_unbind db a pn)" "keeps_rest (scene_bind_clear db f a)"
  by (auto simp: keeps_rest_def scene_bind_def scene_unbind_def scene_bind_clear_def bind_found_def bind_new_def Let_def
      split: prod.splits Option.bind_splits option.splits if_splits)

lemma action_rest: "keeps_rest (scene_action_clear db f a)" "keeps_rest (action_load E a)"
  by (auto simp: keeps_rest_def scene_action_clear_def action_load_def split: Option.bind_splits)

lemma release_rest:
  assumes "scene_release db a L = Some (L', calls)"
  shows "engine_rest L' = engine_rest L"
proof -
  obtain r1 L1 c1 r2 L2 c2 r3 L3 c3 r4 L4 c4 r5 L5 c5 f r7 c7 where
    S: "scene_time_cond_clear Or_Logic db 1 a L = Some (r1, L1, c1)" "scene_event_or_cond_clear db 1 a L1 = Some (r2, L2, c2)"
      "scene_time_cond_clear And_Logic db 1 a L2 = Some (r3, L3, c3)" "scene_event_and_cond_clear db 1 a L3 = Some (r4, L4, c4)"
      "scene_action_clear db 1 a L4 = Some (r5, L5, c5)" "scene_bind_clear db 1 a (L5\<lparr>actionLists := f\<rparr>) = Some (r7, L', c7)"
    using assms by (auto simp: scene_release_def Let_def elim!: bind_eq_Some_conv [THEN iffD1, elim_format])
  show ?thesis
    using keeps_restD [OF cond_clear_rest(1) S(1)] keeps_restD [OF cond_clear_rest(2) S(2)] keeps_restD [OF cond_clear_rest(1) S(3)]
      keeps_restD [OF cond_clear_rest(3) S(4)] keeps_restD [OF action_rest(1) S(5)] keeps_restD [OF panel_rest(3) S(6)] by simp
qed

lemma release_all_rest: "release_all db f ss L = Some (L', calls) \<Longrightarrow> engine_rest L' = engine_rest L"
proof (induction ss arbitrary: L calls)
  case (Cons x ss)
  obtain a s where x: "x = (a, s)" by (cases x)
  obtain L1 c1 c3 where "scene_release db a L = Some (L1, c1)" "release_all db f ss L1 = Some (L', c3)"
    using Cons.prems by (auto simp: x Let_def elim!: bind_eq_Some_conv [THEN iffD1, elim_format])
  then show ?case using Cons.IH release_rest by metis
qed simp

lemma scene_rest: "keeps_rest (scene_list_del m db i)" "keeps_rest (scene_list_clear db f)" "keeps_rest (scene_put m db x e)"
  by (auto simp: keeps_rest_def scene_list_del_def scene_list_clear_def scene_put_def scene_list_set_def Let_def
      split: prod.splits Option.bind_splits option.splits dest!: release_rest release_all_rest)

lemma scene_add_rest: "scene_list_add mem db e L = Some (p, L', calls) \<Longrightarrow> engine_rest L' = engine_rest L"
  by (auto simp: scene_list_add_def Let_def split: prod.splits Option.bind_splits option.splits if_splits)

section \<open>Synchronisation with an array\<close>

locale rest_ops =
  fixes ops :: "('k, 'c) sync_ops"
  assumes put_rest: "keeps_rest (so_put ops i x e)" and del_rest: "keeps_rest (so_del ops i e)" and add_rest: "keeps_rest (so_add ops i e)"
    and clear_rest: "keeps_rest (so_clear ops)"
begin

lemma walk_rest: "sync_walk ops arr cnt xs L = Some (found, L', calls) \<Longrightarrow> engine_rest L' = engine_rest L"
proof (induction xs arbitrary: L found calls)
  case (Cons x xs)
  then show ?case
    by (auto split: option.splits Option.bind_splits if_splits dest!: Cons.IH keeps_restD [OF put_rest] keeps_restD [OF del_rest])
qed simp

lemma add_all_rest: "sync_add skip (so_add ops) arr is L = Some (L', calls) \<Longrightarrow> engine_rest L' = engine_rest L"
proof (induction "is" arbitrary: L calls)
  case (Cons i "is")
  then show ?case by (auto split: Option.bind_splits if_splits dest!: Cons.IH keeps_restD [OF add_rest])
qed simp

lemma array_rest: "keeps_rest (array_sync ops none m xs arr cnt)"
  by (auto simp: keeps_rest_def array_sync_def split: Option.bind_splits if_splits dest!: walk_rest add_all_rest keeps_restD [OF clear_rest])

end

interpretation time_sync: rest_ops "time_ops al db lg a"
  by unfold_locales (auto simp: time_ops_def time_cond_rest cond_del_rest cond_clear_rest split: logic.splits)

interpretation event_sync: rest_ops "event_ops rnd al db lg a"
  by unfold_locales (auto simp: event_ops_def Let_def event_cond_rest cond_del_rest cond_clear_rest split: logic.splits)

interpretation panel_sync: rest_ops "panel_ops al db a"
  by unfold_locales (auto simp: panel_ops_def panel_rest keeps_rest_def [of "\<lambda>L. Some (NoErr, L, [])"] split: prod.splits)

interpretation list_sync: rest_ops "scene_ops al db"
  by unfold_locales (auto simp: scene_ops_def scene_rest, auto simp: keeps_rest_def split: Option.bind_splits dest!: scene_add_rest)

section \<open>The whole start\<close>

lemma list_flag_rest: "list_flag fupd lg v a L = Some L' \<Longrightarrow> engine_rest L' = engine_rest L"
  by (auto simp: list_flag_def split: Option.bind_splits)

lemma cond_load_rest: "keeps_rest (time_load E lg a)" "keeps_rest (event_load E lg a)"
  by (auto simp: keeps_rest_def time_load_def event_load_def scene_time_cond_init_def scene_event_cond_init_def scene_time_cond_sync_def scene_event_cond_sync_def Let_def
      split: prod.splits Option.bind_splits if_splits dest!: list_flag_rest keeps_restD [OF time_sync.array_rest] keeps_restD [OF event_sync.array_rest])

lemma panel_load_rest: "keeps_rest (panel_load E a)"
  by (auto simp: keeps_rest_def panel_load_def scene_bind_init_def scene_bind_sync_def split: prod.splits Option.bind_splits if_splits dest!: keeps_restD [OF panel_sync.array_rest])

lemma and_then_rest: "keeps_rest f \<Longrightarrow> keeps_rest g \<Longrightarrow> keeps_rest (\<lambda>L. and_then (f L) g)"
  unfolding keeps_rest_def and_then_def by (auto split: Option.bind_splits)

lemma scene_load_rest: "keeps_rest (scene_load E a)"
  using and_then_rest [OF and_then_rest [OF and_then_rest [OF and_then_rest [OF and_then_rest [OF cond_load_rest] cond_load_rest(1)] cond_load_rest(2)] action_rest(2)] panel_load_rest]
  by (simp add: keeps_rest_def scene_load_def)

lemma load_scenes_rest: "keeps_rest (load_scenes E as)"
proof (induction "as")
  case (Cons a "as")
  show ?case using and_then_rest [OF scene_load_rest Cons.IH] by (simp add: keeps_rest_def)
qed (simp add: keeps_rest_def)

lemma scene_list_init_rest: "keeps_rest (scene_list_init E)"
  by (auto simp: keeps_rest_def scene_list_init_def scene_list_sync_def Let_def split: prod.splits Option.bind_splits if_splits
      dest!: keeps_restD [OF list_sync.array_rest] keeps_restD [OF load_scenes_rest])

text \<open>The start of the engine as the adapter calls it; the list that was there is not looked at.\<close>

definition scene_start :: "db_stmt list option \<Rightarrow> bool \<times> bool \<times> bool \<times> bool \<times> bool \<times> bool \<Rightarrow> bool \<times> (nat \<Rightarrow> bool) \<Rightarrow> (nat \<Rightarrow> bool) \<Rightarrow>
    ('d \<Rightarrow> string \<Rightarrow> string \<Rightarrow> status) \<Rightarrow> 'd sqlite \<Rightarrow> ('d \<Rightarrow> load_env) \<Rightarrow> 'd \<Rightarrow> scene_list option \<Rightarrow> (status \<times> scene_list option \<times> db_calls) option" where
  "scene_start dbs m h cm qu ex E d G = do { (r, G1, d1, calls) \<leftarrow> scene_init dbs m h cm qu ex E d; Some (r, G1, calls) }"

lemma scene_start_rest:
  assumes "scene_start dbs m h cm qu ex E d G = Some (r, Some L, calls)"
  shows "engine_rest L = (NULL, [], None, [])"
proof -
  obtain L0 d3 r3 calls where L0: "new_scene_list m h = Some L0" "scene_list_init (E d3) L0 = Some (r3, L, calls)"
    using assms by (auto simp: scene_start_def scene_init_def split: option.splits Option.bind_splits)
  then have "engine_rest L0 = (NULL, [], None, [])"
    by (auto simp: new_scene_list_def engine_rest_def split: prod.splits option.splits if_splits)
  with keeps_restD [OF scene_list_init_rest L0(2)] show ?thesis by simp
qed

lemma no_report_steps: "exec_queue clock False n 0 Q = (rest, steps) \<Longrightarrow> Report_Scene x \<notin> set steps"
proof -
  have "Report_Scene x \<notin> set (snd (exec_pass clock False n qs))" for n qs
    by (induction qs arbitrary: n) (auto simp: run_steps_of_def)
  then show "exec_queue clock False n 0 Q = (rest, steps) \<Longrightarrow> Report_Scene x \<notin> set steps" unfolding exec_queue_pass by (metis snd_conv)
qed

text \<open>C37. The gateway registers its report handler before the engine exists, and the registration is refused: after every start, whatever the
  data base holds, the engine has no report handler (and no execution is pending and no timer requested). As long as nothing else
  registers one, no round of the execution thread reports a scene that it executed.\<close>

theorem scene_reports_never_sent:
  assumes "hylinkOpen mem handler (scene_start dbs m h cm qu ex E d) t = Some g" "gw_scene g = Some L"
  shows "pSceneReportHandler L = NULL \<and> pstExecQueue L = [] \<and> timerReqs L = [] \<and>
    (\<forall>L1 smem send clock now L2 msgs steps. pSceneReportHandler L1 = pSceneReportHandler L \<longrightarrow>
       scene_exec_round smem send clock now L1 = Some (L2, msgs, steps) \<longrightarrow> (\<forall>x. Report_Scene x \<notin> set steps))"
proof -
  obtain r calls where "scene_start dbs m h cm qu ex E d None = Some (r, Some L, calls)"
    using assms by (auto simp: hylinkOpen_def scene_adapter_open_def scene_report_register_def split: Option.bind_splits)
  from scene_start_rest [OF this] have "pSceneReportHandler L = NULL" "pstExecQueue L = []" "timerReqs L = []" by (simp_all add: engine_rest_def)
  then show ?thesis by (auto simp: scene_exec_round_def split: prod.splits Option.bind_splits dest: no_report_steps)
qed

definition load_example :: load_env where
  "load_example = \<lparr>ld_rnd = id, ld_db = (\<lambda>q. NoErr), ld_table = (\<lambda>t. NoErr), ld_scenes = (NoErr, []), ld_conds = (\<lambda>c. (NoErr, [])), ld_actions = (\<lambda>i. (NoErr, [])),
     ld_panels = (\<lambda>i. (NoErr, [])), ld_tables_mem = True, ld_scenes_mem = (True, True, True), ld_scene_mem = (\<lambda>i. (True, scene_mem_example)),
     ld_list_mem = (\<lambda>p. (True, True, True)), ld_cond_mem = (\<lambda>p i. (True, 20, 21, \<lambda>i. True, 22)), ld_action_mem = (\<lambda>p i. (True, True, True)),
     ld_panel_mem = (\<lambda>p i. (True, 20, \<lambda>i. True, 30))\<rparr>"

theorem scene_reports_never_sent_witness:
  "\<exists>g L. hylinkOpen (\<lambda>n. (True, True)) 7 (scene_start (Some []) (True, True, True, True, True, True) (True, \<lambda>i. True) (\<lambda>i. False) (\<lambda>d t c. 0) (\<lambda>d q. (0, d)) (\<lambda>d. load_example) ()) [] =
     Some g \<and> gw_scene g = Some L \<and> pSceneReportHandler L = NULL"
proof -
  obtain t where t: "new_ptr_hash_table True (\<lambda>i. True) = Some t" by (rule example_table)
  obtain g L where g: "hylinkOpen (\<lambda>n. (True, True)) 7 (scene_start (Some []) (True, True, True, True, True, True) (True, \<lambda>i. True) (\<lambda>i. False) (\<lambda>d t c. 0) (\<lambda>d q. (0, d)) (\<lambda>d. load_example) ()) [] =
     Some g" "gw_scene g = Some L"
    by (simp add: hylinkOpen_def scene_adapter_open_def scene_report_register_def scene_start_def scene_init_def new_scene_list_def t db_compatibility_def scene_list_init_def
        load_example_def scene_list_get_list_db_def get_list_db_def scene_list_sync_def array_sync_def Let_def)
  from scene_reports_never_sent [OF g] g show ?thesis by blast
qed

end
