(* ===== verification/Hy_Adapter.thy ===== *)
theory Hy_Adapter
  imports Hy_Link
begin

text \<open>
  The library \<open>libhylink\<close>, on which the programs that connect the gateway to other clouds are built: \<open>hylinkListFunc.c\<close>, \<open>hylinkSubDev.c\<close>,
  \<open>hylinkRecv.c\<close>, \<open>hylinkSend.c\<close> and \<open>hylink.c\<close> under \<open>libhylink/src/hylink\<close>. It is a client of the gateway (theory \<open>Hy_Link\<close>) and keeps a copy of
  each device with the attributes that a profile file names; what devices report is stored there and passed on to the cloud,
  an attribute only when its value has changed or when its profile asks for repeated reports.

  Names that the gateway program has too end in \<open>_lib\<close>. What the library hands to its users through \<open>runTransferCb\<close> and
  \<open>runSystemCb\<close> is recorded in order, with the device as it is at that moment. The profile files are a parameter: what the
  parser sees of a file, to which the code appends no zero. As in \<open>Hy_Link\<close>, \<open>None\<close> stands for undefined behaviour.
\<close>

section \<open>Devices and attributes\<close>

datatype attr_value = V_Enum u8 | V_Num u32 | V_String string | V_None

record HyLinkDevAttr =
  hyKey :: string
  valueType :: u8
  attr_val :: attr_value
  repeat_flag :: u8

record HyLinkDev =
  hd_devId :: string
  hd_modelId :: string
  hd_online :: u8
  hd_attr :: "HyLinkDevAttr list"

type_synonym dev_map = "(string \<times> HyLinkDev) list"

definition REPEAT_REPORT :: u8 where "REPEAT_REPORT = 1"
definition SUBDEV_OFFLINE :: u8 where "SUBDEV_OFFLINE = 0"
definition SUBDEV_ONLINE :: u8 where "SUBDEV_ONLINE = 1"
definition SUBDEV_RESTORE :: u8 where "SUBDEV_RESTORE = 2"
definition ATTR_REPORT_ALL :: nat where "ATTR_REPORT_ALL = 255"

definition getHyLinkValueType :: "u8 \<Rightarrow> nat" where
  "getHyLinkValueType dataType = (if dataType = 0 then 1 else if dataType = 1 then 4 else if dataType = 2 then 18 else 0)"

text \<open>The buffer of a value, after it was set to zero.\<close>

definition zero_value :: "u8 \<Rightarrow> attr_value" where
  "zero_value dataType = (if dataType = 0 then V_Enum 0 else if dataType = 1 then V_Num 0 else if dataType = 2 then V_String [] else V_None)"

definition char_int :: "bool \<Rightarrow> u8 \<Rightarrow> int" where
  "char_int is_signed b = (if is_signed then sint b else uint b)"

definition generateCloudJson :: "bool \<Rightarrow> string \<Rightarrow> attr_value \<Rightarrow> json option" where
  "generateCloudJson is_signed cloudKey v = (case v of
     V_Enum b \<Rightarrow> Some (JObject [(cloudKey, JNumber (of_int (char_int is_signed b)))])
   | V_Num w \<Rightarrow> Some (JObject [(cloudKey, JNumber (of_int (sint w)))])
   | V_String s \<Rightarrow> Some (JObject [(cloudKey, JString s)])
   | V_None \<Rightarrow> None)"

section \<open>The state of the library\<close>

datatype ad_msg = Subdev_Line string u8 | Cloud_Report HyLinkDev nat | Scene_Report_Msg string | Mqtt_Report string | Client_Write string | System_Reset

record adapter =
  ad_devs :: dev_map
  ad_sent :: "ad_msg list"

record ad_env =
  ae_parse :: "string \<Rightarrow> json option"
  ae_print :: "json \<Rightarrow> string"
  ae_file :: "string \<Rightarrow> string option"
  ae_mem :: "nat \<Rightarrow> bool \<times> bool"
  ae_send :: int
  ae_signed :: bool

definition say :: "ad_msg list \<Rightarrow> adapter \<Rightarrow> adapter" where
  "say ms S = S\<lparr>ad_sent := ad_sent S @ ms\<rparr>"

text \<open>A device was changed through its pointer.\<close>

definition put_dev :: "HyLinkDev \<Rightarrow> adapter \<Rightarrow> adapter" where
  "put_dev d S = (if map_of (ad_devs S) (hd_devId d) = None then S else S\<lparr>ad_devs := AList.update (hd_devId d) d (ad_devs S)\<rparr>)"

section \<open>The list of devices\<close>

definition hylinkListAdd_lib :: "bool \<Rightarrow> HyLinkDev \<Rightarrow> adapter \<Rightarrow> adapter" where
  "hylinkListAdd_lib ok dev S = (if ok then S\<lparr>ad_devs := AList.update (hd_devId dev) dev (ad_devs S)\<rparr> else S)"

definition hylinkListGetById :: "string \<Rightarrow> adapter \<Rightarrow> HyLinkDev option" where
  "hylinkListGetById ident S = map_of (ad_devs S) ident"

definition hylinkListDel_lib :: "HyLinkDev \<Rightarrow> adapter \<Rightarrow> adapter" where
  "hylinkListDel_lib dev S = S\<lparr>ad_devs := AList.delete (hd_devId dev) (ad_devs S)\<rparr>"

definition hylinkListDelById :: "string \<Rightarrow> adapter \<Rightarrow> int \<times> adapter" where
  "hylinkListDelById ident S = (case hylinkListGetById ident S of None \<Rightarrow> (-1, S) | Some dev \<Rightarrow> (0, hylinkListDel_lib dev S))"

definition hylinkListEmpty_lib :: "adapter \<Rightarrow> adapter" where
  "hylinkListEmpty_lib S = S\<lparr>ad_devs := []\<rparr>"

section \<open>Profiles\<close>

fun json_int :: "json \<Rightarrow> int" where
  "json_int (JNumber d) = valueint d"
| "json_int (JBool b) = (if b then 1 else 0)"
| "json_int _ = 0"

definition parse_attr :: "json \<Rightarrow> HyLinkDevAttr option" where
  "parse_attr j = do {
     k \<leftarrow> cJSON_GetObjectItem j ''hyKey'';
     key \<leftarrow> valuestring k;
     t \<leftarrow> cJSON_GetObjectItem j ''valueType'';
     rp \<leftarrow> cJSON_GetObjectItem j ''repeat'';
     if 33 \<le> length key then None
     else Some \<lparr>hyKey = key, valueType = of_int (json_int t), attr_val = zero_value (of_int (json_int t)), repeat_flag = of_int (json_int rp)\<rparr>
   }"

text \<open>The number of attributes is kept in one byte, and the array has that size. \<open>mem\<close>: memory for the device and its
  values, which is not checked; memory in the hash.\<close>

definition hyLinkParseJson :: "ad_env \<Rightarrow> bool \<times> bool \<Rightarrow> string \<Rightarrow> string \<Rightarrow> adapter \<Rightarrow> (HyLinkDev option \<times> adapter) option" where
  "hyLinkParseJson E mem devId str S = (case ae_parse E str of
     None \<Rightarrow> Some (None, S)
   | Some json_root \<Rightarrow> (case (cJSON_GetObjectItem json_root ''modelId'', cJSON_GetObjectItem json_root ''attr'') of
       (Some modelId, Some attr) \<Rightarrow>
         if children attr = [] then Some (None, S)
         else if 256 \<le> length (children attr) \<or> \<not> fst mem \<or> 33 \<le> length devId then None
         else do {
           model \<leftarrow> valuestring modelId;
           attrs \<leftarrow> those (map parse_attr (children attr));
           if 33 \<le> length model then None
           else let dev = \<lparr>hd_devId = devId, hd_modelId = model, hd_online = SUBDEV_ONLINE, hd_attr = attrs\<rparr> in
             Some (Some dev, hylinkListAdd_lib (snd mem) dev S)
         }
     | _ \<Rightarrow> Some (None, S)))"

definition HYLINK_PROFILE_PATH :: string where "HYLINK_PROFILE_PATH = ''hyprofile''"

definition addProfileDev :: "ad_env \<Rightarrow> bool \<times> bool \<Rightarrow> string \<Rightarrow> string \<Rightarrow> string \<Rightarrow> adapter \<Rightarrow> (HyLinkDev option \<times> adapter) option" where
  "addProfileDev E mem path devId modelId S = (case ae_file E (snprintf 64 (path @ ''/'' @ modelId @ ''.json'')) of
     None \<Rightarrow> Some (None, S)
   | Some buf \<Rightarrow> hyLinkParseJson E mem devId buf S)"

section \<open>Sending\<close>

text \<open>The buffer has 2050 bytes; only the copy is limited, the two bytes behind it are not.\<close>

definition hylinkDispatch_lib :: "string \<Rightarrow> ad_msg option" where
  "hylinkDispatch_lib str = (if 2050 < length str + 3 then None else Some (Client_Write (CHR 0x02 # str @ [CHR 0x03])))"

record HylinkDevSendData =
  ds_Type :: string
  ds_DeviceId :: string
  ds_ModelId :: string
  ds_Key :: string
  ds_Value :: string

definition dev_send_json :: "HylinkDevSendData \<Rightarrow> json" where
  "dev_send_json d = cJSON_AddItemToObject ''Data'' (JArray [text_obj (filter (\<lambda>(k, v). v \<noteq> [])
       [(''DeviceId'', ds_DeviceId d), (''ModelId'', ds_ModelId d), (''Key'', ds_Key d), (''Value'', ds_Value d)])])
     (text_obj [(''Command'', ''Dispatch''), (''FrameNumber'', ''0''), (''Type'', ds_Type d)])"

definition hylinkSend_lib :: "ad_env \<Rightarrow> HylinkDevSendData \<Rightarrow> ad_msg option" where
  "hylinkSend_lib E d = hylinkDispatch_lib (ae_print E (dev_send_json d))"

definition HY_HEART :: string where
  "HY_HEART = [CHR 0x7B] @ [CHR 0x22] @ ''Command'' @ [CHR 0x22] @ '':'' @ [CHR 0x22] @ ''TcpBeatHeart'' @ [CHR 0x22] @ '','' @
     [CHR 0x22] @ ''Period'' @ [CHR 0x22] @ '':'' @ [CHR 0x22] @ ''60'' @ [CHR 0x22] @ [CHR 0x7D]"

definition hylinkHeart :: "adapter \<Rightarrow> adapter" where
  "hylinkHeart S = say [Client_Write HY_HEART] S"

definition zero_send :: HylinkDevSendData where
  "zero_send = \<lparr>ds_Type = [], ds_DeviceId = [], ds_ModelId = [], ds_Key = [], ds_Value = []\<rparr>"

definition hylinkSendDevInfo :: "ad_env \<Rightarrow> ad_msg option" where
  "hylinkSendDevInfo E = hylinkSend_lib E (zero_send\<lparr>ds_Type := ''DevsInfo'', ds_DeviceId := ''0000000000000000'', ds_Key := ''DevsInfo''\<rparr>)"

definition hylinkSendDevAttr :: "ad_env \<Rightarrow> string \<Rightarrow> ad_msg option" where
  "hylinkSendDevAttr E devId = (if 24 \<le> length devId then None
     else hylinkSend_lib E (zero_send\<lparr>ds_Type := ''DevAttri'', ds_DeviceId := devId, ds_Key := ''All''\<rparr>))"

definition hylinkDelDev :: "ad_env \<Rightarrow> string \<Rightarrow> adapter \<Rightarrow> (int \<times> adapter) option" where
  "hylinkDelDev E sn S = (if 24 \<le> length sn then None
     else do {
       m \<leftarrow> hylinkSend_lib E (zero_send\<lparr>ds_Type := ''Delete'', ds_DeviceId := sn\<rparr>);
       let S1 = say [m] S;
       Some (ae_send E, if ae_send E \<ge> 0 then snd (hylinkListDelById sn S1) else S1)
     })"

definition cjson_to_str :: "json \<Rightarrow> string" where
  "cjson_to_str j = (case valuestring j of Some s \<Rightarrow> s | None \<Rightarrow> dec_int (json_int j))"

definition hyCloudCtrlSend :: "ad_env \<Rightarrow> string \<Rightarrow> string \<Rightarrow> string \<Rightarrow> string \<Rightarrow> json \<Rightarrow> string \<Rightarrow> adapter \<Rightarrow> (int \<times> adapter) option" where
  "hyCloudCtrlSend E sn modelId hyType key cloud_payload cloudKey S =
     (if 24 \<le> length sn \<or> 24 \<le> length modelId \<or> 12 \<le> length hyType \<or> 24 \<le> length key then None
      else do {
        cloud_value \<leftarrow> cJSON_GetObjectItem cloud_payload cloudKey;
        if 16 \<le> length (cjson_to_str cloud_value) then None
        else do {
          m \<leftarrow> hylinkSend_lib E \<lparr>ds_Type = (if hyType \<noteq> [] then hyType else ''Ctrl''), ds_DeviceId = sn, ds_ModelId = modelId,
            ds_Key = key, ds_Value = cjson_to_str cloud_value\<rparr>;
          Some (ae_send E, say [m] S)
        }
      })"

section \<open>Attribute values\<close>

text \<open>A number that \<open>atoi\<close> can return; outside of it \<open>atoi\<close> is undefined.\<close>

definition int_text :: "string \<Rightarrow> bool" where
  "int_text s \<longleftrightarrow> INT_MIN \<le> atoi s \<and> atoi s \<le> INT_MAX"

text \<open>The new value of an attribute for a text; \<open>Inl\<close>: the value is the one that is stored. A text is copied by \<open>strcpy\<close> to a buffer of
  18 bytes.\<close>

definition new_value :: "bool \<Rightarrow> string \<Rightarrow> attr_value \<Rightarrow> (attr_value + attr_value) option" where
  "new_value is_signed s v = (case v of
     V_Enum b \<Rightarrow> if \<not> int_text s then None else Some (if atoi s = char_int is_signed b then Inl v else Inr (V_Enum (of_int (atoi s))))
   | V_Num w \<Rightarrow> if \<not> int_text s then None else Some (if atoi s = sint w then Inl v else Inr (V_Num (of_int (atoi s))))
   | V_String t \<Rightarrow> if strcmp t s = 0 then Some (Inl v) else if 18 \<le> length s then None else Some (Inr (V_String s))
   | V_None \<Rightarrow> Some (Inr V_None))"

definition set_attr :: "nat \<Rightarrow> attr_value \<Rightarrow> HyLinkDev \<Rightarrow> HyLinkDev" where
  "set_attr i v d = d\<lparr>hd_attr := (hd_attr d)[i := (hd_attr d ! i)\<lparr>attr_val := v\<rparr>]\<rparr>"

definition hylinkSubDevAttrUpdate :: "bool \<Rightarrow> HyLinkDev \<Rightarrow> json \<Rightarrow> (int \<times> HyLinkDev) option" where
  "hylinkSubDevAttrUpdate is_signed d j = (case cJSON_GetObjectItem j ''Key'' of
     None \<Rightarrow> Some (-1, d)
   | Some key \<Rightarrow>
       if hd_attr d = [] then Some (-1, d)
       else do {
         k \<leftarrow> valuestring key;
         case List.find (\<lambda>i. strcmp (hyKey (hd_attr d ! i)) k = 0) [0..<length (hd_attr d)] of
           None \<Rightarrow> Some (-1, d)
         | Some i \<Rightarrow> (case cJSON_GetObjectItem j ''Value'' of
             None \<Rightarrow> Some (-1, d)
           | Some v \<Rightarrow> do {
               s \<leftarrow> valuestring v;
               if s = [] then Some (-1, d)
               else do {
                 x \<leftarrow> new_value is_signed s (attr_val (hd_attr d ! i));
                 case x of
                   Inl w \<Rightarrow> Some (if repeat_flag (hd_attr d ! i) \<noteq> REPEAT_REPORT then -2 else int i, d)
                 | Inr w \<Rightarrow> Some (int i, set_attr i w d)
               }
             })
       })"

section \<open>Messages of the gateway\<close>

text \<open>The parameters of a device; the message about a failure names the attribute with the number of the parameter.\<close>

fun params_loop :: "bool \<Rightarrow> nat \<Rightarrow> json list \<Rightarrow> HyLinkDev \<Rightarrow> HyLinkDev option" where
  "params_loop is_signed i [] d = Some d"
| "params_loop is_signed i (j # js) d = do {
     (res, d1) \<leftarrow> hylinkSubDevAttrUpdate is_signed d j;
     if res < 0 \<and> length (hd_attr d1) \<le> i then None else params_loop is_signed (Suc i) js d1
   }"

definition dev_info_done :: "ad_env \<Rightarrow> json \<Rightarrow> HyLinkDev \<Rightarrow> adapter \<Rightarrow> adapter option" where
  "dev_info_done E j d S = do {
     d1 \<leftarrow> (case cJSON_GetObjectItem j ''Params'' of None \<Rightarrow> Some d | Some ps \<Rightarrow> params_loop (ae_signed E) 0 (children ps) d);
     m \<leftarrow> hylinkSendDevAttr E (hd_devId d1);
     Some (say [Cloud_Report d1 ATTR_REPORT_ALL, m] (put_dev d1 S))
   }"

definition hylinkAnalyDevInfo :: "ad_env \<Rightarrow> nat \<Rightarrow> json \<Rightarrow> adapter \<Rightarrow> adapter option" where
  "hylinkAnalyDevInfo E i j S = (case (cJSON_GetObjectItem j ''ModelId'', cJSON_GetObjectItem j ''DeviceId'') of
     (Some md, Some devid) \<Rightarrow> do {
       onl \<leftarrow> getByteForJson j ''Online'' 0;
       ident \<leftarrow> valuestring devid;
       case hylinkListGetById ident S of
         None \<Rightarrow>
           if onl = SUBDEV_ONLINE then do {
             hyModelId \<leftarrow> getStrForJson 33 j ''ModelId'' [];
             (dv, S1) \<leftarrow> addProfileDev E (ae_mem E i) HYLINK_PROFILE_PATH ident hyModelId S;
             case dv of None \<Rightarrow> Some S1 | Some d \<Rightarrow> dev_info_done E j d S1
           } else Some S
       | Some d \<Rightarrow>
           if onl \<noteq> hd_online d then
             let d1 = d\<lparr>hd_online := onl\<rparr> in dev_info_done E j d1 (say [Subdev_Line (hd_devId d1) (hd_online d1)] (put_dev d1 S))
           else Some S
     }
   | _ \<Rightarrow> Some S)"

definition hylink_report_type :: "string list" where
  "hylink_report_type = [''Register'', ''UnRegister'', ''OnOff'', ''Attribute'', ''Event'', ''DevAttri'', ''DevsInfo'', ''LocalScene'', ''ReFactory'']"

text \<open>A device that is not known is added by its model; \<open>ask\<close>: its attributes are asked for.\<close>

definition add_known :: "ad_env \<Rightarrow> nat \<Rightarrow> bool \<Rightarrow> string \<Rightarrow> json \<Rightarrow> adapter \<Rightarrow> adapter option" where
  "add_known E i ask hyDevId j S = do {
     hyModelId \<leftarrow> getStrForJson 33 j ''ModelId'' [];
     (dv, S1) \<leftarrow> addProfileDev E (ae_mem E i) HYLINK_PROFILE_PATH hyDevId hyModelId S;
     case dv of
       None \<Rightarrow> Some S1
     | Some d \<Rightarrow> if ask then do { m \<leftarrow> hylinkSendDevAttr E (hd_devId d); Some (say [Cloud_Report d ATTR_REPORT_ALL, m] S1) }
         else Some (say [Cloud_Report d ATTR_REPORT_ALL] S1)
   }"

definition analy_attr :: "ad_env \<Rightarrow> json \<Rightarrow> HyLinkDev \<Rightarrow> adapter \<Rightarrow> adapter option" where
  "analy_attr E j d S = do {
     (d1, ms) \<leftarrow> (if hd_online d = SUBDEV_OFFLINE then do {
         m \<leftarrow> hylinkSendDevAttr E (hd_devId d);
         Some (d\<lparr>hd_online := SUBDEV_ONLINE\<rparr>, [Subdev_Line (hd_devId d) SUBDEV_ONLINE, m])
       } else Some (d, []));
     (type, d2) \<leftarrow> hylinkSubDevAttrUpdate (ae_signed E) d1 j;
     Some (say (ms @ (if type < 0 then [] else [Cloud_Report d2 (nat type)])) (put_dev d2 S))
   }"

definition analy_item :: "ad_env \<Rightarrow> string \<Rightarrow> nat \<Rightarrow> json \<Rightarrow> string \<Rightarrow> adapter \<Rightarrow> adapter option" where
  "analy_item E type i j hyDevId S =
     (if type = ''Register'' then (case hylinkListGetById hyDevId S of
        None \<Rightarrow> add_known E i False hyDevId j S
      | Some d \<Rightarrow> let d1 = d\<lparr>hd_online := SUBDEV_ONLINE\<rparr> in Some (say [Subdev_Line (hd_devId d1) (hd_online d1)] (put_dev d1 S)))
      else if type = ''UnRegister'' then (case hylinkListGetById hyDevId S of
        None \<Rightarrow> Some S
      | Some d \<Rightarrow> Some (hylinkListDel_lib d (say [Subdev_Line (hd_devId d) SUBDEV_RESTORE] S)))
      else if type = ''OnOff'' then do {
        onl \<leftarrow> getByteForJson j ''Value'' 0;
        case hylinkListGetById hyDevId S of
          None \<Rightarrow> if onl \<noteq> 0 \<and> cJSON_GetObjectItem j ''ModelId'' \<noteq> None then add_known E i True hyDevId j S else Some S
        | Some d \<Rightarrow> if onl \<noteq> hd_online d then do {
              b \<leftarrow> getByteForJson j ''Value'' (hd_online d);
              let d1 = d\<lparr>hd_online := b\<rparr>;
              Some (say [Subdev_Line (hd_devId d1) (hd_online d1)] (put_dev d1 S))
            } else Some S
      }
      else if type = ''Attribute'' \<or> type = ''Event'' \<or> type = ''DevAttri'' then (case hylinkListGetById hyDevId S of
        Some d \<Rightarrow> analy_attr E j d S
      | None \<Rightarrow> if cJSON_GetObjectItem j ''ModelId'' \<noteq> None then add_known E i True hyDevId j S else Some S)
      else if type = ''DevsInfo'' then hylinkAnalyDevInfo E i j S
      else if type = ''LocalScene'' then do {
        op \<leftarrow> cJSON_GetObjectItem j ''Op'';
        ops \<leftarrow> valuestring op;
        if strcmp ''ExecScene'' ops = 0 then (case cJSON_GetObjectItem j ''Id'' of
            None \<Rightarrow> Some S
          | Some ident \<Rightarrow> do { s \<leftarrow> valuestring ident; Some (say [Scene_Report_Msg s] S) })
        else Some S
      }
      else Some S)"

fun analy_loop :: "ad_env \<Rightarrow> string \<Rightarrow> nat \<Rightarrow> json list \<Rightarrow> string \<Rightarrow> adapter \<Rightarrow> adapter option" where
  "analy_loop E type i [] hyDevId S = Some S"
| "analy_loop E type i (j # js) hyDevId S = do {
     d \<leftarrow> getStrForJson 33 j ''DeviceId'' hyDevId;
     S1 \<leftarrow> analy_item E type i j d S;
     analy_loop E type (Suc i) js d S1
   }"

definition hylinkRecvAnaly :: "ad_env \<Rightarrow> string \<Rightarrow> adapter \<Rightarrow> (int \<times> adapter) option" where
  "hylinkRecvAnaly E data S = (case ae_parse E data of
     None \<Rightarrow> Some (-1, S)
   | Some json_root \<Rightarrow> (case cJSON_GetObjectItem json_root ''Command'' of
       None \<Rightarrow> Some (-1, S)
     | Some c \<Rightarrow> do {
         cmd \<leftarrow> valuestring c;
         if strcmp ''BeatHeartResponse'' cmd = 0 then Some (0, say [Mqtt_Report data] S)
         else if strcmp ''Report'' cmd \<noteq> 0 then Some (-1, S)
         else (case (cJSON_GetObjectItem json_root ''Type'', cJSON_GetObjectItem json_root ''Data'') of
             (Some ty, Some d) \<Rightarrow>
               let type = findStrIndex (valuestring ty) hylink_report_type in
               if type = -1 then Some (-1, S)
               else if type = 8 then Some (-1, say [System_Reset] S)
               else do { S1 \<leftarrow> analy_loop E (hylink_report_type ! nat type) 0 (children d) [] S; Some (0, say [Mqtt_Report data] S1) }
           | _ \<Rightarrow> Some (-1, S))
       }))"

text \<open>After a frame that was understood, two more bytes are skipped.\<close>

fun hylinkRecv_lib :: "(nat \<Rightarrow> ad_env) \<Rightarrow> nat \<Rightarrow> string \<Rightarrow> adapter \<Rightarrow> adapter option" where
  "hylinkRecv_lib Es n [] S = Some S"
| "hylinkRecv_lib Es n (c # cs) S =
     (if c = CHR 0x02 then do {
        (ret, S1) \<leftarrow> hylinkRecvAnaly (Es n) (takeWhile (\<lambda>c. c \<noteq> CHR 0x00) cs) S;
        hylinkRecv_lib Es (Suc n) (if ret = 0 then drop 2 cs else cs) S1
      } else hylinkRecv_lib Es n cs S)"

section \<open>Start and end\<close>

definition hylinkInit :: "ad_env \<Rightarrow> adapter option" where
  "hylinkInit E = do {
     (gw, S) \<leftarrow> addProfileDev E (ae_mem E 0) HYLINK_PROFILE_PATH ''0000000000000000'' ''000000'' \<lparr>ad_devs = [], ad_sent = []\<rparr>;
     Some (case gw of None \<Rightarrow> S | Some d \<Rightarrow> say [Cloud_Report d ATTR_REPORT_ALL] S)
   }"

text \<open>When the connection to the gateway is made, the devices are asked for.\<close>

definition connect_lib :: "ad_env \<Rightarrow> adapter \<Rightarrow> adapter option" where
  "connect_lib E S = do { m \<leftarrow> hylinkSendDevInfo E; Some (say [m] S) }"

definition hylinkClose_lib :: "adapter \<Rightarrow> adapter" where
  "hylinkClose_lib S = hylinkListEmpty_lib S"

section \<open>Well-formed devices\<close>

definition value_ok :: "HyLinkDevAttr \<Rightarrow> bool" where
  "value_ok a \<longleftrightarrow> length (hyKey a) < 33 \<and> (case attr_val a of V_Enum b \<Rightarrow> valueType a = 0 | V_Num w \<Rightarrow> valueType a = 1
     | V_String s \<Rightarrow> valueType a = 2 \<and> length s < 18 | V_None \<Rightarrow> getHyLinkValueType (valueType a) = 0)"

definition dev_ok :: "HyLinkDev \<Rightarrow> bool" where
  "dev_ok d \<longleftrightarrow> length (hd_devId d) < 33 \<and> length (hd_modelId d) < 33 \<and> hd_attr d \<noteq> [] \<and> length (hd_attr d) < 256 \<and> list_all value_ok (hd_attr d)"

lemma dev_ok_online [simp]: "dev_ok (d\<lparr>hd_online := v\<rparr>) = dev_ok d"
  by (simp add: dev_ok_def)

lemma those_all: "those xs = Some ys \<Longrightarrow> length ys = length xs \<and> (\<forall>y \<in> set ys. Some y \<in> set xs)"
  by (induction xs arbitrary: ys) (auto split: option.splits)

lemma parse_attr_ok: "parse_attr j = Some a \<Longrightarrow> value_ok a"
  by (auto simp: parse_attr_def value_ok_def zero_value_def getHyLinkValueType_def split: Option.bind_splits if_splits)

lemma hyLinkParseJson_ok:
  assumes "hyLinkParseJson E mem devId str S = Some (dv, S')"
  shows "(dv = None \<and> S' = S) \<or> (\<exists>d. dv = Some d \<and> dev_ok d \<and> hd_devId d = devId \<and> S' = hylinkListAdd_lib (snd mem) d S)"
proof -
  have "list_all value_ok ys" if "those (map parse_attr xs) = Some ys" for xs ys
    using those_all [OF that] parse_attr_ok by (auto simp: list_all_iff)
  moreover have "ys \<noteq> [] \<longleftrightarrow> xs \<noteq> []" "length ys = length xs" if "those (map parse_attr xs) = Some ys" for xs ys
    using those_all [OF that] by auto
  ultimately show ?thesis using assms unfolding hyLinkParseJson_def
    by (fastforce simp: dev_ok_def Let_def not_le split: option.splits if_splits Option.bind_splits)
qed

lemma addProfileDev_ok:
  assumes "addProfileDev E mem path devId m S = Some (dv, S')"
  shows "(dv = None \<and> S' = S) \<or> (\<exists>d. dv = Some d \<and> dev_ok d \<and> hd_devId d = devId \<and> S' = hylinkListAdd_lib (snd mem) d S)"
  using assms hyLinkParseJson_ok by (auto simp: addProfileDev_def split: option.splits)

lemma new_value_ok: "new_value sg s (attr_val a) = Some (Inr v) \<Longrightarrow> value_ok a \<Longrightarrow> value_ok (a\<lparr>attr_val := v\<rparr>)"
  by (auto simp: new_value_def value_ok_def split: attr_value.splits if_splits)

text \<open>The exact effect of an update: an error or a repeated value changes nothing; otherwise the attribute whose number
  is returned has the new value.\<close>

lemma find_index: "List.find P [0..<n] = Some i \<Longrightarrow> i < n"
  by (auto simp: find_Some_iff)

lemma attr_update_cases:
  assumes "hylinkSubDevAttrUpdate sg d j = Some (r, d')"
  shows "(r < 0 \<and> d' = d) \<or> (\<exists>i < length (hd_attr d). r = int i \<and>
    (d' = d \<or> (\<exists>s v. new_value sg s (attr_val (hd_attr d ! i)) = Some (Inr v) \<and> d' = set_attr i v d)))"
proof (cases "r < 0")
  case True
  then show ?thesis using assms unfolding hylinkSubDevAttrUpdate_def by (auto split: option.splits if_splits Option.bind_splits sum.splits)
next
  case False
  then obtain i s x P where "List.find P [0..<length (hd_attr d)] = Some i" "new_value sg s (attr_val (hd_attr d ! i)) = Some x"
      "(r, d') = (case x of Inl w \<Rightarrow> (int i, d) | Inr w \<Rightarrow> (int i, set_attr i w d))"
    using assms unfolding hylinkSubDevAttrUpdate_def by (fastforce split: option.splits if_splits Option.bind_splits sum.splits)
  with find_index show ?thesis by (cases x) auto
qed

lemma map_update_same: "i < length xs \<Longrightarrow> (map f xs)[i := f (xs ! i)] = map f xs"
  by (metis list_update_id nth_map)

lemma attr_update_ok:
  assumes "hylinkSubDevAttrUpdate sg d j = Some (r, d')" "dev_ok d"
  shows "dev_ok d'" "hd_devId d' = hd_devId d" "hd_online d' = hd_online d" "length (hd_attr d') = length (hd_attr d)"
    "r < 0 \<Longrightarrow> d' = d"
    "0 \<le> r \<Longrightarrow> nat r < length (hd_attr d) \<and> map attr_val (hd_attr d') = (map attr_val (hd_attr d))[nat r := attr_val (hd_attr d' ! nat r)]"
proof -
  note cases = attr_update_cases [OF assms(1)]
  have ok: "dev_ok (set_attr i v d)" if "i < length (hd_attr d)" "new_value sg s (attr_val (hd_attr d ! i)) = Some (Inr v)" for i s v
    using assms(2) that new_value_ok [OF that(2)] by (auto simp: dev_ok_def set_attr_def list_all_length nth_list_update)
  show "dev_ok d'" using cases assms(2) ok by blast
  show "hd_devId d' = hd_devId d" "hd_online d' = hd_online d" "length (hd_attr d') = length (hd_attr d)"
    using cases by (auto simp: set_attr_def)
  show "r < 0 \<Longrightarrow> d' = d" using cases by auto
  show "0 \<le> r \<Longrightarrow> nat r < length (hd_attr d) \<and> map attr_val (hd_attr d') = (map attr_val (hd_attr d))[nat r := attr_val (hd_attr d' ! nat r)]"
    using cases by (auto simp: set_attr_def map_update map_update_same)
qed

lemma params_loop_ok: "params_loop sg i js d = Some d' \<Longrightarrow> dev_ok d \<Longrightarrow> dev_ok d' \<and> hd_devId d' = hd_devId d"
proof (induction js arbitrary: i d)
  case (Cons j js)
  then obtain r d1 where 1: "hylinkSubDevAttrUpdate sg d j = Some (r, d1)" "params_loop sg (Suc i) js d1 = Some d'"
    by (auto split: Option.bind_splits if_splits)
  show ?case using Cons.IH [OF 1(2)] attr_update_ok(1,2) [OF 1(1) Cons.prems(2)] by simp
qed simp

section \<open>The copy of the cloud\<close>

text \<open>The values that the cloud was told last, by device.\<close>

fun cloud_apply :: "ad_msg \<Rightarrow> (string \<rightharpoonup> attr_value list) \<Rightarrow> (string \<rightharpoonup> attr_value list)" where
  "cloud_apply (Cloud_Report d i) V = V(hd_devId d \<mapsto> if i = ATTR_REPORT_ALL then map attr_val (hd_attr d)
     else (case V (hd_devId d) of None \<Rightarrow> [] | Some vs \<Rightarrow> vs[i := attr_val (hd_attr d ! i)]))"
| "cloud_apply m V = V"

definition cloud_view :: "ad_msg list \<Rightarrow> string \<rightharpoonup> attr_value list" where
  "cloud_view ms = fold cloud_apply ms Map.empty"

definition in_step :: "adapter \<Rightarrow> bool" where
  "in_step S \<longleftrightarrow> (\<forall>k d. map_of (ad_devs S) k = Some d \<longrightarrow> hd_devId d = k \<and> dev_ok d \<and> cloud_view (ad_sent S) k = Some (map attr_val (hd_attr d)))"

definition quiet :: "ad_msg \<Rightarrow> bool" where
  "quiet m \<longleftrightarrow> (\<forall>V. cloud_apply m V = V)"

lemma quiet_simps [simp]: "quiet (Subdev_Line k b)" "quiet (Client_Write w)" "quiet (Mqtt_Report w)" "quiet (Scene_Report_Msg w)" "quiet System_Reset"
  by (simp_all add: quiet_def)

lemma send_quiet: "hylinkSend_lib E x = Some m \<Longrightarrow> quiet m" "hylinkSendDevAttr E k = Some m \<Longrightarrow> quiet m" "hylinkSendDevInfo E = Some m \<Longrightarrow> quiet m"
  by (auto simp: hylinkSendDevAttr_def hylinkSendDevInfo_def hylinkSend_lib_def hylinkDispatch_lib_def split: if_splits)

lemma fold_quiet: "\<forall>m \<in> set ms. quiet m \<Longrightarrow> fold cloud_apply ms V = V"
  by (induction ms) (auto simp: quiet_def)

lemma cloud_view_say [simp]: "cloud_view (ad_sent (say ms S)) = fold cloud_apply ms (cloud_view (ad_sent S))" "ad_devs (say ms S) = ad_devs S"
  by (simp_all add: cloud_view_def say_def)

lemma in_step_quiet: "\<forall>m \<in> set ms. quiet m \<Longrightarrow> in_step (say ms S) = in_step S"
  by (simp add: in_step_def fold_quiet)

text \<open>A device whose values are all reported may be put into the list.\<close>

lemma in_step_report:
  assumes "in_step S" "dev_ok d" "\<forall>m \<in> set ms. quiet m"
    "ad_sent S' = ad_sent S" "map_of (ad_devs S') = (map_of (ad_devs S))(hd_devId d \<mapsto> d) \<or> ad_devs S' = ad_devs S \<and> map_of (ad_devs S) (hd_devId d) = None"
  shows "in_step (say (Cloud_Report d ATTR_REPORT_ALL # ms) S')"
  using assms by (auto simp: in_step_def fold_quiet split: if_splits)

lemma in_step_add:
  assumes "in_step S" "dev_ok d" "\<forall>m \<in> set ms. quiet m" "map_of (ad_devs S) (hd_devId d) = None"
  shows "in_step (say (Cloud_Report d ATTR_REPORT_ALL # ms) (hylinkListAdd_lib ok d S))"
  by (rule in_step_report [OF assms(1-3)]) (use assms(4) in \<open>auto simp: hylinkListAdd_lib_def update_conv'\<close>)

text \<open>A device that changes in its state, or in the one attribute that is reported.\<close>

lemma in_step_online:
  assumes "in_step S" "map_of (ad_devs S) k = Some d" "\<forall>m \<in> set ms. quiet m"
  shows "in_step (say ms (put_dev (d\<lparr>hd_online := b\<rparr>) S))"
  using assms by (auto simp: fold_quiet in_step_def put_dev_def update_conv' split: if_splits)

lemma in_step_attr:
  assumes "in_step S" "map_of (ad_devs S) k = Some d" "hylinkSubDevAttrUpdate sg (d\<lparr>hd_online := b\<rparr>) j = Some (r, d')" "\<forall>m \<in> set ms. quiet m"
  shows "in_step (say (ms @ (if r < 0 then [] else [Cloud_Report d' (nat r)])) (put_dev d' S))"
proof -
  have d: "hd_devId d = k" "dev_ok d" "cloud_view (ad_sent S) k = Some (map attr_val (hd_attr d))" using assms(1,2) by (auto simp: in_step_def)
  then have "dev_ok (d\<lparr>hd_online := b\<rparr>)" by simp
  note u = attr_update_ok [OF assms(3) this]
  have n: "nat r \<noteq> ATTR_REPORT_ALL" if "0 \<le> r" using u(6) [OF that] d(2) by (auto simp: dev_ok_def ATTR_REPORT_ALL_def)
  have p: "map_of (ad_devs (put_dev d' S)) = (map_of (ad_devs S))(k \<mapsto> d')" "ad_sent (put_dev d' S) = ad_sent S"
    using u(2) d(1) assms(2) by (simp_all add: put_dev_def update_conv')
  show ?thesis
  proof (cases "r < 0")
    case True
    then have "d' = d\<lparr>hd_online := b\<rparr>" using u(5) by simp
    then show ?thesis using True assms(1,4) d p by (auto simp: fold_quiet in_step_def split: if_splits)
  next
    case False
    then show ?thesis using assms(1,4) d p u n by (auto simp: in_step_def fold_quiet split: if_splits)
  qed
qed

text \<open>The handlers.\<close>

lemma add_known_in_step:
  assumes "in_step S" "add_known E i ask k j S = Some S'" "hylinkListGetById k S = None"
  shows "in_step S'"
proof -
  obtain m dv S1 where a: "addProfileDev E (ae_mem E i) HYLINK_PROFILE_PATH k m S = Some (dv, S1)"
    "(case dv of None \<Rightarrow> Some S1 | Some d \<Rightarrow> if ask then do { m \<leftarrow> hylinkSendDevAttr E (hd_devId d); Some (say [Cloud_Report d ATTR_REPORT_ALL, m] S1) }
        else Some (say [Cloud_Report d ATTR_REPORT_ALL] S1)) = Some S'"
    using assms(2) by (auto simp: add_known_def split: Option.bind_splits)
  from addProfileDev_ok [OF a(1)] show ?thesis
  proof
    assume "dv = None \<and> S1 = S"
    then show ?thesis using a(2) assms(1) by simp
  next
    assume "\<exists>d. dv = Some d \<and> dev_ok d \<and> hd_devId d = k \<and> S1 = hylinkListAdd_lib (snd (ae_mem E i)) d S"
    then obtain d where d: "dv = Some d" "dev_ok d" "hd_devId d = k" "S1 = hylinkListAdd_lib (snd (ae_mem E i)) d S" by blast
    have n: "map_of (ad_devs S) (hd_devId d) = None" using assms(3) d(3) by (simp add: hylinkListGetById_def)
    show ?thesis using a(2) in_step_add [OF assms(1) d(2) _ n] by (auto simp: d(1,4) split: if_splits Option.bind_splits dest!: send_quiet)
  qed
qed

lemma dev_info_in_step:
  assumes "in_step S" "dev_ok d" "dev_info_done E j d S1 = Some S'" "ad_sent S1 = ad_sent S"
    "map_of (ad_devs S1) = (map_of (ad_devs S))(hd_devId d \<mapsto> d) \<or> ad_devs S1 = ad_devs S \<and> map_of (ad_devs S) (hd_devId d) = None"
  shows "in_step S'"
proof -
  obtain d1 m where 1: "(case cJSON_GetObjectItem j ''Params'' of None \<Rightarrow> Some d | Some ps \<Rightarrow> params_loop (ae_signed E) 0 (children ps) d) = Some d1"
    "hylinkSendDevAttr E (hd_devId d1) = Some m" "S' = say [Cloud_Report d1 ATTR_REPORT_ALL, m] (put_dev d1 S1)"
    using assms(3) by (auto simp: dev_info_done_def split: Option.bind_splits)
  have d1: "dev_ok d1" "hd_devId d1 = hd_devId d" using 1(1) assms(2) params_loop_ok by (fastforce split: option.splits)+
  have "map_of (ad_devs (put_dev d1 S1)) = (map_of (ad_devs S))(hd_devId d1 \<mapsto> d1) \<or> ad_devs (put_dev d1 S1) = ad_devs S \<and> map_of (ad_devs S) (hd_devId d1) = None"
    "ad_sent (put_dev d1 S1) = ad_sent S"
    using assms(4,5) d1(2) by (auto simp: put_dev_def update_conv')
  from in_step_report [OF assms(1) d1(1) _ this(2,1), of "[m]"] 1(2,3) show ?thesis by (auto dest: send_quiet)
qed

lemma new_dev_info_in_step:
  assumes "in_step S" "hylinkListGetById k S = None" "addProfileDev E mm path k m S = Some (dv, S1)" "(case dv of None \<Rightarrow> Some S1 | Some d \<Rightarrow> dev_info_done E j d S1) = Some S'"
  shows "in_step S'"
proof (cases dv)
  case None
  then show ?thesis using addProfileDev_ok [OF assms(3)] assms(1,4) by simp
next
  case (Some d)
  then have d: "dev_ok d" "hd_devId d = k" "S1 = hylinkListAdd_lib (snd mm) d S" "dev_info_done E j d S1 = Some S'"
    using addProfileDev_ok [OF assms(3)] assms(4) by auto
  show ?thesis
    by (rule dev_info_in_step [OF assms(1) d(1,4)]) (use d assms(2) in \<open>auto simp: hylinkListAdd_lib_def hylinkListGetById_def update_conv'\<close>)
qed

lemma analy_dev_info_in_step:
  assumes "in_step S" "hylinkAnalyDevInfo E i j S = Some S'"
  shows "in_step S'"
proof (cases "cJSON_GetObjectItem j ''ModelId'' = None \<or> cJSON_GetObjectItem j ''DeviceId'' = None")
  case True
  then show ?thesis using assms by (auto simp: hylinkAnalyDevInfo_def split: option.splits)
next
  case False
  then obtain onl k where g: "(case hylinkListGetById k S of
         None \<Rightarrow>
           if onl = SUBDEV_ONLINE then do {
             hyModelId \<leftarrow> getStrForJson 33 j ''ModelId'' [];
             (dv, S1) \<leftarrow> addProfileDev E (ae_mem E i) HYLINK_PROFILE_PATH k hyModelId S;
             case dv of None \<Rightarrow> Some S1 | Some d \<Rightarrow> dev_info_done E j d S1
           } else Some S
       | Some d \<Rightarrow>
           if onl \<noteq> hd_online d then
             let d1 = d\<lparr>hd_online := onl\<rparr> in dev_info_done E j d1 (say [Subdev_Line (hd_devId d1) (hd_online d1)] (put_dev d1 S))
           else Some S) = Some S'"
    using assms(2) by (auto simp: hylinkAnalyDevInfo_def split: Option.bind_splits)
  show ?thesis
  proof (cases "hylinkListGetById k S")
    case None
    then show ?thesis using g assms(1) by (auto split: if_splits Option.bind_splits intro: new_dev_info_in_step [OF assms(1) None])
  next
    case (Some d)
    then have d: "hd_devId d = k" "dev_ok d" "map_of (ad_devs S) k = Some d" using assms(1) by (auto simp: in_step_def hylinkListGetById_def)
    let ?d = "d\<lparr>hd_online := onl\<rparr>"
    have q: "in_step (say [Subdev_Line k onl] S)" using assms(1) by (simp add: in_step_quiet)
    have "in_step S'" if "dev_info_done E j ?d (say [Subdev_Line (hd_devId ?d) (hd_online ?d)] (put_dev ?d S)) = Some S'"
      by (rule dev_info_in_step [OF q _ that]) (use d in \<open>auto simp: put_dev_def update_conv' say_def\<close>)
    then show ?thesis using g Some assms(1) by (auto simp: Let_def split: if_splits)
  qed
qed

lemma analy_attr_in_step:
  assumes "in_step S" "map_of (ad_devs S) k = Some d" "analy_attr E j d S = Some S'"
  shows "in_step S'"
proof -
  obtain b ms r d2 where 1: "hylinkSubDevAttrUpdate (ae_signed E) (d\<lparr>hd_online := b\<rparr>) j = Some (r, d2)" "\<forall>m \<in> set ms. quiet m"
    "S' = say (ms @ (if r < 0 then [] else [Cloud_Report d2 (nat r)])) (put_dev d2 S)"
  proof (cases "hd_online d = SUBDEV_OFFLINE")
    case True
    then obtain m r d2 where "hylinkSendDevAttr E (hd_devId d) = Some m" "hylinkSubDevAttrUpdate (ae_signed E) (d\<lparr>hd_online := SUBDEV_ONLINE\<rparr>) j = Some (r, d2)"
      "S' = say ([Subdev_Line (hd_devId d) SUBDEV_ONLINE, m] @ (if r < 0 then [] else [Cloud_Report d2 (nat r)])) (put_dev d2 S)"
      using assms(3) by (auto simp: analy_attr_def split: Option.bind_splits)
    then show thesis using that send_quiet(2) by (metis insert_iff list.set(2) empty_iff list.set(1) quiet_simps(1))
  next
    case False
    have "d\<lparr>hd_online := hd_online d\<rparr> = d" by simp
    then show thesis using that [of "hd_online d" _ _ "[]"] assms(3) False by (auto simp: analy_attr_def split: Option.bind_splits)
  qed
  show ?thesis using in_step_attr [OF assms(1,2) 1(1,2)] 1(3) by simp
qed

lemma in_step_del: "in_step S \<Longrightarrow> in_step (hylinkListDel_lib d S)" "in_step S \<Longrightarrow> in_step (snd (hylinkListDelById k S))"
  by (auto simp: in_step_def hylinkListDelById_def hylinkListDel_lib_def delete_conv' split: if_splits option.splits)

lemma analy_item_types:
  "analy_item E ''Register'' i j k S = (case hylinkListGetById k S of None \<Rightarrow> add_known E i False k j S
     | Some d \<Rightarrow> Some (say [Subdev_Line (hd_devId d) SUBDEV_ONLINE] (put_dev (d\<lparr>hd_online := SUBDEV_ONLINE\<rparr>) S)))"
  "analy_item E ''UnRegister'' i j k S = (case hylinkListGetById k S of None \<Rightarrow> Some S
     | Some d \<Rightarrow> Some (hylinkListDel_lib d (say [Subdev_Line (hd_devId d) SUBDEV_RESTORE] S)))"
  "analy_item E ''OnOff'' i j k S = do {
     onl \<leftarrow> getByteForJson j ''Value'' 0;
     case hylinkListGetById k S of
       None \<Rightarrow> if onl \<noteq> 0 \<and> cJSON_GetObjectItem j ''ModelId'' \<noteq> None then add_known E i True k j S else Some S
     | Some d \<Rightarrow> if onl \<noteq> hd_online d then do {
           b \<leftarrow> getByteForJson j ''Value'' (hd_online d);
           Some (say [Subdev_Line (hd_devId (d\<lparr>hd_online := b\<rparr>)) (hd_online (d\<lparr>hd_online := b\<rparr>))] (put_dev (d\<lparr>hd_online := b\<rparr>) S))
         } else Some S }"
  "type = ''Attribute'' \<or> type = ''Event'' \<or> type = ''DevAttri'' \<Longrightarrow> analy_item E type i j k S = (case hylinkListGetById k S of
     Some d \<Rightarrow> analy_attr E j d S | None \<Rightarrow> if cJSON_GetObjectItem j ''ModelId'' \<noteq> None then add_known E i True k j S else Some S)"
  "analy_item E ''DevsInfo'' i j k S = hylinkAnalyDevInfo E i j S"
  unfolding analy_item_def Let_def by (auto split: option.splits cong: option.case_cong)

lemma analy_scene_in_step: "in_step S \<Longrightarrow> analy_item E ''LocalScene'' i j k S = Some S' \<Longrightarrow> in_step S'"
  by (auto simp: analy_item_def in_step_quiet split: option.splits Option.bind_splits if_splits)

lemma analy_onoff_in_step:
  assumes "in_step S" "analy_item E ''OnOff'' i j k S = Some S'"
  shows "in_step S'"
proof (cases "hylinkListGetById k S")
  case None
  show ?thesis using assms(2) add_known_in_step [OF assms(1) _ None] assms(1) by (auto simp: analy_item_types None split: Option.bind_splits if_splits)
next
  case (Some d)
  then have d: "map_of (ad_devs S) k = Some d" by (simp add: hylinkListGetById_def)
  show ?thesis using assms in_step_online [OF assms(1) d] by (auto simp: analy_item_types Some split: Option.bind_splits if_splits)
qed

lemma analy_item_in_step:
  assumes "in_step S" "analy_item E type i j k S = Some S'"
  shows "in_step S'"
proof -
  consider "type = ''Register''" | "type = ''UnRegister''" | "type = ''OnOff''" | "type = ''Attribute'' \<or> type = ''Event'' \<or> type = ''DevAttri''"
    | "type = ''DevsInfo''" | "type = ''LocalScene''"
    | "type \<noteq> ''Register'' \<and> type \<noteq> ''UnRegister'' \<and> type \<noteq> ''OnOff'' \<and> type \<noteq> ''Attribute'' \<and> type \<noteq> ''Event'' \<and> type \<noteq> ''DevAttri'' \<and>
        type \<noteq> ''DevsInfo'' \<and> type \<noteq> ''LocalScene''" by satx
  then show ?thesis
  proof cases
    case 1
    show ?thesis
    proof (cases "hylinkListGetById k S")
      case None
      then show ?thesis using assms(2) 1 add_known_in_step [OF assms(1) _ None] by (simp add: analy_item_types)
    next
      case (Some d)
      then show ?thesis using assms(2) 1 in_step_online [OF assms(1), of k d] by (auto simp: analy_item_types hylinkListGetById_def)
    qed
  next
    case 2
    then show ?thesis using assms by (auto simp: analy_item_types in_step_del in_step_quiet split: option.splits)
  next
    case 3
    then show ?thesis using assms analy_onoff_in_step by blast
  next
    case 4
    show ?thesis
    proof (cases "hylinkListGetById k S")
      case None
      then show ?thesis using assms analy_item_types(4) [OF 4] add_known_in_step [OF assms(1) _ None] by (auto split: if_splits)
    next
      case (Some d)
      then show ?thesis using assms(2) analy_item_types(4) [OF 4] analy_attr_in_step [OF assms(1), of k d] by (simp add: hylinkListGetById_def)
    qed
  next
    case 5
    then show ?thesis using assms analy_dev_info_in_step by (simp add: analy_item_types)
  next
    case 6
    then show ?thesis using assms analy_scene_in_step by blast
  next
    case 7
    then show ?thesis using assms by (simp add: analy_item_def)
  qed
qed

lemma analy_loop_in_step: "in_step S \<Longrightarrow> analy_loop E type i js k S = Some S' \<Longrightarrow> in_step S'"
proof (induction js arbitrary: i k S)
  case (Cons j js)
  then obtain d S1 where 1: "analy_item E type i j d S = Some S1" "analy_loop E type (Suc i) js d S1 = Some S'" by (auto split: Option.bind_splits)
  from Cons.IH [OF analy_item_in_step [OF Cons.prems(1) 1(1)] 1(2)] show ?case .
qed simp

lemma hylinkRecvAnaly_in_step: "in_step S \<Longrightarrow> hylinkRecvAnaly E data S = Some (r, S') \<Longrightarrow> in_step S'"
  by (auto simp: hylinkRecvAnaly_def Let_def in_step_quiet split: option.splits Option.bind_splits if_splits dest: analy_loop_in_step)

lemma hylinkRecv_in_step: "in_step S \<Longrightarrow> hylinkRecv_lib Es n data S = Some S' \<Longrightarrow> in_step S'"
proof (induction Es n data S arbitrary: S' rule: hylinkRecv_lib.induct)
  case (2 Es n c cs S)
  show ?case
  proof (cases "c = CHR 0x02")
    case True
    with "2.prems"(2) obtain r S1 where 1: "hylinkRecvAnaly (Es n) (takeWhile (\<lambda>c. c \<noteq> CHR 0x00) cs) S = Some (r, S1)"
      "hylinkRecv_lib Es (Suc n) (if r = 0 then drop 2 cs else cs) S1 = Some S'" by (auto split: Option.bind_splits)
    show ?thesis using "2.IH"(1) [OF True 1(1) refl hylinkRecvAnaly_in_step [OF "2.prems"(1) 1(1)] 1(2)] .
  next
    case False
    then show ?thesis using 2 by simp
  qed
qed simp

text \<open>What can happen to a user of the library, in any order.\<close>

inductive ad_step :: "adapter \<Rightarrow> adapter \<Rightarrow> bool" where
  recv: "hylinkRecv_lib Es 0 data S = Some S' \<Longrightarrow> ad_step S S'"
| delete: "hylinkDelDev E sn S = Some (r, S') \<Longrightarrow> ad_step S S'"
| ctrl: "hyCloudCtrlSend E sn m ty key j ck S = Some (r, S') \<Longrightarrow> ad_step S S'"
| connect: "connect_lib E S = Some S' \<Longrightarrow> ad_step S S'"
| heart: "ad_step S (hylinkHeart S)"

lemma ad_step_in_step: "ad_step S S' \<Longrightarrow> in_step S \<Longrightarrow> in_step S'"
proof (induction rule: ad_step.induct)
  case (recv Es data S S')
  then show ?case using hylinkRecv_in_step by blast
next
  case (delete E sn S r S')
  then obtain m where m: "quiet m" "S' = (if ae_send E \<ge> 0 then snd (hylinkListDelById sn (say [m] S)) else say [m] S)"
    by (auto simp: hylinkDelDev_def Let_def split: if_splits Option.bind_splits dest!: send_quiet)
  then show ?case using delete(2) by (simp add: in_step_del in_step_quiet)
qed (auto simp: hyCloudCtrlSend_def connect_lib_def hylinkHeart_def in_step_quiet send_quiet split: if_splits Option.bind_splits)

text \<open>Which texts the value of an attribute can take: an enumeration and a number those that \<open>atoi\<close> reads, a text one that fits its buffer
  or that is stored already.\<close>

definition fits :: "string \<Rightarrow> attr_value \<Rightarrow> bool" where
  "fits s v = (case v of V_Enum b \<Rightarrow> int_text s | V_Num w \<Rightarrow> int_text s | V_String t \<Rightarrow> s = t \<or> length s < 18 | V_None \<Rightarrow> True)"

lemma new_value_fits: "new_value sg s v = None \<longleftrightarrow> \<not> fits s v"
  by (cases v) (auto simp: new_value_def fits_def int_text_def)

lemma attr_update_fits:
  assumes "cJSON_GetObjectItem j ''Key'' = Some (JString key)" "cJSON_GetObjectItem j ''Value'' = Some (JString s)" "s \<noteq> []"
  shows "hylinkSubDevAttrUpdate sg d j = None \<longleftrightarrow>
    (\<exists>i < length (hd_attr d). hyKey (hd_attr d ! i) = key \<and> (\<forall>n < i. hyKey (hd_attr d ! n) \<noteq> key) \<and> \<not> fits s (attr_val (hd_attr d ! i)))"
proof (cases "List.find (\<lambda>i. strcmp (hyKey (hd_attr d ! i)) key = 0) [0..<length (hd_attr d)]")
  case None
  then have "hylinkSubDevAttrUpdate sg d j \<noteq> None" using assms by (auto simp: hylinkSubDevAttrUpdate_def)
  moreover have "\<forall>i < length (hd_attr d). hyKey (hd_attr d ! i) \<noteq> key" using None by (auto simp: find_None_iff)
  ultimately show ?thesis by blast
next
  case (Some i)
  then have i: "i < length (hd_attr d)" "hyKey (hd_attr d ! i) = key" "\<forall>n < i. hyKey (hd_attr d ! n) \<noteq> key"
    by (auto simp: find_Some_iff)
  have u: "(\<exists>m < length (hd_attr d). hyKey (hd_attr d ! m) = key \<and> (\<forall>n < m. hyKey (hd_attr d ! n) \<noteq> key) \<and> \<not> fits s (attr_val (hd_attr d ! m))) \<longleftrightarrow>
      \<not> fits s (attr_val (hd_attr d ! i))" using i by (metis linorder_neqE_nat)
  have "hylinkSubDevAttrUpdate sg d j = None \<longleftrightarrow> new_value sg s (attr_val (hd_attr d ! i)) = None"
    using assms Some i(1) by (auto simp: hylinkSubDevAttrUpdate_def split: sum.splits Option.bind_splits)
  then show ?thesis unfolding u new_value_fits .
qed

text \<open>C9. The cloud is in step with the devices. A run consists of messages of the gateway and commands of the cloud, in any order, as long
  as the code's behaviour is defined: the library checks no length, and a text that does not fit the buffer it is
  copied to ends the run. In every such run the values that were reported last for a device are those the library has stored
  for it, attribute by attribute, although only changes are reported. And for a report of an attribute of a stored device that is online,
  the run ends exactly when the device has the attribute and the text does not fit its value: 18 or more characters
  for a text other than the stored one, or a number outside of \<open>int\<close>; every other such report is handled.\<close>

theorem cloud_in_step:
  assumes "hylinkInit E = Some S0" "ad_step\<^sup>*\<^sup>* S0 S" "map_of (ad_devs S) k = Some d"
  shows "cloud_view (ad_sent S) k = Some (map attr_val (hd_attr d)) \<and> hd_devId d = k \<and>
    (\<forall>E n j key s. hd_online d \<noteq> SUBDEV_OFFLINE \<longrightarrow> cJSON_GetObjectItem j ''Key'' = Some (JString key) \<longrightarrow>
       cJSON_GetObjectItem j ''Value'' = Some (JString s) \<longrightarrow> s \<noteq> [] \<longrightarrow>
       (analy_item E ''Attribute'' n j k S = None \<longleftrightarrow>
         (\<exists>i < length (hd_attr d). hyKey (hd_attr d ! i) = key \<and> (\<forall>m < i. hyKey (hd_attr d ! m) \<noteq> key) \<and>
           (case attr_val (hd_attr d ! i) of V_String t \<Rightarrow> s \<noteq> t \<and> 18 \<le> length s | V_None \<Rightarrow> False
            | _ \<Rightarrow> atoi s < INT_MIN \<or> INT_MAX < atoi s))))"
proof -
  let ?S = "\<lparr>ad_devs = [], ad_sent = []\<rparr>"
  have e: "in_step ?S" by (simp add: in_step_def)
  obtain dv S1 where 1: "addProfileDev E (ae_mem E 0) HYLINK_PROFILE_PATH ''0000000000000000'' ''000000'' ?S = Some (dv, S1)"
    "S0 = (case dv of None \<Rightarrow> S1 | Some d \<Rightarrow> say [Cloud_Report d ATTR_REPORT_ALL] S1)"
    using assms(1) by (auto simp: hylinkInit_def split: Option.bind_splits)
  have "in_step S0" using addProfileDev_ok [OF 1(1)] in_step_add [OF e, of _ "[]"] e 1(2) by auto
  with assms(2) have "in_step S" by (induction rule: rtranclp_induct) (auto simp: ad_step_in_step)
  have n: "\<not> fits s v \<longleftrightarrow> (case v of V_String t \<Rightarrow> s \<noteq> t \<and> 18 \<le> length s | V_None \<Rightarrow> False | _ \<Rightarrow> atoi s < INT_MIN \<or> INT_MAX < atoi s)" for s v
    by (cases v) (auto simp: fits_def int_text_def)
  have "analy_item E ''Attribute'' n j k S = None \<longleftrightarrow> hylinkSubDevAttrUpdate (ae_signed E) d j = None" if "hd_online d \<noteq> SUBDEV_OFFLINE" for E n j
    using that assms(3) by (auto simp: analy_item_types hylinkListGetById_def analy_attr_def split: Option.bind_splits)
  moreover have "cloud_view (ad_sent S) k = Some (map attr_val (hd_attr d)) \<and> hd_devId d = k" using \<open>in_step S\<close> assms(3) by (simp add: in_step_def)
  ultimately show ?thesis by (simp add: attr_update_fits flip: n)
qed

definition profile_example :: json where
  "profile_example = JObject [(''modelId'', JString ''000000''), (''attr'', JArray [JObject [(''hyKey'', JString ''Time''), (''valueType'', JNumber 0), (''repeat'', JNumber 0)]])]"

definition time_report :: json where
  "time_report = JObject [(''Command'', JString ''Report''), (''Type'', JString ''Attribute''),
     (''Data'', JArray [text_obj [(''DeviceId'', ''0000000000000000''), (''Key'', ''Time''), (''Value'', ''5'')]])]"

definition ad_env_example :: "json \<Rightarrow> ad_env" where
  "ad_env_example j = \<lparr>ae_parse = (\<lambda>s. Some j), ae_print = (\<lambda>j. ''{}''), ae_file = (\<lambda>p. Some ''{}''), ae_mem = (\<lambda>i. (True, True)), ae_send = 0, ae_signed = True\<rparr>"

definition gw_dev :: "u8 \<Rightarrow> HyLinkDev" where
  "gw_dev b = \<lparr>hd_devId = ''0000000000000000'', hd_modelId = ''000000'', hd_online = 1, hd_attr = [\<lparr>hyKey = ''Time'', valueType = 0, attr_val = V_Enum b, repeat_flag = 0\<rparr>]\<rparr>"

lemma init_example:
  "hylinkInit (ad_env_example profile_example) = Some \<lparr>ad_devs = [(''0000000000000000'', gw_dev 0)], ad_sent = [Cloud_Report (gw_dev 0) 255]\<rparr>"
proof -
  have v: "valueint 0 = 0" by (simp add: valueint_def INT_MAX_def INT_MIN_def)
  have a: "parse_attr (JObject [(''hyKey'', JString ''Time''), (''valueType'', JNumber 0), (''repeat'', JNumber 0)]) = Some (hd (hd_attr (gw_dev 0)))"
    by (simp add: parse_attr_def to_lower_def gw_dev_def zero_value_def v)
  have f: "cJSON_GetObjectItem profile_example ''modelId'' = Some (JString ''000000'')"
    "cJSON_GetObjectItem profile_example ''attr'' = Some (JArray [JObject [(''hyKey'', JString ''Time''), (''valueType'', JNumber 0), (''repeat'', JNumber 0)]])"
    by (simp_all add: profile_example_def to_lower_def)
  show ?thesis
    by (simp add: hylinkInit_def addProfileDev_def hyLinkParseJson_def ad_env_example_def f a hylinkListAdd_lib_def say_def ATTR_REPORT_ALL_def Let_def)
      (simp add: gw_dev_def SUBDEV_ONLINE_def)
qed

lemma report_example_step:
  "hylinkRecv_lib (\<lambda>n. ad_env_example time_report) 0 [CHR 0x02] \<lparr>ad_devs = [(''0000000000000000'', gw_dev 0)], ad_sent = [Cloud_Report (gw_dev 0) 255]\<rparr> =
     Some \<lparr>ad_devs = [(''0000000000000000'', gw_dev 5)], ad_sent = [Cloud_Report (gw_dev 0) 255, Cloud_Report (gw_dev 5) 0, Mqtt_Report []]\<rparr>"
proof -
  let ?j = "text_obj [(''DeviceId'', ''0000000000000000''), (''Key'', ''Time''), (''Value'', ''5'')]" and ?E = "ad_env_example time_report"
  let ?S = "\<lparr>ad_devs = [(''0000000000000000'', gw_dev 0)], ad_sent = [Cloud_Report (gw_dev 0) 255]\<rparr>"
  have f: "cJSON_GetObjectItem time_report ''Command'' = Some (JString ''Report'')" "cJSON_GetObjectItem time_report ''Type'' = Some (JString ''Attribute'')"
    "cJSON_GetObjectItem time_report ''Data'' = Some (JArray [?j])" by (simp_all add: time_report_def to_lower_def)
  have k: "cJSON_GetObjectItem ?j ''DeviceId'' = Some (JString ''0000000000000000'')" "cJSON_GetObjectItem ?j ''Key'' = Some (JString ''Time'')"
    "cJSON_GetObjectItem ?j ''Value'' = Some (JString ''5'')" by (simp_all add: text_obj_map to_lower_def)
  have t: "findStrIndex (Some ''Attribute'') hylink_report_type = 3" "hylink_report_type ! 3 = ''Attribute''"
    by (simp_all add: findStrIndex_def hylink_report_type_def upt_rec numeral_eq_Suc)
  have a: "atoi ''5'' = 5" by code_simp
  have u: "hylinkSubDevAttrUpdate True (gw_dev 0) ?j = Some (0, gw_dev 5)"
    by (simp add: hylinkSubDevAttrUpdate_def k gw_dev_def new_value_def int_text_def INT_MIN_def INT_MAX_def a char_int_def set_attr_def)
  have "analy_attr ?E ?j (gw_dev 0) ?S = Some \<lparr>ad_devs = [(''0000000000000000'', gw_dev 5)], ad_sent = [Cloud_Report (gw_dev 0) 255, Cloud_Report (gw_dev 5) 0]\<rparr>"
    using u by (simp add: analy_attr_def ad_env_example_def say_def put_dev_def) (simp add: gw_dev_def SUBDEV_OFFLINE_def)
  then have "analy_loop ?E ''Attribute'' 0 [?j] [] ?S = Some \<lparr>ad_devs = [(''0000000000000000'', gw_dev 5)], ad_sent = [Cloud_Report (gw_dev 0) 255, Cloud_Report (gw_dev 5) 0]\<rparr>"
    by (simp add: getStrForJson_def k analy_item_types hylinkListGetById_def)
  with f t show ?thesis by (simp add: hylinkRecvAnaly_def ad_env_example_def say_def)
qed

theorem cloud_in_step_witness:
  "\<exists>S0 S. hylinkInit (ad_env_example profile_example) = Some S0 \<and> ad_step\<^sup>*\<^sup>* S0 S \<and> cloud_view (ad_sent S) ''0000000000000000'' = Some [V_Enum 5] \<and>
     analy_item (ad_env_example time_report) ''Attribute'' 0 (text_obj [(''Key'', ''Time''), (''Value'', ''4294967301'')]) ''0000000000000000'' S = None"
proof -
  let ?S = "\<lparr>ad_devs = [(''0000000000000000'', gw_dev 5)], ad_sent = [Cloud_Report (gw_dev 0) 255, Cloud_Report (gw_dev 5) 0, Mqtt_Report []]\<rparr>"
  let ?j = "text_obj [(''Key'', ''Time''), (''Value'', ''4294967301'')]"
  have s: "ad_step\<^sup>*\<^sup>* \<lparr>ad_devs = [(''0000000000000000'', gw_dev 0)], ad_sent = [Cloud_Report (gw_dev 0) 255]\<rparr> ?S"
    using ad_step.recv [OF report_example_step] by blast
  have "map_of (ad_devs ?S) ''0000000000000000'' = Some (gw_dev 5)" by simp
  note r = cloud_in_step [OF init_example s this]
  then have "cloud_view (ad_sent ?S) ''0000000000000000'' = Some [V_Enum 5]" by (simp add: gw_dev_def)
  moreover have k: "cJSON_GetObjectItem ?j ''Key'' = Some (JString ''Time'')" "cJSON_GetObjectItem ?j ''Value'' = Some (JString ''4294967301'')"
    by (simp_all add: text_obj_map to_lower_def)
  have a: "INT_MAX < atoi ''4294967301''" by code_simp
  have "hd_online (gw_dev 5) \<noteq> SUBDEV_OFFLINE" by (simp add: gw_dev_def SUBDEV_OFFLINE_def)
  with r k have "analy_item (ad_env_example time_report) ''Attribute'' 0 ?j ''0000000000000000'' ?S = None \<longleftrightarrow>
      (\<exists>i < length (hd_attr (gw_dev 5)). hyKey (hd_attr (gw_dev 5) ! i) = ''Time'' \<and> (\<forall>m < i. hyKey (hd_attr (gw_dev 5) ! m) \<noteq> ''Time'') \<and>
         (case attr_val (hd_attr (gw_dev 5) ! i) of V_String t \<Rightarrow> ''4294967301'' \<noteq> t \<and> 18 \<le> length ''4294967301'' | V_None \<Rightarrow> False
          | _ \<Rightarrow> atoi ''4294967301'' < INT_MIN \<or> INT_MAX < atoi ''4294967301''))" by blast
  then have "analy_item (ad_env_example time_report) ''Attribute'' 0 ?j ''0000000000000000'' ?S = None" using a by (simp add: gw_dev_def)
  ultimately show ?thesis using init_example s by blast
qed

section \<open>Reports of the same value\<close>

text \<open>The stored value says what the text says: always for numbers and texts, for an enumeration when it fits a \<open>char\<close>.\<close>

fun kept :: "bool \<Rightarrow> string \<Rightarrow> attr_value \<Rightarrow> bool" where
  "kept sg s (V_Enum b) = (char_int sg (of_int (atoi s)) = atoi s)"
| "kept sg s V_None = False"
| "kept sg s v = True"

lemma sint_of_int: "INT_MIN \<le> i \<Longrightarrow> i \<le> INT_MAX \<Longrightarrow> sint (of_int i :: u32) = i"
  by (simp add: INT_MIN_def INT_MAX_def int_word_sint)

lemma new_value_again: "new_value sg s v = Some (Inr w) \<Longrightarrow> new_value sg s w = Some (if kept sg s v then Inl w else Inr w)"
  by (auto simp: new_value_def int_text_def sint_of_int split: attr_value.splits if_splits)

lemma set_attr_attr: "i < length (hd_attr d) \<Longrightarrow> hd_attr (set_attr i v d) ! i = (hd_attr d ! i)\<lparr>attr_val := v\<rparr>"
    "i < length (hd_attr d) \<Longrightarrow> hyKey (hd_attr (set_attr i v d) ! k) = hyKey (hd_attr d ! k)" "length (hd_attr (set_attr i v d)) = length (hd_attr d)"
    "i < length (hd_attr d) \<Longrightarrow> set_attr i v (set_attr i v d) = set_attr i v d"
  by (simp_all add: set_attr_def nth_list_update)

lemma attr_update_found:
  assumes "hylinkSubDevAttrUpdate sg d j = Some (r, d')" "0 \<le> r"
  obtains i k s x where "r = int i" "i < length (hd_attr d)" "cJSON_GetObjectItem j ''Key'' = Some (JString k)" "cJSON_GetObjectItem j ''Value'' = Some (JString s)" "s \<noteq> []"
    "List.find (\<lambda>i. strcmp (hyKey (hd_attr d ! i)) k = 0) [0..<length (hd_attr d)] = Some i" "new_value sg s (attr_val (hd_attr d ! i)) = Some x"
    "(case x of Inl w \<Rightarrow> repeat_flag (hd_attr d ! i) = REPEAT_REPORT \<and> d' = d | Inr w \<Rightarrow> d' = set_attr i w d)"
proof -
  have v: "valuestring x = Some y \<longleftrightarrow> x = JString y" for x y by (cases x) auto
  have "\<exists>i k s x. r = int i \<and> cJSON_GetObjectItem j ''Key'' = Some (JString k) \<and> cJSON_GetObjectItem j ''Value'' = Some (JString s) \<and> s \<noteq> [] \<and>
    List.find (\<lambda>i. strcmp (hyKey (hd_attr d ! i)) k = 0) [0..<length (hd_attr d)] = Some i \<and> new_value sg s (attr_val (hd_attr d ! i)) = Some x \<and>
    (case x of Inl w \<Rightarrow> repeat_flag (hd_attr d ! i) = REPEAT_REPORT \<and> d' = d | Inr w \<Rightarrow> d' = set_attr i w d)"
    using assms unfolding hylinkSubDevAttrUpdate_def by (auto simp: v split: option.splits if_splits Option.bind_splits sum.splits)
  then show thesis using that find_index by blast
qed

text \<open>C40. Reports of the same value: after a report for which the value of an attribute was passed on, the same report once more is
  recognised as a repetition and not passed on, and nothing changes. There are three exceptions, which pass it on every time: an
  attribute whose profile asks for repeated reports; an attribute whose type is none of the three, whose value is
  never stored; and an enumeration for which a number arrives that does not fit a \<open>char\<close>, of which only the low byte is stored.\<close>

theorem same_report_suppressed:
  assumes "hylinkSubDevAttrUpdate sg d j = Some (r, d')" "0 \<le> r" "cJSON_GetObjectItem j ''Value'' = Some (JString s)"
    "a = hd_attr d ! nat r"
  shows "hylinkSubDevAttrUpdate sg d' j =
    Some (if repeat_flag a = REPEAT_REPORT \<or> attr_val a = V_None \<or> (\<exists>b. attr_val a = V_Enum b) \<and> char_int sg (of_int (atoi s)) \<noteq> atoi s
          then r else -2, d')"
proof -
  from attr_update_found [OF assms(1,2)] obtain i k s' x where
    u: "r = int i" "i < length (hd_attr d)" "cJSON_GetObjectItem j ''Key'' = Some (JString k)" "cJSON_GetObjectItem j ''Value'' = Some (JString s')" "s' \<noteq> []"
      "List.find (\<lambda>i. strcmp (hyKey (hd_attr d ! i)) k = 0) [0..<length (hd_attr d)] = Some i" "new_value sg s' (attr_val (hd_attr d ! i)) = Some x"
      "(case x of Inl w \<Rightarrow> repeat_flag (hd_attr d ! i) = REPEAT_REPORT \<and> d' = d | Inr w \<Rightarrow> d' = set_attr i w d)" by metis
  have s: "s' = s" using assms(3) u(4) by simp
  have k: "kept sg s v \<longleftrightarrow> \<not> (v = V_None \<or> (\<exists>b. v = V_Enum b) \<and> char_int sg (of_int (atoi s)) \<noteq> atoi s)" for v by (cases v) auto
  show ?thesis
  proof (cases x)
    case (Inl w)
    then show ?thesis using u(1,8) assms(1,4) by simp
  next
    case (Inr w)
    then have w: "d' = set_attr i w d" using u(8) by simp
    have "hd_attr d' \<noteq> []" using u(2) w by (auto simp: set_attr_def)
    moreover have "List.find (\<lambda>i. strcmp (hyKey (hd_attr d' ! i)) k = 0) [0..<length (hd_attr d')] = Some i"
      using u(2,6) by (simp add: w set_attr_attr)
    moreover have "new_value sg s (attr_val (hd_attr d' ! i)) = Some (if kept sg s (attr_val a) then Inl w else Inr w)"
      using new_value_again u(1,2,7) w Inr s assms(4) by (simp add: set_attr_attr)
    ultimately show ?thesis using assms(4) u(1-5) w s by (auto simp: hylinkSubDevAttrUpdate_def set_attr_attr k)
  qed
qed

theorem same_report_suppressed_witness:
  "\<exists>j. hylinkSubDevAttrUpdate True (gw_dev 0) j = Some (0, gw_dev 5) \<and> hylinkSubDevAttrUpdate True (gw_dev 5) j = Some (-2, gw_dev 5)"
proof -
  let ?j = "text_obj [(''DeviceId'', ''0000000000000000''), (''Key'', ''Time''), (''Value'', ''5'')]"
  have a: "atoi ''5'' = 5" by code_simp
  have k: "cJSON_GetObjectItem ?j ''Key'' = Some (JString ''Time'')" "cJSON_GetObjectItem ?j ''Value'' = Some (JString ''5'')" by (simp_all add: text_obj_map to_lower_def)
  have u: "hylinkSubDevAttrUpdate True (gw_dev 0) ?j = Some (0, gw_dev 5)"
    by (simp add: hylinkSubDevAttrUpdate_def k gw_dev_def new_value_def int_text_def INT_MIN_def INT_MAX_def a char_int_def set_attr_def)
  have p: "repeat_flag (hd_attr (gw_dev 0) ! nat 0) \<noteq> REPEAT_REPORT" "attr_val (hd_attr (gw_dev 0) ! nat 0) = V_Enum 0" "char_int True (of_int (atoi ''5'')) = atoi ''5''"
    by (simp_all add: gw_dev_def REPEAT_REPORT_def a char_int_def)
  show ?thesis using same_report_suppressed [OF u _ k(2) refl] p u by (intro exI [of _ ?j]) simp
qed

section \<open>The heart beat\<close>

text \<open>The heart beat of the library has no frame bytes: the gateway passes it on to the coordinator and does not answer it.\<close>

theorem heart_not_answered: "hylink_recv Es HY_HEART g = Some (gw_send [Zigbee_Write HY_HEART] g)"
proof -
  have "CHR 0x02 \<notin> set HY_HEART" by (simp add: HY_HEART_def)
  then show ?thesis by (simp add: hylink_recv_def no_more_frames)
qed

end
