(* ===== verification/Spec2Isabelle.thy ===== *)
theory Spec2Isabelle
  imports Circle_Queue Link_List Ptr_Hash Scene_Timer Scene_Tool Cond_List Scene_Cond Scene_Sync Scene_Exec Scene_Manage Action_List Md5 Scene_Run Hy_Start Hy_Adapter
begin

text \<open>
  A verification development for the Honyar gateway, the C program under \<open>src/hylink/src/\<close>: the scene engine
  (\<open>local_scene/\<close>), the gateway around it (\<open>hylink/\<close>, \<open>database/\<close>, \<open>hytool/\<close>), the client library \<open>src/libhylink/\<close>,
  and the encodings of its tool library.

  \<^bold>\<open>The program.\<close> A scene is a set of conditions and a list of actions. Conditions are about the time (weekday and
  time window) or about an event (a device reports a value for a key); they are grouped in sets, sets in
  four lists (time or event, any or all), and the truth of the scene is cached on each of these levels.
  Devices report values (\<open>scene_list_event\<close>), a thread checks the time conditions (\<open>scene_cond\<close>), and when the
  conditions of a scene become true, an entry is put into a queue that a second thread works off
  (\<open>scene_exec\<close>), which runs the actions of the scene. Scenes, conditions and actions are kept in memory and,
  write through, in a data base; an index finds the conditions and panels that belong to a device and key.
  When a condition asks to keep devices in step, the reported value is sent on to the other devices of
  its set and the answers are recognised (\<open>scene_sync\<close>).

  The gateway serves two kinds of clients, the cloud and the ZigBee coordinator. What one side sends is passed on to the
  other (\<open>hylink_recv\<close>, \<open>zigbee_recv\<close>) and then handled (\<open>hylinkRecvJson\<close>): reports go to the scene engine, devices are
  registered and removed, in memory and in a table (\<open>hylink.c\<close>, \<open>database.c\<close>), requests for scenes are executed by the
  engine, and new devices may join for a limited time (\<open>hytool.c\<close>). The programs for other clouds are clients of the
  gateway and share a library, \<open>src/libhylink/src/\<close>, that keeps a copy of the devices and passes changes on.

  \<^bold>\<open>Theories\<close> (one per C file or part of one, in the order of their dependencies):
  \<^item> \<open>Honyar_Prelude\<close>: status codes, C strings (\<open>strncpy\<close>, \<open>strncmp\<close>, \<open>atoi\<close>), words, data base statements as data, and
    the locale \<open>keyed_list\<close> for lists whose entries are identified by a key.
  \<^item> \<open>Circle_Queue\<close> (\<open>circle_queue.c\<close>): ring buffer of pointers; it keeps the newest values, and every value is
    freed or handed out exactly once.
  \<^item> \<open>Link_List\<close> (\<open>scene_link_list.c\<close>): the circular doubly linked list over an explicit heap; every operation is
    memory safe and implements a sequence. The theories above it use that sequence. The lock methods of the list do nothing;
    the last section shows that two insertions that overlap can lose a node.
  \<^item> \<open>Hash_Table\<close>, \<open>Ptr_Hash\<close> (\<open>hashtable.c\<close>, \<open>ptr_hash.c\<close>): chained table with growing, refined to a map, and the index
    of pointer records on top of it, refined to a map from keys to stacks of records.
  \<^item> \<open>Scene_Timer\<close> (\<open>scene_timer.c\<close>): the table of software timers and its tick; when each timer fires.
  \<^item> \<open>Scene_Tool\<close> (\<open>tool.c\<close>): number and time tests, search without regard to case.
  \<^item> \<open>Cond_List\<close> (\<open>condition_list.c\<close>): the lists of condition sets, all changing operations with their data base
    statements; a set that is put in at the head moves the truth bits of the others to their neighbours.
  \<^item> \<open>Base64\<close>, \<open>Md5\<close> (\<open>hytoolsdk/src/misc/misc_api.c\<close>): round trip of the encoding; the streaming digest is the digest of
    RFC 1321, which is stated on its own: padding, byte order, the four functions, the order and rotations of the 64 operations,
    and the constants as integer parts of \<open>4294967296 * |sin i|\<close>. Theory \<open>Sine_Table\<close> proves the values of these.
  \<^item> \<open>Db_Api\<close> (\<open>db_api.c\<close>): the queue of writes and the thread that executes them, in the order sent, as long as no two operations
    on the queue overlap; queries and the loop of the callers over their rows; the upgrade of older tables.
  \<^item> \<open>Action_List\<close> (\<open>action_list.c\<close>): actions, their data base statements, loading, synchronisation, execution.
  \<^item> \<open>Scene_Cond\<close> (\<open>scene_list.c\<close> 139--1779): when a condition is true, the cached truth on four levels, and what a
    change triggers; the stopping propagation is equal to full recomputation.
  \<^item> \<open>Scene_Sync\<close> (\<open>scene_sync.c\<close>): requests, sending passes and answers of the synchronisation.
  \<^item> \<open>Scene_Exec\<close> (\<open>scene_list.c\<close> 6659--7315): event handler, time check, queue and the rounds of the two threads, each
    alone; a queued scene runs in the first pass that reads a clock of at least its delay later, and not before.
  \<^item> \<open>Scene_Index\<close> (\<open>scene_list.c\<close> 2437--2563, 4021--6651): panels, conditions and actions of a scene, which live both in
    the lists of the scene and in the index: adding keeps both in step and the cached truth right; what deleting
    and clearing leave behind.
  \<^item> \<open>Scene_Run\<close> (the same part of \<open>scene_list.c\<close>): the tasks of the engine interleaved. A report, a time check or a pass over the queue
    is a sequence of steps, one per condition, panel or queue entry, and the others may run between them.
  \<^item> \<open>Scene_Manage\<close> (\<open>scene_list.c\<close> 2096--2264, 3008--3839): adding, finding, changing, deleting and clearing scenes,
    and the removal of a device: a deleted scene leaves nothing in the index.
  \<^item> \<open>Scene_Load\<close> (\<open>scene_list.c\<close> 1898--2095, 2266--3006, 3841--4018, 4321--6226 and 7318--7538, \<open>condition_list.c\<close> 470--783): the readers
    of rows, the synchronisation of a list with an array, which the code has once per kind of element and the theory
    once with a record of what they differ in, and the loading at the start: a restart restores scenes and conditions.
  \<^item> \<open>Json_Value\<close> (\<open>hytoolsdk/src/cjson/cjson.c\<close> 1813--1956, 3180--3596): JSON values, finding a field without regard to
    case, reading a field of any type into a buffer as text, building answers.
  \<^item> \<open>Scene_Protocol\<close> (\<open>scene.c\<close>): the requests. Every handler with its tests and defaults, the dispatcher, which equals the
    operations sorted by kind and done once each, and the entry points for requests and device reports; what a
    request stores is what a later request reads, and a condition added by request makes a later report
    execute its scene.
  \<^item> \<open>Hy_Link\<close> (\<open>hylink/*.c\<close>, \<open>database.c\<close>, \<open>hytool.c\<close>, \<open>client.c\<close>, \<open>libhytool/tool/commonFunc.c\<close>): the gateway. Its state is a record
    of the devices, their table, the scene list, the timers and what was sent; every message handler is a
    definition. The devices in memory are those of the table in every run and come back after a restart, a frame of
    the coordinator leads to the execution of the scenes whose conditions it makes true, the join mode ends, the factory
    reset leaves nothing; requests for scenes are executed once per element, and a long list of devices overruns its buffer.
  \<^item> \<open>Hy_Start\<close>: the start of the gateway with loading in it. Loading touches scenes and index only, and the gateway's report
    handler is registered too early and never set.
  \<^item> \<open>Hy_Adapter\<close> (\<open>libhylink/src/hylink/*.c\<close>): the client library. Devices with typed attributes from profile files, the
    messages of the gateway, the commands of a cloud; the cloud is in step with the stored values in every run
    with defined behaviour, although only changes are reported; which report leaves that behaviour is stated exactly; and a
    repeated report is recognised, with all exceptions.
  \<^item> this theory: the invariant of the interleaved engine.

  \<^bold>\<open>Conventions.\<close> Structs are records with the field names of the code (with a prefix where two structs share
  a name), a status is an integer with the code's constants, \<open>None\<close> as the result of an operation means that
  the code's behaviour is undefined there (an access outside an array, or through a null or freed
  pointer, or a number outside of the range of its type), and no operation needs fuel: every loop is a terminating function, but the one that waits for a
  busy data base (\<open>db_sql_exec\<close>), which is a partial function with the result \<open>None\<close> where it does not end. Counters and flags have the
  width of the code (\<open>u8\<close>, \<open>u32\<close>). Pointers to conditions, sets and scenes are numbers; a condition is reached
  through its list by the numbers of its set and its own. A text field is a string: \<open>strncpy\<close> keeps the first \<open>n\<close> characters, and
  a text of \<open>n\<close> or more leaves the field without a terminator, so that a reader of the C field runs on into the next one; theorems
  about what is read back from a field ask for texts that are shorter than their fields. The arguments of a \<open>\_db\<close> operation are sent to a
  parameter \<open>db\<close> that gives the status of each statement; operations return the statements they sent. Whether
  an allocation succeeds is a parameter as well. Clock, random numbers, message transport, JSON parser
  and callbacks are parameters of the definitions that use them; no theorem assumes more of them than its
  statement shows.

  \<^bold>\<open>Not modelled.\<close> The printers and log output; the parser and printer of JSON texts (requests, reports and
  messages are JSON values); the text of SQL statements and the data base engine; locks and the thread
  library. The code takes \<open>scene_lock\<close> in the requests, in the time check and around the actions of a queue entry, but
  not in the event handlers and activations, and the lists and queues have no lock of their own. The step relations of \<open>Scene_Run\<close> and
  \<open>Db_Api\<close> therefore assume no lock, but they do assume that the handling of one condition or panel and one operation on a
  queue are not interrupted; what may happen otherwise is shown for the list alone (\<open>Link_List\<close>). Not modelled either: \<open>time_cond_true_all\<close>, which nothing calls; sockets, signals and the drivers of lights and
  keys (what is sent to them is recorded in order; the callback tables of \<open>frameCb.c\<close> are filled once at the start and
  resolved to the functions in them); the programs that connect the gateway to other networks (but for
  their common library), which are built around the libraries of their vendors, and third-party code.
\<close>

section \<open>The running engine\<close>

text \<open>C2. Reports, checks, activations and the execution thread, interleaved condition by condition, panel by panel and queue entry by queue
  entry, with no lock assumed: starting from consistent scenes, a queue whose entries were made for scenes of the list and an index
  that leads to conditions, in every later state the cached truth of every scene is the logical meaning of the truth of its
  conditions; no scene appears, disappears, moves or changes anything but its conditions; the pointer index stays as it is; everything that
  was executed are the actions, or the report, of a scene of the list; and whatever the others did meanwhile, the conditions that a
  report or a check under way has still to visit exist, and those of a check can be evaluated. What is assumed is that the
  evaluation of one condition and one operation on the queue are not interrupted themselves. The code takes no lock for these in the
  event handlers, so this is an assumption about the schedule and not a guarantee of the code.\<close>

theorem engine_run_consistent:
  assumes "engine_run S xs S'" "engine_ok (eng S)" "index_valid (eng S)" "tasks S = []"
  shows "(\<forall>s \<in> snd ` set (scenes (eng S')). ucSceneCondTrue s = scene_spec s) \<and> engine_ok (eng S') \<and> same_scenes (eng S) (eng S') \<and>
    pHashTable (eng S') = pHashTable (eng S) \<and>
    (\<forall>x \<in> set xs. \<exists>s \<in> snd ` set (scenes (eng S)). x = Run_Actions (pstAction s) \<or> x = Report_Scene (acSceneId s)) \<and>
    (\<forall>e ps. Event_Task e ps \<in> set (tasks S') \<longrightarrow> (\<forall>p \<in> set ps. cond_of (eng S') p \<noteq> None)) \<and>
    (\<forall>ps ls. Check_Task ps ls \<in> set (tasks S') \<longrightarrow> (\<forall>p \<in> set ps. \<forall>mem tm now. time_cond_one mem tm now p (eng S') \<noteq> None))"
proof -
  have v: "engine_valid S'" using engine_run_valid [OF assms(1)] assms(2-4) by (simp add: engine_valid_def)
  have r: "same_engine (eng S) (eng S')" "\<forall>x \<in> set xs. step_of (eng S) x" using engine_run_ok [OF assms(1,2)] by simp_all
  have "\<forall>s \<in> snd ` set (scenes (eng S')). ucSceneCondTrue s = scene_spec s"
    using r(1) scene_ok_truth unfolding same_engine_def engine_ok_def scenes_ok_def by blast
  moreover have "engine_ok (eng S') \<and> same_scenes (eng S) (eng S') \<and> pHashTable (eng S') = pHashTable (eng S)" using r(1) by (simp add: same_engine_def)
  moreover have "\<forall>e ps. Event_Task e ps \<in> set (tasks S') \<longrightarrow> (\<forall>p \<in> set ps. cond_of (eng S') p \<noteq> None)"
    by (intro allI impI ballI) (rule report_goes_on [OF v])
  moreover have "\<forall>ps ls. Check_Task ps ls \<in> set (tasks S') \<longrightarrow> (\<forall>p \<in> set ps. \<forall>mem tm now. time_cond_one mem tm now p (eng S') \<noteq> None)"
    by (intro allI impI ballI) (rule check_goes_on(1) [OF v])
  ultimately show ?thesis using r(2) unfolding step_of_def by (intro conjI) simp_all
qed

text \<open>A scene that is activated by hand and run by the execution thread while a report is being handled.\<close>

definition manual_example :: scene_info where
  "manual_example = scene_example\<lparr>cManualTriggerFlag := 1, acSceneEnable := ''1'', acExecDelayed := ''0'', pstAction := 7\<rparr>"

theorem engine_run_consistent_witness:
  "\<exists>S'. engine_run \<lparr>eng = scenes_example manual_example, tasks = [], cursor = None\<rparr> [Run_Actions 7] S' \<and> engine_ok (eng S') \<and>
     tasks S' = [Event_Task (report_example ''1'') [event_ptr]] \<and> cond_of (eng S') event_ptr \<noteq> None"
proof -
  let ?L = "scenes_example manual_example" and ?e = "report_example ''1''"
  define S0 where "S0 = \<lparr>eng = ?L, tasks = [], cursor = None\<rparr>"
  define S1 where "S1 = S0\<lparr>tasks := [Event_Task ?e [event_ptr]]\<rparr>"
  define S2 where "S2 = S1\<lparr>cursor := Some 0\<rparr>"
  define S3 where "S3 = S2\<lparr>eng := ?L\<lparr>pstExecQueue := [entry_of 100 manual_example]\<rparr>\<rparr>"
  define S4 where "S4 = S3\<lparr>eng := ?L\<lparr>pstExecQueue := []\<rparr>\<rparr>"
  have ok: "scene_ok manual_example" using scene_example_ok by (simp add: manual_example_def scene_ok_def scene_truth_def)
  have eok: "engine_ok ?L" using scenes_example_ok [OF ok] by (simp add: engine_ok_def queue_ok_def scenes_example_def)
  have p: "has_place pstEventCondList ?L event_ptr"
    by (simp add: has_place_def manual_example_def scene_example_def cond_truth_def find_list_def get_set_def get_cond_def event_ptr_def get_scene_def
        scenes_example_def empty_list_def event_list_example_def bit_get_def) blast
  have iv: "index_valid ?L" using p by (auto simp: index_valid_def scenes_example_def table_example_def split: if_splits)
  have 1: "engine_step S0 [] S1"
    using engine_step.report_conds [of S0 ?e 5 "[event_ptr]"] table_example_find report_key by (simp add: S0_def S1_def cond_key_def scenes_example_def)
  have 2: "engine_step S1 [] S2" using engine_step.pass [of S1] by (simp add: S0_def S1_def S2_def)
  have 3: "engine_step S2 [] S3"
    using engine_step.active [of S2 1 manual_example "\<lambda>n. True" 100]
    by (simp add: S0_def S1_def S2_def S3_def get_scene_def scene_list_active_def manual_example_def exec_entry scenes_example_def strncmp_eq_0_lit len_defs)
  have "exec_one 100 False 0 [entry_of 100 manual_example] = (0, [], [Run_Actions 7])"
    by (simp add: exec_one_def due_def entry_of_def run_steps_of_def manual_example_def atoi_def isspace_def is_digit_def)
  then have 4: "engine_step S3 [Run_Actions 7] S4"
    using engine_step.entry [of S3 0 100 0 "[]" "[Run_Actions 7]"] by (simp add: S0_def S1_def S2_def S3_def S4_def scenes_example_def)
  have r: "engine_run S0 [Run_Actions 7] S4"
    using engine_run.step [OF 1 engine_run.step [OF 2 engine_run.step [OF 3 engine_run_step [OF 4]]]] by simp
  have t: "tasks S4 = [Event_Task ?e [event_ptr]]" by (simp add: S1_def S2_def S3_def S4_def)
  have "engine_ok (eng S0)" "index_valid (eng S0)" "tasks S0 = []" using eok iv by (simp_all add: S0_def)
  from engine_run_consistent [OF r this] have "engine_ok (eng S4)" "cond_of (eng S4) event_ptr \<noteq> None" using t by auto
  with r t show ?thesis unfolding S0_def by blast
qed

end
